(* ===== verification/Prelude.thy ===== *)
theory Prelude
  imports Complex_Main "HOL-Library.Word" "HOL-Library.Sublist" "HOL-Library.Multiset"
begin

text \<open>
  Shared vocabulary of the development: the exceptions a Python operation can raise, outcomes
  (an exception or a value), list access with Python's failure behaviour, the row-wise tensor
  operations that several components use (\<open>argmax\<close>, slices, reshapes into rows, prefix sums),
  and the generic lemmas about them.
\<close>

unbundle bit_operations_syntax

section \<open>Exceptions and outcomes\<close>

datatype py_error =
    ValueError string
  | RuntimeError string
  | IndexError
  | KeyError
  | TypeError
  | AttributeError
  | ZeroDivisionError
  | NotImplementedError
  | FileNotFoundError
  | AssertionError

type_synonym 'a outcome = "py_error + 'a"

text \<open>Sequencing: the first exception ends the computation.\<close>

definition obind :: "'a outcome \<Rightarrow> ('a \<Rightarrow> 'b outcome) \<Rightarrow> 'b outcome" where
  "obind r f = (case r of Inl e \<Rightarrow> Inl e | Inr x \<Rightarrow> f x)"

text \<open>\<open>if not c: raise e\<close> followed by the rest of the function.\<close>

definition require :: "bool \<Rightarrow> py_error \<Rightarrow> 'a outcome \<Rightarrow> 'a outcome" where
  "require c e k = (if c then k else Inl e)"

primrec omap :: "('a \<Rightarrow> 'b outcome) \<Rightarrow> 'a list \<Rightarrow> 'b list outcome" where
  "omap f [] = Inr []"
| "omap f (x # xs) = obind (f x) (\<lambda>y. obind (omap f xs) (\<lambda>ys. Inr (y # ys)))"

primrec ofold :: "('a \<Rightarrow> 's \<Rightarrow> 's outcome) \<Rightarrow> 'a list \<Rightarrow> 's \<Rightarrow> 's outcome" where
  "ofold f [] s = Inr s"
| "ofold f (x # xs) s = obind (f x s) (\<lambda>s'. ofold f xs s')"

definition onth :: "'a list \<Rightarrow> nat \<Rightarrow> 'a outcome" where
  "onth xs i = (if i < length xs then Inr (xs ! i) else Inl IndexError)"

text \<open>Indexing a list by a Python integer: negative indices count from the end.\<close>

definition py_nth :: "'a list \<Rightarrow> int \<Rightarrow> 'a outcome" where
  "py_nth xs i =
     (if 0 \<le> i \<and> i < int (length xs) then Inr (xs ! nat i)
      else if i < 0 \<and> - i \<le> int (length xs) then Inr (xs ! nat (int (length xs) + i))
      else Inl IndexError)"

named_theorems outcome_simps

lemma obind_simps [simp, outcome_simps]:
  "obind (Inr x) f = f x" "obind (Inl e) f = Inl e"
  by (simp_all add: obind_def)

lemma obind_Inr_iff:
  "obind r f = Inr y \<longleftrightarrow> (\<exists>x. r = Inr x \<and> f x = Inr y)"
  by (cases r) simp_all

lemma obindE:
  assumes "obind r f = Inr y"
  obtains x where "r = Inr x" "f x = Inr y"
  using assms by (auto simp: obind_Inr_iff)

lemma require_simps [simp, outcome_simps]:
  "require True e k = k" "require False e k = Inl e"
  by (simp_all add: require_def)

lemma require_Inr_iff: "require c e k = Inr y \<longleftrightarrow> c \<and> k = Inr y"
  by (simp add: require_def)

lemma onth_simps [simp, outcome_simps]:
  "i < length xs \<Longrightarrow> onth xs i = Inr (xs ! i)"
  "\<not> i < length xs \<Longrightarrow> onth xs i = Inl IndexError"
  by (simp_all add: onth_def)

lemma onth_Inr_iff: "onth xs i = Inr y \<longleftrightarrow> i < length xs \<and> y = xs ! i"
  by (auto simp: onth_def)

lemma py_nth_of_nat [simp]: "i < length xs \<Longrightarrow> py_nth xs (int i) = Inr (xs ! i)"
  by (simp add: py_nth_def)

lemma omap_Inr_map:
  "(\<And>x. x \<in> set xs \<Longrightarrow> f x = Inr (g x)) \<Longrightarrow> omap f xs = Inr (map g xs)"
  by (induction xs) auto

lemma omap_cong:
  "(\<And>x. x \<in> set xs \<Longrightarrow> f x = g x) \<Longrightarrow> omap f xs = omap g xs"
  by (induction xs) auto

lemma omap_Inr_nth:
  assumes "omap f xs = Inr ys"
  shows "length ys = length xs" and "\<And>i. i < length xs \<Longrightarrow> f (xs ! i) = Inr (ys ! i)"
proof -
  have "length ys = length xs \<and> (\<forall>i < length xs. f (xs ! i) = Inr (ys ! i))"
    using assms
  proof (induction xs arbitrary: ys)
    case (Cons x xs)
    then obtain z zs where "f x = Inr z" "omap f xs = Inr zs" "ys = z # zs"
      by (auto simp: obind_Inr_iff)
    with Cons.IH [of zs] show ?case by (auto simp: nth_Cons')
  qed simp
  then show "length ys = length xs" "\<And>i. i < length xs \<Longrightarrow> f (xs ! i) = Inr (ys ! i)" by auto
qed

lemma omap_all2:
  assumes "\<And>x. x \<in> set xs \<Longrightarrow> \<exists>y. f x = Inr y \<and> P x y"
  shows "\<exists>ys. omap f xs = Inr ys \<and> list_all2 P xs ys"
  using assms
proof (induction xs)
  case (Cons x xs)
  obtain y where "f x = Inr y" "P x y" using Cons.prems [of x] by auto
  moreover obtain ys where "omap f xs = Inr ys" "list_all2 P xs ys" using Cons by auto
  ultimately show ?case by auto
qed simp

lemma omap_Inl_first:
  assumes "x \<in> set xs" and "\<And>y. y \<in> set xs \<Longrightarrow> f y = Inl e \<or> (\<exists>z. f y = Inr z)" and "f x = Inl e"
  shows "omap f xs = Inl e"
  using assms
proof (induction xs)
  case (Cons y ys)
  show ?case
  proof (cases "f y")
    case (Inl e')
    with Cons.prems(2) [of y] show ?thesis by auto
  next
    case (Inr z)
    with Cons.prems have "x \<in> set ys" by auto
    with Cons.IH Cons.prems Inr show ?thesis by auto
  qed
qed simp

lemma ofold_append:
  "ofold f (xs @ ys) s = obind (ofold f xs s) (ofold f ys)"
  by (induction xs arbitrary: s) (auto simp: obind_def split: sum.splits)

lemma ofold_invariant:
  assumes "ofold f xs s = Inr s'" and "P s"
    and "\<And>x s s'. x \<in> set xs \<Longrightarrow> P s \<Longrightarrow> f x s = Inr s' \<Longrightarrow> P s'"
  shows "P s'"
  using assms
proof (induction xs arbitrary: s)
  case (Cons x xs)
  from Cons.prems(1) obtain t where "f x s = Inr t" "ofold f xs t = Inr s'"
    by (auto simp: obind_Inr_iff)
  then show ?case using Cons.IH [of t] Cons.prems by auto
qed simp

section \<open>Row operations\<close>

text \<open>
  \<open>torch.argmax\<close>: the index of the first maximal entry. The empty reduction raises.
\<close>

fun argmax :: "'a::linorder list \<Rightarrow> nat" where
  "argmax [] = 0"
| "argmax [x] = 0"
| "argmax (x # y # ys) = (let k = argmax (y # ys) in if (y # ys) ! k \<le> x then 0 else Suc k)"

definition torch_argmax :: "'a::linorder list \<Rightarrow> int outcome" where
  "torch_argmax row = (if row = [] then Inl IndexError else Inr (int (argmax row)))"

lemma argmax_less [simp]: "xs \<noteq> [] \<Longrightarrow> argmax xs < length xs"
  by (induction xs rule: argmax.induct) (auto simp: Let_def)

lemma argmax_max:
  "j < length xs \<Longrightarrow> xs ! j \<le> xs ! argmax xs"
proof (induction xs arbitrary: j rule: argmax.induct)
  case (3 x y ys)
  then show ?case
    by (cases j) (auto simp: Let_def intro: order_trans less_imp_le dest: not_le_imp_less)
qed auto

lemma argmax_first:
  "j < argmax xs \<Longrightarrow> xs ! j < xs ! argmax xs"
proof (induction xs arbitrary: j rule: argmax.induct)
  case (3 x y ys)
  then show ?case by (cases j) (auto simp: Let_def split: if_splits)
qed auto

lemma argmax_eqI:
  assumes "k < length xs" and "\<And>j. j < length xs \<Longrightarrow> xs ! j \<le> xs ! k"
    and "\<And>j. j < k \<Longrightarrow> xs ! j < xs ! k"
  shows "argmax xs = k"
proof (rule linorder_cases [of "argmax xs" k])
  assume "argmax xs < k"
  then have "xs ! argmax xs < xs ! k" by (rule assms(3))
  with argmax_max [OF assms(1)] show ?thesis by simp
next
  assume "k < argmax xs"
  then have "xs ! k < xs ! argmax xs" by (rule argmax_first)
  moreover have "argmax xs < length xs" using assms(1) by (intro argmax_less) auto
  ultimately show ?thesis using assms(2) [of "argmax xs"] by simp
qed

text \<open>\<open>xs[off : off + len(ys)] = ys\<close> for a range inside \<open>xs\<close>.\<close>

definition put_slice :: "'a list \<Rightarrow> nat \<Rightarrow> 'a list \<Rightarrow> 'a list" where
  "put_slice xs off ys = take off xs @ ys @ drop (off + length ys) xs"

lemma length_put_slice [simp]:
  "off + length ys \<le> length xs \<Longrightarrow> length (put_slice xs off ys) = length xs"
  by (simp add: put_slice_def)

lemma nth_put_slice:
  "off + length ys \<le> length xs \<Longrightarrow> i < length xs \<Longrightarrow>
     put_slice xs off ys ! i = (if off \<le> i \<and> i < off + length ys then ys ! (i - off) else xs ! i)"
  by (auto simp: put_slice_def nth_append min_def)

lemma put_slice_Nil [simp]: "put_slice xs off [] = xs"
  by (simp add: put_slice_def)

lemma put_slice_single: "off < length xs \<Longrightarrow> put_slice xs off [v] = xs[off := v]"
  by (simp add: put_slice_def upd_conv_take_nth_drop)

lemma put_slice_snoc:
  "off + length ys < length xs \<Longrightarrow> (put_slice xs off ys)[off + length ys := v] = put_slice xs off (ys @ [v])"
  by (rule nth_equalityI) (auto simp: nth_put_slice nth_list_update nth_append)

lemma take_list_update_Suc: "i < length xs \<Longrightarrow> take (Suc i) (xs[i := v]) = take i xs @ [v]"
  by (simp add: take_Suc_conv_app_nth)

lemma take_put_slice:
  "off + length ys \<le> length xs \<Longrightarrow> take (off + length ys) (put_slice xs off ys) = take off xs @ ys"
  by (simp add: put_slice_def)

lemma concat_map_single: "(\<And>x. x \<in> set xs \<Longrightarrow> f x = [g x]) \<Longrightarrow> concat (map f xs) = map g xs"
  by (induction xs) auto

lemma concat_replicate_single [simp]: "concat (replicate n [x]) = replicate n x"
  by (induction n) auto

text \<open>A prefix already written, extended by one slice or by one entry.\<close>

lemma take_put_grow:
  "take off xs = ps \<Longrightarrow> off + length ys \<le> length xs \<Longrightarrow> n = off + length ys \<Longrightarrow>
     take n (put_slice xs off ys) = ps @ ys"
  by (simp add: take_put_slice)

lemma take_update_grow:
  "take k xs = ps \<Longrightarrow> k < length xs \<Longrightarrow> n = Suc k \<Longrightarrow> take n (xs[k := v]) = ps @ [v]"
  by (simp add: take_list_update_Suc)

text \<open>\<open>reshape(-1, k)\<close> of a flat tensor, as rows, for a length that \<open>k\<close> divides.\<close>

function rows_of :: "nat \<Rightarrow> 'a list \<Rightarrow> 'a list list" where
  "rows_of k xs = (if k = 0 \<or> xs = [] then [] else take k xs # rows_of k (drop k xs))"
  by pat_completeness auto
termination
  by (relation "measure (\<lambda>(k, xs). length xs)") auto

declare rows_of.simps [simp del]

lemma rows_of_Nil [simp]: "rows_of k [] = []"
  by (subst rows_of.simps) simp

lemma rows_of_append:
  "k > 0 \<Longrightarrow> length ys = k \<Longrightarrow> rows_of k (ys @ zs) = ys # rows_of k zs"
  by (subst rows_of.simps) auto

lemma rows_of_concat:
  "k > 0 \<Longrightarrow> \<forall>r \<in> set rs. length r = k \<Longrightarrow> rows_of k (concat rs) = rs"
  by (induction rs) (auto simp: rows_of_append)

lemma concat_rows_of: "k > 0 \<Longrightarrow> concat (rows_of k xs) = xs"
proof (induction k xs rule: rows_of.induct)
  case (1 k xs)
  then show ?case by (subst rows_of.simps) auto
qed

lemma length_rows_of:
  "k > 0 \<Longrightarrow> length xs = n * k \<Longrightarrow> length (rows_of k xs) = n"
proof (induction n arbitrary: xs)
  case 0
  then show ?case by simp
next
  case (Suc n)
  then show ?case by (subst rows_of.simps) auto
qed

lemma rows_of_row_length:
  "k > 0 \<Longrightarrow> length xs = n * k \<Longrightarrow> r \<in> set (rows_of k xs) \<Longrightarrow> length r = k"
proof (induction n arbitrary: xs)
  case 0
  then show ?case by simp
next
  case (Suc n)
  have eq: "rows_of k xs = take k xs # rows_of k (drop k xs)"
    using Suc.prems by (subst rows_of.simps) auto
  have "length (drop k xs) = n * k" using Suc.prems by simp
  with Suc.IH [of "drop k xs"] Suc.prems eq show ?case by (auto simp: min_def)
qed

lemma nth_rows_of:
  "k > 0 \<Longrightarrow> length xs = n * k \<Longrightarrow> i < n \<Longrightarrow> j < k \<Longrightarrow> rows_of k xs ! i ! j = xs ! (i * k + j)"
proof (induction n arbitrary: xs i)
  case 0
  then show ?case by simp
next
  case (Suc n)
  have eq: "rows_of k xs = take k xs # rows_of k (drop k xs)"
    using Suc.prems by (subst rows_of.simps) auto
  show ?case
  proof (cases i)
    case 0
    with eq Suc.prems show ?thesis by simp
  next
    case (Suc i')
    have "rows_of k (drop k xs) ! i' ! j = drop k xs ! (i' * k + j)"
      using Suc.prems \<open>i = Suc i'\<close> by (intro Suc.IH) auto
    also have "\<dots> = xs ! (i * k + j)"
      using Suc.prems \<open>i = Suc i'\<close> by (simp add: add.assoc)
    finally show ?thesis using eq \<open>i = Suc i'\<close> by simp
  qed
qed

section \<open>Arithmetic\<close>

text \<open>\<open>(a + b - 1) // b\<close>, the ceiling division written throughout the code.\<close>

definition ceil_div :: "nat \<Rightarrow> nat \<Rightarrow> nat" where
  "ceil_div a b = (a + b - 1) div b"

lemma ceil_div_le_iff: "b > 0 \<Longrightarrow> ceil_div a b \<le> n \<longleftrightarrow> a \<le> n * b"
proof -
  assume b: "b > 0"
  have "ceil_div a b \<le> n \<longleftrightarrow> (a + b - 1) div b < Suc n" by (simp add: ceil_div_def less_Suc_eq_le)
  also have "\<dots> \<longleftrightarrow> a + b - 1 < Suc n * b" using b by (rule div_less_iff_less_mult)
  also have "\<dots> \<longleftrightarrow> a \<le> n * b" using b by auto
  finally show ?thesis .
qed

lemma ceil_div_less_iff: "b > 0 \<Longrightarrow> n < ceil_div a b \<longleftrightarrow> n * b < a"
  using ceil_div_le_iff [of b a n] by linarith

lemma div_less_ceil_div: "b > 0 \<Longrightarrow> i < a \<Longrightarrow> i div b < ceil_div a b"
  by (simp add: ceil_div_less_iff le_less_trans [OF div_times_less_eq_dividend])

lemma ceil_div_0 [simp]: "b > 0 \<Longrightarrow> ceil_div 0 b = 0"
  by (simp add: ceil_div_def)

lemma ceil_div_pos_iff: "b > 0 \<Longrightarrow> 0 < ceil_div a b \<longleftrightarrow> 0 < a"
  using ceil_div_less_iff [of b 0 a] by simp

lemma ceil_div_mono: "a \<le> a' \<Longrightarrow> ceil_div a b \<le> ceil_div a' b"
  by (simp add: ceil_div_def div_le_mono)

text \<open>Exclusive prefix sums, the \<open>indptr\<close> arrays of packed batches.\<close>

fun prefix_sums :: "nat \<Rightarrow> nat list \<Rightarrow> nat list" where
  "prefix_sums acc [] = [acc]"
| "prefix_sums acc (x # xs) = acc # prefix_sums (acc + x) xs"

lemma length_prefix_sums [simp]: "length (prefix_sums acc xs) = Suc (length xs)"
  by (induction xs arbitrary: acc) auto

lemma nth_prefix_sums:
  "i \<le> length xs \<Longrightarrow> prefix_sums acc xs ! i = acc + sum_list (take i xs)"
proof (induction xs arbitrary: acc i)
  case (Cons x xs)
  then show ?case by (cases i) auto
qed simp

lemma prefix_sums_not_Nil [simp]: "prefix_sums acc xs \<noteq> []"
  using length_prefix_sums [of acc xs] by fastforce

lemma last_prefix_sums: "last (prefix_sums acc xs) = acc + sum_list xs"
  by (induction xs arbitrary: acc) auto

lemma prefix_sums_append1:
  "prefix_sums acc (xs @ [x]) = prefix_sums acc xs @ [acc + sum_list xs + x]"
  by (induction xs arbitrary: acc) auto

lemma sum_list_take_Suc:
  "i < length xs \<Longrightarrow> sum_list (take (Suc i) xs) = sum_list (take i xs) + (xs ! i :: nat)"
  by (simp add: take_Suc_conv_app_nth)

lemma sum_list_take_mono:
  "i \<le> j \<Longrightarrow> sum_list (take i xs) \<le> (sum_list (take j xs) :: nat)"
proof (induction xs arbitrary: i j)
  case (Cons x xs)
  then show ?case by (cases i; cases j) auto
qed simp

lemma sum_list_take_le: "sum_list (take i xs) \<le> (sum_list xs :: nat)"
  using sum_list_take_mono [of i "max i (length xs)" xs] by simp

lemma length_concat_take:
  "length (concat (take i xss)) = sum_list (take i (map length xss))"
  by (simp add: length_concat take_map)

lemma nth_concat_offset:
  "i < length xss \<Longrightarrow> j < length (xss ! i) \<Longrightarrow>
     concat xss ! (sum_list (take i (map length xss)) + j) = xss ! i ! j"
proof (induction xss arbitrary: i)
  case (Cons xs xss)
  then show ?case by (cases i) (auto simp: nth_append add.assoc)
qed simp

lemma take_drop_concat:
  "i < length xss \<Longrightarrow>
     take (length (xss ! i)) (drop (sum_list (take i (map length xss))) (concat xss)) = xss ! i"
proof (induction xss arbitrary: i)
  case (Cons xs xss)
  then show ?case by (cases i) auto
qed simp

lemma sum_list_take_gap:
  assumes "i < i'" "i' < length xs" "j < (xs ! i :: nat)"
  shows "sum_list (take i xs) + j < sum_list (take i' xs)"
proof -
  have "sum_list (take (Suc i) xs) \<le> sum_list (take i' xs)"
    using assms(1) by (intro sum_list_take_mono) simp
  then show ?thesis using assms by (simp add: sum_list_take_Suc)
qed

lemma offset_cases:
  assumes "n < sum_list (ls :: nat list)"
  obtains i j where "i < length ls" "j < ls ! i" "n = sum_list (take i ls) + j"
  using assms
proof (induction ls arbitrary: n thesis)
  case (Cons l ls)
  show ?case
  proof (cases "n < l")
    case True
    then show ?thesis by (intro Cons.prems(1) [of 0 n]) auto
  next
    case False
    with Cons.prems(2) have "n - l < sum_list ls" by simp
    then obtain i j where "i < length ls" "j < ls ! i" "n - l = sum_list (take i ls) + j"
      by (rule Cons.IH [rotated])
    with False show ?thesis by (intro Cons.prems(1) [of "Suc i" j]) auto
  qed
qed simp

text \<open>\<open>torch.softmax\<close> of one row, in exact arithmetic.\<close>

definition softmax :: "real list \<Rightarrow> real list" where
  "softmax xs = (let z = sum_list (map exp xs) in map (\<lambda>x. exp x / z) xs)"

lemmas packed_simps = nth_prefix_sums length_concat_take nth_concat_offset

end
