(* ===== verification/Plan.thy ===== *)
theory Plan
  imports Prelude
begin

text \<open>
  The values that cross the boundary between the scheduler and the executors
  (\<open>einf/execution_plan.py\<close>, \<open>einf/execution.py\<close>, \<open>einf/request.py\<close>, which re-export the records
  of the Rust control plane), the executor used by the scheduler's tests
  (\<open>executors/fake.py\<close>) and the server loop (\<open>lib.py\<close>).
\<close>

section \<open>Plans and results\<close>

datatype work_type = Prefill | Decode

record sampling_params =
  temperature :: real
  top_k :: "nat option"
  top_p :: real
  min_p :: real
  seed :: int
  stop_token_ids :: "int list"
  num_logprobs :: nat

record sampling_plan =
  sp_params :: sampling_params
  sample_index :: nat

record scheduled_request =
  request_id :: string
  input_token_ids :: "int list"
  req_work_type :: work_type
  start_position :: nat
  block_table :: "int list"
  need_sample :: bool
  req_sampling_plan :: "sampling_plan option"

record batch_plan =
  step_id :: nat
  requests :: "scheduled_request list"

record request_execution_result =
  res_request_id :: string
  generated_token_ids :: "int list"
  cached_len_delta :: nat
  is_eos :: bool

record execution_result =
  res_step_id :: nat
  request_results :: "request_execution_result list"

section \<open>\<open>FakeExecutor\<close>\<close>

text \<open>\<open>input_token_ids[-1]\<close> is evaluated only under \<open>need_sample\<close>.\<close>

definition fake_request_result :: "scheduled_request \<Rightarrow> request_execution_result outcome" where
  "fake_request_result r =
     obind (if need_sample r
            then obind (py_nth (input_token_ids r) (- 1)) (\<lambda>t. Inr [t + 1])
            else Inr [])
       (\<lambda>gen. Inr \<lparr> res_request_id = request_id r, generated_token_ids = gen,
                    cached_len_delta = length (input_token_ids r), is_eos = False \<rparr>)"

definition fake_execute :: "batch_plan \<Rightarrow> execution_result outcome" where
  "fake_execute batch =
     obind (omap fake_request_result (requests batch))
       (\<lambda>rs. Inr \<lparr> res_step_id = step_id batch, request_results = rs \<rparr>)"

section \<open>\<open>LLMServer\<close>\<close>

text \<open>
  The scheduler and the executor are objects with a state of their own; the loop only uses the
  four methods below. \<open>schedule\<close>, \<open>fail_batch\<close> and \<open>apply_result\<close> run outside the \<open>try\<close> block, so
  what they raise leaves \<open>run_once\<close>.
\<close>

record ('s, 'e) server_env =
  schedule :: "'s \<Rightarrow> (batch_plan option \<times> 's) outcome"
  execute :: "batch_plan \<Rightarrow> 'e \<Rightarrow> execution_result outcome \<times> 'e"
  fail_batch :: "batch_plan \<Rightarrow> py_error \<Rightarrow> 's \<Rightarrow> 's outcome"
  apply_result :: "execution_result \<Rightarrow> 's \<Rightarrow> 's outcome"

definition run_once :: "('s, 'e) server_env \<Rightarrow> 's \<times> 'e \<Rightarrow> (bool \<times> 's \<times> 'e) outcome" where
  "run_once env st =
     obind (schedule env (fst st)) (\<lambda>(batch, s).
       case batch of
         None \<Rightarrow> Inr (False, s, snd st)
       | Some b \<Rightarrow>
           (case execute env b (snd st) of
              (Inl err, e) \<Rightarrow> obind (fail_batch env b err s) (\<lambda>s'. Inr (True, s', e))
            | (Inr result, e) \<Rightarrow> obind (apply_result env result s) (\<lambda>s'. Inr (True, s', e))))"

text \<open>\<open>while self.run_once(): pass\<close>; \<open>None\<close> is a loop that does not end.\<close>

partial_function (option) run_until_idle ::
    "('s, 'e) server_env \<Rightarrow> 's \<times> 'e \<Rightarrow> ('s \<times> 'e) outcome option" where
  "run_until_idle env st =
     (case run_once env st of
        Inl err \<Rightarrow> Some (Inl err)
      | Inr (again, st') \<Rightarrow> (if again then run_until_idle env st' else Some (Inr st')))"

section \<open>Facts\<close>

lemma fake_request_result_ok:
  "(need_sample r \<longrightarrow> input_token_ids r \<noteq> []) \<Longrightarrow>
     fake_request_result r =
       Inr \<lparr> res_request_id = request_id r,
             generated_token_ids = (if need_sample r then [last (input_token_ids r) + 1] else []),
             cached_len_delta = length (input_token_ids r), is_eos = False \<rparr>"
  by (auto simp: fake_request_result_def py_nth_def last_conv_nth Suc_le_eq nat_diff_distrib)

lemma fake_request_result_empty:
  "need_sample r \<Longrightarrow> input_token_ids r = [] \<Longrightarrow> fake_request_result r = Inl IndexError"
  by (simp add: fake_request_result_def py_nth_def)

lemma run_once_executor_error:
  assumes "schedule env s = Inr (Some b, s1)" and "execute env b e = (Inl err, e1)"
  shows "run_once env (s, e) = obind (fail_batch env b err s1) (\<lambda>s2. Inr (True, s2, e1))"
  using assms by (simp add: run_once_def)

lemma run_until_idle_total_aux:
  fixes m :: "'s \<times> 'e \<Rightarrow> nat"
  assumes "\<And>st st'. run_once env st = Inr (True, st') \<Longrightarrow> m st' < m st"
  shows "\<exists>r. run_until_idle env st = Some r"
proof (induction st rule: measure_induct_rule [where f = m])
  case (less st)
  show ?case
  proof (cases "run_once env st")
    case (Inl err)
    then show ?thesis by (subst run_until_idle.simps) simp
  next
    case (Inr r)
    obtain b st' where r: "r = (b, st')" by (cases r)
    show ?thesis
    proof (cases b)
      case True
      with Inr r have once: "run_once env st = Inr (True, st')" by simp
      from less.IH [OF assms [OF once]] once show ?thesis by (subst run_until_idle.simps) simp
    next
      case False
      with Inr r show ?thesis by (subst run_until_idle.simps) simp
    qed
  qed
qed

end
