(* ===== verification/Storage.thy ===== *)
theory Storage
  imports Prelude
begin

text \<open>
  The paged K/V cache (\<open>cache/storage.py\<close>). A layer's cache is the flattened list of its
  \<open>num_blocks * block_len\<close> slots, the view \<open>_layer_slots\<close> takes; a slot holds the
  \<open>[kv_heads, head_dim]\<close> vector of one token, of the abstract type \<open>'x\<close>. The dtype conversion
  \<open>Tensor.to\<close> is the parameter \<open>cast\<close>.
\<close>

datatype kv_dtype = Float32 | Float16 | BFloat16 | Float8_e4m3fn | Other_dtype

record kv_geometry =
  num_layers :: nat
  num_blocks :: nat
  geo_block_len :: nat
  num_kv_heads :: nat
  geo_head_dim :: nat

record 'x kv_storage =
  geometry :: kv_geometry
  st_kv_dtype :: kv_dtype
  k_scale :: real
  v_scale :: real
  K_cache :: "'x list list"
  V_cache :: "'x list list"
  use_custom_ops :: bool

section \<open>Operations\<close>

definition float_dtypes :: "kv_dtype list" where
  "float_dtypes = [Float32, Float16, BFloat16]"

text \<open>
  \<open>TorchKVCacheStorage.__init__\<close>; \<open>fill\<close> is the content \<open>torch.empty\<close> happens to return and
  \<open>is_cuda\<close> the device of the allocated tensor.
\<close>

definition storage_init ::
    "kv_geometry \<Rightarrow> kv_dtype \<Rightarrow> bool \<Rightarrow> bool option \<Rightarrow> kv_dtype option \<Rightarrow> real \<Rightarrow> real \<Rightarrow> 'x
       \<Rightarrow> 'x kv_storage outcome" where
  "storage_init g dtype is_cuda custom kv_dt ks vs fill =
     (let kv = (case kv_dt of None \<Rightarrow> dtype | Some d \<Rightarrow> d);
          layer = replicate (num_blocks g * geo_block_len g) fill;
          cache = replicate (num_layers g) layer;
          use = (case custom of None \<Rightarrow> is_cuda | Some b \<Rightarrow> b)
      in require (kv \<in> set (float_dtypes @ [Float8_e4m3fn])) (ValueError ''unsupported KV cache dtype'')
         (require (\<not> (kv = Float8_e4m3fn \<and> (ks \<noteq> 1 \<or> vs \<noteq> 1)))
            (ValueError ''FP8 KV cache scale dequantization is not wired'')
         (require (\<not> (use \<and> \<not> is_cuda)) (ValueError ''custom KV Cache ops require a CUDA device'')
            (Inr \<lparr> geometry = g, st_kv_dtype = kv, k_scale = ks, v_scale = vs,
                   K_cache = cache, V_cache = cache, use_custom_ops = use \<rparr>))))"

text \<open>\<open>index_copy_(0, index, source)\<close> on the slot dimension: the rows are written in order.\<close>

definition index_copy :: "int list \<Rightarrow> 'x list \<Rightarrow> 'x list \<Rightarrow> 'x list outcome" where
  "index_copy idx src xs =
     require (length idx = length src) (RuntimeError ''index_copy_(): source size mismatch'')
       (require (\<forall>i \<in> set idx. 0 \<le> i \<and> i < int (length xs)) IndexError
          (Inr (fold (\<lambda>(i, x) ys. ys[nat i := x]) (zip idx src) xs)))"

definition index_select :: "int list \<Rightarrow> 'x list \<Rightarrow> 'x list outcome" where
  "index_select idx xs =
     omap (\<lambda>i. if 0 \<le> i \<and> i < int (length xs) then Inr (xs ! nat i) else Inl IndexError) idx"

definition layer_slots :: "'x list list \<Rightarrow> nat \<Rightarrow> 'x list outcome" where
  "layer_slots cache layer = onth cache layer"

definition layer_cache :: "'x kv_storage \<Rightarrow> nat \<Rightarrow> ('x list \<times> 'x list) outcome" where
  "layer_cache s layer =
     obind (layer_slots (K_cache s) layer) (\<lambda>k. obind (layer_slots (V_cache s) layer) (\<lambda>v. Inr (k, v)))"

text \<open>
  The native operators of the CUDA path (\<open>write_slots_\<close>, \<open>gather_context\<close>) are the arguments
  \<open>write_op\<close> and \<open>gather_op\<close>. On the other path the values are converted to the storage dtype
  when their own differs; the byte view of an FP8 cache is the same list of slots.
\<close>

definition write_slots ::
    "('x list \<Rightarrow> 'x list \<Rightarrow> int list \<Rightarrow> 'x list \<Rightarrow> 'x list \<Rightarrow> ('x list \<times> 'x list) outcome)
       \<Rightarrow> (kv_dtype \<Rightarrow> 'x \<Rightarrow> 'x) \<Rightarrow> kv_dtype \<Rightarrow> 'x kv_storage \<Rightarrow> nat \<Rightarrow> int list \<Rightarrow> 'x list \<Rightarrow> 'x list
       \<Rightarrow> 'x kv_storage outcome" where
  "write_slots write_op cast src_dtype s layer slots ks vs =
     (if use_custom_ops s
      then obind (layer_cache s layer) (\<lambda>(k, v). obind (write_op k v slots ks vs) (\<lambda>(k', v').
             Inr (s\<lparr> K_cache := (K_cache s)[layer := k'], V_cache := (V_cache s)[layer := v'] \<rparr>)))
      else
        (let conv = (if src_dtype \<noteq> st_kv_dtype s then map (cast (st_kv_dtype s)) else (\<lambda>xs. xs))
         in obind (layer_slots (K_cache s) layer) (\<lambda>k. obind (layer_slots (V_cache s) layer) (\<lambda>v.
              obind (index_copy slots (conv ks) k) (\<lambda>k'. obind (index_copy slots (conv vs) v) (\<lambda>v'.
                Inr (s\<lparr> K_cache := (K_cache s)[layer := k'], V_cache := (V_cache s)[layer := v'] \<rparr>)))))))"

definition assert_readable :: "'x kv_storage \<Rightarrow> unit outcome" where
  "assert_readable s = require (st_kv_dtype s \<in> set float_dtypes) NotImplementedError (Inr ())"

definition read_slots :: "'x kv_storage \<Rightarrow> nat \<Rightarrow> int list \<Rightarrow> ('x list \<times> 'x list) outcome" where
  "read_slots s layer slots =
     obind (assert_readable s) (\<lambda>_.
       obind (layer_slots (K_cache s) layer) (\<lambda>k. obind (layer_slots (V_cache s) layer) (\<lambda>v.
         obind (index_select slots k) (\<lambda>ks. obind (index_select slots v) (\<lambda>vs. Inr (ks, vs))))))"

text \<open>
  The flattened slot of an absolute position, \<open>table[pos // block_len] * block_len + pos % block_len\<close>,
  an expression the storage, the input builders, the decode graph and the speculative engine share.
\<close>

definition slot_of :: "int list \<Rightarrow> nat \<Rightarrow> nat \<Rightarrow> int outcome" where
  "slot_of table bl pos =
     require (bl \<noteq> 0) ZeroDivisionError
       (obind (onth table (pos div bl)) (\<lambda>b. Inr (b * int bl + int (pos mod bl))))"

definition gather_context ::
    "('x list \<Rightarrow> 'x list \<Rightarrow> int list \<Rightarrow> nat \<Rightarrow> ('x list \<times> 'x list) outcome)
       \<Rightarrow> 'x kv_storage \<Rightarrow> nat \<Rightarrow> int list \<Rightarrow> nat \<Rightarrow> ('x list \<times> 'x list) outcome" where
  "gather_context gather_op s layer table context_len =
     obind (assert_readable s) (\<lambda>_.
       if use_custom_ops s
       then obind (layer_cache s layer) (\<lambda>(k, v). gather_op k v table context_len)
       else obind (omap (slot_of table (geo_block_len (geometry s))) [0..<context_len])
              (\<lambda>slots. read_slots s layer slots))"

section \<open>Slots\<close>

text \<open>The slot as a total function, for positions whose page is in the table.\<close>

definition slot_at :: "int list \<Rightarrow> nat \<Rightarrow> nat \<Rightarrow> int" where
  "slot_at table bl pos = table ! (pos div bl) * int bl + int (pos mod bl)"

lemma slot_of_Inr [simp]:
  "bl > 0 \<Longrightarrow> pos div bl < length table \<Longrightarrow> slot_of table bl pos = Inr (slot_at table bl pos)"
  by (simp add: slot_of_def slot_at_def)

lemma slot_of_errors:
  "slot_of table 0 pos = Inl ZeroDivisionError"
  "bl > 0 \<Longrightarrow> \<not> pos div bl < length table \<Longrightarrow> slot_of table bl pos = Inl IndexError"
  by (simp_all add: slot_of_def)

lemma slot_of_Inr_iff:
  "slot_of table bl pos = Inr y \<longleftrightarrow> bl > 0 \<and> pos div bl < length table \<and> y = slot_at table bl pos"
  by (cases "bl = 0"; cases "pos div bl < length table") (auto simp: slot_of_errors)

lemma slot_at_div_mod:
  assumes "bl > 0"
  shows "slot_at table bl pos div int bl = table ! (pos div bl)"
    and "slot_at table bl pos mod int bl = int (pos mod bl)"
  using assms by (simp_all add: slot_at_def zmod_int [symmetric] div_mult_self3)

lemma slot_at_inj:
  assumes "bl > 0" "distinct table" "p div bl < length table" "q div bl < length table"
    and "slot_at table bl p = slot_at table bl q"
  shows "p = q"
proof -
  have "table ! (p div bl) = table ! (q div bl)" "int (p mod bl) = int (q mod bl)"
    using slot_at_div_mod [OF assms(1), of table] assms(5) by metis+
  then have "p div bl = q div bl" "p mod bl = q mod bl"
    using assms by (auto simp: nth_eq_iff_index_eq)
  then show ?thesis by (metis div_mult_mod_eq)
qed

lemma slot_at_bounds:
  assumes "bl > 0" "0 \<le> table ! (pos div bl)" "table ! (pos div bl) < int nb"
  shows "0 \<le> slot_at table bl pos" and "slot_at table bl pos < int (nb * bl)"
proof -
  show "0 \<le> slot_at table bl pos" using assms by (simp add: slot_at_def)
  have "int (pos mod bl) < int bl" using assms(1) by simp
  moreover have "(table ! (pos div bl) + 1) * int bl \<le> int nb * int bl"
    using assms by (intro mult_right_mono) auto
  ultimately show "slot_at table bl pos < int (nb * bl)"
    by (simp add: slot_at_def algebra_simps)
qed

text \<open>The identity page table of the speculative engine maps a position to itself.\<close>

lemma slot_at_identity:
  "bl > 0 \<Longrightarrow> pos div bl < n \<Longrightarrow> slot_at (map int [0..<n]) bl pos = int pos"
  by (simp add: slot_at_def) (metis div_mult_mod_eq of_nat_add of_nat_mult)

section \<open>Scatter and gather\<close>

lemma length_scatter [simp]:
  "length (fold (\<lambda>(i, x) ys. ys[nat i := x]) ps xs) = length xs"
  by (induction ps arbitrary: xs) auto

lemma scatter_other:
  "\<forall>p \<in> set ps. nat (fst p) \<noteq> j \<Longrightarrow> fold (\<lambda>(i, x) ys. ys[nat i := x]) ps xs ! j = xs ! j"
  by (induction ps arbitrary: xs) auto

lemma scatter_at:
  assumes "k < length idx" "length src = length idx" "distinct (map nat idx)"
    "\<forall>i \<in> set idx. nat i < length xs"
  shows "fold (\<lambda>(i, x) ys. ys[nat i := x]) (zip idx src) xs ! nat (idx ! k) = src ! k"
  using assms
proof (induction idx arbitrary: src xs k)
  case (Cons i idx)
  then obtain x src' where src: "src = x # src'" by (cases src) auto
  show ?case
  proof (cases k)
    case 0
    have "\<forall>p \<in> set (zip idx src'). nat (fst p) \<noteq> nat i"
      using Cons.prems(3) by (auto dest!: set_zip_leftD) (metis imageI)
    with src 0 Cons.prems show ?thesis by (simp add: scatter_other)
  next
    case (Suc k')
    with Cons.IH [of k' src' "xs[nat i := x]"] Cons.prems src show ?thesis by simp
  qed
qed simp

lemma distinct_map_nat: "distinct idx \<Longrightarrow> \<forall>i \<in> set idx. 0 \<le> i \<Longrightarrow> distinct (map nat idx)"
  by (auto simp: distinct_map inj_on_def nat_eq_iff)

lemma index_copy_Inr:
  assumes "length idx = length src" "\<forall>i \<in> set idx. 0 \<le> i \<and> i < int (length xs)"
  shows "index_copy idx src xs = Inr (fold (\<lambda>(i, x) ys. ys[nat i := x]) (zip idx src) xs)"
  using assms by (simp add: index_copy_def)

lemma index_select_Inr:
  "\<forall>i \<in> set idx. 0 \<le> i \<and> i < int (length xs) \<Longrightarrow>
     index_select idx xs = Inr (map (\<lambda>i. xs ! nat i) idx)"
  unfolding index_select_def by (rule omap_Inr_map) simp

lemma index_select_out_of_range:
  "i \<in> set idx \<Longrightarrow> \<not> (0 \<le> i \<and> i < int (length xs)) \<Longrightarrow> index_select idx xs = Inl IndexError"
  unfolding index_select_def by (rule omap_Inl_first [of i]) auto

lemma select_after_copy:
  assumes "length idx = length src" "\<forall>i \<in> set idx. 0 \<le> i \<and> i < int (length xs)" "distinct idx"
    and "index_copy idx src xs = Inr ys"
  shows "index_select idx ys = Inr src"
proof -
  have ys: "ys = fold (\<lambda>(i, x) ys. ys[nat i := x]) (zip idx src) xs"
    using assms by (simp add: index_copy_Inr)
  have "map (\<lambda>i. ys ! nat i) idx = src"
  proof (rule nth_equalityI)
    fix k assume "k < length (map (\<lambda>i. ys ! nat i) idx)"
    then have k: "k < length idx" by simp
    have "ys ! nat (idx ! k) = src ! k"
      unfolding ys using assms(1-3) k
      by (intro scatter_at distinct_map_nat) auto
    with k show "map (\<lambda>i. ys ! nat i) idx ! k = src ! k" by simp
  qed (use assms in simp)
  moreover have "index_select idx ys = Inr (map (\<lambda>i. ys ! nat i) idx)"
    using assms(2) by (intro index_select_Inr) (simp add: ys)
  ultimately show ?thesis by simp
qed

lemma copy_other:
  assumes "index_copy idx src xs = Inr ys" "j \<notin> set idx" "0 \<le> j"
  shows "ys ! nat j = xs ! nat j"
proof -
  have "ys = fold (\<lambda>(i, x) ys. ys[nat i := x]) (zip idx src) xs"
    and "\<forall>i \<in> set idx. 0 \<le> i"
    using assms by (auto simp: index_copy_def require_Inr_iff)
  then show ?thesis using assms(2,3)
    by (auto intro!: scatter_other dest!: set_zip_leftD simp: nat_eq_iff)
qed

lemma length_index_copy: "index_copy idx src xs = Inr ys \<Longrightarrow> length ys = length xs"
  by (auto simp: index_copy_def require_Inr_iff)

end
