(* ===== verification/Input.thy ===== *)
theory Input
  imports Plan Storage
begin

text \<open>
  The packed model input (\<open>executors/torch/input.py\<close>): the \<open>ModelInput\<close> record, its direct
  construction from a plan (\<open>from_plan\<close>) and the pooled construction that reuses staging buffers
  (\<open>ModelInputPool\<close>). Tensors are lists; a buffer that was never allocated (\<open>None\<close> in the code)
  is the empty list.
\<close>

section \<open>\<open>ModelInput\<close>\<close>

record model_input =
  mi_input_token_ids :: "int list"
  mi_position :: "int list"
  mi_slot_mapping :: "int list"
  mi_query_start_loc :: "int list"
  mi_block_tables :: "int list list"
  mi_context_lens :: "int list"
  mi_query_start_loc_host :: "nat list"
  mi_context_lens_host :: "nat list"
  mi_flashinfer_csr :: "(int list \<times> int list \<times> int list \<times> int list) option"
  mi_is_decode_only :: bool
  mi_packed_mask :: "8 word list option"

definition is_decode_only_plan :: "batch_plan \<Rightarrow> bool" where
  "is_decode_only_plan plan =
     (requests plan \<noteq> [] \<and> list_all (\<lambda>r. length (input_token_ids r) = 1) (requests plan))"

text \<open>\<open>pad_sequence(..., padding_value=-1)\<close>: rows padded to the longest; an empty batch raises.\<close>

definition max_len :: "'a list list \<Rightarrow> nat" where
  "max_len xss = foldr (\<lambda>xs m. max (length xs) m) xss 0"

definition pad_row :: "nat \<Rightarrow> int list \<Rightarrow> int list" where
  "pad_row n xs = xs @ replicate (n - length xs) (- 1)"

definition pad_sequence :: "int list list \<Rightarrow> int list list outcome" where
  "pad_sequence rows =
     (if rows = [] then Inl (RuntimeError ''received an empty list of sequences'')
      else Inr (map (pad_row (max_len rows)) rows))"

definition request_slots :: "nat \<Rightarrow> scheduled_request \<Rightarrow> int list outcome" where
  "request_slots bl r =
     omap (\<lambda>t. slot_of (block_table r) bl (t + start_position r)) [0..<length (input_token_ids r)]"

definition request_positions :: "scheduled_request \<Rightarrow> int list" where
  "request_positions r = map (\<lambda>i. int (start_position r + i)) [0..<length (input_token_ids r)]"

definition request_context :: "scheduled_request \<Rightarrow> nat" where
  "request_context r = start_position r + length (input_token_ids r)"

definition from_plan :: "batch_plan \<Rightarrow> nat \<Rightarrow> model_input outcome" where
  "from_plan plan bl =
     (let rs = requests plan;
          qsl = prefix_sums 0 (map (\<lambda>r. length (input_token_ids r)) rs);
          ctx = map request_context rs
      in obind (omap (request_slots bl) rs) (\<lambda>slots.
         obind (pad_sequence (map block_table rs)) (\<lambda>tables.
           Inr \<lparr> mi_input_token_ids = concat (map input_token_ids rs),
                 mi_position = concat (map request_positions rs),
                 mi_slot_mapping = concat slots,
                 mi_query_start_loc = map int qsl,
                 mi_block_tables = tables,
                 mi_context_lens = map int ctx,
                 mi_query_start_loc_host = qsl,
                 mi_context_lens_host = ctx,
                 mi_flashinfer_csr = None,
                 mi_is_decode_only = False,
                 mi_packed_mask = None \<rparr>)))"

definition from_batch :: "batch_plan \<Rightarrow> nat \<Rightarrow> model_input outcome" where
  "from_batch batch bl = from_plan batch bl"

section \<open>\<open>ModelInputPool\<close>\<close>

record pool =
  batch_cap :: nat
  pages_cap :: nat
  tokens_cap :: nat
  nnz_cap :: nat
  allocations :: nat
  host_tokens :: "int list"
  host_position :: "int list"
  host_slots :: "int list"
  host_qsl :: "int list"
  host_context :: "int list"
  host_pages :: "int list list"
  host_qo_indptr :: "int list"
  host_kv_indptr :: "int list"
  host_last_page :: "int list"
  host_kv_indices :: "int list"
  d_tokens :: "int list"
  d_position :: "int list"
  d_slots :: "int list"
  d_qsl :: "int list"
  d_context :: "int list"
  d_pages :: "int list list"
  d_kv_indices :: "int list"

definition pool_init :: pool where
  "pool_init =
     \<lparr> batch_cap = 0, pages_cap = 0, tokens_cap = 0, nnz_cap = 0, allocations = 0,
       host_tokens = [], host_position = [], host_slots = [], host_qsl = [], host_context = [],
       host_pages = [], host_qo_indptr = [], host_kv_indptr = [], host_last_page = [],
       host_kv_indices = [], d_tokens = [], d_position = [], d_slots = [], d_qsl = [],
       d_context = [], d_pages = [], d_kv_indices = [] \<rparr>"

text \<open>\<open>_ensure\<close>; \<open>junk\<close> is the content \<open>torch.empty\<close> happens to return.\<close>

definition pool_ensure :: "int \<Rightarrow> nat \<Rightarrow> nat \<Rightarrow> nat \<Rightarrow> nat \<Rightarrow> pool \<Rightarrow> pool" where
  "pool_ensure junk batch pages tokens nnz p =
     (if batch \<le> batch_cap p \<and> pages \<le> pages_cap p \<and> tokens \<le> tokens_cap p \<and> nnz \<le> nnz_cap p
      then p
      else
        (let bc = max batch (max (batch_cap p * 2) 8);
             pc = max pages (max (pages_cap p * 2) 8);
             tc = max tokens (max (tokens_cap p * 2) 64);
             nc = max nnz (max (nnz_cap p * 2) 64)
         in \<lparr> batch_cap = bc, pages_cap = pc, tokens_cap = tc, nnz_cap = nc,
              allocations = allocations p + 1,
              host_tokens = replicate tc junk, host_position = replicate tc junk,
              host_slots = replicate tc junk, host_qsl = replicate (bc + 1) junk,
              host_context = replicate bc junk, host_pages = replicate bc (replicate pc junk),
              host_qo_indptr = replicate (bc + 1) junk, host_kv_indptr = replicate (bc + 1) junk,
              host_last_page = replicate bc junk, host_kv_indices = replicate nc junk,
              d_tokens = replicate tc junk, d_position = replicate tc junk,
              d_slots = replicate tc junk, d_qsl = replicate (bc + 1) junk,
              d_context = replicate bc junk, d_pages = replicate bc (replicate pc junk),
              d_kv_indices = replicate nc junk \<rparr>))"

text \<open>One pass of \<open>_fill\<close>'s token loop: position and slot of token \<open>i\<close> of the request.\<close>

definition fill_token ::
    "nat \<Rightarrow> scheduled_request \<Rightarrow> nat \<Rightarrow> nat \<Rightarrow> pool \<Rightarrow> pool outcome" where
  "fill_token bl r offset i p =
     (let pos = start_position r + i
      in obind (slot_of (block_table r) bl pos) (\<lambda>slot.
           Inr (p\<lparr> host_position := (host_position p)[offset + i := int pos],
                   host_slots := (host_slots p)[offset + i := slot] \<rparr>)))"

definition fill_page :: "scheduled_request \<Rightarrow> nat \<Rightarrow> nat \<Rightarrow> pool \<Rightarrow> pool outcome" where
  "fill_page r nnz_offset i p =
     obind (onth (block_table r) i) (\<lambda>b.
       require (0 \<le> b) (ValueError ''valid block table entries must be non-negative'')
         (Inr (p\<lparr> host_kv_indices := (host_kv_indices p)[nnz_offset + i := b] \<rparr>)))"

definition last_page_of :: "nat \<Rightarrow> nat \<Rightarrow> nat" where
  "last_page_of bl ctx = (let remainder = ctx mod bl in if remainder = 0 then bl else remainder)"

record fill_state =
  fs_pool :: pool
  fs_offset :: nat
  fs_nnz :: nat
  fs_qsl :: "nat list"
  fs_ctx :: "nat list"

definition fill_request ::
    "nat \<Rightarrow> nat \<Rightarrow> nat \<times> scheduled_request \<Rightarrow> fill_state \<Rightarrow> fill_state outcome" where
  "fill_request bl pages_needed ir st =
     (let index = fst ir; r = snd ir; p = fs_pool st; offset = fs_offset st; nnz = fs_nnz st;
          n = length (input_token_ids r);
          ctx = request_context r;
          page_count = ceil_div ctx bl;
          p1 = p\<lparr> host_tokens := put_slice (host_tokens p) offset (input_token_ids r) \<rparr>
      in obind (ofold (fill_token bl r offset) [0..<n] p1) (\<lambda>p2.
           let qsl = fs_qsl st @ [last (fs_qsl st) + n];
               row = host_pages p2 ! index;
               row' = put_slice (put_slice row 0 (replicate pages_needed (- 1))) 0 (block_table r);
               p3 = p2\<lparr> host_qsl := (host_qsl p2)[index + 1 := int (last qsl)],
                        host_qo_indptr := (host_qo_indptr p2)[index + 1 := int (last qsl)],
                        host_context := (host_context p2)[index := int ctx],
                        host_last_page := (host_last_page p2)[index := int (last_page_of bl ctx)],
                        host_pages := (host_pages p2)[index := row'] \<rparr>
           in obind (ofold (fill_page r nnz) [0..<page_count] p3) (\<lambda>p4.
                Inr \<lparr> fs_pool = p4\<lparr> host_kv_indptr := (host_kv_indptr p4)[index + 1 := int (nnz + page_count)] \<rparr>,
                      fs_offset = offset + n, fs_nnz = nnz + page_count,
                      fs_qsl = qsl, fs_ctx = fs_ctx st @ [ctx] \<rparr>)))"

definition pool_fill ::
    "scheduled_request list \<Rightarrow> nat \<Rightarrow> nat \<Rightarrow> pool \<Rightarrow> fill_state outcome" where
  "pool_fill rs bl pages_needed p =
     ofold (fill_request bl pages_needed) (zip [0..<length rs] rs)
       \<lparr> fs_pool = p\<lparr> host_qsl := (host_qsl p)[0 := 0], host_qo_indptr := (host_qo_indptr p)[0 := 0],
                      host_kv_indptr := (host_kv_indptr p)[0 := 0] \<rparr>,
         fs_offset = 0, fs_nnz = 0, fs_qsl = [0], fs_ctx = [] \<rparr>"

text \<open>The validation loop of \<open>build\<close>, which also sums up the sizes.\<close>

definition build_check ::
    "nat \<Rightarrow> scheduled_request \<Rightarrow> nat \<times> nat \<times> nat \<Rightarrow> (nat \<times> nat \<times> nat) outcome" where
  "build_check bl r acc =
     (case acc of (packed, pages, nnz) \<Rightarrow>
        require (bl \<noteq> 0) ZeroDivisionError
       (require (1 \<le> request_context r) (ValueError ''FlashInfer paged KV requires context_len >= 1'')
       (require (ceil_div (request_context r) bl \<le> length (block_table r))
                (ValueError ''block_tables is shorter than the paged context'')
          (Inr (packed + length (input_token_ids r), max pages (length (block_table r)),
                nnz + ceil_div (request_context r) bl)))))"

text \<open>The device copies: the used prefix of every staging buffer.\<close>

definition pool_copies :: "nat \<Rightarrow> nat \<Rightarrow> nat \<Rightarrow> nat \<Rightarrow> pool \<Rightarrow> pool" where
  "pool_copies packed batch pages nnz p =
     p\<lparr> d_tokens := put_slice (d_tokens p) 0 (take packed (host_tokens p)),
        d_position := put_slice (d_position p) 0 (take packed (host_position p)),
        d_slots := put_slice (d_slots p) 0 (take packed (host_slots p)),
        d_qsl := put_slice (d_qsl p) 0 (take (batch + 1) (host_qsl p)),
        d_context := put_slice (d_context p) 0 (take batch (host_context p)),
        d_pages := put_slice (d_pages p) 0
          (map2 (\<lambda>d h. put_slice d 0 (take pages h)) (take batch (d_pages p)) (take batch (host_pages p))),
        d_kv_indices := put_slice (d_kv_indices p) 0 (take nnz (host_kv_indices p)) \<rparr>"

definition pool_build :: "int \<Rightarrow> batch_plan \<Rightarrow> nat \<Rightarrow> pool \<Rightarrow> (model_input \<times> pool) outcome" where
  "pool_build junk plan bl p0 =
     (let rs = requests plan; batch = length rs
      in require (batch \<noteq> 0) (ValueError ''cannot build ModelInput for an empty batch'')
        (obind (ofold (build_check bl) rs (0, 0, 0)) (\<lambda>(packed, pages, nnz).
           obind (pool_fill rs bl pages (pool_ensure junk batch pages packed nnz p0)) (\<lambda>st.
             let p = pool_copies packed batch pages nnz (fs_pool st)
             in Inr (\<lparr> mi_input_token_ids = take packed (d_tokens p),
                       mi_position = take packed (d_position p),
                       mi_slot_mapping = take packed (d_slots p),
                       mi_query_start_loc = take (batch + 1) (d_qsl p),
                       mi_block_tables = map (take pages) (take batch (d_pages p)),
                       mi_context_lens = take batch (d_context p),
                       mi_query_start_loc_host = fs_qsl st,
                       mi_context_lens_host = fs_ctx st,
                       mi_flashinfer_csr = Some (take (batch + 1) (host_qo_indptr p),
                                                 take (batch + 1) (host_kv_indptr p),
                                                 take nnz (d_kv_indices p),
                                                 take batch (host_last_page p)),
                       mi_is_decode_only = is_decode_only_plan plan,
                       mi_packed_mask = None \<rparr>, p)))))"

section \<open>Direct construction\<close>

text \<open>A request the builders accept: every page of its context is in its table.\<close>

definition request_ok :: "nat \<Rightarrow> scheduled_request \<Rightarrow> bool" where
  "request_ok bl r = (1 \<le> request_context r \<and> ceil_div (request_context r) bl \<le> length (block_table r)
     \<and> list_all (\<lambda>b. 0 \<le> b) (take (ceil_div (request_context r) bl) (block_table r)))"

lemma request_ok_page:
  "bl > 0 \<Longrightarrow> request_ok bl r \<Longrightarrow> i < length (input_token_ids r) \<Longrightarrow>
     (start_position r + i) div bl < length (block_table r)"
  unfolding request_ok_def request_context_def
  by (metis add_less_cancel_left div_less_ceil_div less_le_trans)

definition slots_at :: "nat \<Rightarrow> scheduled_request \<Rightarrow> int list" where
  "slots_at bl r =
     map (\<lambda>i. slot_at (block_table r) bl (start_position r + i)) [0..<length (input_token_ids r)]"

lemma length_slots_at [simp]: "length (slots_at bl r) = length (input_token_ids r)"
  by (simp add: slots_at_def)

lemma length_request_positions [simp]: "length (request_positions r) = length (input_token_ids r)"
  by (simp add: request_positions_def)

lemma request_slots_ok:
  "bl > 0 \<Longrightarrow> request_ok bl r \<Longrightarrow> request_slots bl r = Inr (slots_at bl r)"
  unfolding request_slots_def slots_at_def
  by (subst add.commute, rule omap_Inr_map) (simp add: request_ok_page)

definition plan_input :: "batch_plan \<Rightarrow> nat \<Rightarrow> model_input" where
  "plan_input plan bl =
     (let rs = requests plan; qsl = prefix_sums 0 (map (\<lambda>r. length (input_token_ids r)) rs);
          ctx = map request_context rs
      in \<lparr> mi_input_token_ids = concat (map input_token_ids rs),
           mi_position = concat (map request_positions rs),
           mi_slot_mapping = concat (map (slots_at bl) rs),
           mi_query_start_loc = map int qsl,
           mi_block_tables = map (pad_row (max_len (map block_table rs)) \<circ> block_table) rs,
           mi_context_lens = map int ctx,
           mi_query_start_loc_host = qsl,
           mi_context_lens_host = ctx,
           mi_flashinfer_csr = None,
           mi_is_decode_only = False,
           mi_packed_mask = None \<rparr>)"

lemma from_plan_plan_input:
  assumes "bl > 0" "requests plan \<noteq> []" "list_all (request_ok bl) (requests plan)"
  shows "from_plan plan bl = Inr (plan_input plan bl)"
proof -
  have "omap (request_slots bl) (requests plan) = Inr (map (slots_at bl) (requests plan))"
    using assms by (intro omap_Inr_map request_slots_ok) (auto simp: list_all_iff)
  with assms(2) show ?thesis
    by (simp add: from_plan_def plan_input_def Let_def pad_sequence_def)
qed

section \<open>The pool\<close>

definition pool_wf :: "pool \<Rightarrow> bool" where
  "pool_wf p =
     (length (host_tokens p) = tokens_cap p \<and> length (host_position p) = tokens_cap p \<and>
      length (host_slots p) = tokens_cap p \<and> length (host_context p) = batch_cap p \<and>
      length (host_last_page p) = batch_cap p \<and> length (host_pages p) = batch_cap p \<and>
      list_all (\<lambda>row. length row = pages_cap p) (host_pages p) \<and>
      length (host_kv_indices p) = nnz_cap p \<and> length (d_tokens p) = tokens_cap p \<and>
      length (d_position p) = tokens_cap p \<and> length (d_slots p) = tokens_cap p \<and>
      length (d_context p) = batch_cap p \<and> length (d_pages p) = batch_cap p \<and>
      list_all (\<lambda>row. length row = pages_cap p) (d_pages p) \<and>
      length (d_kv_indices p) = nnz_cap p \<and>
      (batch_cap p > 0 \<longrightarrow> length (host_qsl p) = batch_cap p + 1 \<and>
         length (host_qo_indptr p) = batch_cap p + 1 \<and> length (host_kv_indptr p) = batch_cap p + 1 \<and>
         length (d_qsl p) = batch_cap p + 1))"

definition pool_fits :: "nat \<Rightarrow> nat \<Rightarrow> nat \<Rightarrow> nat \<Rightarrow> pool \<Rightarrow> bool" where
  "pool_fits batch pages tokens nnz p =
     (batch \<le> batch_cap p \<and> pages \<le> pages_cap p \<and> tokens \<le> tokens_cap p \<and> nnz \<le> nnz_cap p)"

lemma pool_wf_init: "pool_wf pool_init"
  by (simp add: pool_wf_def pool_init_def)

lemma pool_ensure_wf: "pool_wf p \<Longrightarrow> pool_wf (pool_ensure junk batch pages tokens nnz p)"
proof (cases "pool_fits batch pages tokens nnz p")
  case True
  assume "pool_wf p"
  with True show ?thesis by (simp add: pool_ensure_def pool_fits_def)
next
  case False
  then show ?thesis
    unfolding pool_wf_def pool_ensure_def pool_fits_def Let_def
    by (simp only: if_False pool.simps length_replicate) (simp add: list_all_iff)
qed

lemma pool_ensure_fits: "pool_fits batch pages tokens nnz (pool_ensure junk batch pages tokens nnz p)"
  by (auto simp: pool_ensure_def pool_fits_def Let_def)

lemma fill_tokens_eq:
  assumes "bl > 0" and "\<And>i. i < n \<Longrightarrow> (start_position r + i) div bl < length (block_table r)"
    and "offset + n \<le> length (host_position p)" "offset + n \<le> length (host_slots p)"
  shows "ofold (fill_token bl r offset) [0..<n] p =
    Inr (p\<lparr> host_position := put_slice (host_position p) offset (map (\<lambda>i. int (start_position r + i)) [0..<n]),
            host_slots := put_slice (host_slots p) offset
              (map (\<lambda>i. slot_at (block_table r) bl (start_position r + i)) [0..<n]) \<rparr>)"
  using assms
proof (induction n)
  case (Suc n)
  have "(put_slice (host_position p) offset (map (\<lambda>i. int (start_position r + i)) [0..<n]))
          [offset + n := int (start_position r + n)] =
        put_slice (host_position p) offset (map (\<lambda>i. int (start_position r + i)) [0..<Suc n])"
    using Suc.prems put_slice_snoc [of offset "map (\<lambda>i. int (start_position r + i)) [0..<n]"] by simp
  moreover have "(put_slice (host_slots p) offset
            (map (\<lambda>i. slot_at (block_table r) bl (start_position r + i)) [0..<n]))
          [offset + n := slot_at (block_table r) bl (start_position r + n)] =
        put_slice (host_slots p) offset (map (\<lambda>i. slot_at (block_table r) bl (start_position r + i)) [0..<Suc n])"
    using Suc.prems put_slice_snoc [of offset "map (\<lambda>i. slot_at (block_table r) bl (start_position r + i)) [0..<n]"]
    by simp
  ultimately show ?case
    using Suc by (simp add: ofold_append fill_token_def Let_def)
qed simp

lemma fill_pages_eq:
  assumes "n \<le> length (block_table r)" "list_all (\<lambda>b. 0 \<le> b) (take n (block_table r))"
    "nnz + n \<le> length (host_kv_indices p)"
  shows "ofold (fill_page r nnz) [0..<n] p =
    Inr (p\<lparr> host_kv_indices := put_slice (host_kv_indices p) nnz (take n (block_table r)) \<rparr>)"
  using assms
proof (induction n)
  case (Suc n)
  have "(put_slice (host_kv_indices p) nnz (take n (block_table r)))[nnz + n := block_table r ! n] =
        put_slice (host_kv_indices p) nnz (take (Suc n) (block_table r))"
    using Suc.prems put_slice_snoc [of nnz "take n (block_table r)" "host_kv_indices p"]
    by (simp add: take_Suc_conv_app_nth min_def)
  with Suc show ?case
    by (simp add: ofold_append fill_page_def take_Suc_conv_app_nth)
qed simp

lemma fill_page_negative:
  assumes "ofold (fill_page r nnz) [0..<n] p = Inr p'"
  shows "n \<le> length (block_table r) \<and> list_all (\<lambda>b. 0 \<le> b) (take n (block_table r))"
  using assms
proof (induction n arbitrary: p')
  case (Suc n)
  from Suc.prems obtain q where q: "ofold (fill_page r nnz) [0..<n] p = Inr q"
    and s: "fill_page r nnz n q = Inr p'"
    by (auto simp: ofold_append obind_Inr_iff)
  from s have "n < length (block_table r)" "0 \<le> block_table r ! n"
    by (auto simp: fill_page_def obind_Inr_iff onth_Inr_iff require_Inr_iff)
  with Suc.IH [OF q] show ?case by (simp add: take_Suc_conv_app_nth)
qed simp

definition pages_of :: "nat \<Rightarrow> scheduled_request \<Rightarrow> nat" where
  "pages_of bl r = ceil_div (request_context r) bl"

definition token_count :: "scheduled_request \<Rightarrow> nat" where
  "token_count r = length (input_token_ids r)"

text \<open>What one iteration of \<open>_fill\<close> does to the pool when nothing raises.\<close>

definition filled_pool ::
    "nat \<Rightarrow> nat \<Rightarrow> nat \<Rightarrow> scheduled_request \<Rightarrow> nat \<Rightarrow> nat \<Rightarrow> nat \<Rightarrow> pool \<Rightarrow> pool" where
  "filled_pool bl pages index r offset nnz q p =
     p\<lparr> host_tokens := put_slice (host_tokens p) offset (input_token_ids r),
        host_position := put_slice (host_position p) offset (request_positions r),
        host_slots := put_slice (host_slots p) offset (slots_at bl r),
        host_qsl := (host_qsl p)[index + 1 := int q],
        host_qo_indptr := (host_qo_indptr p)[index + 1 := int q],
        host_context := (host_context p)[index := int (request_context r)],
        host_last_page := (host_last_page p)[index := int (last_page_of bl (request_context r))],
        host_pages := (host_pages p)[index :=
          put_slice (put_slice (host_pages p ! index) 0 (replicate pages (- 1))) 0 (block_table r)],
        host_kv_indices := put_slice (host_kv_indices p) nnz (take (pages_of bl r) (block_table r)),
        host_kv_indptr := (host_kv_indptr p)[index + 1 := int (nnz + pages_of bl r)] \<rparr>"

lemma fill_request_eq:
  assumes "bl > 0" "request_ok bl r"
    and "fs_offset st + token_count r \<le> length (host_position (fs_pool st))"
    and "fs_offset st + token_count r \<le> length (host_slots (fs_pool st))"
    and "fs_nnz st + pages_of bl r \<le> length (host_kv_indices (fs_pool st))"
  shows "fill_request bl pages (index, r) st =
    Inr \<lparr> fs_pool = filled_pool bl pages index r (fs_offset st) (fs_nnz st)
                      (last (fs_qsl st) + token_count r) (fs_pool st),
          fs_offset = fs_offset st + token_count r, fs_nnz = fs_nnz st + pages_of bl r,
          fs_qsl = fs_qsl st @ [last (fs_qsl st) + token_count r],
          fs_ctx = fs_ctx st @ [request_context r] \<rparr>"
proof -
  define p1 where "p1 = (fs_pool st)\<lparr> host_tokens :=
      put_slice (host_tokens (fs_pool st)) (fs_offset st) (input_token_ids r) \<rparr>"
  have 1: "ofold (fill_token bl r (fs_offset st)) [0..<length (input_token_ids r)] p1 =
      Inr (p1\<lparr> host_position := put_slice (host_position p1) (fs_offset st) (request_positions r),
               host_slots := put_slice (host_slots p1) (fs_offset st) (slots_at bl r) \<rparr>)"
    unfolding request_positions_def slots_at_def using assms
    by (intro fill_tokens_eq) (auto simp: p1_def token_count_def request_ok_page)
  have 2: "ofold (fill_page r (fs_nnz st)) [0..<ceil_div (request_context r) bl] p =
      Inr (p\<lparr> host_kv_indices := put_slice (host_kv_indices p) (fs_nnz st)
                (take (ceil_div (request_context r) bl) (block_table r)) \<rparr>)"
    if "length (host_kv_indices p) = length (host_kv_indices (fs_pool st))" for p
    using assms that by (intro fill_pages_eq) (auto simp: request_ok_def pages_of_def)
  show ?thesis
    unfolding fill_request_def Let_def fst_conv snd_conv p1_def [symmetric] 1 obind_simps
    by (subst 2) (simp_all add: p1_def filled_pool_def pages_of_def token_count_def)
qed

definition fill_inv ::
    "scheduled_request list \<Rightarrow> nat \<Rightarrow> nat \<Rightarrow> pool \<Rightarrow> nat \<Rightarrow> fill_state \<Rightarrow> bool" where
  "fill_inv rs bl pages p0 k st =
     (let p = fs_pool st; done = take k rs in
      pool_wf p \<and> batch_cap p = batch_cap p0 \<and> pages_cap p = pages_cap p0 \<and>
      tokens_cap p = tokens_cap p0 \<and> nnz_cap p = nnz_cap p0 \<and>
      fs_offset st = sum_list (map token_count done) \<and>
      fs_nnz st = sum_list (map (pages_of bl) done) \<and>
      fs_qsl st = prefix_sums 0 (map token_count done) \<and>
      fs_ctx st = map request_context done \<and>
      take (fs_offset st) (host_tokens p) = concat (map input_token_ids done) \<and>
      take (fs_offset st) (host_position p) = concat (map request_positions done) \<and>
      take (fs_offset st) (host_slots p) = concat (map (slots_at bl) done) \<and>
      take (k + 1) (host_qsl p) = map int (fs_qsl st) \<and>
      take (k + 1) (host_qo_indptr p) = map int (fs_qsl st) \<and>
      take (k + 1) (host_kv_indptr p) = map int (prefix_sums 0 (map (pages_of bl) done)) \<and>
      take k (host_context p) = map (int \<circ> request_context) done \<and>
      take k (host_last_page p) = map (int \<circ> last_page_of bl \<circ> request_context) done \<and>
      map (take pages) (take k (host_pages p)) = map (pad_row pages \<circ> block_table) done \<and>
      take (fs_nnz st) (host_kv_indices p) = concat (map (\<lambda>r. take (pages_of bl r) (block_table r)) done))"

lemma filled_pool_wf:
  assumes "pool_wf p" "index < batch_cap p" "offset + token_count r \<le> tokens_cap p"
    "nnz + pages_of bl r \<le> nnz_cap p" "pages \<le> pages_cap p" "length (block_table r) \<le> pages"
  shows "pool_wf (filled_pool bl pages index r offset nnz q p)"
proof -
  have "length (put_slice (put_slice (host_pages p ! index) 0 (replicate pages (- 1))) 0 (block_table r))
      = pages_cap p"
    using assms by (auto simp: pool_wf_def list_all_iff)
  then have "list_all (\<lambda>row. length row = pages_cap p) ((host_pages p)[index :=
      put_slice (put_slice (host_pages p ! index) 0 (replicate pages (- 1))) 0 (block_table r)])"
    using assms(1) by (auto simp: pool_wf_def list_all_iff dest!: set_update_subset_insert [THEN subsetD])
  with assms show ?thesis by (simp add: pool_wf_def filled_pool_def token_count_def)
qed

lemma padded_row:
  assumes "length row = c" "pages \<le> c" "length t \<le> pages"
  shows "take pages (put_slice (put_slice row 0 (replicate pages (- 1))) 0 t) = pad_row pages t"
  using assms by (auto simp: put_slice_def pad_row_def min_def)

lemma fill_inv_step:
  assumes inv: "fill_inv rs bl pages p0 k st" and k: "k < length rs"
    and bl: "bl > 0" and ok: "request_ok bl (rs ! k)"
    and fits: "pool_fits (length rs) pages (sum_list (map token_count rs)) (sum_list (map (pages_of bl) rs)) p0"
    and table: "length (block_table (rs ! k)) \<le> pages"
  shows "\<exists>st'. fill_request bl pages (k, rs ! k) st = Inr st' \<and> fill_inv rs bl pages p0 (Suc k) st'"
proof -
  let ?r = "rs ! k" and ?p = "fs_pool st"
  let ?st' = "\<lparr> fs_pool = filled_pool bl pages k ?r (fs_offset st) (fs_nnz st)
                      (last (fs_qsl st) + token_count ?r) ?p,
          fs_offset = fs_offset st + token_count ?r, fs_nnz = fs_nnz st + pages_of bl ?r,
          fs_qsl = fs_qsl st @ [last (fs_qsl st) + token_count ?r],
          fs_ctx = fs_ctx st @ [request_context ?r] \<rparr>"
  let ?q = "filled_pool bl pages k ?r (fs_offset st) (fs_nnz st) (last (fs_qsl st) + token_count ?r) ?p"
  note I = inv [unfolded fill_inv_def Let_def]
  have wf: "pool_wf ?p" using I by blast
  have off: "fs_offset st + token_count ?r \<le> tokens_cap ?p"
    using I fits k sum_list_take_le [of "Suc k" "map token_count rs"]
    by (simp add: take_map sum_list_take_Suc pool_fits_def take_Suc_conv_app_nth)
  have nnz: "fs_nnz st + pages_of bl ?r \<le> nnz_cap ?p"
    using I fits k sum_list_take_le [of "Suc k" "map (pages_of bl) rs"]
    by (simp add: take_map sum_list_take_Suc pool_fits_def take_Suc_conv_app_nth)
  have kb: "k < batch_cap ?p" using I fits k by (simp add: pool_fits_def)
  have pc: "pages \<le> pages_cap ?p" using I fits by (simp add: pool_fits_def)
  have lens: "length (host_tokens ?p) = tokens_cap ?p" "length (host_position ?p) = tokens_cap ?p"
    "length (host_slots ?p) = tokens_cap ?p" "length (host_kv_indices ?p) = nnz_cap ?p"
    "length (host_context ?p) = batch_cap ?p" "length (host_last_page ?p) = batch_cap ?p"
    "length (host_pages ?p) = batch_cap ?p" "length (host_qsl ?p) = batch_cap ?p + 1"
    "length (host_qo_indptr ?p) = batch_cap ?p + 1" "length (host_kv_indptr ?p) = batch_cap ?p + 1"
    "length (host_pages ?p ! k) = pages_cap ?p"
    using wf kb by (auto simp: pool_wf_def list_all_iff)
  have tk: "take (Suc k) rs = take k rs @ [?r]" using k by (rule take_Suc_conv_app_nth)
  have eq: "fill_request bl pages (k, ?r) st = Inr ?st'"
    using bl ok off nnz lens by (intro fill_request_eq) auto
  have pl: "length (take (pages_of bl ?r) (block_table ?r)) = pages_of bl ?r"
    using ok by (simp add: request_ok_def pages_of_def)
  have "fill_inv rs bl pages p0 (Suc k) ?st'"
    unfolding fill_inv_def Let_def fill_state.simps tk
  proof (intro conjI)
    show "pool_wf (filled_pool bl pages k ?r (fs_offset st) (fs_nnz st)
        (last (fs_qsl st) + token_count ?r) ?p)"
      using wf kb off nnz pc table by (rule filled_pool_wf)
    show "take (fs_offset st + token_count ?r) (host_tokens ?q) = concat (map input_token_ids (take k rs @ [?r]))"
      using I off lens by (auto simp: filled_pool_def token_count_def intro!: take_put_grow)
    show "take (fs_offset st + token_count ?r) (host_position ?q) = concat (map request_positions (take k rs @ [?r]))"
      using I off lens by (auto simp: filled_pool_def token_count_def intro!: take_put_grow)
    show "take (fs_offset st + token_count ?r) (host_slots ?q) = concat (map (slots_at bl) (take k rs @ [?r]))"
      using I off lens by (auto simp: filled_pool_def token_count_def intro!: take_put_grow)
    show "take (Suc k + 1) (host_qsl ?q) = map int (fs_qsl st @ [last (fs_qsl st) + token_count ?r])"
      using I lens kb by (auto simp: filled_pool_def intro!: take_update_grow)
    show "take (Suc k + 1) (host_qo_indptr ?q) = map int (fs_qsl st @ [last (fs_qsl st) + token_count ?r])"
      using I lens kb by (auto simp: filled_pool_def intro!: take_update_grow)
    show "take (Suc k + 1) (host_kv_indptr ?q) = map int (prefix_sums 0 (map (pages_of bl) (take k rs @ [?r])))"
      using I lens kb by (auto simp: filled_pool_def prefix_sums_append1 intro!: take_update_grow)
    show "take (Suc k) (host_context ?q) = map (int \<circ> request_context) (take k rs @ [?r])"
      using I lens kb by (auto simp: filled_pool_def intro!: take_update_grow)
    show "take (Suc k) (host_last_page ?q) = map (int \<circ> last_page_of bl \<circ> request_context) (take k rs @ [?r])"
      using I lens kb by (auto simp: filled_pool_def intro!: take_update_grow)
    show "map (take pages) (take (Suc k) (host_pages ?q)) = map (pad_row pages \<circ> block_table) (take k rs @ [?r])"
      using I lens kb pc table by (simp add: filled_pool_def take_list_update_Suc padded_row)
    show "take (fs_nnz st + pages_of bl ?r) (host_kv_indices ?q)
        = concat (map (\<lambda>r. take (pages_of bl r) (block_table r)) (take k rs @ [?r]))"
      using I nnz lens pl by (auto simp: filled_pool_def intro!: take_put_grow)
  qed (use I in \<open>auto simp: filled_pool_def prefix_sums_append1 last_prefix_sums\<close>)
  with eq show ?thesis by blast
qed

lemma fill_loop:
  assumes "fill_inv rs bl pages p0 0 st0" "bl > 0" "list_all (request_ok bl) rs"
    and "pool_fits (length rs) pages (sum_list (map token_count rs)) (sum_list (map (pages_of bl) rs)) p0"
    and "list_all (\<lambda>r. length (block_table r) \<le> pages) rs" "k \<le> length rs"
  shows "\<exists>st. ofold (fill_request bl pages) (take k (zip [0..<length rs] rs)) st0 = Inr st
           \<and> fill_inv rs bl pages p0 k st"
  using assms(6)
proof (induction k)
  case 0
  with assms(1) show ?case by simp
next
  case (Suc k)
  then obtain st where st: "ofold (fill_request bl pages) (take k (zip [0..<length rs] rs)) st0 = Inr st"
    "fill_inv rs bl pages p0 k st" by auto
  have "request_ok bl (rs ! k)" "length (block_table (rs ! k)) \<le> pages"
    using assms Suc.prems by (auto simp: list_all_length)
  with fill_inv_step [OF st(2)] Suc.prems assms(2,4) obtain st' where
    "fill_request bl pages (k, rs ! k) st = Inr st'" "fill_inv rs bl pages p0 (Suc k) st'" by auto
  moreover have "take (Suc k) (zip [0..<length rs] rs) = take k (zip [0..<length rs] rs) @ [(k, rs ! k)]"
    using Suc.prems by (simp add: take_Suc_conv_app_nth)
  ultimately show ?case using st(1) by (simp add: ofold_append)
qed

lemma pool_fill_ok:
  assumes "pool_wf p" "batch_cap p > 0" "bl > 0" "list_all (request_ok bl) rs"
    and "pool_fits (length rs) pages (sum_list (map token_count rs)) (sum_list (map (pages_of bl) rs)) p"
    and "list_all (\<lambda>r. length (block_table r) \<le> pages) rs"
  shows "\<exists>st. pool_fill rs bl pages p = Inr st \<and> fill_inv rs bl pages p (length rs) st"
proof -
  have "fill_inv rs bl pages p 0
      \<lparr> fs_pool = p\<lparr> host_qsl := (host_qsl p)[0 := 0], host_qo_indptr := (host_qo_indptr p)[0 := 0],
                      host_kv_indptr := (host_kv_indptr p)[0 := 0] \<rparr>,
         fs_offset = 0, fs_nnz = 0, fs_qsl = [0], fs_ctx = [] \<rparr>"
    using assms(1,2) by (auto simp: fill_inv_def Let_def pool_wf_def take_Suc_conv_app_nth)
  from fill_loop [OF this assms(3-6) order_refl] show ?thesis
    by (simp add: pool_fill_def)
qed

lemma build_check_loop:
  assumes "bl > 0" "list_all (request_ok bl) rs"
  shows "ofold (build_check bl) rs (a, b, c) =
    Inr (a + sum_list (map token_count rs), max b (max_len (map block_table rs)),
         c + sum_list (map (pages_of bl) rs))"
  using assms(2)
proof (induction rs arbitrary: a b c)
  case (Cons r rs)
  then show ?case using assms(1)
    by (simp add: build_check_def request_ok_def token_count_def pages_of_def max_len_def max.assoc)
qed (simp add: max_len_def)

lemma max_len_ge: "xs \<in> set xss \<Longrightarrow> length xs \<le> max_len xss"
  by (induction xss) (auto simp: max_len_def)

definition plan_csr :: "nat \<Rightarrow> scheduled_request list \<Rightarrow> int list \<times> int list \<times> int list \<times> int list" where
  "plan_csr bl rs =
     (map int (prefix_sums 0 (map token_count rs)),
      map int (prefix_sums 0 (map (pages_of bl) rs)),
      concat (map (\<lambda>r. take (pages_of bl r) (block_table r)) rs),
      map (int \<circ> last_page_of bl \<circ> request_context) rs)"

lemma take_put_prefix: "length ys = n \<Longrightarrow> take n (put_slice xs 0 ys) = ys"
  by (simp add: put_slice_def)

lemma map_take_copies:
  assumes "length ds = length hs" "n \<le> length hs" "\<forall>h \<in> set hs. pages \<le> length h"
  shows "map (take pages) (take n (put_slice ds 0 (map2 (\<lambda>d h. put_slice d 0 (take pages h)) (take n ds) (take n hs))))
     = map (take pages) (take n hs)"
proof -
  have "map (take pages) (map2 (\<lambda>d h. put_slice d 0 (take pages h)) (take n ds) (take n hs)) = map (take pages) (take n hs)"
    using assms by (intro nth_equalityI) (auto simp: take_put_prefix)
  moreover have "take n (put_slice ds 0 (map2 (\<lambda>d h. put_slice d 0 (take pages h)) (take n ds) (take n hs)))
      = map2 (\<lambda>d h. put_slice d 0 (take pages h)) (take n ds) (take n hs)"
    using assms by (intro take_put_prefix) simp
  ultimately show ?thesis by simp
qed

lemma copied_rows_length:
  assumes "length ds = length hs" "n \<le> length hs" "pages \<le> c"
    "\<forall>h \<in> set hs. length h = c" "\<forall>d \<in> set ds. length d = c"
  shows "list_all (\<lambda>row. length row = c)
    (put_slice ds 0 (map2 (\<lambda>d h. put_slice d 0 (take pages h)) (take n ds) (take n hs)))"
proof -
  have "length (put_slice (ds ! i) 0 (take pages (hs ! i))) = c" if "i < n" for i
    using assms that by (simp add: put_slice_def)
  then show ?thesis
    using assms by (auto simp: list_all_length nth_put_slice)
qed

lemma pool_copies_wf:
  assumes wf: "pool_wf p" and fits: "pool_fits batch pages packed nnz p" and "batch_cap p > 0"
  shows "pool_wf (pool_copies packed batch pages nnz p)"
proof -
  have "list_all (\<lambda>row. length row = pages_cap p)
     (put_slice (d_pages p) 0 (map2 (\<lambda>d h. put_slice d 0 (take pages h)) (take batch (d_pages p)) (take batch (host_pages p))))"
    using wf fits by (intro copied_rows_length) (auto simp: pool_wf_def pool_fits_def list_all_iff)
  with assms show ?thesis by (simp add: pool_wf_def pool_fits_def pool_copies_def)
qed

lemma pool_build_plan_input:
  assumes "pool_wf p0" "bl > 0" "requests plan \<noteq> []" "list_all (request_ok bl) (requests plan)"
  shows "\<exists>p. pool_wf p \<and> pool_build junk plan bl p0 =
     Inr ((plan_input plan bl)\<lparr> mi_flashinfer_csr := Some (plan_csr bl (requests plan)),
                               mi_is_decode_only := is_decode_only_plan plan \<rparr>, p)"
proof -
  let ?rs = "requests plan"
  let ?pages = "max_len (map block_table ?rs)" and ?packed = "sum_list (map token_count ?rs)"
  let ?nnz = "sum_list (map (pages_of bl) ?rs)"
  let ?p = "pool_ensure junk (length ?rs) ?pages ?packed ?nnz p0"
  have wf: "pool_wf ?p" using assms(1) by (rule pool_ensure_wf)
  have fits: "pool_fits (length ?rs) ?pages ?packed ?nnz ?p" by (rule pool_ensure_fits)
  have "length ?rs > 0" using assms(3) by simp
  with fits have cap: "batch_cap ?p > 0" unfolding pool_fits_def by linarith
  have tables: "list_all (\<lambda>r. length (block_table r) \<le> ?pages) ?rs"
    by (auto simp: list_all_iff intro!: max_len_ge)
  obtain st where fill: "pool_fill ?rs bl ?pages ?p = Inr st"
    and inv: "fill_inv ?rs bl ?pages ?p (length ?rs) st"
    using pool_fill_ok [OF wf cap assms(2,4) fits tables] by blast
  let ?s = "fs_pool st"
  let ?c = "pool_copies ?packed (length ?rs) ?pages ?nnz ?s"
  note I = inv [unfolded fill_inv_def Let_def, simplified]
  have caps: "length ?rs \<le> batch_cap ?s" "?pages \<le> pages_cap ?s" "?packed \<le> tokens_cap ?s"
    "?nnz \<le> nnz_cap ?s" "0 < batch_cap ?s"
    using I fits cap by (auto simp: pool_fits_def)
  have lens: "length (host_tokens ?s) = tokens_cap ?s" "length (host_position ?s) = tokens_cap ?s"
    "length (host_slots ?s) = tokens_cap ?s" "length (host_kv_indices ?s) = nnz_cap ?s"
    "length (host_context ?s) = batch_cap ?s" "length (host_pages ?s) = batch_cap ?s"
    "length (host_qsl ?s) = batch_cap ?s + 1" "length (d_pages ?s) = batch_cap ?s"
    "\<forall>row \<in> set (host_pages ?s). length row = pages_cap ?s"
    "\<forall>row \<in> set (d_pages ?s). length row = pages_cap ?s"
    using I caps by (auto simp: pool_wf_def list_all_iff)
  have copies: "take ?packed (d_tokens ?c) = concat (map input_token_ids ?rs)"
    "take ?packed (d_position ?c) = concat (map request_positions ?rs)"
    "take ?packed (d_slots ?c) = concat (map (slots_at bl) ?rs)"
    "take ?nnz (d_kv_indices ?c) = concat (map (\<lambda>r. take (pages_of bl r) (block_table r)) ?rs)"
    "take (length ?rs) (d_context ?c) = map (int \<circ> request_context) ?rs"
    "take (Suc (length ?rs)) (d_qsl ?c) = map int (fs_qsl st)"
    using I lens caps by (auto simp: pool_copies_def take_put_prefix)
  have rows: "map (take ?pages) (take (length ?rs) (d_pages ?c)) = map (pad_row ?pages \<circ> block_table) ?rs"
    using I lens caps map_take_copies [of "d_pages ?s" "host_pages ?s" "length ?rs" ?pages]
    by (simp add: pool_copies_def)
  have wf': "pool_wf ?c"
    using I caps by (intro pool_copies_wf) (auto simp: pool_fits_def)
  have "pool_build junk plan bl p0 =
     Inr ((plan_input plan bl)\<lparr> mi_flashinfer_csr := Some (plan_csr bl ?rs),
                               mi_is_decode_only := is_decode_only_plan plan \<rparr>, ?c)"
    using assms(3) I copies rows fill build_check_loop [OF assms(2,4), of 0 0 0]
    by (simp add: pool_build_def Let_def plan_input_def plan_csr_def token_count_def [abs_def] pool_copies_def)
  with wf' show ?thesis by blast
qed

lemma ofold_each_ok:
  assumes "ofold f xs s = Inr s'" "x \<in> set xs"
  shows "\<exists>t t'. f x t = Inr t'"
  using assms by (induction xs arbitrary: s) (auto simp: obind_Inr_iff)

lemma fill_request_pages:
  assumes "fill_request bl pages (k, q) t = Inr t'"
  shows "\<exists>p3 p4. ofold (fill_page q (fs_nnz t)) [0..<ceil_div (request_context q) bl] p3 = Inr p4"
proof -
  from assms obtain p3 p4 where
    "ofold (fill_page q (fs_nnz t)) [0..<ceil_div (request_context q) bl] p3 = Inr p4"
    unfolding fill_request_def Let_def fst_conv snd_conv by (elim obindE) blast
  then show ?thesis by blast
qed

lemma pool_build_Inr_ok:
  assumes "pool_build junk plan bl p0 = Inr r"
  shows "bl > 0 \<and> requests plan \<noteq> [] \<and> list_all (request_ok bl) (requests plan)"
proof -
  let ?rs = "requests plan"
  from assms obtain acc st p where ne: "?rs \<noteq> []"
    and check: "ofold (build_check bl) ?rs (0, 0, 0) = Inr acc"
    and fill: "pool_fill ?rs bl (fst (snd acc)) p = Inr st"
    by (auto simp: pool_build_def Let_def require_Inr_iff obind_Inr_iff)
  have "bl > 0 \<and> request_ok bl q" if q: "q \<in> set ?rs" for q
  proof -
    from q obtain k where k: "k < length ?rs" "q = ?rs ! k" by (auto simp: in_set_conv_nth)
    from ofold_each_ok [OF check q] have c: "bl > 0" "1 \<le> request_context q"
      "ceil_div (request_context q) bl \<le> length (block_table q)"
      by (auto simp: build_check_def require_Inr_iff split: prod.splits)
    have "(k, q) \<in> set (zip [0..<length ?rs] ?rs)"
      using k by (auto simp: set_zip intro!: exI [of _ k])
    from ofold_each_ok [OF fill [unfolded pool_fill_def] this] obtain t t' where
      "fill_request bl (fst (snd acc)) (k, q) t = Inr t'" by blast
    from fill_request_pages [OF this] obtain p3 p4 where
      "ofold (fill_page q (fs_nnz t)) [0..<ceil_div (request_context q) bl] p3 = Inr p4" by blast
    from fill_page_negative [OF this] c show ?thesis by (simp add: request_ok_def)
  qed
  with ne show ?thesis by (cases ?rs) (auto simp: list_all_iff)
qed

section \<open>What an input says about its batch\<close>

text \<open>The slots a batch writes, and the agreement of an input with a batch that the runners rely on:
  whatever a table holds after the pages of its context is irrelevant.\<close>

definition batch_slots :: "nat \<Rightarrow> scheduled_request list \<Rightarrow> int list" where
  "batch_slots bl rs = concat (map (slots_at bl) rs)"

definition describes :: "nat \<Rightarrow> scheduled_request list \<Rightarrow> model_input \<Rightarrow> bool" where
  "describes bl rs mi =
     (mi_input_token_ids mi = concat (map input_token_ids rs) \<and>
      mi_position mi = concat (map request_positions rs) \<and>
      mi_slot_mapping mi = batch_slots bl rs \<and>
      mi_query_start_loc mi = map int (prefix_sums 0 (map token_count rs)) \<and>
      mi_context_lens mi = map (int \<circ> request_context) rs \<and>
      mi_query_start_loc_host mi = prefix_sums 0 (map token_count rs) \<and>
      mi_context_lens_host mi = map request_context rs \<and>
      length (mi_block_tables mi) = length rs \<and>
      (\<forall>r < length rs. pages_of bl (rs ! r) \<le> length (mi_block_tables mi ! r) \<and>
         take (pages_of bl (rs ! r)) (mi_block_tables mi ! r) = take (pages_of bl (rs ! r)) (block_table (rs ! r))))"

lemma plan_input_describes:
  assumes "\<forall>r \<in> set (requests plan). pages_of bl r \<le> length (block_table r)"
  shows "describes bl (requests plan) (plan_input plan bl)"
  using assms
  by (auto simp: describes_def plan_input_def Let_def batch_slots_def token_count_def [abs_def] pad_row_def
      comp_def intro: trans_le_add1)

text \<open>One request in full: \<open>ys\<close> fed after \<open>xs\<close> on the identity page table of the speculative engines.\<close>

definition chunk_request :: "nat \<Rightarrow> int list \<Rightarrow> int list \<Rightarrow> scheduled_request" where
  "chunk_request pages xs ys = \<lparr> request_id = [], input_token_ids = ys, req_work_type = Decode,
     start_position = length xs, block_table = map int [0..<pages], need_sample = True, req_sampling_plan = None \<rparr>"

lemma chunk_request_simps [simp]:
  "input_token_ids (chunk_request pages xs ys) = ys" "start_position (chunk_request pages xs ys) = length xs"
  "block_table (chunk_request pages xs ys) = map int [0..<pages]"
  "request_context (chunk_request pages xs ys) = length xs + length ys"
  by (simp_all add: chunk_request_def request_context_def)

end
