(* ===== verification/FlashInfer.thy ===== *)
theory FlashInfer
  imports Input
begin

text \<open>
  The host side of the FlashInfer attention backend (\<open>executors/torch/flashinfer_attn.py\<close>): the CSR
  page lists, the checks of \<open>plan\<close> and the per-bucket decode wrappers. The kernels themselves are
  the library's; what the code hands to a wrapper's \<open>plan\<close> is a value, \<open>plan_call\<close>.
\<close>

section \<open>CSR page lists\<close>

text \<open>\<open>Tensor.to(torch.int32)\<close> and int32 arithmetic wrap around.\<close>

definition i32 :: "int \<Rightarrow> int" where
  "i32 x = signed_take_bit 31 x"

fun cumsum_i32 :: "int \<Rightarrow> int list \<Rightarrow> int list" where
  "cumsum_i32 acc [] = []"
| "cumsum_i32 acc (x # xs) = i32 (acc + x) # cumsum_i32 (i32 (acc + x)) xs"

definition row_width :: "'a list list \<Rightarrow> nat" where
  "row_width rows = (case rows of [] \<Rightarrow> 0 | r # _ \<Rightarrow> length r)"

definition build_paged_kv_csr ::
    "int list list \<Rightarrow> int list \<Rightarrow> int \<Rightarrow> (int list \<times> int list \<times> int list) outcome" where
  "build_paged_kv_csr tables ctx bl =
     require (0 < bl) (ValueError ''block_len must be positive'')
    (require (length tables = length ctx) (ValueError ''block_tables batch dim must match context_lens'')
      (let ctx32 = map i32 ctx
       in require (\<not> list_ex (\<lambda>c. c < 1) ctx32) (ValueError ''FlashInfer paged KV requires context_len >= 1'')
      (let num_pages = map (\<lambda>c. i32 (c + (bl - 1)) div bl) ctx32
       in require (\<not> list_ex (\<lambda>n. n > int (row_width tables)) num_pages)
            (ValueError ''block_tables is shorter than the paged context'')
      (let indptr = 0 # cumsum_i32 0 num_pages;
           indices = concat (map2 (\<lambda>row n. map i32 (take (nat n) row)) tables num_pages)
       in require (\<not> list_ex (\<lambda>b. b < 0) indices)
            (ValueError ''valid block table entries must be non-negative'')
            (Inr (indptr, indices, map (\<lambda>c. if c mod bl = 0 then bl else c mod bl) ctx32))))))"

section \<open>\<open>FlashInferPagedAttention\<close>\<close>

datatype wrapper = PrefillWrapper | DecodeWrapper nat

record plan_call =
  pc_wrapper :: wrapper
  pc_qo_indptr :: "int list option"
  pc_kv_indptr :: "int list"
  pc_indices :: "int list"
  pc_last_page :: "int list"
  pc_causal :: bool
  pc_mask :: "8 word list option"

record fi_attention =
  num_qo_heads :: nat
  fi_num_kv_heads :: nat
  fi_head_dim :: nat
  page_size :: int
  max_batch :: nat
  fi_indices :: "int list"
  decode_wrappers :: "nat list"
  active :: "wrapper option"

definition fi_create :: "nat \<Rightarrow> nat \<Rightarrow> nat \<Rightarrow> int \<Rightarrow> int \<Rightarrow> nat \<Rightarrow> fi_attention outcome" where
  "fi_create qo kv hdim page max_nnz mb =
     require (kv \<noteq> 0) ZeroDivisionError
    (require (qo mod kv = 0) (ValueError ''num_qo_heads must be divisible by num_kv_heads'')
    (require (0 < page) (ValueError ''page_size must be positive'')
    (require (0 < max_nnz) (ValueError ''max_nnz must be positive'')
      (Inr \<lparr> num_qo_heads = qo, fi_num_kv_heads = kv, fi_head_dim = hdim, page_size = page,
             max_batch = mb, fi_indices = replicate (nat max_nnz) 0, decode_wrappers = [],
             active = None \<rparr>))))"

definition paged_csr :: "fi_attention \<Rightarrow> model_input \<Rightarrow> (int list \<times> int list \<times> int list) outcome" where
  "paged_csr fi mi = build_paged_kv_csr (mi_block_tables mi) (mi_context_lens mi) (page_size fi)"

text \<open>
  \<open>plan\<close>: the builder's CSR when it supplied one, else the device-side one; a packed mask replaces
  the causal assumption and must cover every query/key pair of the (single-request) forward.
\<close>

definition fi_plan :: "fi_attention \<Rightarrow> model_input \<Rightarrow> (plan_call \<times> fi_attention) outcome" where
  "fi_plan fi mi =
     obind (case mi_flashinfer_csr mi of
              Some csr \<Rightarrow> Inr csr
            | None \<Rightarrow> obind (paged_csr fi mi) (\<lambda>(indptr, indices, lastp).
                       Inr (map i32 (mi_query_start_loc mi), indptr, indices, lastp)))
       (\<lambda>(qo, indptr, indices, lastp).
          let call = \<lparr> pc_wrapper = PrefillWrapper, pc_qo_indptr = Some qo, pc_kv_indptr = indptr,
                       pc_indices = indices, pc_last_page = lastp, pc_causal = True, pc_mask = None \<rparr>;
              fi' = fi\<lparr> active := Some PrefillWrapper \<rparr>
          in case mi_packed_mask mi of
               None \<Rightarrow> Inr (call, fi')
             | Some bits \<Rightarrow>
                 obind (onth (mi_query_start_loc_host mi) 1) (\<lambda>qo_total.
                 obind (onth (mi_context_lens_host mi) 0) (\<lambda>kv_total.
                   require (\<not> length bits * 8 < qo_total * kv_total)
                     (ValueError ''packed_mask covers fewer bits than the forward needs'')
                     (Inr (call\<lparr> pc_causal := False, pc_mask := Some bits \<rparr>, fi')))))"

definition ensure_decode_wrapper :: "nat \<Rightarrow> fi_attention \<Rightarrow> (wrapper \<times> fi_attention) outcome" where
  "ensure_decode_wrapper bucket fi =
     (if bucket \<in> set (decode_wrappers fi) then Inr (DecodeWrapper bucket, fi)
      else require (bucket \<le> max_batch fi) (ValueError ''decode graph bucket exceeds max_batch'')
             (Inr (DecodeWrapper bucket, fi\<lparr> decode_wrappers := bucket # decode_wrappers fi \<rparr>)))"

text \<open>\<open>staged\<close>: the host CSR's indices live on another device than the wrapper's buffer.\<close>

definition plan_decode_bucket ::
    "nat \<Rightarrow> model_input \<Rightarrow> (int list \<times> int list \<times> int list) option \<Rightarrow> bool \<Rightarrow> fi_attention
       \<Rightarrow> (plan_call \<times> fi_attention) outcome" where
  "plan_decode_bucket bucket mi host_csr staged fi =
     obind (ensure_decode_wrapper bucket fi) (\<lambda>(w, fi1).
       let fi2 = fi1\<lparr> active := Some w \<rparr> in
       obind (case host_csr of
                Some (indptr, indices, lastp) \<Rightarrow>
                  (if staged
                   then require (\<not> length indices > length (fi_indices fi2))
                          (RuntimeError ''decode CSR nnz exceeds FlashInfer indices buffer'')
                          (let buf = put_slice (fi_indices fi2) 0 indices
                           in Inr (indptr, take (length indices) buf, lastp, fi2\<lparr> fi_indices := buf \<rparr>))
                   else Inr (indptr, indices, lastp, fi2))
              | None \<Rightarrow> obind (paged_csr fi2 mi) (\<lambda>(indptr, indices, lastp). Inr (indptr, indices, lastp, fi2)))
         (\<lambda>(indptr, indices, lastp, fi3).
            Inr (\<lparr> pc_wrapper = w, pc_qo_indptr = None, pc_kv_indptr = indptr, pc_indices = indices,
                   pc_last_page = lastp, pc_causal = True, pc_mask = None \<rparr>, fi3)))"

text \<open>\<open>run\<close> uses the wrapper of the last \<open>plan\<close>, the prefill wrapper before any.\<close>

definition fi_run_wrapper :: "fi_attention \<Rightarrow> wrapper" where
  "fi_run_wrapper fi = (case active fi of Some w \<Rightarrow> w | None \<Rightarrow> PrefillWrapper)"

section \<open>Facts\<close>

lemma i32_id: "0 \<le> x \<Longrightarrow> x < 2 ^ 31 \<Longrightarrow> i32 x = x"
  by (simp add: i32_def signed_take_bit_int_eq_self)

lemma i32_map_id: "\<forall>x \<in> set xs. 0 \<le> x \<and> x < 2 ^ 31 \<Longrightarrow> map i32 xs = xs"
  by (simp add: i32_id map_idI)

lemma cumsum_i32_prefix_sums:
  "acc + sum_list xs < 2 ^ 31 \<Longrightarrow>
     int acc # cumsum_i32 (int acc) (map int xs) = map int (prefix_sums acc xs)"
proof (induction xs arbitrary: acc)
  case (Cons x xs)
  have "int (acc + x) < 2 ^ 31" using Cons.prems by simp
  then have "i32 (int acc + int x) = int (acc + x)" by (simp add: i32_id)
  with Cons.IH [of "acc + x"] Cons.prems show ?case by (simp add: add.assoc)
qed simp

lemma last_page_of_int:
  "bl > 0 \<Longrightarrow> (if int c mod int bl = 0 then int bl else int c mod int bl) = int (last_page_of bl c)"
  by (simp add: last_page_of_def Let_def zmod_int [symmetric])

lemma last_page_bounds:
  assumes "bl > 0" "c > 0"
  shows "1 \<le> last_page_of bl c" "last_page_of bl c \<le> bl"
    "(ceil_div c bl - 1) * bl + last_page_of bl c = c"
proof -
  show "1 \<le> last_page_of bl c" "last_page_of bl c \<le> bl"
    using assms by (simp_all add: last_page_of_def Let_def)
  show "(ceil_div c bl - 1) * bl + last_page_of bl c = c"
  proof (cases "c mod bl = 0")
    case True
    then obtain q where q: "c = q * bl" "q > 0" using assms by (auto elim!: dvdE simp: mod_eq_0_iff_dvd)
    then have "ceil_div c bl = q"
      using assms(1) ceil_div_le_iff [OF assms(1), of c q] ceil_div_less_iff [OF assms(1), of "q - 1" c]
      by (cases q) auto
    with q assms show ?thesis by (cases q) (simp_all add: last_page_of_def)
  next
    case False
    let ?q = "c div bl"
    have c: "c = ?q * bl + c mod bl" by simp
    have "c \<le> bl + ?q * bl" "?q * bl < c"
      using False mod_less_divisor [OF assms(1), of c] c by linarith+
    then have "ceil_div c bl = Suc ?q"
      using ceil_div_le_iff [OF assms(1), of c "Suc ?q"] ceil_div_less_iff [OF assms(1), of ?q c] by auto
    with False show ?thesis by (simp add: last_page_of_def)
  qed
qed

lemma num_pages_int:
  "bl > 0 \<Longrightarrow> 1 \<le> c \<Longrightarrow> int c + int bl < 2 ^ 31 \<Longrightarrow>
     i32 (int c + (int bl - 1)) div int bl = int (ceil_div c bl)"
proof -
  assume a: "bl > 0" "1 \<le> c" "int c + int bl < 2 ^ 31"
  then have "i32 (int c + (int bl - 1)) = int (c + bl - 1)"
    by (subst i32_id) (auto simp: of_nat_diff)
  then show ?thesis by (simp add: ceil_div_def zdiv_int)
qed

text \<open>
  The device-side construction on padded tables, for contexts and page ids inside int32: the row
  tables are the requests' tables padded with \<open>-1\<close>.
\<close>

definition i32_ok :: "nat \<Rightarrow> scheduled_request list \<Rightarrow> bool" where
  "i32_ok bl rs =
     (list_all (\<lambda>r. int (request_context r) + int bl < 2 ^ 31
                  \<and> list_all (\<lambda>b. b < 2 ^ 31) (block_table r)) rs
      \<and> sum_list (map (pages_of bl) rs) < 2 ^ 31)"

lemma csr_of_padded_tables:
  assumes bl: "bl > 0" and ne: "rs \<noteq> []" and ok: "list_all (request_ok bl) rs" and fits: "i32_ok bl rs"
  shows "build_paged_kv_csr (map (pad_row (max_len (map block_table rs)) \<circ> block_table) rs)
           (map int (map request_context rs)) (int bl) =
         Inr (map int (prefix_sums 0 (map (pages_of bl) rs)),
              concat (map (\<lambda>r. take (pages_of bl r) (block_table r)) rs),
              map (int \<circ> last_page_of bl \<circ> request_context) rs)"
proof -
  let ?w = "max_len (map block_table rs)"
  let ?tables = "map (pad_row ?w \<circ> block_table) rs"
  have r: "1 \<le> request_context r" "int (request_context r) + int bl < 2 ^ 31"
    "pages_of bl r \<le> length (block_table r)" "length (block_table r) \<le> ?w"
    "\<forall>b \<in> set (take (pages_of bl r) (block_table r)). 0 \<le> b \<and> b < 2 ^ 31" if "r \<in> set rs" for r
    using ok fits that
    by (auto simp: list_all_iff request_ok_def i32_ok_def pages_of_def intro!: max_len_ge dest: in_set_takeD)
  have ctx: "map i32 (map int (map request_context rs)) = map int (map request_context rs)"
    using r by (intro i32_map_id) fastforce
  have pages: "map (\<lambda>c. i32 (c + (int bl - 1)) div int bl) (map int (map request_context rs))
      = map int (map (pages_of bl) rs)"
    using r(1,2) num_pages_int [OF bl] by (simp add: pages_of_def)
  have width: "row_width ?tables = ?w"
  proof -
    obtain q qs where "rs = q # qs" using ne by (cases rs) auto
    with r(4) [of q] show ?thesis by (simp add: row_width_def pad_row_def)
  qed
  have row: "take (pages_of bl q) (pad_row ?w (block_table q)) = take (pages_of bl q) (block_table q)"
    if "q \<in> set rs" for q using r(3) [OF that] by (simp add: pad_row_def)
  have indices: "concat (map2 (\<lambda>row n. map i32 (take (nat n) row)) ?tables (map int (map (pages_of bl) rs)))
      = concat (map (\<lambda>r. take (pages_of bl r) (block_table r)) rs)"
  proof -
    have "map2 (\<lambda>row n. map i32 (take (nat n) row)) ?tables (map int (map (pages_of bl) rs))
        = map (\<lambda>r. take (pages_of bl r) (block_table r)) rs"
      using row i32_map_id [OF r(5)] by (intro nth_equalityI) auto
    then show ?thesis by simp
  qed
  have ptr: "0 # cumsum_i32 0 (map int (map (pages_of bl) rs)) = map int (prefix_sums 0 (map (pages_of bl) rs))"
    using fits cumsum_i32_prefix_sums [of 0 "map (pages_of bl) rs"] by (simp add: i32_ok_def)
  have last: "map (\<lambda>c. if c mod int bl = 0 then int bl else c mod int bl) (map int (map request_context rs))
      = map (int \<circ> last_page_of bl \<circ> request_context) rs"
    by (simp only: map_map comp_def last_page_of_int [OF bl])
  have 1: "\<not> list_ex (\<lambda>c. c < 1) (map int (map request_context rs))"
    using r(1) by (fastforce simp: list_ex_iff Suc_le_eq)
  have 2: "\<not> list_ex (\<lambda>n. int ?w < n) (map int (map (pages_of bl) rs))"
    using r(3,4) by (fastforce simp: list_ex_iff)
  have 3: "\<not> list_ex (\<lambda>b. b < 0) (concat (map (\<lambda>r. take (pages_of bl r) (block_table r)) rs))"
    using r(5) by (fastforce simp: list_ex_iff)
  show ?thesis
    unfolding build_paged_kv_csr_def Let_def ctx pages width indices ptr last
    using bl 1 2 3 by (simp only: require_def) simp
qed

section \<open>Properties\<close>

text \<open>C10: The FlashInfer CSR of a plan. On the tensors \<open>from_plan\<close> builds, the device-side
  \<open>build_paged_kv_csr\<close> returns, for request \<open>i\<close>, exactly the pages of its context in table order:
  the page pointers are the prefix sums of the page counts, the packed indices restricted to
  \<open>[indptr i, indptr (i + 1))\<close> are the first pages of the request's own table, and
  \<open>last_page_len\<close> is in \<open>[1, block_len]\<close> and completes the context exactly.\<close>

theorem csr_pages_of_requests:
  assumes "bl > 0" "requests plan \<noteq> []" "list_all (request_ok bl) (requests plan)"
    and "i32_ok bl (requests plan)"
    and "from_plan plan bl = Inr mi" and "i < length (requests plan)"
  shows "\<exists>indptr indices lastp.
    build_paged_kv_csr (mi_block_tables mi) (mi_context_lens mi) (int bl) = Inr (indptr, indices, lastp) \<and>
    take (nat (indptr ! Suc i) - nat (indptr ! i)) (drop (nat (indptr ! i)) indices)
      = take (pages_of bl (requests plan ! i)) (block_table (requests plan ! i)) \<and>
    1 \<le> lastp ! i \<and> lastp ! i \<le> int bl \<and>
    (int (pages_of bl (requests plan ! i)) - 1) * int bl + lastp ! i = mi_context_lens mi ! i"
proof -
  let ?rs = "requests plan" and ?r = "requests plan ! i"
  let ?pages = "map (pages_of bl) ?rs"
  let ?chunks = "map (\<lambda>r. take (pages_of bl r) (block_table r)) ?rs"
  have mi: "mi = plan_input plan bl" using from_plan_plan_input [OF assms(1-3)] assms(5) by simp
  have csr: "build_paged_kv_csr (mi_block_tables mi) (mi_context_lens mi) (int bl) =
      Inr (map int (prefix_sums 0 ?pages), concat ?chunks, map (int \<circ> last_page_of bl \<circ> request_context) ?rs)"
    using csr_of_padded_tables [OF assms(1-4)] by (simp add: mi plan_input_def Let_def)
  have r: "1 \<le> request_context ?r" "pages_of bl ?r \<le> length (block_table ?r)"
    using assms(3,6) by (auto simp: list_all_length request_ok_def pages_of_def)
  have lens: "map length ?chunks = ?pages"
    using assms(3) by (auto simp: list_all_iff request_ok_def pages_of_def)
  have chunk: "take (pages_of bl ?r) (drop (sum_list (take i ?pages)) (concat ?chunks)) = ?chunks ! i"
    using take_drop_concat [of i ?chunks, unfolded lens] assms(6) r(2) by simp
  have ptr: "nat (map int (prefix_sums 0 ?pages) ! i) = sum_list (take i ?pages)"
    "nat (map int (prefix_sums 0 ?pages) ! Suc i) = sum_list (take i ?pages) + pages_of bl ?r"
    using assms(6) by (simp_all add: nth_prefix_sums sum_list_take_Suc del: prefix_sums.simps)
  have lp: "(ceil_div (request_context ?r) bl - 1) * bl + last_page_of bl (request_context ?r) = request_context ?r"
    "1 \<le> last_page_of bl (request_context ?r)" "last_page_of bl (request_context ?r) \<le> bl"
    using last_page_bounds [OF assms(1), of "request_context ?r"] r(1) by auto
  have "0 < ceil_div (request_context ?r) bl" using r(1) assms(1) by (simp add: ceil_div_pos_iff)
  then have "int (ceil_div (request_context ?r) bl - 1) = int (ceil_div (request_context ?r) bl) - 1"
    by (simp add: of_nat_diff)
  then have "(int (pages_of bl ?r) - 1) * int bl + int (last_page_of bl (request_context ?r)) = int (request_context ?r)"
    unfolding pages_of_def by (metis lp(1) of_nat_add of_nat_mult)
  with csr chunk ptr lp(2,3) assms(6) show ?thesis
    by (simp add: mi plan_input_def Let_def nat_add_distrib)
qed

definition example_request :: "scheduled_request" where
  "example_request = \<lparr> request_id = ''req'', input_token_ids = [11, 12, 13], req_work_type = Prefill,
     start_position = 3, block_table = [5, 2, 9], need_sample = True, req_sampling_plan = None \<rparr>"

definition example_plan :: batch_plan where
  "example_plan = \<lparr> step_id = 1, requests = [example_request,
     example_request\<lparr> input_token_ids := [4], start_position := 0, block_table := [1] \<rparr>] \<rparr>"

lemmas example_defs = example_plan_def example_request_def

lemma example_plan_ok:
  "requests example_plan \<noteq> []" "list_all (request_ok 4) (requests example_plan)"
  "i32_ok 4 (requests example_plan)"
  by (simp_all add: example_defs request_ok_def request_context_def i32_ok_def pages_of_def ceil_div_def)

theorem csr_pages_of_requests_witness:
  "\<exists>indptr indices lastp.
    build_paged_kv_csr (mi_block_tables (plan_input example_plan 4)) (mi_context_lens (plan_input example_plan 4)) 4
       = Inr (indptr, indices, lastp) \<and>
    take (nat (indptr ! Suc 0) - nat (indptr ! 0)) (drop (nat (indptr ! 0)) indices) = [5, 2]"
  using csr_pages_of_requests [OF _ example_plan_ok
      from_plan_plan_input [OF _ example_plan_ok(1,2)], of 0]
  by (auto simp: example_defs pages_of_def request_context_def ceil_div_def)

text \<open>C8: The pooled builder agrees with the direct one and with the device-side CSR. For every plan
  whose requests have at least one token of context, enough pages and non-negative page ids, \<open>build\<close>
  on any well-formed pool (whatever its buffers hold from earlier steps, whether or not they have to
  grow) returns the tensors of \<open>from_plan\<close>, the query offsets, and the very CSR that
  \<open>build_paged_kv_csr\<close> would derive from those tensors; the pool stays well formed.\<close>

theorem pool_build_agrees:
  assumes "pool_wf p0" "bl > 0" "requests plan \<noteq> []" "list_all (request_ok bl) (requests plan)"
    and "i32_ok bl (requests plan)"
  shows "\<exists>mi indptr indices lastp p.
    from_plan plan bl = Inr mi \<and>
    build_paged_kv_csr (mi_block_tables mi) (mi_context_lens mi) (int bl) = Inr (indptr, indices, lastp) \<and>
    pool_build junk plan bl p0 =
      Inr (mi\<lparr> mi_flashinfer_csr := Some (mi_query_start_loc mi, indptr, indices, lastp),
               mi_is_decode_only := is_decode_only_plan plan \<rparr>, p) \<and> pool_wf p"
proof -
  obtain p where "pool_wf p" "pool_build junk plan bl p0 =
     Inr ((plan_input plan bl)\<lparr> mi_flashinfer_csr := Some (plan_csr bl (requests plan)),
                               mi_is_decode_only := is_decode_only_plan plan \<rparr>, p)"
    using pool_build_plan_input [OF assms(1-4)] by blast
  then show ?thesis
    using from_plan_plan_input [OF assms(2-4)] csr_of_padded_tables [OF assms(2-5)]
    by (simp add: plan_input_def plan_csr_def Let_def token_count_def [abs_def])
qed

theorem pool_build_agrees_witness:
  "\<exists>p. pool_wf p \<and> pool_build 99 example_plan 4 pool_init =
     Inr ((plan_input example_plan 4)\<lparr> mi_flashinfer_csr := Some ([0, 3, 4], [0, 2, 3], [5, 2, 1], [2, 1]),
                                      mi_is_decode_only := False \<rparr>, p)"
proof -
  have plan: "from_plan example_plan 4 = Inr (plan_input example_plan 4)"
    using from_plan_plan_input [OF _ example_plan_ok(1,2)] by simp
  have csr: "build_paged_kv_csr (mi_block_tables (plan_input example_plan 4))
      (mi_context_lens (plan_input example_plan 4)) (int 4) = Inr ([0, 2, 3], [5, 2, 1], [2, 1])"
    by code_simp
  have "mi_query_start_loc (plan_input example_plan 4) = [0, 3, 4]" "\<not> is_decode_only_plan example_plan"
    by code_simp+
  with plan csr pool_build_agrees [OF pool_wf_init _ example_plan_ok, of 99] show ?thesis
    by auto
qed



end
