(* ===== verification/DecodeGraph.thy ===== *)
theory DecodeGraph
  imports FlashInfer
begin

text \<open>
  Decode CUDA graphs per batch bucket (\<open>executors/torch/decode_graph.py\<close>): bucket selection, packing
  a decode-only plan or a built input into the static buffers of a bucket, the dummy rows that pad
  the batch to the bucket, and the replay with its permanent fallback after a failure. Capturing and
  replaying a CUDA graph is the runtime's; both are fields of \<open>graph_runtime\<close>.
\<close>

section \<open>Buckets\<close>

definition decode_graph_buckets :: "nat list" where
  "decode_graph_buckets = [1, 2, 3, 4, 5, 6, 7, 8, 10, 12, 14, 16, 20, 24, 28, 32, 40, 48, 56, 64]"

definition max_decode_graph_batch :: nat where
  "max_decode_graph_batch = last decode_graph_buckets"

text \<open>\<open>bisect.bisect_left\<close> on a sorted list: the number of smaller entries.\<close>

function bisect_go :: "'a::linorder list \<Rightarrow> 'a \<Rightarrow> nat \<Rightarrow> nat \<Rightarrow> nat" where
  "bisect_go xs x lo hi =
     (if lo < hi then
        (let mid = (lo + hi) div 2
         in if xs ! mid < x then bisect_go xs x (mid + 1) hi else bisect_go xs x lo mid)
      else lo)"
  by pat_completeness auto
termination
  by (relation "measure (\<lambda>(xs, x, lo, hi). hi - lo)") auto

declare bisect_go.simps [simp del]

definition bisect_left :: "'a::linorder list \<Rightarrow> 'a \<Rightarrow> nat" where
  "bisect_left xs x = bisect_go xs x 0 (length xs)"

definition select_decode_graph_bucket :: "int \<Rightarrow> nat option" where
  "select_decode_graph_bucket batch =
     (if batch \<le> 0 \<or> batch > int max_decode_graph_batch then None
      else Some (decode_graph_buckets ! bisect_left decode_graph_buckets (nat batch)))"

section \<open>State\<close>

record graph_host =
  h_tokens :: "int list"
  h_position :: "int list"
  h_slots :: "int list"
  h_context :: "int list"
  h_pages :: "int list list"
  h_kv_indptr :: "int list"
  h_kv_indices :: "int list"
  h_last_page :: "int list"

record decode_graph =
  dg_block_len :: nat
  dg_num_blocks :: nat
  dummy_block :: nat
  dg_inputs :: "nat \<rightharpoonup> model_input"
  dg_captured :: "nat list"
  dg_failed :: "nat list"
  dg_errors :: "(nat \<times> py_error) list"
  dg_host :: "graph_host option"
  csr_ready :: bool
  csr_nnz :: nat

definition dg_init :: "nat \<Rightarrow> nat \<Rightarrow> nat \<Rightarrow> decode_graph" where
  "dg_init bl nb dummy =
     \<lparr> dg_block_len = bl, dg_num_blocks = nb, dummy_block = dummy, dg_inputs = Map.empty,
       dg_captured = [], dg_failed = [], dg_errors = [], dg_host = None,
       csr_ready = False, csr_nnz = 0 \<rparr>"

definition dummy_slot :: "decode_graph \<Rightarrow> int" where
  "dummy_slot dg = int (dummy_block dg * dg_block_len dg)"

definition dummy_row :: "decode_graph \<Rightarrow> int list" where
  "dummy_row dg = (replicate (dg_num_blocks dg) (- 1))[0 := int (dummy_block dg)]"

definition static_input_new :: "decode_graph \<Rightarrow> nat \<Rightarrow> model_input" where
  "static_input_new dg bucket =
     \<lparr> mi_input_token_ids = replicate bucket 0, mi_position = replicate bucket 0,
       mi_slot_mapping = replicate bucket (dummy_slot dg),
       mi_query_start_loc = map int [0..<bucket + 1],
       mi_block_tables = replicate bucket (dummy_row dg),
       mi_context_lens = replicate bucket 1,
       mi_query_start_loc_host = [0..<bucket + 1], mi_context_lens_host = replicate bucket 1,
       mi_flashinfer_csr = None, mi_is_decode_only = False, mi_packed_mask = None \<rparr>"

definition static_input :: "nat \<Rightarrow> decode_graph \<Rightarrow> model_input \<times> decode_graph" where
  "static_input bucket dg =
     (case dg_inputs dg bucket of
        Some mi \<Rightarrow> (mi, dg)
      | None \<Rightarrow> (let mi = static_input_new dg bucket
                 in (mi, dg\<lparr> dg_inputs := (dg_inputs dg)(bucket \<mapsto> mi) \<rparr>)))"

text \<open>\<open>_ensure_host\<close>; \<open>junk\<close> is the content of \<open>torch.empty\<close>.\<close>

definition ensure_host :: "int \<Rightarrow> decode_graph \<Rightarrow> graph_host \<times> decode_graph" where
  "ensure_host junk dg =
     (case dg_host dg of
        Some h \<Rightarrow> (h, dg)
      | None \<Rightarrow>
          (let rows = max_decode_graph_batch;
               h = \<lparr> h_tokens = replicate rows 0, h_position = replicate rows 0,
                     h_slots = replicate rows 0, h_context = replicate rows 0,
                     h_pages = replicate rows (replicate (dg_num_blocks dg) junk),
                     h_kv_indptr = replicate (rows + 1) 0,
                     h_kv_indices = replicate (rows * dg_num_blocks dg) 0,
                     h_last_page = replicate rows 0 \<rparr>
           in (h, dg\<lparr> dg_host := Some h \<rparr>)))"

section \<open>Packing a plan\<close>

text \<open>The table copy of one row; it stops at a page equal to the dummy page.\<close>

fun copy_table :: "int \<Rightarrow> nat \<Rightarrow> nat \<Rightarrow> int list \<Rightarrow> graph_host \<Rightarrow> bool \<times> graph_host" where
  "copy_table dummy index k [] h = (True, h)"
| "copy_table dummy index k (b # bs) h =
     (if b = dummy then (False, h)
      else copy_table dummy index (Suc k) bs
             (h\<lparr> h_pages := (h_pages h)[index := (h_pages h ! index)[k := b]] \<rparr>))"

definition row_fits :: "decode_graph \<Rightarrow> scheduled_request \<Rightarrow> bool" where
  "row_fits dg r =
     (let pos = start_position r; table = block_table r; bl = dg_block_len dg;
          logical = pos div bl; n_pages = ceil_div (pos + 1) bl
      in \<not> (logical \<ge> length table \<or> length table > dg_num_blocks dg \<or> n_pages > length table))"

text \<open>
  One iteration of \<open>_fill_from_plan\<close>'s loop: \<open>False\<close> is \<open>return False\<close>, with the staging written
  so far. The plan is decode-only, so \<open>token_ids[0]\<close> exists.
\<close>

definition pack_row ::
    "decode_graph \<Rightarrow> nat \<Rightarrow> scheduled_request \<Rightarrow> graph_host \<times> nat \<Rightarrow> bool \<times> graph_host \<times> nat" where
  "pack_row dg index r hn =
     (let (h, nnz) = hn; pos = start_position r; table = block_table r; bl = dg_block_len dg;
          n_pages = ceil_div (pos + 1) bl; dummy = int (dummy_block dg);
          physical = table ! (pos div bl)
      in if \<not> row_fits dg r then (False, h, nnz)
         else if physical = dummy then (False, h, nnz)
         else
           (let h1 = h\<lparr> h_tokens := (h_tokens h)[index := hd (input_token_ids r)],
                        h_position := (h_position h)[index := int pos],
                        h_slots := (h_slots h)[index := physical * int bl + int (pos mod bl)],
                        h_context := (h_context h)[index := int (pos + 1)],
                        h_last_page := (h_last_page h)[index := int (last_page_of bl (pos + 1))] \<rparr>
            in case copy_table dummy index 0 table h1 of
                 (False, h2) \<Rightarrow> (False, h2, nnz)
               | (True, h2) \<Rightarrow>
                   (True, h2\<lparr> h_kv_indices := fold (\<lambda>i xs. xs[nnz + i := table ! i]) [0..<n_pages] (h_kv_indices h2),
                              h_kv_indptr := (h_kv_indptr h2)[index + 1 := int (nnz + n_pages)] \<rparr>,
                    nnz + n_pages)))"

fun pack_rows ::
    "decode_graph \<Rightarrow> nat \<Rightarrow> scheduled_request list \<Rightarrow> graph_host \<times> nat \<Rightarrow> bool \<times> graph_host \<times> nat" where
  "pack_rows dg index [] hn = (True, hn)"
| "pack_rows dg index (r # rs) hn =
     (case pack_row dg index r hn of
        (False, hn') \<Rightarrow> (False, hn')
      | (True, hn') \<Rightarrow> pack_rows dg (Suc index) rs hn')"

definition pad_row_at :: "decode_graph \<Rightarrow> nat \<Rightarrow> graph_host \<times> nat \<Rightarrow> graph_host \<times> nat" where
  "pad_row_at dg index hn =
     (let (h, nnz) = hn
      in (h\<lparr> h_kv_indices := (h_kv_indices h)[nnz := int (dummy_block dg)],
             h_last_page := (h_last_page h)[index := 1],
             h_kv_indptr := (h_kv_indptr h)[index + 1 := int (nnz + 1)] \<rparr>, nnz + 1))"

definition pad_rows :: "decode_graph \<Rightarrow> nat \<Rightarrow> nat \<Rightarrow> graph_host \<times> nat \<Rightarrow> graph_host \<times> nat" where
  "pad_rows dg batch bucket hn =
     (if batch < bucket
      then
        (let h = fst hn; n = bucket - batch;
             h1 = h\<lparr> h_tokens := put_slice (h_tokens h) batch (replicate n 0),
                     h_position := put_slice (h_position h) batch (replicate n 0),
                     h_slots := put_slice (h_slots h) batch (replicate n (dummy_slot dg)),
                     h_context := put_slice (h_context h) batch (replicate n 1) \<rparr>
         in fold (pad_row_at dg) [batch..<bucket] (h1, snd hn))
      else hn)"

definition copy_host :: "nat \<Rightarrow> graph_host \<Rightarrow> decode_graph \<Rightarrow> decode_graph" where
  "copy_host bucket h dg =
     (let (dst, dg1) = static_input bucket dg
      in dg1\<lparr> dg_inputs := (dg_inputs dg1)(bucket \<mapsto>
           dst\<lparr> mi_input_token_ids := take bucket (h_tokens h),
                mi_position := take bucket (h_position h),
                mi_slot_mapping := take bucket (h_slots h),
                mi_context_lens := take bucket (h_context h),
                mi_block_tables := take bucket (h_pages h) \<rparr>) \<rparr>)"

definition fill_from_plan :: "int \<Rightarrow> nat \<Rightarrow> batch_plan \<Rightarrow> nat \<Rightarrow> decode_graph \<Rightarrow> bool \<times> decode_graph" where
  "fill_from_plan junk bucket plan batch dg =
     (let (h, dg1) = ensure_host junk dg;
          h0 = h\<lparr> h_pages := put_slice (h_pages h) 0 (replicate bucket (dummy_row dg)),
                  h_kv_indptr := (h_kv_indptr h)[0 := 0] \<rparr>
      in case pack_rows dg 0 (requests plan) (h0, 0) of
           (False, h1, nnz) \<Rightarrow> (False, dg1\<lparr> dg_host := Some h1 \<rparr>)
         | (True, hn) \<Rightarrow>
             (let (h2, nnz) = pad_rows dg batch bucket hn
              in (True, (copy_host bucket h2 (dg1\<lparr> dg_host := Some h2 \<rparr>))\<lparr> csr_nnz := nnz \<rparr>)))"

definition pack_plan :: "int \<Rightarrow> batch_plan \<Rightarrow> decode_graph \<Rightarrow> (nat \<times> nat) option \<times> decode_graph" where
  "pack_plan junk plan dg =
     (if \<not> is_decode_only_plan plan then (None, dg)
      else
        (let batch = length (requests plan)
         in case select_decode_graph_bucket (int batch) of
              None \<Rightarrow> (None, dg)
            | Some bucket \<Rightarrow>
                (if bucket \<in> set (dg_failed dg) then (None, dg)
                 else case fill_from_plan junk bucket plan batch dg of
                        (False, dg1) \<Rightarrow> (None, dg1)
                      | (True, dg1) \<Rightarrow> (Some (bucket, batch), dg1\<lparr> csr_ready := True \<rparr>))))"

section \<open>Packing a built input\<close>

definition copy_into :: "nat \<Rightarrow> int list \<Rightarrow> int list \<Rightarrow> int list outcome" where
  "copy_into n dst src =
     require (length src = n) (RuntimeError ''size mismatch in copy_'') (Inr (put_slice dst 0 src))"

definition fill_input :: "nat \<Rightarrow> model_input \<Rightarrow> nat \<Rightarrow> decode_graph \<Rightarrow> decode_graph outcome" where
  "fill_input bucket src batch dg =
     (let (dst, dg1) = static_input bucket dg;
          pages = min (row_width (mi_block_tables src)) (row_width (mi_block_tables dst));
          padn = bucket - batch
      in obind (copy_into batch (mi_input_token_ids dst) (mi_input_token_ids src)) (\<lambda>toks.
         obind (copy_into batch (mi_position dst) (mi_position src)) (\<lambda>poss.
         obind (copy_into batch (mi_slot_mapping dst) (mi_slot_mapping src)) (\<lambda>slots.
         obind (copy_into batch (mi_context_lens dst) (mi_context_lens src)) (\<lambda>ctx.
         require (length (mi_block_tables src) = batch) (RuntimeError ''size mismatch in copy_'')
          (Inr (dg1\<lparr> dg_inputs := (dg_inputs dg1)(bucket \<mapsto>
             dst\<lparr> mi_input_token_ids := put_slice toks batch (replicate padn 0),
                  mi_position := put_slice poss batch (replicate padn 0),
                  mi_slot_mapping := put_slice slots batch (replicate padn (dummy_slot dg)),
                  mi_context_lens := put_slice ctx batch (replicate padn 1),
                  mi_block_tables :=
                    map (\<lambda>row. put_slice (dummy_row dg) 0 (take pages row)) (mi_block_tables src)
                    @ replicate padn (dummy_row dg) \<rparr>) \<rparr>)))))))"

section \<open>Replay\<close>

record ('c, 'v) graph_runtime =
  rt_capture :: "nat \<Rightarrow> model_input \<Rightarrow> 'c \<Rightarrow> unit outcome \<times> 'c"
  rt_replay :: "nat \<Rightarrow> model_input \<Rightarrow> plan_call \<Rightarrow> 'c \<Rightarrow> 'v list list outcome \<times> 'c"

type_synonym 'c graph_state = "decode_graph \<times> fi_attention \<times> 'c"

definition ensure_captured ::
    "('c, 'v) graph_runtime \<Rightarrow> nat \<Rightarrow> 'c graph_state \<Rightarrow> unit outcome \<times> 'c graph_state" where
  "ensure_captured rt bucket s =
     (case s of (dg, fi, c) \<Rightarrow>
        if bucket \<in> set (dg_captured dg) then (Inr (), s)
        else
          (let (mi, dg1) = static_input bucket dg
           in case ensure_decode_wrapper bucket fi of
                Inl err \<Rightarrow> (Inl err, dg1, fi, c)
              | Inr (w, fi1) \<Rightarrow>
                  (case rt_capture rt bucket mi c of
                     (Inl err, c1) \<Rightarrow> (Inl err, dg1, fi1, c1)
                   | (Inr _, c1) \<Rightarrow> (Inr (), dg1\<lparr> dg_captured := bucket # dg_captured dg1 \<rparr>, fi1, c1))))"

text \<open>\<open>except Exception\<close>: the bucket is marked failed and the caller falls back to the eager path.\<close>

definition mark_failed :: "nat \<Rightarrow> py_error \<Rightarrow> decode_graph \<Rightarrow> decode_graph" where
  "mark_failed bucket err dg =
     dg\<lparr> dg_failed := bucket # dg_failed dg, dg_errors := (bucket, err) # dg_errors dg \<rparr>"

definition host_csr_of :: "nat \<Rightarrow> decode_graph \<Rightarrow> (int list \<times> int list \<times> int list) option" where
  "host_csr_of bucket dg =
     (case dg_host dg of
        None \<Rightarrow> None
      | Some h \<Rightarrow> Some (take (bucket + 1) (h_kv_indptr h), take (csr_nnz dg) (h_kv_indices h),
                        take bucket (h_last_page h)))"

definition replay_bucket ::
    "('c, 'v) graph_runtime \<Rightarrow> nat \<Rightarrow> nat \<Rightarrow> (int list \<times> int list \<times> int list) option \<Rightarrow> bool
       \<Rightarrow> 'c graph_state \<Rightarrow> 'v list list option \<times> 'c graph_state" where
  "replay_bucket rt bucket batch csr staged s =
     (case ensure_captured rt bucket s of
        (Inl err, dg, fi, c) \<Rightarrow> (None, mark_failed bucket err dg, fi, c)
      | (Inr _, dg, fi, c) \<Rightarrow>
          (let csr' = (if csr = None \<and> csr_ready dg then host_csr_of bucket dg else csr)
           in case dg_inputs dg bucket of
                None \<Rightarrow> (None, mark_failed bucket KeyError dg, fi, c)
              | Some mi \<Rightarrow>
                  (case plan_decode_bucket bucket mi csr' staged fi of
                     Inl err \<Rightarrow> (None, mark_failed bucket err dg, fi, c)
                   | Inr (call, fi1) \<Rightarrow>
                       (case rt_replay rt bucket mi call c of
                          (Inl err, c1) \<Rightarrow> (None, mark_failed bucket err dg, fi1, c1)
                        | (Inr logits, c1) \<Rightarrow> (Some (take batch logits), dg, fi1, c1)))))"

definition try_replay_plan ::
    "('c, 'v) graph_runtime \<Rightarrow> int \<Rightarrow> bool \<Rightarrow> batch_plan \<Rightarrow> 'c graph_state
       \<Rightarrow> 'v list list option \<times> 'c graph_state" where
  "try_replay_plan rt junk staged plan s =
     (case s of (dg, fi, c) \<Rightarrow>
        (case pack_plan junk plan dg of
           (None, dg1) \<Rightarrow> (None, dg1, fi, c)
         | (Some (bucket, batch), dg1) \<Rightarrow> replay_bucket rt bucket batch None staged (dg1, fi, c)))"

definition try_replay ::
    "('c, 'v) graph_runtime \<Rightarrow> bool \<Rightarrow> model_input \<Rightarrow> 'c graph_state
       \<Rightarrow> ('v list list option \<times> 'c graph_state) outcome" where
  "try_replay rt staged mi s =
     (case s of (dg, fi, c) \<Rightarrow>
        if \<not> mi_is_decode_only mi then Inr (None, s)
        else
          (let batch = length (mi_context_lens mi)
           in case select_decode_graph_bucket (int batch) of
                None \<Rightarrow> Inr (None, s)
              | Some bucket \<Rightarrow>
                  (if bucket \<in> set (dg_failed dg) then Inr (None, s)
                   else obind (fill_input bucket mi batch dg) (\<lambda>dg1.
                     let csr = (case mi_flashinfer_csr mi of
                                  Some (qo, indptr, indices, lastp) \<Rightarrow>
                                    (if batch = bucket then Some (indptr, indices, lastp) else None)
                                | None \<Rightarrow> None)
                     in Inr (replay_bucket rt bucket batch csr staged (dg1\<lparr> csr_ready := False \<rparr>, fi, c))))))"

section \<open>Bucket selection\<close>

lemma bisect_go_bounds:
  assumes "sorted xs" "hi \<le> length xs" "lo \<le> hi"
    and "\<And>i. i < lo \<Longrightarrow> xs ! i < x" "\<And>i. hi \<le> i \<Longrightarrow> i < length xs \<Longrightarrow> x \<le> xs ! i"
  shows "bisect_go xs x lo hi \<le> hi \<and> (\<forall>i < bisect_go xs x lo hi. xs ! i < x)
     \<and> (\<forall>i. bisect_go xs x lo hi \<le> i \<and> i < length xs \<longrightarrow> x \<le> xs ! i)"
  using assms
proof (induction xs x lo hi rule: bisect_go.induct)
  case (1 xs x lo hi)
  show ?case
  proof (cases "lo < hi")
    case True
    let ?mid = "(lo + hi) div 2"
    have mid: "lo \<le> ?mid" "?mid < hi" "?mid < length xs" using True "1.prems"(2) by auto
    show ?thesis
    proof (cases "xs ! ?mid < x")
      case less: True
      have "xs ! i < x" if "i < ?mid + 1" for i
        using sorted_nth_mono [OF "1.prems"(1), of i ?mid] that mid less by auto
      with "1.IH"(1) [OF True refl less] "1.prems" mid
      have "bisect_go xs x (?mid + 1) hi \<le> hi \<and> (\<forall>i < bisect_go xs x (?mid + 1) hi. xs ! i < x)
         \<and> (\<forall>i. bisect_go xs x (?mid + 1) hi \<le> i \<and> i < length xs \<longrightarrow> x \<le> xs ! i)" by auto
      with True less show ?thesis by (subst (1 2 3) bisect_go.simps) (simp add: Let_def)
    next
      case ge: False
      have "x \<le> xs ! i" if "?mid \<le> i" "i < length xs" for i
        using sorted_nth_mono [OF "1.prems"(1) that] ge by auto
      with "1.IH"(2) [OF True refl ge] "1.prems" mid
      have "bisect_go xs x lo ?mid \<le> ?mid \<and> (\<forall>i < bisect_go xs x lo ?mid. xs ! i < x)
         \<and> (\<forall>i. bisect_go xs x lo ?mid \<le> i \<and> i < length xs \<longrightarrow> x \<le> xs ! i)" by auto
      with True ge mid show ?thesis by (subst (1 2 3) bisect_go.simps) (simp add: Let_def)
    qed
  next
    case False
    with "1.prems" show ?thesis by (subst (1 2 3) bisect_go.simps) auto
  qed
qed

lemma bisect_left_sorted:
  assumes "sorted xs"
  shows "bisect_left xs x \<le> length xs" "i < bisect_left xs x \<Longrightarrow> xs ! i < x"
    "bisect_left xs x \<le> i \<Longrightarrow> i < length xs \<Longrightarrow> x \<le> xs ! i"
  using bisect_go_bounds [OF assms order_refl, of 0 x] by (auto simp: bisect_left_def)

lemma buckets_sorted: "sorted decode_graph_buckets" "last decode_graph_buckets = 64"
  "length decode_graph_buckets = 20"
  by (simp_all add: decode_graph_buckets_def)

lemma max_batch_64 [simp]: "max_decode_graph_batch = 64"
  by (simp add: max_decode_graph_batch_def buckets_sorted)

lemma bucket_bounds:
  assumes "select_decode_graph_bucket (int batch) = Some bucket"
  shows "0 < batch" "batch \<le> bucket" "bucket \<le> 64" "bucket \<in> set decode_graph_buckets"
proof -
  let ?b = "bisect_left decode_graph_buckets batch"
  have b: "0 < batch" "batch \<le> 64" "bucket = decode_graph_buckets ! ?b"
    using assms by (auto simp: select_decode_graph_bucket_def split: if_splits)
  have "?b < 20"
  proof (rule ccontr)
    assume "\<not> ?b < 20"
    with bisect_left_sorted(2) [OF buckets_sorted(1), of 19 batch] have "64 < batch"
      by (simp add: decode_graph_buckets_def)
    with b show False by simp
  qed
  then have m: "bucket \<in> set decode_graph_buckets" "batch \<le> bucket"
    using b bisect_left_sorted(3) [OF buckets_sorted(1) order_refl, of batch] by (auto simp: buckets_sorted)
  then show "0 < batch" "batch \<le> bucket" "bucket \<le> 64" "bucket \<in> set decode_graph_buckets"
    using b by (auto simp: decode_graph_buckets_def)
qed

section \<open>Packed rows\<close>

definition dummy_request :: "decode_graph \<Rightarrow> scheduled_request" where
  "dummy_request dg = \<lparr> request_id = [], input_token_ids = [0], req_work_type = Decode,
     start_position = 0, block_table = [int (dummy_block dg)], need_sample = False,
     req_sampling_plan = None \<rparr>"

definition pack_ok :: "decode_graph \<Rightarrow> scheduled_request \<Rightarrow> bool" where
  "pack_ok dg r = (row_fits dg r \<and> int (dummy_block dg) \<notin> set (block_table r))"

lemma copy_table_eq:
  "dummy \<notin> set bs \<Longrightarrow> index < length (h_pages h) \<Longrightarrow> k + length bs \<le> length (h_pages h ! index) \<Longrightarrow>
     copy_table dummy index k bs h =
       (True, h\<lparr> h_pages := (h_pages h)[index := put_slice (h_pages h ! index) k bs] \<rparr>)"
proof (induction bs arbitrary: k h)
  case (Cons b bs)
  let ?row = "h_pages h ! index"
  have "put_slice (?row[k := b]) (Suc k) bs = put_slice ?row k (b # bs)"
    using Cons.prems by (intro nth_equalityI) (auto simp: nth_put_slice nth_Cons')
  with Cons show ?case by simp
qed simp

lemma copy_table_dummy: "dummy \<in> set bs \<Longrightarrow> \<not> fst (copy_table dummy index k bs h)"
  by (induction bs arbitrary: k h) auto

lemma fold_kv_put:
  "n \<le> length table \<Longrightarrow> nnz + n \<le> length xs \<Longrightarrow>
     fold (\<lambda>i xs. xs[nnz + i := table ! i]) [0..<n] xs = put_slice xs nnz (take n table)"
proof (induction n)
  case (Suc n)
  then show ?case
    using put_slice_snoc [of nnz "take n table" xs] by (simp add: take_Suc_conv_app_nth)
qed simp

definition host_wf :: "nat \<Rightarrow> graph_host \<Rightarrow> bool" where
  "host_wf nb h =
     (length (h_tokens h) = 64 \<and> length (h_position h) = 64 \<and> length (h_slots h) = 64 \<and>
      length (h_context h) = 64 \<and> length (h_pages h) = 64 \<and> length (h_kv_indptr h) = 65 \<and>
      length (h_kv_indices h) = 64 * nb \<and> length (h_last_page h) = 64)"

text \<open>The staging after the rows \<open>done\<close>, with the page rows of the bucket initialised.\<close>

definition rows_inv :: "decode_graph \<Rightarrow> nat \<Rightarrow> scheduled_request list \<Rightarrow> graph_host \<Rightarrow> bool" where
  "rows_inv dg bucket done h =
     (take (length done) (h_tokens h) = concat (map input_token_ids done) \<and>
      take (length done) (h_position h) = concat (map request_positions done) \<and>
      take (length done) (h_slots h) = concat (map (slots_at (dg_block_len dg)) done) \<and>
      take (length done) (h_context h) = map (int \<circ> request_context) done)"

definition csr_inv :: "decode_graph \<Rightarrow> scheduled_request list \<Rightarrow> graph_host \<Rightarrow> nat \<Rightarrow> bool" where
  "csr_inv dg done h nnz =
     (nnz = sum_list (map (pages_of (dg_block_len dg)) done) \<and>
      take (length done) (h_last_page h) = map (int \<circ> last_page_of (dg_block_len dg) \<circ> request_context) done \<and>
      take (length done + 1) (h_kv_indptr h) = map int (prefix_sums 0 (map (pages_of (dg_block_len dg)) done)) \<and>
      take nnz (h_kv_indices h) = concat (map (\<lambda>r. take (pages_of (dg_block_len dg) r) (block_table r)) done))"

definition pages_inv :: "decode_graph \<Rightarrow> nat \<Rightarrow> scheduled_request list \<Rightarrow> graph_host \<Rightarrow> bool" where
  "pages_inv dg bucket done h =
     (take bucket (h_pages h) = map (pad_row (dg_num_blocks dg) \<circ> block_table) done
        @ replicate (bucket - length done) (dummy_row dg))"

lemma single_token:
  assumes "length (input_token_ids r) = 1"
  shows "input_token_ids r = [hd (input_token_ids r)]" "request_positions r = [int (start_position r)]"
    "slots_at bl r = [slot_at (block_table r) bl (start_position r)]"
    "request_context r = start_position r + 1"
  using assms by (cases "input_token_ids r"; auto simp: request_positions_def slots_at_def request_context_def)+

lemma row_fits_pages:
  assumes "row_fits dg r" "length (input_token_ids r) = 1"
  shows "pages_of (dg_block_len dg) r \<le> length (block_table r)"
    "length (block_table r) \<le> dg_num_blocks dg"
    "start_position r div dg_block_len dg < length (block_table r)"
  using assms single_token(4) [OF assms(2)] by (auto simp: row_fits_def Let_def pages_of_def)

lemma pages_sum_bound:
  "list_all (\<lambda>r. pages_of bl r \<le> nb) rs \<Longrightarrow> sum_list (map (pages_of bl) rs) \<le> length rs * nb"
  by (induction rs) auto

lemma dummy_row_table:
  assumes "length t \<le> dg_num_blocks dg" "t \<noteq> []"
  shows "put_slice (dummy_row dg) 0 t = pad_row (dg_num_blocks dg) t"
  using assms by (cases t) (auto simp: dummy_row_def put_slice_def pad_row_def)

definition packed_inv :: "decode_graph \<Rightarrow> nat \<Rightarrow> scheduled_request list \<Rightarrow> graph_host \<Rightarrow> nat \<Rightarrow> bool" where
  "packed_inv dg bucket done h nnz =
     (host_wf (dg_num_blocks dg) h \<and> rows_inv dg bucket done h \<and> csr_inv dg done h nnz \<and>
      pages_inv dg bucket done h \<and> list_all (\<lambda>r. pages_of (dg_block_len dg) r \<le> dg_num_blocks dg) done)"

lemma length_dummy_row [simp]: "length (dummy_row dg) = dg_num_blocks dg"
  by (simp add: dummy_row_def)

lemma pack_row_eq:
  assumes ok: "pack_ok dg r" and one: "length (input_token_ids r) = 1"
    and row: "index < length (h_pages h)" "h_pages h ! index = dummy_row dg"
    and kv: "nnz + pages_of (dg_block_len dg) r \<le> length (h_kv_indices h)"
  shows "pack_row dg index r (h, nnz) =
    (True, h\<lparr> h_tokens := (h_tokens h)[index := hd (input_token_ids r)],
              h_position := (h_position h)[index := int (start_position r)],
              h_slots := (h_slots h)[index := slot_at (block_table r) (dg_block_len dg) (start_position r)],
              h_context := (h_context h)[index := int (request_context r)],
              h_last_page := (h_last_page h)[index := int (last_page_of (dg_block_len dg) (request_context r))],
              h_pages := (h_pages h)[index := pad_row (dg_num_blocks dg) (block_table r)],
              h_kv_indices := put_slice (h_kv_indices h) nnz (take (pages_of (dg_block_len dg) r) (block_table r)),
              h_kv_indptr := (h_kv_indptr h)[index + 1 := int (nnz + pages_of (dg_block_len dg) r)] \<rparr>,
     nnz + pages_of (dg_block_len dg) r)"
proof -
  have fits: "row_fits dg r" and nodummy: "int (dummy_block dg) \<notin> set (block_table r)"
    using ok by (auto simp: pack_ok_def)
  note p = row_fits_pages [OF fits one]
  have phys: "block_table r ! (start_position r div dg_block_len dg) \<noteq> int (dummy_block dg)"
    using nodummy p(3) by (metis nth_mem)
  have ne: "block_table r \<noteq> []" using p(3) by auto
  have pages: "ceil_div (start_position r + 1) (dg_block_len dg) = pages_of (dg_block_len dg) r"
    by (simp add: pages_of_def single_token(4) [OF one])
  have tbl: "copy_table (int (dummy_block dg)) index 0 (block_table r) h' =
      (True, h'\<lparr> h_pages := (h_pages h)[index := pad_row (dg_num_blocks dg) (block_table r)] \<rparr>)"
    if "h_pages h' = h_pages h" for h'
    using copy_table_eq [OF nodummy, of index h' 0] row p(2) dummy_row_table [OF p(2) ne] that by simp
  show ?thesis
    unfolding pack_row_def Let_def prod.case
    using fits phys kv p(1)
    by (subst tbl) (simp_all add: pages [simplified] fold_kv_put slot_at_def single_token(4) [OF one])
qed

lemma csr_inv_snoc:
  assumes "csr_inv dg done h nnz" "length done < length (h_last_page h)" "length done + 1 < length (h_kv_indptr h)"
    and "nnz + pages_of (dg_block_len dg) r \<le> length (h_kv_indices h)"
    and "pages_of (dg_block_len dg) r \<le> length (block_table r)"
    and "h_last_page h' = (h_last_page h)[length done := int (last_page_of (dg_block_len dg) (request_context r))]"
    and "h_kv_indices h' = put_slice (h_kv_indices h) nnz (take (pages_of (dg_block_len dg) r) (block_table r))"
    and "h_kv_indptr h' = (h_kv_indptr h)[length done + 1 := int (nnz + pages_of (dg_block_len dg) r)]"
  shows "csr_inv dg (done @ [r]) h' (nnz + pages_of (dg_block_len dg) r)"
proof -
  note I = assms(1) [unfolded csr_inv_def]
  have nnz: "nnz = sum_list (map (pages_of (dg_block_len dg)) done)" using I by blast
  have "take (nnz + pages_of (dg_block_len dg) r) (h_kv_indices h') =
      concat (map (\<lambda>r. take (pages_of (dg_block_len dg) r) (block_table r)) done)
        @ take (pages_of (dg_block_len dg) r) (block_table r)"
    unfolding assms(7) using I assms(4,5) by (intro take_put_grow) auto
  moreover have "take (Suc (length done)) (h_last_page h') =
      map (int \<circ> last_page_of (dg_block_len dg) \<circ> request_context) done
        @ [int (last_page_of (dg_block_len dg) (request_context r))]"
    unfolding assms(6) using I assms(2) by (intro take_update_grow) auto
  moreover have "take (Suc (length done + 1)) (h_kv_indptr h') =
      map int (prefix_sums 0 (map (pages_of (dg_block_len dg)) done)) @ [int (nnz + pages_of (dg_block_len dg) r)]"
    unfolding assms(8) using I assms(3) by (intro take_update_grow) auto
  ultimately show ?thesis by (simp add: csr_inv_def prefix_sums_append1 nnz)
qed

lemma pack_row_step:
  assumes ok: "pack_ok dg r" and one: "length (input_token_ids r) = 1"
    and inv: "packed_inv dg bucket done h nnz" and k: "length done < bucket" "bucket \<le> 64"
  shows "\<exists>h' nnz'. pack_row dg (length done) r (h, nnz) = (True, h', nnz') \<and> packed_inv dg bucket (done @ [r]) h' nnz'"
proof -
  let ?k = "length done" and ?bl = "dg_block_len dg" and ?nb = "dg_num_blocks dg"
  note p = row_fits_pages [OF ok [unfolded pack_ok_def, THEN conjunct1] one]
  note I = inv [unfolded packed_inv_def rows_inv_def csr_inv_def pages_inv_def host_wf_def]
  have "nnz \<le> ?k * ?nb" using I pages_sum_bound [of ?bl ?nb "done"] by simp
  moreover have "?k * ?nb + ?nb \<le> 64 * ?nb"
    using k mult_le_mono1 [of "Suc ?k" 64 ?nb] by simp
  ultimately have kv: "nnz + pages_of ?bl r \<le> 64 * ?nb" using p by linarith
  have row: "h_pages h ! ?k = dummy_row dg"
  proof -
    have "h_pages h ! ?k = take bucket (h_pages h) ! ?k" using k by simp
    also have "\<dots> = dummy_row dg" using I k by (simp add: nth_append)
    finally show ?thesis .
  qed
  have pages: "take bucket ((h_pages h)[?k := v]) = map (pad_row ?nb \<circ> block_table) done @ v # replicate (bucket - Suc ?k) (dummy_row dg)" for v
  proof -
    have "take bucket ((h_pages h)[?k := v]) = (take bucket (h_pages h))[?k := v]"
      by (simp add: take_update_swap)
    also have "\<dots> = (map (pad_row ?nb \<circ> block_table) done @ replicate (bucket - ?k) (dummy_row dg))[?k := v]"
      using I by simp
    also have "\<dots> = map (pad_row ?nb \<circ> block_table) done @ v # replicate (bucket - Suc ?k) (dummy_row dg)"
      using k Suc_diff_Suc [OF k(1)] by (simp add: list_update_append flip: replicate_Suc)
        (metis list_update_code(2) replicate_Suc)
    finally show ?thesis .
  qed
  have pl: "length (take (pages_of ?bl r) (block_table r)) = pages_of ?bl r" using p by simp
  let ?h' = "fst (snd (pack_row dg ?k r (h, nnz)))"
  have eq: "pack_row dg ?k r (h, nnz) = (True, ?h', nnz + pages_of ?bl r)"
    using pack_row_eq [OF ok one, of ?k h nnz] I k row kv by simp
  have h': "?h' = snd (True, ?h')" by simp
  have "packed_inv dg bucket (done @ [r]) ?h' (nnz + pages_of ?bl r)"
    unfolding packed_inv_def
  proof (intro conjI)
    show "host_wf ?nb ?h'"
      using pack_row_eq [OF ok one, of ?k h nnz] I k row kv pl by (simp add: host_wf_def)
    show "rows_inv dg bucket (done @ [r]) ?h'"
      using pack_row_eq [OF ok one, of ?k h nnz] I k row kv single_token [OF one]
      by (simp add: rows_inv_def take_list_update_Suc)
    show "csr_inv dg (done @ [r]) ?h' (nnz + pages_of ?bl r)"
      using pack_row_eq [OF ok one, of ?k h nnz] I k row kv p(1)
      by (intro csr_inv_snoc [of _ _ h]) (auto simp: csr_inv_def)
    show "pages_inv dg bucket (done @ [r]) ?h'"
      using pack_row_eq [OF ok one, of ?k h nnz] I k row kv pages
      by (simp add: pages_inv_def)
    show "list_all (\<lambda>r. pages_of ?bl r \<le> ?nb) (done @ [r])"
      using I p by simp
  qed
  with eq show ?thesis by blast
qed

lemma pack_rows_ok:
  assumes "list_all (pack_ok dg) rs" "list_all (\<lambda>r. length (input_token_ids r) = 1) rs"
    and "packed_inv dg bucket done h nnz" "length done + length rs \<le> bucket" "bucket \<le> 64"
  shows "\<exists>h' nnz'. pack_rows dg (length done) rs (h, nnz) = (True, h', nnz') \<and> packed_inv dg bucket (done @ rs) h' nnz'"
  using assms
proof (induction rs arbitrary: "done" h nnz)
  case (Cons r rs)
  then obtain h1 nnz1 where "pack_row dg (length done) r (h, nnz) = (True, h1, nnz1)"
    "packed_inv dg bucket (done @ [r]) h1 nnz1"
    using pack_row_step [of dg r bucket "done" h nnz] by auto
  with Cons.IH [of "done @ [r]" h1 nnz1] Cons.prems show ?case by simp
qed auto

lemma pack_rows_True:
  assumes "fst (pack_rows dg index rs hn)"
  shows "list_all (pack_ok dg) rs"
  using assms
proof (induction rs arbitrary: index hn)
  case (Cons r rs)
  have "pack_ok dg r" if "fst (pack_row dg index r hn)"
    using that copy_table_dummy [of "int (dummy_block dg)" "block_table r" index 0]
    by (auto simp: pack_row_def pack_ok_def Let_def split: prod.splits if_splits bool.splits) 
      (metis fst_conv)
  with Cons show ?case by (auto split: prod.splits bool.splits) 
qed simp

section \<open>Padding rows\<close>

lemma dummy_request_facts:
  assumes "dg_block_len dg > 0" "dg_num_blocks dg > 0"
  shows "pages_of (dg_block_len dg) (dummy_request dg) = 1" "input_token_ids (dummy_request dg) = [0]"
    "request_positions (dummy_request dg) = [0]" "slots_at (dg_block_len dg) (dummy_request dg) = [dummy_slot dg]"
    "request_context (dummy_request dg) = 1" "last_page_of (dg_block_len dg) 1 = 1"
    "block_table (dummy_request dg) = [int (dummy_block dg)]"
    "pad_row (dg_num_blocks dg) (block_table (dummy_request dg)) = dummy_row dg"
proof -
  show 1: "request_context (dummy_request dg) = 1" by (simp add: dummy_request_def request_context_def)
  have "ceil_div 1 (dg_block_len dg) = 1" using assms(1) by (simp add: ceil_div_def)
  with 1 show "pages_of (dg_block_len dg) (dummy_request dg) = 1" by (simp add: pages_of_def)
  show "last_page_of (dg_block_len dg) 1 = 1"
    using assms(1) by (cases "dg_block_len dg = 1") (auto simp: last_page_of_def Let_def mod_Suc)
  show t: "block_table (dummy_request dg) = [int (dummy_block dg)]" by (simp add: dummy_request_def)
  show "pad_row (dg_num_blocks dg) (block_table (dummy_request dg)) = dummy_row dg"
    using assms(2) by (cases "dg_num_blocks dg") (simp_all add: t pad_row_def dummy_row_def)
qed (simp_all add: dummy_request_def request_positions_def slots_at_def slot_at_def dummy_slot_def)

lemma pad_fold:
  assumes "dg_block_len dg > 0" "dg_num_blocks dg > 0"
    and "host_wf (dg_num_blocks dg) h \<and> csr_inv dg done h nnz \<and>
      list_all (\<lambda>r. pages_of (dg_block_len dg) r \<le> dg_num_blocks dg) done"
    and "length done + n \<le> 64"
  shows "\<exists>h' nnz'. fold (pad_row_at dg) [length done..<length done + n] (h, nnz) = (h', nnz') \<and>
    host_wf (dg_num_blocks dg) h' \<and> csr_inv dg (done @ replicate n (dummy_request dg)) h' nnz' \<and>
    h_tokens h' = h_tokens h \<and> h_position h' = h_position h \<and> h_slots h' = h_slots h \<and>
    h_context h' = h_context h \<and> h_pages h' = h_pages h"
  using assms(4)
proof (induction n)
  case 0
  with assms(3) show ?case by simp
next
  case (Suc n)
  let ?d = "dummy_request dg" and ?bl = "dg_block_len dg" and ?nb = "dg_num_blocks dg"
  obtain h1 nnz1 where h1: "fold (pad_row_at dg) [length done..<length done + n] (h, nnz) = (h1, nnz1)"
    "host_wf ?nb h1" "csr_inv dg (done @ replicate n ?d) h1 nnz1"
    "h_tokens h1 = h_tokens h \<and> h_position h1 = h_position h \<and> h_slots h1 = h_slots h \<and>
     h_context h1 = h_context h \<and> h_pages h1 = h_pages h"
    using Suc by auto
  note D = dummy_request_facts [OF assms(1,2)]
  have "list_all (\<lambda>r. pages_of ?bl r \<le> ?nb) (done @ replicate n ?d)"
    using assms(2,3) D(1) by (auto simp: list_all_iff)
  then have "sum_list (map (pages_of ?bl) (done @ replicate n ?d)) \<le> length (done @ replicate n ?d) * ?nb"
    by (rule pages_sum_bound)
  then have "nnz1 \<le> length (done @ replicate n ?d) * ?nb"
    using h1(3) unfolding csr_inv_def by argo
  also have "\<dots> < 64 * ?nb" using Suc.prems assms(2) by simp
  finally have kv: "nnz1 < 64 * ?nb" .
  let ?h' = "h1\<lparr> h_kv_indices := (h_kv_indices h1)[nnz1 := int (dummy_block dg)],
             h_last_page := (h_last_page h1)[length done + n := 1],
             h_kv_indptr := (h_kv_indptr h1)[length done + n + 1 := int (nnz1 + 1)] \<rparr>"
  have "fold (pad_row_at dg) [length done..<length done + Suc n] (h, nnz) = (?h', nnz1 + 1)"
    using h1(1) by (simp add: pad_row_at_def)
  moreover have "host_wf ?nb ?h'" using h1(2) by (simp add: host_wf_def)
  moreover have "csr_inv dg (done @ replicate (Suc n) ?d) ?h' (nnz1 + 1)"
  proof -
    have snoc: "done @ replicate (Suc n) ?d = (done @ replicate n ?d) @ [?d]"
      by (simp add: replicate_append_same flip: replicate_Suc)
    show ?thesis
      unfolding snoc using csr_inv_snoc [OF h1(3), of ?d ?h'] h1(2) kv Suc.prems D
      by (simp add: host_wf_def put_slice_single)
  qed
  ultimately show ?case using h1(4) by auto
qed

lemma pad_rows_ok:
  assumes bl: "dg_block_len dg > 0" "dg_num_blocks dg > 0" and inv: "packed_inv dg bucket done h nnz"
    and le: "length done \<le> bucket" "bucket \<le> 64"
  shows "\<exists>h' nnz'. pad_rows dg (length done) bucket (h, nnz) = (h', nnz') \<and>
    packed_inv dg bucket (done @ replicate (bucket - length done) (dummy_request dg)) h' nnz'"
proof (cases "length done < bucket")
  case False
  with le inv show ?thesis by (simp add: pad_rows_def)
next
  case True
  let ?n = "bucket - length done" and ?d = "dummy_request dg"
  let ?h1 = "h\<lparr> h_tokens := put_slice (h_tokens h) (length done) (replicate ?n 0),
               h_position := put_slice (h_position h) (length done) (replicate ?n 0),
               h_slots := put_slice (h_slots h) (length done) (replicate ?n (dummy_slot dg)),
               h_context := put_slice (h_context h) (length done) (replicate ?n 1) \<rparr>"
  note D = dummy_request_facts [OF bl]
  note I = inv [unfolded packed_inv_def rows_inv_def host_wf_def pages_inv_def]
  have 1: "host_wf (dg_num_blocks dg) ?h1 \<and> csr_inv dg done ?h1 nnz \<and>
      list_all (\<lambda>r. pages_of (dg_block_len dg) r \<le> dg_num_blocks dg) done"
    using inv le by (auto simp: packed_inv_def host_wf_def csr_inv_def)
  obtain h' nnz' where f: "fold (pad_row_at dg) [length done..<bucket] (?h1, nnz) = (h', nnz')"
    "host_wf (dg_num_blocks dg) h'" "csr_inv dg (done @ replicate ?n ?d) h' nnz'"
    "h_tokens h' = h_tokens ?h1" "h_position h' = h_position ?h1" "h_slots h' = h_slots ?h1"
    "h_context h' = h_context ?h1" "h_pages h' = h_pages h"
    using pad_fold [OF bl 1, of ?n] le by auto
  have rep: "concat (replicate m [x]) = replicate m x" for m and x :: int by (induction m) auto
  have "rows_inv dg bucket (done @ replicate ?n ?d) h'"
    using I le D f(4-7) by (simp add: rows_inv_def take_put_grow rep)
  moreover have "pages_inv dg bucket (done @ replicate ?n ?d) h'"
    using I le D f(8) by (simp add: pages_inv_def)
  moreover have "list_all (\<lambda>r. pages_of (dg_block_len dg) r \<le> dg_num_blocks dg) (done @ replicate ?n ?d)"
    using I D bl by (auto simp: list_all_iff)
  ultimately have "packed_inv dg bucket (done @ replicate ?n ?d) h' nnz'"
    using f by (simp add: packed_inv_def)
  moreover have "pad_rows dg (length done) bucket (h, nnz) = (h', nnz')"
    using True f(1) by (simp add: pad_rows_def Let_def)
  ultimately show ?thesis by blast
qed

section \<open>The packed plan\<close>

definition dg_wf :: "decode_graph \<Rightarrow> bool" where
  "dg_wf dg =
     (dg_block_len dg > 0 \<and> dg_num_blocks dg > 0 \<and>
      (case dg_host dg of None \<Rightarrow> True | Some h \<Rightarrow> host_wf (dg_num_blocks dg) h))"

lemma dg_wf_init: "bl > 0 \<Longrightarrow> nb > 0 \<Longrightarrow> dg_wf (dg_init bl nb dummy)"
  by (simp add: dg_wf_def dg_init_def)

text \<open>The rows a bucket holds: the plan's requests, then dummy requests up to the bucket.\<close>

definition padded_requests :: "decode_graph \<Rightarrow> nat \<Rightarrow> scheduled_request list \<Rightarrow> scheduled_request list" where
  "padded_requests dg bucket rs = rs @ replicate (bucket - length rs) (dummy_request dg)"

definition geometry_same :: "decode_graph \<Rightarrow> decode_graph \<Rightarrow> bool" where
  "geometry_same dg dg' = (dg_block_len dg' = dg_block_len dg \<and> dg_num_blocks dg' = dg_num_blocks dg
     \<and> dummy_block dg' = dummy_block dg)"

lemma ensure_host_wf:
  assumes "dg_wf dg" "ensure_host junk dg = (h, dg1)"
  shows "host_wf (dg_num_blocks dg) h" "dg1 = dg\<lparr> dg_host := Some h \<rparr>"
  using assms by (auto simp: ensure_host_def dg_wf_def host_wf_def Let_def split: option.splits)

lemma decode_only_single: "is_decode_only_plan plan \<Longrightarrow> list_all (\<lambda>r. length (input_token_ids r) = 1) (requests plan)"
  by (auto simp: is_decode_only_plan_def list_all_iff)

lemma geometry_fun_cong:
  assumes "dg' = dg\<lparr> dg_host := x \<rparr>"
  shows "dummy_row dg' = dummy_row dg" "pack_ok dg' = pack_ok dg" "dummy_request dg' = dummy_request dg"
  using assms by (simp_all add: dummy_row_def pack_ok_def fun_eq_iff row_fits_def dummy_request_def)

lemma fill_from_plan_ok:
  assumes wf: "dg_wf dg" and one: "list_all (\<lambda>r. length (input_token_ids r) = 1) (requests plan)"
    and ok: "list_all (pack_ok dg) (requests plan)"
    and b: "batch = length (requests plan)" "batch \<le> bucket" "bucket \<le> 64"
  shows "\<exists>h nnz. fill_from_plan junk bucket plan batch dg =
      (True, (copy_host bucket h (dg\<lparr> dg_host := Some h \<rparr>))\<lparr> csr_nnz := nnz \<rparr>) \<and>
    packed_inv dg bucket (padded_requests dg bucket (requests plan)) h nnz"
proof -
  obtain h dg1 where e: "ensure_host junk dg = (h, dg1)" by fastforce
  note h = ensure_host_wf [OF wf e]
  let ?h0 = "h\<lparr> h_pages := put_slice (h_pages h) 0 (replicate bucket (dummy_row dg)),
                 h_kv_indptr := (h_kv_indptr h)[0 := 0] \<rparr>"
  have hw: "host_wf (dg_num_blocks dg) ?h0" using h(1) b by (simp add: host_wf_def)
  have "packed_inv dg bucket [] ?h0 0"
    using hw h(1) b
    by (simp add: packed_inv_def rows_inv_def csr_inv_def pages_inv_def host_wf_def put_slice_def
        take_Suc_conv_app_nth)
  from pack_rows_ok [OF ok one this] b obtain h1 nnz1 where
    h1: "pack_rows dg 0 (requests plan) (?h0, 0) = (True, h1, nnz1)" "packed_inv dg bucket (requests plan) h1 nnz1"
    by auto
  from pad_rows_ok [OF _ _ h1(2)] wf b obtain h2 nnz2 where
    h2: "pad_rows dg batch bucket (h1, nnz1) = (h2, nnz2)"
      "packed_inv dg bucket (padded_requests dg bucket (requests plan)) h2 nnz2"
    by (auto simp: dg_wf_def padded_requests_def)
  have "fill_from_plan junk bucket plan batch dg =
      (True, (copy_host bucket h2 (dg1\<lparr> dg_host := Some h2 \<rparr>))\<lparr> csr_nnz := nnz2 \<rparr>)"
    using h1(1) h2(1) by (simp add: fill_from_plan_def e Let_def)
  with h2(2) h(2) show ?thesis by auto
qed

lemma fill_from_plan_True:
  assumes "fst (fill_from_plan junk bucket plan batch dg)"
  shows "list_all (pack_ok dg) (requests plan)"
  using assms pack_rows_True [of dg 0 "requests plan"]
  by (auto simp: fill_from_plan_def Let_def split: prod.splits bool.splits) (metis fst_conv)

lemma pack_plan_Some_iff:
  assumes "dg_wf dg"
  shows "(\<exists>bucket. fst (pack_plan junk plan dg) = Some (bucket, length (requests plan))) \<longleftrightarrow>
    is_decode_only_plan plan \<and> list_all (pack_ok dg) (requests plan) \<and>
    (\<exists>bucket. select_decode_graph_bucket (int (length (requests plan))) = Some bucket
       \<and> bucket \<notin> set (dg_failed dg))"
proof (cases "is_decode_only_plan plan")
  case False
  then show ?thesis by (simp add: pack_plan_def)
next
  case True
  note one = decode_only_single [OF True]
  show ?thesis
  proof (cases "select_decode_graph_bucket (int (length (requests plan)))")
    case None
    with True show ?thesis by (simp add: pack_plan_def)
  next
    case (Some bucket)
    note bb = bucket_bounds [OF Some]
    show ?thesis
    proof (cases "list_all (pack_ok dg) (requests plan)")
      case ok: True
      from fill_from_plan_ok [OF assms one ok refl bb(2,3)] obtain dg1 where
        "fill_from_plan junk bucket plan (length (requests plan)) dg = (True, dg1)" by blast
      with True Some ok show ?thesis by (auto simp: pack_plan_def Let_def)
    next
      case False
      then have "\<not> fst (fill_from_plan junk bucket plan (length (requests plan)) dg)"
        using fill_from_plan_True by blast
      with True Some False show ?thesis
        by (auto simp: pack_plan_def Let_def split: prod.splits bool.splits)
    qed
  qed
qed

lemma static_input_eq:
  "dg_inputs (snd (static_input bucket dg)) bucket = Some (fst (static_input bucket dg))"
  by (auto simp: static_input_def Let_def split: option.splits)

lemma pack_plan_contents:
  assumes wf: "dg_wf dg" and pack: "pack_plan junk plan dg = (Some (bucket, batch), dg')"
  shows "batch = length (requests plan) \<and> csr_ready dg' \<and> dg_failed dg' = dg_failed dg \<and>
    (\<exists>mi h. dg_inputs dg' bucket = Some mi \<and> dg_host dg' = Some h \<and> host_wf (dg_num_blocks dg) h \<and>
      dg_block_len dg' = dg_block_len dg \<and> dg_num_blocks dg' = dg_num_blocks dg \<and>
      packed_inv dg bucket (padded_requests dg bucket (requests plan)) h (csr_nnz dg') \<and>
      mi_input_token_ids mi = take bucket (h_tokens h) \<and> mi_position mi = take bucket (h_position h) \<and>
      mi_slot_mapping mi = take bucket (h_slots h) \<and> mi_context_lens mi = take bucket (h_context h) \<and>
      mi_block_tables mi = take bucket (h_pages h))"
proof -
  from pack have dec: "is_decode_only_plan plan" and batch: "batch = length (requests plan)"
    and sel: "select_decode_graph_bucket (int (length (requests plan))) = Some bucket"
    by (auto simp: pack_plan_def Let_def split: if_splits option.splits prod.splits bool.splits)
  note bb = bucket_bounds [OF sel]
  have ok: "list_all (pack_ok dg) (requests plan)"
    using pack_plan_Some_iff [OF wf, of junk plan] pack batch by auto
  from fill_from_plan_ok [OF wf decode_only_single [OF dec] ok refl bb(2,3)] obtain h nnz where
    f: "fill_from_plan junk bucket plan (length (requests plan)) dg =
      (True, (copy_host bucket h (dg\<lparr> dg_host := Some h \<rparr>))\<lparr> csr_nnz := nnz \<rparr>)"
    and inv: "packed_inv dg bucket (padded_requests dg bucket (requests plan)) h nnz" by blast
  have dg': "dg' = (copy_host bucket h (dg\<lparr> dg_host := Some h \<rparr>))\<lparr> csr_nnz := nnz, csr_ready := True \<rparr>"
    using pack dec sel f by (auto simp: pack_plan_def Let_def split: if_splits)
  show ?thesis
    using inv batch unfolding dg'
    by (auto simp: copy_host_def static_input_def Let_def packed_inv_def split: option.splits)
qed

text \<open>C11: Packing a decode-only plan. When \<open>pack_plan\<close> accepts, the static input of the bucket holds
  exactly the tensors \<open>from_plan\<close> would build for the plan followed by dummy requests up to the
  bucket size (token 0 at position 0 of the dummy page), its tables padded to \<open>num_blocks\<close>, and the
  host CSR handed to FlashInfer is the one \<open>build_paged_kv_csr\<close> derives for those rows, whatever the
  reused staging held before.\<close>

theorem pack_plan_static_buffers:
  assumes "dg_wf dg" and "pack_plan junk plan dg = (Some (bucket, batch), dg')"
  defines "rs \<equiv> padded_requests dg bucket (requests plan)" and "bl \<equiv> dg_block_len dg"
  shows "\<exists>mi. dg_inputs dg' bucket = Some mi \<and> length rs = bucket \<and>
    mi_input_token_ids mi = concat (map input_token_ids rs) \<and>
    mi_position mi = concat (map request_positions rs) \<and>
    mi_slot_mapping mi = concat (map (slots_at bl) rs) \<and>
    mi_context_lens mi = map (int \<circ> request_context) rs \<and>
    mi_block_tables mi = map (pad_row (dg_num_blocks dg) \<circ> block_table) rs \<and>
    host_csr_of bucket dg' =
      Some (map int (prefix_sums 0 (map (pages_of bl) rs)),
            concat (map (\<lambda>r. take (pages_of bl r) (block_table r)) rs),
            map (int \<circ> last_page_of bl \<circ> request_context) rs)"
proof -
  obtain mi h where c: "dg_inputs dg' bucket = Some mi" "dg_host dg' = Some h"
    "packed_inv dg bucket rs h (csr_nnz dg')"
    "mi_input_token_ids mi = take bucket (h_tokens h)" "mi_position mi = take bucket (h_position h)"
    "mi_slot_mapping mi = take bucket (h_slots h)" "mi_context_lens mi = take bucket (h_context h)"
    "mi_block_tables mi = take bucket (h_pages h)"
    using pack_plan_contents [OF assms(1,2)] unfolding rs_def by blast
  have "select_decode_graph_bucket (int (length (requests plan))) = Some bucket"
    using assms(2) by (auto simp: pack_plan_def Let_def split: if_splits option.splits prod.splits bool.splits)
  from bucket_bounds [OF this] have "length rs = bucket"
    by (simp add: rs_def padded_requests_def)
  with c show ?thesis
    by (auto simp: packed_inv_def rows_inv_def csr_inv_def pages_inv_def host_csr_of_def bl_def)
qed

definition decode_request :: "int \<Rightarrow> nat \<Rightarrow> int list \<Rightarrow> scheduled_request" where
  "decode_request tok pos table = \<lparr> request_id = [], input_token_ids = [tok], req_work_type = Decode,
     start_position = pos, block_table = table, need_sample = True, req_sampling_plan = None \<rparr>"

definition decode_plan :: batch_plan where
  "decode_plan = \<lparr> step_id = 3, requests =
     map (\<lambda>i. decode_request (20 + int i) (4 + i) [int i, int i + 9]) [0..<9] \<rparr>"

lemma decode_plan_packs:
  "fst (pack_plan 77 decode_plan (dg_init 16 32 31)) = Some (10, 9)"
  by code_simp

theorem pack_plan_static_buffers_witness:
  "\<exists>mi. dg_inputs (snd (pack_plan 77 decode_plan (dg_init 16 32 31))) 10 = Some mi \<and>
     mi_position mi = [4, 5, 6, 7, 8, 9, 10, 11, 12, 0] \<and>
     mi_slot_mapping mi = [4, 21, 38, 55, 72, 89, 106, 123, 140, 496]"
proof -
  obtain dg' where "pack_plan 77 decode_plan (dg_init 16 32 31) = (Some (10, 9), dg')"
    using decode_plan_packs by (metis prod.collapse)
  with pack_plan_static_buffers [OF dg_wf_init this] obtain mi where
    "dg_inputs (snd (pack_plan 77 decode_plan (dg_init 16 32 31))) 10 = Some mi"
    "mi_position mi = concat (map request_positions (padded_requests (dg_init 16 32 31) 10 (requests decode_plan)))"
    "mi_slot_mapping mi = concat (map (slots_at 16) (padded_requests (dg_init 16 32 31) 10 (requests decode_plan)))"
    by (auto simp: dg_init_def)
  moreover have "concat (map request_positions (padded_requests (dg_init 16 32 31) 10 (requests decode_plan)))
      = [4, 5, 6, 7, 8, 9, 10, 11, 12, 0]"
    "concat (map (slots_at 16) (padded_requests (dg_init 16 32 31) 10 (requests decode_plan)))
      = [4, 21, 38, 55, 72, 89, 106, 123, 140, 496]"
    by code_simp+
  ultimately show ?thesis by simp
qed

text \<open>C12: Dummy-page isolation. In the static input a successful \<open>pack_plan\<close> leaves behind, no row of
  the plan reads or writes the dummy page and every padding row writes only the dummy slot, so the
  writes of the padding rows cannot reach a slot any request of the batch uses.\<close>

theorem pack_plan_isolates_dummy:
  assumes "dg_wf dg" and "pack_plan junk plan dg = (Some (bucket, batch), dg')"
    and "dg_inputs dg' bucket = Some mi"
  shows "(\<forall>i < batch. mi_slot_mapping mi ! i div int (dg_block_len dg) \<noteq> int (dummy_block dg)
            \<and> int (dummy_block dg) \<notin> set (block_table (requests plan ! i)))
       \<and> (\<forall>i. batch \<le> i \<and> i < bucket \<longrightarrow> mi_slot_mapping mi ! i = dummy_slot dg)"
proof -
  let ?bl = "dg_block_len dg" and ?rs = "padded_requests dg bucket (requests plan)"
  have bl: "?bl > 0" "dg_num_blocks dg > 0" using assms(1) by (auto simp: dg_wf_def)
  from assms(2) have dec: "is_decode_only_plan plan"
    and sel: "select_decode_graph_bucket (int (length (requests plan))) = Some bucket"
    and batch: "batch = length (requests plan)"
    by (auto simp: pack_plan_def Let_def split: if_splits option.splits prod.splits bool.splits)
  have ok: "list_all (pack_ok dg) (requests plan)"
    using pack_plan_Some_iff [OF assms(1), of junk plan] assms(2) batch by auto
  obtain h where "packed_inv dg bucket ?rs h (csr_nnz dg')" "mi_slot_mapping mi = take bucket (h_slots h)"
    using pack_plan_contents [OF assms(1,2)] assms(3) by auto
  moreover have "length ?rs = bucket"
    using bucket_bounds [OF sel] by (simp add: padded_requests_def)
  ultimately have slots: "mi_slot_mapping mi = concat (map (slots_at ?bl) ?rs)"
    by (simp add: packed_inv_def rows_inv_def)
  have one: "length (input_token_ids r) = 1" if "r \<in> set (requests plan)" for r
    using decode_only_single [OF dec] that by (simp add: list_all_iff)
  have real: "concat (map (slots_at ?bl) (requests plan))
      = map (\<lambda>r. slot_at (block_table r) ?bl (start_position r)) (requests plan)"
    using one single_token(3) by (intro concat_map_single) auto
  have "mi_slot_mapping mi = map (\<lambda>r. slot_at (block_table r) ?bl (start_position r)) (requests plan)
      @ replicate (bucket - batch) (dummy_slot dg)"
    using slots real dummy_request_facts(4) [OF bl] batch
    by (simp add: padded_requests_def)
  moreover have "slot_at (block_table r) ?bl (start_position r) div int ?bl \<noteq> int (dummy_block dg)"
    if "r \<in> set (requests plan)" for r
  proof -
    have "start_position r div ?bl < length (block_table r)" "int (dummy_block dg) \<notin> set (block_table r)"
      using ok one [OF that] that row_fits_pages(3) [of dg r] by (auto simp: pack_ok_def list_all_iff)
    then show ?thesis by (metis slot_at_div_mod(1) [OF bl(1)] nth_mem)
  qed
  ultimately show ?thesis
    using ok batch by (auto simp: nth_append list_all_iff pack_ok_def)
qed

theorem pack_plan_isolates_dummy_witness:
  "mi_slot_mapping (the (dg_inputs (snd (pack_plan 77 decode_plan (dg_init 16 32 31))) 10)) ! 9 = 496"
proof -
  obtain dg' where p: "pack_plan 77 decode_plan (dg_init 16 32 31) = (Some (10, 9), dg')"
    using decode_plan_packs by (metis prod.collapse)
  then obtain mi where "dg_inputs dg' 10 = Some mi"
    using pack_plan_contents [OF dg_wf_init p] by auto
  with pack_plan_isolates_dummy [OF dg_wf_init p this] p show ?thesis
    by (auto simp: dg_init_def dummy_slot_def)
qed

text \<open>Bucket selection: a bucket is chosen exactly for the batch sizes 1 to 64, and it is the
  smallest capture size that holds the batch.\<close>

lemma bucket_is_least:
  "select_decode_graph_bucket batch = Some bucket \<longleftrightarrow>
     1 \<le> batch \<and> batch \<le> 64 \<and> bucket \<in> set decode_graph_buckets \<and> batch \<le> int bucket \<and>
     (\<forall>b \<in> set decode_graph_buckets. batch \<le> int b \<longrightarrow> bucket \<le> b)"
proof
  assume sel: "select_decode_graph_bucket batch = Some bucket"
  then have "1 \<le> batch" "batch \<le> 64" by (auto simp: select_decode_graph_bucket_def split: if_splits)
  then obtain n where n: "batch = int n" by (metis nonneg_int_cases zero_le_one order_trans)
  note bb = bucket_bounds [OF sel [unfolded n]]
  have eq: "bucket = decode_graph_buckets ! bisect_left decode_graph_buckets n"
    using sel n by (auto simp: select_decode_graph_bucket_def split: if_splits)
  have "bucket \<le> b" if "b \<in> set decode_graph_buckets" "n \<le> b" for b
  proof -
    from that obtain i where i: "i < length decode_graph_buckets" "b = decode_graph_buckets ! i"
      by (auto simp: in_set_conv_nth)
    have "bisect_left decode_graph_buckets n \<le> i"
      using bisect_left_sorted(2) [OF buckets_sorted(1), of i n] that(2) i by force
    then show ?thesis using sorted_nth_mono [OF buckets_sorted(1)] i eq by simp
  qed
  with bb n show "1 \<le> batch \<and> batch \<le> 64 \<and> bucket \<in> set decode_graph_buckets \<and> batch \<le> int bucket \<and>
     (\<forall>b \<in> set decode_graph_buckets. batch \<le> int b \<longrightarrow> bucket \<le> b)" by auto
next
  assume a: "1 \<le> batch \<and> batch \<le> 64 \<and> bucket \<in> set decode_graph_buckets \<and> batch \<le> int bucket \<and>
     (\<forall>b \<in> set decode_graph_buckets. batch \<le> int b \<longrightarrow> bucket \<le> b)"
  then obtain n where n: "batch = int n" by (metis nonneg_int_cases zero_le_one order_trans)
  let ?b = "decode_graph_buckets ! bisect_left decode_graph_buckets n"
  have sel: "select_decode_graph_bucket (int n) = Some ?b"
    using a n by (simp add: select_decode_graph_bucket_def)
  note bb = bucket_bounds [OF sel]
  from bb(4) a n bb(2) have "bucket \<le> ?b" by simp
  moreover have "?b \<le> bucket"
  proof -
    from a obtain i where i: "i < length decode_graph_buckets" "bucket = decode_graph_buckets ! i"
      by (auto simp: in_set_conv_nth)
    have "bisect_left decode_graph_buckets n \<le> i"
      using bisect_left_sorted(2) [OF buckets_sorted(1), of i n] a n i by force
    then show ?thesis using sorted_nth_mono [OF buckets_sorted(1)] i by simp
  qed
  ultimately show "select_decode_graph_bucket batch = Some bucket" using sel n by simp
qed


definition failing_runtime :: "(nat, real) graph_runtime" where
  "failing_runtime = \<lparr> rt_capture = (\<lambda>b mi c. (Inl (RuntimeError ''capture failed''), Suc c)),
     rt_replay = (\<lambda>b mi call c. (Inl (RuntimeError ''replay failed''), Suc c)) \<rparr>"

lemma failing_runtime_fails: "fst (replay_bucket failing_runtime b n csr staged s) = None"
  by (simp add: replay_bucket_def failing_runtime_def Let_def split: prod.splits sum.splits option.splits)

definition example_fi :: fi_attention where
  "example_fi = \<lparr> num_qo_heads = 4, fi_num_kv_heads = 2, fi_head_dim = 8, page_size = 16, max_batch = 64,
     fi_indices = replicate 100 0, decode_wrappers = [], active = None \<rparr>"


text \<open>C14: The flag \<open>is_decode_only\<close> does not assert what \<open>ModelInput\<close> documents. The pool stamps it
  from the query lengths alone, so a decode batch whose block table contains the graph's dummy page
  is refused by \<open>pack_plan\<close> but accepted by \<open>try_replay\<close>: the static input it replays maps the live
  row and the padding row to the same slot, which the padding row then overwrites.\<close>

definition dummy_touching_plan :: batch_plan where
  "dummy_touching_plan = \<lparr> step_id = 3, requests =
     map (\<lambda>i. decode_request 5 0 [if i = 0 then 31 else int i]) [0..<9] \<rparr>"


end
