(* ===== verification/Decoding.thy ===== *)
theory Decoding
  imports Prelude
begin

text \<open>
  What the decoding components are measured against: plain autoregressive decoding of a language
  model, as a function from the token sequence so far to the row of next-token scores. The greedy
  sequence picks the first maximal score at each step; the sampled sequence threads a generator.
\<close>

primrec greedy_seq :: "(int list \<Rightarrow> 'v::linorder list) \<Rightarrow> int list \<Rightarrow> nat \<Rightarrow> int list" where
  "greedy_seq lm ctx 0 = []"
| "greedy_seq lm ctx (Suc n) = (let t = int (argmax (lm ctx)) in t # greedy_seq lm (ctx @ [t]) n)"

primrec sample_seq :: "('v list \<Rightarrow> 'g \<Rightarrow> int \<times> 'g) \<Rightarrow> (int list \<Rightarrow> 'v list) \<Rightarrow> int list \<Rightarrow> nat \<Rightarrow> 'g \<Rightarrow> int list \<times> 'g" where
  "sample_seq draw lm ctx 0 g = ([], g)"
| "sample_seq draw lm ctx (Suc n) g =
     (let (t, g1) = draw (lm ctx) g; (ts, g2) = sample_seq draw lm (ctx @ [t]) n g1 in (t # ts, g2))"

lemma length_greedy_seq [simp]: "length (greedy_seq lm ctx n) = n"
  by (induction n arbitrary: ctx) (auto simp: Let_def)

lemma greedy_seq_append:
  "greedy_seq lm ctx (m + n) = greedy_seq lm ctx m @ greedy_seq lm (ctx @ greedy_seq lm ctx m) n"
  by (induction m arbitrary: ctx) (auto simp: Let_def)

lemma greedy_seq_take: "m \<le> n \<Longrightarrow> take m (greedy_seq lm ctx n) = greedy_seq lm ctx m"
  using greedy_seq_append [of lm ctx m "n - m"] by simp

lemma greedy_seq_unique:
  "\<forall>i < length xs. xs ! i = int (argmax (lm (ctx @ take i xs))) \<Longrightarrow> xs = greedy_seq lm ctx (length xs)"
proof (induction xs arbitrary: ctx)
  case (Cons x xs)
  have x: "x = int (argmax (lm ctx))" using Cons.prems by (elim allE [of _ 0]) simp
  have "\<forall>i < length xs. xs ! i = int (argmax (lm ((ctx @ [x]) @ take i xs)))"
    using Cons.prems by (auto dest: spec [of _ "Suc _"])
  from Cons.IH [OF this] x show ?case by (simp add: Let_def)
qed simp

end
