(* ===== verification/SpecTree.thy ===== *)
theory SpecTree
  imports Storage Decoding
begin

text \<open>
  Token trees of the speculative decoder (\<open>executors/torch/spec_tree.py\<close>, up to the engine): the flat
  tree \<open>TreeSpec\<close>, the visibility masks in the reference and in the bit-parallel form, the packing for
  FlashInfer, the greedy and the sampling walk, and the copy that commits the accepted path.
\<close>

section \<open>\<open>TreeSpec\<close>\<close>

text \<open>Node masks are Python integers: \<open>int\<close>, with bit 0 the pending token and bit \<open>j + 1\<close> node \<open>j\<close>.\<close>

record tree_spec =
  num_history :: nat
  parents :: "int list"
  tokens :: "int list"
  depths :: "nat list"
  node_log_confs :: "real list"
  node_masks :: "int list"

definition tree_empty :: "nat \<Rightarrow> tree_spec" where
  "tree_empty h = \<lparr> num_history = h, parents = [], tokens = [], depths = [], node_log_confs = [], node_masks = [] \<rparr>"

definition tree_append :: "nat option \<Rightarrow> int \<Rightarrow> real \<Rightarrow> tree_spec \<Rightarrow> (nat \<times> tree_spec) outcome" where
  "tree_append parent token conf s =
     (let j = length (tokens s) in
      obind (case parent of None \<Rightarrow> Inr 1 | Some p \<Rightarrow> obind (onth (depths s) p) (\<lambda>d. Inr (d + 1))) (\<lambda>depth.
      obind (case parent of
               None \<Rightarrow> Inr (1 OR push_bit (j + 1) 1)
             | Some p \<Rightarrow> obind (onth (node_masks s) p) (\<lambda>m. Inr (m OR push_bit (j + 1) 1))) (\<lambda>m.
        Inr (j, s\<lparr> parents := parents s @ [case parent of None \<Rightarrow> - 1 | Some p \<Rightarrow> int p],
                   tokens := tokens s @ [token], depths := depths s @ [depth],
                   node_log_confs := node_log_confs s @ [conf],
                   node_masks := node_masks s @ [m] \<rparr>))))"

definition children :: "tree_spec \<Rightarrow> nat option \<Rightarrow> nat list" where
  "children s u =
     filter (\<lambda>i. parents s ! i = (case u of None \<Rightarrow> - 1 | Some j \<Rightarrow> int j)) [0..<length (parents s)]"

text \<open>The \<open>while\<close> loop of \<open>ancestors\<close>; \<open>None\<close> is a loop that does not end.\<close>

partial_function (option) ancestors_loop :: "int list \<Rightarrow> int \<Rightarrow> int list \<Rightarrow> int list outcome option" where
  "ancestors_loop ps p chain =
     (if p = - 1 then Some (Inr (rev chain))
      else case py_nth ps p of
             Inl err \<Rightarrow> Some (Inl err)
           | Inr q \<Rightarrow> ancestors_loop ps q (chain @ [p]))"

definition ancestors :: "tree_spec \<Rightarrow> nat \<Rightarrow> int list outcome option" where
  "ancestors s j =
     (case onth (parents s) j of
        Inl err \<Rightarrow> Some (Inl err)
      | Inr p \<Rightarrow> ancestors_loop (parents s) p [])"

definition logical_pos :: "tree_spec \<Rightarrow> nat \<Rightarrow> nat" where
  "logical_pos s j = num_history s + 1 + j"

definition rope_pos :: "tree_spec \<Rightarrow> nat \<Rightarrow> nat outcome" where
  "rope_pos s j = obind (onth (depths s) j) (\<lambda>d. Inr (num_history s + d))"

definition total_q :: "tree_spec \<Rightarrow> nat" where
  "total_q s = 1 + length (tokens s)"

definition total_kv :: "tree_spec \<Rightarrow> nat" where
  "total_kv s = num_history s + total_q s"

section \<open>Masks\<close>

type_synonym mask = "bool list list"

text \<open>The reference builder: a zero matrix whose rows are set column by column.\<close>

definition set_cols :: "nat list \<Rightarrow> bool list \<Rightarrow> bool list" where
  "set_cols cols row = fold (\<lambda>c r. r[c := True]) cols row"

definition history_row :: "tree_spec \<Rightarrow> bool list" where
  "history_row s = set_cols [0..<num_history s] (replicate (total_kv s) False)"

definition reference_row :: "tree_spec \<Rightarrow> nat \<Rightarrow> bool list outcome option" where
  "reference_row s j =
     (case ancestors s j of
        None \<Rightarrow> None
      | Some (Inl err) \<Rightarrow> Some (Inl err)
      | Some (Inr anc) \<Rightarrow>
          Some (Inr (set_cols (num_history s # map (\<lambda>a. num_history s + 1 + nat a) anc @ [num_history s + 1 + j])
                       (history_row s))))"

fun opt_omap :: "('a \<Rightarrow> 'b outcome option) \<Rightarrow> 'a list \<Rightarrow> 'b list outcome option" where
  "opt_omap f [] = Some (Inr [])"
| "opt_omap f (x # xs) =
     (case f x of
        None \<Rightarrow> None
      | Some (Inl err) \<Rightarrow> Some (Inl err)
      | Some (Inr y) \<Rightarrow>
          (case opt_omap f xs of
             None \<Rightarrow> None
           | Some (Inl err) \<Rightarrow> Some (Inl err)
           | Some (Inr ys) \<Rightarrow> Some (Inr (y # ys))))"

definition build_tree_mask_reference :: "tree_spec \<Rightarrow> mask outcome option" where
  "build_tree_mask_reference s =
     (case opt_omap (reference_row s) [0..<length (tokens s)] of
        None \<Rightarrow> None
      | Some (Inl err) \<Rightarrow> Some (Inl err)
      | Some (Inr rows) \<Rightarrow> Some (Inr (set_cols [num_history s] (history_row s) # rows)))"

text \<open>
  \<open>torch.tensor(masks, dtype=torch.int64)\<close> raises for a Python integer outside int64; \<open>>>\<close> on int64
  is the arithmetic shift.
\<close>

definition to_int64 :: "int \<Rightarrow> 64 word outcome" where
  "to_int64 n = require (- (2 ^ 63) \<le> n \<and> n < 2 ^ 63) (RuntimeError ''Overflow when unpacking long'') (Inr (word_of_int n))"

definition unpack_row :: "nat \<Rightarrow> 64 word \<Rightarrow> bool list" where
  "unpack_row t w = map (\<lambda>c. signed_drop_bit c w AND 1 \<noteq> 0) [1..<t + 1]"

definition build_tree_mask :: "tree_spec \<Rightarrow> mask outcome" where
  "build_tree_mask s =
     (let t = length (tokens s); h = num_history s
      in obind (omap to_int64 (node_masks s)) (\<lambda>bits.
           Inr ((replicate h True @ [True] @ replicate t False)
                # map (\<lambda>w. replicate h True @ [True] @ unpack_row t w) bits)))"

definition build_level_mask :: "tree_spec \<Rightarrow> nat list \<Rightarrow> mask outcome" where
  "build_level_mask s level =
     (let t = length (tokens s); h = num_history s
      in obind (omap (\<lambda>j. obind (onth (node_masks s) j) to_int64) level) (\<lambda>bits.
           Inr (map (\<lambda>w. replicate (h + 1) True @ unpack_row t w) bits)))"

text \<open>\<open>np.packbits(flat, bitorder="little")\<close>: eight entries per byte, the last byte zero-padded.\<close>

definition byte_of_bits :: "bool list \<Rightarrow> 8 word" where
  "byte_of_bits bs = horner_sum of_bool 2 bs"

function pack_bytes :: "bool list \<Rightarrow> 8 word list" where
  "pack_bytes bs = (if bs = [] then [] else byte_of_bits (take 8 bs) # pack_bytes (drop 8 bs))"
  by pat_completeness auto
termination by (relation "measure length") auto

declare pack_bytes.simps [simp del]

definition pack_mask_flashinfer :: "mask \<Rightarrow> 8 word list" where
  "pack_mask_flashinfer m = pack_bytes (concat m)"

section \<open>Walks\<close>

text \<open>\<open>next((c for c in siblings if tokens[c] == predicted), None)\<close>\<close>

definition match_child :: "tree_spec \<Rightarrow> nat list \<Rightarrow> int \<Rightarrow> nat option" where
  "match_child s cs t = find (\<lambda>c. tokens s ! c = t) cs"

partial_function (option) greedy_loop ::
    "'v::linorder list list \<Rightarrow> tree_spec \<Rightarrow> 'v list \<Rightarrow> nat list \<Rightarrow> nat list \<Rightarrow> int list
       \<Rightarrow> (nat list \<times> int list) outcome option" where
  "greedy_loop logits s row siblings path committed =
     (case torch_argmax row of
        Inl err \<Rightarrow> Some (Inl err)
      | Inr predicted \<Rightarrow>
          (case match_child s siblings predicted of
             None \<Rightarrow> Some (Inr (path, committed @ [predicted]))
           | Some m \<Rightarrow>
               (let path' = path @ [m]; committed' = committed @ [tokens s ! m]; kids = children s (Some m)
                in case onth logits (1 + m) of
                     Inl err \<Rightarrow> Some (Inl err)
                   | Inr row' \<Rightarrow>
                       (if kids = []
                        then (case torch_argmax row' of
                                Inl err \<Rightarrow> Some (Inl err)
                              | Inr bonus \<Rightarrow> Some (Inr (path', committed' @ [bonus])))
                        else greedy_loop logits s row' kids path' committed'))))"

definition find_greedy_path :: "'v::linorder list list \<Rightarrow> tree_spec \<Rightarrow> (nat list \<times> int list) outcome option" where
  "find_greedy_path logits s =
     (case onth logits 0 of
        Inl err \<Rightarrow> Some (Inl err)
      | Inr row \<Rightarrow> greedy_loop logits s row (children s None) [] [])"

text \<open>
  The sampling walk. \<open>draw row g\<close> stands for \<open>int(torch.multinomial(torch.softmax(row), 1, generator=g))\<close>:
  a token and the advanced generator state.
\<close>

partial_function (option) sampling_loop ::
    "('v list \<Rightarrow> 'g \<Rightarrow> int \<times> 'g) \<Rightarrow> 'v list list \<Rightarrow> tree_spec \<Rightarrow> nat option \<Rightarrow> nat list \<Rightarrow> int list \<Rightarrow> 'g
       \<Rightarrow> ((nat list \<times> int list) outcome \<times> 'g) option" where
  "sampling_loop draw logits s u path committed g =
     (case onth logits (case u of None \<Rightarrow> 0 | Some j \<Rightarrow> j + 1) of
        Inl err \<Rightarrow> Some (Inl err, g)
      | Inr row \<Rightarrow>
          (let t = fst (draw row g); g' = snd (draw row g)
           in case match_child s (children s u) t of
                None \<Rightarrow> Some (Inr (path, committed @ [t]), g')
              | Some m \<Rightarrow> sampling_loop draw logits s (Some m) (path @ [m]) (committed @ [t]) g'))"

definition tree_verify_sampling ::
    "('v list \<Rightarrow> 'g \<Rightarrow> int \<times> 'g) \<Rightarrow> 'v list list \<Rightarrow> tree_spec \<Rightarrow> 'g
       \<Rightarrow> ((nat list \<times> int list) outcome \<times> 'g) option" where
  "tree_verify_sampling draw logits s g = sampling_loop draw logits s None [] [] g"

section \<open>Commit\<close>

text \<open>
  \<open>flat[dst] = flat[src]\<close>: the right side is gathered first, then scattered. A slot outside the cache
  raises; both index lists are non-negative.
\<close>

definition gather_scatter :: "nat list \<Rightarrow> nat list \<Rightarrow> 'x list \<Rightarrow> 'x list outcome" where
  "gather_scatter src dst flat =
     obind (omap (onth flat) src) (\<lambda>vals.
       require (\<forall>d \<in> set dst. d < length flat) IndexError
         (Inr (fold (\<lambda>(d, v) xs. xs[d := v]) (zip dst vals) flat)))"

definition gather_commit_kv :: "'x kv_storage \<Rightarrow> nat list \<Rightarrow> nat list \<Rightarrow> 'x kv_storage outcome" where
  "gather_commit_kv st src dst =
     (if src = [] then Inr st
      else obind (omap (gather_scatter src dst) (K_cache st)) (\<lambda>ks.
           obind (omap (gather_scatter src dst) (V_cache st)) (\<lambda>vs.
             Inr (st\<lparr> K_cache := ks, V_cache := vs \<rparr>))))"

section \<open>Well-formed trees\<close>

definition node_ok :: "tree_spec \<Rightarrow> nat \<Rightarrow> bool" where
  "node_ok s j =
     (parents s ! j = - 1 \<and> depths s ! j = 1 \<and> node_masks s ! j = 1 OR push_bit (j + 1) 1 \<or>
      (\<exists>p < j. parents s ! j = int p \<and> depths s ! j = depths s ! p + 1 \<and>
               node_masks s ! j = node_masks s ! p OR push_bit (j + 1) 1))"

definition tree_wf :: "tree_spec \<Rightarrow> bool" where
  "tree_wf s =
     (length (parents s) = length (tokens s) \<and> length (depths s) = length (tokens s) \<and>
      length (node_log_confs s) = length (tokens s) \<and> length (node_masks s) = length (tokens s) \<and>
      (\<forall>j < length (tokens s). node_ok s j))"

lemma tree_wf_empty [simp]: "tree_wf (tree_empty h)"
  by (simp add: tree_wf_def tree_empty_def)

lemma node_ok_cong:
  assumes "\<And>i. i \<le> j \<Longrightarrow> parents s' ! i = parents s ! i \<and> depths s' ! i = depths s ! i \<and> node_masks s' ! i = node_masks s ! i"
  shows "node_ok s' j = node_ok s j"
proof -
  have "(\<exists>p < j. parents s' ! j = int p \<and> depths s' ! j = depths s' ! p + 1 \<and>
               node_masks s' ! j = node_masks s' ! p OR push_bit (j + 1) 1) =
    (\<exists>p < j. parents s ! j = int p \<and> depths s ! j = depths s ! p + 1 \<and>
               node_masks s ! j = node_masks s ! p OR push_bit (j + 1) 1)"
    using assms by (intro ex_cong1) auto
  with assms [of j] show ?thesis by (simp add: node_ok_def)
qed

lemma tree_wf_append:
  assumes "tree_wf s" "\<forall>p. parent = Some p \<longrightarrow> p < length (tokens s)"
  shows "\<exists>s'. tree_append parent t c s = Inr (length (tokens s), s') \<and> tree_wf s' \<and>
    num_history s' = num_history s \<and> tokens s' = tokens s @ [t] \<and>
    parents s' = parents s @ [case parent of None \<Rightarrow> - 1 | Some p \<Rightarrow> int p] \<and>
    node_log_confs s' = node_log_confs s @ [c]"
proof -
  let ?n = "length (tokens s)"
  have old: "node_ok s' j" if "j < ?n" "parents s' = parents s @ x" "depths s' = depths s @ y"
    "node_masks s' = node_masks s @ z" for s' :: tree_spec and x y z j
  proof -
    have "node_ok s' j = node_ok s j"
      by (rule node_ok_cong) (use assms(1) that in \<open>simp add: tree_wf_def nth_append\<close>)
    with assms(1) that(1) show ?thesis by (simp add: tree_wf_def)
  qed
  show ?thesis
  proof (cases parent)
    case None
    let ?s' = "s\<lparr> parents := parents s @ [- 1], tokens := tokens s @ [t], depths := depths s @ [1],
                  node_log_confs := node_log_confs s @ [c], node_masks := node_masks s @ [1 OR push_bit (?n + 1) 1] \<rparr>"
    have "node_ok ?s' ?n" using assms(1) by (simp add: node_ok_def tree_wf_def nth_append)
    then have "tree_wf ?s'" using assms(1) old [of _ ?s'] by (auto simp: tree_wf_def less_Suc_eq)
    with None show ?thesis by (intro exI [of _ ?s']) (simp add: tree_append_def Let_def)
  next
    case (Some p)
    with assms(2) have p: "p < ?n" by simp
    let ?s' = "s\<lparr> parents := parents s @ [int p], tokens := tokens s @ [t], depths := depths s @ [depths s ! p + 1],
                  node_log_confs := node_log_confs s @ [c],
                  node_masks := node_masks s @ [node_masks s ! p OR push_bit (?n + 1) 1] \<rparr>"
    have "node_ok ?s' ?n" using assms(1) p by (auto simp: node_ok_def tree_wf_def nth_append)
    then have "tree_wf ?s'" using assms(1) old [of _ ?s'] by (auto simp: tree_wf_def less_Suc_eq)
    with Some p assms(1) show ?thesis
      by (intro exI [of _ ?s']) (simp add: tree_append_def tree_wf_def Let_def)
  qed
qed

text \<open>The nodes from the root of the tree down to node \<open>j\<close>, itself included.\<close>

function node_path :: "tree_spec \<Rightarrow> nat \<Rightarrow> nat list" where
  "node_path s j =
     (let p = parents s ! j
      in if 0 \<le> p \<and> nat p < j then node_path s (nat p) @ [j] else [j])"
  by pat_completeness auto
termination by (relation "measure (\<lambda>(s, j). j)") auto

declare node_path.simps [simp del]

lemma node_path_root: "parents s ! j = - 1 \<Longrightarrow> node_path s j = [j]"
  by (subst node_path.simps) simp

lemma node_path_child: "parents s ! j = int p \<Longrightarrow> p < j \<Longrightarrow> node_path s j = node_path s p @ [j]"
  by (subst node_path.simps) simp

lemma node_cases:
  assumes "tree_wf s" "j < length (tokens s)"
  obtains (root) "parents s ! j = - 1" "depths s ! j = 1" "node_masks s ! j = 1 OR push_bit (j + 1) 1"
    "node_path s j = [j]"
  | (child) p where "p < j" "parents s ! j = int p" "depths s ! j = depths s ! p + 1"
    "node_masks s ! j = node_masks s ! p OR push_bit (j + 1) 1" "node_path s j = node_path s p @ [j]"
  using assms node_path_root [of s j] node_path_child [of s j] by (auto simp: tree_wf_def node_ok_def)

lemma node_path_last: "last (node_path s j) = j" "node_path s j \<noteq> []" "j \<in> set (node_path s j)"
  by (subst node_path.simps; simp add: Let_def)+

lemma node_path_bound:
  assumes "tree_wf s"
  shows "j < length (tokens s) \<Longrightarrow> sorted_wrt (<) (node_path s j) \<and> (\<forall>a \<in> set (node_path s j). a \<le> j)
     \<and> length (node_path s j) = depths s ! j"
proof (induction j rule: less_induct)
  case (less j)
  from assms less.prems show ?case
  proof (cases rule: node_cases)
    case (child p)
    with less.IH [of p] less.prems show ?thesis by (auto simp: sorted_wrt_append) 
  qed auto
qed

lemma node_path_lt:
  "tree_wf s \<Longrightarrow> j < length (tokens s) \<Longrightarrow> a \<in> set (node_path s j) \<Longrightarrow> a < length (tokens s)"
  using node_path_bound [of s j] by fastforce

lemma node_path_prefix:
  assumes "tree_wf s"
  shows "j < length (tokens s) \<Longrightarrow> i < length (node_path s j) \<Longrightarrow>
    take (Suc i) (node_path s j) = node_path s (node_path s j ! i)"
proof (induction j rule: less_induct)
  case (less j)
  from assms less.prems(1) show ?case
  proof (cases rule: node_cases)
    case root
    with less.prems show ?thesis by simp
  next
    case (child p)
    show ?thesis
    proof (cases "i < length (node_path s p)")
      case True
      with child less.IH [of p] less.prems show ?thesis by (simp add: nth_append)
    next
      case False
      with child less.prems show ?thesis by (simp add: nth_append)
    qed
  qed
qed

lemma ancestors_loop_path:
  assumes "tree_wf s"
  shows "j < length (tokens s) \<Longrightarrow>
    ancestors_loop (parents s) (int j) chain = Some (Inr (map int (node_path s j) @ rev chain))"
proof (induction j arbitrary: chain rule: less_induct)
  case (less j)
  have nth: "py_nth (parents s) (int j) = Inr (parents s ! j)"
    using assms less.prems by (simp add: tree_wf_def)
  from assms less.prems show ?case
  proof (cases rule: node_cases)
    case root
    then show ?thesis
      by (subst ancestors_loop.simps) (simp add: nth ancestors_loop.simps [of _ "- 1"])
  next
    case (child p)
    with less.IH [of p] less.prems show ?thesis
      by (subst ancestors_loop.simps) (simp add: nth)
  qed
qed

lemma ancestors_eq:
  assumes "tree_wf s" "j < length (tokens s)"
  shows "ancestors s j = Some (Inr (map int (butlast (node_path s j))))"
  using assms
proof (cases rule: node_cases)
  case root
  with assms show ?thesis
    by (simp add: ancestors_def tree_wf_def ancestors_loop.simps [of _ "- 1"])
next
  case (child p)
  with assms ancestors_loop_path [OF assms(1), of p "[]"] show ?thesis
    by (simp add: ancestors_def tree_wf_def)
qed

section \<open>Mask entries\<close>

lemma mask_bits:
  assumes "tree_wf s"
  shows "j < length (tokens s) \<Longrightarrow>
    (\<forall>c. bit (node_masks s ! j) c \<longleftrightarrow> c = 0 \<or> c \<in> Suc ` set (node_path s j)) \<and>
    0 \<le> node_masks s ! j \<and> node_masks s ! j < 2 ^ (j + 2)"
proof (induction j rule: less_induct)
  case (less j)
  have bound: "m OR push_bit (j + 1) 1 < 2 ^ (j + 2) \<and> 0 \<le> m OR push_bit (j + 1) 1"
    if "0 \<le> m" "m < 2 ^ (j + 1)" for m :: int
  proof -
    have "m < 2 ^ (j + 2)" using that(2) power_increasing [of "j + 1" "j + 2" "2::int"] by linarith
    moreover have "push_bit (j + 1) (1::int) < 2 ^ (j + 2)" by (simp add: push_bit_eq_mult)
    ultimately show ?thesis using that(1) OR_upper [of m "j + 2" "push_bit (j + 1) 1"] by simp
  qed
  from assms less.prems show ?case
  proof (cases rule: node_cases)
    case root
    have "(1::int) < 2 ^ (j + 1)" by (rule one_less_power) simp_all
    with root bound [of 1] show ?thesis by (auto simp: bit_simps bit_1_iff)
  next
    case (child p)
    have "node_masks s ! p < 2 ^ (p + 2)" "0 \<le> node_masks s ! p"
      using less.IH [of p] child less.prems by auto
    moreover have "(2::int) ^ (p + 2) \<le> 2 ^ (j + 1)" using child(1) by (intro power_increasing) auto
    ultimately have "node_masks s ! p < 2 ^ (j + 1)" by linarith
    with bound [of "node_masks s ! p"] child less.IH [of p] less.prems show ?thesis
      by (auto simp: bit_simps)
  qed
qed

lemma to_int64_small: "0 \<le> n \<Longrightarrow> n < 2 ^ 63 \<Longrightarrow> to_int64 n = Inr (word_of_int n)"
  by (simp add: to_int64_def)

lemma and_one_bit: "(w AND 1 \<noteq> 0) \<longleftrightarrow> bit w 0" for w :: "64 word"
  by (simp add: and_one_eq bit_0 mod_2_eq_odd)

lemma unpack_row_eq:
  assumes "0 \<le> n" "t \<le> 63"
  shows "unpack_row t (word_of_int n) = map (bit n) [1..<t + 1]"
  using assms unfolding unpack_row_def and_one_bit
  by (intro map_cong) (auto simp: bit_simps)

lemma length_set_cols [simp]: "length (set_cols cols row) = length row"
  by (induction cols arbitrary: row) (auto simp: set_cols_def)

lemma nth_set_cols: "i < length row \<Longrightarrow> set_cols cols row ! i = (row ! i \<or> i \<in> set cols)"
proof (induction cols arbitrary: row)
  case (Cons a cols)
  then have "set_cols (a # cols) row ! i = (row[a := True] ! i \<or> i \<in> set cols)"
    by (simp add: set_cols_def)
  with Cons.prems show ?case by (cases "i = a") auto
qed (simp add: set_cols_def)

text \<open>What a row of the mask should show: the history and the pending token, and for a node its
  ancestors and itself.\<close>

definition visible :: "tree_spec \<Rightarrow> nat \<Rightarrow> nat \<Rightarrow> bool" where
  "visible s row c =
     (c \<le> num_history s \<or> (0 < row \<and> c - (num_history s + 1) \<in> set (node_path s (row - 1))))"

definition visible_mask :: "tree_spec \<Rightarrow> mask" where
  "visible_mask s = map (\<lambda>row. map (visible s row) [0..<total_kv s]) [0..<total_q s]"

lemma reference_row_eq:
  assumes "tree_wf s" "j < length (tokens s)"
  shows "reference_row s j = Some (Inr (map (visible s (Suc j)) [0..<total_kv s]))"
proof -
  have split: "set (node_path s j) = insert j (set (butlast (node_path s j)))"
    using node_path_last(1,2) [of s j] append_butlast_last_id [of "node_path s j"]
    by (metis list.simps(15) rotate1.simps(2) set_rotate1)
  have "set_cols (num_history s # map (\<lambda>a. num_history s + 1 + nat a) (map int (butlast (node_path s j)))
          @ [num_history s + 1 + j]) (history_row s) = map (visible s (Suc j)) [0..<total_kv s]"
  proof (rule nth_equalityI)
    fix c assume "c < length (set_cols (num_history s # map (\<lambda>a. num_history s + 1 + nat a)
        (map int (butlast (node_path s j))) @ [num_history s + 1 + j]) (history_row s))"
    then have c: "c < total_kv s" by (simp add: history_row_def)
    have "(\<exists>a \<in> set (node_path s j). c = num_history s + 1 + a) \<longleftrightarrow>
        num_history s < c \<and> c - (num_history s + 1) \<in> set (node_path s j)"
      by (auto simp: image_iff intro!: bexI [of _ "c - (num_history s + 1)"])
    with c split show "set_cols (num_history s # map (\<lambda>a. num_history s + 1 + nat a) (map int (butlast (node_path s j)))
          @ [num_history s + 1 + j]) (history_row s) ! c = map (visible s (Suc j)) [0..<total_kv s] ! c"
      by (auto simp: nth_set_cols history_row_def visible_def)
  qed (simp add: history_row_def)
  then show ?thesis
    by (simp add: reference_row_def ancestors_eq [OF assms])
qed

lemma opt_omap_Some:
  "(\<And>x. x \<in> set xs \<Longrightarrow> f x = Some (Inr (g x))) \<Longrightarrow> opt_omap f xs = Some (Inr (map g xs))"
  by (induction xs) auto

lemma reference_mask_visible:
  assumes "tree_wf s"
  shows "build_tree_mask_reference s = Some (Inr (visible_mask s))"
proof -
  have "opt_omap (reference_row s) [0..<length (tokens s)]
      = Some (Inr (map (\<lambda>j. map (visible s (Suc j)) [0..<total_kv s]) [0..<length (tokens s)]))"
    by (rule opt_omap_Some) (simp add: reference_row_eq [OF assms])
  moreover have "set_cols [num_history s] (history_row s) = map (visible s 0) [0..<total_kv s]"
    by (rule nth_equalityI) (auto simp: nth_set_cols history_row_def visible_def)
  ultimately show ?thesis
    by (simp add: build_tree_mask_reference_def visible_mask_def total_q_def map_upt_Suc del: upt_Suc)
qed

lemma unpacked_row_visible:
  assumes "tree_wf s" "j < length (tokens s)" "length (tokens s) \<le> 63" "node_masks s ! j < 2 ^ 63"
  shows "to_int64 (node_masks s ! j) = Inr (word_of_int (node_masks s ! j))"
    and "replicate (num_history s + 1) True @ unpack_row (length (tokens s)) (word_of_int (node_masks s ! j))
      = map (visible s (Suc j)) [0..<total_kv s]"
proof -
  note m = mask_bits [OF assms(1,2)]
  show "to_int64 (node_masks s ! j) = Inr (word_of_int (node_masks s ! j))"
    using m assms(4) by (simp add: to_int64_small)
  have "unpack_row (length (tokens s)) (word_of_int (node_masks s ! j))
      = map (bit (node_masks s ! j)) [1..<length (tokens s) + 1]"
    using m assms(3) by (intro unpack_row_eq) auto
  then have unpack: "unpack_row (length (tokens s)) (word_of_int (node_masks s ! j))
      = map (bit (node_masks s ! j)) [1..<length (tokens s) + 1]" .
  show "replicate (num_history s + 1) True @ unpack_row (length (tokens s)) (word_of_int (node_masks s ! j))
      = map (visible s (Suc j)) [0..<total_kv s]"
  proof (rule nth_equalityI)
    show len: "length (replicate (num_history s + 1) True @ unpack_row (length (tokens s)) (word_of_int (node_masks s ! j)))
      = length (map (visible s (Suc j)) [0..<total_kv s])"
      by (simp add: unpack total_kv_def total_q_def del: upt_Suc)
    fix c
    assume "c < length (replicate (num_history s + 1) True @ unpack_row (length (tokens s)) (word_of_int (node_masks s ! j)))"
    then have c: "c < total_kv s" unfolding len by simp
    show "(replicate (num_history s + 1) True @ unpack_row (length (tokens s)) (word_of_int (node_masks s ! j))) ! c
      = map (visible s (Suc j)) [0..<total_kv s] ! c"
    proof (cases "c \<le> num_history s")
      case True
      with c show ?thesis by (simp add: nth_append visible_def less_Suc_eq_le del: replicate_Suc)
    next
      case False
      then obtain d where d: "c = num_history s + 1 + d"
        by (metis Suc_eq_plus1 le_Suc_ex not_less_eq_eq)
      with c have "d < length (tokens s)" by (simp add: total_kv_def total_q_def)
      then have "(replicate (num_history s + 1) True @ unpack_row (length (tokens s)) (word_of_int (node_masks s ! j))) ! c
          = bit (node_masks s ! j) (Suc d)"
        by (simp add: unpack d nth_append del: replicate_Suc upt_Suc)
      also have "\<dots> = (d \<in> set (node_path s j))" using m by auto
      also have "\<dots> = map (visible s (Suc j)) [0..<total_kv s] ! c"
        using c by (simp add: visible_def d)
      finally show ?thesis .
    qed
  qed
qed

lemma mask_small:
  assumes "tree_wf s" "j < length (tokens s)" "length (tokens s) \<le> 62"
  shows "node_masks s ! j < 2 ^ 63"
proof -
  have "node_masks s ! j < 2 ^ (j + 2)" using mask_bits [OF assms(1,2)] by blast
  also have "(2::int) ^ (j + 2) \<le> 2 ^ 63" using assms(2,3) by (intro power_increasing) auto
  finally show ?thesis .
qed

lemma build_tree_mask_visible:
  assumes "tree_wf s" "length (tokens s) \<le> 62"
  shows "build_tree_mask s = Inr (visible_mask s)"
proof -
  let ?t = "length (tokens s)"
  have masks: "node_masks s = map ((!) (node_masks s)) [0..<?t]"
    using assms(1) by (metis map_nth tree_wf_def)
  have "omap to_int64 (node_masks s) = Inr (map word_of_int (node_masks s))"
    using mask_small [OF assms(1) _ assms(2)] unpacked_row_visible(1) [OF assms(1)] assms
    by (intro omap_Inr_map) (auto simp: in_set_conv_nth tree_wf_def)
  moreover have "map (\<lambda>w. replicate (num_history s) True @ [True] @ unpack_row ?t w) (map word_of_int (node_masks s))
      = map (\<lambda>j. map (visible s (Suc j)) [0..<total_kv s]) [0..<?t]"
    by (subst masks)
      (use unpacked_row_visible(2) [OF assms(1)] mask_small [OF assms(1)] assms in
        \<open>simp add: replicate_app_Cons_same comp_def\<close>)
  moreover have "replicate (num_history s) True @ [True] @ replicate ?t False = map (visible s 0) [0..<total_kv s]"
    by (rule nth_equalityI) (auto simp: nth_append nth_Cons' visible_def total_kv_def total_q_def)
  ultimately show ?thesis
    by (simp add: build_tree_mask_def visible_mask_def total_q_def map_upt_Suc Let_def del: upt_Suc)
qed

lemma level_mask_visible:
  assumes "tree_wf s" "length (tokens s) \<le> 62" "\<forall>j \<in> set level. j < length (tokens s)"
  shows "build_level_mask s level = Inr (map (\<lambda>j. visible_mask s ! Suc j) level)"
proof -
  have j: "obind (onth (node_masks s) j) to_int64 = Inr (word_of_int (node_masks s ! j))"
    "replicate (num_history s + 1) True @ unpack_row (length (tokens s)) (word_of_int (node_masks s ! j))
      = visible_mask s ! Suc j" if "j \<in> set level" for j
    using unpacked_row_visible [OF assms(1), of j] mask_small [OF assms(1), of j] assms that
    by (auto simp: tree_wf_def visible_mask_def total_q_def simp del: upt_Suc replicate_Suc)
  have "omap (\<lambda>j. obind (onth (node_masks s) j) to_int64) level = Inr (map (\<lambda>j. word_of_int (node_masks s ! j)) level)"
    using j(1) by (rule omap_Inr_map)
  with j(2) show ?thesis
    by (simp add: build_level_mask_def Let_def del: replicate_Suc)
qed

section \<open>Walks through the tree\<close>

lemma match_child_Some:
  assumes "match_child s (children s u) t = Some m"
  shows "m < length (parents s)" "tokens s ! m = t"
    "parents s ! m = (case u of None \<Rightarrow> - 1 | Some j \<Rightarrow> int j)"
proof -
  from assms have "m \<in> set (children s u)" "tokens s ! m = t"
    by (auto simp: match_child_def find_Some_iff)
  then show "m < length (parents s)" "tokens s ! m = t"
    "parents s ! m = (case u of None \<Rightarrow> - 1 | Some j \<Rightarrow> int j)"
    by (auto simp: children_def)
qed

lemma match_child_None:
  "match_child s (children s u) t = None \<Longrightarrow> c < length (parents s) \<Longrightarrow>
     parents s ! c = (case u of None \<Rightarrow> - 1 | Some j \<Rightarrow> int j) \<Longrightarrow> tokens s ! c \<noteq> t"
  by (auto simp: match_child_def children_def find_None_iff)

text \<open>The path that has reached \<open>u\<close>, and the logits row that scores its children.\<close>

definition path_to :: "tree_spec \<Rightarrow> nat option \<Rightarrow> nat list" where
  "path_to s u = (case u of None \<Rightarrow> [] | Some j \<Rightarrow> node_path s j)"

definition row_of :: "nat option \<Rightarrow> nat" where
  "row_of u = (case u of None \<Rightarrow> 0 | Some j \<Rightarrow> Suc j)"

definition valid_pos :: "tree_spec \<Rightarrow> nat option \<Rightarrow> bool" where
  "valid_pos s u = (case u of None \<Rightarrow> True | Some j \<Rightarrow> j < length (tokens s))"

lemma step_down:
  assumes "tree_wf s" "valid_pos s u" "match_child s (children s u) t = Some m"
  shows "valid_pos s (Some m)" "path_to s (Some m) = path_to s u @ [m]" "row_of u < row_of (Some m)"
proof -
  note m = match_child_Some [OF assms(3)]
  have lt: "m < length (tokens s)" using m(1) assms(1) by (simp add: tree_wf_def)
  from assms(1) lt have "path_to s (Some m) = path_to s u @ [m] \<and> row_of u < row_of (Some m)"
  proof (cases rule: node_cases)
    case root
    with m(3) show ?thesis by (cases u) (simp_all add: path_to_def row_of_def)
  next
    case (child p)
    with m(3) show ?thesis by (cases u) (simp_all add: path_to_def row_of_def)
  qed
  then show "path_to s (Some m) = path_to s u @ [m]" "row_of u < row_of (Some m)" by auto
  show "valid_pos s (Some m)" using lt by (simp add: valid_pos_def)
qed

text \<open>
  A finished walk from \<open>u\<close>: \<open>v\<close> is where it ended, \<open>c\<close> the tokens committed on the way, the last
  of which no child of \<open>v\<close> carries.
\<close>

inductive walk :: "('v::linorder list list) \<Rightarrow> tree_spec \<Rightarrow> nat option \<Rightarrow> nat option \<Rightarrow> int list \<Rightarrow> bool"
  for logits s where
  stop: "t = int (argmax (logits ! row_of u)) \<Longrightarrow> match_child s (children s u) t = None \<Longrightarrow> walk logits s u u [t]"
| down: "t = int (argmax (logits ! row_of u)) \<Longrightarrow> match_child s (children s u) t = Some m \<Longrightarrow>
     walk logits s (Some m) v c \<Longrightarrow> walk logits s u v (t # c)"

inductive_cases walkE: "walk logits s u v c"

lemma match_child_empty: "children s u = [] \<Longrightarrow> match_child s (children s u) t = None"
  by (simp add: match_child_def)

lemma greedy_loop_walk:
  assumes wf: "tree_wf s" and rows: "length logits \<ge> total_q s" "\<forall>r \<in> set logits. r \<noteq> []"
  shows "valid_pos s u \<Longrightarrow> \<exists>v c. walk logits s u v c \<and> valid_pos s v \<and>
    greedy_loop logits s (logits ! row_of u) (children s u) (path_to s u) committed
      = Some (Inr (path_to s v, committed @ c))"
proof (induction "total_q s - row_of u" arbitrary: u committed rule: less_induct)
  case less
  have ru: "row_of u < length logits"
    using less.prems rows(1) by (auto simp: valid_pos_def row_of_def total_q_def split: option.splits)
  then have ne: "logits ! row_of u \<noteq> []" using rows(2) by simp
  let ?t = "int (argmax (logits ! row_of u))"
  have am: "torch_argmax (logits ! row_of u) = Inr ?t" using ne by (simp add: torch_argmax_def)
  show ?case
  proof (cases "match_child s (children s u) ?t")
    case None
    then have "walk logits s u u [?t]" by (auto intro: walk.stop)
    moreover have "greedy_loop logits s (logits ! row_of u) (children s u) (path_to s u) committed
      = Some (Inr (path_to s u, committed @ [?t]))"
      by (subst greedy_loop.simps) (simp add: am None)
    ultimately show ?thesis using less.prems by blast
  next
    case (Some m)
    note d = step_down [OF wf less.prems Some]
    have rm: "1 + m < length logits" "row_of (Some m) = 1 + m"
      using d(1) rows(1) by (auto simp: valid_pos_def total_q_def row_of_def)
    then have "total_q s - row_of (Some m) < total_q s - row_of u"
      using d(1,3) by (auto simp: valid_pos_def total_q_def)
    from less.hyps [OF this d(1), of "committed @ [?t]"] obtain v c where
      w: "walk logits s (Some m) v c" "valid_pos s v"
      "greedy_loop logits s (logits ! (1 + m)) (children s (Some m)) (path_to s u @ [m]) (committed @ [?t])
        = Some (Inr (path_to s v, committed @ ?t # c))"
      by (auto simp: rm(2) d(2))
    have tok: "tokens s ! m = ?t" using match_child_Some(2) [OF Some] .
    have ne': "logits ! (1 + m) \<noteq> []" using rows(2) rm(1) by simp
    have "greedy_loop logits s (logits ! row_of u) (children s u) (path_to s u) committed
      = greedy_loop logits s (logits ! (1 + m)) (children s (Some m)) (path_to s u @ [m]) (committed @ [?t])"
    proof (cases "children s (Some m) = []")
      case True
      have mc: "match_child s [] x = None" for x by (simp add: match_child_def)
      have am': "torch_argmax (logits ! (1 + m)) = Inr (int (argmax (logits ! (1 + m))))"
        using ne' by (simp add: torch_argmax_def)
      show ?thesis
        using rm(1) tok True am'
        by (subst (1 2) greedy_loop.simps) (simp add: am Some Let_def mc)
    next
      case False
      then show ?thesis
        using rm(1) tok by (subst greedy_loop.simps) (simp add: am Some Let_def)
    qed
    moreover have "walk logits s u v (?t # c)" using Some w(1) by (auto intro: walk.down)
    ultimately show ?thesis using w by auto
  qed
qed

lemma find_greedy_path_walk:
  assumes "tree_wf s" "length logits \<ge> total_q s" "\<forall>r \<in> set logits. r \<noteq> []"
  shows "\<exists>v c. walk logits s None v c \<and> valid_pos s v \<and>
    find_greedy_path logits s = Some (Inr (path_to s v, c))"
proof -
  have "onth logits 0 = Inr (logits ! row_of None)"
    using assms(2) by (cases logits) (simp_all add: row_of_def total_q_def)
  moreover have "valid_pos s None" by (simp add: valid_pos_def)
  ultimately show ?thesis
    using greedy_loop_walk [OF assms, of None "[]"]
    by (simp add: find_greedy_path_def path_to_def [of s None])
qed

lemma walk_stops: "walk logits s u v c \<Longrightarrow> match_child s (children s v) (last c) = None \<and> c \<noteq> []"
  by (induction rule: walk.induct) auto

lemma walk_tokens:
  assumes "walk logits s u v c" "tree_wf s" "valid_pos s u"
  shows "map ((!) (tokens s)) (path_to s v) = map ((!) (tokens s)) (path_to s u) @ butlast c \<and> c \<noteq> []
     \<and> length (path_to s v) + 1 = length (path_to s u) + length c"
  using assms
proof (induction rule: walk.induct)
  case (down t u m v c)
  note d = step_down [OF down.prems down.hyps(2)]
  from down.IH down.prems d match_child_Some(2) [OF down.hyps(2)] show ?case by auto
qed auto

text \<open>Rows that score the tree under a language model: node \<open>j\<close>'s row is the model's row after the
  context and the tokens down to \<open>j\<close>.\<close>

definition rows_of_lm :: "(int list \<Rightarrow> 'v list) \<Rightarrow> int list \<Rightarrow> tree_spec \<Rightarrow> 'v list list" where
  "rows_of_lm lm ctx s =
     lm ctx # map (\<lambda>j. lm (ctx @ map ((!) (tokens s)) (node_path s j))) [0..<length (tokens s)]"

lemma rows_of_lm_row:
  "valid_pos s u \<Longrightarrow> rows_of_lm lm ctx s ! row_of u = lm (ctx @ map ((!) (tokens s)) (path_to s u))"
  by (cases u) (simp_all add: rows_of_lm_def row_of_def path_to_def valid_pos_def)

lemma walk_greedy:
  assumes "walk (rows_of_lm lm ctx s) s u v c" "tree_wf s" "valid_pos s u"
  shows "c = greedy_seq lm (ctx @ map ((!) (tokens s)) (path_to s u)) (length c)"
  using assms
proof (induction rule: walk.induct)
  case (stop t u)
  then show ?case by (simp add: rows_of_lm_row)
next
  case (down t u m v c)
  note d = step_down [OF down.prems down.hyps(2)]
  from down.IH down.prems d match_child_Some(2) [OF down.hyps(2)] down.hyps(1) show ?case
    by (simp add: rows_of_lm_row Let_def)
qed

lemma sampling_loop_seq:
  assumes wf: "tree_wf s"
  shows "valid_pos s u \<Longrightarrow> \<exists>v c g'. valid_pos s v \<and>
    sampling_loop draw (rows_of_lm lm ctx s) s u (path_to s u) committed g
      = Some (Inr (path_to s v, committed @ c), g') \<and>
    (c, g') = sample_seq draw lm (ctx @ map ((!) (tokens s)) (path_to s u)) (length c) g \<and>
    c \<noteq> [] \<and> map ((!) (tokens s)) (path_to s v) = map ((!) (tokens s)) (path_to s u) @ butlast c \<and>
    match_child s (children s v) (last c) = None"
proof (induction "total_q s - row_of u" arbitrary: u committed g rule: less_induct)
  case less
  let ?rows = "rows_of_lm lm ctx s" and ?ctx = "ctx @ map ((!) (tokens s)) (path_to s u)"
  have ru: "row_of u < length ?rows"
    using less.prems by (auto simp: valid_pos_def row_of_def rows_of_lm_def split: option.splits)
  have row: "onth ?rows (case u of None \<Rightarrow> 0 | Some j \<Rightarrow> j + 1) = Inr (lm ?ctx)"
    using ru rows_of_lm_row [OF less.prems, of lm ctx] by (cases u) (simp_all add: row_of_def)
  obtain t g1 where t: "draw (lm ?ctx) g = (t, g1)" by fastforce
  show ?case
  proof (cases "match_child s (children s u) t")
    case None
    then have "sampling_loop draw ?rows s u (path_to s u) committed g = Some (Inr (path_to s u, committed @ [t]), g1)"
      by (subst sampling_loop.simps) (simp add: row t)
    with less.prems t None show ?thesis
      by (intro exI [of _ u] exI [of _ "[t]"] exI [of _ g1]) simp
  next
    case (Some m)
    note d = step_down [OF wf less.prems Some]
    have "total_q s - row_of (Some m) < total_q s - row_of u"
      using d(1,3) by (auto simp: valid_pos_def total_q_def row_of_def)
    from less.hyps [OF this d(1), of "committed @ [t]" g1] obtain v c g' where
      w: "valid_pos s v" "sampling_loop draw ?rows s (Some m) (path_to s u @ [m]) (committed @ [t]) g1
           = Some (Inr (path_to s v, committed @ t # c), g')"
      "(c, g') = sample_seq draw lm (?ctx @ [t]) (length c) g1" "c \<noteq> []"
      "map ((!) (tokens s)) (path_to s v) = map ((!) (tokens s)) (path_to s u) @ t # butlast c"
      "match_child s (children s v) (last c) = None"
      using match_child_Some(2) [OF Some] by (auto simp: d(2))
    have "sampling_loop draw ?rows s u (path_to s u) committed g = Some (Inr (path_to s v, committed @ t # c), g')"
      using w(2) by (subst sampling_loop.simps) (simp add: row t Some)
    with w t show ?thesis
      by (intro exI [of _ v] exI [of _ "t # c"] exI [of _ g']) (auto split: prod.splits)
  qed
qed

section \<open>Packed bits\<close>

lemma bit_byte_of_bits: "length bs \<le> 8 \<Longrightarrow> i < 8 \<Longrightarrow> bit (byte_of_bits bs) i = (i < length bs \<and> bs ! i)"
  by (simp add: byte_of_bits_def bit_horner_sum_bit_word_iff)

lemma length_pack_bytes: "length (pack_bytes bs) = ceil_div (length bs) 8"
proof (induction bs rule: pack_bytes.induct)
  case (1 bs)
  show ?case
  proof (cases "bs = []")
    case False
    then have "ceil_div (length bs) 8 = Suc (ceil_div (length bs - 8) 8)"
      by (cases "length bs \<le> 8") (auto simp: ceil_div_def Suc_le_eq div_nat_eqI le_div_geq)
    with 1 False show ?thesis by (subst pack_bytes.simps) simp
  qed (simp add: pack_bytes.simps)
qed

lemma bit_pack_bytes:
  "n < length bs \<Longrightarrow> bit (pack_bytes bs ! (n div 8)) (n mod 8) = bs ! n"
proof (induction bs arbitrary: n rule: pack_bytes.induct)
  case (1 bs)
  then have ne: "bs \<noteq> []" by auto
  show ?case
  proof (cases "n < 8")
    case True
    with ne 1 show ?thesis by (subst pack_bytes.simps) (simp add: bit_byte_of_bits)
  next
    case False
    then have "n div 8 = Suc ((n - 8) div 8)" "n mod 8 = (n - 8) mod 8"
      by (simp_all add: le_div_geq le_mod_geq)
    with "1.IH" [OF ne, of "n - 8"] "1.prems" ne False show ?thesis
      by (subst pack_bytes.simps) simp
  qed
qed

section \<open>The commit copy\<close>

lemma scatter_nat_other:
  "d \<notin> set ds \<Longrightarrow> fold (\<lambda>(d, v) xs. xs[d := v]) (zip ds vs) xs ! d = xs ! d"
proof (induction ds arbitrary: vs xs)
  case (Cons e ds)
  then show ?case by (cases vs) auto
qed simp

lemma scatter_nat_at:
  "distinct ds \<Longrightarrow> length vs = length ds \<Longrightarrow> k < length ds \<Longrightarrow> ds ! k < length xs \<Longrightarrow>
     fold (\<lambda>(d, v) xs. xs[d := v]) (zip ds vs) xs ! (ds ! k) = vs ! k"
proof (induction ds arbitrary: vs xs k)
  case (Cons e ds)
  then obtain v vs' where "vs = v # vs'" by (cases vs) auto
  with Cons show ?case by (cases k) (auto simp: scatter_nat_other)
qed simp

lemma length_scatter_nat [simp]:
  "length (fold (\<lambda>(d, v) xs. xs[d := v]) ps xs) = length xs"
  by (induction ps arbitrary: xs) auto

lemma gather_scatter_Inr:
  assumes "\<forall>x \<in> set src. x < length flat" "\<forall>x \<in> set dst. x < length flat"
  shows "gather_scatter src dst flat =
    Inr (fold (\<lambda>(d, v) xs. xs[d := v]) (zip dst (map ((!) flat) src)) flat)"
proof -
  have "omap (onth flat) src = Inr (map ((!) flat) src)"
    using assms(1) by (intro omap_Inr_map) simp
  with assms(2) show ?thesis by (simp add: gather_scatter_def)
qed

text \<open>The moves are ascending with every source above all earlier destinations: copying slot by slot
  in that order is the same as gathering first.\<close>

lemma sequential_copy_eq:
  assumes "length src = length dst"
    and "\<And>i j. i < j \<Longrightarrow> j < length src \<Longrightarrow> src ! j \<noteq> dst ! i"
  shows "fold (\<lambda>(s, d) xs. xs[d := xs ! s]) (zip src dst) flat
    = fold (\<lambda>(d, v) xs. xs[d := v]) (zip dst (map ((!) flat) src)) flat"
  using assms
proof (induction src arbitrary: dst flat)
  case (Cons x src)
  then obtain d dst' where dst: "dst = d # dst'" by (cases dst) auto
  have later: "x' \<noteq> d" if "x' \<in> set src" for x'
    using Cons.prems(2) [of 0] that dst by (fastforce simp: in_set_conv_nth dest: spec [of _ "Suc _"])
  have same: "map ((!) (flat[d := flat ! x])) src = map ((!) flat) src"
    using later by (auto intro!: nth_list_update_neq)
  have "fold (\<lambda>(s, d) xs. xs[d := xs ! s]) (zip src dst') (flat[d := flat ! x])
    = fold (\<lambda>(d, v) xs. xs[d := v]) (zip dst' (map ((!) (flat[d := flat ! x])) src)) (flat[d := flat ! x])"
  proof (rule Cons.IH)
    show "length src = length dst'" using Cons.prems(1) dst by simp
    fix i j assume "i < j" "j < length src"
    then show "src ! j \<noteq> dst' ! i" using Cons.prems(2) [of "Suc i" "Suc j"] dst by simp
  qed
  then show ?case unfolding same by (simp add: dst)
qed simp

text \<open>The moves \<open>step\<close> derives from the accepted path: scratch slot to contiguous slot, fixed points
  dropped.\<close>

definition commit_moves :: "nat \<Rightarrow> nat list \<Rightarrow> (nat \<times> nat) list" where
  "commit_moves live path =
     (let live_slots = map (\<lambda>j. live + 1 + j) path;
          final_slots = map (\<lambda>d. live + d) [1..<length path + 1]
      in filter (\<lambda>(s, d). s \<noteq> d) (zip live_slots final_slots))"

lemma ascending_ge: "sorted_wrt (<) p \<Longrightarrow> i < length p \<Longrightarrow> i \<le> (p ! i :: nat)"
proof (induction i)
  case (Suc i)
  then have "p ! i < p ! Suc i" by (intro sorted_wrt_nth_less) auto
  with Suc show ?case by simp
qed simp

lemma commit_moves_alt:
  "commit_moves live path = map (\<lambda>i. (live + 1 + path ! i, live + 1 + i)) (filter (\<lambda>i. path ! i \<noteq> i) [0..<length path])"
proof -
  have "zip (map (\<lambda>j. live + 1 + j) path) (map (\<lambda>d. live + d) [1..<length path + 1])
    = map (\<lambda>i. (live + 1 + path ! i, live + 1 + i)) [0..<length path]"
    by (rule nth_equalityI) (simp_all del: upt_Suc)
  then show ?thesis
    by (simp add: commit_moves_def Let_def filter_map comp_def del: upt_Suc)
qed

lemma commit_moves_facts:
  assumes asc: "sorted_wrt (<) path" and "\<forall>a \<in> set path. live + 1 + a < n"
  defines "ms \<equiv> commit_moves live path"
  shows "\<forall>m \<in> set ms. fst m < n \<and> snd m < n \<and> live < snd m" "distinct (map snd ms)"
    "\<And>i j. i < j \<Longrightarrow> j < length ms \<Longrightarrow> map fst ms ! j \<noteq> map snd ms ! i"
    "\<And>i. i < length path \<Longrightarrow> path ! i \<noteq> i \<Longrightarrow> (live + 1 + path ! i, live + 1 + i) \<in> set ms"
    "\<And>i. i < length path \<Longrightarrow> path ! i = i \<Longrightarrow> live + 1 + i \<notin> snd ` set ms"
proof -
  let ?is = "filter (\<lambda>i. path ! i \<noteq> i) [0..<length path]"
  have ms: "ms = map (\<lambda>i. (live + 1 + path ! i, live + 1 + i)) ?is"
    by (simp add: ms_def commit_moves_alt)
  have ge: "i \<le> path ! i" if "i < length path" for i using ascending_ge [OF asc that] .
  show "\<forall>m \<in> set ms. fst m < n \<and> snd m < n \<and> live < snd m"
  proof
    fix m assume "m \<in> set ms"
    then obtain i where i: "i < length path" "m = (live + 1 + path ! i, live + 1 + i)" by (auto simp: ms)
    have "live + 1 + path ! i < n" using assms(2) nth_mem [OF i(1)] by blast
    with ge [OF i(1)] i(2) show "fst m < n \<and> snd m < n \<and> live < snd m" by simp
  qed
  show "distinct (map snd ms)" by (simp add: ms comp_def distinct_map inj_on_def)
  show "map fst ms ! j \<noteq> map snd ms ! i" if "i < j" "j < length ms" for i j
  proof -
    have lj: "j < length ?is" "i < length ?is" using that by (simp_all add: ms)
    have "sorted_wrt (<) ?is" by (intro sorted_wrt_filter) simp
    then have "?is ! i < ?is ! j" using that lj by (intro sorted_wrt_nth_less) auto
    moreover have "?is ! j < length path" using nth_mem [OF lj(1)] by simp
    ultimately have "?is ! i < path ! (?is ! j)" using ge [of "?is ! j"] by simp
    then show ?thesis using lj by (simp add: ms)
  qed
  show "(live + 1 + path ! i, live + 1 + i) \<in> set ms" if "i < length path" "path ! i \<noteq> i" for i
    using that by (auto simp: ms)
  show "live + 1 + i \<notin> snd ` set ms" if "i < length path" "path ! i = i" for i
    using that by (auto simp: ms)
qed

definition committed_layer :: "nat \<Rightarrow> nat list \<Rightarrow> 'x list \<Rightarrow> 'x list \<Rightarrow> bool" where
  "committed_layer live path old new =
     (length new = length old \<and> (\<forall>p \<le> live. new ! p = old ! p) \<and>
      (\<forall>i < length path. new ! (live + 1 + i) = old ! (live + 1 + path ! i)))"

lemma commit_layer_ok:
  assumes "sorted_wrt (<) path" "\<forall>a \<in> set path. live + 1 + a < length flat"
  defines "ms \<equiv> commit_moves live path"
  shows "\<exists>new. gather_scatter (map fst ms) (map snd ms) flat = Inr new \<and> committed_layer live path flat new
    \<and> new = fold (\<lambda>(s, d) xs. xs[d := xs ! s]) ms flat"
proof -
  note f = commit_moves_facts [OF assms(1,2), folded ms_def]
  let ?new = "fold (\<lambda>(d, v) xs. xs[d := v]) (zip (map snd ms) (map ((!) flat) (map fst ms))) flat"
  have gs: "gather_scatter (map fst ms) (map snd ms) flat = Inr ?new"
    using f(1) by (intro gather_scatter_Inr) auto
  have seq: "fold (\<lambda>(s, d) xs. xs[d := xs ! s]) (zip (map fst ms) (map snd ms)) flat = ?new"
    using f(3) by (intro sequential_copy_eq) auto
  have "?new ! (live + 1 + i) = flat ! (live + 1 + path ! i)" if i: "i < length path" for i
  proof (cases "path ! i = i")
    case True
    with f(5) [OF i True] show ?thesis by (subst scatter_nat_other) auto
  next
    case False
    from f(4) [OF i False] obtain k where k: "k < length ms" "ms ! k = (live + 1 + path ! i, live + 1 + i)"
      by (auto simp: in_set_conv_nth)
    have "?new ! (map snd ms ! k) = map ((!) flat) (map fst ms) ! k"
      using f(1,2) k nth_mem [OF k(1)] by (intro scatter_nat_at) auto
    with k show ?thesis by simp
  qed
  moreover have "?new ! p = flat ! p" if "p \<le> live" for p
    using f(1) that by (intro scatter_nat_other) force
  ultimately have "committed_layer live path flat ?new" by (simp add: committed_layer_def)
  with gs seq show ?thesis by (simp add: zip_map_fst_snd)
qed

lemma path_to_ascending:
  assumes "tree_wf s" "valid_pos s v"
  shows "sorted_wrt (<) (path_to s v) \<and> (\<forall>a \<in> set (path_to s v). a < length (tokens s))"
proof (cases v)
  case None
  then show ?thesis by (simp add: path_to_def)
next
  case (Some j)
  with assms(2) have j: "j < length (tokens s)" by (simp add: valid_pos_def)
  have "sorted_wrt (<) (node_path s j)" using node_path_bound [OF assms(1) j] by blast
  moreover have "\<forall>a \<in> set (node_path s j). a < length (tokens s)"
    using node_path_lt [OF assms(1) j] by blast
  ultimately show ?thesis by (simp add: path_to_def Some)
qed

section \<open>Properties\<close>

text \<open>C17: The bit-parallel tree mask equals the reference. For every well-formed tree of at most 62
  nodes both builders return, without error, the same \<open>[total_q, total_kv]\<close> matrix, in which row 0
  shows the history and the pending token, and row \<open>1 + j\<close> shows in addition exactly the ancestors of
  node \<open>j\<close> and \<open>j\<close> itself, never a sibling or another branch.\<close>

theorem tree_mask_matches_reference:
  assumes "tree_wf s" "length (tokens s) \<le> 62"
  shows "build_tree_mask_reference s = Some (build_tree_mask s) \<and>
    (\<exists>m. build_tree_mask s = Inr m \<and> length m = total_q s \<and>
      (\<forall>row < total_q s. length (m ! row) = total_kv s \<and>
        (\<forall>c < total_kv s. m ! row ! c \<longleftrightarrow> c \<le> num_history s \<or>
           (\<exists>j a. row = Suc j \<and> a \<in> set (node_path s j) \<and> c = num_history s + 1 + a))))"
proof -
  have *: "visible s row c \<longleftrightarrow> c \<le> num_history s \<or>
      (\<exists>j a. row = Suc j \<and> a \<in> set (node_path s j) \<and> c = num_history s + 1 + a)" for row c
    by (cases row) (auto simp: visible_def intro!: exI [of _ "c - (num_history s + 1)"])
  show ?thesis
    using build_tree_mask_visible [OF assms] reference_mask_visible [OF assms(1)]
    by (simp add: visible_mask_def * del: upt_Suc)
qed

text \<open>A small tree: two root children, two children of node 0, one of node 3.\<close>

definition example_tree :: tree_spec where
  "example_tree = \<lparr> num_history = 2, parents = [- 1, - 1, 0, 0, 3], tokens = [7, 8, 9, 4, 5],
     depths = [1, 1, 2, 2, 3], node_log_confs = [0, 0, 0, 0, 0], node_masks = [3, 5, 11, 19, 51] \<rparr>"

lemma example_tree_wf: "tree_wf example_tree"
  by (simp add: tree_wf_def node_ok_def example_tree_def All_less_Suc numeral_2_eq_2 nth_Cons')

theorem tree_mask_matches_reference_witness:
  "build_tree_mask_reference example_tree = Some (build_tree_mask example_tree)
   \<and> length (tokens example_tree) = 5"
  using tree_mask_matches_reference [OF example_tree_wf] by (simp add: example_tree_def)

text \<open>C18: The budget of 63 nodes the engine accepts is one too many. On every well-formed tree of 63
  or more nodes the mask of node 62 has bit 63 set, so the int64 conversion in the bit-parallel
  builder raises, while the reference builder still returns the mask.\<close>

theorem tree_mask_overflows_at_63:
  assumes "tree_wf s" "63 \<le> length (tokens s)"
  shows "build_tree_mask s = Inl (RuntimeError ''Overflow when unpacking long'') \<and>
    build_tree_mask_reference s = Some (Inr (visible_mask s))"
proof -
  have lt: "62 < length (tokens s)" using assms(2) by simp
  have m: "bit (node_masks s ! 62) 63" "0 \<le> node_masks s ! 62"
    using mask_bits [OF assms(1) lt] node_path_last(3) [of 62 s] by (auto simp: numeral_eq_Suc)
  have "2 ^ 63 \<le> node_masks s ! 62"
  proof (rule ccontr)
    assume "\<not> 2 ^ 63 \<le> node_masks s ! 62"
    then have "take_bit 63 (node_masks s ! 62) = node_masks s ! 62"
      using m(2) by (intro take_bit_int_eq_self) auto
    with m(1) show False by (metis bit_take_bit_iff less_irrefl)
  qed
  then have "to_int64 (node_masks s ! 62) = Inl (RuntimeError ''Overflow when unpacking long'')"
    by (simp add: to_int64_def)
  moreover have "node_masks s ! 62 \<in> set (node_masks s)"
    using assms(1) lt by (simp add: tree_wf_def)
  ultimately have "omap to_int64 (node_masks s) = Inl (RuntimeError ''Overflow when unpacking long'')"
    by (intro omap_Inl_first) (auto simp: to_int64_def require_def)
  then show ?thesis
    using reference_mask_visible [OF assms(1)] by (simp add: build_tree_mask_def Let_def)
qed

text \<open>A chain of \<open>n\<close> nodes, grown one at a time.\<close>

primrec chain_tree :: "nat \<Rightarrow> tree_spec outcome" where
  "chain_tree 0 = Inr (tree_empty 4)"
| "chain_tree (Suc n) = obind (chain_tree n) (\<lambda>s.
     obind (tree_append (if n = 0 then None else Some (n - 1)) 1 0 s) (\<lambda>r. Inr (snd r)))"

lemma chain_tree_wf: "\<exists>s. chain_tree n = Inr s \<and> tree_wf s \<and> length (tokens s) = n"
proof (induction n)
  case 0
  show ?case by simp (simp add: tree_empty_def)
next
  case (Suc n)
  then obtain s where s: "chain_tree n = Inr s" "tree_wf s" "length (tokens s) = n" by blast
  then have "\<forall>p. (if n = 0 then None else Some (n - 1)) = Some p \<longrightarrow> p < length (tokens s)" by auto
  from tree_wf_append [OF s(2) this, of 1 0] obtain s' where
    "tree_append (if n = 0 then None else Some (n - 1)) 1 0 s = Inr (length (tokens s), s')"
    "tree_wf s'" "tokens s' = tokens s @ [1]" by blast
  with s show ?case by simp
qed

theorem tree_mask_overflows_at_63_witness:
  "\<exists>s. chain_tree 63 = Inr s \<and> build_tree_mask s = Inl (RuntimeError ''Overflow when unpacking long'')"
  using chain_tree_wf [of 63] tree_mask_overflows_at_63 by fastforce

text \<open>C17: The mask of a level-wise expansion forward consists of the rows of the tree mask at the
  nodes being forwarded, so what a node sees while it is expanded is exactly what it will see when
  it is verified.\<close>

theorem level_mask_rows:
  assumes "tree_wf s" "length (tokens s) \<le> 62" "\<forall>j \<in> set level. j < length (tokens s)"
  shows "\<exists>m. build_tree_mask s = Inr m \<and> build_level_mask s level = Inr (map (\<lambda>j. m ! (1 + j)) level)"
  using build_tree_mask_visible [OF assms(1,2)] level_mask_visible [OF assms] by simp

theorem level_mask_rows_witness:
  "\<exists>m. build_tree_mask example_tree = Inr m \<and> build_level_mask example_tree [2, 3] = Inr [m ! 3, m ! 4]"
  using level_mask_rows [OF example_tree_wf, of "[2, 3]"] by (simp add: example_tree_def)

text \<open>C19: The packing for FlashInfer loses nothing: entry \<open>(row, c)\<close> of a rectangular mask is bit
  \<open>n mod 8\<close> of byte \<open>n div 8\<close> for \<open>n = row * width + c\<close>, and the bytes cover all entries with fewer
  than eight bits to spare.\<close>

theorem packed_mask_entries:
  assumes "\<forall>r \<in> set m. length r = w" "row < length m" "c < w"
  shows "bit (pack_mask_flashinfer m ! ((row * w + c) div 8)) ((row * w + c) mod 8) = m ! row ! c
    \<and> length m * w \<le> length (pack_mask_flashinfer m) * 8
    \<and> length (pack_mask_flashinfer m) * 8 < length m * w + 8"
proof -
  have w: "map length m = replicate (length m) w"
    using assms(1) by (metis map_eq_conv map_replicate_const)
  have len: "length (concat m) = length m * w" by (simp add: length_concat w sum_list_replicate)
  have off: "sum_list (take row (map length m)) = row * w"
    using assms(2) by (simp add: w sum_list_replicate min_def)
  have c: "c < length (m ! row)" using assms by simp
  have "row * w + c < length m * w"
    using assms(2,3) by (metis Suc_leI add.commute add_less_cancel_right less_le_trans mult_Suc mult_le_mono1)
  then have "bit (pack_mask_flashinfer m ! ((row * w + c) div 8)) ((row * w + c) mod 8) = concat m ! (row * w + c)"
    unfolding pack_mask_flashinfer_def by (intro bit_pack_bytes) (simp add: len)
  also have "\<dots> = m ! row ! c"
    using nth_concat_offset [OF assms(2) c] by (simp add: off)
  finally have 1: "bit (pack_mask_flashinfer m ! ((row * w + c) div 8)) ((row * w + c) mod 8) = m ! row ! c" .
  have "ceil_div (length m * w) 8 * 8 < length m * w + 8 \<and> length m * w \<le> ceil_div (length m * w) 8 * 8"
    unfolding ceil_div_def by (simp add: div_times_less_eq_dividend) linarith
  with 1 show ?thesis by (simp add: pack_mask_flashinfer_def length_pack_bytes len)
qed

theorem packed_mask_entries_witness:
  "bit (pack_mask_flashinfer [[True, False, True, True, False], [False, True, True, False, True]] ! 1) 1"
  using packed_mask_entries [of "[[True, False, True, True, False], [False, True, True, False, True]]" 5 1 4] by simp

lemma greedy_path_ok:
  assumes "tree_wf s" "\<And>xs. lm xs \<noteq> []"
  shows "\<exists>path committed. find_greedy_path (rows_of_lm lm ctx s) s = Some (Inr (path, committed)) \<and>
    committed = greedy_seq lm ctx (length path + 1) \<and>
    map ((!) (tokens s)) path = butlast committed \<and>
    (path = [] \<or> last path < length (tokens s) \<and> path = node_path s (last path)) \<and>
    (\<forall>c < length (tokens s). parents s ! c = (if path = [] then - 1 else int (last path)) \<longrightarrow>
       tokens s ! c \<noteq> last committed)"
proof -
  let ?rows = "rows_of_lm lm ctx s"
  have "length ?rows \<ge> total_q s" "\<forall>r \<in> set ?rows. r \<noteq> []"
    using assms(2) by (auto simp: rows_of_lm_def total_q_def)
  from find_greedy_path_walk [OF assms(1) this] obtain v c where
    w: "walk ?rows s None v c" "valid_pos s v" "find_greedy_path ?rows s = Some (Inr (path_to s v, c))" by blast
  have start: "valid_pos s None" "path_to s None = []" by (simp_all add: valid_pos_def path_to_def)
  have stop: "match_child s (children s v) (last c) = None \<and> c \<noteq> []" using w(1) by (rule walk_stops)
  have c: "c = greedy_seq lm ctx (length c)" using walk_greedy [OF w(1) assms(1) start(1)] by (simp add: start)
  have t: "map ((!) (tokens s)) (path_to s v) = butlast c" "length (path_to s v) + 1 = length c"
    using walk_tokens [OF w(1) assms(1) start(1)] by (auto simp: start)
  have p: "path_to s v = [] \<or> last (path_to s v) < length (tokens s) \<and> path_to s v = node_path s (last (path_to s v))"
    using w(2) node_path_last(1) by (cases v) (auto simp: path_to_def valid_pos_def)
  have nochild: "tokens s ! i \<noteq> last c" if "i < length (tokens s)"
    "parents s ! i = (if path_to s v = [] then - 1 else int (last (path_to s v)))" for i
    using match_child_None [of s v "last c" i] stop that assms(1) node_path_last(1,2)
    by (cases v) (auto simp: path_to_def tree_wf_def)
  from w(3) c t p nochild show ?thesis by metis
qed

text \<open>C15: Greedy tree verification is lossless. When the verify rows score the tree under a target
  model (row 0 after the context, row \<open>1 + j\<close> after the tokens down to node \<open>j\<close>), the walk ends,
  follows one root-to-node path of the tree, and commits exactly the tokens greedy decoding of the
  target would produce: the accepted tokens of the path and one more. It stops no earlier than
  necessary: no child of the last node carries that last token.\<close>

theorem greedy_path_lossless:
  assumes "tree_wf s" "\<And>xs. lm xs \<noteq> []"
  shows "\<exists>path committed. find_greedy_path (rows_of_lm lm ctx s) s = Some (Inr (path, committed)) \<and>
    committed = greedy_seq lm ctx (length path + 1) \<and>
    map ((!) (tokens s)) path = butlast committed \<and>
    (path = [] \<or> last path < length (tokens s) \<and> path = node_path s (last path)) \<and>
    (\<forall>c < length (tokens s). parents s ! c = (if path = [] then - 1 else int (last path)) \<longrightarrow>
       tokens s ! c \<noteq> last committed)"
  using greedy_path_ok [OF assms] .

definition example_lm :: "int list \<Rightarrow> int list" where
  "example_lm xs = (if last xs = 7 then [0, 0, 0, 0, 9, 0] else if last xs = 4 then [0, 0, 0, 0, 0, 9] else [0, 5, 0, 0, 0, 0, 0, 8])"

lemma example_lm_nonempty: "example_lm xs \<noteq> []"
  by (simp add: example_lm_def)

theorem greedy_path_lossless_witness:
  "\<exists>path committed. find_greedy_path (rows_of_lm example_lm [1] example_tree) example_tree = Some (Inr (path, committed)) \<and>
     committed = greedy_seq example_lm [1] (length path + 1)"
  using greedy_path_lossless [of example_tree example_lm "[1]", OF example_tree_wf example_lm_nonempty] by blast

lemma sampling_path_ok:
  assumes "tree_wf s"
  shows "\<exists>path committed g'.
    tree_verify_sampling draw (rows_of_lm lm ctx s) s g = Some (Inr (path, committed), g') \<and>
    (committed, g') = sample_seq draw lm ctx (length path + 1) g \<and>
    map ((!) (tokens s)) path = butlast committed \<and>
    (path = [] \<or> last path < length (tokens s) \<and> path = node_path s (last path)) \<and>
    (\<forall>c < length (tokens s). parents s ! c = (if path = [] then - 1 else int (last path)) \<longrightarrow>
       tokens s ! c \<noteq> last committed)"
proof -
  have start: "valid_pos s None" "path_to s None = []" by (simp_all add: valid_pos_def path_to_def)
  from sampling_loop_seq [OF assms start(1), of draw lm ctx "[]" g] obtain v c g' where
    w: "valid_pos s v" "tree_verify_sampling draw (rows_of_lm lm ctx s) s g = Some (Inr (path_to s v, c), g')"
    "(c, g') = sample_seq draw lm ctx (length c) g" "c \<noteq> []"
    "map ((!) (tokens s)) (path_to s v) = butlast c" "match_child s (children s v) (last c) = None"
    by (auto simp: start tree_verify_sampling_def)
  have len: "length (path_to s v) + 1 = length c"
    using arg_cong [OF w(5), of length] w(4) by (cases c) auto
  have p: "path_to s v = [] \<or> last (path_to s v) < length (tokens s) \<and> path_to s v = node_path s (last (path_to s v))"
    using w(1) node_path_last(1) by (cases v) (auto simp: path_to_def valid_pos_def)
  have nochild: "tokens s ! i \<noteq> last c" if "i < length (tokens s)"
    "parents s ! i = (if path_to s v = [] then - 1 else int (last (path_to s v)))" for i
    using match_child_None [of s v "last c" i] w(6) that assms node_path_last(1,2)
    by (cases v) (auto simp: path_to_def tree_wf_def)
  from w(2,3,5) len p nochild show ?thesis by metis
qed

text \<open>C16: Sampling tree verification follows the target exactly. Under the same alignment of the rows
  the walk ends, and its committed tokens and the generator state it leaves are those of
  autoregressive sampling from the target with the same generator, one draw per committed token;
  all but the last name the nodes of a path, and the last names no child of its end.\<close>

theorem sampling_path_exact:
  assumes "tree_wf s"
  shows "\<exists>path committed g'.
    tree_verify_sampling draw (rows_of_lm lm ctx s) s g = Some (Inr (path, committed), g') \<and>
    (committed, g') = sample_seq draw lm ctx (length path + 1) g \<and>
    map ((!) (tokens s)) path = butlast committed \<and>
    (path = [] \<or> last path < length (tokens s) \<and> path = node_path s (last path)) \<and>
    (\<forall>c < length (tokens s). parents s ! c = (if path = [] then - 1 else int (last path)) \<longrightarrow>
       tokens s ! c \<noteq> last committed)"
  using sampling_path_ok [OF assms] .

theorem sampling_path_exact_witness:
  "\<exists>path committed g'.
    tree_verify_sampling (\<lambda>row g. (int (g mod length row), g + 3)) (rows_of_lm example_lm [1] example_tree) example_tree (7::nat)
      = Some (Inr (path, committed), g') \<and>
    (committed, g') = sample_seq (\<lambda>row g. (int (g mod length row), g + 3)) example_lm [1] (length path + 1) 7"
  using sampling_path_exact [OF example_tree_wf, of "\<lambda>row g. (int (g mod length row), g + 3)" example_lm "[1]" 7]
  by blast

lemma gather_commit_ok:
  assumes "tree_wf s" "valid_pos s v"
    and "\<forall>layer \<in> set (K_cache st) \<union> set (V_cache st). num_history s + 1 + length (tokens s) \<le> length layer"
  defines "ms \<equiv> commit_moves (num_history s) (path_to s v)"
  shows "\<exists>st'. gather_commit_kv st (map fst ms) (map snd ms) = Inr st' \<and>
    list_all2 (\<lambda>old new. committed_layer (num_history s) (path_to s v) old new \<and>
       new = fold (\<lambda>(x, d) xs. xs[d := xs ! x]) ms old) (K_cache st @ V_cache st) (K_cache st' @ V_cache st')"
proof -
  let ?P = "\<lambda>old new. committed_layer (num_history s) (path_to s v) old new \<and>
       new = fold (\<lambda>(x, d) xs. xs[d := xs ! x]) ms old"
  note asc = path_to_ascending [OF assms(1,2)]
  have layer: "\<exists>new. gather_scatter (map fst ms) (map snd ms) flat = Inr new \<and> ?P flat new"
    if "flat \<in> set (K_cache st) \<union> set (V_cache st)" for flat
  proof -
    have "\<forall>a \<in> set (path_to s v). num_history s + 1 + a < length flat"
    proof
      fix a assume "a \<in> set (path_to s v)"
      then have "a < length (tokens s)" using asc by blast
      moreover have "num_history s + 1 + length (tokens s) \<le> length flat" using assms(3) that by blast
      ultimately show "num_history s + 1 + a < length flat" by linarith
    qed
    with asc commit_layer_ok [of "path_to s v" "num_history s" flat] show ?thesis
      by (auto simp: ms_def)
  qed
  obtain ks where ks: "omap (gather_scatter (map fst ms) (map snd ms)) (K_cache st) = Inr ks" "list_all2 ?P (K_cache st) ks"
    using omap_all2 [of "K_cache st" "gather_scatter (map fst ms) (map snd ms)" ?P] layer by blast
  obtain vs where vs: "omap (gather_scatter (map fst ms) (map snd ms)) (V_cache st) = Inr vs" "list_all2 ?P (V_cache st) vs"
    using omap_all2 [of "V_cache st" "gather_scatter (map fst ms) (map snd ms)" ?P] layer by blast
  show ?thesis
  proof (cases "ms = []")
    case True
    have nil: "gather_scatter [] [] flat = Inr flat" for flat :: "'a list" by (simp add: gather_scatter_def)
    have "?P flat flat" if "flat \<in> set (K_cache st) \<union> set (V_cache st)" for flat
      using layer [OF that] True by (simp add: nil)
    then have "list_all2 ?P (K_cache st @ V_cache st) (K_cache st @ V_cache st)"
      by (auto intro!: list_all2_refl simp: list_all2_same)
    with True show ?thesis by (intro exI [of _ st]) (simp add: gather_commit_kv_def)
  next
    case False
    with ks vs show ?thesis
      by (intro exI [of _ "st\<lparr> K_cache := ks, V_cache := vs \<rparr>"]) (simp add: gather_commit_kv_def list_all2_appendI)
  qed
qed

text \<open>C20: The gather commit. For the moves \<open>step\<close> derives from an accepted path, one advanced-indexing
  copy per layer raises nothing, leaves every slot up to the pending token alone, and puts the K and
  V of the \<open>i\<close>-th node of the path at slot \<open>live + 1 + i\<close>; the result is the same as copying slot by
  slot in ascending order, so no copied source was overwritten before it was read.\<close>

theorem gather_commit_places_path:
  assumes "tree_wf s" "valid_pos s v"
    and "\<forall>layer \<in> set (K_cache st) \<union> set (V_cache st). num_history s + 1 + length (tokens s) \<le> length layer"
  defines "ms \<equiv> commit_moves (num_history s) (path_to s v)"
  shows "\<exists>st'. gather_commit_kv st (map fst ms) (map snd ms) = Inr st' \<and>
    list_all2 (\<lambda>old new. committed_layer (num_history s) (path_to s v) old new \<and>
       new = fold (\<lambda>(x, d) xs. xs[d := xs ! x]) ms old) (K_cache st @ V_cache st) (K_cache st' @ V_cache st')"
  unfolding ms_def using gather_commit_ok [OF assms(1-3)] .

definition example_cache :: "nat kv_storage" where
  "example_cache = \<lparr> geometry = \<lparr> num_layers = 2, num_blocks = 3, geo_block_len = 4, num_kv_heads = 1, geo_head_dim = 1 \<rparr>,
     st_kv_dtype = Float32, k_scale = 1, v_scale = 1, K_cache = [[0..<12], [100..<112]],
     V_cache = [[200..<212], [300..<312]], use_custom_ops = False \<rparr>"

theorem gather_commit_places_path_witness:
  "\<exists>st'. gather_commit_kv example_cache [6, 7] [4, 5] = Inr st'"
proof -
  have "node_path example_tree 4 = [0, 3, 4]"
    by (simp add: node_path.simps example_tree_def)
  then have "commit_moves (num_history example_tree) (path_to example_tree (Some 4)) = [(6, 4), (7, 5)]"
    by (simp add: path_to_def commit_moves_def example_tree_def upt_rec)
  with gather_commit_places_path [OF example_tree_wf, of "Some 4" example_cache] show ?thesis
    by (auto simp: valid_pos_def example_tree_def example_cache_def)
qed

end
