(* ===== verification/Speculative.thy ===== *)
theory Speculative
  imports Decoding
begin

text \<open>
  The accept/reject step of chain speculative decoding (\<open>executors/torch/speculative.py\<close>): the
  vectorised greedy and sampling variants and their loop references. Batches are lists; torch's
  generator is a state \<open>'g\<close> with the draws \<open>rand\<close> and \<open>multinomial\<close> as parameters; probabilities are
  real numbers.
\<close>

section \<open>Definitions\<close>

definition chain_verify_mask :: "nat \<Rightarrow> nat \<Rightarrow> bool list list" where
  "chain_verify_mask k_len prefix_len =
     map (\<lambda>i. replicate prefix_len True @ map (\<lambda>j. j \<le> i) [0..<k_len]) [0..<k_len]"

fun cumprod :: "nat \<Rightarrow> nat list \<Rightarrow> nat list" where
  "cumprod acc [] = []"
| "cumprod acc (x # xs) = acc * x # cumprod (acc * x) xs"

definition argmax_rows :: "'v::linorder list list \<Rightarrow> int list outcome" where
  "argmax_rows rows = omap torch_argmax rows"

text \<open>One batch row. A comparison or a masked assignment of mismatched shapes raises.\<close>

definition greedy_row :: "int list \<Rightarrow> 'v::linorder list list \<Rightarrow> (int list \<times> nat) outcome" where
  "greedy_row draft logits =
     obind (argmax_rows logits) (\<lambda>tids.
       let T = length draft in
       require (T \<le> length tids \<or> length tids = 1 \<or> T = 1)
         (RuntimeError ''The size of tensor a must match the size of tensor b'')
      (require (length tids = T + 1) IndexError
        (let is_accept = map2 (\<lambda>d t. if d = t then 1 else 0) draft (take T tids);
             num_accepted = sum_list (cumprod 1 is_accept);
             accept_len = num_accepted + 1
         in Inr (map (\<lambda>i. if i < accept_len then tids ! i else - 1) [0..<T + 1], accept_len))))"

definition accept_reject_greedy ::
    "int list list \<Rightarrow> 'v::linorder list list list \<Rightarrow> (int list \<times> nat) list outcome" where
  "accept_reject_greedy drafts logits = omap (\<lambda>(d, l). greedy_row d l) (zip drafts logits)"

text \<open>The reference: \<open>picks[L]\<close> is written last, so a row needs \<open>K + 1\<close> picks.\<close>

fun greedy_scan :: "int list \<Rightarrow> int list \<Rightarrow> nat \<Rightarrow> nat outcome" where
  "greedy_scan [] picks L = Inr L"
| "greedy_scan (d # ds) picks L =
     obind (onth picks L) (\<lambda>p. if d = p then greedy_scan ds picks (Suc L) else Inr L)"

definition greedy_row_reference :: "int list \<Rightarrow> 'v::linorder list list \<Rightarrow> (int list \<times> nat) outcome" where
  "greedy_row_reference draft logits =
     obind (argmax_rows logits) (\<lambda>picks.
     obind (greedy_scan draft picks 0) (\<lambda>L.
     obind (onth picks L) (\<lambda>t.
       Inr ((take L draft @ replicate (length draft + 1 - L) (- 1))[L := t], L + 1))))"

definition accept_reject_greedy_reference ::
    "int list list \<Rightarrow> 'v::linorder list list list \<Rightarrow> (int list \<times> nat) list outcome" where
  "accept_reject_greedy_reference drafts logits = omap (\<lambda>(d, l). greedy_row_reference d l) (zip drafts logits)"

text \<open>\<open>clamp(p_x / d_x, max=1)\<close>, the probability to keep a draft, and the distribution a rejected slot
  is redrawn from.\<close>

definition accept_threshold :: "real list \<Rightarrow> real list \<Rightarrow> nat \<Rightarrow> real" where
  "accept_threshold p d x = min (p ! x / d ! x) 1"

definition residual :: "real list \<Rightarrow> real list \<Rightarrow> real list" where
  "residual p d = map2 (\<lambda>a b. max (a - b) 0) p d"

definition residual_dist :: "real list \<Rightarrow> real list \<Rightarrow> real list" where
  "residual_dist p d =
     (let res = residual p d; res_sum = sum_list res
      in if res_sum > 0 then map (\<lambda>x. x / max res_sum (1 / 10 ^ 12)) res else p)"

text \<open>One batch row of the vectorised scan: the number of accepted drafts and the distribution of the
  next token.\<close>

definition sampling_row ::
    "real list \<Rightarrow> nat list \<Rightarrow> real list list \<Rightarrow> real list list \<Rightarrow> nat \<times> real list" where
  "sampling_row us drafts dprobs logits =
     (let K = length drafts;
          probs = map softmax logits;
          is_accept = map (\<lambda>i. if us ! i < accept_threshold (probs ! i) (dprobs ! i) (drafts ! i) then 1 else 0) [0..<K];
          num_accepted = sum_list (cumprod 1 is_accept);
          candidates = map2 residual_dist (take K probs) dprobs @ [probs ! K]
      in (num_accepted, candidates ! num_accepted))"

definition sampling_out :: "nat list \<Rightarrow> nat \<Rightarrow> int \<Rightarrow> int list" where
  "sampling_out drafts n next_token =
     (map (\<lambda>i. if i < n then int (drafts ! i) else - 1) [0..<length drafts] @ [- 1])[n := next_token]"

definition accept_reject_sampling ::
    "(nat \<Rightarrow> nat \<Rightarrow> 'g \<Rightarrow> real list list \<times> 'g) \<Rightarrow> (real list list \<Rightarrow> 'g \<Rightarrow> int list \<times> 'g)
       \<Rightarrow> nat list list \<Rightarrow> real list list list \<Rightarrow> real list list list \<Rightarrow> 'g
       \<Rightarrow> (int list \<times> nat) list \<times> 'g" where
  "accept_reject_sampling rand multi drafts dprobs logits g =
     (let B = length drafts; K = (case drafts of [] \<Rightarrow> 0 | r # _ \<Rightarrow> length r);
          (us, g1) = rand B K g;
          rows = map (\<lambda>b. sampling_row (us ! b) (drafts ! b) (dprobs ! b) (logits ! b)) [0..<B];
          (next_tokens, g2) = multi (map snd rows) g1
      in (map (\<lambda>b. (sampling_out (drafts ! b) (fst (rows ! b)) (next_tokens ! b), fst (rows ! b) + 1)) [0..<B], g2))"

text \<open>The reference row: one uniform draw per reached slot, one multinomial draw at the end.\<close>

fun sampling_scan ::
    "('g \<Rightarrow> real \<times> 'g) \<Rightarrow> (real list \<Rightarrow> 'g \<Rightarrow> int \<times> 'g)
       \<Rightarrow> nat list \<Rightarrow> real list list \<Rightarrow> real list list \<Rightarrow> 'g \<Rightarrow> int list \<times> 'g" where
  "sampling_scan rand multi (x # xs) (d # ds) (l # ls) g =
     (let p = softmax l; (r, g1) = rand g
      in if r * d ! x \<le> p ! x
         then (let (ts, g2) = sampling_scan rand multi xs ds ls g1 in (int x # ts, g2))
         else
           (let res = residual p d; total = sum_list res;
                (t, g2) = (if total > 0 then multi (map (\<lambda>a. a / total) res) g1 else multi p g1)
            in ([t], g2)))"
| "sampling_scan rand multi xs ds ls g = (let (t, g1) = multi (softmax (hd ls)) g in ([t], g1))"

definition sampling_row_reference ::
    "('g \<Rightarrow> real \<times> 'g) \<Rightarrow> (real list \<Rightarrow> 'g \<Rightarrow> int \<times> 'g)
       \<Rightarrow> nat list \<Rightarrow> real list list \<Rightarrow> real list list \<Rightarrow> 'g \<Rightarrow> (int list \<times> nat) \<times> 'g" where
  "sampling_row_reference rand multi drafts dprobs logits g =
     (let (ts, g') = sampling_scan rand multi drafts dprobs logits g
      in ((ts @ replicate (length drafts + 1 - length ts) (- 1), length ts), g'))"

fun accept_reject_sampling_reference ::
    "('g \<Rightarrow> real \<times> 'g) \<Rightarrow> (real list \<Rightarrow> 'g \<Rightarrow> int \<times> 'g)
       \<Rightarrow> nat list list \<Rightarrow> real list list list \<Rightarrow> real list list list \<Rightarrow> 'g \<Rightarrow> (int list \<times> nat) list \<times> 'g" where
  "accept_reject_sampling_reference rand multi (x # xs) (d # ds) (l # ls) g =
     (let (row, g1) = sampling_row_reference rand multi x d l g;
          (rows, g2) = accept_reject_sampling_reference rand multi xs ds ls g1
      in (row # rows, g2))"
| "accept_reject_sampling_reference rand multi xs ds ls g = ([], g)"

section \<open>The accepted prefix\<close>

lemma cumprod_zero: "sum_list (cumprod 0 xs) = 0"
  by (induction xs) auto

definition prefix_len :: "(nat \<Rightarrow> bool) \<Rightarrow> nat \<Rightarrow> nat" where
  "prefix_len P n = length (takeWhile P [0..<n])"

lemma prefix_len_le: "prefix_len P n \<le> n"
  using length_takeWhile_le [of P "[0..<n]"] by (simp add: prefix_len_def)

lemma prefix_len_all: "i < prefix_len P n \<Longrightarrow> P i"
  using takeWhile_nth [of i P "[0..<n]"] nth_mem [of i "takeWhile P [0..<n]"] prefix_len_le [of P n]
  by (auto simp: prefix_len_def dest!: set_takeWhileD)

lemma prefix_len_stop: "prefix_len P n < n \<Longrightarrow> \<not> P (prefix_len P n)"
  using nth_length_takeWhile [of P "[0..<n]"] by (simp add: prefix_len_def)

lemma prefix_len_eqI:
  assumes "k \<le> n" "\<And>i. i < k \<Longrightarrow> P i" "k < n \<Longrightarrow> \<not> P k"
  shows "prefix_len P n = k"
proof (rule linorder_cases [of "prefix_len P n" k])
  assume "prefix_len P n < k"
  with assms(1,2) prefix_len_stop [of P n] show ?thesis by auto
next
  assume "k < prefix_len P n"
  then have "P k" by (rule prefix_len_all)
  with assms(3) \<open>k < prefix_len P n\<close> prefix_len_le [of P n] show ?thesis by auto
qed

lemma sum_cumprod_takeWhile:
  "sum_list (cumprod 1 (map (\<lambda>x. if P x then 1 else 0) xs)) = length (takeWhile P xs)"
  by (induction xs) (auto simp: cumprod_zero)

lemma sum_cumprod_prefix:
  "sum_list (cumprod 1 (map (\<lambda>i. if P i then 1 else 0) [0..<n])) = prefix_len P n"
  by (simp only: sum_cumprod_takeWhile prefix_len_def)

lemma greedy_scan_prefix:
  "length ds + L \<le> length picks \<Longrightarrow>
     greedy_scan ds picks L = Inr (L + prefix_len (\<lambda>i. ds ! i = picks ! (L + i)) (length ds))"
proof (induction ds arbitrary: L)
  case (Cons d ds)
  show ?case
  proof (cases "d = picks ! L")
    case True
    have "prefix_len (\<lambda>i. (d # ds) ! i = picks ! (L + i)) (Suc (length ds))
        = Suc (prefix_len (\<lambda>i. ds ! i = picks ! (Suc L + i)) (length ds))"
    proof (rule prefix_len_eqI)
      fix i assume "i < Suc (prefix_len (\<lambda>i. ds ! i = picks ! (Suc L + i)) (length ds))"
      then show "(d # ds) ! i = picks ! (L + i)"
        using True prefix_len_all [of "i - 1" "\<lambda>i. ds ! i = picks ! (Suc L + i)" "length ds"] by (cases i) auto
    next
      assume "Suc (prefix_len (\<lambda>i. ds ! i = picks ! (Suc L + i)) (length ds)) < Suc (length ds)"
      then show "(d # ds) ! Suc (prefix_len (\<lambda>i. ds ! i = picks ! (Suc L + i)) (length ds))
          \<noteq> picks ! (L + Suc (prefix_len (\<lambda>i. ds ! i = picks ! (Suc L + i)) (length ds)))"
        using prefix_len_stop [of "\<lambda>i. ds ! i = picks ! (Suc L + i)" "length ds"] by simp
    qed (simp add: prefix_len_le)
    with Cons True show ?thesis by simp
  next
    case False
    then have "prefix_len (\<lambda>i. (d # ds) ! i = picks ! (L + i)) (Suc (length ds)) = 0"
      by (intro prefix_len_eqI) auto
    with Cons.prems False show ?thesis by simp
  qed
qed (simp add: prefix_len_def)

text \<open>Both greedy variants on a row of the documented shape.\<close>

definition row_shape :: "int list \<Rightarrow> 'v list list \<Rightarrow> bool" where
  "row_shape draft logits = (length logits = length draft + 1 \<and> list_all (\<lambda>r. r \<noteq> []) logits)"

definition picks_of :: "'v::linorder list list \<Rightarrow> int list" where
  "picks_of logits = map (\<lambda>r. int (argmax r)) logits"

definition accepted_len :: "int list \<Rightarrow> 'v::linorder list list \<Rightarrow> nat" where
  "accepted_len draft logits = prefix_len (\<lambda>i. draft ! i = picks_of logits ! i) (length draft)"

lemma argmax_rows_ok: "row_shape draft logits \<Longrightarrow> argmax_rows logits = Inr (picks_of logits)"
  unfolding argmax_rows_def picks_of_def
  by (rule omap_Inr_map) (auto simp: torch_argmax_def row_shape_def list_all_iff)

lemma greedy_row_result:
  assumes "row_shape draft logits"
  defines "L \<equiv> accepted_len draft logits"
  shows "greedy_row draft logits =
    Inr (map (\<lambda>i. if i < L + 1 then picks_of logits ! i else - 1) [0..<length draft + 1], L + 1)"
proof -
  have len: "length (picks_of logits) = length draft + 1" using assms(1) by (simp add: picks_of_def row_shape_def)
  have "map2 (\<lambda>d t. if d = t then 1 else 0) draft (take (length draft) (picks_of logits))
      = map (\<lambda>i. if draft ! i = picks_of logits ! i then 1 else (0::nat)) [0..<length draft]"
    by (rule nth_equalityI) (simp_all add: len)
  then have "sum_list (cumprod 1 (map2 (\<lambda>d t. if d = t then 1 else 0) draft (take (length draft) (picks_of logits)))) = L"
    by (simp only: sum_cumprod_prefix L_def accepted_len_def)
  then show ?thesis
    by (simp add: greedy_row_def argmax_rows_ok [OF assms(1)] len Let_def del: upt_Suc)
qed

lemma greedy_row_reference_result:
  assumes "row_shape draft logits"
  shows "greedy_row_reference draft logits = greedy_row draft logits"
proof -
  let ?L = "accepted_len draft logits"
  have len: "length (picks_of logits) = length draft + 1" using assms by (simp add: picks_of_def row_shape_def)
  have le: "?L \<le> length draft" by (simp add: accepted_len_def prefix_len_le)
  have scan: "greedy_scan draft (picks_of logits) 0 = Inr ?L"
    using greedy_scan_prefix [of draft 0 "picks_of logits"] by (simp add: len accepted_len_def)
  have same: "draft ! i = picks_of logits ! i" if "i < ?L" for i
    using that prefix_len_all unfolding accepted_len_def by fast
  have "(take ?L draft @ replicate (length draft + 1 - ?L) (- 1))[?L := picks_of logits ! ?L]
    = map (\<lambda>i. if i < ?L + 1 then picks_of logits ! i else - 1) [0..<length draft + 1]"
    using le same by (intro nth_equalityI) (auto simp: nth_list_update nth_append less_Suc_eq simp del: upt_Suc)
  then show ?thesis
    using greedy_row_result [OF assms] le
    by (simp add: greedy_row_reference_def argmax_rows_ok [OF assms] scan len del: upt_Suc)
qed

lemma accepted_len_facts:
  assumes "row_shape draft logits"
  shows "accepted_len draft logits \<le> length draft"
    "i < accepted_len draft logits \<Longrightarrow> draft ! i = int (argmax (logits ! i))"
    "accepted_len draft logits < length draft \<Longrightarrow>
       draft ! accepted_len draft logits \<noteq> int (argmax (logits ! accepted_len draft logits))"
proof -
  show le: "accepted_len draft logits \<le> length draft" by (simp add: accepted_len_def prefix_len_le)
  have p: "picks_of logits ! i = int (argmax (logits ! i))" if "i \<le> length draft" for i
    using assms that by (simp add: picks_of_def row_shape_def)
  show "i < accepted_len draft logits \<Longrightarrow> draft ! i = int (argmax (logits ! i))"
    using p [of i] le prefix_len_all [of i "\<lambda>i. draft ! i = picks_of logits ! i" "length draft"]
    by (simp add: accepted_len_def)
  show "accepted_len draft logits < length draft \<Longrightarrow>
       draft ! accepted_len draft logits \<noteq> int (argmax (logits ! accepted_len draft logits))"
    using p [of "accepted_len draft logits"] prefix_len_stop [of "\<lambda>i. draft ! i = picks_of logits ! i" "length draft"]
    by (simp add: accepted_len_def)
qed

text \<open>The committed tokens of a row whose logits score the drafts under a model are its greedy
  continuation.\<close>

lemma greedy_row_lossless:
  assumes shape: "row_shape draft logits"
    and rows: "\<And>i. i \<le> length draft \<Longrightarrow> logits ! i = lm (ctx @ take i draft)"
  shows "map (\<lambda>i. picks_of logits ! i) [0..<accepted_len draft logits + 1] = greedy_seq lm ctx (accepted_len draft logits + 1)"
proof -
  let ?L = "accepted_len draft logits"
  let ?c = "map (\<lambda>i. picks_of logits ! i) [0..<?L + 1]"
  note f = accepted_len_facts [OF shape]
  have p: "picks_of logits ! i = int (argmax (logits ! i))" if "i \<le> length draft" for i
    using shape that by (simp add: picks_of_def row_shape_def)
  have "\<forall>i < length ?c. ?c ! i = int (argmax (lm (ctx @ take i ?c)))"
  proof (intro allI impI)
    fix i assume i: "i < length ?c"
    then have il: "i \<le> ?L" by simp
    have "take i ?c = take i draft"
      using il f(1,2) p by (intro nth_equalityI) (auto simp del: upt_Suc)
    with i il f(1) show "?c ! i = int (argmax (lm (ctx @ take i ?c)))"
      using p [of i] rows [of i] by (simp del: upt_Suc)
  qed
  from greedy_seq_unique [OF this] show ?thesis by simp
qed

section \<open>The sampling scan\<close>

lemma sampling_row_result:
  fixes us :: "real list"
  assumes "length dprobs = length drafts" "length logits = length drafts + 1"
  defines "L \<equiv> prefix_len (\<lambda>i. us ! i < accept_threshold (softmax (logits ! i)) (dprobs ! i) (drafts ! i)) (length drafts)"
  shows "sampling_row us drafts dprobs logits =
    (L, if L < length drafts then residual_dist (softmax (logits ! L)) (dprobs ! L) else softmax (logits ! length drafts))"
proof -
  have le: "L \<le> length drafts" by (simp add: L_def prefix_len_le)
  have "map (\<lambda>i. if us ! i < accept_threshold (map softmax logits ! i) (dprobs ! i) (drafts ! i) then 1 else (0::nat)) [0..<length drafts]
    = map (\<lambda>i. if us ! i < accept_threshold (softmax (logits ! i)) (dprobs ! i) (drafts ! i) then 1 else 0) [0..<length drafts]"
    using assms(2) by (intro map_cong) auto
  then have "sum_list (cumprod 1 (map (\<lambda>i. if us ! i < accept_threshold (map softmax logits ! i) (dprobs ! i) (drafts ! i) then 1 else 0) [0..<length drafts])) = L"
    by (simp only: sum_cumprod_prefix L_def)
  then show ?thesis
    using assms(1,2) le by (auto simp: sampling_row_def Let_def nth_append)
qed

lemma sum_list_divide: "sum_list (map (\<lambda>x. f x / c) xs) = sum_list (map f xs) / (c :: real)"
  by (induction xs) (auto simp: add_divide_distrib)

lemma softmax_dist:
  assumes "xs \<noteq> []"
  shows "length (softmax xs) = length xs" "\<forall>x \<in> set (softmax xs). 0 \<le> x" "sum_list (softmax xs) = 1"
proof -
  have pos: "sum_list (map exp xs) > 0"
    using assms by (cases xs) (auto intro!: add_pos_nonneg sum_list_nonneg)
  show "length (softmax xs) = length xs" by (simp add: softmax_def Let_def)
  show "\<forall>x \<in> set (softmax xs). 0 \<le> x" using pos by (auto simp: softmax_def Let_def)
  show "sum_list (softmax xs) = 1" using pos by (simp add: softmax_def Let_def sum_list_divide)
qed

definition is_dist :: "real list \<Rightarrow> bool" where
  "is_dist ws = (list_all (\<lambda>x. 0 \<le> x) ws \<and> sum_list ws = 1)"

lemma softmax_is_dist: "xs \<noteq> [] \<Longrightarrow> is_dist (softmax xs)"
  using softmax_dist by (simp add: is_dist_def list_all_iff)

text \<open>What \<open>torch.multinomial\<close> documents: index \<open>x\<close> is drawn with probability proportional to its
  weight.\<close>

definition draw_prob :: "real list \<Rightarrow> nat \<Rightarrow> real" where
  "draw_prob ws x = ws ! x / sum_list ws"

text \<open>The probability that a slot proposes \<open>x\<close> and keeps it (a uniform draw in \<open>[0, 1)\<close> is below the
  threshold with probability equal to the threshold), and that it rejects its proposal.\<close>

definition accept_mass :: "real list \<Rightarrow> real list \<Rightarrow> nat \<Rightarrow> real" where
  "accept_mass p d x = d ! x * accept_threshold p d x"

definition reject_mass :: "real list \<Rightarrow> real list \<Rightarrow> real" where
  "reject_mass p d = (\<Sum>x < length d. d ! x * (1 - accept_threshold p d x))"

lemma accept_mass_min: "0 \<le> p ! x \<Longrightarrow> 0 \<le> d ! x \<Longrightarrow> accept_mass p d x = min (p ! x) (d ! x)"
  by (cases "d ! x = 0") (auto simp: accept_mass_def accept_threshold_def min_def field_simps)

lemma residual_sum:
  assumes "length p = length d" "is_dist p" "is_dist d"
  shows "sum_list (residual p d) = reject_mass p d" "length (residual p d) = length p"
    "x < length p \<Longrightarrow> residual p d ! x = p ! x - min (p ! x) (d ! x)"
proof -
  show len: "length (residual p d) = length p" using assms(1) by (simp add: residual_def)
  show nth: "residual p d ! x = p ! x - min (p ! x) (d ! x)" if "x < length p" for x
    using that assms(1) by (auto simp: residual_def max_def min_def)
  have sums: "(\<Sum>x < length p. p ! x) = 1" "(\<Sum>x < length p. d ! x) = 1"
    using assms by (auto simp: is_dist_def sum_list_sum_nth atLeast0LessThan)
  have pos: "0 \<le> p ! x" "0 \<le> d ! x" if "x < length p" for x
    using assms that by (auto simp: is_dist_def list_all_length)
  have "sum_list (residual p d) = (\<Sum>x < length p. p ! x - min (p ! x) (d ! x))"
    using nth by (simp add: sum_list_sum_nth len atLeast0LessThan)
  also have "\<dots> = 1 - (\<Sum>x < length p. min (p ! x) (d ! x))" by (simp add: sum_subtractf sums)
  also have "\<dots> = (\<Sum>x < length p. d ! x - min (p ! x) (d ! x))" by (simp add: sum_subtractf sums)
  also have "\<dots> = reject_mass p d"
    unfolding reject_mass_def using pos accept_mass_min assms(1)
    by (intro sum.cong) (auto simp: accept_mass_def algebra_simps)
  finally show "sum_list (residual p d) = reject_mass p d" .
qed

lemma one_slot_exact:
  assumes "length p = length d" "is_dist p" "is_dist d" "x < length p"
  shows "accept_mass p d x + reject_mass p d * draw_prob (residual_dist p d) x = p ! x"
proof -
  note r = residual_sum [OF assms(1-3)]
  have pos: "0 \<le> p ! y" "0 \<le> d ! y" if "y < length p" for y
    using assms(1-3) that by (auto simp: is_dist_def list_all_length)
  have am: "accept_mass p d x = min (p ! x) (d ! x)" using pos assms(4) by (intro accept_mass_min) auto
  show ?thesis
  proof (cases "reject_mass p d > 0")
    case True
    let ?m = "max (reject_mass p d) (1 / 10 ^ 12)"
    have m: "?m > 0" using True by simp
    have "sum_list (map (\<lambda>x. x / ?m) (residual p d)) = sum_list (residual p d) / ?m"
      using sum_list_divide [of "\<lambda>x. x" ?m "residual p d"] by simp
    then have "draw_prob (residual_dist p d) x = residual p d ! x / reject_mass p d"
      using True m assms(4) r(1,2) by (simp add: draw_prob_def residual_dist_def Let_def)
    with True am r(3) [OF assms(4)] show ?thesis by simp
  next
    case False
    have nn: "0 \<le> residual p d ! y" if "y < length p" for y
      using r(3) [OF that] by (simp add: min_def)
    have "(\<Sum>y < length p. residual p d ! y) = reject_mass p d"
      using r(1,2) by (simp add: sum_list_sum_nth atLeast0LessThan)
    moreover have "0 \<le> (\<Sum>y < length p. residual p d ! y)" using nn by (intro sum_nonneg) auto
    ultimately have z: "reject_mass p d = 0" "(\<Sum>y < length p. residual p d ! y) = 0" using False by auto
    then have "residual p d ! x = 0"
      using nn assms(4) sum_nonneg_eq_0_iff [of "{..<length p}" "(!) (residual p d)"] by simp
    with am z r(3) [OF assms(4)] show ?thesis by simp
  qed
qed

text \<open>
  The probability that a step with \<open>K\<close> drafts commits exactly \<open>w\<close>: every token but the last is an
  accepted draft, the last is a redraw (fewer than \<open>K\<close> accepted) or the bonus. \<open>lm\<close> is the target's
  scores and \<open>dm\<close> the draft's distribution after a context.
\<close>

fun commit_mass ::
    "(nat list \<Rightarrow> real list) \<Rightarrow> (nat list \<Rightarrow> real list) \<Rightarrow> nat \<Rightarrow> nat list \<Rightarrow> nat list \<Rightarrow> real" where
  "commit_mass lm dm K ctx [] = 0"
| "commit_mass lm dm 0 ctx [x] = draw_prob (softmax (lm ctx)) x"
| "commit_mass lm dm (Suc K) ctx [x] =
     reject_mass (softmax (lm ctx)) (dm ctx) * draw_prob (residual_dist (softmax (lm ctx)) (dm ctx)) x"
| "commit_mass lm dm 0 ctx (x # y # w) = 0"
| "commit_mass lm dm (Suc K) ctx (x # y # w) =
     accept_mass (softmax (lm ctx)) (dm ctx) x * commit_mass lm dm K (ctx @ [x]) (y # w)"

primrec ar_prob :: "(nat list \<Rightarrow> real list) \<Rightarrow> nat list \<Rightarrow> nat list \<Rightarrow> real" where
  "ar_prob lm ctx [] = 1"
| "ar_prob lm ctx (x # w) = softmax (lm ctx) ! x * ar_prob lm (ctx @ [x]) w"

lemma commit_mass_sum:
  assumes "\<And>c. length (lm c) = V \<and> length (dm c) = V \<and> is_dist (dm c)" "V > 0"
  shows "length w = K + 1 \<Longrightarrow> \<forall>x \<in> set w. x < V \<Longrightarrow>
    (\<Sum>n = 1..K + 1. commit_mass lm dm K ctx (take n w) * ar_prob lm (ctx @ take n w) (drop n w)) = ar_prob lm ctx w"
proof (induction K arbitrary: ctx w)
  have dist: "is_dist (softmax (lm c)) \<and> length (softmax (lm c)) = V" for c
  proof -
    have "lm c \<noteq> []" using assms by (metis length_0_conv less_irrefl)
    then show ?thesis using assms softmax_is_dist [of "lm c"] softmax_dist(1) [of "lm c"] by auto
  qed
  {
    case 0
    then obtain x where "w = [x]" by (cases w) auto
    with dist [of ctx] show ?case by (simp add: draw_prob_def is_dist_def)
  next
    case (Suc K)
    then obtain x y w' where w: "w = x # y # w'" by (cases w; cases "tl w") auto
    let ?p = "softmax (lm ctx)" and ?d = "dm ctx" and ?v = "y # w'"
    have x: "accept_mass ?p ?d x + reject_mass ?p ?d * draw_prob (residual_dist ?p ?d) x = ?p ! x"
      using dist [of ctx] assms(1) [of ctx] Suc.prems(2) w by (intro one_slot_exact) auto
    have "(\<Sum>n = 1..Suc K + 1. commit_mass lm dm (Suc K) ctx (take n w) * ar_prob lm (ctx @ take n w) (drop n w))
      = commit_mass lm dm (Suc K) ctx (take 1 w) * ar_prob lm (ctx @ take 1 w) (drop 1 w)
        + (\<Sum>n = 1..K + 1. commit_mass lm dm (Suc K) ctx (take (Suc n) w) * ar_prob lm (ctx @ take (Suc n) w) (drop (Suc n) w))"
      by (simp add: sum.atLeast_Suc_atMost sum.shift_bounds_cl_Suc_ivl del: sum.cl_ivl_Suc)
    also have "(\<Sum>n = 1..K + 1. commit_mass lm dm (Suc K) ctx (take (Suc n) w) * ar_prob lm (ctx @ take (Suc n) w) (drop (Suc n) w))
      = (\<Sum>n = 1..K + 1. accept_mass ?p ?d x * (commit_mass lm dm K (ctx @ [x]) (take n ?v) * ar_prob lm ((ctx @ [x]) @ take n ?v) (drop n ?v)))"
    proof (rule sum.cong [OF refl])
      fix n assume "n \<in> {1..K + 1}"
      then obtain k where "n = Suc k" by (cases n) auto
      then show "commit_mass lm dm (Suc K) ctx (take (Suc n) w) * ar_prob lm (ctx @ take (Suc n) w) (drop (Suc n) w)
        = accept_mass ?p ?d x * (commit_mass lm dm K (ctx @ [x]) (take n ?v) * ar_prob lm ((ctx @ [x]) @ take n ?v) (drop n ?v))"
        by (simp add: w)
    qed
    also have "\<dots> = accept_mass ?p ?d x * ar_prob lm (ctx @ [x]) ?v"
    proof -
      have "(\<Sum>n = 1..K + 1. commit_mass lm dm K (ctx @ [x]) (take n ?v) * ar_prob lm ((ctx @ [x]) @ take n ?v) (drop n ?v))
        = ar_prob lm (ctx @ [x]) ?v"
        using Suc.prems w by (intro Suc.IH) auto
      then show ?thesis by (simp only: sum_distrib_left [symmetric])
    qed
    also have "commit_mass lm dm (Suc K) ctx (take 1 w) * ar_prob lm (ctx @ take 1 w) (drop 1 w)
      = reject_mass ?p ?d * draw_prob (residual_dist ?p ?d) x * ar_prob lm (ctx @ [x]) ?v"
      by (simp add: w)
    also have "reject_mass ?p ?d * draw_prob (residual_dist ?p ?d) x * ar_prob lm (ctx @ [x]) ?v
        + accept_mass ?p ?d x * ar_prob lm (ctx @ [x]) ?v = ar_prob lm ctx w"
      unfolding w using x by (simp add: algebra_simps flip: x)
    finally show ?case .
  }
qed

section \<open>Vectorised scan and reference scan\<close>

text \<open>A generator whose uniform draws are listed in advance and whose multinomial draw is the function
  \<open>m\<close> of the weights.\<close>

definition listed_rand :: "real list \<Rightarrow> real \<times> real list" where
  "listed_rand us = (hd us, tl us)"

definition listed_multi :: "(real list \<Rightarrow> int) \<Rightarrow> real list \<Rightarrow> real list \<Rightarrow> int \<times> real list" where
  "listed_multi m ws us = (m ws, us)"

definition slot_ok :: "real list \<Rightarrow> real \<Rightarrow> nat \<Rightarrow> real list \<Rightarrow> bool" where
  "slot_ok p u x d = (0 \<le> u \<and> u < 1 \<and> 0 < d ! x \<and> u \<noteq> p ! x / d ! x)"

lemma slot_ok_decision:
  assumes "slot_ok p u x d"
  shows "u * d ! x \<le> p ! x \<longleftrightarrow> u < accept_threshold p d x"
proof -
  have d: "0 < d ! x" "u < 1" "u \<noteq> p ! x / d ! x" using assms by (auto simp: slot_ok_def)
  have "u * d ! x \<le> p ! x \<longleftrightarrow> u \<le> p ! x / d ! x" using d(1) by (simp add: pos_le_divide_eq)
  also have "\<dots> \<longleftrightarrow> u < p ! x / d ! x" using d(3) by auto
  also have "\<dots> \<longleftrightarrow> u < accept_threshold p d x" using d(2) by (simp add: accept_threshold_def)
  finally show ?thesis .
qed

lemma scan_matches:
  assumes scale: "\<And>c ws. 0 < c \<Longrightarrow> m (map (\<lambda>x. x * c) ws) = (m ws :: int)"
  shows "length dprobs = length drafts \<Longrightarrow> length logits = length drafts + 1 \<Longrightarrow> length us = length drafts \<Longrightarrow>
    (\<And>i. i < length drafts \<Longrightarrow> slot_ok (softmax (logits ! i)) (us ! i) (drafts ! i) (dprobs ! i)) \<Longrightarrow>
    (L, dws) = sampling_row us drafts dprobs logits \<Longrightarrow>
    fst (sampling_scan listed_rand (listed_multi m) drafts dprobs logits us) = map int (take L drafts) @ [m dws]"
proof (induction drafts arbitrary: dprobs logits us L dws)
  case Nil
  then obtain l where "logits = [l]" by (cases logits) auto
  with Nil show ?case by (simp add: sampling_row_result prefix_len_def listed_multi_def)
next
  case (Cons x xs)
  then obtain d ds l ls u us' where e: "dprobs = d # ds" "logits = l # ls" "us = u # us'"
    by (cases dprobs; cases logits; cases us) auto
  let ?p = "softmax l"
  let ?P = "\<lambda>i. us ! i < accept_threshold (softmax (logits ! i)) (dprobs ! i) ((x # xs) ! i)"
  let ?Q = "\<lambda>i. us' ! i < accept_threshold (softmax (ls ! i)) (ds ! i) (xs ! i)"
  have ok: "slot_ok ?p u x d" using Cons.prems(4) [of 0] e by simp
  have lens: "length ds = length xs" "length ls = length xs + 1" "length us' = length xs"
    using Cons.prems(1-3) e by auto
  show ?case
  proof (cases "u < accept_threshold ?p d x")
    case True
    have P: "prefix_len ?P (length (x # xs)) = Suc (prefix_len ?Q (length xs))"
    proof (rule prefix_len_eqI)
      fix i assume "i < Suc (prefix_len ?Q (length xs))"
      then show "?P i" using True e prefix_len_all [of "i - 1" ?Q "length xs"] by (cases i) auto
    next
      assume "Suc (prefix_len ?Q (length xs)) < length (x # xs)"
      then show "\<not> ?P (Suc (prefix_len ?Q (length xs)))" using e prefix_len_stop [of ?Q "length xs"] by simp
    qed (simp add: prefix_len_le)
    have L: "L = Suc (prefix_len ?Q (length xs))"
      using sampling_row_result [OF Cons.prems(1,2), of us] Cons.prems(5) P by simp
    have rest: "sampling_row us' xs ds ls = (prefix_len ?Q (length xs), dws)"
      using sampling_row_result [OF Cons.prems(1,2), of us] Cons.prems(5) P
        sampling_row_result [OF lens(1,2), of us'] e by auto
    have "slot_ok (softmax (ls ! i)) (us' ! i) (xs ! i) (ds ! i)" if "i < length xs" for i
      using Cons.prems(4) [of "Suc i"] that e by simp
    from Cons.IH [OF lens this rest [symmetric]] obtain g' where
      "sampling_scan listed_rand (listed_multi m) xs ds ls us' = (map int (take (prefix_len ?Q (length xs)) xs) @ [m dws], g')"
      by (metis prod.collapse)
    moreover have "listed_rand us = (u, us')" by (simp add: e listed_rand_def)
    ultimately show ?thesis using True slot_ok_decision [OF ok] by (simp add: e(1,2) L Let_def)
  next
    case False
    have P: "prefix_len ?P (length (x # xs)) = 0"
      using False e by (intro prefix_len_eqI) auto
    have L: "L = 0" "dws = residual_dist ?p d"
      using sampling_row_result [OF Cons.prems(1,2), of us] Cons.prems(5) P e by auto
    have dws: "m (if 0 < sum_list (residual ?p d) then map (\<lambda>a. a / sum_list (residual ?p d)) (residual ?p d) else ?p) = m dws"
    proof (cases "0 < sum_list (residual ?p d)")
      case pos: True
      let ?t = "sum_list (residual ?p d)"
      have "m (map (\<lambda>x. x * (1 / ?t)) (residual ?p d)) = m (map (\<lambda>x. x * (1 / max ?t (1 / 10 ^ 12))) (residual ?p d))"
        using scale [of "1 / ?t" "residual ?p d"] scale [of "1 / max ?t (1 / 10 ^ 12)" "residual ?p d"] pos by simp
      then show ?thesis using pos by (simp add: L(2) residual_dist_def Let_def)
    qed (simp add: L(2) residual_dist_def Let_def)
    with False slot_ok_decision [OF ok] e L show ?thesis
      by (auto simp: listed_rand_def listed_multi_def Let_def split: prod.splits)
  qed
qed

section \<open>Properties\<close>

text \<open>The committed row \<open>(out, L + 1)\<close>: the longest prefix of drafts that are the arg max of their
  rows, then the arg max of the next row, then padding.\<close>

definition greedy_commit :: "int list \<Rightarrow> 'v::linorder list list \<Rightarrow> int list \<times> nat \<Rightarrow> bool" where
  "greedy_commit draft logits r =
     (\<exists>L out. r = (out, L + 1) \<and> L \<le> length draft \<and> length out = length draft + 1 \<and>
        (\<forall>i < L. out ! i = draft ! i \<and> draft ! i = int (argmax (logits ! i))) \<and>
        out ! L = int (argmax (logits ! L)) \<and>
        (L < length draft \<longrightarrow> draft ! L \<noteq> int (argmax (logits ! L))) \<and>
        (\<forall>i. L < i \<and> i \<le> length draft \<longrightarrow> out ! i = - 1))"

lemma greedy_row_commit:
  assumes sh: "row_shape draft logits"
  shows "\<exists>r. greedy_row draft logits = Inr r \<and> greedy_commit draft logits r"
proof -
  have p: "picks_of logits ! i = int (argmax (logits ! i))" if "i \<le> length draft" for i
    using sh that by (simp add: picks_of_def row_shape_def)
  note f = accepted_len_facts [OF sh]
  define L where "L = accepted_len draft logits"
  define out where "out = map (\<lambda>i. if i < L + 1 then picks_of logits ! i else - 1) [0..<length draft + 1]"
  have L: "L \<le> length draft" using f(1) by (simp add: L_def)
  have nth: "out ! i = (if i < L + 1 then picks_of logits ! i else - 1)" if "i \<le> length draft" for i
    using that by (simp add: out_def del: upt_Suc)
  have 1: "out ! i = draft ! i \<and> draft ! i = int (argmax (logits ! i))" if "i < L" for i
    using that L nth [of i] f(2) [of i] p [of i] by (simp add: L_def)
  have 2: "out ! L = int (argmax (logits ! L))" using nth [OF L] p [OF L] by simp
  have "greedy_commit draft logits (out, L + 1)"
    unfolding greedy_commit_def
  proof (intro exI conjI allI impI)
    show "L < length draft \<Longrightarrow> draft ! L \<noteq> int (argmax (logits ! L))" using f(3) by (simp add: L_def)
    show "length out = length draft + 1" by (simp add: out_def)
  qed (use L nth 1 2 in auto)
  with greedy_row_result [OF sh] show ?thesis by (auto simp: out_def L_def simp del: upt_Suc)
qed

text \<open>C21: The vectorised greedy accept/reject equals the loop reference on every batch of the
  documented shape, and on each row returns the accepted drafts, then the target's own choice, then
  \<open>-1\<close> padding: the accepted prefix is the longest on which every draft is the arg max of its row.\<close>

theorem greedy_matches_reference:
  assumes "list_all2 row_shape drafts logits"
  shows "accept_reject_greedy drafts logits = accept_reject_greedy_reference drafts logits \<and>
    (\<exists>rows. accept_reject_greedy drafts logits = Inr rows \<and>
       list_all2 (\<lambda>(draft, l) r. greedy_commit draft l r) (zip drafts logits) rows)"
proof -
  have shape: "row_shape d l" if "(d, l) \<in> set (zip drafts logits)" for d l
    using assms that by (auto simp: list_all2_iff)
  have "accept_reject_greedy_reference drafts logits = accept_reject_greedy drafts logits"
    unfolding accept_reject_greedy_def accept_reject_greedy_reference_def
    by (rule omap_cong) (use shape greedy_row_reference_result in auto)
  moreover have "\<exists>rows. accept_reject_greedy drafts logits = Inr rows \<and>
      list_all2 (\<lambda>(draft, l) r. greedy_commit draft l r) (zip drafts logits) rows"
    unfolding accept_reject_greedy_def
  proof (rule omap_all2)
    fix x assume "x \<in> set (zip drafts logits)"
    moreover obtain d l where "x = (d, l)" by (cases x)
    ultimately show "\<exists>y. (case x of (d, l) \<Rightarrow> greedy_row d l) = Inr y \<and> (case x of (d, l) \<Rightarrow> greedy_commit d l) y"
      using greedy_row_commit [OF shape] by simp
  qed
  ultimately show ?thesis by simp
qed

definition example_drafts :: "int list list" where
  "example_drafts = [[2, 0, 1]]"

definition example_rows :: "int list list list" where
  "example_rows = [[[0, 1, 5], [7, 1, 2], [9, 3, 4], [0, 0, 1]]]"

theorem greedy_matches_reference_witness:
  "accept_reject_greedy example_drafts example_rows = Inr [([2, 0, 0, - 1], 3)]"
proof -
  have "accept_reject_greedy_reference example_drafts example_rows = Inr [([2, 0, 0, - 1], 3)]"
    by code_simp
  moreover have "list_all2 row_shape example_drafts example_rows"
    by (simp add: row_shape_def example_drafts_def example_rows_def)
  ultimately show ?thesis using greedy_matches_reference [of example_drafts example_rows] by simp
qed




definition first_positive :: "real list \<Rightarrow> int" where
  "first_positive ws = int (length (takeWhile (\<lambda>x. x \<le> 0) ws))"


end
