(* ===== verification/SpecRunner.thy ===== *)
theory SpecRunner
  imports Speculative FlashInfer
begin

text \<open>
  Chain speculative decoding over two model runners (\<open>executors/torch/spec_runner.py\<close>): the tracks
  with their lazily created staging, the construction of a model input, \<open>prefill\<close>, the
  draft-then-verify \<open>step\<close> and \<open>generate\<close>. A Python exception ends the call that raised it; the state
  an engine is left in after one is not modelled. The event that fences the pinned staging against
  copies in flight orders device work and has no counterpart here.
\<close>

section \<open>State\<close>

text \<open>
  A model runner as the engine uses it: \<open>forward\<close> and, when the runner has one,
  \<open>try_decode_cuda_graph\<close>, which returns no logits when no graph applies. The runner's own state
  (its cache) is threaded explicitly.
\<close>

record ('c, 'v) runner =
  forward :: "model_input \<Rightarrow> 'c \<Rightarrow> ('v list list \<times> 'c) outcome"
  try_decode_cuda_graph :: "(model_input \<Rightarrow> 'c \<Rightarrow> ('v list list option \<times> 'c) outcome) option"

record spec_stats =
  st_steps :: nat
  st_proposed :: nat
  st_accepted :: nat
  st_committed :: nat

definition accept_rate :: "spec_stats \<Rightarrow> real" where
  "accept_rate s = (if st_proposed s \<noteq> 0 then real (st_accepted s) / real (st_proposed s) else 0)"

record csr_staging =
  cs_qo_indptr :: "int list"
  cs_kv_indptr :: "int list"
  cs_last_page_len :: "int list"
  cs_kv_indices :: "int list"

record step_buffers =
  sb_token :: "int list"
  sb_position :: "int list"
  sb_slot :: "int list"
  sb_query_start_loc :: "int list"
  sb_context_lens :: "int list"
  sb_is_decode_only :: bool

record ('c, 'v) track =
  tr_runner :: "('c, 'v) runner"
  tr_state :: 'c
  tr_block_table :: "int list"
  tr_context_len :: nat
  tr_pending_token :: int
  tr_proposal_logits :: "'v list list"
  tr_block_tables_dev :: "int list list option"
  tr_buffers :: "nat \<Rightarrow> step_buffers option"
  tr_csr :: "csr_staging option"

record ('c, 'd, 'v) engine =
  en_block_len :: nat
  en_num_spec_tokens :: nat
  en_target :: "('c, 'v) track"
  en_draft :: "('d, 'v) track"
  en_stats :: spec_stats

definition new_track :: "('c, 'v) runner \<Rightarrow> 'c \<Rightarrow> nat \<Rightarrow> ('c, 'v) track" where
  "new_track rn c pages =
     \<lparr> tr_runner = rn, tr_state = c, tr_block_table = map int [0..<pages], tr_context_len = 0,
       tr_pending_token = - 1, tr_proposal_logits = [], tr_block_tables_dev = None,
       tr_buffers = (\<lambda>_. None), tr_csr = None \<rparr>"

definition engine_init ::
    "('c, 'v) runner \<Rightarrow> 'c \<Rightarrow> ('d, 'v) runner \<Rightarrow> 'd \<Rightarrow> nat \<Rightarrow> nat \<Rightarrow> int \<Rightarrow> ('c, 'd, 'v) engine outcome" where
  "engine_init target c draft d bl nb k =
     require (1 \<le> k) (ValueError ''num_spec_tokens must be >= 1'')
       (Inr \<lparr> en_block_len = bl, en_num_spec_tokens = nat k,
              en_target = new_track target c nb, en_draft = new_track draft d (nb - 1),
              en_stats = \<lparr> st_steps = 0, st_proposed = 0, st_accepted = 0, st_committed = 0 \<rparr> \<rparr>)"

section \<open>Model inputs\<close>

definition ensure_track_constants :: "('c, 'v) track \<Rightarrow> csr_staging \<times> ('c, 'v) track" where
  "ensure_track_constants t =
     (let arange = map int [0..<length (tr_block_table t)];
          t1 = (case tr_block_tables_dev t of None \<Rightarrow> t\<lparr> tr_block_tables_dev := Some [arange] \<rparr> | Some _ \<Rightarrow> t)
      in case tr_csr t1 of
           Some csr \<Rightarrow> (csr, t1)
         | None \<Rightarrow>
             (let csr = \<lparr> cs_qo_indptr = [0, 0], cs_kv_indptr = [0, 0], cs_last_page_len = [0],
                          cs_kv_indices = arange \<rparr>
              in (csr, t1\<lparr> tr_csr := Some csr \<rparr>)))"

text \<open>The buffers for \<open>n\<close> packed tokens, created on first use; \<open>junk\<close> is what \<open>torch.empty\<close> holds.\<close>

definition new_buffers :: "int \<Rightarrow> nat \<Rightarrow> step_buffers" where
  "new_buffers junk n =
     \<lparr> sb_token = replicate n junk, sb_position = replicate n junk, sb_slot = replicate n junk,
       sb_query_start_loc = [0, int n], sb_context_lens = [junk], sb_is_decode_only = (n = 1) \<rparr>"

definition fill_buffers :: "int list \<Rightarrow> nat \<Rightarrow> nat \<Rightarrow> int list \<Rightarrow> step_buffers \<Rightarrow> step_buffers" where
  "fill_buffers toks start end slots b =
     b\<lparr> sb_context_lens := map (\<lambda>_. int end) (sb_context_lens b), sb_token := toks,
        sb_position := map int [start..<end], sb_slot := slots \<rparr>"

definition make_input ::
    "int \<Rightarrow> nat \<Rightarrow> ('c, 'v) track \<Rightarrow> int list \<Rightarrow> (model_input \<times> ('c, 'v) track) outcome" where
  "make_input junk bl t toks =
     (let n = length toks; start = tr_context_len t; end = start + n; pages = ceil_div end bl in
      require (bl \<noteq> 0) ZeroDivisionError
     (require (pages \<le> length (tr_block_table t)) (RuntimeError ''speculative cache capacity exceeded'')
       (let buf = (case tr_buffers t n of None \<Rightarrow> new_buffers junk n | Some b \<Rightarrow> b);
            (csr0, t1) = ensure_track_constants t;
            csr = csr0\<lparr> cs_qo_indptr := (cs_qo_indptr csr0)[1 := int n],
                        cs_kv_indptr := (cs_kv_indptr csr0)[1 := int pages],
                        cs_last_page_len := (cs_last_page_len csr0)[0 := int end - (int pages - 1) * int bl] \<rparr>
        in obind (omap (slot_of (tr_block_table t) bl) [start..<end]) (\<lambda>slots.
             let b = fill_buffers toks start end slots buf
             in Inr (\<lparr> mi_input_token_ids = sb_token b, mi_position = sb_position b,
                       mi_slot_mapping = sb_slot b, mi_query_start_loc = sb_query_start_loc b,
                       mi_block_tables = (case tr_block_tables_dev t1 of None \<Rightarrow> [] | Some d \<Rightarrow> d),
                       mi_context_lens = sb_context_lens b,
                       mi_query_start_loc_host = [0, n], mi_context_lens_host = [end],
                       mi_flashinfer_csr = Some (cs_qo_indptr csr, cs_kv_indptr csr,
                                                 take pages (cs_kv_indices csr), cs_last_page_len csr),
                       mi_is_decode_only = sb_is_decode_only b, mi_packed_mask = None \<rparr>,
                     t1\<lparr> tr_buffers := (tr_buffers t1)(n \<mapsto> b), tr_csr := Some csr \<rparr>)))))"

section \<open>Sampling\<close>

text \<open>What \<open>_pick\<close> and \<open>step\<close> draw with when not greedy: a token from a row, the draft's
  probabilities of a row, and the accept/reject kernel.\<close>

record ('v, 'g) sampling_ops =
  draw_token :: "'v list \<Rightarrow> 'g \<Rightarrow> int \<times> 'g"
  row_probs :: "'v list \<Rightarrow> real list"
  accept_rows :: "nat list list \<Rightarrow> real list list list \<Rightarrow> 'v list list list \<Rightarrow> 'g \<Rightarrow> (int list \<times> nat) list \<times> 'g"

definition torch_sampling ::
    "(nat \<Rightarrow> nat \<Rightarrow> 'g \<Rightarrow> real list list \<times> 'g) \<Rightarrow> (real list list \<Rightarrow> 'g \<Rightarrow> int list \<times> 'g) \<Rightarrow> (real, 'g) sampling_ops" where
  "torch_sampling rand multi =
     \<lparr> draw_token = (\<lambda>row g. let (ts, g') = multi [softmax row] g in (hd ts, g')),
       row_probs = softmax, accept_rows = accept_reject_sampling rand multi \<rparr>"

definition pick :: "('v::linorder, 'g) sampling_ops \<Rightarrow> bool \<Rightarrow> 'v list \<Rightarrow> 'g \<Rightarrow> (int \<times> 'g) outcome" where
  "pick sm greedy row g =
     (if greedy then obind (torch_argmax row) (\<lambda>t. Inr (t, g)) else Inr (draw_token sm row g))"

section \<open>Phases\<close>

text \<open>One forward of a track over \<open>_make_input\<close>.\<close>

definition track_forward ::
    "int \<Rightarrow> nat \<Rightarrow> ('c, 'v) track \<Rightarrow> int list \<Rightarrow> ('v list list \<times> ('c, 'v) track) outcome" where
  "track_forward junk bl t toks =
     obind (make_input junk bl t toks) (\<lambda>(mi, t1).
     obind (forward (tr_runner t1) mi (tr_state t1)) (\<lambda>(rows, c).
       Inr (rows, t1\<lparr> tr_state := c \<rparr>)))"

definition prefill ::
    "int \<Rightarrow> ('v::linorder, 'g) sampling_ops \<Rightarrow> bool \<Rightarrow> int list \<Rightarrow> ('c, 'd, 'v, 'z) engine_scheme \<Rightarrow> 'g
       \<Rightarrow> (int \<times> ('c, 'd, 'v, 'z) engine_scheme \<times> 'g) outcome" where
  "prefill junk sm greedy prompt e g =
     require (prompt \<noteq> []) (ValueError ''prompt must be non-empty'')
       (obind (track_forward junk (en_block_len e) (en_target e) prompt) (\<lambda>(rows, t).
        obind (py_nth rows (- 1)) (\<lambda>row.
        obind (pick sm greedy row g) (\<lambda>(first, g1).
          let t' = t\<lparr> tr_context_len := length prompt, tr_pending_token := first \<rparr> in
          obind (track_forward junk (en_block_len e) (en_draft e) prompt) (\<lambda>(_, d).
            let d' = d\<lparr> tr_context_len := length prompt, tr_pending_token := first \<rparr>
            in Inr (first, e\<lparr> en_target := t', en_draft := d' \<rparr>, g1))))))"

definition draft_decode_forward ::
    "int \<Rightarrow> nat \<Rightarrow> ('d, 'v) track \<Rightarrow> int \<Rightarrow> ('v list list \<times> ('d, 'v) track) outcome" where
  "draft_decode_forward junk bl d token =
     obind (make_input junk bl d [token]) (\<lambda>(mi, d1).
       let eager = (\<lambda>c. obind (forward (tr_runner d1) mi c) (\<lambda>(rows, c'). Inr (rows, d1\<lparr> tr_state := c' \<rparr>)))
       in case try_decode_cuda_graph (tr_runner d1) of
            None \<Rightarrow> eager (tr_state d1)
          | Some try \<Rightarrow>
              obind (try mi (tr_state d1)) (\<lambda>(out, c).
                case out of Some rows \<Rightarrow> Inr (rows, d1\<lparr> tr_state := c \<rparr>) | None \<Rightarrow> eager c))"

text \<open>The body of the draft loop; the last of its \<open>K + 1\<close> passes only writes the cache.\<close>

definition draft_pass ::
    "int \<Rightarrow> ('v::linorder, 'g) sampling_ops \<Rightarrow> bool \<Rightarrow> nat \<Rightarrow> nat \<Rightarrow> nat
       \<Rightarrow> ('d, 'v) track \<times> int \<times> int list \<times> 'g \<Rightarrow> (('d, 'v) track \<times> int \<times> int list \<times> 'g) outcome" where
  "draft_pass junk sm greedy bl k i s =
     (case s of (d, token, proposals, g) \<Rightarrow>
        obind (draft_decode_forward junk bl d token) (\<lambda>(rows, d1).
          let d2 = d1\<lparr> tr_context_len := tr_context_len d1 + 1 \<rparr> in
          if i < k
          then obind (py_nth rows (- 1)) (\<lambda>logits.
                 let d3 = d2\<lparr> tr_proposal_logits := tr_proposal_logits d2 @ [logits] \<rparr> in
                 obind (pick sm greedy logits g) (\<lambda>(t, g1). Inr (d3, t, proposals @ [t], g1)))
          else Inr (d2, token, proposals, g)))"

definition accept_reject ::
    "('v::linorder, 'g) sampling_ops \<Rightarrow> bool \<Rightarrow> int list \<Rightarrow> 'v list list \<Rightarrow> 'v list list \<Rightarrow> 'g
       \<Rightarrow> ((int list \<times> nat) \<times> 'g) outcome" where
  "accept_reject sm greedy proposals proposal_logits target_logits g =
     (if greedy
      then obind (accept_reject_greedy [proposals] [target_logits]) (\<lambda>rows.
             obind (onth rows 0) (\<lambda>row. Inr (row, g)))
      else (let draft_probs = map (row_probs sm) proposal_logits;
                (rows, g1) = accept_rows sm [map nat proposals] [draft_probs] [target_logits] g
            in obind (onth rows 0) (\<lambda>row. Inr (row, g1))))"

definition bump_stats :: "nat \<Rightarrow> nat \<Rightarrow> nat \<Rightarrow> spec_stats \<Rightarrow> spec_stats" where
  "bump_stats proposed accepted committed s =
     s\<lparr> st_steps := st_steps s + 1, st_proposed := st_proposed s + proposed,
        st_accepted := st_accepted s + accepted, st_committed := st_committed s + committed \<rparr>"

definition step ::
    "int \<Rightarrow> ('v::linorder, 'g) sampling_ops \<Rightarrow> bool \<Rightarrow> ('c, 'd, 'v) engine \<Rightarrow> 'g
       \<Rightarrow> (int list \<times> ('c, 'd, 'v) engine \<times> 'g) outcome" where
  "step junk sm greedy e g =
     (let k = en_num_spec_tokens e; bl = en_block_len e;
          d0 = (en_draft e)\<lparr> tr_proposal_logits := [] \<rparr>
      in obind (ofold (draft_pass junk sm greedy bl k) [0..<k + 1] (d0, tr_pending_token d0, [], g))
           (\<lambda>(d, _, proposals, g1).
         obind (track_forward junk bl (en_target e) (tr_pending_token (en_target e) # proposals)) (\<lambda>(rows, t).
           let target_logits = drop (length rows - (k + 1)) rows in
           obind (accept_reject sm greedy proposals (tr_proposal_logits d) target_logits g1) (\<lambda>((tokens, n), g2).
             let committed = take n tokens; num_accepted = n - 1 in
             obind (py_nth committed (- 1)) (\<lambda>pending.
               Inr (committed,
                    e\<lparr> en_target := t\<lparr> tr_context_len := tr_context_len t + (1 + num_accepted),
                                       tr_pending_token := pending \<rparr>,
                       en_draft := d\<lparr> tr_context_len := tr_context_len d - (k - num_accepted),
                                      tr_pending_token := pending \<rparr>,
                       en_stats := bump_stats k num_accepted n (en_stats e) \<rparr>, g2))))))"

text \<open>The commit loop of \<open>generate\<close>: tokens are appended one by one; \<open>True\<close> when one of them is the
  end of sequence and the call returns.\<close>

fun absorb :: "int option \<Rightarrow> int list \<Rightarrow> int list \<Rightarrow> int list \<times> bool" where
  "absorb eos generated [] = (generated, False)"
| "absorb eos generated (t # ts) =
     (if eos = Some t then (generated @ [t], True) else absorb eos (generated @ [t]) ts)"

text \<open>\<open>while len(generated) < max_new_len\<close> over a \<open>step\<close> method, which \<open>TreeSpeculativeEngine\<close>
  overrides; \<open>None\<close> is a step or a loop that does not end.\<close>

partial_function (option) generate_loop ::
    "('e \<Rightarrow> 'g \<Rightarrow> (int list \<times> 'e \<times> 'g) outcome option) \<Rightarrow> int option \<Rightarrow> nat \<Rightarrow> int list \<Rightarrow> 'e \<Rightarrow> 'g
       \<Rightarrow> (int list \<times> 'e \<times> 'g) outcome option" where
  "generate_loop stp eos max_new generated e g =
     (if length generated < max_new
      then (case stp e g of
              None \<Rightarrow> None
            | Some (Inl err) \<Rightarrow> Some (Inl err)
            | Some (Inr (committed, e1, g1)) \<Rightarrow>
                (case absorb eos generated committed of
                   (generated1, stop) \<Rightarrow>
                     (if stop then Some (Inr (take max_new generated1, e1, g1))
                      else generate_loop stp eos max_new generated1 e1 g1)))
      else Some (Inr (take max_new generated, e, g)))"

definition generate_with ::
    "('e \<Rightarrow> 'g \<Rightarrow> (int \<times> 'e \<times> 'g) outcome) \<Rightarrow> ('e \<Rightarrow> 'g \<Rightarrow> (int list \<times> 'e \<times> 'g) outcome option)
       \<Rightarrow> int \<Rightarrow> int option \<Rightarrow> 'e \<Rightarrow> 'g \<Rightarrow> (int list \<times> 'e \<times> 'g) outcome option" where
  "generate_with pre stp max_new eos e g =
     (if max_new < 1 then Some (Inl (ValueError ''max_new_len must be positive''))
      else (case pre e g of
              Inl err \<Rightarrow> Some (Inl err)
            | Inr (first, e1, g1) \<Rightarrow> generate_loop stp eos (nat max_new) [first] e1 g1))"

definition generate ::
    "int \<Rightarrow> ('v::linorder, 'g) sampling_ops \<Rightarrow> bool \<Rightarrow> int list \<Rightarrow> int \<Rightarrow> int option \<Rightarrow> ('c, 'd, 'v) engine \<Rightarrow> 'g
       \<Rightarrow> (int list \<times> ('c, 'd, 'v) engine \<times> 'g) outcome option" where
  "generate junk sm greedy prompt max_new eos e g =
     generate_with (prefill junk sm greedy prompt) (\<lambda>e g. Some (step junk sm greedy e g)) max_new eos e g"

section \<open>Inputs are those of the batch builder\<close>

text \<open>The lazily created constants of a track, once and for all.\<close>

definition track_ok :: "nat \<Rightarrow> ('c, 'v) track \<Rightarrow> bool" where
  "track_ok pages t =
     (tr_block_table t = map int [0..<pages] \<and>
      tr_block_tables_dev t \<in> {None, Some [map int [0..<pages]]} \<and>
      (\<forall>n b. tr_buffers t n = Some b \<longrightarrow> sb_query_start_loc b = [0, int n] \<and> length (sb_context_lens b) = 1) \<and>
      (\<forall>csr. tr_csr t = Some csr \<longrightarrow>
         (\<exists>q p l. cs_qo_indptr csr = [0, q] \<and> cs_kv_indptr csr = [0, p] \<and> cs_last_page_len csr = [l]) \<and>
         cs_kv_indices csr = map int [0..<pages]))"

text \<open>The two tracks agree but for the staging a forward may touch.\<close>

definition same_books :: "('c, 'v) track \<Rightarrow> ('c, 'v) track \<Rightarrow> bool" where
  "same_books t t' =
     (tr_runner t' = tr_runner t \<and> tr_block_table t' = tr_block_table t \<and> tr_context_len t' = tr_context_len t \<and>
      tr_pending_token t' = tr_pending_token t \<and> tr_proposal_logits t' = tr_proposal_logits t)"

lemma track_ok_new [simp]: "track_ok pages (new_track rn c pages)"
  by (simp add: track_ok_def new_track_def)

lemma track_ok_update [simp]:
  "track_ok pages (t\<lparr> tr_state := c \<rparr>) = track_ok pages t"
  "track_ok pages (t\<lparr> tr_context_len := n \<rparr>) = track_ok pages t"
  "track_ok pages (t\<lparr> tr_pending_token := p \<rparr>) = track_ok pages t"
  "track_ok pages (t\<lparr> tr_proposal_logits := l \<rparr>) = track_ok pages t"
  by (simp_all add: track_ok_def)

text \<open>The staged input, once every position has a page.\<close>

definition chunk_csr :: "nat \<Rightarrow> nat \<Rightarrow> nat \<Rightarrow> int list \<times> int list \<times> int list \<times> int list" where
  "chunk_csr bl n end =
     ([0, int n], [0, int (ceil_div end bl)], map int [0..<ceil_div end bl], [int end - (int (ceil_div end bl) - 1) * int bl])"

lemma identity_slots:
  "bl > 0 \<Longrightarrow> ceil_div end bl \<le> pages \<Longrightarrow>
   omap (slot_of (map int [0..<pages]) bl) [start..<end] = Inr (map int [start..<end])"
proof (rule omap_Inr_map)
  fix p assume a: "bl > 0" "ceil_div end bl \<le> pages" "p \<in> set [start..<end]"
  then have "p div bl < pages" using div_less_ceil_div [of bl p "end"] by simp
  with a(1) show "slot_of (map int [0..<pages]) bl p = Inr (int p)" by (simp add: slot_at_identity)
qed

lemma make_input_ok:
  assumes t: "track_ok pages t" and bl: "bl > 0" and fits: "ceil_div (tr_context_len t + length toks) bl \<le> pages"
  shows "\<exists>mi t1. make_input junk bl t toks = Inr (mi, t1) \<and> track_ok pages t1 \<and> same_books t t1 \<and> tr_state t1 = tr_state t \<and>
    mi\<lparr> mi_is_decode_only := False \<rparr> =
      \<lparr> mi_input_token_ids = toks, mi_position = map int [tr_context_len t..<tr_context_len t + length toks],
        mi_slot_mapping = map int [tr_context_len t..<tr_context_len t + length toks],
        mi_query_start_loc = [0, int (length toks)], mi_block_tables = [map int [0..<pages]],
        mi_context_lens = [int (tr_context_len t + length toks)],
        mi_query_start_loc_host = [0, length toks], mi_context_lens_host = [tr_context_len t + length toks],
        mi_flashinfer_csr = Some (chunk_csr bl (length toks) (tr_context_len t + length toks)),
        mi_is_decode_only = False, mi_packed_mask = None \<rparr>"
proof -
  let ?n = "length toks" and ?s = "tr_context_len t"
  have tab: "tr_block_table t = map int [0..<pages]" using t by (simp add: track_ok_def)
  obtain csr0 t1 where ens: "ensure_track_constants t = (csr0, t1)" by force
  have t1: "tr_block_tables_dev t1 = Some [map int [0..<pages]]" "cs_kv_indices csr0 = map int [0..<pages]"
    "\<exists>q p l. cs_qo_indptr csr0 = [0, q] \<and> cs_kv_indptr csr0 = [0, p] \<and> cs_last_page_len csr0 = [l]"
    "tr_buffers t1 = tr_buffers t" "same_books t t1" "tr_state t1 = tr_state t"
    using ens t
    by (auto simp: ensure_track_constants_def Let_def track_ok_def same_books_def split: option.splits)
  define b0 where "b0 = (case tr_buffers t ?n of None \<Rightarrow> new_buffers junk ?n | Some b \<Rightarrow> b)"
  have buf: "sb_query_start_loc b0 = [0, int ?n]" "length (sb_context_lens b0) = 1"
    using t by (auto simp: b0_def track_ok_def new_buffers_def split: option.splits)
  obtain old where old: "sb_context_lens b0 = [old]"
    using buf(2) by (auto simp: length_Suc_conv)
  obtain q p l where ptrs: "cs_qo_indptr csr0 = [0, q]" "cs_kv_indptr csr0 = [0, p]" "cs_last_page_len csr0 = [l]"
    using t1(3) by auto
  let ?b = "fill_buffers toks ?s (?s + ?n) (map int [?s..<?s + ?n]) b0"
  let ?csr = "csr0\<lparr> cs_qo_indptr := [0, int ?n], cs_kv_indptr := [0, int (ceil_div (?s + ?n) bl)],
     cs_last_page_len := [int (?s + ?n) - (int (ceil_div (?s + ?n) bl) - 1) * int bl] \<rparr>"
  let ?t = "t1\<lparr> tr_buffers := (tr_buffers t1)(?n \<mapsto> ?b), tr_csr := Some ?csr \<rparr>"
  have "track_ok pages ?t"
    using t t1 buf old by (auto simp: track_ok_def same_books_def fill_buffers_def split: if_splits)
  moreover have "same_books t ?t" "tr_state ?t = tr_state t"
    using t1(5,6) by (simp_all add: same_books_def)
  moreover have "\<exists>mi. make_input junk bl t toks = Inr (mi, ?t) \<and> mi\<lparr> mi_is_decode_only := False \<rparr> =
      \<lparr> mi_input_token_ids = toks, mi_position = map int [?s..<?s + ?n], mi_slot_mapping = map int [?s..<?s + ?n],
        mi_query_start_loc = [0, int ?n], mi_block_tables = [map int [0..<pages]], mi_context_lens = [int (?s + ?n)],
        mi_query_start_loc_host = [0, ?n], mi_context_lens_host = [?s + ?n],
        mi_flashinfer_csr = Some (chunk_csr bl ?n (?s + ?n)), mi_is_decode_only = False, mi_packed_mask = None \<rparr>"
    using fits bl identity_slots [OF bl fits, of ?s] tab t1(1,2) ptrs old buf(1)
    by (simp add: make_input_def Let_def ens fill_buffers_def chunk_csr_def take_map b0_def [symmetric] min_def)
  ultimately show ?thesis by blast
qed

definition chunk_plan :: "nat \<Rightarrow> int list \<Rightarrow> int list \<Rightarrow> batch_plan" where
  "chunk_plan pages xs ys = \<lparr> step_id = 0, requests = [chunk_request pages xs ys] \<rparr>"

lemma plan_input_chunk:
  assumes "bl > 0" "ceil_div (length xs + length ys) bl \<le> pages"
  shows "plan_input (chunk_plan pages xs ys) bl =
      \<lparr> mi_input_token_ids = ys, mi_position = map int [length xs..<length xs + length ys],
        mi_slot_mapping = map int [length xs..<length xs + length ys],
        mi_query_start_loc = [0, int (length ys)], mi_block_tables = [map int [0..<pages]],
        mi_context_lens = [int (length xs + length ys)],
        mi_query_start_loc_host = [0, length ys], mi_context_lens_host = [length xs + length ys],
        mi_flashinfer_csr = None, mi_is_decode_only = False, mi_packed_mask = None \<rparr>"
proof -
  have "slots_at bl (chunk_request pages xs ys) = map int [length xs..<length xs + length ys]"
  proof (rule nth_equalityI)
    fix i assume "i < length (slots_at bl (chunk_request pages xs ys))"
    then have i: "i < length ys" by simp
    then have "(length xs + i) div bl < pages"
      using div_less_ceil_div [OF assms(1), of "length xs + i" "length xs + length ys"] assms(2) by simp
    with i show "slots_at bl (chunk_request pages xs ys) ! i = map int [length xs..<length xs + length ys] ! i"
      using slot_at_identity [OF assms(1)] by (simp add: slots_at_def)
  qed simp
  moreover have "request_positions (chunk_request pages xs ys) = map int [length xs..<length xs + length ys]"
    by (rule nth_equalityI) (simp_all add: request_positions_def)
  ultimately show ?thesis
    by (simp add: plan_input_def chunk_plan_def Let_def pad_row_def max_len_def)
qed

text \<open>A fed chunk as the engine hands it to a runner.\<close>

definition chunk_input :: "nat \<Rightarrow> nat \<Rightarrow> int list \<Rightarrow> int list \<Rightarrow> model_input \<Rightarrow> bool" where
  "chunk_input bl pages xs ys mi =
     (mi\<lparr> mi_flashinfer_csr := None, mi_is_decode_only := False \<rparr> = plan_input (chunk_plan pages xs ys) bl \<and>
      mi_flashinfer_csr mi = Some (chunk_csr bl (length ys) (length xs + length ys)))"

lemma make_input_chunk:
  assumes "track_ok pages t" "bl > 0" "ceil_div (length xs + length ys) bl \<le> pages" "tr_context_len t = length xs"
  shows "\<exists>mi t1. make_input junk bl t ys = Inr (mi, t1) \<and> track_ok pages t1 \<and> same_books t t1 \<and>
    tr_state t1 = tr_state t \<and> chunk_input bl pages xs ys mi"
proof -
  have fits: "ceil_div (tr_context_len t + length ys) bl \<le> pages" using assms(3,4) by simp
  obtain mi t1 where mi: "make_input junk bl t ys = Inr (mi, t1)" "track_ok pages t1" "same_books t t1" "tr_state t1 = tr_state t"
    "mi\<lparr> mi_is_decode_only := False \<rparr> =
      \<lparr> mi_input_token_ids = ys, mi_position = map int [tr_context_len t..<tr_context_len t + length ys],
        mi_slot_mapping = map int [tr_context_len t..<tr_context_len t + length ys],
        mi_query_start_loc = [0, int (length ys)], mi_block_tables = [map int [0..<pages]],
        mi_context_lens = [int (tr_context_len t + length ys)],
        mi_query_start_loc_host = [0, length ys], mi_context_lens_host = [tr_context_len t + length ys],
        mi_flashinfer_csr = Some (chunk_csr bl (length ys) (tr_context_len t + length ys)),
        mi_is_decode_only = False, mi_packed_mask = None \<rparr>"
    using make_input_ok [OF assms(1,2) fits, of junk] by blast
  have "chunk_input bl pages xs ys mi"
    unfolding chunk_input_def plan_input_chunk [OF assms(2,3)] using mi(5) assms(4)
    by (cases mi) auto
  with mi show ?thesis by blast
qed

lemma chunk_input_describes:
  assumes "chunk_input bl pages xs ys mi" "ceil_div (length xs + length ys) bl \<le> pages"
  shows "describes bl [chunk_request pages xs ys] mi" "mi_packed_mask mi = None"
proof -
  let ?mi = "mi\<lparr> mi_flashinfer_csr := None, mi_is_decode_only := False \<rparr>"
  have "describes bl (requests (chunk_plan pages xs ys)) (plan_input (chunk_plan pages xs ys) bl)"
    using assms(2) by (intro plan_input_describes) (simp add: chunk_plan_def pages_of_def)
  then have "describes bl [chunk_request pages xs ys] ?mi" "mi_packed_mask ?mi = None"
    using assms(1) by (simp_all add: chunk_input_def chunk_plan_def) (simp add: plan_input_def Let_def)
  then show "describes bl [chunk_request pages xs ys] mi" "mi_packed_mask mi = None" by (simp_all add: describes_def)
qed

lemma make_input_capacity:
  assumes "track_ok pages t" "bl > 0" "\<not> ceil_div (tr_context_len t + length toks) bl \<le> pages"
  shows "make_input junk bl t toks = Inl (RuntimeError ''speculative cache capacity exceeded'')"
  using assms by (simp add: make_input_def Let_def track_ok_def)

section \<open>Every step commits\<close>

definition stats_ok :: "nat \<Rightarrow> spec_stats \<Rightarrow> bool" where
  "stats_ok k s = (st_proposed s = k * st_steps s \<and> st_committed s = st_accepted s + st_steps s \<and> st_accepted s \<le> st_proposed s)"

lemma cumprod_bits: "\<forall>x \<in> set xs. x \<le> 1 \<Longrightarrow> acc \<le> 1 \<Longrightarrow> sum_list (cumprod acc xs) \<le> length xs"
proof (induction xs arbitrary: acc)
  case (Cons x xs)
  have "acc * x \<le> 1" using mult_mono [of acc 1 x 1] Cons.prems by simp
  with Cons.IH [of "acc * x"] Cons.prems show ?case by simp
qed simp

text \<open>What \<open>step\<close> needs of an accept/reject kernel: it commits between one and \<open>K + 1\<close> tokens.\<close>

definition kernel_row :: "nat \<Rightarrow> int list \<times> nat \<Rightarrow> bool" where
  "kernel_row k row = (1 \<le> snd row \<and> snd row \<le> k + 1 \<and> length (fst row) = k + 1)"

definition kernel_ok :: "('v, 'g) sampling_ops \<Rightarrow> bool" where
  "kernel_ok sm = (\<forall>xs ps ls g. \<forall>row \<in> set (fst (accept_rows sm [xs] ps ls g)). kernel_row (length xs) row)"

lemma greedy_kernel_row:
  assumes "greedy_row draft logits = Inr row"
  shows "kernel_row (length draft) row"
proof -
  obtain tids where len: "length tids = length draft + 1"
    and row: "row = (map (\<lambda>i. if i < sum_list (cumprod 1 (map2 (\<lambda>d t. if d = t then 1 else 0) draft (take (length draft) tids))) + 1
        then tids ! i else - 1) [0..<length draft + 1], sum_list (cumprod 1 (map2 (\<lambda>d t. if d = t then 1 else 0) draft (take (length draft) tids))) + 1)"
    using assms by (auto simp: greedy_row_def obind_Inr_iff require_Inr_iff Let_def simp del: upt_Suc)
  have "sum_list (cumprod 1 (map2 (\<lambda>d t. if d = t then 1 else 0) draft (take (length draft) tids)))
      \<le> length (map2 (\<lambda>d t. if d = t then 1 else 0 :: nat) draft (take (length draft) tids))"
    by (intro cumprod_bits) auto
  then show ?thesis using len row by (simp add: kernel_row_def del: upt_Suc)
qed

lemma torch_kernel_ok: "kernel_ok (torch_sampling rand multi)"
proof -
  have "kernel_row (length xs) row"
    if "row \<in> set (fst (accept_reject_sampling rand multi [xs] ps ls g))" for xs ps ls g row
  proof -
    obtain us g1 where us: "rand (Suc 0) (length xs) g = (us, g1)" by force
    let ?rs = "sampling_row (us ! 0) xs (ps ! 0) (ls ! 0)"
    obtain nt g2 where nt: "multi [snd ?rs] g1 = (nt, g2)" by force
    have row: "row = (sampling_out xs (fst ?rs) (nt ! 0), fst ?rs + 1)"
      using that by (simp add: accept_reject_sampling_def Let_def us nt split_beta)
    have "fst ?rs \<le> length (map (\<lambda>i. if us ! 0 ! i < accept_threshold (map softmax (ls ! 0) ! i) (ps ! 0 ! i) (xs ! i)
        then 1 else 0 :: nat) [0..<length xs])"
      by (simp only: sampling_row_def Let_def fst_conv, rule cumprod_bits) auto
    then show ?thesis by (simp add: row kernel_row_def sampling_out_def)
  qed
  then show ?thesis by (simp add: kernel_ok_def torch_sampling_def)
qed

lemma accept_reject_kernel_row:
  assumes "kernel_ok sm" "accept_reject sm greedy proposals plogits tlogits g = Inr (row, g')"
  shows "kernel_row (length proposals) row"
proof (cases greedy)
  case True
  then show ?thesis
    using assms(2) greedy_kernel_row
    by (auto simp: accept_reject_def accept_reject_greedy_def obind_Inr_iff)
next
  case False
  obtain rows g1 where rows: "accept_rows sm [map nat proposals] [map (row_probs sm) plogits] [tlogits] g = (rows, g1)" by force
  with False assms(2) have "row \<in> set rows"
    by (auto simp: accept_reject_def Let_def obind_Inr_iff onth_Inr_iff)
  with assms(1) rows show ?thesis unfolding kernel_ok_def by (metis fst_conv length_map)
qed

lemma draft_passes_count:
  assumes "ofold (draft_pass junk sm greedy bl k) [0..<m] (d, tok, [], g) = Inr (d', tok', props, g')"
  shows "length props = min m k"
  using assms
proof (induction m arbitrary: d' tok' props g')
  case (Suc m)
  obtain d1 t1 p1 g1 where st: "ofold (draft_pass junk sm greedy bl k) [0..<m] (d, tok, [], g) = Inr (d1, t1, p1, g1)"
    and pass: "draft_pass junk sm greedy bl k m (d1, t1, p1, g1) = Inr (d', tok', props, g')"
    using Suc.prems by (auto simp: ofold_append obind_Inr_iff)
  from Suc.IH [OF st] pass show ?case
    by (auto simp: draft_pass_def obind_Inr_iff Let_def split: if_splits)
qed simp

lemma step_commits:
  assumes "kernel_ok sm" "step junk sm greedy e g = Inr (committed, e', g')"
  shows "1 \<le> length committed" "length committed \<le> en_num_spec_tokens e + 1"
    "en_num_spec_tokens e' = en_num_spec_tokens e"
    "en_stats e' = bump_stats (en_num_spec_tokens e) (length committed - 1) (length committed) (en_stats e)"
proof -
  let ?k = "en_num_spec_tokens e"
  let ?d = "(en_draft e)\<lparr> tr_proposal_logits := [] \<rparr>"
  obtain d tok props g1 where loop: "ofold (draft_pass junk sm greedy (en_block_len e) ?k) [0..<?k + 1] (?d, tr_pending_token ?d, [], g)
      = Inr (d, tok, props, g1)"
    and rest: "obind (track_forward junk (en_block_len e) (en_target e) (tr_pending_token (en_target e) # props)) (\<lambda>(rows, t).
        obind (accept_reject sm greedy props (tr_proposal_logits d) (drop (length rows - (?k + 1)) rows) g1) (\<lambda>((tokens, n), g2).
             obind (py_nth (take n tokens) (- 1)) (\<lambda>pending.
               Inr (take n tokens,
                    e\<lparr> en_target := t\<lparr> tr_context_len := tr_context_len t + (1 + (n - 1)), tr_pending_token := pending \<rparr>,
                       en_draft := d\<lparr> tr_context_len := tr_context_len d - (?k - (n - 1)), tr_pending_token := pending \<rparr>,
                       en_stats := bump_stats ?k (n - 1) n (en_stats e) \<rparr>, g2)))) = Inr (committed, e', g')"
    using assms(2) unfolding step_def Let_def by (elim obindE) (auto simp del: upt_Suc)
  have len: "length props = ?k" using draft_passes_count [OF loop] by simp
  obtain rows t tokens n g2 pending where
    acc: "accept_reject sm greedy props (tr_proposal_logits d) (drop (length rows - (?k + 1)) rows) g1 = Inr ((tokens, n), g2)"
    and out: "committed = take n tokens" "en_num_spec_tokens e' = ?k" "en_stats e' = bump_stats ?k (n - 1) n (en_stats e)"
    using rest by (auto elim!: obindE)
  have "1 \<le> n" "n \<le> ?k + 1" "length tokens = ?k + 1"
    using accept_reject_kernel_row [OF assms(1) acc] len by (simp_all add: kernel_row_def)
  with out show "1 \<le> length committed" "length committed \<le> ?k + 1" "en_num_spec_tokens e' = ?k"
    "en_stats e' = bump_stats ?k (length committed - 1) (length committed) (en_stats e)" by simp_all
qed

lemma stats_ok_bump: "stats_ok k s \<Longrightarrow> 1 \<le> n \<Longrightarrow> n \<le> k + 1 \<Longrightarrow> stats_ok k (bump_stats k (n - 1) n s)"
  by (auto simp: stats_ok_def bump_stats_def algebra_simps)

section \<open>\<open>generate\<close> returns\<close>

text \<open>What an append loop keeps of a list: everything up to and including the first end of sequence.\<close>

primrec upto_eos :: "int option \<Rightarrow> int list \<Rightarrow> int list" where
  "upto_eos eos [] = []"
| "upto_eos eos (t # ts) = t # (if eos = Some t then [] else upto_eos eos ts)"

definition has_eos :: "int option \<Rightarrow> int list \<Rightarrow> bool" where
  "has_eos eos ts = (\<exists>t \<in> set ts. eos = Some t)"

lemma has_eos_simps [simp]:
  "has_eos eos [] = False" "has_eos eos (t # ts) = (eos = Some t \<or> has_eos eos ts)"
  "has_eos eos (xs @ ys) = (has_eos eos xs \<or> has_eos eos ys)"
  by (auto simp: has_eos_def)

lemma upto_eos_append: "upto_eos eos (xs @ ys) = (if has_eos eos xs then upto_eos eos xs else xs @ upto_eos eos ys)"
  by (induction xs) auto

lemma upto_eos_id: "\<not> has_eos eos xs \<Longrightarrow> upto_eos eos xs = xs"
  by (induction xs) auto

lemma absorb_eq: "absorb eos gen ts = (gen @ upto_eos eos ts, has_eos eos ts)"
  by (induction ts arbitrary: gen) auto

lemma absorb_grows: "absorb eos gen ts = (gen', stop) \<Longrightarrow> ts \<noteq> [] \<Longrightarrow> length gen < length gen'"
  by (cases ts) (auto simp: absorb_eq)

lemma generate_loop_total:
  assumes "\<And>e g committed e' g'. P e \<Longrightarrow> stp e g = Some (Inr (committed, e', g')) \<Longrightarrow> committed \<noteq> [] \<and> P e'"
    and "\<And>e g. P e \<Longrightarrow> stp e g \<noteq> None" and "P e"
  shows "\<exists>r. generate_loop stp eos max_new gen e g = Some r \<and>
     (\<forall>xs e' g'. r = Inr (xs, e', g') \<longrightarrow> P e' \<and> length xs \<le> max_new \<and> min (length gen) max_new \<le> length xs)"
  using assms(3)
proof (induction "max_new - length gen" arbitrary: gen e g rule: less_induct)
  case less
  show ?case
  proof (cases "length gen < max_new")
    case False
    then show ?thesis using less.prems by (subst generate_loop.simps) auto
  next
    case True
    obtain res where res: "stp e g = Some res" using assms(2) [OF less.prems, of g] by auto
    show ?thesis
    proof (cases res)
      case (Inl err)
      with True res show ?thesis by (subst generate_loop.simps) auto
    next
      case r0: (Inr r)
      obtain committed e1 g1 where r: "r = (committed, e1, g1)" by (cases r) auto
      have Inr: "stp e g = Some (Inr r)" using res r0 by simp
      obtain gen1 stop where ab: "absorb eos gen committed = (gen1, stop)" by force
      from assms(1) [OF less.prems Inr [unfolded r]] have "committed \<noteq> []" and P: "P e1" by auto
      from absorb_grows [OF ab this(1)] True have "max_new - length gen1 < max_new - length gen" by simp
      from less.hyps [OF this P] obtain r' where r': "generate_loop stp eos max_new gen1 e1 g1 = Some r'"
        "\<forall>xs e' g'. r' = Inr (xs, e', g') \<longrightarrow> P e' \<and> length xs \<le> max_new \<and> min (length gen1) max_new \<le> length xs"
        by blast
      with absorb_grows [OF ab \<open>committed \<noteq> []\<close>] True show ?thesis
        using Inr r ab P by (subst generate_loop.simps) fastforce
    qed
  qed
qed

lemma generate_with_total:
  assumes "\<And>e g first e' g'. Q e \<Longrightarrow> pre e g = Inr (first, e', g') \<Longrightarrow> P e'"
    and "\<And>e g committed e' g'. P e \<Longrightarrow> stp e g = Some (Inr (committed, e', g')) \<Longrightarrow> committed \<noteq> [] \<and> P e'"
    and "\<And>e g. P e \<Longrightarrow> stp e g \<noteq> None" and "Q e"
  shows "\<exists>r. generate_with pre stp max_new eos e g = Some r \<and>
     (\<forall>xs e' g'. r = Inr (xs, e', g') \<longrightarrow> P e' \<and> xs \<noteq> [] \<and> int (length xs) \<le> max_new)"
proof (cases "max_new < 1")
  case False
  show ?thesis
  proof (cases "pre e g")
    case (Inr r)
    obtain first e1 g1 where r: "r = (first, e1, g1)" by (cases r) auto
    have "P e1" using assms(1) [OF assms(4) Inr [unfolded r]] .
    obtain r' where
      r': "generate_loop stp eos (nat max_new) [first] e1 g1 = Some r'"
        "\<forall>xs e' g'. r' = Inr (xs, e', g') \<longrightarrow> P e' \<and> length xs \<le> nat max_new \<and> min (length [first]) (nat max_new) \<le> length xs"
      using generate_loop_total [of P stp e1 eos "nat max_new" "[first]" g1] assms(2,3) \<open>P e1\<close> by blast
    have "generate_with pre stp max_new eos e g = Some r'" using False Inr r r'(1) by (simp add: generate_with_def)
    moreover have "P e' \<and> xs \<noteq> [] \<and> int (length xs) \<le> max_new" if "r' = Inr (xs, e', g')" for xs e' g'
      using r'(2) that False by fastforce
    ultimately show ?thesis by blast
  qed (use False in \<open>simp add: generate_with_def\<close>)
qed (simp add: generate_with_def)

lemma prefill_keeps:
  assumes "prefill junk sm greedy prompt e g = Inr (first, e', g')"
  shows "en_stats e' = en_stats e" "en_num_spec_tokens e' = en_num_spec_tokens e" "en_block_len e' = en_block_len e"
  using assms by (auto simp: prefill_def require_Inr_iff Let_def elim!: obindE)

section \<open>Theorems\<close>

text \<open>C29: \<open>generate\<close> always returns. Whatever the two runners compute, for greedy decoding and for
  torch's sampling kernel alike, \<open>generate\<close> on a fresh engine ends, with an exception or with between
  one and \<open>max_new_len\<close> tokens, because every step commits at least one token; and the acceptance
  statistics it returns add up: \<open>K\<close> proposals per step, and one token per step beyond the accepted
  ones.\<close>

theorem generate_returns:
  assumes "engine_init target c draft d bl nb k = Inr e"
  shows "\<exists>r. generate junk (torch_sampling rand multi) greedy prompt max_new eos e g = Some r \<and>
     (\<forall>xs e' g'. r = Inr (xs, e', g') \<longrightarrow> xs \<noteq> [] \<and> int (length xs) \<le> max_new \<and> stats_ok (nat k) (en_stats e'))"
proof -
  let ?sm = "torch_sampling rand multi"
  let ?P = "\<lambda>e. en_num_spec_tokens e = nat k \<and> stats_ok (nat k) (en_stats e)"
  have init: "?P e" using assms by (auto simp: engine_init_def require_Inr_iff stats_ok_def)
  have pre: "?P e'" if "?P e" "prefill junk ?sm greedy prompt e g = Inr (first, e', g')"
    for e e' :: "('a, 'b, real) engine" and g g' first
    using prefill_keeps [OF that(2)] that(1) by simp
  have stp: "committed \<noteq> [] \<and> ?P e'" if "?P e" "Some (step junk ?sm greedy e g) = Some (Inr (committed, e', g'))"
    for e e' :: "('a, 'b, real) engine" and g g' committed
  proof -
    have "step junk ?sm greedy e g = Inr (committed, e', g')" using that(2) by (rule option.inject [THEN iffD1])
    from step_commits [OF torch_kernel_ok this] that(1) stats_ok_bump show ?thesis by (cases committed) force+
  qed
  have "\<exists>r. generate_with (prefill junk ?sm greedy prompt) (\<lambda>e g. Some (step junk ?sm greedy e g)) max_new eos e g = Some r \<and>
     (\<forall>xs e' g'. r = Inr (xs, e', g') \<longrightarrow> ?P e' \<and> xs \<noteq> [] \<and> int (length xs) \<le> max_new)"
    by (rule generate_with_total [of ?P _ ?P, OF pre stp option.distinct(2) init])
  then show ?thesis unfolding generate_def by blast
qed

text \<open>A runner that scores its vocabulary of two the same everywhere, without a cache.\<close>

definition flat_runner :: "(unit, real) runner" where
  "flat_runner = \<lparr> forward = (\<lambda>mi c. Inr (map (\<lambda>_. [1, 0]) (mi_input_token_ids mi), c)), try_decode_cuda_graph = None \<rparr>"

theorem generate_returns_witness:
  "\<exists>e r. engine_init flat_runner () flat_runner () 2 3 2 = Inr e \<and>
     generate 0 (torch_sampling (\<lambda>b k g. (replicate b (replicate k 0), g)) (\<lambda>ps g. (map (\<lambda>_. 0) ps, g))) False [1] 2 None e () = Some r"
proof -
  obtain e where e: "engine_init flat_runner () flat_runner () 2 3 2 = Inr e" by (simp add: engine_init_def)
  from generate_returns [OF e, of 0 "\<lambda>b k g. (replicate b (replicate k 0), g)" "\<lambda>ps g. (map (\<lambda>_. 0) ps, g)" False "[1]" 2 None "()"] e
  show ?thesis by (elim exE conjE) (intro exI conjI)
qed

text \<open>C30: The engine builds the inputs of the batch builder. For a track on the identity page table with
  room for the chunk, \<open>_make_input\<close> (on fresh or reused buffers) returns exactly the tensors that
  \<open>from_plan\<close> builds for one request with the engine's context and the fed tokens, together with the
  FlashInfer CSR that \<open>build_paged_kv_csr\<close> derives from those tensors.\<close>

theorem engine_input_matches_plan:
  assumes "track_ok pages t" "bl > 0" "tr_context_len t = length xs" "ys \<noteq> []"
    and "ceil_div (length xs + length ys) bl \<le> pages" "int (pages * bl) + int bl < 2 ^ 31"
  shows "\<exists>mi t' qo kv indices lastp. make_input junk bl t ys = Inr (mi, t') \<and> track_ok pages t' \<and>
    from_plan (chunk_plan pages xs ys) bl = Inr (mi\<lparr> mi_flashinfer_csr := None, mi_is_decode_only := False \<rparr>) \<and>
    mi_flashinfer_csr mi = Some (qo, kv, indices, lastp) \<and> qo = mi_query_start_loc mi \<and>
    build_paged_kv_csr (mi_block_tables mi) (mi_context_lens mi) (int bl) = Inr (kv, indices, lastp)"
proof -
  let ?r = "chunk_request pages xs ys" and ?n = "length xs + length ys"
  obtain mi t' where mi: "make_input junk bl t ys = Inr (mi, t')" "track_ok pages t'" "chunk_input bl pages xs ys mi"
    using make_input_chunk [OF assms(1,2,5,3), of junk] by blast
  have mi': "mi\<lparr> mi_flashinfer_csr := None, mi_is_decode_only := False \<rparr> = plan_input (chunk_plan pages xs ys) bl"
    "mi_flashinfer_csr mi = Some (chunk_csr bl (length ys) ?n)"
    using mi(3) by (simp_all add: chunk_input_def)
  have n: "1 \<le> ?n" using assms(4) by (cases ys) auto
  have small: "?n \<le> pages * bl" using ceil_div_le_iff [OF assms(2)] assms(5) by simp
  then have "int ?n \<le> int (pages * bl)" by (simp only: of_nat_le_iff)
  with assms(6) have ctx: "int ?n + int bl < 2 ^ 31" by linarith
  have "pages \<le> pages * bl" using assms(2) by simp
  then have p: "int pages < 2 ^ 31" using assms(6) by linarith
  have ok: "list_all (request_ok bl) [?r]"
    using n assms(5) by (auto simp: request_ok_def list_all_iff dest!: in_set_takeD)
  have i32: "i32_ok bl [?r]"
    using ctx assms(5) p by (simp add: i32_ok_def pages_of_def list_all_iff)
  have plan: "from_plan (chunk_plan pages xs ys) bl = Inr (plan_input (chunk_plan pages xs ys) bl)"
    using assms(2) ok by (intro from_plan_plan_input) (simp_all add: chunk_plan_def)
  have last: "int ?n - (int (ceil_div ?n bl) - 1) * int bl = int (last_page_of bl ?n)"
  proof -
    have "0 < ceil_div ?n bl" using n ceil_div_pos_iff [OF assms(2), of ?n] by linarith
    then have "int (ceil_div ?n bl) - 1 = int (ceil_div ?n bl - 1)" by simp
    then show ?thesis using last_page_bounds(3) [OF assms(2), of ?n] n
      by (metis add.commute add_diff_cancel_left' of_nat_add of_nat_mult less_le_trans zero_less_one)
  qed
  have tabs: "mi_block_tables mi = [map int [0..<pages]]" "mi_context_lens mi = [int ?n]" "mi_query_start_loc mi = [0, int (length ys)]"
    using mi'(1) unfolding plan_input_chunk [OF assms(2,5)] by (cases mi; simp)+
  have "build_paged_kv_csr (mi_block_tables mi) (mi_context_lens mi) (int bl)
      = Inr ([0, int (ceil_div ?n bl)], map int [0..<ceil_div ?n bl], [int (last_page_of bl ?n)])"
    using csr_of_padded_tables [OF assms(2) _ ok i32] assms(5)
    by (simp add: tabs pages_of_def max_len_def pad_row_def take_map min_def)
  then show ?thesis
    using mi(1,2) mi' plan tabs(3) last by (simp add: chunk_csr_def)
qed

theorem engine_input_matches_plan_witness:
  "\<exists>mi t' qo kv indices lastp. make_input 7 2 (new_track flat_runner () 3) [5, 6, 8] = Inr (mi, t') \<and> track_ok 3 t' \<and>
    from_plan (chunk_plan 3 [] [5, 6, 8]) 2 = Inr (mi\<lparr> mi_flashinfer_csr := None, mi_is_decode_only := False \<rparr>) \<and>
    mi_flashinfer_csr mi = Some (qo, kv, indices, lastp) \<and> qo = mi_query_start_loc mi \<and>
    build_paged_kv_csr (mi_block_tables mi) (mi_context_lens mi) (int 2) = Inr (kv, indices, lastp)"
  by (rule engine_input_matches_plan) (simp_all add: ceil_div_def new_track_def track_ok_def)

text \<open>C31: What \<open>generate\<close> refuses. A length limit below one and an empty prompt are value errors raised
  before any forward; a prompt with more pages than the target has is the capacity error.\<close>

theorem generate_refuses:
  assumes "engine_init target c draft d bl nb k = Inr e" "bl > 0"
  shows "(max_new < 1 \<longrightarrow> generate junk sm greedy prompt max_new eos e g = Some (Inl (ValueError ''max_new_len must be positive''))) \<and>
    (1 \<le> max_new \<and> prompt = [] \<longrightarrow>
       generate junk sm greedy prompt max_new eos e g = Some (Inl (ValueError ''prompt must be non-empty''))) \<and>
    (1 \<le> max_new \<and> nb * bl < length prompt \<longrightarrow>
       generate junk sm greedy prompt max_new eos e g = Some (Inl (RuntimeError ''speculative cache capacity exceeded'')))"
proof (intro conjI impI)
  assume a: "1 \<le> max_new \<and> nb * bl < length prompt"
  have e: "en_target e = new_track target c nb" "en_block_len e = bl" using assms(1) by (auto simp: engine_init_def require_Inr_iff)
  have "\<not> ceil_div (tr_context_len (new_track target c nb) + length prompt) bl \<le> nb"
    using a ceil_div_le_iff [OF assms(2)] by (simp add: new_track_def)
  from make_input_capacity [OF track_ok_new assms(2) this]
  show "generate junk sm greedy prompt max_new eos e g = Some (Inl (RuntimeError ''speculative cache capacity exceeded''))"
    using a by (cases prompt) (simp_all add: generate_def generate_with_def prefill_def e track_forward_def)
qed (auto simp: generate_def generate_with_def prefill_def)

theorem generate_refuses_witness:
  "\<exists>e. engine_init flat_runner () flat_runner () 2 3 2 = Inr e \<and>
     generate 0 (torch_sampling (\<lambda>b k g. ([], g)) (\<lambda>ps g. ([], g))) True (replicate 7 0) 1 None e ()
       = Some (Inl (RuntimeError ''speculative cache capacity exceeded''))"
proof -
  obtain e where e: "engine_init flat_runner () flat_runner () 2 3 2 = Inr e" by (simp add: engine_init_def)
  from generate_refuses [OF e, where max_new = 1 and prompt = "replicate 7 0"] e show ?thesis by simp
qed

end
