(* ===== verification/TreeEngine.thy ===== *)
theory TreeEngine
  imports SpecTree SpecRunner
begin

text \<open>
  The tree speculation engine (\<open>TreeSpeculativeEngine\<close> of \<open>executors/torch/spec_tree.py\<close>): the model
  input of a tree forward, the level-wise expansion on the draft track, and the masked
  draft-then-verify \<open>step\<close> with its gather commit. \<open>torch.topk\<close> is a parameter: it may break ties as it
  likes.
\<close>

section \<open>State\<close>

text \<open>The engine is a chain engine with a tree shape. \<open>last_tree\<close> keeps the last tree, the draft rows
  by node and the verify rows; a row that was never computed (\<open>-inf\<close> in the code) is \<open>None\<close>.\<close>

record ('c, 'd) tree_engine = "('c, 'd, real) engine" +
  te_tree_budget :: nat
  te_branch_factor :: nat
  te_max_depth :: nat
  te_rank_by_confidence :: bool
  te_last_tree :: "(tree_spec \<times> real list option list \<times> real list list) option"

definition tree_engine_init ::
    "('c, real) runner \<Rightarrow> 'c \<Rightarrow> ('d, real) runner \<Rightarrow> 'd \<Rightarrow> nat \<Rightarrow> nat \<Rightarrow> int \<Rightarrow> int \<Rightarrow> int \<Rightarrow> bool
       \<Rightarrow> ('c, 'd) tree_engine outcome" where
  "tree_engine_init target c draft d bl nb budget branch depth rank =
     obind (engine_init target c draft d bl nb 1) (\<lambda>e.
     require (\<not> budget > 63) (ValueError ''tree_budget must be <= 63'')
    (require (\<not> budget < 1) (ValueError ''tree_budget must be >= 1'')
    (require (\<not> branch < 1) (ValueError ''branch_factor must be >= 1'')
    (require (\<not> depth < 1) (ValueError ''max_depth must be >= 1'')
      (Inr (engine.extend e (tree_engine.fields (nat budget) (nat branch) (nat depth) rank None)))))))"

section \<open>Tree inputs\<close>

definition make_tree_input ::
    "int \<Rightarrow> nat \<Rightarrow> ('c, 'v) track \<Rightarrow> int list \<Rightarrow> int list \<Rightarrow> int list \<Rightarrow> nat \<Rightarrow> 8 word list option
       \<Rightarrow> (model_input \<times> ('c, 'v) track) outcome" where
  "make_tree_input junk bl t toks positions slots context_len packed_mask =
     (let n = length toks;
          buf = (case tr_buffers t n of
                   None \<Rightarrow> (new_buffers junk n)\<lparr> sb_is_decode_only := False \<rparr>
                 | Some b \<Rightarrow> b);
          (csr0, t1) = ensure_track_constants t
      in require (bl \<noteq> 0) ZeroDivisionError
        (require (length positions = n \<and> length slots = n) (RuntimeError ''size mismatch in copy_'')
        (let pages = ceil_div context_len bl;
             csr = csr0\<lparr> cs_qo_indptr := (cs_qo_indptr csr0)[1 := int n],
                         cs_kv_indptr := (cs_kv_indptr csr0)[1 := int pages],
                         cs_last_page_len := (cs_last_page_len csr0)[0 := int context_len - (int pages - 1) * int bl] \<rparr>;
             b = buf\<lparr> sb_context_lens := map (\<lambda>_. int context_len) (sb_context_lens buf),
                      sb_token := toks, sb_position := positions, sb_slot := slots \<rparr>
         in Inr (\<lparr> mi_input_token_ids = sb_token b, mi_position = sb_position b, mi_slot_mapping = sb_slot b,
                   mi_query_start_loc = sb_query_start_loc b,
                   mi_block_tables = (case tr_block_tables_dev t1 of None \<Rightarrow> [] | Some d \<Rightarrow> d),
                   mi_context_lens = sb_context_lens b,
                   mi_query_start_loc_host = [0, n], mi_context_lens_host = [context_len],
                   mi_flashinfer_csr = Some (cs_qo_indptr csr, cs_kv_indptr csr,
                                             take pages (cs_kv_indices csr), cs_last_page_len csr),
                   mi_is_decode_only = False, mi_packed_mask = packed_mask \<rparr>,
                 t1\<lparr> tr_buffers := (tr_buffers t1)(n \<mapsto> b), tr_csr := Some csr \<rparr>))))"

section \<open>Expansion\<close>

definition log_softmax :: "real list \<Rightarrow> real list" where
  "log_softmax row = (let z = ln (sum_list (map exp row)) in map (\<lambda>x. x - z) row)"

text \<open>A candidate: its log confidence, its token, its parent.\<close>

type_synonym candidate = "real \<times> int \<times> nat option"

definition node_candidates ::
    "(real list \<Rightarrow> nat \<Rightarrow> (real \<times> nat) list) \<Rightarrow> nat \<Rightarrow> tree_spec \<Rightarrow> nat option \<Rightarrow> real list \<Rightarrow> candidate list outcome" where
  "node_candidates topk branch spec parent row =
     (let log_probs = log_softmax row; k = min branch (length log_probs); top = topk log_probs k
      in omap (\<lambda>(logp, token).
            obind (case parent of None \<Rightarrow> Inr 0 | Some p \<Rightarrow> onth (node_log_confs spec) p) (\<lambda>parent_conf.
              Inr (parent_conf + logp, int token, parent))) top)"

definition level_candidates ::
    "(real list \<Rightarrow> nat \<Rightarrow> (real \<times> nat) list) \<Rightarrow> nat \<Rightarrow> bool \<Rightarrow> tree_spec \<Rightarrow> nat option list \<Rightarrow> real list list
       \<Rightarrow> candidate list outcome" where
  "level_candidates topk branch rank spec ps rows =
     obind (omap (\<lambda>(parent, row). node_candidates topk branch spec parent row) (zip ps rows)) (\<lambda>css.
       Inr (if rank then sort_key (\<lambda>c. - fst c) (concat css) else concat css))"

text \<open>The append loop of one level. \<open>seen\<close> lists the (parent, token) pairs already used; the guard
  counts the new nodes twice, once in the tree and once in \<open>new_level\<close>, as the code does.\<close>

fun add_candidates ::
    "nat \<Rightarrow> candidate list \<Rightarrow> (nat option \<times> int) list \<Rightarrow> nat list \<Rightarrow> tree_spec \<Rightarrow> (nat list \<times> tree_spec) outcome" where
  "add_candidates budget [] seen new_level spec = Inr (new_level, spec)"
| "add_candidates budget ((conf, token, parent) # cs) seen new_level spec =
     (if length (tokens spec) + length new_level \<ge> budget then Inr (new_level, spec)
      else if (parent, token) \<in> set seen then add_candidates budget cs seen new_level spec
      else obind (tree_append parent token conf spec) (\<lambda>(j, spec').
             add_candidates budget cs ((parent, token) # seen) (new_level @ [j]) spec'))"

record 'd expansion =
  ex_draft :: "('d, real) track"
  ex_spec :: tree_spec
  ex_level :: "nat list"
  ex_node_rows :: "(nat \<times> real list) list"

text \<open>The forward over one level, in the scratch slots of its nodes and under the level mask.\<close>

definition level_forward ::
    "int \<Rightarrow> nat \<Rightarrow> nat \<Rightarrow> 'd expansion \<Rightarrow> (real list list \<times> ('d, real) track) outcome" where
  "level_forward junk bl live x =
     (let spec = ex_spec x; level = ex_level x in
      obind (omap (onth (tokens spec)) level) (\<lambda>toks.
      obind (omap (rope_pos spec) level) (\<lambda>positions.
      obind (build_level_mask spec level) (\<lambda>level_mask.
      obind (make_tree_input junk bl (ex_draft x) toks (map int positions) (map (int \<circ> logical_pos spec) level)
               (live + 1 + length (tokens spec)) (Some (pack_mask_flashinfer level_mask))) (\<lambda>(mi, d).
      obind (forward (tr_runner d) mi (tr_state d)) (\<lambda>(out, c).
      obind (omap (onth out) [0..<length level]) (\<lambda>rows.
        Inr (rows, d\<lparr> tr_state := c \<rparr>))))))))"

definition expand_level ::
    "int \<Rightarrow> (real list \<Rightarrow> nat \<Rightarrow> (real \<times> nat) list) \<Rightarrow> nat \<Rightarrow> ('c, 'd) tree_engine \<Rightarrow> 'd expansion \<Rightarrow> 'd expansion outcome" where
  "expand_level junk topk live e x =
     (if ex_level x = [] then Inr x
      else
        obind (level_forward junk (en_block_len e) live x) (\<lambda>(rows, d).
        obind (level_candidates topk (te_branch_factor e) (te_rank_by_confidence e) (ex_spec x)
                 (map Some (ex_level x)) rows) (\<lambda>cands.
        obind (add_candidates (te_tree_budget e) cands [] [] (ex_spec x)) (\<lambda>(level, spec).
          Inr \<lparr> ex_draft = d, ex_spec = spec, ex_level = level,
                ex_node_rows = ex_node_rows x @ zip (ex_level x) rows \<rparr>))))"

definition draft_forward_q1 :: "int \<Rightarrow> nat \<Rightarrow> ('d, real) track \<Rightarrow> (real list list \<times> ('d, real) track) outcome" where
  "draft_forward_q1 junk bl d = draft_decode_forward junk bl d (tr_pending_token d)"

definition expand_root ::
    "int \<Rightarrow> (real list \<Rightarrow> nat \<Rightarrow> (real \<times> nat) list) \<Rightarrow> nat \<Rightarrow> ('c, 'd) tree_engine
       \<Rightarrow> (real list \<times> 'd expansion) outcome" where
  "expand_root junk topk live e =
     obind (draft_forward_q1 junk (en_block_len e) (en_draft e)) (\<lambda>(out, d).
     obind (py_nth out (- 1)) (\<lambda>root_row.
     obind (level_candidates topk (te_branch_factor e) (te_rank_by_confidence e) (tree_empty live) [None] [root_row]) (\<lambda>cands.
     obind (add_candidates (te_tree_budget e) cands [] [] (tree_empty live)) (\<lambda>(level, spec).
       Inr (root_row, \<lparr> ex_draft = d, ex_spec = spec, ex_level = level, ex_node_rows = [] \<rparr>)))))"

definition fill_rows :: "nat \<Rightarrow> real list \<Rightarrow> (nat \<times> real list) list \<Rightarrow> real list option list" where
  "fill_rows n root_row node_rows =
     fold (\<lambda>(j, row) rows. rows[1 + j := Some row]) node_rows ((replicate n None)[0 := Some root_row])"

definition expand_draft ::
    "int \<Rightarrow> (real list \<Rightarrow> nat \<Rightarrow> (real \<times> nat) list) \<Rightarrow> ('c, 'd) tree_engine
       \<Rightarrow> (tree_spec \<times> real list option list \<times> ('d, real) track) outcome" where
  "expand_draft junk topk e =
     (let live = tr_context_len (en_draft e);
          fits = (\<lambda>table. \<not> live + 1 + te_tree_budget e \<ge> length table * en_block_len e)
      in require (fits (tr_block_table (en_draft e))) (RuntimeError ''tree scratch exceeds cache capacity (draft)'')
        (require (fits (tr_block_table (en_target e))) (RuntimeError ''tree scratch exceeds cache capacity (target)'')
        (obind (expand_root junk topk live e) (\<lambda>(root_row, x0).
         obind (ofold (\<lambda>_. expand_level junk topk live e) [2..<te_max_depth e + 1] x0) (\<lambda>x.
           Inr (ex_spec x, fill_rows (total_q (ex_spec x)) root_row (ex_node_rows x), ex_draft x))))))"

section \<open>Step\<close>

text \<open>How a runner's state gives access to its cache; \<open>None\<close> for a runner without one.\<close>

record ('c, 'x) cache_access =
  get_cache :: "'c \<Rightarrow> 'x kv_storage option"
  put_cache :: "'x kv_storage \<Rightarrow> 'c \<Rightarrow> 'c"

definition commit_track :: "('c, 'x) cache_access \<Rightarrow> (nat \<times> nat) list \<Rightarrow> ('c, 'v) track \<Rightarrow> ('c, 'v) track outcome" where
  "commit_track acc moves t =
     (case get_cache acc (tr_state t) of
        None \<Rightarrow> Inr t
      | Some st \<Rightarrow> obind (gather_commit_kv st (map fst moves) (map snd moves)) (\<lambda>st'.
                     Inr (t\<lparr> tr_state := put_cache acc st' (tr_state t) \<rparr>)))"

definition verify_forward ::
    "int \<Rightarrow> nat \<Rightarrow> ('c, real) track \<Rightarrow> tree_spec \<Rightarrow> (real list list \<times> ('c, real) track) outcome" where
  "verify_forward junk bl t spec =
     (let live = tr_context_len t; nodes = [0..<length (tokens spec)] in
      obind (omap (rope_pos spec) nodes) (\<lambda>ropes.
      obind (build_tree_mask spec) (\<lambda>mask.
      obind (make_tree_input junk bl t (tr_pending_token t # tokens spec) (map int (live # ropes))
               (map int (live # map (logical_pos spec) nodes)) (total_kv spec)
               (Some (pack_mask_flashinfer mask))) (\<lambda>(mi, t1).
      obind (forward (tr_runner t1) mi (tr_state t1)) (\<lambda>(rows, c).
        Inr (rows, t1\<lparr> tr_state := c \<rparr>))))))"

definition verify_tree ::
    "(real list \<Rightarrow> 'g \<Rightarrow> int \<times> 'g) \<Rightarrow> bool \<Rightarrow> real list list \<Rightarrow> tree_spec \<Rightarrow> 'g
       \<Rightarrow> ((nat list \<times> int list) outcome \<times> 'g) option" where
  "verify_tree draw greedy logits spec g =
     (if greedy
      then (case find_greedy_path logits spec of None \<Rightarrow> None | Some r \<Rightarrow> Some (r, g))
      else tree_verify_sampling draw logits spec g)"

definition finish_step ::
    "('c, 'x) cache_access \<Rightarrow> ('d, 'y) cache_access \<Rightarrow> nat \<Rightarrow> tree_spec \<Rightarrow> real list option list \<Rightarrow> real list list
       \<Rightarrow> ('c, real) track \<Rightarrow> ('d, real) track \<Rightarrow> nat list \<Rightarrow> int list \<Rightarrow> ('c, 'd) tree_engine
       \<Rightarrow> (int list \<times> ('c, 'd) tree_engine) outcome" where
  "finish_step acct accd live spec draft_rows logits t d path committed e =
     (let moves = commit_moves live path; num_accepted = length path in
      obind (commit_track acct moves t) (\<lambda>t1.
      obind (commit_track accd moves d) (\<lambda>d1.
      obind (py_nth committed (- 1)) (\<lambda>pending.
        Inr (committed,
             e\<lparr> en_target := t1\<lparr> tr_context_len := live + 1 + num_accepted, tr_pending_token := pending \<rparr>,
                en_draft := d1\<lparr> tr_context_len := live + 1 + num_accepted, tr_pending_token := pending \<rparr>,
                en_stats := bump_stats (length (tokens spec)) num_accepted (length committed) (en_stats e),
                te_last_tree := Some (spec, draft_rows, logits) \<rparr>)))))"

text \<open>\<open>step\<close>; \<open>None\<close> is a walk that does not end.\<close>

definition tree_step ::
    "int \<Rightarrow> (real list \<Rightarrow> nat \<Rightarrow> (real \<times> nat) list) \<Rightarrow> (real list \<Rightarrow> 'g \<Rightarrow> int \<times> 'g)
       \<Rightarrow> ('c, 'x) cache_access \<Rightarrow> ('d, 'y) cache_access \<Rightarrow> bool \<Rightarrow> ('c, 'd) tree_engine \<Rightarrow> 'g
       \<Rightarrow> (int list \<times> ('c, 'd) tree_engine \<times> 'g) outcome option" where
  "tree_step junk topk draw acct accd greedy e g =
     (case expand_draft junk topk e of
        Inl err \<Rightarrow> Some (Inl err)
      | Inr (spec, draft_rows, d) \<Rightarrow>
          (let live = tr_context_len (en_target e)
           in case verify_forward junk (en_block_len e) (en_target e) spec of
                Inl err \<Rightarrow> Some (Inl err)
              | Inr (logits, t) \<Rightarrow>
                  (case verify_tree draw greedy logits spec g of
                     None \<Rightarrow> None
                   | Some (Inl err, g1) \<Rightarrow> Some (Inl err)
                   | Some (Inr (path, committed), g1) \<Rightarrow>
                       Some (obind (finish_step acct accd live spec draft_rows logits t d path committed e)
                               (\<lambda>(out, e1). Inr (out, e1, g1))))))"

definition tree_generate ::
    "int \<Rightarrow> (real list \<Rightarrow> nat \<Rightarrow> (real \<times> nat) list) \<Rightarrow> (real, 'g) sampling_ops
       \<Rightarrow> ('c, 'x) cache_access \<Rightarrow> ('d, 'y) cache_access \<Rightarrow> bool \<Rightarrow> int list \<Rightarrow> int \<Rightarrow> int option
       \<Rightarrow> ('c, 'd) tree_engine \<Rightarrow> 'g \<Rightarrow> (int list \<times> ('c, 'd) tree_engine \<times> 'g) outcome option" where
  "tree_generate junk topk sm acct accd greedy prompt max_new eos e g =
     generate_with (prefill junk sm greedy prompt) (tree_step junk topk (draw_token sm) acct accd greedy) max_new eos e g"

section \<open>The shape of an expanded tree\<close>

lemma omap_Inr_set: "omap f xs = Inr ys \<Longrightarrow> y \<in> set ys \<Longrightarrow> \<exists>x \<in> set xs. f x = Inr y"
  by (induction xs arbitrary: ys) (auto simp: obind_Inr_iff)

lemma node_candidates_parent:
  "node_candidates topk branch spec parent row = Inr cs \<Longrightarrow> c \<in> set cs \<Longrightarrow> snd (snd c) = parent"
  by (auto simp: node_candidates_def Let_def obind_Inr_iff dest!: omap_Inr_set)

lemma level_candidates_parents:
  assumes "level_candidates topk branch rank spec ps rows = Inr cs" "c \<in> set cs"
  shows "snd (snd c) \<in> set ps"
proof -
  obtain css where css: "omap (\<lambda>(parent, row). node_candidates topk branch spec parent row) (zip ps rows) = Inr css"
    "cs = (if rank then sort_key (\<lambda>c. - fst c) (concat css) else concat css)"
    using assms(1) by (auto simp: level_candidates_def obind_Inr_iff)
  then obtain ks where ks: "ks \<in> set css" "c \<in> set ks" using assms(2) by (auto split: if_splits)
  from omap_Inr_set [OF css(1) ks(1)] obtain p row where "(p, row) \<in> set (zip ps rows)" "node_candidates topk branch spec p row = Inr ks"
    by auto
  from this(1) node_candidates_parent [OF this(2) ks(2)] show ?thesis by (auto dest: set_zip_leftD)
qed

definition parent_code :: "nat option \<Rightarrow> int" where
  "parent_code p = (case p of None \<Rightarrow> - 1 | Some q \<Rightarrow> int q)"

lemma parent_code_inj [simp]: "parent_code p = parent_code q \<longleftrightarrow> p = q"
  by (auto simp: parent_code_def split: option.splits)

definition siblings_distinct :: "tree_spec \<Rightarrow> bool" where
  "siblings_distinct s = (\<forall>j < length (tokens s). \<forall>i < j. parents s ! i = parents s ! j \<longrightarrow> tokens s ! i \<noteq> tokens s ! j)"

text \<open>One level of appends: the new nodes are the next indices, hang off the allowed parents, never
  repeat a sibling's token, and stay within the budget.\<close>

definition grown :: "nat \<Rightarrow> nat option set \<Rightarrow> tree_spec \<Rightarrow> tree_spec \<Rightarrow> bool" where
  "grown budget P s s' =
     (tree_wf s' \<and> siblings_distinct s' \<and> num_history s' = num_history s \<and>
      length (tokens s) \<le> length (tokens s') \<and> length (tokens s') \<le> max budget (length (tokens s)) \<and>
      (\<forall>i < length (tokens s). parents s' ! i = parents s ! i \<and> depths s' ! i = depths s ! i) \<and>
      (\<forall>i < length (tokens s'). length (tokens s) \<le> i \<longrightarrow> (\<exists>p \<in> P. parents s' ! i = parent_code p)))"

lemma append_facts:
  assumes wf: "tree_wf s" and p: "\<forall>q. parent = Some q \<longrightarrow> q < length (tokens s)"
  obtains s' where "tree_append parent t c s = Inr (length (tokens s), s')" "tree_wf s'" "num_history s' = num_history s"
    "tokens s' = tokens s @ [t]" "parents s' = parents s @ [parent_code parent]"
    "\<And>i. i < length (tokens s) \<Longrightarrow> depths s' ! i = depths s ! i"
proof -
  obtain s' where s': "tree_append parent t c s = Inr (length (tokens s), s')" "tree_wf s'"
    "num_history s' = num_history s" "tokens s' = tokens s @ [t]" "parents s' = parents s @ [parent_code parent]"
    using tree_wf_append [OF wf p, of t c] by (auto simp: parent_code_def)
  moreover have "depths s' ! i = depths s ! i" if "i < length (tokens s)" for i
    using s'(1) that wf
    by (auto simp: tree_append_def Let_def obind_Inr_iff onth_Inr_iff tree_wf_def nth_append split: option.splits)
  ultimately show ?thesis by (rule that)
qed

lemma add_candidates_grown:
  assumes "tree_wf s" "siblings_distinct s"
    and "\<forall>c \<in> set cs. snd (snd c) \<in> P" "\<forall>q. Some q \<in> P \<longrightarrow> q < length (tokens s)"
    and "\<forall>i < length (tokens s). \<forall>p \<in> P. parents s ! i = parent_code p \<longrightarrow> (p, tokens s ! i) \<in> set seen"
  shows "\<exists>s'. add_candidates budget cs seen new s = Inr (new @ [length (tokens s)..<length (tokens s')], s') \<and> grown budget P s s' \<and>
    (length (tokens s') + length (new @ [length (tokens s)..<length (tokens s')]) \<le> max (budget + 1) (length (tokens s) + length new))"
  using assms
proof (induction budget cs seen new s rule: add_candidates.induct)
  case (1 budget seen new s)
  then show ?case by (intro exI [of _ s]) (auto simp: grown_def)
next
  case (2 budget conf t parent cs seen new s)
  show ?case
  proof (cases "length (tokens s) + length new \<ge> budget")
    case True
    with "2.prems" show ?thesis by (intro exI [of _ s]) (auto simp: grown_def)
  next
    case room: False
    show ?thesis
    proof (cases "(parent, t) \<in> set seen")
      case True
      with "2.IH"(1) [OF room True] "2.prems" room show ?thesis by simp
    next
      case False
      have parent: "parent \<in> P" using "2.prems"(3) by simp
      have pb: "\<forall>q. parent = Some q \<longrightarrow> q < length (tokens s)" using parent "2.prems"(4) by auto
      obtain s1 where s1: "tree_append parent t conf s = Inr (length (tokens s), s1)" "tree_wf s1"
        "num_history s1 = num_history s" "tokens s1 = tokens s @ [t]" "parents s1 = parents s @ [parent_code parent]"
        "\<And>i. i < length (tokens s) \<Longrightarrow> depths s1 ! i = depths s ! i"
        using append_facts [OF "2.prems"(1) pb, of t conf] by blast
      have lp: "length (parents s) = length (tokens s)" using "2.prems"(1) by (simp add: tree_wf_def)
      have sib: "siblings_distinct s1"
        using "2.prems"(2,5) s1(4,5) lp False parent
        by (fastforce simp: siblings_distinct_def nth_append less_Suc_eq)
      have seen: "\<forall>i < length (tokens s1). \<forall>p \<in> P. parents s1 ! i = parent_code p \<longrightarrow> (p, tokens s1 ! i) \<in> set ((parent, t) # seen)"
        using "2.prems"(5) s1(4,5) lp by (auto simp: nth_append less_Suc_eq)
      have P1: "\<forall>q. Some q \<in> P \<longrightarrow> q < length (tokens s1)" using "2.prems"(4) s1(4) by auto
      have cs: "\<forall>c \<in> set cs. snd (snd c) \<in> P" using "2.prems"(3) by simp
      from "2.IH"(2) [OF room False s1(2) sib cs P1 seen, of "length (tokens s)"]
      obtain s' where s': "add_candidates budget cs ((parent, t) # seen) (new @ [length (tokens s)]) s1
          = Inr ((new @ [length (tokens s)]) @ [length (tokens s1)..<length (tokens s')], s')" "grown budget P s1 s'"
        "length (tokens s') + length ((new @ [length (tokens s)]) @ [length (tokens s1)..<length (tokens s')])
           \<le> max (budget + 1) (length (tokens s1) + length (new @ [length (tokens s)]))" by auto
      have up: "[length (tokens s)] @ [length (tokens s1)..<length (tokens s')] = [length (tokens s)..<length (tokens s')]"
        using s'(2) s1(4) by (simp add: grown_def upt_conv_Cons)
      have hang: "\<exists>p \<in> P. parents s' ! i = parent_code p" if "i < length (tokens s')" "length (tokens s) \<le> i" for i
      proof (cases "i = length (tokens s)")
        case True
        then have "parents s' ! i = parent_code parent" using s'(2) s1(4,5) lp by (simp add: grown_def nth_append)
        then show ?thesis using parent by blast
      qed (use s'(2) s1(4) that in \<open>auto simp: grown_def\<close>)
      have "grown budget P s s'"
        unfolding grown_def using s'(2) s1(3-6) lp room hang
        by (auto simp: grown_def nth_append less_Suc_eq)
      moreover have "add_candidates budget ((conf, t, parent) # cs) seen new s
          = Inr (new @ [length (tokens s)..<length (tokens s')], s')"
        using room False s1(1) s'(1) up by simp
      moreover have "length (tokens s') + length (new @ [length (tokens s)..<length (tokens s')])
          \<le> max (budget + 1) (length (tokens s) + length new)"
        using s'(3) up s1(4) room by simp
      ultimately show ?thesis by blast
    qed
  qed
qed

text \<open>The expansion after the forward of depth \<open>d\<close>.\<close>

definition expansion_ok :: "nat \<Rightarrow> nat \<Rightarrow> nat \<Rightarrow> 'd expansion \<Rightarrow> bool" where
  "expansion_ok budget live d x =
     (let s = ex_spec x; n = length (tokens s) in
      tree_wf s \<and> siblings_distinct s \<and> num_history s = live \<and> n \<le> budget \<and>
      (\<forall>j < n. depths s ! j \<le> d) \<and> (\<forall>j \<in> set (ex_level x). j < n \<and> depths s ! j = d) \<and>
      (\<forall>i < n. \<forall>q \<in> set (ex_level x). parents s ! i \<noteq> int q))"

lemma grown_depths:
  assumes g: "grown budget P s s'" and P: "\<forall>p \<in> P. case p of None \<Rightarrow> d = 0 | Some q \<Rightarrow> q < length (tokens s) \<and> depths s ! q = d"
    and i: "length (tokens s) \<le> i" "i < length (tokens s')"
  shows "depths s' ! i = d + 1"
proof -
  obtain p where p: "p \<in> P" "parents s' ! i = parent_code p" using g i by (auto simp: grown_def)
  have "node_ok s' i" using g i(2) by (auto simp: grown_def tree_wf_def)
  then show ?thesis
    using p P g by (cases p) (auto simp: node_ok_def parent_code_def grown_def)
qed

lemma expansion_grow:
  assumes g: "grown budget P s s'" and wf: "tree_wf s" and n: "length (tokens s) \<le> budget" and old: "\<forall>j < length (tokens s). depths s ! j \<le> d"
    and P: "\<forall>p \<in> P. case p of None \<Rightarrow> d = 0 | Some q \<Rightarrow> q < length (tokens s) \<and> depths s ! q = d"
  shows "expansion_ok budget (num_history s) (d + 1)
    \<lparr> ex_draft = t, ex_spec = s', ex_level = [length (tokens s)..<length (tokens s')], ex_node_rows = nr \<rparr>"
proof -
  have new: "depths s' ! i = d + 1" if "length (tokens s) \<le> i" "i < length (tokens s')" for i
    using grown_depths [OF g P that] .
  have deep: "depths s' ! j \<le> d + 1" if "j < length (tokens s')" for j
    using new [of j] old g that by (cases "j < length (tokens s)") (auto simp: grown_def)
  have par: "parents s' ! i \<noteq> int q" if "i < length (tokens s')" "length (tokens s) \<le> q" for i q
  proof (cases "length (tokens s) \<le> i")
    case True
    with g that(1) obtain p where "p \<in> P" "parents s' ! i = parent_code p" by (auto simp: grown_def)
    with P that(2) show ?thesis by (cases p) (auto simp: parent_code_def)
  next
    case False
    then have "node_ok s i" using wf by (simp add: tree_wf_def)
    moreover have "parents s' ! i = parents s ! i" using g False by (simp add: grown_def)
    ultimately show ?thesis using False that(2) by (auto simp: node_ok_def)
  qed
  show ?thesis using g n new deep par by (auto simp: expansion_ok_def Let_def grown_def)
qed

lemma expand_root_ok:
  assumes "expand_root junk topk live e = Inr (row, x)"
  shows "expansion_ok (te_tree_budget e) live 1 x" "2 * length (ex_level x) \<le> te_tree_budget e + 1"
    "ex_level x = [0..<length (tokens (ex_spec x))]"
proof -
  obtain out d cands level spec where cands: "level_candidates topk (te_branch_factor e) (te_rank_by_confidence e) (tree_empty live) [None] [row] = Inr cands"
    and add: "add_candidates (te_tree_budget e) cands [] [] (tree_empty live) = Inr (level, spec)"
    and x: "x = \<lparr> ex_draft = d, ex_spec = spec, ex_level = level, ex_node_rows = [] \<rparr>"
    using assms by (auto simp: expand_root_def obind_Inr_iff)
  have emp: "length (tokens (tree_empty live)) = 0" by (simp add: tree_empty_def)
  have "\<forall>c \<in> set cands. snd (snd c) \<in> {None}" using level_candidates_parents [OF cands] by simp
  from add_candidates_grown [OF _ _ this, of "tree_empty live" "[]" "te_tree_budget e" "[]"]
  obtain s' where s': "add_candidates (te_tree_budget e) cands [] [] (tree_empty live) = Inr ([0..<length (tokens s')], s')"
    "grown (te_tree_budget e) {None} (tree_empty live) s'" "2 * length (tokens s') \<le> te_tree_budget e + 1"
    by (auto simp: emp siblings_distinct_def)
  have "expansion_ok (te_tree_budget e) (num_history (tree_empty live)) (0 + 1) x"
    using expansion_grow [OF s'(2), of 0 d "[]"] s'(1) add x by (auto simp: emp)
  then show "expansion_ok (te_tree_budget e) live 1 x" by (simp add: tree_empty_def)
  show "2 * length (ex_level x) \<le> te_tree_budget e + 1" "ex_level x = [0..<length (tokens (ex_spec x))]"
    using s'(1,3) add x by auto
qed

lemma expand_level_ok:
  assumes "expand_level junk topk live e x = Inr x'" "expansion_ok (te_tree_budget e) live d x"
  shows "expansion_ok (te_tree_budget e) live (d + 1) x'"
    "length (tokens (ex_spec x')) + length (ex_level x') \<le> max (te_tree_budget e + 1) (length (tokens (ex_spec x)))"
proof -
  note x = assms(2) [unfolded expansion_ok_def Let_def]
  show "expansion_ok (te_tree_budget e) live (d + 1) x'"
    "length (tokens (ex_spec x')) + length (ex_level x') \<le> max (te_tree_budget e + 1) (length (tokens (ex_spec x)))"
  proof (atomize (full), cases "ex_level x = []")
    case True
    with assms x show "expansion_ok (te_tree_budget e) live (d + 1) x' \<and>
      length (tokens (ex_spec x')) + length (ex_level x') \<le> max (te_tree_budget e + 1) (length (tokens (ex_spec x)))"
      by (auto simp: expand_level_def expansion_ok_def Let_def le_SucI)
  next
    case False
    let ?s = "ex_spec x" and ?P = "Some ` set (ex_level x)"
    obtain rows d1 cands level spec where
      cands: "level_candidates topk (te_branch_factor e) (te_rank_by_confidence e) ?s (map Some (ex_level x)) rows = Inr cands"
      and add: "add_candidates (te_tree_budget e) cands [] [] ?s = Inr (level, spec)"
      and x': "x' = \<lparr> ex_draft = d1, ex_spec = spec, ex_level = level, ex_node_rows = ex_node_rows x @ zip (ex_level x) rows \<rparr>"
      using assms(1) False by (auto simp: expand_level_def obind_Inr_iff)
    have parents: "\<forall>c \<in> set cands. snd (snd c) \<in> ?P" using level_candidates_parents [OF cands] by auto
    have fresh: "\<forall>i < length (tokens ?s). \<forall>p \<in> ?P. parents ?s ! i = parent_code p \<longrightarrow> (p, tokens ?s ! i) \<in> set []"
      using x by (auto simp: parent_code_def)
    have P: "\<forall>q. Some q \<in> ?P \<longrightarrow> q < length (tokens ?s)" using x by auto
    have wf: "tree_wf ?s" "siblings_distinct ?s" using x by auto
    obtain s' where s': "add_candidates (te_tree_budget e) cands [] [] ?s = Inr ([length (tokens ?s)..<length (tokens s')], s')"
      "grown (te_tree_budget e) ?P ?s s'"
      "length (tokens s') + length [length (tokens ?s)..<length (tokens s')] \<le> max (te_tree_budget e + 1) (length (tokens ?s))"
      using add_candidates_grown [OF wf parents P fresh, of "te_tree_budget e" "[]"] by auto
    have "expansion_ok (te_tree_budget e) (num_history ?s) (d + 1) x'"
      using expansion_grow [OF s'(2) wf(1), of d d1 "ex_node_rows x @ zip (ex_level x) rows"] s'(1) add x' x by auto
    then show "expansion_ok (te_tree_budget e) live (d + 1) x' \<and>
      length (tokens (ex_spec x')) + length (ex_level x') \<le> max (te_tree_budget e + 1) (length (tokens (ex_spec x)))"
      using x s' add x' by auto
  qed
qed

lemma expand_levels_ok:
  assumes "ofold (\<lambda>_. expand_level junk topk live e) [2..<m + 1] x0 = Inr x" "expansion_ok (te_tree_budget e) live 1 x0" "m \<ge> 1"
  shows "expansion_ok (te_tree_budget e) live m x"
  using assms(1,3)
proof (induction m arbitrary: x)
  case (Suc m)
  show ?case
  proof (cases "m = 0")
    case True
    with Suc assms(2) show ?thesis by simp
  next
    case False
    then have "[2..<Suc m + 1] = [2..<m + 1] @ [m + 1]" by simp
    with Suc.prems(1) obtain x1 where x1: "ofold (\<lambda>_. expand_level junk topk live e) [2..<m + 1] x0 = Inr x1"
      "expand_level junk topk live e x1 = Inr x" by (auto simp: ofold_append obind_Inr_iff)
    from Suc.IH [OF x1(1)] False expand_level_ok(1) [OF x1(2)] show ?thesis by simp
  qed
qed simp

section \<open>Every walk ends\<close>

lemma greedy_loop_ends:
  assumes wf: "tree_wf s"
  shows "valid_pos s u \<Longrightarrow> length committed = length path \<Longrightarrow>
    \<exists>r. greedy_loop logits s row (children s u) path committed = Some r \<and> (\<forall>p c. r = Inr (p, c) \<longrightarrow> length c = length p + 1)"
proof (induction "total_q s - row_of u" arbitrary: u row path committed rule: less_induct)
  case less
  show ?case
  proof (cases "torch_argmax row")
    case (Inl err)
    then show ?thesis by (subst greedy_loop.simps) simp
  next
    case (Inr t)
    show ?thesis
    proof (cases "match_child s (children s u) t")
      case None
      with Inr less.prems(2) show ?thesis by (subst greedy_loop.simps) simp
    next
      case (Some m)
      note d = step_down [OF wf less.prems(1) Some]
      have "total_q s - row_of (Some m) < total_q s - row_of u"
        using d(1,3) by (auto simp: valid_pos_def total_q_def row_of_def split: option.splits)
      from less.hyps [OF this d(1), of "committed @ [tokens s ! m]" "path @ [m]"] less.prems(2)
      have IH: "\<exists>r. greedy_loop logits s row' (children s (Some m)) (path @ [m]) (committed @ [tokens s ! m]) = Some r \<and>
          (\<forall>p c. r = Inr (p, c) \<longrightarrow> length c = length p + 1)" for row' by simp
      show ?thesis
        using Inr Some IH less.prems(2)
        by (subst greedy_loop.simps) (auto simp: Let_def split: sum.splits)
    qed
  qed
qed

lemma sampling_loop_ends:
  assumes wf: "tree_wf s"
  shows "valid_pos s u \<Longrightarrow> length committed = length path \<Longrightarrow>
    \<exists>r g'. sampling_loop draw logits s u path committed g = Some (r, g') \<and> (\<forall>p c. r = Inr (p, c) \<longrightarrow> length c = length p + 1)"
proof (induction "total_q s - row_of u" arbitrary: u path committed g rule: less_induct)
  case less
  show ?case
  proof (cases "onth logits (case u of None \<Rightarrow> 0 | Some j \<Rightarrow> j + 1)")
    case (Inl err)
    then show ?thesis by (subst sampling_loop.simps) simp
  next
    case (Inr row)
    show ?thesis
    proof (cases "match_child s (children s u) (fst (draw row g))")
      case None
      with Inr less.prems(2) show ?thesis by (subst sampling_loop.simps) simp
    next
      case (Some m)
      note d = step_down [OF wf less.prems(1) Some]
      have "total_q s - row_of (Some m) < total_q s - row_of u"
        using d(1,3) by (auto simp: valid_pos_def total_q_def row_of_def split: option.splits)
      from less.hyps [OF this d(1), of "committed @ [fst (draw row g)]" "path @ [m]" "snd (draw row g)"] less.prems(2) Inr Some
      show ?thesis by (subst sampling_loop.simps) simp
    qed
  qed
qed

lemma verify_tree_ends:
  assumes "tree_wf s"
  shows "\<exists>r g'. verify_tree draw greedy logits s g = Some (r, g') \<and> (\<forall>p c. r = Inr (p, c) \<longrightarrow> length c = length p + 1)"
proof (cases greedy)
  case True
  have "\<exists>r. find_greedy_path logits s = Some r \<and> (\<forall>p c. r = Inr (p, c) \<longrightarrow> length c = length p + 1)"
    using greedy_loop_ends [OF assms, of None "[]" "[]" logits]
    by (auto simp: find_greedy_path_def valid_pos_def split: sum.splits)
  with True show ?thesis by (auto simp: verify_tree_def)
next
  case False
  with sampling_loop_ends [OF assms, of None "[]" "[]"] show ?thesis
    by (simp add: verify_tree_def tree_verify_sampling_def valid_pos_def)
qed

lemma tree_engine_init_facts:
  assumes "tree_engine_init target c draft d bl nb budget branch depth rank = Inr e"
  shows "en_target e = new_track target c nb" "en_draft e = new_track draft d (nb - 1)" "en_block_len e = bl"
    "1 \<le> te_tree_budget e" "te_tree_budget e \<le> 63" "1 \<le> te_max_depth e" "int (te_tree_budget e) = budget"
    "int (te_max_depth e) = depth" "te_last_tree e = None"
    "en_stats e = \<lparr> st_steps = 0, st_proposed = 0, st_accepted = 0, st_committed = 0 \<rparr>"
  using assms
  by (auto simp: tree_engine_init_def engine_init_def obind_Inr_iff require_Inr_iff engine.defs tree_engine.defs)

text \<open>What an expanded tree looks like.\<close>

definition tree_shape :: "nat \<Rightarrow> nat \<Rightarrow> nat \<Rightarrow> tree_spec \<Rightarrow> bool" where
  "tree_shape budget live depth s =
     (tree_wf s \<and> siblings_distinct s \<and> num_history s = live \<and> length (tokens s) \<le> budget \<and>
      (\<forall>j < length (tokens s). depths s ! j \<le> depth))"

lemma expand_draft_ok:
  assumes "expand_draft junk topk e = Inr (spec, rows, d)" "1 \<le> te_max_depth e"
  shows "tree_shape (te_tree_budget e) (tr_context_len (en_draft e)) (te_max_depth e) spec"
    "tr_context_len (en_draft e) + 1 + te_tree_budget e < length (tr_block_table (en_draft e)) * en_block_len e"
    "tr_context_len (en_draft e) + 1 + te_tree_budget e < length (tr_block_table (en_target e)) * en_block_len e"
proof -
  let ?live = "tr_context_len (en_draft e)"
  obtain row x0 x where root: "expand_root junk topk ?live e = Inr (row, x0)"
    and levels: "ofold (\<lambda>_. expand_level junk topk ?live e) [2..<te_max_depth e + 1] x0 = Inr x" and spec: "ex_spec x = spec"
    using assms(1) by (auto simp: expand_draft_def Let_def obind_Inr_iff require_Inr_iff simp del: upt_Suc)
  from expand_levels_ok [OF levels expand_root_ok(1) [OF root] assms(2)] spec
  show "tree_shape (te_tree_budget e) ?live (te_max_depth e) spec"
    by (auto simp: tree_shape_def expansion_ok_def Let_def)
  show "?live + 1 + te_tree_budget e < length (tr_block_table (en_draft e)) * en_block_len e"
    "?live + 1 + te_tree_budget e < length (tr_block_table (en_target e)) * en_block_len e"
    using assms(1) by (auto simp: expand_draft_def Let_def require_Inr_iff simp del: upt_Suc)
qed

definition tree_stats_ok :: "spec_stats \<Rightarrow> bool" where
  "tree_stats_ok s = (st_committed s = st_accepted s + st_steps s)"

lemma tree_step_ends:
  assumes "1 \<le> te_max_depth e"
  shows "tree_step junk topk draw acct accd greedy e g \<noteq> None"
    "tree_step junk topk draw acct accd greedy e g = Some (Inr (committed, e', g')) \<Longrightarrow>
       committed \<noteq> [] \<and> te_max_depth e' = te_max_depth e \<and> (tree_stats_ok (en_stats e) \<longrightarrow> tree_stats_ok (en_stats e'))"
proof -
  have "tree_step junk topk draw acct accd greedy e g \<noteq> None \<and>
    (tree_step junk topk draw acct accd greedy e g = Some (Inr (committed, e', g')) \<longrightarrow>
       committed \<noteq> [] \<and> te_max_depth e' = te_max_depth e \<and> (tree_stats_ok (en_stats e) \<longrightarrow> tree_stats_ok (en_stats e')))"
  proof (cases "expand_draft junk topk e")
    case (Inr r)
    obtain spec rows d where ex: "expand_draft junk topk e = Inr (spec, rows, d)" using Inr by (cases r) auto
    have wf: "tree_wf spec" using expand_draft_ok(1) [OF ex assms] by (simp add: tree_shape_def)
    show ?thesis
    proof (cases "verify_forward junk (en_block_len e) (en_target e) spec")
      case (Inr q)
      obtain logits t where vf: "verify_forward junk (en_block_len e) (en_target e) spec = Inr (logits, t)" using Inr by (cases q) auto
      obtain res g1 where vt: "verify_tree draw greedy logits spec g = Some (res, g1)"
        "\<forall>p c. res = Inr (p, c) \<longrightarrow> length c = length p + 1"
        using verify_tree_ends [OF wf, of draw greedy logits g] by auto
      show ?thesis
      proof (cases res)
        case (Inr pc)
        obtain path c where pc: "pc = (path, c)" by (cases pc)
        then have len: "length c = length path + 1" using vt(2) Inr by simp
        show ?thesis
          using ex vf vt(1) Inr pc len
          by (auto simp: tree_step_def Let_def finish_step_def obind_Inr_iff tree_stats_ok_def bump_stats_def)
      qed (use ex vf vt(1) in \<open>auto simp: tree_step_def Let_def\<close>)
    qed (use ex in \<open>auto simp: tree_step_def Let_def\<close>)
  qed (auto simp: tree_step_def)
  then show "tree_step junk topk draw acct accd greedy e g \<noteq> None"
    "tree_step junk topk draw acct accd greedy e g = Some (Inr (committed, e', g')) \<Longrightarrow>
       committed \<noteq> [] \<and> te_max_depth e' = te_max_depth e \<and> (tree_stats_ok (en_stats e) \<longrightarrow> tree_stats_ok (en_stats e'))"
    by blast+
qed

lemma prefill_keeps_tree:
  assumes "prefill junk sm greedy prompt e g = Inr (first, e', g')"
  shows "te_max_depth e' = te_max_depth (e :: ('c, 'd) tree_engine)"
  using assms by (auto simp: prefill_def require_Inr_iff Let_def elim!: obindE)

section \<open>The commit\<close>

text \<open>The cache of a runner, if it has one, with room for the whole tree.\<close>

definition cache_room :: "('c, 'x) cache_access \<Rightarrow> 'c \<Rightarrow> nat \<Rightarrow> bool" where
  "cache_room acc c n =
     (\<forall>st. get_cache acc c = Some st \<longrightarrow> (\<forall>layer \<in> set (K_cache st) \<union> set (V_cache st). n \<le> length layer))"

text \<open>After a commit every cached layer has the accepted path contiguously behind the pending slot.\<close>

definition path_committed :: "('c, 'x) cache_access \<Rightarrow> nat \<Rightarrow> nat list \<Rightarrow> 'c \<Rightarrow> 'c \<Rightarrow> bool" where
  "path_committed acc live path c c' =
     (case get_cache acc c of
        None \<Rightarrow> c' = c
      | Some st \<Rightarrow> (\<exists>st'. c' = put_cache acc st' c \<and>
          list_all2 (\<lambda>old new. committed_layer live path old new) (K_cache st @ V_cache st) (K_cache st' @ V_cache st')))"

lemma commit_track_ok:
  assumes "tree_wf s" "valid_pos s v" "cache_room acc (tr_state t) (num_history s + 1 + length (tokens s))"
  shows "\<exists>c. commit_track acc (commit_moves (num_history s) (path_to s v)) t = Inr (t\<lparr> tr_state := c \<rparr>) \<and>
    path_committed acc (num_history s) (path_to s v) (tr_state t) c"
proof (cases "get_cache acc (tr_state t)")
  case None
  then show ?thesis by (intro exI [of _ "tr_state t"]) (simp add: commit_track_def path_committed_def)
next
  case (Some st)
  with assms(3) have "\<forall>layer \<in> set (K_cache st) \<union> set (V_cache st). num_history s + 1 + length (tokens s) \<le> length layer"
    by (simp add: cache_room_def)
  from gather_commit_ok [OF assms(1,2) this] obtain st' where st0:
    "gather_commit_kv st (map fst (commit_moves (num_history s) (path_to s v))) (map snd (commit_moves (num_history s) (path_to s v))) = Inr st'"
    "list_all2 (\<lambda>old new. committed_layer (num_history s) (path_to s v) old new \<and>
       new = fold (\<lambda>(x, d) xs. xs[d := xs ! x]) (commit_moves (num_history s) (path_to s v)) old)
       (K_cache st @ V_cache st) (K_cache st' @ V_cache st')" by blast
  have st': "gather_commit_kv st (map fst (commit_moves (num_history s) (path_to s v))) (map snd (commit_moves (num_history s) (path_to s v))) = Inr st'"
    "list_all2 (\<lambda>old new. committed_layer (num_history s) (path_to s v) old new) (K_cache st @ V_cache st) (K_cache st' @ V_cache st')"
    using st0(1) by (simp, intro list_all2_mono [OF st0(2)]) simp
  with Some show ?thesis by (intro exI [of _ "put_cache acc st' (tr_state t)"]) (auto simp: commit_track_def path_committed_def)
qed

lemma walk_path:
  assumes "tree_wf s" "\<And>xs. lm xs \<noteq> []"
  shows "\<exists>v c g'. valid_pos s v \<and> verify_tree draw greedy (rows_of_lm lm ctx s) s g = Some (Inr (path_to s v, c), g') \<and>
    (c, g') = (if greedy then (greedy_seq lm ctx (length c), g) else sample_seq draw lm ctx (length c) g) \<and> length c = length (path_to s v) + 1"
proof -
  have start: "valid_pos s None" "path_to s None = []" by (simp_all add: valid_pos_def path_to_def)
  show ?thesis
  proof (cases greedy)
    case True
    let ?rows = "rows_of_lm lm ctx s"
    have "length ?rows \<ge> total_q s" "\<forall>r \<in> set ?rows. r \<noteq> []"
      using assms(2) by (auto simp: rows_of_lm_def total_q_def)
    from find_greedy_path_walk [OF assms(1) this] obtain v c where
      w: "walk ?rows s None v c" "valid_pos s v" "find_greedy_path ?rows s = Some (Inr (path_to s v, c))" by blast
    have "c = greedy_seq lm ctx (length c)" using walk_greedy [OF w(1) assms(1) start(1)] by (simp add: start)
    moreover have "length c = length (path_to s v) + 1" using walk_tokens [OF w(1) assms(1) start(1)] by (simp add: start)
    ultimately show ?thesis using w True by (auto simp: verify_tree_def)
  next
    case False
    from sampling_loop_seq [OF assms(1) start(1), of draw lm ctx "[]" g] obtain v c g' where
      w: "valid_pos s v" "tree_verify_sampling draw (rows_of_lm lm ctx s) s g = Some (Inr (path_to s v, c), g')"
      "(c, g') = sample_seq draw lm ctx (length c) g" "c \<noteq> []" "map ((!) (tokens s)) (path_to s v) = butlast c"
      by (auto simp: start tree_verify_sampling_def)
    have "length c = length (path_to s v) + 1" using arg_cong [OF w(5), of length] w(4) by (cases c) auto
    with w False show ?thesis by (auto simp: verify_tree_def)
  qed
qed

section \<open>Theorems\<close>

text \<open>C33: The shape of an expanded tree. Whatever the draft proposes and however \<open>torch.topk\<close> breaks ties,
  a tree that \<open>_expand_draft\<close> returns is well formed (parents before children, masks that mirror the
  parent chains), has at most \<open>tree_budget\<close> nodes and depth at most \<open>max_depth\<close>, never proposes a token
  twice under one parent, starts at the draft's context, and all its scratch slots lie inside both
  caches.\<close>

theorem expansion_shape:
  assumes "tree_engine_init tr c dr cd bl nb budget branch depth rank = Inr e0"
    and "te_tree_budget e = te_tree_budget e0" "te_max_depth e = te_max_depth e0"
    and "expand_draft junk topk e = Inr (spec, rows, d)"
  shows "tree_shape (nat budget) (tr_context_len (en_draft e)) (nat depth) spec \<and> length (tokens spec) \<le> 63 \<and>
    (\<forall>j < length (tokens spec). logical_pos spec j < length (tr_block_table (en_draft e)) * en_block_len e \<and>
                                logical_pos spec j < length (tr_block_table (en_target e)) * en_block_len e)"
proof -
  note f = tree_engine_init_facts [OF assms(1)]
  have d: "1 \<le> te_max_depth e" using assms(3) f(6) by simp
  note ok = expand_draft_ok [OF assms(4) d]
  have "te_tree_budget e = nat budget" "te_max_depth e = nat depth" using f(7,8) assms(2,3) by auto
  moreover have "te_tree_budget e \<le> 63" using f(5) assms(2) by simp
  ultimately show ?thesis
    using ok by (auto simp: tree_shape_def logical_pos_def)
qed

text \<open>A draft that always scores three tokens, and the first tie-break of \<open>topk\<close>.\<close>

definition three_runner :: "(unit, real) runner" where
  "three_runner = \<lparr> forward = (\<lambda>mi c. Inr (map (\<lambda>_. [0, 0, 0]) (mi_input_token_ids mi), c)), try_decode_cuda_graph = None \<rparr>"

definition first_topk :: "real list \<Rightarrow> nat \<Rightarrow> (real \<times> nat) list" where
  "first_topk row k = map (\<lambda>i. (row ! i, i)) [0..<k]"

definition example_engine :: "(unit, unit) tree_engine" where
  "example_engine = projr (tree_engine_init three_runner () three_runner () 4 3 3 2 1 False)"

lemma example_engine_init: "tree_engine_init three_runner () three_runner () 4 3 3 2 1 False = Inr example_engine"
  by (simp add: example_engine_def tree_engine_init_def engine_init_def)

lemma example_expansion:
  "\<exists>spec rows d. expand_draft 0 first_topk example_engine = Inr (spec, rows, d) \<and> tokens spec = [0, 1]"
  by (simp add: example_engine_def tree_engine_init_def engine_init_def engine.defs tree_engine.defs expand_draft_def
      expand_root_def draft_forward_q1_def draft_decode_forward_def new_track_def make_input_def ceil_div_def
      three_runner_def new_buffers_def fill_buffers_def ensure_track_constants_def Let_def py_nth_def
      level_candidates_def node_candidates_def first_topk_def log_softmax_def tree_empty_def tree_append_def upt_rec
      slot_of_def nat_diff_distrib)

theorem expansion_shape_witness:
  "\<exists>spec rows d. expand_draft 0 first_topk example_engine = Inr (spec, rows, d) \<and> tree_shape 3 0 1 spec"
proof -
  obtain spec rows d where ex: "expand_draft 0 first_topk example_engine = Inr (spec, rows, d)" using example_expansion by blast
  have "tr_context_len (en_draft example_engine) = 0"
    using tree_engine_init_facts(2) [OF example_engine_init] by (simp add: new_track_def)
  with expansion_shape [OF example_engine_init refl refl ex] ex show ?thesis by simp
qed


definition no_cache :: "(unit, nat) cache_access" where
  "no_cache = \<lparr> get_cache = (\<lambda>_. None), put_cache = (\<lambda>_ c. c) \<rparr>"

lemma three_verify:
  assumes "tokens spec = [0, 1]" "length (depths spec) = 2" "build_tree_mask spec = Inr m"
  shows "\<exists>t. verify_forward 0 (en_block_len example_engine) (en_target example_engine) spec
    = Inr (rows_of_lm (\<lambda>_. [0, 0, 0]) [] spec, t)"
  using assms
  by (simp add: verify_forward_def example_engine_def tree_engine_init_def engine_init_def engine.defs tree_engine.defs
      make_tree_input_def new_track_def ensure_track_constants_def new_buffers_def three_runner_def rows_of_lm_def upt_rec rope_pos_def Let_def)


text \<open>C34: Tree \<open>generate\<close> always returns. For any two runners, any tie-breaking of \<open>torch.topk\<close>, greedy or
  sampling, \<open>generate\<close> on a fresh tree engine ends with an exception or with between one and
  \<open>max_new_len\<close> tokens, and its statistics count one committed token per step beyond the accepted ones.\<close>

theorem tree_generate_returns:
  assumes "tree_engine_init tr c dr cd bl nb budget branch depth rank = Inr e"
  shows "\<exists>r. tree_generate junk topk sm acct accd greedy prompt max_new eos e g = Some r \<and>
     (\<forall>xs e' g'. r = Inr (xs, e', g') \<longrightarrow> xs \<noteq> [] \<and> int (length xs) \<le> max_new \<and> tree_stats_ok (en_stats e'))"
proof -
  let ?P = "\<lambda>e. 1 \<le> te_max_depth e \<and> tree_stats_ok (en_stats e)"
  note f = tree_engine_init_facts [OF assms]
  have init: "?P e" using f(6,10) by (simp add: tree_stats_ok_def)
  have pre: "?P e'" if "?P e" "prefill junk sm greedy prompt e g = Inr (first, e', g')"
    for e e' :: "('a, 'b) tree_engine" and g g' first
    using prefill_keeps(1) [OF that(2)] prefill_keeps_tree [OF that(2)] that(1) by simp
  have stp: "committed \<noteq> [] \<and> ?P e'" if "?P e" "tree_step junk topk (draw_token sm) acct accd greedy e g = Some (Inr (committed, e', g'))"
    for e e' :: "('a, 'b) tree_engine" and g g' committed
    using tree_step_ends(2) [OF _ that(2)] that(1) by simp
  have ends: "tree_step junk topk (draw_token sm) acct accd greedy e g \<noteq> None" if "?P e" for e :: "('a, 'b) tree_engine" and g
    using that by (intro tree_step_ends(1)) simp
  obtain r where r: "generate_with (prefill junk sm greedy prompt) (tree_step junk topk (draw_token sm) acct accd greedy) max_new eos e g = Some r"
     "\<forall>xs e' g'. r = Inr (xs, e', g') \<longrightarrow> ?P e' \<and> xs \<noteq> [] \<and> int (length xs) \<le> max_new"
  proof -
    have "\<exists>r. generate_with (prefill junk sm greedy prompt) (tree_step junk topk (draw_token sm) acct accd greedy) max_new eos e g = Some r \<and>
     (\<forall>xs e' g'. r = Inr (xs, e', g') \<longrightarrow> ?P e' \<and> xs \<noteq> [] \<and> int (length xs) \<le> max_new)"
      by (rule generate_with_total [where Q = ?P]) (fact pre stp ends init)+
    then show ?thesis by (elim exE conjE) (rule that)
  qed
  then show ?thesis unfolding tree_generate_def by simp
qed

theorem tree_generate_returns_witness:
  "\<exists>r. tree_generate 0 first_topk \<lparr> draw_token = (\<lambda>r g. (0, g)), row_probs = (\<lambda>r. []), accept_rows = (\<lambda>a b c g. ([], g)) \<rparr>
     no_cache no_cache False [1] 2 None example_engine () = Some r"
  using tree_generate_returns [OF example_engine_init, where junk = 0 and topk = first_topk and max_new = 2 and eos = None
      and sm = "\<lparr> draw_token = (\<lambda>r g. (0, g)), row_probs = (\<lambda>r. []), accept_rows = (\<lambda>a b c g. ([], g)) \<rparr>"
      and acct = no_cache and accd = no_cache and greedy = False and prompt = "[1]" and g = "()"]
  by (elim exE conjE) (rule exI)



end
