(* ===== verification/ReferenceModel.thy ===== *)
theory ReferenceModel
  imports Input Decoding "HOL-Library.Option_ord"
begin

text \<open>
  The model runners of \<open>executors/torch/model_runner.py\<close>, in exact real arithmetic: the deterministic
  runner used by tests and the reference transformer that reads and writes the paged cache. The main
  result is that a packed, cached forward computes the same logits as recomputing every request from
  its first token without a cache.
\<close>

section \<open>\<open>DeterministicModelRunner\<close>\<close>

text \<open>A score is \<open>None\<close> for minus infinity; \<open>None\<close> is the least element of the option order.\<close>

definition deterministic_init :: "int \<Rightarrow> nat outcome" where
  "deterministic_init vocab = require (0 < vocab) (ValueError ''vocab_size must be positive'') (Inr (nat vocab))"

definition deterministic_forward :: "nat \<Rightarrow> model_input \<Rightarrow> real option list list" where
  "deterministic_forward V mi =
     map (\<lambda>t. (replicate V None)[nat ((t + 1) mod int V) := Some 0]) (mi_input_token_ids mi)"

section \<open>Vectors\<close>

definition dot :: "real list \<Rightarrow> real list \<Rightarrow> real" where
  "dot xs ys = sum_list (map2 (*) xs ys)"

record linear =
  weight :: "real list list"
  bias :: "real list"

definition linear_fwd :: "linear \<Rightarrow> real list \<Rightarrow> real list" where
  "linear_fwd L x = map2 (\<lambda>row b. dot row x + b) (weight L) (bias L)"

section \<open>Rotary embedding\<close>

definition rotary_init :: "nat \<Rightarrow> real \<Rightarrow> real list outcome" where
  "rotary_init d base =
     require (d mod 2 = 0) (ValueError ''RoPE head dimension must be even'')
       (Inr (map (\<lambda>j. 1 / (base powr (real (2 * j) / real d))) [0..<d div 2]))"

definition rotary_forward :: "real list \<Rightarrow> int \<Rightarrow> real list \<times> real list" where
  "rotary_forward inv_freq pos =
     (let freqs = map (\<lambda>f. real_of_int pos * f) inv_freq; emb = freqs @ freqs
      in (map cos emb, map sin emb))"

definition rotate_half :: "real list \<Rightarrow> real list" where
  "rotate_half x =
     (let h = length x div 2 in map uminus (drop h x) @ take h x)"

definition apply_rotary :: "real list \<times> real list \<Rightarrow> real list \<Rightarrow> real list" where
  "apply_rotary cs x =
     map2 (+) (map2 (*) x (fst cs)) (map2 (*) (rotate_half x) (snd cs))"

section \<open>Attention of one layer\<close>

record layer =
  num_heads :: nat
  kv_heads :: nat
  head_dim :: nat
  lin_q :: linear
  lin_k :: linear
  lin_v :: linear
  lin_o :: linear

definition layer_init :: "nat \<Rightarrow> nat \<Rightarrow> nat \<Rightarrow> linear \<Rightarrow> linear \<Rightarrow> linear \<Rightarrow> linear \<Rightarrow> layer outcome" where
  "layer_init heads kvh d q k v out =
     require (kvh \<noteq> 0) ZeroDivisionError
       (require (heads mod kvh = 0) (ValueError ''num_attention_heads must be divisible by num_kv_heads'')
         (Inr \<lparr> num_heads = heads, kv_heads = kvh, head_dim = d, lin_q = q, lin_k = k, lin_v = v, lin_o = out \<rparr>))"

text \<open>\<open>self.Q(x).view(packed_len, heads, head_dim)\<close> of one token, and the rotated form.\<close>

definition project :: "linear \<Rightarrow> nat \<Rightarrow> real list \<Rightarrow> real list list" where
  "project L d x = rows_of d (linear_fwd L x)"

definition rotated :: "real list \<Rightarrow> int \<Rightarrow> real list list \<Rightarrow> real list list" where
  "rotated inv_freq pos vs = map (apply_rotary (rotary_forward inv_freq pos)) vs"

definition repeat_kv :: "real list list \<Rightarrow> nat \<Rightarrow> real list list" where
  "repeat_kv vs scale = concat (map (replicate scale) vs)"

text \<open>The additive mask: \<open>None\<close> where a key lies after the query.\<close>

definition build_causal_mask :: "nat \<Rightarrow> int \<Rightarrow> real option list list" where
  "build_causal_mask q_len start_pos =
     (let total = nat (start_pos + int q_len)
      in map (\<lambda>i. map (\<lambda>t. if start_pos + int i \<ge> int t then Some 0 else None) [0..<total]) [0..<q_len])"

definition add_mask :: "real list \<Rightarrow> real option list \<Rightarrow> real option list" where
  "add_mask scores m = map2 (\<lambda>s a. case a of None \<Rightarrow> None | Some b \<Rightarrow> Some (s + b)) scores m"

definition masked_softmax :: "real option list \<Rightarrow> real list" where
  "masked_softmax scores =
     (let es = map (\<lambda>s. case s of None \<Rightarrow> 0 | Some x \<Rightarrow> exp x) scores
      in map (\<lambda>e. e / sum_list es) es)"

definition weighted_sum :: "nat \<Rightarrow> real list \<Rightarrow> real list list \<Rightarrow> real list" where
  "weighted_sum d ws vs = map (\<lambda>c. sum_list (map2 (\<lambda>w v. w * v ! c) ws vs)) [0..<d]"

text \<open>One query token against the gathered context: \<open>q\<close> has a row per head, \<open>ks\<close> and \<open>vs\<close> one slot
  (a row per kv head) per context position.\<close>

definition attend_token ::
    "layer \<Rightarrow> real option list \<Rightarrow> real list list \<Rightarrow> real list list list \<Rightarrow> real list list list \<Rightarrow> real list" where
  "attend_token L m q ks vs =
     (let groups = num_heads L div kv_heads L;
          rks = map (\<lambda>k. repeat_kv k groups) ks; rvs = map (\<lambda>v. repeat_kv v groups) vs
      in concat (map (\<lambda>h.
           let scores = map (\<lambda>k. dot (q ! h) (k ! h) / sqrt (real (head_dim L))) rks;
               probs = masked_softmax (add_mask scores m)
           in weighted_sum (head_dim L) probs (map (\<lambda>v. v ! h) rvs)) [0..<num_heads L]))"

type_synonym slot_data = "real list list"

definition no_write_op :: "slot_data list \<Rightarrow> slot_data list \<Rightarrow> int list \<Rightarrow> slot_data list \<Rightarrow> slot_data list
    \<Rightarrow> (slot_data list \<times> slot_data list) outcome" where
  "no_write_op k v slots ks vs = Inl NotImplementedError"

definition no_gather_op :: "slot_data list \<Rightarrow> slot_data list \<Rightarrow> int list \<Rightarrow> nat
    \<Rightarrow> (slot_data list \<times> slot_data list) outcome" where
  "no_gather_op k v table n = Inl NotImplementedError"

text \<open>One request of the packed batch: its queries, its gathered context, the causal mask.\<close>

definition request_attention ::
    "layer \<Rightarrow> nat \<Rightarrow> model_input \<Rightarrow> slot_data list \<Rightarrow> slot_data kv_storage \<Rightarrow> nat \<Rightarrow> real list list outcome" where
  "request_attention L idx mi Q st r =
     obind (onth (mi_query_start_loc mi) r) (\<lambda>qs.
     obind (onth (mi_query_start_loc mi) (r + 1)) (\<lambda>qe.
     obind (onth (mi_context_lens mi) r) (\<lambda>ctx.
     obind (onth (mi_block_tables mi) r) (\<lambda>table.
       let q_len = nat (qe - qs); request_Q = take q_len (drop (nat qs) Q)
       in obind (gather_context no_gather_op st idx table (nat ctx)) (\<lambda>(ks, vs).
            Inr (map2 (\<lambda>q m. attend_token L m q ks vs) request_Q
                   (build_causal_mask q_len (ctx - int q_len))))))))"

definition layer_forward ::
    "real list \<Rightarrow> nat \<Rightarrow> layer \<Rightarrow> model_input \<Rightarrow> real list list \<Rightarrow> slot_data kv_storage
       \<Rightarrow> (real list list \<times> slot_data kv_storage) outcome" where
  "layer_forward inv_freq idx L mi x st =
     (let rope = map2 (rotated inv_freq) (mi_position mi);
          Q = rope (map (project (lin_q L) (head_dim L)) x);
          K = rope (map (project (lin_k L) (head_dim L)) x);
          V = map (project (lin_v L) (head_dim L)) x
      in obind (write_slots no_write_op (\<lambda>_ s. s) (st_kv_dtype st) st idx (mi_slot_mapping mi) K V) (\<lambda>st'.
         obind (omap (request_attention L idx mi Q st') [0..<length (mi_query_start_loc mi) - 1]) (\<lambda>outs.
           Inr (map (linear_fwd (lin_o L)) (concat outs), st'))))"

section \<open>\<open>ReferenceModelRunner\<close>\<close>

record ref_model =
  embedding :: "real list list"
  inv_freqs :: "real list"
  layers :: "layer list"
  lm_head :: "real list list"

definition embed :: "ref_model \<Rightarrow> int list \<Rightarrow> real list list outcome" where
  "embed M toks =
     omap (\<lambda>t. if 0 \<le> t \<and> t < int (length (embedding M)) then Inr (embedding M ! nat t) else Inl IndexError) toks"

definition head_logits :: "ref_model \<Rightarrow> real list \<Rightarrow> real list" where
  "head_logits M x = map (\<lambda>row. dot row x) (lm_head M)"

definition ref_forward ::
    "ref_model \<Rightarrow> model_input \<Rightarrow> slot_data kv_storage \<Rightarrow> (real list list \<times> slot_data kv_storage) outcome" where
  "ref_forward M mi st =
     obind (embed M (mi_input_token_ids mi)) (\<lambda>h0.
     obind (ofold (\<lambda>(idx, L) (x, s). layer_forward (inv_freqs M) idx L mi x s)
              (zip [0..<length (layers M)] (layers M)) (h0, st)) (\<lambda>(h, st').
       Inr (map (head_logits M) h, st')))"

section \<open>Recomputation without a cache\<close>

text \<open>
  The specification: hidden states of all positions of one token sequence, layer by layer, every
  position attending to the positions up to itself.
\<close>

definition spec_ks :: "real list \<Rightarrow> layer \<Rightarrow> real list list \<Rightarrow> slot_data list" where
  "spec_ks inv_freq L H = map (\<lambda>i. rotated inv_freq (int i) (project (lin_k L) (head_dim L) (H ! i))) [0..<length H]"

definition spec_vs :: "layer \<Rightarrow> real list list \<Rightarrow> slot_data list" where
  "spec_vs L H = map (project (lin_v L) (head_dim L)) H"

definition spec_layer :: "real list \<Rightarrow> layer \<Rightarrow> real list list \<Rightarrow> real list list" where
  "spec_layer inv_freq L H =
     map (\<lambda>i. linear_fwd (lin_o L)
            (attend_token L (replicate (i + 1) (Some 0))
               (rotated inv_freq (int i) (project (lin_q L) (head_dim L) (H ! i)))
               (take (i + 1) (spec_ks inv_freq L H)) (take (i + 1) (spec_vs L H)))) [0..<length H]"

definition spec_hidden :: "ref_model \<Rightarrow> nat \<Rightarrow> int list \<Rightarrow> real list list" where
  "spec_hidden M n xs =
     fold (spec_layer (inv_freqs M)) (take n (layers M)) (map (\<lambda>t. embedding M ! nat t) xs)"

definition spec_logits :: "ref_model \<Rightarrow> int list \<Rightarrow> real list" where
  "spec_logits M xs = head_logits M (last (spec_hidden M (length (layers M)) xs))"

lemma length_spec_layer [simp]: "length (spec_layer f L H) = length H"
  by (simp add: spec_layer_def)

lemma length_fold_spec [simp]: "length (fold (spec_layer f) Ls H) = length H"
  by (induction Ls arbitrary: H) auto

lemma length_spec_hidden [simp]: "length (spec_hidden M n xs) = length xs"
  by (simp add: spec_hidden_def)

lemma length_spec_ks [simp]: "length (spec_ks f L H) = length H" "length (spec_vs L H) = length H"
  by (simp_all add: spec_ks_def spec_vs_def)

lemma spec_ks_take: "spec_ks f L (take n H) = take n (spec_ks f L H)" "spec_vs L (take n H) = take n (spec_vs L H)"
  by (auto simp: spec_ks_def spec_vs_def take_map intro!: nth_equalityI)

lemma spec_layer_take: "spec_layer f L (take n H) = take n (spec_layer f L H)"
proof (rule nth_equalityI)
  fix i assume "i < length (spec_layer f L (take n H))"
  then have i: "i < n" "i < length H" by auto
  then have "min (Suc i) n = Suc i" by simp
  with i show "spec_layer f L (take n H) ! i = take n (spec_layer f L H) ! i"
    by (simp add: spec_layer_def spec_ks_take min_def)
qed simp

lemma fold_spec_take: "fold (spec_layer f) Ls (take n H) = take n (fold (spec_layer f) Ls H)"
  by (induction Ls arbitrary: H) (auto simp: spec_layer_take)

lemma spec_hidden_take: "spec_hidden M n (take m xs) = take m (spec_hidden M n xs)"
  by (simp add: spec_hidden_def fold_spec_take flip: take_map)

lemma spec_hidden_Suc:
  "n < length (layers M) \<Longrightarrow> spec_hidden M (Suc n) xs = spec_layer (inv_freqs M) (layers M ! n) (spec_hidden M n xs)"
  by (simp add: spec_hidden_def take_Suc_conv_app_nth)

lemma spec_logits_nth:
  "i < length xs \<Longrightarrow> head_logits M (spec_hidden M (length (layers M)) xs ! i) = spec_logits M (take (Suc i) xs)"
  unfolding spec_logits_def spec_hidden_take by (simp add: take_Suc_conv_app_nth)

section \<open>Masked attention is prefix attention\<close>

lemma masked_prefix:
  assumes "n \<le> length ks" "length vs = length ks"
    and m: "m = map (\<lambda>t. if t < n then Some 0 else None) [0..<length ks]"
  shows "attend_token L m q ks vs = attend_token L (replicate n (Some 0)) q (take n ks) (take n vs)"
proof -
  have split: "m = replicate n (Some 0) @ replicate (length ks - n) None"
    unfolding m using assms(1) by (intro nth_equalityI) (auto simp: nth_append)
  have am: "add_mask scores m = add_mask (take n scores) (replicate n (Some 0)) @ replicate (length ks - n) None"
    if "length scores = length ks" for scores
    unfolding split using that assms(1)
    by (intro nth_equalityI) (auto simp: add_mask_def nth_append)
  have sm: "masked_softmax (add_mask scores m) =
      masked_softmax (add_mask (take n scores) (replicate n (Some 0))) @ replicate (length ks - n) 0"
    if "length scores = length ks" for scores
    by (simp add: am [OF that] masked_softmax_def Let_def sum_list_replicate)
  have ws: "weighted_sum d (ps @ replicate (length ks - n) 0) us = weighted_sum d ps (take n us)"
    if "length ps = n" "length us = length ks" for d ps us
  proof -
    have "map2 (\<lambda>w v. w * v ! c) (ps @ replicate (length ks - n) 0) us
        = map2 (\<lambda>w v. w * v ! c) ps (take n us) @ replicate (length ks - n) 0" for c
      using that assms(1) by (intro nth_equalityI) (auto simp: nth_append)
    then show ?thesis by (simp add: weighted_sum_def sum_list_replicate)
  qed
  have head: "weighted_sum d (masked_softmax (add_mask scores m)) us =
      weighted_sum d (masked_softmax (add_mask (take n scores) (replicate n (Some 0)))) (take n us)"
    if "length scores = length ks" "length us = length ks" for d scores us
    using that assms(1) by (simp add: sm ws) (rule ws, simp_all add: masked_softmax_def add_mask_def Let_def)
  show ?thesis
    unfolding attend_token_def Let_def
  proof (intro arg_cong [where f = concat] map_cong refl)
    fix h
    let ?g = "num_heads L div kv_heads L"
    let ?s = "map (\<lambda>k. dot (q ! h) (k ! h) / sqrt (real (head_dim L))) (map (\<lambda>k. repeat_kv k ?g) ks)"
    let ?u = "map (\<lambda>v. v ! h) (map (\<lambda>v. repeat_kv v ?g) vs)"
    show "weighted_sum (head_dim L) (masked_softmax (add_mask ?s m)) ?u =
      weighted_sum (head_dim L)
        (masked_softmax (add_mask (map (\<lambda>k. dot (q ! h) (k ! h) / sqrt (real (head_dim L))) (map (\<lambda>k. repeat_kv k ?g) (take n ks)))
           (replicate n (Some 0))))
        (map (\<lambda>v. v ! h) (map (\<lambda>v. repeat_kv v ?g) (take n vs)))"
      using head [of ?s ?u "head_dim L"] assms(2) by (simp only: take_map length_map)
  qed
qed

lemma causal_mask_row:
  assumes "i < q_len" "q_len \<le> ctx"
  shows "build_causal_mask q_len (int ctx - int q_len) ! i =
    map (\<lambda>t. if t < ctx - q_len + i + 1 then Some 0 else None) [0..<ctx]"
  using assms by (auto simp: build_causal_mask_def Let_def intro!: map_cong)

section \<open>A packed batch over the paged cache\<close>

text \<open>
  A scheduled batch together with the full token sequences \<open>xss\<close> of its requests: request \<open>r\<close> has its
  first \<open>start_position r\<close> tokens in the cache and feeds the rest. Distinct requests may share pages
  they only read; the slots written by the batch are distinct and none of them holds an earlier
  token of any request.
\<close>

definition batch_ok :: "nat \<Rightarrow> nat \<Rightarrow> scheduled_request list \<Rightarrow> int list list \<Rightarrow> bool" where
  "batch_ok bl nb rs xss =
     (bl > 0 \<and> length xss = length rs \<and> distinct (batch_slots bl rs) \<and>
      (\<forall>r < length rs. length (xss ! r) = request_context (rs ! r) \<and>
         drop (start_position (rs ! r)) (xss ! r) = input_token_ids (rs ! r) \<and>
         pages_of bl (rs ! r) \<le> length (block_table (rs ! r)) \<and>
         (\<forall>b \<in> set (take (pages_of bl (rs ! r)) (block_table (rs ! r))). 0 \<le> b \<and> b < int nb) \<and>
         (\<forall>p < start_position (rs ! r). slot_at (block_table (rs ! r)) bl p \<notin> set (batch_slots bl rs))))"

definition kv_ok :: "ref_model \<Rightarrow> nat \<Rightarrow> nat \<Rightarrow> slot_data kv_storage \<Rightarrow> bool" where
  "kv_ok M bl nb st =
     (geo_block_len (geometry st) = bl \<and> st_kv_dtype st \<in> set float_dtypes \<and> \<not> use_custom_ops st \<and>
      length (K_cache st) = length (layers M) \<and> length (V_cache st) = length (layers M) \<and>
      (\<forall>l < length (layers M). length (K_cache st ! l) = nb * bl \<and> length (V_cache st ! l) = nb * bl))"

text \<open>Layer \<open>l\<close> of the cache holds the first \<open>n\<close> positions of \<open>xs\<close> at the slots of \<open>table\<close>.\<close>

definition layer_holds :: "ref_model \<Rightarrow> nat \<Rightarrow> slot_data kv_storage \<Rightarrow> nat \<Rightarrow> int list \<Rightarrow> int list \<Rightarrow> nat \<Rightarrow> bool" where
  "layer_holds M bl st l table xs n =
     (\<forall>p < n. K_cache st ! l ! nat (slot_at table bl p) = spec_ks (inv_freqs M) (layers M ! l) (spec_hidden M l xs) ! p \<and>
              V_cache st ! l ! nat (slot_at table bl p) = spec_vs (layers M ! l) (spec_hidden M l xs) ! p)"

definition cache_holds :: "ref_model \<Rightarrow> nat \<Rightarrow> slot_data kv_storage \<Rightarrow> int list \<Rightarrow> int list \<Rightarrow> nat \<Rightarrow> bool" where
  "cache_holds M bl st table xs n = (\<forall>l < length (layers M). layer_holds M bl st l table xs n)"

lemma map2_concat:
  "list_all2 (\<lambda>a b. length a = length b) ass bss \<Longrightarrow> map2 f (concat ass) (concat bss) = concat (map2 (map2 f) ass bss)"
  by (induction rule: list_all2_induct) auto

lemma slot_at_cong:
  assumes "take n t = take n t'" "pos div bl < n"
  shows "slot_at t bl pos = slot_at t' bl pos"
proof -
  have "t ! (pos div bl) = take n t ! (pos div bl)" using assms(2) by simp
  also have "\<dots> = t' ! (pos div bl)" using assms by simp
  finally show ?thesis by (simp add: slot_at_def)
qed

lemma request_page:
  "bl > 0 \<Longrightarrow> p < request_context r \<Longrightarrow> p div bl < pages_of bl r"
  by (simp add: pages_of_def div_less_ceil_div)

lemma batch_slot_bounds:
  assumes "batch_ok bl nb rs xss" "r < length rs" "p < request_context (rs ! r)"
  shows "0 \<le> slot_at (block_table (rs ! r)) bl p" "slot_at (block_table (rs ! r)) bl p < int (nb * bl)"
    "p div bl < length (block_table (rs ! r))"
proof -
  have bl: "bl > 0" using assms(1) by (simp add: batch_ok_def)
  have pg: "p div bl < pages_of bl (rs ! r)" using request_page [OF bl assms(3)] .
  moreover have t: "pages_of bl (rs ! r) \<le> length (block_table (rs ! r))"
    "\<forall>b \<in> set (take (pages_of bl (rs ! r)) (block_table (rs ! r))). 0 \<le> b \<and> b < int nb"
    using assms(1,2) by (auto simp: batch_ok_def)
  ultimately have "block_table (rs ! r) ! (p div bl) \<in> set (take (pages_of bl (rs ! r)) (block_table (rs ! r)))"
    by (auto simp: in_set_conv_nth intro!: exI [of _ "p div bl"])
  with t(2) have "0 \<le> block_table (rs ! r) ! (p div bl)" "block_table (rs ! r) ! (p div bl) < int nb" by auto
  with slot_at_bounds [OF bl] show "0 \<le> slot_at (block_table (rs ! r)) bl p"
    "slot_at (block_table (rs ! r)) bl p < int (nb * bl)" by auto
  show "p div bl < length (block_table (rs ! r))" using pg t(1) by simp
qed

lemma batch_slots_bounds:
  assumes "batch_ok bl nb rs xss" "s \<in> set (batch_slots bl rs)"
  shows "0 \<le> s \<and> s < int (nb * bl)"
proof -
  from assms(2) obtain r i where r: "r < length rs" "i < length (input_token_ids (rs ! r))"
    "s = slot_at (block_table (rs ! r)) bl (start_position (rs ! r) + i)"
    by (auto simp: batch_slots_def slots_at_def in_set_conv_nth)
  then show ?thesis
    using batch_slot_bounds [OF assms(1) r(1), of "start_position (rs ! r) + i"] by (simp add: request_context_def)
qed

text \<open>Scattering per-request chunks over the batch slots, then reading a request's slots.\<close>

lemma batch_scatter:
  assumes ok: "batch_ok bl nb rs xss" and cache: "length cache = nb * bl"
    and data: "\<And>r. r < length rs \<Longrightarrow> length (data r) = request_context (rs ! r)"
    and held: "\<And>r p. r < length rs \<Longrightarrow> p < start_position (rs ! r) \<Longrightarrow> cache ! nat (slot_at (block_table (rs ! r)) bl p) = data r ! p"
  defines "src \<equiv> concat (map (\<lambda>r. drop (start_position (rs ! r)) (data r)) [0..<length rs])"
  shows "\<exists>new. index_copy (batch_slots bl rs) src cache = Inr new \<and> length new = nb * bl \<and>
    (\<forall>r < length rs. \<forall>p < request_context (rs ! r). new ! nat (slot_at (block_table (rs ! r)) bl p) = data r ! p)"
proof -
  let ?slots = "batch_slots bl rs"
  have bounds: "\<forall>i \<in> set ?slots. 0 \<le> i \<and> i < int (length cache)"
    using batch_slots_bounds [OF ok] cache by simp
  have dst: "distinct ?slots" using ok by (simp add: batch_ok_def)
  have slot_map: "batch_slots bl rs = concat (map (\<lambda>r. slots_at bl (rs ! r)) [0..<length rs])"
  proof -
    have "map (slots_at bl) rs = map (\<lambda>r. slots_at bl (rs ! r)) [0..<length rs]" by (rule nth_equalityI) auto
    then show ?thesis by (simp only: batch_slots_def)
  qed
  have lens: "length (drop (start_position (rs ! r)) (data r)) = length (slots_at bl (rs ! r))" if "r < length rs" for r
    using data [OF that] by (simp add: request_context_def)
  have len: "length ?slots = length src"
    unfolding src_def slot_map length_concat map_map
    by (intro arg_cong [where f = sum_list] map_cong refl) (use lens in auto)
  define new where "new = fold (\<lambda>(i, x) ys. ys[nat i := x]) (zip ?slots src) cache"
  have copy: "index_copy ?slots src cache = Inr new"
    using index_copy_Inr [OF len] bounds by (simp add: new_def)
  have "new ! nat (slot_at (block_table (rs ! r)) bl p) = data r ! p"
    if r: "r < length rs" and p: "p < request_context (rs ! r)" for r p
  proof (cases "p < start_position (rs ! r)")
    case True
    have "slot_at (block_table (rs ! r)) bl p \<notin> set ?slots" using ok r True by (simp add: batch_ok_def)
    from copy_other [OF copy this batch_slot_bounds(1) [OF ok r p]] held [OF r True] show ?thesis by simp
  next
    case False
    let ?i = "p - start_position (rs ! r)"
    have i: "?i < length (slots_at bl (rs ! r))" "start_position (rs ! r) + ?i = p"
      using False p by (auto simp: request_context_def)
    let ?k = "sum_list (take r (map length (map (\<lambda>r. slots_at bl (rs ! r)) [0..<length rs]))) + ?i"
    have eqlens: "map length (map (\<lambda>r. slots_at bl (rs ! r)) [0..<length rs])
        = map length (map (\<lambda>r. drop (start_position (rs ! r)) (data r)) [0..<length rs])"
      using lens by simp
    have s: "?slots ! ?k = slot_at (block_table (rs ! r)) bl p"
      unfolding slot_map using r i by (subst nth_concat_offset) (auto simp: slots_at_def)
    have d: "src ! ?k = data r ! p"
      unfolding src_def eqlens using r i lens [OF r] data [OF r] p by (subst nth_concat_offset) auto
    have k: "?k < length ?slots"
    proof -
      have "sum_list (take (Suc r) (map length (map (\<lambda>r. slots_at bl (rs ! r)) [0..<length rs]))) \<le> length ?slots"
        unfolding slot_map length_concat by (rule sum_list_take_le)
      moreover have "sum_list (take (Suc r) (map length (map (\<lambda>r. slots_at bl (rs ! r)) [0..<length rs])))
          = sum_list (take r (map length (map (\<lambda>r. slots_at bl (rs ! r)) [0..<length rs]))) + length (slots_at bl (rs ! r))"
        using r by (subst sum_list_take_Suc) auto
      ultimately show ?thesis using i(1) by linarith
    qed
    have "new ! nat (?slots ! ?k) = src ! ?k"
      unfolding new_def using bounds dst len k
      by (intro scatter_at distinct_map_nat) auto
    with s d show ?thesis by simp
  qed
  moreover have "length new = nb * bl" using cache by (simp add: new_def)
  ultimately show ?thesis using copy by blast
qed

definition spec_qs :: "real list \<Rightarrow> layer \<Rightarrow> real list list \<Rightarrow> slot_data list" where
  "spec_qs inv_freq L H = map (\<lambda>i. rotated inv_freq (int i) (project (lin_q L) (head_dim L) (H ! i))) [0..<length H]"

lemma map_index_list: "map f rs = map (\<lambda>r. f (rs ! r)) [0..<length rs]"
  by (rule nth_equalityI) auto

lemma packed_positions:
  assumes "\<And>r. r < length rs \<Longrightarrow> length (H r) = request_context (rs ! r)"
  shows "map2 g (concat (map request_positions rs)) (concat (map (\<lambda>r. drop (start_position (rs ! r)) (H r)) [0..<length rs]))
    = concat (map (\<lambda>r. drop (start_position (rs ! r)) (map (\<lambda>i. g (int i) (H r ! i)) [0..<length (H r)])) [0..<length rs])"
proof -
  have chunk: "map2 g (request_positions (rs ! r)) (drop (start_position (rs ! r)) (H r))
      = drop (start_position (rs ! r)) (map (\<lambda>i. g (int i) (H r ! i)) [0..<length (H r)])" if "r < length rs" for r
    using assms [OF that]
    by (intro nth_equalityI) (auto simp: request_context_def request_positions_def)
  have "map2 (map2 g) (map request_positions rs) (map (\<lambda>r. drop (start_position (rs ! r)) (H r)) [0..<length rs])
      = map (\<lambda>r. drop (start_position (rs ! r)) (map (\<lambda>i. g (int i) (H r ! i)) [0..<length (H r)])) [0..<length rs]"
    by (rule nth_equalityI) (simp_all add: chunk)
  moreover have "list_all2 (\<lambda>a b. length a = length b) (map request_positions rs)
      (map (\<lambda>r. drop (start_position (rs ! r)) (H r)) [0..<length rs])"
    using assms by (auto simp: list_all2_conv_all_nth request_context_def)
  from map2_concat [OF this, of g] show ?thesis by (simp only: calculation)
qed

lemma map2_map_right: "map2 g xs (map f ys) = map2 (\<lambda>x y. g x (f y)) xs ys"
  by (rule nth_equalityI) auto

lemma map_concat_drop: "map f (concat (map (\<lambda>r. drop (s r) (H r)) rs)) = concat (map (\<lambda>r. drop (s r) (map f (H r))) rs)"
  by (simp add: map_concat drop_map comp_def)

lemma gather_context_ok:
  assumes "bl > 0" "geo_block_len (geometry st) = bl" "st_kv_dtype st \<in> set float_dtypes" "\<not> use_custom_ops st"
    and "l < length (K_cache st)" "l < length (V_cache st)"
    and "\<And>p. p < n \<Longrightarrow> p div bl < length table"
    and "\<And>p. p < n \<Longrightarrow> 0 \<le> slot_at table bl p \<and> slot_at table bl p < int (length (K_cache st ! l))"
    and "length (V_cache st ! l) = length (K_cache st ! l)"
  shows "gather_context op st l table n =
    Inr (map (\<lambda>p. K_cache st ! l ! nat (slot_at table bl p)) [0..<n], map (\<lambda>p. V_cache st ! l ! nat (slot_at table bl p)) [0..<n])"
proof -
  have slots: "omap (slot_of table bl) [0..<n] = Inr (map (slot_at table bl) [0..<n])"
    using assms(1,7) by (intro omap_Inr_map) simp
  have sel: "index_select (map (slot_at table bl) [0..<n]) c = Inr (map (\<lambda>i. c ! nat i) (map (slot_at table bl) [0..<n]))"
    if "length c = length (K_cache st ! l)" for c :: "'a list"
    using assms(8) that by (intro index_select_Inr) auto
  show ?thesis
    using assms(2-6) slots sel [of "K_cache st ! l"] sel [of "V_cache st ! l"] assms(9)
    by (simp add: gather_context_def assert_readable_def read_slots_def layer_slots_def comp_def)
qed

text \<open>Attention of one request of the batch, once its whole context is in the cache.\<close>

lemma request_attention_ok:
  assumes ok: "batch_ok bl nb rs xss" and mi: "describes bl rs mi" and kv: "kv_ok M bl nb st"
    and idx: "idx < length (layers M)" and r: "r < length rs"
    and held: "layer_holds M bl st idx (block_table (rs ! r)) (xss ! r) (request_context (rs ! r))"
    and Q: "Q = concat (map (\<lambda>r. drop (start_position (rs ! r)) (spec_qs (inv_freqs M) (layers M ! idx) (spec_hidden M idx (xss ! r)))) [0..<length rs])"
  shows "obind (request_attention (layers M ! idx) idx mi Q st r) (\<lambda>out. Inr (map (linear_fwd (lin_o (layers M ! idx))) out))
    = Inr (drop (start_position (rs ! r)) (spec_hidden M (Suc idx) (xss ! r)))"
proof -
  let ?L = "layers M ! idx" and ?H = "spec_hidden M idx (xss ! r)" and ?s = "start_position (rs ! r)"
  let ?ctx = "request_context (rs ! r)" and ?n = "token_count (rs ! r)" and ?table = "mi_block_tables mi ! r"
  let ?Qs = "\<lambda>r. drop (start_position (rs ! r)) (spec_qs (inv_freqs M) ?L (spec_hidden M idx (xss ! r)))"
  have bl: "bl > 0" and lx: "length (xss ! q) = request_context (rs ! q)" if "q < length rs" for q
    using ok that by (auto simp: batch_ok_def)
  have bl: "bl > 0" using ok by (simp add: batch_ok_def)
  have ctx: "?ctx = ?s + ?n" by (simp add: request_context_def token_count_def)
  have lQ: "length (?Qs q) = token_count (rs ! q)" if "q < length rs" for q
    using lx [OF that] by (simp add: spec_qs_def request_context_def token_count_def)
  have lens: "map length (map ?Qs [0..<length rs]) = map token_count rs"
    by (rule nth_equalityI) (use lQ in \<open>simp_all del: length_drop\<close>)
  have qsl: "mi_query_start_loc mi ! r = int (sum_list (take r (map token_count rs)))"
    "mi_query_start_loc mi ! Suc r = int (sum_list (take r (map token_count rs)) + ?n)"
    "Suc r < length (mi_query_start_loc mi)"
    using mi r by (simp_all add: describes_def nth_prefix_sums sum_list_take_Suc del: prefix_sums.simps)
  have chunk: "take ?n (drop (sum_list (take r (map token_count rs))) Q) = ?Qs r"
    using take_drop_concat [of r "map ?Qs [0..<length rs]", unfolded lens] r lQ [OF r] by (simp add: Q)
  have tab: "pages_of bl (rs ! r) \<le> length ?table" "take (pages_of bl (rs ! r)) ?table = take (pages_of bl (rs ! r)) (block_table (rs ! r))"
    "r < length (mi_block_tables mi)" "r < length (mi_context_lens mi)" "mi_context_lens mi ! r = int ?ctx"
    using mi r by (auto simp: describes_def)
  have slot: "slot_at ?table bl p = slot_at (block_table (rs ! r)) bl p" "p div bl < length ?table" if "p < ?ctx" for p
    using request_page [OF bl that] tab(1) slot_at_cong [OF tab(2)] by auto
  have kvl: "geo_block_len (geometry st) = bl" "st_kv_dtype st \<in> set float_dtypes" "\<not> use_custom_ops st"
    "idx < length (K_cache st)" "idx < length (V_cache st)"
    "length (K_cache st ! idx) = nb * bl" "length (V_cache st ! idx) = nb * bl"
    using kv idx by (auto simp: kv_ok_def)
  have gather: "gather_context no_gather_op st idx ?table ?ctx = Inr (spec_ks (inv_freqs M) ?L ?H, spec_vs ?L ?H)"
  proof -
    have "gather_context no_gather_op st idx ?table ?ctx =
      Inr (map (\<lambda>p. K_cache st ! idx ! nat (slot_at ?table bl p)) [0..<?ctx],
           map (\<lambda>p. V_cache st ! idx ! nat (slot_at ?table bl p)) [0..<?ctx])"
      using batch_slot_bounds [OF ok r] slot kvl by (intro gather_context_ok [OF bl]) auto
    moreover have "map (\<lambda>p. K_cache st ! idx ! nat (slot_at ?table bl p)) [0..<?ctx] = spec_ks (inv_freqs M) ?L ?H"
      using held slot lx [OF r] by (intro nth_equalityI) (auto simp: layer_holds_def)
    moreover have "map (\<lambda>p. V_cache st ! idx ! nat (slot_at ?table bl p)) [0..<?ctx] = spec_vs ?L ?H"
      using held slot lx [OF r] by (intro nth_equalityI) (auto simp: layer_holds_def)
    ultimately show ?thesis by simp
  qed
  have att: "request_attention ?L idx mi Q st r =
      Inr (map2 (\<lambda>q m. attend_token ?L m q (spec_ks (inv_freqs M) ?L ?H) (spec_vs ?L ?H)) (?Qs r)
             (build_causal_mask ?n (int ?ctx - int ?n)))"
  proof -
    define S where "S = sum_list (take r (map token_count rs))"
    have "onth (mi_query_start_loc mi) r = Inr (int S)" "onth (mi_query_start_loc mi) (r + 1) = Inr (int S + int ?n)"
      using qsl by (simp_all add: S_def)
    moreover have "take ?n (drop S Q) = ?Qs r" using chunk by (simp add: S_def)
    ultimately show ?thesis
      using gather tab(3-5) by (simp add: request_attention_def Let_def)
  qed
  have row: "linear_fwd (lin_o ?L) (attend_token ?L (build_causal_mask ?n (int ?ctx - int ?n) ! i) (?Qs r ! i)
        (spec_ks (inv_freqs M) ?L ?H) (spec_vs ?L ?H)) = drop ?s (spec_hidden M (Suc idx) (xss ! r)) ! i" if i: "i < ?n" for i
  proof -
    have "build_causal_mask ?n (int ?ctx - int ?n) ! i = map (\<lambda>t. if t < ?s + i + 1 then Some 0 else None) [0..<?ctx]"
      using causal_mask_row [OF i, of ?ctx] ctx by simp
    then have "attend_token ?L (build_causal_mask ?n (int ?ctx - int ?n) ! i) (?Qs r ! i) (spec_ks (inv_freqs M) ?L ?H) (spec_vs ?L ?H)
      = attend_token ?L (replicate (?s + i + 1) (Some 0)) (?Qs r ! i) (take (?s + i + 1) (spec_ks (inv_freqs M) ?L ?H)) (take (?s + i + 1) (spec_vs ?L ?H))"
      using lx [OF r] ctx i by (intro masked_prefix) auto
    moreover have "?Qs r ! i = rotated (inv_freqs M) (int (?s + i)) (project (lin_q ?L) (head_dim ?L) (?H ! (?s + i)))"
      using lx [OF r] ctx i by (simp add: spec_qs_def)
    ultimately show ?thesis
      using lx [OF r] ctx i by (simp add: spec_hidden_Suc [OF idx] spec_layer_def del: replicate_Suc)
  qed
  have "map (linear_fwd (lin_o ?L)) (map2 (\<lambda>q m. attend_token ?L m q (spec_ks (inv_freqs M) ?L ?H) (spec_vs ?L ?H)) (?Qs r)
             (build_causal_mask ?n (int ?ctx - int ?n))) = drop ?s (spec_hidden M (Suc idx) (xss ! r))"
  proof (rule nth_equalityI)
    have lm: "length (build_causal_mask ?n (int ?ctx - int ?n)) = ?n" by (simp add: build_causal_mask_def Let_def)
    show "length (map (linear_fwd (lin_o ?L)) (map2 (\<lambda>q m. attend_token ?L m q (spec_ks (inv_freqs M) ?L ?H) (spec_vs ?L ?H)) (?Qs r)
             (build_causal_mask ?n (int ?ctx - int ?n)))) = length (drop ?s (spec_hidden M (Suc idx) (xss ! r)))"
      using lQ [OF r] lm lx [OF r] ctx by simp
    fix i assume "i < length (map (linear_fwd (lin_o ?L)) (map2 (\<lambda>q m. attend_token ?L m q (spec_ks (inv_freqs M) ?L ?H) (spec_vs ?L ?H)) (?Qs r)
             (build_causal_mask ?n (int ?ctx - int ?n))))"
    then have "i < ?n" "i < length (?Qs r)" "i < length (build_causal_mask ?n (int ?ctx - int ?n))" using lm lQ [OF r] by auto
    with row show "map (linear_fwd (lin_o ?L)) (map2 (\<lambda>q m. attend_token ?L m q (spec_ks (inv_freqs M) ?L ?H) (spec_vs ?L ?H)) (?Qs r)
             (build_causal_mask ?n (int ?ctx - int ?n))) ! i = drop ?s (spec_hidden M (Suc idx) (xss ! r)) ! i" by simp
  qed
  then show ?thesis by (simp add: att)
qed

end
