(* ===== verification/CachedStack.thy ===== *)
theory CachedStack
  imports ReferenceModel
begin

text \<open>
  What a transformer of any architecture needs to read and write the paged cache correctly, independent of
  its layers: the rows a batch feeds, a layer's keys and values scattered to the batch's slots and gathered
  back for each request. The contract of one layer is the locale \<open>cached_stack\<close>; its lemmas carry the
  stack of layers and the life of the cache from forward to forward.
\<close>

section \<open>The rows of a batch\<close>

text \<open>The rows of a per-request quantity that the batch feeds: request by request, without the
  positions that are already cached.\<close>

definition fed :: "scheduled_request list \<Rightarrow> (nat \<Rightarrow> 'x list) \<Rightarrow> 'x list" where
  "fed rs H = concat (map (\<lambda>r. drop (start_position (rs ! r)) (H r)) [0..<length rs])"

lemma fed_cong: "(\<And>r. r < length rs \<Longrightarrow> H r = H' r) \<Longrightarrow> fed rs H = fed rs H'"
  unfolding fed_def by (intro arg_cong [where f = concat] map_cong) auto

lemma map_fed: "map f (fed rs H) = fed rs (\<lambda>r. map f (H r))"
  by (simp add: fed_def map_concat_drop)

lemma map2_map_same: "map2 g (map f xs) (map h xs) = map (\<lambda>x. g (f x) (h x)) xs"
  by (induction xs) simp_all

lemma length_fed: "(\<And>r. r < length rs \<Longrightarrow> length (H r) = length (G r)) \<Longrightarrow> length (fed rs H) = length (fed rs G)"
  by (auto simp: fed_def length_concat comp_def intro!: arg_cong [where f = sum_list] map_cong)

lemma map2_fed: "map2 g (fed rs (\<lambda>r. map (F r) [0..<k r])) (fed rs (\<lambda>r. map (G r) [0..<k r])) = fed rs (\<lambda>r. map (\<lambda>i. g (F r i) (G r i)) [0..<k r])"
proof -
  have "map2 (map2 g) (map (\<lambda>r. drop (s r) (map (F r) [0..<k r])) is) (map (\<lambda>r. drop (s r) (map (G r) [0..<k r])) is)
    = map (\<lambda>r. drop (s r) (map (\<lambda>i. g (F r i) (G r i)) [0..<k r])) is" for s :: "nat \<Rightarrow> nat" and "is"
    by (induction "is") (auto simp: drop_map map2_map_same)
  then show ?thesis
    unfolding fed_def by (subst map2_concat) (simp_all add: list_all2_conv_all_nth)
qed

lemma positions_fed:
  "(\<And>r. r < length rs \<Longrightarrow> length (H r) = request_context (rs ! r)) \<Longrightarrow>
   map2 g (concat (map request_positions rs)) (fed rs H) = fed rs (\<lambda>r. map (\<lambda>i. g (int i) (H r ! i)) [0..<length (H r)])"
  unfolding fed_def by (rule packed_positions)

lemma batch_tokens: "batch_ok bl nb rs xss \<Longrightarrow> concat (map input_token_ids rs) = fed rs (\<lambda>r. xss ! r)"
  unfolding fed_def map_index_list [of input_token_ids rs]
  by (intro arg_cong [where f = concat] map_cong) (auto simp: batch_ok_def)

text \<open>What \<open>from_plan\<close> builds describes its batch.\<close>

lemma batch_requests_ok:
  assumes "batch_ok bl nb rs xss" "\<forall>r \<in> set rs. 1 \<le> request_context r"
  shows "list_all (request_ok bl) rs"
proof -
  have "request_ok bl (rs ! r)" if r: "r < length rs" for r
  proof -
    have "pages_of bl (rs ! r) \<le> length (block_table (rs ! r))"
      "\<forall>b \<in> set (take (pages_of bl (rs ! r)) (block_table (rs ! r))). 0 \<le> b"
      using assms(1) r by (auto simp: batch_ok_def)
    then show ?thesis using assms(2) r by (simp add: request_ok_def pages_of_def list_all_iff)
  qed
  then show ?thesis by (auto simp: list_all_length)
qed

lemma batch_pages: "batch_ok bl nb rs xss \<Longrightarrow> \<forall>r \<in> set rs. pages_of bl r \<le> length (block_table r)"
  by (auto simp: batch_ok_def in_set_conv_nth)

lemma from_plan_describes:
  assumes "batch_ok bl nb (requests plan) xss" "requests plan \<noteq> []" "\<forall>r \<in> set (requests plan). 1 \<le> request_context r"
  shows "\<exists>mi. from_plan plan bl = Inr mi \<and> describes bl (requests plan) mi"
  using from_plan_plan_input [of bl plan] plan_input_describes [OF batch_pages [OF assms(1)]] batch_requests_ok [OF assms(1,3)] assms
  by (auto simp: batch_ok_def)

text \<open>The chunk of one request in a packed tensor.\<close>

lemma fed_chunk:
  assumes r: "r < length rs" and H: "\<And>q. q < length rs \<Longrightarrow> length (H q) = request_context (rs ! q)"
  shows "take (token_count (rs ! r)) (drop (sum_list (take r (map token_count rs))) (fed rs H)) = drop (start_position (rs ! r)) (H r)"
proof -
  let ?c = "\<lambda>r. drop (start_position (rs ! r)) (H r)"
  have lc: "length (?c q) = token_count (rs ! q)" if "q < length rs" for q
    using H [OF that] by (simp add: request_context_def token_count_def)
  have "map length (map ?c [0..<length rs]) = map token_count rs"
    by (rule nth_equalityI) (use lc in \<open>simp_all del: length_drop\<close>)
  from take_drop_concat [of r "map ?c [0..<length rs]", unfolded this] show ?thesis
    using r lc [OF r] by (simp add: fed_def)
qed

text \<open>A loop over \<open>enumerate(layers)\<close>.\<close>

lemma ofold_enumerate: "ofold (\<lambda>(i, x) (a, s). f i x a s) (zip [0..<length xs] xs) = ofold (\<lambda>i (a, s). f i (xs ! i) a s) [0..<length xs]"
proof -
  have "ofold (\<lambda>(i, x) (a, s). f i x a s) (map (\<lambda>i. (i, xs ! i)) is) as = ofold (\<lambda>i (a, s). f i (xs ! i) a s) is as" for "is" as
    by (induction "is" arbitrary: as) simp_all
  moreover have "zip [0..<length xs] xs = map (\<lambda>i. (i, xs ! i)) [0..<length xs]" by (intro nth_equalityI) auto
  ultimately show ?thesis by (intro ext) simp
qed

section \<open>The cache\<close>

text \<open>A cache of \<open>n\<close> layers with \<open>nb\<close> blocks of \<open>bl\<close> slots, read and written without the custom operators.\<close>

definition kv_shape :: "nat \<Rightarrow> nat \<Rightarrow> nat \<Rightarrow> slot_data kv_storage \<Rightarrow> bool" where
  "kv_shape n bl nb st =
     (geo_block_len (geometry st) = bl \<and> st_kv_dtype st \<in> set float_dtypes \<and> \<not> use_custom_ops st \<and>
      length (K_cache st) = n \<and> length (V_cache st) = n \<and>
      (\<forall>l < n. length (K_cache st ! l) = nb * bl \<and> length (V_cache st ! l) = nb * bl))"

lemma kv_ok_shape: "kv_ok M bl nb st = kv_shape (length (layers M)) bl nb st"
  by (simp add: kv_ok_def kv_shape_def)

text \<open>Layer \<open>l\<close> holds the first \<open>n\<close> of \<open>K\<close> and \<open>V\<close> at the slots of \<open>table\<close>.\<close>

definition slots_hold :: "nat \<Rightarrow> slot_data kv_storage \<Rightarrow> nat \<Rightarrow> int list \<Rightarrow> slot_data list \<Rightarrow> slot_data list \<Rightarrow> nat \<Rightarrow> bool" where
  "slots_hold bl st l table K V n =
     (\<forall>p < n. K_cache st ! l ! nat (slot_at table bl p) = K ! p \<and> V_cache st ! l ! nat (slot_at table bl p) = V ! p)"

lemma layer_holds_slots:
  "layer_holds M bl st l table xs n =
     slots_hold bl st l table (spec_ks (inv_freqs M) (layers M ! l) (spec_hidden M l xs)) (spec_vs (layers M ! l) (spec_hidden M l xs)) n"
  by (simp add: layer_holds_def slots_hold_def)

text \<open>Slots the batch does not write keep their content in every layer.\<close>

definition untouched :: "nat \<Rightarrow> scheduled_request list \<Rightarrow> slot_data kv_storage \<Rightarrow> slot_data kv_storage \<Rightarrow> bool" where
  "untouched bl rs st st' =
     (\<forall>l s. s \<notin> set (batch_slots bl rs) \<longrightarrow> 0 \<le> s \<longrightarrow>
        K_cache st' ! l ! nat s = K_cache st ! l ! nat s \<and> V_cache st' ! l ! nat s = V_cache st ! l ! nat s)"

lemma untouched_refl [simp]: "untouched bl rs st st"
  by (simp add: untouched_def)

lemma untouched_trans: "untouched bl rs st st' \<Longrightarrow> untouched bl rs st' st'' \<Longrightarrow> untouched bl rs st st''"
  by (auto simp: untouched_def)

text \<open>\<open>write_slots\<close> of a batch: every request's keys and values are complete at its slots, other layers and
  other slots are as before.\<close>

definition batch_written ::
    "nat \<Rightarrow> nat \<Rightarrow> nat \<Rightarrow> scheduled_request list \<Rightarrow> nat \<Rightarrow> (nat \<Rightarrow> slot_data list) \<Rightarrow> (nat \<Rightarrow> slot_data list)
       \<Rightarrow> slot_data kv_storage \<Rightarrow> slot_data kv_storage \<Rightarrow> bool" where
  "batch_written n bl nb rs idx K V st st' =
     (kv_shape n bl nb st' \<and> untouched bl rs st st' \<and>
      (\<forall>r < length rs. slots_hold bl st' idx (block_table (rs ! r)) (K r) (V r) (request_context (rs ! r))) \<and>
      (\<forall>l. l \<noteq> idx \<longrightarrow> K_cache st' ! l = K_cache st ! l \<and> V_cache st' ! l = V_cache st ! l))"

lemma write_batch:
  assumes ok: "batch_ok bl nb rs xss" and kv: "kv_shape n bl nb st" and idx: "idx < n"
    and K: "\<And>r. r < length rs \<Longrightarrow> length (K r) = request_context (rs ! r)"
    and V: "\<And>r. r < length rs \<Longrightarrow> length (V r) = request_context (rs ! r)"
    and held: "\<And>r. r < length rs \<Longrightarrow> slots_hold bl st idx (block_table (rs ! r)) (K r) (V r) (start_position (rs ! r))"
  shows "\<exists>st'. write_slots no_write_op (\<lambda>_ s. s) (st_kv_dtype st) st idx (batch_slots bl rs) (fed rs K) (fed rs V) = Inr st' \<and>
    batch_written n bl nb rs idx K V st st'"
proof -
  have kvl: "\<not> use_custom_ops st" "idx < length (K_cache st)" "idx < length (V_cache st)"
    "length (K_cache st ! idx) = nb * bl" "length (V_cache st ! idx) = nb * bl"
    using kv idx by (auto simp: kv_shape_def)
  have heldK: "K_cache st ! idx ! nat (slot_at (block_table (rs ! r)) bl p) = K r ! p"
    and heldV: "V_cache st ! idx ! nat (slot_at (block_table (rs ! r)) bl p) = V r ! p"
    if "r < length rs" "p < start_position (rs ! r)" for r p
    using held [OF that(1)] that(2) by (simp_all add: slots_hold_def)
  obtain newK where newK: "index_copy (batch_slots bl rs) (fed rs K) (K_cache st ! idx) = Inr newK" "length newK = nb * bl"
    "\<And>r p. r < length rs \<Longrightarrow> p < request_context (rs ! r) \<Longrightarrow> newK ! nat (slot_at (block_table (rs ! r)) bl p) = K r ! p"
    using batch_scatter [OF ok kvl(4) K heldK] unfolding fed_def by blast
  obtain newV where newV: "index_copy (batch_slots bl rs) (fed rs V) (V_cache st ! idx) = Inr newV" "length newV = nb * bl"
    "\<And>r p. r < length rs \<Longrightarrow> p < request_context (rs ! r) \<Longrightarrow> newV ! nat (slot_at (block_table (rs ! r)) bl p) = V r ! p"
    using batch_scatter [OF ok kvl(5) V heldV] unfolding fed_def by blast
  let ?st = "st\<lparr> K_cache := (K_cache st)[idx := newK], V_cache := (V_cache st)[idx := newV] \<rparr>"
  have "write_slots no_write_op (\<lambda>_ s. s) (st_kv_dtype st) st idx (batch_slots bl rs) (fed rs K) (fed rs V) = Inr ?st"
    using kvl newK(1) newV(1) by (simp add: write_slots_def layer_slots_def)
  moreover have "kv_shape n bl nb ?st"
    using kv newK(2) newV(2) idx by (auto simp: kv_shape_def nth_list_update)
  moreover have "K_cache ?st ! l ! nat s = K_cache st ! l ! nat s \<and> V_cache ?st ! l ! nat s = V_cache st ! l ! nat s"
    if "s \<notin> set (batch_slots bl rs)" "0 \<le> s" for l s
    using copy_other [OF newK(1) that] copy_other [OF newV(1) that] kvl by (cases "l = idx") auto
  ultimately show ?thesis
    using newK(3) newV(3) kvl by (intro exI [of _ ?st]) (simp add: batch_written_def untouched_def slots_hold_def)
qed

text \<open>\<open>gather_context\<close> of one request of the batch.\<close>

lemma gather_batch:
  assumes ok: "batch_ok bl nb rs xss" and mi: "describes bl rs mi" and kv: "kv_shape n bl nb st" and idx: "idx < n"
    and r: "r < length rs" and K: "length K = request_context (rs ! r)" and V: "length V = request_context (rs ! r)"
    and held: "slots_hold bl st idx (block_table (rs ! r)) K V (request_context (rs ! r))"
  shows "gather_context no_gather_op st idx (mi_block_tables mi ! r) (request_context (rs ! r)) = Inr (K, V)"
proof -
  let ?ctx = "request_context (rs ! r)" and ?table = "mi_block_tables mi ! r"
  have bl: "bl > 0" using ok by (simp add: batch_ok_def)
  have tab: "pages_of bl (rs ! r) \<le> length ?table" "take (pages_of bl (rs ! r)) ?table = take (pages_of bl (rs ! r)) (block_table (rs ! r))"
    using mi r by (auto simp: describes_def)
  have slot: "slot_at ?table bl p = slot_at (block_table (rs ! r)) bl p" "p div bl < length ?table" if "p < ?ctx" for p
    using request_page [OF bl that] tab(1) slot_at_cong [OF tab(2)] by auto
  have kvl: "geo_block_len (geometry st) = bl" "st_kv_dtype st \<in> set float_dtypes" "\<not> use_custom_ops st"
    "idx < length (K_cache st)" "idx < length (V_cache st)"
    "length (K_cache st ! idx) = nb * bl" "length (V_cache st ! idx) = nb * bl"
    using kv idx by (auto simp: kv_shape_def)
  have "gather_context no_gather_op st idx ?table ?ctx =
    Inr (map (\<lambda>p. K_cache st ! idx ! nat (slot_at ?table bl p)) [0..<?ctx],
         map (\<lambda>p. V_cache st ! idx ! nat (slot_at ?table bl p)) [0..<?ctx])"
    using batch_slot_bounds [OF ok r] slot kvl by (intro gather_context_ok [OF bl]) auto
  moreover have "map (\<lambda>p. K_cache st ! idx ! nat (slot_at ?table bl p)) [0..<?ctx] = K"
    "map (\<lambda>p. V_cache st ! idx ! nat (slot_at ?table bl p)) [0..<?ctx] = V"
    using held slot K V by (auto simp: slots_hold_def intro!: nth_equalityI)
  ultimately show ?thesis by simp
qed

section \<open>The contract of a layer\<close>

text \<open>
  \<open>hid l xs\<close>: the rows of all positions of \<open>xs\<close> before layer \<open>l\<close>, recomputed without a cache; \<open>keys\<close> and
  \<open>vals\<close> what layer \<open>l\<close> derives from such rows for the cache; \<open>rep\<close> the value the code threads from layer
  to layer; \<open>plain\<close> what else it needs of an input. A layer run on the fed rows, over a cache that holds the earlier positions, yields the fed
  rows of the next layer and a cache that holds all of them.
\<close>

locale cached_stack =
  fixes n :: nat
    and layer :: "nat \<Rightarrow> model_input \<Rightarrow> 's \<Rightarrow> slot_data kv_storage \<Rightarrow> ('s \<times> slot_data kv_storage) outcome"
    and rep :: "nat \<Rightarrow> 'h list \<Rightarrow> 's"
    and hid :: "nat \<Rightarrow> int list \<Rightarrow> 'h list"
    and keys vals :: "nat \<Rightarrow> 'h list \<Rightarrow> slot_data list"
    and plain :: "nat \<Rightarrow> scheduled_request list \<Rightarrow> model_input \<Rightarrow> bool"
  assumes hid_take: "hid l (take m xs) = take m (hid l xs)"
    and length_hid: "length (hid l xs) = length xs"
    and keys_take: "keys l (take m H) = take m (keys l H)"
    and vals_take: "vals l (take m H) = take m (vals l H)"
    and length_keys: "length (keys l H) = length H"
    and length_vals: "length (vals l H) = length H"
    and layer_ok: "batch_ok bl nb rs xss \<Longrightarrow> describes bl rs mi \<Longrightarrow> plain bl rs mi \<Longrightarrow> kv_shape n bl nb st \<Longrightarrow> l < n \<Longrightarrow>
      (\<And>r. r < length rs \<Longrightarrow>
         slots_hold bl st l (block_table (rs ! r)) (keys l (hid l (xss ! r))) (vals l (hid l (xss ! r))) (start_position (rs ! r))) \<Longrightarrow>
      \<exists>st'. layer l mi (rep l (fed rs (\<lambda>r. hid l (xss ! r)))) st = Inr (rep (Suc l) (fed rs (\<lambda>r. hid (Suc l) (xss ! r))), st') \<and>
        batch_written n bl nb rs l (\<lambda>r. keys l (hid l (xss ! r))) (\<lambda>r. vals l (hid l (xss ! r))) st st'"
begin

text \<open>The cache holds the first \<open>m\<close> positions of \<open>xs\<close>, in every layer.\<close>

definition holds_at :: "nat \<Rightarrow> slot_data kv_storage \<Rightarrow> nat \<Rightarrow> int list \<Rightarrow> int list \<Rightarrow> nat \<Rightarrow> bool" where
  "holds_at bl st l table xs m = slots_hold bl st l table (keys l (hid l xs)) (vals l (hid l xs)) m"

definition stack_holds :: "nat \<Rightarrow> slot_data kv_storage \<Rightarrow> int list \<Rightarrow> int list \<Rightarrow> nat \<Rightarrow> bool" where
  "stack_holds bl st table xs m = (\<forall>l < n. holds_at bl st l table xs m)"

lemma run_layers:
  assumes ok: "batch_ok bl nb rs xss" and mi: "describes bl rs mi" "plain bl rs mi" and kv: "kv_shape n bl nb st"
    and held: "\<And>r. r < length rs \<Longrightarrow> stack_holds bl st (block_table (rs ! r)) (xss ! r) (start_position (rs ! r))"
    and m: "m \<le> n"
  shows "\<exists>st'. ofold (\<lambda>l (s, st). layer l mi s st) [0..<m] (rep 0 (fed rs (\<lambda>r. hid 0 (xss ! r))), st)
      = Inr (rep m (fed rs (\<lambda>r. hid m (xss ! r))), st') \<and> kv_shape n bl nb st' \<and> untouched bl rs st st' \<and>
      (\<forall>l r. r < length rs \<longrightarrow> l < n \<longrightarrow> holds_at bl st' l (block_table (rs ! r)) (xss ! r)
         (if l < m then request_context (rs ! r) else start_position (rs ! r)))"
  using m
proof (induction m)
  case 0
  then show ?case using kv held by (auto simp: stack_holds_def)
next
  case (Suc m)
  then obtain s where s: "ofold (\<lambda>l (s, st). layer l mi s st) [0..<m] (rep 0 (fed rs (\<lambda>r. hid 0 (xss ! r))), st)
      = Inr (rep m (fed rs (\<lambda>r. hid m (xss ! r))), s)" "kv_shape n bl nb s" "untouched bl rs st s"
    "\<And>l r. r < length rs \<Longrightarrow> l < n \<Longrightarrow> holds_at bl s l (block_table (rs ! r)) (xss ! r)
         (if l < m then request_context (rs ! r) else start_position (rs ! r))" by auto
  have mn: "m < n" using Suc.prems by simp
  obtain st' where st': "layer m mi (rep m (fed rs (\<lambda>r. hid m (xss ! r)))) s = Inr (rep (Suc m) (fed rs (\<lambda>r. hid (Suc m) (xss ! r))), st')"
    "batch_written n bl nb rs m (\<lambda>r. keys m (hid m (xss ! r))) (\<lambda>r. vals m (hid m (xss ! r))) s st'"
    using layer_ok [OF ok mi s(2) mn] s(4) [OF _ mn] by (auto simp: holds_at_def)
  have "holds_at bl st' l (block_table (rs ! r)) (xss ! r) (if l < Suc m then request_context (rs ! r) else start_position (rs ! r))"
    if "r < length rs" "l < n" for l r
  proof (cases "l = m")
    case False
    then have "(l < Suc m) = (l < m)" by auto
    then show ?thesis
      using s(4) [OF that] st'(2) False by (simp add: holds_at_def slots_hold_def batch_written_def)
  qed (use st'(2) that in \<open>simp add: holds_at_def batch_written_def\<close>)
  moreover have "kv_shape n bl nb st'" "untouched bl rs st st'"
    using st'(2) untouched_trans [OF s(3)] by (simp_all add: batch_written_def)
  ultimately show ?case using s(1) st'(1) by (auto simp: ofold_append)
qed

lemma run_stack:
  assumes "batch_ok bl nb rs xss" "describes bl rs mi" "plain bl rs mi" "kv_shape n bl nb st"
    and "\<And>r. r < length rs \<Longrightarrow> stack_holds bl st (block_table (rs ! r)) (xss ! r) (start_position (rs ! r))"
  shows "\<exists>st'. ofold (\<lambda>l (s, st). layer l mi s st) [0..<n] (rep 0 (fed rs (\<lambda>r. hid 0 (xss ! r))), st)
      = Inr (rep n (fed rs (\<lambda>r. hid n (xss ! r))), st') \<and> kv_shape n bl nb st' \<and> untouched bl rs st st' \<and>
      (\<forall>r < length rs. stack_holds bl st' (block_table (rs ! r)) (xss ! r) (request_context (rs ! r)))"
  using run_layers [OF assms order_refl] by (auto simp: stack_holds_def)

lemma stack_holds_take:
  assumes "stack_holds bl st table xs k" "m \<le> k" "k \<le> length xs"
  shows "stack_holds bl st table (take m xs) m"
  using assms by (auto simp: stack_holds_def holds_at_def slots_hold_def hid_take keys_take vals_take)

lemma stack_holds_prefix:
  assumes "stack_holds bl st table xs k" "k \<le> length xs" "k \<le> length ys" "take k xs = take k ys"
  shows "stack_holds bl st table ys k"
proof -
  have "keys l (hid l ys) ! p = keys l (hid l xs) ! p" "vals l (hid l ys) ! p = vals l (hid l xs) ! p" if "p < k" for l p
    using that assms(4) keys_take [of l k] vals_take [of l k] hid_take [of l k] by (metis nth_take)+
  then show ?thesis using assms(1) by (auto simp: stack_holds_def holds_at_def slots_hold_def)
qed

lemma stack_holds_untouched:
  assumes "stack_holds bl st table xs k" "untouched bl rs st st'"
    and "\<forall>p < k. 0 \<le> slot_at table bl p \<and> slot_at table bl p \<notin> set (batch_slots bl rs)"
  shows "stack_holds bl st' table xs k"
  using assms by (auto simp: stack_holds_def holds_at_def slots_hold_def untouched_def)

end

end
