(* ===== verification/CachedForward.thy ===== *)
theory CachedForward
  imports CachedStack
begin

text \<open>
  A packed forward of the reference transformer over the paged cache (\<open>executors/torch/model_runner.py\<close>)
  against recomputation without a cache: one layer, the stack of layers, and the whole path from a
  scheduled batch through \<open>from_plan\<close> to its logits.
\<close>

section \<open>One layer over the batch\<close>

lemma omap_then_concat:
  assumes "\<And>x. x \<in> set xs \<Longrightarrow> obind (f x) (\<lambda>out. Inr (map g out)) = Inr (h x)"
  shows "obind (omap f xs) (\<lambda>outs. Inr (map g (concat outs))) = Inr (concat (map h xs))"
  using assms
proof (induction xs)
  case (Cons x xs)
  from Cons.prems [of x] obtain y where y: "f x = Inr y" "map g y = h x" by (auto simp: obind_Inr_iff)
  from Cons obtain ys where ys: "omap f xs = Inr ys" "map g (concat ys) = concat (map h xs)"
    by (auto simp: obind_Inr_iff)
  from y ys show ?case by simp
qed simp

lemma layer_forward_ok:
  assumes ok: "batch_ok bl nb rs xss" and mi: "describes bl rs mi" and kv: "kv_shape (length (layers M)) bl nb st"
    and idx: "idx < length (layers M)"
    and held: "\<And>r. r < length rs \<Longrightarrow> layer_holds M bl st idx (block_table (rs ! r)) (xss ! r) (start_position (rs ! r))"
  defines "ks \<equiv> \<lambda>r. spec_ks (inv_freqs M) (layers M ! idx) (spec_hidden M idx (xss ! r))"
    and "vs \<equiv> \<lambda>r. spec_vs (layers M ! idx) (spec_hidden M idx (xss ! r))"
  shows "\<exists>st'. layer_forward (inv_freqs M) idx (layers M ! idx) mi (fed rs (\<lambda>r. spec_hidden M idx (xss ! r))) st
       = Inr (fed rs (\<lambda>r. spec_hidden M (Suc idx) (xss ! r)), st') \<and>
     batch_written (length (layers M)) bl nb rs idx ks vs st st'"
proof -
  let ?L = "layers M ! idx" and ?H = "\<lambda>r. spec_hidden M idx (xss ! r)"
  let ?x = "fed rs ?H" and ?f = "inv_freqs M"
  have lx: "length (?H r) = request_context (rs ! r)" if "r < length rs" for r
    using ok that by (auto simp: batch_ok_def)
  have proj: "map2 (rotated ?f) (mi_position mi) (map (project lin (head_dim ?L)) ?x)
      = fed rs (\<lambda>r. map (\<lambda>i. rotated ?f (int i) (project lin (head_dim ?L) (?H r ! i))) [0..<length (?H r)])" for lin
    using mi positions_fed [of rs ?H "\<lambda>p v. rotated ?f p (project lin (head_dim ?L) v)"] lx
    by (simp add: describes_def map2_map_right)
  have Q: "map2 (rotated ?f) (mi_position mi) (map (project (lin_q ?L) (head_dim ?L)) ?x)
      = fed rs (\<lambda>r. spec_qs ?f ?L (?H r))" by (simp add: proj spec_qs_def)
  have K: "map2 (rotated ?f) (mi_position mi) (map (project (lin_k ?L) (head_dim ?L)) ?x) = fed rs ks"
    by (simp add: proj spec_ks_def ks_def)
  have V: "map (project (lin_v ?L) (head_dim ?L)) ?x = fed rs vs" by (simp add: map_fed spec_vs_def vs_def)
  obtain st' where st': "write_slots no_write_op (\<lambda>_ s. s) (st_kv_dtype st) st idx (batch_slots bl rs) (fed rs ks) (fed rs vs) = Inr st'"
    "batch_written (length (layers M)) bl nb rs idx ks vs st st'"
    using write_batch [OF ok kv idx, of ks vs] lx held by (auto simp: ks_def vs_def layer_holds_slots)
  have full: "layer_holds M bl st' idx (block_table (rs ! r)) (xss ! r) (request_context (rs ! r))" if "r < length rs" for r
    using st'(2) that by (simp add: batch_written_def layer_holds_slots ks_def vs_def)
  have kv': "kv_ok M bl nb st'" using st'(2) by (simp add: batch_written_def kv_ok_shape)
  have outs: "obind (omap (request_attention ?L idx mi (fed rs (\<lambda>r. spec_qs ?f ?L (?H r))) st') [0..<length rs])
      (\<lambda>outs. Inr (map (linear_fwd (lin_o ?L)) (concat outs))) = Inr (fed rs (\<lambda>r. spec_hidden M (Suc idx) (xss ! r)))"
    unfolding fed_def [of rs "\<lambda>r. spec_hidden M (Suc idx) (xss ! r)"]
    by (intro omap_then_concat request_attention_ok [OF ok mi kv' idx]) (auto simp: full fed_def)
  then obtain os where os: "omap (request_attention ?L idx mi (fed rs (\<lambda>r. spec_qs ?f ?L (?H r))) st') [0..<length rs] = Inr os"
    "map (linear_fwd (lin_o ?L)) (concat os) = fed rs (\<lambda>r. spec_hidden M (Suc idx) (xss ! r))"
    by (auto simp: obind_Inr_iff)
  have len: "length (mi_query_start_loc mi) - 1 = length rs" and sm: "mi_slot_mapping mi = batch_slots bl rs"
    using mi by (simp_all add: describes_def)
  have "layer_forward ?f idx ?L mi ?x st = Inr (fed rs (\<lambda>r. spec_hidden M (Suc idx) (xss ! r)), st')"
    unfolding layer_forward_def Let_def Q K V len sm st'(1) by (simp add: os)
  with st'(2) show ?thesis by blast
qed

text \<open>The reference model is a stack of such layers.\<close>

interpretation ref_stack: cached_stack "length (layers M)" "\<lambda>l mi x st. layer_forward (inv_freqs M) l (layers M ! l) mi x st"
    "\<lambda>l xs. xs" "spec_hidden M" "\<lambda>l. spec_ks (inv_freqs M) (layers M ! l)" "\<lambda>l. spec_vs (layers M ! l)" "\<lambda>bl rs mi. True"
  for M
  by unfold_locales (auto simp: spec_hidden_take spec_ks_take intro!: layer_forward_ok simp flip: layer_holds_slots)

lemma cache_holds_stack: "cache_holds M = ref_stack.stack_holds M"
  by (intro ext) (simp add: cache_holds_def ref_stack.stack_holds_def ref_stack.holds_at_def layer_holds_slots)

section \<open>The whole model\<close>

lemma embed_ok:
  assumes "\<forall>t \<in> set toks. 0 \<le> t \<and> t < int (length (embedding M))"
  shows "embed M toks = Inr (map (\<lambda>t. embedding M ! nat t) toks)"
  unfolding embed_def using assms by (intro omap_Inr_map) auto

text \<open>The logits a request is owed: one row per fed position, from its whole prefix.\<close>

definition owed_logits :: "ref_model \<Rightarrow> scheduled_request list \<Rightarrow> int list list \<Rightarrow> real list list" where
  "owed_logits M rs xss =
     fed rs (\<lambda>r. map (\<lambda>i. spec_logits M (take (Suc i) (xss ! r))) [0..<length (xss ! r)])"

lemma ref_forward_ok:
  assumes ok: "batch_ok bl nb rs xss" and mi: "describes bl rs mi" and kv: "kv_ok M bl nb st"
    and vocab: "\<forall>r < length rs. \<forall>t \<in> set (xss ! r). 0 \<le> t \<and> t < int (length (embedding M))"
    and held: "\<forall>r < length rs. cache_holds M bl st (block_table (rs ! r)) (xss ! r) (start_position (rs ! r))"
  shows "\<exists>st'. ref_forward M mi st = Inr (owed_logits M rs xss, st') \<and> kv_ok M bl nb st' \<and> untouched bl rs st st' \<and>
    (\<forall>r < length rs. cache_holds M bl st' (block_table (rs ! r)) (xss ! r) (request_context (rs ! r)))"
proof -
  have toks: "mi_input_token_ids mi = fed rs (\<lambda>r. xss ! r)"
    using mi batch_tokens [OF ok] by (simp add: describes_def)
  have "\<forall>t \<in> set (mi_input_token_ids mi). 0 \<le> t \<and> t < int (length (embedding M))"
    using vocab unfolding toks fed_def by (auto dest!: in_set_dropD)
  then have emb: "embed M (mi_input_token_ids mi) = Inr (fed rs (\<lambda>r. spec_hidden M 0 (xss ! r)))"
    by (simp add: embed_ok) (simp add: toks map_fed spec_hidden_def)
  obtain st' where st': "ofold (\<lambda>l (x, s). layer_forward (inv_freqs M) l (layers M ! l) mi x s) [0..<length (layers M)]
        (fed rs (\<lambda>r. spec_hidden M 0 (xss ! r)), st)
      = Inr (fed rs (\<lambda>r. spec_hidden M (length (layers M)) (xss ! r)), st')" "kv_ok M bl nb st'" "untouched bl rs st st'"
    "\<forall>r < length rs. cache_holds M bl st' (block_table (rs ! r)) (xss ! r) (request_context (rs ! r))"
    using ref_stack.run_stack [OF ok mi TrueI kv [unfolded kv_ok_shape]] held by (auto simp: cache_holds_stack kv_ok_shape)
  have fold: "ofold (\<lambda>(idx, L) (x, s). layer_forward (inv_freqs M) idx L mi x s) (zip [0..<length (layers M)] (layers M))
      = ofold (\<lambda>l (x, s). layer_forward (inv_freqs M) l (layers M ! l) mi x s) [0..<length (layers M)]"
    by (rule ofold_enumerate)
  have "map (head_logits M) (fed rs (\<lambda>r. spec_hidden M (length (layers M)) (xss ! r))) = owed_logits M rs xss"
    unfolding map_fed owed_logits_def
    by (intro fed_cong) (auto simp: map_index_list [of "head_logits M"] spec_logits_nth intro!: nth_equalityI)
  then show ?thesis using st' by (simp add: ref_forward_def emb fold)
qed

lemmas cache_holds_take = ref_stack.stack_holds_take [folded cache_holds_stack]
lemmas cache_holds_prefix = ref_stack.stack_holds_prefix [folded cache_holds_stack]
lemmas cache_holds_untouched = ref_stack.stack_holds_untouched [folded cache_holds_stack]

section \<open>Theorems\<close>

text \<open>C4: The paged cache changes nothing. For every batch a scheduler may build (requests of any
  length at any position, pages shared only for reading), if the cache holds each request's earlier
  tokens, one packed forward over the input \<open>from_plan\<close> builds returns, for every fed position of
  every request, exactly the logits of recomputing that request from its first token without a
  cache, and leaves the cache holding each request's whole context.\<close>

theorem cached_forward_recomputes:
  assumes "batch_ok bl nb (requests plan) xss" "requests plan \<noteq> []" "\<forall>r \<in> set (requests plan). 1 \<le> request_context r"
    and "kv_ok M bl nb st" "\<forall>xs \<in> set xss. \<forall>t \<in> set xs. 0 \<le> t \<and> t < int (length (embedding M))"
    and "\<forall>r < length (requests plan).
           cache_holds M bl st (block_table (requests plan ! r)) (xss ! r) (start_position (requests plan ! r))"
  shows "\<exists>mi st'. from_plan plan bl = Inr mi \<and> ref_forward M mi st = Inr (owed_logits M (requests plan) xss, st') \<and>
    (\<forall>r < length (requests plan).
       cache_holds M bl st' (block_table (requests plan ! r)) (xss ! r) (request_context (requests plan ! r)))"
proof -
  from from_plan_describes [OF assms(1-3)] obtain mi where mi: "from_plan plan bl = Inr mi" "describes bl (requests plan) mi"
    by auto
  have "\<forall>r < length (requests plan). \<forall>t \<in> set (xss ! r). 0 \<le> t \<and> t < int (length (embedding M))"
    using assms(1,5) by (auto simp: batch_ok_def)
  from ref_forward_ok [OF assms(1) mi(2) assms(4) this assms(6)] mi(1) show ?thesis by blast
qed

text \<open>A model with one layer over a two-token vocabulary; a prefill of two tokens and a decode of the
  second token of a request whose first token is cached on page 2.\<close>

definition unit_linear :: linear where
  "unit_linear = \<lparr> weight = [[1, 0], [0, 1]], bias = [0, 1] \<rparr>"

definition example_model :: ref_model where
  "example_model = \<lparr> embedding = [[1, 0], [0, 1]], inv_freqs = [1],
     layers = [\<lparr> num_heads = 1, kv_heads = 1, head_dim = 2, lin_q = unit_linear, lin_k = unit_linear,
                 lin_v = unit_linear, lin_o = unit_linear \<rparr>], lm_head = [[1, 2], [3, 4]] \<rparr>"

definition cached_request :: "int list \<Rightarrow> nat \<Rightarrow> int list \<Rightarrow> scheduled_request" where
  "cached_request toks start table = \<lparr> request_id = [], input_token_ids = toks, req_work_type = Prefill,
     start_position = start, block_table = table, need_sample = True, req_sampling_plan = None \<rparr>"

definition cached_plan :: batch_plan where
  "cached_plan = \<lparr> step_id = 0, requests = [cached_request [0, 1] 0 [0, 1], cached_request [1] 1 [2, 3]] \<rparr>"

definition cached_store :: "slot_data kv_storage" where
  "cached_store = \<lparr> geometry = \<lparr> num_layers = 1, num_blocks = 4, geo_block_len = 1, num_kv_heads = 1, geo_head_dim = 2 \<rparr>,
     st_kv_dtype = Float32, k_scale = 1, v_scale = 1,
     K_cache = [[[], [], spec_ks [1] (hd (layers example_model)) [[1, 0]] ! 0, []]],
     V_cache = [[[], [], spec_vs (hd (layers example_model)) [[1, 0]] ! 0, []]], use_custom_ops = False \<rparr>"

lemma cached_batch:
  "batch_ok 1 4 (requests cached_plan) [[0, 1], [0, 1]]" "requests cached_plan \<noteq> []"
  "\<forall>r \<in> set (requests cached_plan). 1 \<le> request_context r"
  "kv_ok example_model 1 4 cached_store"
  "\<forall>xs \<in> set [[0, 1], [0, 1 :: int]]. \<forall>t \<in> set xs. 0 \<le> t \<and> t < int (length (embedding example_model))"
  "\<forall>r < length (requests cached_plan). cache_holds example_model 1 cached_store
     (block_table (requests cached_plan ! r)) ([[0, 1], [0, 1]] ! r) (start_position (requests cached_plan ! r))"
  by (auto simp: batch_ok_def cached_plan_def cached_request_def batch_slots_def slots_at_def slot_at_def
      pages_of_def request_context_def ceil_div_def less_Suc_eq kv_ok_def example_model_def cached_store_def float_dtypes_def
      cache_holds_def layer_holds_def spec_ks_def spec_vs_def spec_hidden_def numeral_2_eq_2)

theorem cached_forward_recomputes_witness:
  "\<exists>mi st'. from_plan cached_plan 1 = Inr mi \<and>
     ref_forward example_model mi cached_store = Inr (owed_logits example_model (requests cached_plan) [[0, 1], [0, 1]], st')"
  using cached_forward_recomputes [OF cached_batch] by blast

text \<open>C28: Requests do not disturb each other. A forward leaves the cached context of every request that
  is not in the batch intact, provided the batch writes none of its slots: whatever the layer, its
  keys and values are still those of recomputation.\<close>

theorem forward_keeps_other_requests:
  assumes "batch_ok bl nb (requests plan) xss" "kv_ok M bl nb st"
    and "\<forall>xs \<in> set xss. \<forall>t \<in> set xs. 0 \<le> t \<and> t < int (length (embedding M))"
    and "\<forall>r < length (requests plan).
           cache_holds M bl st (block_table (requests plan ! r)) (xss ! r) (start_position (requests plan ! r))"
    and "from_plan plan bl = Inr mi" "requests plan \<noteq> []" "\<forall>r \<in> set (requests plan). 1 \<le> request_context r"
    and "ref_forward M mi st = Inr (logits, st')"
    and "cache_holds M bl st table ys n"
      "\<forall>p < n. 0 \<le> slot_at table bl p \<and> slot_at table bl p \<notin> set (batch_slots bl (requests plan))"
  shows "cache_holds M bl st' table ys n"
proof -
  have mi: "describes bl (requests plan) mi" using from_plan_describes [OF assms(1,6,7)] assms(5) by auto
  have "\<forall>r < length (requests plan). \<forall>t \<in> set (xss ! r). 0 \<le> t \<and> t < int (length (embedding M))"
    using assms(1,3) by (auto simp: batch_ok_def)
  from ref_forward_ok [OF assms(1) mi assms(2) this assms(4)] assms(8) have "untouched bl (requests plan) st st'" by auto
  from cache_holds_untouched [OF assms(9) this assms(10)] show ?thesis .
qed

text \<open>The decode alone; the other request has its first token cached on page 0.\<close>

definition cached_decode :: batch_plan where
  "cached_decode = \<lparr> step_id = 0, requests = [cached_request [1] 1 [2, 3]] \<rparr>"

definition cached_store2 :: "slot_data kv_storage" where
  "cached_store2 = cached_store\<lparr>
     K_cache := [[spec_ks [1] (hd (layers example_model)) [[0, 1]] ! 0, [], spec_ks [1] (hd (layers example_model)) [[1, 0]] ! 0, []]],
     V_cache := [[spec_vs (hd (layers example_model)) [[0, 1]] ! 0, [], spec_vs (hd (layers example_model)) [[1, 0]] ! 0, []]] \<rparr>"

lemma cached_decode_batch:
  "batch_ok 1 4 (requests cached_decode) [[0, 1]]" "kv_ok example_model 1 4 cached_store2"
  "\<forall>xs \<in> set [[0, 1 :: int]]. \<forall>t \<in> set xs. 0 \<le> t \<and> t < int (length (embedding example_model))"
  "\<forall>r < length (requests cached_decode). cache_holds example_model 1 cached_store2
     (block_table (requests cached_decode ! r)) ([[0, 1]] ! r) (start_position (requests cached_decode ! r))"
  "from_plan cached_decode 1 = Inr (plan_input cached_decode 1)"
  "requests cached_decode \<noteq> []" "\<forall>r \<in> set (requests cached_decode). 1 \<le> request_context r"
  "cache_holds example_model 1 cached_store2 [0, 1] [1] 1"
  "\<forall>p < 1. 0 \<le> slot_at [0, 1] 1 p \<and> slot_at [0, 1] 1 p \<notin> set (batch_slots 1 (requests cached_decode))"
  by (auto simp: batch_ok_def cached_decode_def cached_request_def batch_slots_def slots_at_def slot_at_def
      pages_of_def request_context_def ceil_div_def less_Suc_eq kv_ok_def example_model_def cached_store_def float_dtypes_def
      cache_holds_def layer_holds_def spec_ks_def spec_vs_def spec_hidden_def numeral_2_eq_2 cached_store2_def request_ok_def
      intro!: from_plan_plan_input)

theorem forward_keeps_other_requests_witness:
  "\<exists>st'. ref_forward example_model (plan_input cached_decode 1) cached_store2
      = Inr (owed_logits example_model (requests cached_decode) [[0, 1]], st') \<and>
     cache_holds example_model 1 st' [0, 1] [1] 1"
proof -
  have "\<forall>r < length (requests cached_decode). \<forall>t \<in> set ([[0, 1]] ! r). 0 \<le> t \<and> t < int (length (embedding example_model))"
    by (simp add: cached_decode_def example_model_def)
  from ref_forward_ok [OF cached_decode_batch(1) plan_input_describes [OF batch_pages [OF cached_decode_batch(1)]]
      cached_decode_batch(2) this cached_decode_batch(4)]
  obtain st' where st': "ref_forward example_model (plan_input cached_decode 1) cached_store2
      = Inr (owed_logits example_model (requests cached_decode) [[0, 1]], st')" by blast
  from forward_keeps_other_requests [OF cached_decode_batch(1-7) st' cached_decode_batch(8,9)] st' show ?thesis by blast
qed

end
