(* ===== verification/SpecLossless.thy ===== *)
theory SpecLossless
  imports SpecRunner CachedForward
begin

text \<open>
  Greedy speculative decoding changes nothing. The contracts are locales: \<open>lossless_stepper\<close> is what
  \<open>generate\<close> needs of a \<open>step\<close>, \<open>causal_runner\<close> what the engine of \<open>executors/torch/spec_runner.py\<close>
  needs of a model runner, \<open>chain_pair\<close> the engine over a target and a draft. They are interpreted on
  the reference transformer over its paged cache and on the deterministic runner.
\<close>

section \<open>Stepping a greedy decoder\<close>

text \<open>What a decoder's \<open>step\<close> promises to \<open>generate\<close>: from a state that is good for a context, within
  its capacity, it commits at least one token and exactly the greedy continuation of the target.\<close>

locale lossless_stepper =
  fixes stp :: "'e \<Rightarrow> 'g \<Rightarrow> (int list \<times> 'e \<times> 'g) outcome option"
    and lm :: "int list \<Rightarrow> 'v::linorder list"
    and good :: "'e \<Rightarrow> int list \<Rightarrow> bool"
    and limit :: nat
  assumes step_greedy: "good e ctx \<Longrightarrow> length ctx \<le> limit \<Longrightarrow>
    \<exists>n e'. 1 \<le> n \<and> stp e g = Some (Inr (greedy_seq lm ctx n, e', g)) \<and> good e' (ctx @ greedy_seq lm ctx n)"

text \<open>\<open>generate\<close> does not look for the end of sequence in the token \<open>prefill\<close> picks.\<close>

definition stop_after :: "int option \<Rightarrow> int list \<Rightarrow> int list" where
  "stop_after eos xs = take 1 xs @ upto_eos eos (drop 1 xs)"

lemma stop_after_append:
  "xs \<noteq> [] \<Longrightarrow> stop_after eos (xs @ ys) = (if has_eos eos (tl xs) then stop_after eos xs else xs @ upto_eos eos ys)"
  by (cases xs) (auto simp: stop_after_def upto_eos_append)

lemma stop_after_id: "\<not> has_eos eos (tl xs) \<Longrightarrow> stop_after eos xs = xs"
  by (cases xs) (auto simp: stop_after_def upto_eos_id)

lemma upto_eos_take: "upto_eos eos (take n xs) = take n (upto_eos eos xs)"
proof (induction xs arbitrary: n)
  case (Cons x xs)
  then show ?case by (cases n) auto
qed simp

lemma stop_after_take: "1 \<le> n \<Longrightarrow> stop_after eos (take n xs) = take n (stop_after eos xs)"
  by (cases xs; cases n) (auto simp: stop_after_def upto_eos_take)

lemma has_eos_take: "has_eos eos (take n xs) \<Longrightarrow> has_eos eos xs"
  by (auto simp: has_eos_def dest: in_set_takeD)

context lossless_stepper
begin

lemma loop_lossless:
  assumes "good e (prompt @ gen)" "gen = greedy_seq lm prompt (length gen)" "gen \<noteq> []" "\<not> has_eos eos (tl gen)"
    and "1 \<le> max_new" "length prompt + max_new \<le> limit + 1"
  shows "\<exists>e'. generate_loop stp eos max_new gen e g = Some (Inr (stop_after eos (greedy_seq lm prompt max_new), e', g))"
  using assms
proof (induction "max_new - length gen" arbitrary: gen e rule: less_induct)
  case less
  show ?case
  proof (cases "length gen < max_new")
    case False
    have "take max_new gen = greedy_seq lm prompt max_new"
      using False less.prems(2) greedy_seq_take [of max_new "length gen" lm prompt] by simp
    moreover have "\<not> has_eos eos (tl (take max_new gen))"
      using less.prems(4) has_eos_take [of eos "max_new - 1" "tl gen"] by (cases gen; cases max_new) auto
    ultimately show ?thesis
      using False stop_after_id by (subst generate_loop.simps) metis
  next
    case True
    let ?ctx = "prompt @ gen"
    have "length ?ctx \<le> limit" using True less.prems(6) by simp
    from step_greedy [OF less.prems(1) this, of g] obtain n e1 where n: "1 \<le> n"
      "stp e g = Some (Inr (greedy_seq lm ?ctx n, e1, g))" "good e1 (?ctx @ greedy_seq lm ?ctx n)" by auto
    let ?c = "greedy_seq lm ?ctx n"
    have full: "gen @ ?c = greedy_seq lm prompt (length gen + n)"
      using less.prems(2) by (simp add: greedy_seq_append)
    have split: "stop_after eos (gen @ ?c) = gen @ upto_eos eos ?c"
      using less.prems(3,4) by (simp add: stop_after_append)
    show ?thesis
    proof (cases "has_eos eos ?c")
      case stop: True
      have "take max_new (gen @ upto_eos eos ?c) = stop_after eos (greedy_seq lm prompt max_new)"
      proof (cases "max_new \<le> length gen + n")
        case True
        have "stop_after eos (greedy_seq lm prompt max_new) = stop_after eos (take max_new (gen @ ?c))"
          unfolding full using True by (simp add: greedy_seq_take)
        also have "\<dots> = take max_new (gen @ upto_eos eos ?c)"
          using less.prems(5) by (simp only: stop_after_take split)
        finally show ?thesis by simp
      next
        case False
        have "greedy_seq lm prompt max_new = (gen @ ?c) @ greedy_seq lm (prompt @ gen @ ?c) (max_new - (length gen + n))"
          unfolding full using False greedy_seq_append [of lm prompt "length gen + n" "max_new - (length gen + n)"] by simp
        moreover have "has_eos eos (tl (gen @ ?c))" using stop less.prems(3) by simp
        ultimately have "stop_after eos (greedy_seq lm prompt max_new) = gen @ upto_eos eos ?c"
          using stop_after_append [of "gen @ ?c" eos] less.prems(3) split by simp
        moreover have "length (upto_eos eos xs) \<le> length xs" for xs by (induction xs) auto
        from this [of ?c] have "length (gen @ upto_eos eos ?c) \<le> max_new" using False by simp
        ultimately show ?thesis by simp
      qed
      then show ?thesis using True n(2) stop by (subst generate_loop.simps) (simp add: absorb_eq)
    next
      case False
      have "length (gen @ ?c) = length gen + n" by simp
      have "max_new - length (gen @ ?c) < max_new - length gen" using True n(1) by simp
      moreover have "good e1 (prompt @ gen @ ?c)" using n(3) by simp
      moreover have "gen @ ?c = greedy_seq lm prompt (length (gen @ ?c))" using full by simp
      moreover have "\<not> has_eos eos (tl (gen @ ?c))" using False less.prems(3,4) by simp
      moreover have "gen @ ?c \<noteq> []" using less.prems(3) by simp
      ultimately obtain e' where "generate_loop stp eos max_new (gen @ ?c) e1 g
          = Some (Inr (stop_after eos (greedy_seq lm prompt max_new), e', g))"
        using less.hyps [of "gen @ ?c" e1, OF _ _ _ _ _ less.prems(5,6)] by blast
      then show ?thesis
        using True n(2) False by (subst generate_loop.simps) (simp add: absorb_eq upto_eos_id)
    qed
  qed
qed

lemma generate_lossless:
  assumes "pre e g = Inr (int (argmax (lm prompt)), e1, g)" "good e1 (prompt @ [int (argmax (lm prompt))])"
    and "1 \<le> max_new" "int (length prompt) + max_new \<le> int limit + 1"
  shows "\<exists>e'. generate_with pre stp max_new eos e g = Some (Inr (stop_after eos (greedy_seq lm prompt (nat max_new)), e', g))"
  using loop_lossless [OF assms(2), of eos "nat max_new" g] assms
  by (simp add: generate_with_def Let_def)

end

section \<open>Runners with a causal cache\<close>

text \<open>The row a causal model owes each fed token, given what came before.\<close>

definition rows_after :: "(int list \<Rightarrow> 'v list) \<Rightarrow> int list \<Rightarrow> int list \<Rightarrow> 'v list list" where
  "rows_after lm xs ys = map (\<lambda>i. lm (xs @ take (Suc i) ys)) [0..<length ys]"

lemma length_rows_after [simp]: "length (rows_after lm xs ys) = length ys"
  by (simp add: rows_after_def)

lemma rows_after_last: "ys \<noteq> [] \<Longrightarrow> py_nth (rows_after lm xs ys) (- 1) = Inr (lm (xs @ ys))"
  by (cases ys rule: rev_cases) (auto simp: rows_after_def py_nth_def nat_diff_distrib nth_append)

text \<open>
  What the engine relies on in a runner. \<open>holds c xs\<close>: the runner's cache \<open>c\<close> has the tokens \<open>xs\<close> at
  the first slots; entries behind them are dead, so a prefix is held as well. A forward over the next
  chunk returns the model's rows and extends what is held; a CUDA graph of the decode shape either
  declines and leaves the cache, or does the same.
\<close>

locale causal_runner =
  fixes run :: "('c, 'v::linorder) runner"
    and lm :: "int list \<Rightarrow> 'v list"
    and tok :: "int \<Rightarrow> bool"
    and holds :: "'c \<Rightarrow> int list \<Rightarrow> bool"
    and bl pages :: nat
  assumes holds_prefix: "holds c (xs @ ys) \<Longrightarrow> holds c xs"
    and vocabulary: "holds c xs \<Longrightarrow> lm zs \<noteq> [] \<and> tok (int (argmax (lm zs)))"
    and forward_chunk: "holds c xs \<Longrightarrow> list_all tok (xs @ ys) \<Longrightarrow> ys \<noteq> [] \<Longrightarrow> bl > 0 \<Longrightarrow>
      ceil_div (length xs + length ys) bl \<le> pages \<Longrightarrow> chunk_input bl pages xs ys mi \<Longrightarrow>
      \<exists>c'. forward run mi c = Inr (rows_after lm xs ys, c') \<and> holds c' (xs @ ys)"
    and graph_chunk: "try_decode_cuda_graph run = Some tr \<Longrightarrow> holds c xs \<Longrightarrow> list_all tok (xs @ [y]) \<Longrightarrow> bl > 0 \<Longrightarrow>
      ceil_div (length xs + 1) bl \<le> pages \<Longrightarrow> chunk_input bl pages xs [y] mi \<Longrightarrow>
      \<exists>out c'. tr mi c = Inr (out, c') \<and>
        (case out of None \<Rightarrow> holds c' xs | Some rows \<Rightarrow> rows = rows_after lm xs [y] \<and> holds c' (xs @ [y]))"

context causal_runner
begin

text \<open>A track whose books say that the runner's cache holds \<open>xs\<close>.\<close>

definition track_at :: "('c, 'v) track \<Rightarrow> int list \<Rightarrow> bool" where
  "track_at t xs = (track_ok pages t \<and> tr_runner t = run \<and> tr_context_len t = length xs \<and> holds (tr_state t) xs)"

definition after :: "('c, 'v) track \<Rightarrow> int list \<Rightarrow> ('c, 'v) track \<Rightarrow> bool" where
  "after t zs t1 = (track_ok pages t1 \<and> same_books t t1 \<and> holds (tr_state t1) zs)"

lemma track_forward_ok:
  assumes "track_at t xs" "list_all tok (xs @ ys)" "ys \<noteq> []" "bl > 0" "ceil_div (length xs + length ys) bl \<le> pages"
  shows "\<exists>t1. track_forward junk bl t ys = Inr (rows_after lm xs ys, t1) \<and> after t (xs @ ys) t1"
proof -
  obtain mi t1 where mi: "make_input junk bl t ys = Inr (mi, t1)" "track_ok pages t1" "same_books t t1"
    "tr_state t1 = tr_state t" "chunk_input bl pages xs ys mi"
    using make_input_chunk [of pages t bl xs ys junk] assms by (auto simp: track_at_def)
  obtain c' where "forward run mi (tr_state t) = Inr (rows_after lm xs ys, c')" "holds c' (xs @ ys)"
    using forward_chunk [OF _ assms(2-5) mi(5)] assms(1) by (auto simp: track_at_def)
  then show ?thesis using mi assms(1) by (auto simp: track_forward_def track_at_def same_books_def after_def)
qed

lemma draft_decode_ok:
  assumes "track_at t xs" "list_all tok (xs @ [y])" "bl > 0" "ceil_div (length xs + 1) bl \<le> pages"
  shows "\<exists>t1. draft_decode_forward junk bl t y = Inr (rows_after lm xs [y], t1) \<and> after t (xs @ [y]) t1"
proof -
  obtain mi t1 where mi: "make_input junk bl t [y] = Inr (mi, t1)" "track_ok pages t1" "same_books t t1"
    "tr_state t1 = tr_state t" "chunk_input bl pages xs [y] mi"
    using make_input_chunk [of pages t bl xs "[y]" junk] assms by (auto simp: track_at_def)
  have eager: "\<exists>c'. forward run mi c = Inr (rows_after lm xs [y], c') \<and> holds c' (xs @ [y])" if "holds c xs" for c
    using forward_chunk [OF that assms(2) _ assms(3) _ mi(5)] assms(4) by simp
  have t: "holds (tr_state t) xs" "tr_runner t = run" "tr_runner t1 = run"
    using assms(1) mi(3) by (auto simp: track_at_def same_books_def)
  show ?thesis
  proof (cases "try_decode_cuda_graph run")
    case None
    with eager [OF t(1)] mi t show ?thesis
      by (auto simp: draft_decode_forward_def Let_def same_books_def after_def)
  next
    case (Some tr)
    obtain out c' where out: "tr mi (tr_state t) = Inr (out, c')"
      "case out of None \<Rightarrow> holds c' xs | Some rows \<Rightarrow> rows = rows_after lm xs [y] \<and> holds c' (xs @ [y])"
      using graph_chunk [OF Some t(1) assms(2-4) mi(5)] by auto
    show ?thesis
    proof (cases out)
      case None
      with out(2) eager [of c'] Some out(1) mi t show ?thesis
        by (auto simp: draft_decode_forward_def Let_def same_books_def after_def)
    next
      case (Some rows)
      with out \<open>try_decode_cuda_graph run = Some tr\<close> mi t show ?thesis
        by (auto simp: draft_decode_forward_def Let_def same_books_def after_def)
    qed
  qed
qed

lemma holds_take: "holds c xs \<Longrightarrow> holds c (take n xs)"
  using holds_prefix [of c "take n xs" "drop n xs"] by simp

text \<open>The draft loop: the greedy continuation of the draft model, one pass per token.\<close>

lemma draft_loop_ok:
  assumes t: "track_at t xs" and toks: "list_all tok (xs @ [p])" and bl: "bl > 0"
    and fits: "ceil_div (length xs + Suc k) bl \<le> pages" and m: "m \<le> Suc k"
  defines "props \<equiv> greedy_seq lm (xs @ [p]) k"
  shows "\<exists>t1 token. ofold (draft_pass junk sm True bl k) [0..<m] (t\<lparr> tr_proposal_logits := [] \<rparr>, p, [], g)
      = Inr (t1, token, take m props, g) \<and> (m \<le> k \<longrightarrow> token = (p # props) ! m) \<and>
      track_at t1 (xs @ take m (p # props)) \<and> tr_pending_token t1 = tr_pending_token t"
  using m
proof (induction m)
  case 0
  then show ?case using t by (auto simp: track_at_def)
next
  case (Suc m)
  have lp: "length props = k" by (simp add: props_def)
  obtain t1 token where IH: "ofold (draft_pass junk sm True bl k) [0..<m] (t\<lparr> tr_proposal_logits := [] \<rparr>, p, [], g)
      = Inr (t1, token, take m props, g)" "token = (p # props) ! m"
    "track_at t1 (xs @ take m (p # props))" "tr_pending_token t1 = tr_pending_token t"
    using Suc by auto
  have tok_all: "tok (int (argmax (lm zs)))" "lm zs \<noteq> []" for zs
    using vocabulary [of "tr_state t" xs] t by (auto simp: track_at_def)
  have props_ok: "list_all tok props"
  proof -
    have "list_all tok (greedy_seq lm ctx n)" for ctx n
      by (induction n arbitrary: ctx) (auto simp: tok_all Let_def)
    then show ?thesis by (simp add: props_def)
  qed
  let ?zs = "xs @ take m (p # props)"
  have step: "?zs @ [token] = xs @ take (Suc m) (p # props)"
    using IH(2) Suc.prems lp by (simp add: take_Suc_conv_app_nth del: take_Suc_Cons)
  have ok: "list_all tok (?zs @ [token])"
    unfolding step using toks props_ok by (auto simp: list_all_iff dest: in_set_takeD)
  have fits': "ceil_div (length ?zs + 1) bl \<le> pages"
    using fits Suc.prems lp ceil_div_mono [of "length ?zs + 1" "length xs + Suc k" bl] by simp
  obtain t2 where t2: "draft_decode_forward junk bl t1 token = Inr (rows_after lm ?zs [token], t2)" "after t1 (?zs @ [token]) t2"
    using draft_decode_ok [OF IH(3) ok bl fits'] by blast
  have at2: "track_at (t2\<lparr> tr_context_len := tr_context_len t2 + 1 \<rparr>) (xs @ take (Suc m) (p # props))"
    using t2(2) IH(3) step lp Suc.prems by (auto simp: track_at_def after_def same_books_def)
  show ?case
  proof (cases "m < k")
    case False
    then have "m = k" using Suc.prems by simp
    have "draft_pass junk sm True bl k m (t1, token, take m props, g)
        = Inr (t2\<lparr> tr_context_len := tr_context_len t2 + 1 \<rparr>, token, take m props, g)"
      using t2(1) \<open>m = k\<close> by (simp add: draft_pass_def Let_def)
    with IH(1) have "ofold (draft_pass junk sm True bl k) [0..<Suc m] (t\<lparr> tr_proposal_logits := [] \<rparr>, p, [], g)
        = Inr (t2\<lparr> tr_context_len := tr_context_len t2 + 1 \<rparr>, token, take (Suc m) props, g)"
      using \<open>m = k\<close> lp by (simp add: ofold_append)
    then show ?thesis
      using at2 IH(4) t2(2) \<open>m = k\<close> by (auto simp: after_def same_books_def)
  next
    case True
    have next_tok: "props ! m = int (argmax (lm (xs @ take (Suc m) (p # props))))"
    proof -
      have "take (Suc m) props = take m props @ [int (argmax (lm ((xs @ [p]) @ take m props)))]"
        using True greedy_seq_take [of m k lm "xs @ [p]"] greedy_seq_take [of "Suc m" k lm "xs @ [p]"]
          greedy_seq_append [of lm "xs @ [p]" m 1] by (simp add: props_def Let_def)
      then show ?thesis using True lp by (simp add: take_Suc_conv_app_nth)
    qed
    have row: "py_nth (rows_after lm ?zs [token]) (- 1) = Inr (lm (xs @ take (Suc m) (p # props)))"
      using rows_after_last [of "[token]" lm ?zs] unfolding step by simp
    have pick: "pick sm True (lm (xs @ take (Suc m) (p # props))) g = Inr (props ! m, g)"
      using next_tok tok_all(2) by (simp add: pick_def torch_argmax_def)
    have at3: "track_at (t2\<lparr> tr_context_len := tr_context_len t2 + 1, tr_proposal_logits := l \<rparr>) (xs @ take (Suc m) (p # props))" for l
      using at2 by (auto simp: track_at_def)
    let ?t3 = "t2\<lparr> tr_context_len := tr_context_len t2 + 1,
      tr_proposal_logits := tr_proposal_logits t2 @ [lm (xs @ take (Suc m) (p # props))] \<rparr>"
    have "draft_pass junk sm True bl k m (t1, token, take m props, g) = Inr (?t3, props ! m, take m props @ [props ! m], g)"
      using t2(1) True row pick by (simp add: draft_pass_def Let_def)
    moreover have "take m props @ [props ! m] = take (Suc m) props" using True lp by (simp add: take_Suc_conv_app_nth)
    ultimately have "ofold (draft_pass junk sm True bl k) [0..<Suc m] (t\<lparr> tr_proposal_logits := [] \<rparr>, p, [], g)
        = Inr (?t3, props ! m, take (Suc m) props, g)"
      using IH(1) by (simp add: ofold_append)
    moreover have "tr_pending_token ?t3 = tr_pending_token t" using IH(4) t2(2) by (simp add: after_def same_books_def)
    ultimately show ?thesis
      using at3 by (intro exI [of _ ?t3] exI [of _ "props ! m"]) simp
  qed
qed

end

section \<open>The engine over two causal runners\<close>

text \<open>The accept step on rows that score the drafts under a model: the greedy continuation, whose
  accepted part is a prefix of the drafts.\<close>

lemma greedy_row_continuation:
  assumes shape: "row_shape draft logits"
    and rows: "\<And>i. i \<le> length draft \<Longrightarrow> logits ! i = lm (ctx @ take i draft)"
  shows "\<exists>tokens n. greedy_row draft logits = Inr (tokens, n) \<and> 1 \<le> n \<and> n \<le> length draft + 1 \<and>
    take n tokens = greedy_seq lm ctx n \<and> take (n - 1) (greedy_seq lm ctx n) = take (n - 1) draft"
proof -
  obtain L out where r: "greedy_row draft logits = Inr (out, L + 1)" and L: "L \<le> length draft" "length out = length draft + 1"
    and same: "\<forall>i < L. out ! i = draft ! i \<and> draft ! i = int (argmax (logits ! i))"
    and corr: "out ! L = int (argmax (logits ! L))"
    using greedy_row_commit [OF shape] by (auto simp: greedy_commit_def)
  have pre: "take i out = take i draft" if "i \<le> L" for i
    using that L same by (intro nth_equalityI) auto
  have "\<forall>i < length (take (L + 1) out). take (L + 1) out ! i = int (argmax (lm (ctx @ take i (take (L + 1) out))))"
  proof (intro allI impI)
    fix i assume "i < length (take (L + 1) out)"
    then have i: "i \<le> L" by simp
    have "out ! i = int (argmax (logits ! i))" using i same corr by (cases "i = L") auto
    then show "take (L + 1) out ! i = int (argmax (lm (ctx @ take i (take (L + 1) out))))"
      using i L rows [of i] pre [OF i] by (simp add: min_def)
  qed
  from greedy_seq_unique [OF this] have "take (L + 1) out = greedy_seq lm ctx (L + 1)" using L by simp
  moreover from this have "take L (greedy_seq lm ctx (L + 1)) = take L draft"
    using pre [OF order_refl] by (metis add_diff_cancel_right' diff_le_self min.absorb1 take_take)
  ultimately show ?thesis using r L by (intro exI [of _ out] exI [of _ "L + 1"]) simp
qed

lemma py_nth_last: "xs \<noteq> [] \<Longrightarrow> py_nth xs (- 1) = Inr (last xs)"
  by (cases xs rule: rev_cases) (auto simp: py_nth_def nat_diff_distrib)

locale chain_pair =
  target: causal_runner trun lm tok tholds bl nb +
  draft: causal_runner drun dlm tok dholds bl dpages
  for trun :: "('c, 'v::linorder) runner" and lm and tok and tholds and bl and nb
    and drun :: "('d, 'v) runner" and dlm and dholds and dpages +
  fixes k :: nat
  assumes pages_le: "dpages \<le> nb"
begin

text \<open>The engine between two calls: both caches hold everything committed but the pending token.\<close>

definition ready :: "('c, 'd, 'v, 'z) engine_scheme \<Rightarrow> int list \<Rightarrow> bool" where
  "ready e ctx =
     (bl > 0 \<and> en_block_len e = bl \<and> list_all tok ctx \<and>
      (\<exists>xs p. ctx = xs @ [p] \<and> target.track_at (en_target e) xs \<and> tr_pending_token (en_target e) = p \<and>
         draft.track_at (en_draft e) xs \<and> tr_pending_token (en_draft e) = p))"

definition good :: "('c, 'd, 'v) engine \<Rightarrow> int list \<Rightarrow> bool" where
  "good e ctx = (ready e ctx \<and> k \<ge> 1 \<and> en_num_spec_tokens e = k)"

lemma target_tok: "tholds c xs \<Longrightarrow> list_all tok (greedy_seq lm ctx n)"
  using target.vocabulary by (induction n arbitrary: ctx) (auto simp: Let_def)

lemma draft_tok: "dholds c xs \<Longrightarrow> list_all tok (greedy_seq dlm ctx n)"
  using draft.vocabulary by (induction n arbitrary: ctx) (auto simp: Let_def)

lemma capacity:
  assumes "bl > 0" "length xs + Suc k \<le> dpages * bl" "n \<le> Suc k"
  shows "ceil_div (length xs + n) bl \<le> dpages" "ceil_div (length xs + n) bl \<le> nb"
proof -
  have "length xs + n \<le> dpages * bl" using assms by linarith
  then show "ceil_div (length xs + n) bl \<le> dpages" using ceil_div_le_iff [OF assms(1)] by simp
  then show "ceil_div (length xs + n) bl \<le> nb" using pages_le by simp
qed

lemma step_ok:
  assumes good: "good e ctx" and cap: "length ctx \<le> dpages * bl - k"
  shows "\<exists>n e'. 1 \<le> n \<and> step junk sm True e g = Inr (greedy_seq lm ctx n, e', g) \<and> good e' (ctx @ greedy_seq lm ctx n)"
proof -
  obtain xs p where ctx: "ctx = xs @ [p]" and tt: "target.track_at (en_target e) xs" "tr_pending_token (en_target e) = p"
    and dt: "draft.track_at (en_draft e) xs" "tr_pending_token (en_draft e) = p"
    and bl: "bl > 0" and k: "k \<ge> 1" "en_block_len e = bl" "en_num_spec_tokens e = k" and toks: "list_all tok (xs @ [p])"
    using good by (auto simp: good_def ready_def)
  have fits: "length xs + Suc k \<le> dpages * bl" using cap ctx k(1) by simp
  define props where "props = greedy_seq dlm (xs @ [p]) k"
  have lp: "length props = k" by (simp add: props_def)
  obtain d token where loop: "ofold (draft_pass junk sm True bl k) [0..<Suc k] ((en_draft e)\<lparr> tr_proposal_logits := [] \<rparr>, p, [], g)
      = Inr (d, token, props, g)" "draft.track_at d (xs @ p # props)"
    using draft.draft_loop_ok [OF dt(1) toks bl capacity(1) [OF bl fits order_refl] order_refl, of junk sm g] lp
    by (auto simp: props_def [symmetric])
  have props_ok: "list_all tok ((xs @ [p]) @ props)"
    using toks draft_tok [of "tr_state (en_draft e)" xs] dt(1) by (simp add: props_def draft.track_at_def)
  have vfit: "ceil_div (length xs + length (p # props)) bl \<le> nb"
    using capacity(2) [OF bl fits, of "Suc k"] lp by simp
  obtain t where t: "track_forward junk bl (en_target e) (p # props) = Inr (rows_after lm xs (p # props), t)"
    "target.after (en_target e) (xs @ p # props) t"
    using target.track_forward_ok [OF tt(1) _ _ bl vfit, of junk] props_ok by auto
  let ?rows = "rows_after lm xs (p # props)"
  have rows: "length ?rows = k + 1" "drop (length ?rows - (k + 1)) ?rows = ?rows" using lp by simp_all
  have nonempty: "lm zs \<noteq> []" for zs
    using target.vocabulary [of "tr_state (en_target e)" xs] tt(1) by (simp add: target.track_at_def)
  have shape: "row_shape props ?rows"
    using lp nonempty by (auto simp: row_shape_def rows_after_def list_all_iff)
  have row_at: "?rows ! i = lm ((xs @ [p]) @ take i props)" if "i \<le> length props" for i
    using that by (cases "i = length props") (simp_all add: rows_after_def nth_append)
  obtain tokens n where n: "greedy_row props ?rows = Inr (tokens, n)" "1 \<le> n" "n \<le> k + 1"
    "take n tokens = greedy_seq lm (xs @ [p]) n" "take (n - 1) (greedy_seq lm (xs @ [p]) n) = take (n - 1) props"
    using greedy_row_continuation [OF shape row_at] lp by auto
  let ?c = "greedy_seq lm (xs @ [p]) n"
  have acc: "accept_reject sm True props (tr_proposal_logits d) ?rows g = Inr ((tokens, n), g)"
    using n(1) by (simp add: accept_reject_def accept_reject_greedy_def)
  have ne: "?c \<noteq> []" using n(2) by (metis length_greedy_seq list.size(3) not_one_le_zero)
  let ?e = "e\<lparr> en_target := t\<lparr> tr_context_len := tr_context_len t + (1 + (n - 1)), tr_pending_token := last ?c \<rparr>,
               en_draft := d\<lparr> tr_context_len := tr_context_len d - (k - (n - 1)), tr_pending_token := last ?c \<rparr>,
               en_stats := bump_stats k (n - 1) n (en_stats e) \<rparr>"
  have step: "step junk sm True e g = Inr (?c, ?e, g)"
    using loop(1) t(1) acc n(4) k(2,3) tt(2) dt(2) py_nth_last [OF ne] rows
    by (simp add: step_def Let_def del: upt_Suc)
  text \<open>What the caches hold after the step is what was committed, without the new pending token.\<close>
  have bc: "butlast ?c = take (n - 1) props" using n(5) by (simp add: butlast_conv_take)
  have cut: "xs @ p # butlast ?c = take (length xs + n) (xs @ p # props)"
    using n(2) bc by (cases n) auto
  have lb: "length (xs @ p # butlast ?c) = length xs + n" using n(2) by simp
  have "target.track_at (en_target ?e) (xs @ p # butlast ?c)"
    using t(2) tt(1) n(2) lb target.holds_take [of "tr_state t" "xs @ p # props" "length xs + n"] cut
    by (auto simp: target.track_at_def target.after_def same_books_def)
  moreover have "draft.track_at (en_draft ?e) (xs @ p # butlast ?c)"
    using loop(2) n(2,3) lb draft.holds_take [of "tr_state d" "xs @ p # props" "length xs + n"] cut lp
    by (auto simp: draft.track_at_def)
  moreover have "list_all tok (ctx @ ?c)"
    using toks ctx target_tok [of "tr_state (en_target e)" xs] tt(1) by (simp add: target.track_at_def)
  moreover have "ctx @ ?c = (xs @ p # butlast ?c) @ [last ?c]" using ne ctx by simp
  ultimately have "good ?e (ctx @ ?c)" using bl k by (auto simp: good_def ready_def)
  with step n(2) show ?thesis unfolding ctx by blast
qed

lemma prefill_ok:
  assumes "en_block_len e = bl" "en_target e = new_track trun c nb" "en_draft e = new_track drun d dpages"
    and "tholds c []" "dholds d []" "bl > 0" "list_all tok prompt" "prompt \<noteq> []" "length prompt \<le> dpages * bl"
  shows "\<exists>e1. prefill junk sm True prompt e g = Inr (int (argmax (lm prompt)), e1, g) \<and> ready e1 (prompt @ [int (argmax (lm prompt))])"
proof -
  note e = assms(1-3)
  have tt: "target.track_at (new_track trun c nb) []" "draft.track_at (new_track drun d dpages) []"
    using assms(4,5) by (simp_all add: target.track_at_def draft.track_at_def) (simp_all add: new_track_def)
  have fits: "ceil_div (length prompt) bl \<le> dpages" "ceil_div (length prompt) bl \<le> nb"
    using assms(9) ceil_div_le_iff [OF assms(6)] order_trans [OF assms(9) mult_le_mono1 [OF pages_le]] by auto
  obtain t where t: "track_forward junk bl (new_track trun c nb) prompt = Inr (rows_after lm [] prompt, t)"
    "target.after (new_track trun c nb) prompt t"
    using target.track_forward_ok [OF tt(1) _ assms(8,6), of junk] assms(7) fits by auto
  obtain dt where dt: "track_forward junk bl (new_track drun d dpages) prompt = Inr (rows_after dlm [] prompt, dt)"
    "draft.after (new_track drun d dpages) prompt dt"
    using draft.track_forward_ok [OF tt(2) _ assms(8,6), of junk] assms(7) fits by auto
  let ?f = "int (argmax (lm prompt))"
  have pick: "pick sm True (lm prompt) g = Inr (?f, g)" "tok ?f"
    using target.vocabulary [OF assms(4), of prompt] by (simp_all add: pick_def torch_argmax_def)
  let ?e1 = "e\<lparr> en_target := t\<lparr> tr_context_len := length prompt, tr_pending_token := ?f \<rparr>,
                en_draft := dt\<lparr> tr_context_len := length prompt, tr_pending_token := ?f \<rparr> \<rparr>"
  have "prefill junk sm True prompt e g = Inr (?f, ?e1, g)"
    using assms(8) t(1) dt(1) pick(1) rows_after_last [OF assms(8), of lm "[]"] by (simp add: prefill_def e)
  moreover have "ready ?e1 (prompt @ [?f])"
    using t(2) dt(2) assms(6,7) pick(2) e(1)
    by (auto simp: ready_def target.after_def target.track_at_def draft.after_def draft.track_at_def same_books_def new_track_def)
  ultimately show ?thesis by blast
qed

end

sublocale chain_pair \<subseteq> stepper: lossless_stepper "\<lambda>e g. Some (step junk sm True e g)" lm good "dpages * bl - k" for junk sm
  by unfold_locales (use step_ok in auto)

context chain_pair
begin

text \<open>Chain speculative decoding is lossless: the engine over two causal runners generates the
  target's own greedy text.\<close>

lemma chain_lossless:
  assumes "engine_init trun c drun d bl nb (int k) = Inr e" "dpages = nb - 1"
    and "tholds c []" "dholds d []" "bl > 0" "k \<ge> 1" "list_all tok prompt" "prompt \<noteq> []"
    and "1 \<le> max_new" "int (length prompt) + max_new + int k \<le> int (dpages * bl) + 1"
  shows "\<exists>e'. generate junk sm True prompt max_new eos e g
    = Some (Inr (stop_after eos (greedy_seq lm prompt (nat max_new)), e', g))"
proof -
  have "length prompt \<le> dpages * bl" using assms(6,9,10) by linarith
  moreover have e: "en_block_len e = bl" "en_target e = new_track trun c nb" "en_draft e = new_track drun d dpages"
    "en_num_spec_tokens e = k"
    using assms(1,2) by (auto simp: engine_init_def require_Inr_iff)
  ultimately obtain e1 where e1: "prefill junk sm True prompt e g = Inr (int (argmax (lm prompt)), e1, g)"
    "ready e1 (prompt @ [int (argmax (lm prompt))])"
    using prefill_ok [OF e(1-3) assms(3-5,7,8), of junk sm g] by auto
  have "good e1 (prompt @ [int (argmax (lm prompt))])"
    using e1 prefill_keeps(2) [OF e1(1)] assms(6) e(4) by (simp add: good_def)
  note e1(1) this
  moreover have "int (length prompt) + max_new \<le> int (dpages * bl - k) + 1"
    using assms(6,9,10) by linarith
  ultimately show ?thesis
    unfolding generate_def
    by (intro stepper.generate_lossless [where prompt = prompt, OF _ _ assms(9)])
qed

end

section \<open>The reference runner is causal\<close>

definition ref_runner :: "ref_model \<Rightarrow> (slot_data kv_storage, real) runner" where
  "ref_runner M = \<lparr> forward = ref_forward M, try_decode_cuda_graph = None \<rparr>"

text \<open>A vocabulary of \<open>V\<close> tokens, all embedded and all scored.\<close>

definition in_vocab :: "nat \<Rightarrow> int \<Rightarrow> bool" where
  "in_vocab V t = (0 \<le> t \<and> t < int V)"

definition model_ok :: "nat \<Rightarrow> ref_model \<Rightarrow> bool" where
  "model_ok V M = (V > 0 \<and> length (lm_head M) = V \<and> V \<le> length (embedding M))"

definition ref_holds :: "nat \<Rightarrow> ref_model \<Rightarrow> nat \<Rightarrow> nat \<Rightarrow> nat \<Rightarrow> slot_data kv_storage \<Rightarrow> int list \<Rightarrow> bool" where
  "ref_holds V M bl nb pages c xs =
     (model_ok V M \<and> kv_ok M bl nb c \<and> pages \<le> nb \<and> cache_holds M bl c (map int [0..<pages]) xs (length xs))"

lemma chunk_batch_ok:
  assumes "bl > 0" "ceil_div (length xs + length ys) bl \<le> pages" "pages \<le> nb"
  shows "batch_ok bl nb [chunk_request pages xs ys] [xs @ ys]"
proof -
  have slots: "batch_slots bl [chunk_request pages xs ys] = map int [length xs..<length xs + length ys]"
    using plan_input_chunk [OF assms(1,2)] by (simp add: plan_input_def chunk_plan_def Let_def batch_slots_def)
  have "slot_at (map int [0..<pages]) bl p = int p" if "p < length xs" for p
    using that slot_at_identity [OF assms(1)] div_less_ceil_div [OF assms(1), of p "length xs + length ys"] assms(2) by simp
  then show ?thesis
    using assms by (auto simp: batch_ok_def slots pages_of_def distinct_map dest!: in_set_takeD)
qed

lemma ref_forward_chunk:
  assumes h: "ref_holds V M bl nb pages c xs" and toks: "list_all (in_vocab V) (xs @ ys)" and bl: "bl > 0"
    and fits: "ceil_div (length xs + length ys) bl \<le> pages" and mi: "describes bl [chunk_request pages xs ys] mi"
  shows "\<exists>c'. ref_forward M mi c = Inr (rows_after (spec_logits M) xs ys, c') \<and> ref_holds V M bl nb pages c' (xs @ ys)"
proof -
  let ?r = "chunk_request pages xs ys"
  have ok: "batch_ok bl nb [?r] [xs @ ys]" using chunk_batch_ok [OF bl fits] h by (simp add: ref_holds_def)
  have kv: "kv_ok M bl nb c" using h by (simp add: ref_holds_def)
  have vocab: "\<forall>r < length [?r]. \<forall>t \<in> set ([xs @ ys] ! r). 0 \<le> t \<and> t < int (length (embedding M))"
  proof -
    have "\<forall>t \<in> set (xs @ ys). 0 \<le> t \<and> t < int V" using toks by (auto simp: list_all_iff in_vocab_def)
    moreover have "V \<le> length (embedding M)" using h by (simp add: ref_holds_def model_ok_def)
    then have "int V \<le> int (length (embedding M))" by simp
    ultimately show ?thesis by (auto intro: less_le_trans)
  qed
  have held: "\<forall>r < length [?r]. cache_holds M bl c (block_table ([?r] ! r)) ([xs @ ys] ! r) (start_position ([?r] ! r))"
    using h cache_holds_prefix [of M bl c _ xs "length xs" "xs @ ys"] by (simp add: ref_holds_def)
  obtain c' where c': "ref_forward M mi c = Inr (owed_logits M [?r] [xs @ ys], c')" "kv_ok M bl nb c'"
    "cache_holds M bl c' (map int [0..<pages]) (xs @ ys) (length xs + length ys)"
    using ref_forward_ok [OF ok mi kv vocab held] by auto
  have "owed_logits M [?r] [xs @ ys] = rows_after (spec_logits M) xs ys"
    by (rule nth_equalityI) (simp_all add: owed_logits_def fed_def rows_after_def)
  with c' h show ?thesis by (simp add: ref_holds_def)
qed

interpretation ref: causal_runner "ref_runner M" "spec_logits M" "in_vocab V" "ref_holds V M bl nb pages" bl pages
  for M V bl nb pages
proof unfold_locales
  fix c xs ys assume "ref_holds V M bl nb pages c (xs @ ys)"
  then show "ref_holds V M bl nb pages c xs"
    using cache_holds_take [of M bl c _ "xs @ ys" "length (xs @ ys)" "length xs"] by (simp add: ref_holds_def)
next
  fix c xs zs assume "ref_holds V M bl nb pages c xs"
  then have "spec_logits M zs \<noteq> []" "length (spec_logits M zs) = V"
    by (auto simp: ref_holds_def model_ok_def spec_logits_def head_logits_def)
  then show "spec_logits M zs \<noteq> [] \<and> in_vocab V (int (argmax (spec_logits M zs)))"
    using argmax_less [of "spec_logits M zs"] by (simp add: in_vocab_def)
next
  fix c xs ys mi
  assume "ref_holds V M bl nb pages c xs" "list_all (in_vocab V) (xs @ ys)" "ys \<noteq> []" "bl > 0"
    and fits: "ceil_div (length xs + length ys) bl \<le> pages" and mi: "chunk_input bl pages xs ys mi"
  then show "\<exists>c'. forward (ref_runner M) mi c = Inr (rows_after (spec_logits M) xs ys, c') \<and> ref_holds V M bl nb pages c' (xs @ ys)"
    using ref_forward_chunk chunk_input_describes(1) [OF mi fits] by (simp add: ref_runner_def)
qed (simp add: ref_runner_def)

interpretation ref_pair: chain_pair "ref_runner T" "spec_logits T" "in_vocab V" "ref_holds V T bl nb nb" bl nb
    "ref_runner D" "spec_logits D" "ref_holds V D bl nb (nb - 1)" "nb - 1" k
  for T V bl nb D k
  by unfold_locales simp

section \<open>The deterministic runner is causal\<close>

definition det_runner :: "nat \<Rightarrow> (unit, real option) runner" where
  "det_runner V = \<lparr> forward = (\<lambda>mi c. Inr (deterministic_forward V mi, c)), try_decode_cuda_graph = None \<rparr>"

definition det_row :: "nat \<Rightarrow> int list \<Rightarrow> real option list" where
  "det_row V xs = (replicate V None)[nat ((last xs + 1) mod int V) := Some 0]"

definition det_holds :: "nat \<Rightarrow> unit \<Rightarrow> int list \<Rightarrow> bool" where
  "det_holds V c xs = (V > 0)"

interpretation det: causal_runner "det_runner V" "det_row V" "in_vocab V" "det_holds V" bl pages for V bl pages
proof unfold_locales
  fix c xs zs assume "det_holds V c xs"
  then have "det_row V zs \<noteq> []" "length (det_row V zs) = V"
    by (auto simp: det_holds_def det_row_def)
  then show "det_row V zs \<noteq> [] \<and> in_vocab V (int (argmax (det_row V zs)))"
    using argmax_less [of "det_row V zs"] by (simp add: in_vocab_def)
next
  fix c xs ys mi
  assume "det_holds V c xs" "ys \<noteq> []" "bl > 0"
    and fits: "ceil_div (length xs + length ys) bl \<le> pages" and mi: "chunk_input bl pages xs ys mi"
  have "mi_input_token_ids mi = ys"
    using chunk_input_describes(1) [OF mi fits] by (simp add: describes_def)
  moreover have "map (\<lambda>t. (replicate V None)[nat ((t + 1) mod int V) := Some 0]) ys = rows_after (det_row V) xs ys"
    by (rule nth_equalityI) (simp_all add: rows_after_def det_row_def take_Suc_conv_app_nth)
  ultimately show "\<exists>c'. forward (det_runner V) mi c = Inr (rows_after (det_row V) xs ys, c') \<and> det_holds V c' (xs @ ys)"
    using \<open>det_holds V c xs\<close> by (simp add: det_runner_def deterministic_forward_def det_holds_def)
qed (simp_all add: det_runner_def det_holds_def)

interpretation det_pair: chain_pair "det_runner V" "det_row V" "in_vocab V" "det_holds V" bl nb
    "det_runner V" "det_row V" "det_holds V" "nb - 1" k
  for V bl nb k
  by unfold_locales simp

section \<open>Theorems\<close>

lemma empty_cache_holds: "model_ok V M \<Longrightarrow> kv_ok M bl nb c \<Longrightarrow> pages \<le> nb \<Longrightarrow> ref_holds V M bl nb pages c []"
  by (simp add: ref_holds_def cache_holds_def layer_holds_def)

text \<open>C3: Chain speculative decoding is lossless, end to end. For any target and any draft transformer
  over one vocabulary, each with a paged cache of \<open>nb\<close> blocks in whatever state, greedy \<open>generate\<close>
  on a fresh engine returns exactly the first \<open>max_new_len\<close> tokens of the target's own greedy text
  (cut after the first end of sequence that is not its very first token), computed by recomputation
  without any cache, draft or page table. It always returns: no step runs out of pages as long as
  prompt, new tokens and \<open>K\<close> lookahead slots fit the draft's \<open>nb - 1\<close> blocks.\<close>

theorem speculative_generate_lossless:
  assumes "engine_init (ref_runner T) ct (ref_runner D) cd bl nb (int k) = Inr e" "k \<ge> 1" "bl > 0"
    and "model_ok V T" "model_ok V D" "kv_ok T bl nb ct" "kv_ok D bl nb cd"
    and "prompt \<noteq> []" "list_all (in_vocab V) prompt"
    and "1 \<le> max_new" "int (length prompt) + max_new + int k \<le> int ((nb - 1) * bl) + 1"
  shows "\<exists>e'. generate junk sm True prompt max_new eos e g
    = Some (Inr (stop_after eos (greedy_seq (spec_logits T) prompt (nat max_new)), e', g))"
  using ref_pair.chain_lossless [OF assms(1) refl _ _ assms(3,2,9,8,10,11)] empty_cache_holds assms(4-7) by simp

text \<open>The example model as target, and a draft with another head, over three blocks of four slots.\<close>

definition example_draft :: ref_model where
  "example_draft = example_model\<lparr> lm_head := [[4, 3], [2, 1]] \<rparr>"

definition blank_store :: "slot_data kv_storage" where
  "blank_store = \<lparr> geometry = \<lparr> num_layers = 1, num_blocks = 3, geo_block_len = 4, num_kv_heads = 1, geo_head_dim = 2 \<rparr>,
     st_kv_dtype = Float32, k_scale = 1, v_scale = 1, K_cache = [replicate 12 []], V_cache = [replicate 12 []],
     use_custom_ops = False \<rparr>"

theorem speculative_generate_lossless_witness:
  "\<exists>e e'. engine_init (ref_runner example_model) blank_store (ref_runner example_draft) blank_store 4 3 2 = Inr e \<and>
     generate 0 (torch_sampling (\<lambda>b n g. ([], g)) (\<lambda>ps g. ([], g))) True [0, 1] 3 (Some 1) e ()
       = Some (Inr (stop_after (Some 1) (greedy_seq (spec_logits example_model) [0, 1] 3), e', ()))"
proof -
  obtain e where e: "engine_init (ref_runner example_model) blank_store (ref_runner example_draft) blank_store 4 3 (int 2) = Inr e"
    by (simp add: engine_init_def)
  have "kv_ok M 4 3 blank_store" if "length (layers M) = 1" for M
    using that by (simp add: kv_ok_def blank_store_def float_dtypes_def)
  then have kv: "kv_ok example_model 4 3 blank_store" "kv_ok example_draft 4 3 blank_store"
    by (simp_all add: example_model_def example_draft_def)
  have ok: "model_ok 2 example_model" "model_ok 2 example_draft" by (simp_all add: model_ok_def example_model_def example_draft_def)
  have "\<exists>e'. generate 0 (torch_sampling (\<lambda>b n g. ([], g)) (\<lambda>ps g. ([], g))) True [0, 1] 3 (Some 1) e ()
       = Some (Inr (stop_after (Some 1) (greedy_seq (spec_logits example_model) [0, 1] (nat 3)), e', ()))"
    by (rule speculative_generate_lossless [OF e _ _ ok kv]) (simp_all add: in_vocab_def)
  with e show ?thesis by simp
qed

lemma argmax_one_hot:
  assumes "i < n"
  shows "argmax ((replicate n None)[i := Some (0 :: real)]) = i"
  by (rule argmax_eqI) (use assms in \<open>auto simp: nth_list_update less_eq_option_def less_option_def split: option.splits\<close>)

lemma greedy_det:
  assumes "V > 0"
  shows "greedy_seq (det_row V) prompt n = map (\<lambda>i. (last prompt + 1 + int i) mod int V) [0..<n]"
  using assms
proof (induction n arbitrary: prompt)
  case (Suc n)
  let ?t = "(last prompt + 1) mod int V"
  have t: "int (argmax (det_row V prompt)) = ?t"
    using Suc.prems argmax_one_hot [of "nat ?t" V] by (simp add: det_row_def nat_less_iff)
  have "map (\<lambda>i. (last (prompt @ [?t]) + 1 + int i) mod int V) [0..<n] = map (\<lambda>i. (last prompt + 1 + int (Suc i)) mod int V) [0..<n]"
  proof (intro map_cong refl)
    fix i
    have "((last prompt + 1) mod int V + (1 + int i)) mod int V = (last prompt + 1 + (1 + int i)) mod int V"
      by (rule mod_add_left_eq)
    then show "(last (prompt @ [?t]) + 1 + int i) mod int V = (last prompt + 1 + int (Suc i)) mod int V"
      by (simp add: add.assoc)
  qed
  moreover have "map (\<lambda>i. (last prompt + 1 + int i) mod int V) [0..<Suc n]
      = ?t # map (\<lambda>i. (last prompt + 1 + int (Suc i)) mod int V) [0..<n]"
    by (simp only: upt_conv_Cons [of 0 "Suc n"] map_Suc_upt [symmetric] map_map comp_def list.map) simp
  ultimately show ?case using Suc.IH [OF Suc.prems, of "prompt @ [?t]"] by (simp add: t Let_def)
qed simp

text \<open>C30: The engine over the deterministic runner counts. With \<open>DeterministicModelRunner\<close> as target and
  draft, greedy \<open>generate\<close> continues the prompt by its last token plus one, plus two, and so on, modulo
  the vocabulary, whatever the block length, the number of blocks and the speculation depth.\<close>

theorem deterministic_generate_counts:
  assumes "deterministic_init vocab = Inr V"
    and "engine_init (det_runner V) () (det_runner V) () bl nb (int k) = Inr e" "k \<ge> 1" "bl > 0"
    and "prompt \<noteq> []" "list_all (in_vocab V) prompt"
    and "1 \<le> max_new" "int (length prompt) + max_new + int k \<le> int ((nb - 1) * bl) + 1"
  shows "\<exists>e'. generate junk sm True prompt max_new None e g
    = Some (Inr (map (\<lambda>i. (last prompt + 1 + int i) mod int V) [0..<nat max_new], e', g))"
proof -
  have V: "V > 0" using assms(1) by (auto simp: deterministic_init_def require_Inr_iff)
  have none: "stop_after None xs = xs" for xs
  proof -
    have "upto_eos None ys = ys" for ys by (induction ys) auto
    then show ?thesis by (simp add: stop_after_def)
  qed
  from det_pair.chain_lossless [OF assms(2) refl _ _ assms(4,3,6,5,7,8), of junk sm None g] V
  show ?thesis by (simp add: det_holds_def none greedy_det)
qed

theorem deterministic_generate_counts_witness:
  "\<exists>e e'. engine_init (det_runner 5) () (det_runner 5) () 2 4 2 = Inr e \<and>
     generate 0 \<lparr> draw_token = (\<lambda>r g. (0, g)), row_probs = (\<lambda>r. []), accept_rows = (\<lambda>a b c g. ([], g)) \<rparr> True [3] 3 None e ()
       = Some (Inr ([4, 0, 1], e', ()))"
proof -
  obtain e where e: "engine_init (det_runner 5) () (det_runner 5) () 2 4 (int 2) = Inr e" by (simp add: engine_init_def)
  have "deterministic_init 5 = Inr 5" by (simp add: deterministic_init_def)
  from deterministic_generate_counts [OF this e, where prompt = "[3]" and max_new = 3] e
  show ?thesis by (auto simp: in_vocab_def upt_rec)
qed

end
