(* ===== verification/Sampler.thy ===== *)
theory Sampler
  imports ReferenceModel
begin

text \<open>
  Token sampling (\<open>executors/torch/sampler.py\<close>): temperature, top-k, top-p and min-p filters over a
  batch, the greedy rows of a mixed batch and the per-request generators. Logits are reals; a filtered
  entry (\<open>-inf\<close>) is \<open>None\<close>. The permutation \<open>torch.sort\<close> returns (which may order ties freely) and the
  draw of \<open>torch.multinomial\<close> from a freshly seeded generator are parameters.
\<close>

section \<open>Definitions\<close>

record sampling_batch =
  bt_all_greedy :: bool
  bt_temperatures :: "real list option"
  bt_top_ks :: "int list option"
  bt_top_ps :: "real list option"
  bt_min_ps :: "real list option"
  bt_seeds :: "int list option"
  bt_offsets :: "int list option"

record sampling_output =
  out_token_ids :: "int list"
  out_logprobs :: "real option list option"

definition scale_row :: "real \<Rightarrow> real list \<Rightarrow> real option list" where
  "scale_row temp row = map (\<lambda>x. Some (x / (if temp = 0 then 1 else temp))) row"

text \<open>\<open>torch.topk(logits, m)\<close> values: the \<open>m\<close> largest, descending.\<close>

definition topk_vals :: "nat \<Rightarrow> real option list \<Rightarrow> real option list" where
  "topk_vals m row = take m (rev (sort row))"

definition top_k_row :: "nat \<Rightarrow> int \<Rightarrow> real option list \<Rightarrow> real option list" where
  "top_k_row m k row =
     (let vals = topk_vals m row;
          idx = min (max (k - 1) 0) (int (length vals) - 1);
          cutoff = vals ! nat idx
      in map (\<lambda>x. if k > 0 \<and> x < cutoff then None else x) row)"

fun cumsum :: "real \<Rightarrow> real list \<Rightarrow> real list" where
  "cumsum acc [] = []"
| "cumsum acc (x # xs) = (acc + x) # cumsum (acc + x) xs"

definition top_p_row :: "(real option list \<Rightarrow> nat list) \<Rightarrow> real \<Rightarrow> real option list \<Rightarrow> real option list" where
  "top_p_row argsort p row =
     (let idx = argsort row;
          sorted_logits = map (\<lambda>i. row ! i) idx;
          cumulative = cumsum 0 (masked_softmax sorted_logits);
          over = map (\<lambda>c. c > p) cumulative;
          sorted_mask = map (\<lambda>b. b \<and> p < 1) (take (length over) (False # over));
          kept = map2 (\<lambda>m x. if m then None else x) sorted_mask sorted_logits
      in fold (\<lambda>(i, x) r. r[i := x]) (zip idx kept) row)"

definition min_p_row :: "real \<Rightarrow> real option list \<Rightarrow> real option list" where
  "min_p_row mp row =
     (let probs = masked_softmax row; threshold = foldr max probs 0 * mp
      in map2 (\<lambda>q x. if mp > 0 \<and> q < threshold then None else x) probs row)"

text \<open>The filters of a batch: each is skipped when no row asks for it.\<close>

definition filter_rows ::
    "(real option list \<Rightarrow> nat list) \<Rightarrow> nat \<Rightarrow> real list \<Rightarrow> int list \<Rightarrow> real list \<Rightarrow> real list \<Rightarrow> real list list
       \<Rightarrow> real option list list" where
  "filter_rows argsort V temps ks ps mps logits =
     (let l1 = map2 scale_row temps logits;
          max_top_k = foldr max ks (hd ks);
          l2 = (if max_top_k > 0 then map2 (top_k_row (min (nat max_top_k) V)) ks l1 else l1);
          l3 = (if list_ex (\<lambda>p. p < 1) ps then map2 (top_p_row argsort) ps l2 else l2)
      in if list_ex (\<lambda>mp. mp > 0) mps then map2 min_p_row mps l3 else l3)"

definition log_softmax_opt :: "real option list \<Rightarrow> real option list" where
  "log_softmax_opt row =
     (let z = ln (sum_list (map (\<lambda>s. case s of None \<Rightarrow> 0 | Some x \<Rightarrow> exp x) row))
      in map (map_option (\<lambda>x. x - z)) row)"

definition select_token :: "(int \<Rightarrow> real list \<Rightarrow> nat) \<Rightarrow> real \<Rightarrow> int \<Rightarrow> real option list \<Rightarrow> nat" where
  "select_token draw temp sd row = (if temp = 0 then argmax row else draw sd (masked_softmax row))"

definition sample ::
    "(real option list \<Rightarrow> nat list) \<Rightarrow> (int \<Rightarrow> real list \<Rightarrow> nat) \<Rightarrow> nat \<Rightarrow> real list list \<Rightarrow> sampling_batch
       \<Rightarrow> sampling_output outcome" where
  "sample argsort draw V logits batch =
     (if logits = [] then Inr \<lparr> out_token_ids = [], out_logprobs = Some [] \<rparr>
      else if bt_all_greedy batch
      then obind (omap torch_argmax logits) (\<lambda>ts. Inr \<lparr> out_token_ids = ts, out_logprobs = None \<rparr>)
      else
        (case (bt_temperatures batch, bt_top_ks batch, bt_top_ps batch, bt_min_ps batch, bt_seeds batch, bt_offsets batch) of
           (Some temps, Some ks, Some ps, Some mps, Some seeds, Some offsets) \<Rightarrow>
             (let rows = filter_rows argsort V temps ks ps mps logits;
                  tokens = map (\<lambda>i. select_token draw (temps ! i) (seeds ! i + offsets ! i) (rows ! i)) [0..<length logits];
                  logprobs = map (\<lambda>i. log_softmax_opt (rows ! i) ! (tokens ! i)) [0..<length logits]
              in Inr \<lparr> out_token_ids = map int tokens, out_logprobs = Some logprobs \<rparr>)
         | _ \<Rightarrow> Inl (ValueError ''non-greedy SamplingBatch requires parameter tensors'')))"

section \<open>One row\<close>

text \<open>What \<open>torch.sort(descending=True)\<close> promises of its indices.\<close>

definition argsort_ok :: "(real option list \<Rightarrow> nat list) \<Rightarrow> bool" where
  "argsort_ok argsort =
     (\<forall>row. distinct (argsort row) \<and> set (argsort row) = {..<length row} \<and>
            (\<forall>i j. i \<le> j \<longrightarrow> j < length row \<longrightarrow> row ! (argsort row ! j) \<le> row ! (argsort row ! i)))"

text \<open>A row filtered on its own.\<close>

definition filter_row :: "(real option list \<Rightarrow> nat list) \<Rightarrow> nat \<Rightarrow> real \<Rightarrow> int \<Rightarrow> real \<Rightarrow> real \<Rightarrow> real list \<Rightarrow> real option list" where
  "filter_row argsort V temp k p mp row =
     (let r1 = scale_row temp row;
          r2 = (if k > 0 then top_k_row (min (nat k) V) k r1 else r1);
          r3 = (if p < 1 then top_p_row argsort p r2 else r2)
      in if mp > 0 then min_p_row mp r3 else r3)"

lemma argsort_length: "argsort_ok argsort \<Longrightarrow> length (argsort row) = length row"
  using distinct_card [of "argsort row"] by (simp add: argsort_ok_def)

lemma length_cumsum [simp]: "length (cumsum acc xs) = length xs"
  by (induction xs arbitrary: acc) auto

lemma nth_cumsum: "i < length xs \<Longrightarrow> cumsum acc xs ! i = acc + sum_list (take (Suc i) xs)"
proof (induction xs arbitrary: acc i)
  case (Cons x xs)
  then show ?case by (cases i) auto
qed simp

lemma length_masked_softmax [simp]: "length (masked_softmax row) = length row"
  by (simp add: masked_softmax_def Let_def)

lemma length_scale_row [simp]: "length (scale_row t row) = length row"
  by (simp add: scale_row_def)

lemma length_top_k_row [simp]: "length (top_k_row m k row) = length row"
  by (simp add: top_k_row_def Let_def)

lemma length_min_p_row [simp]: "length (min_p_row mp row) = length row"
  by (simp add: min_p_row_def Let_def)

lemma scatter_perm_at:
  "distinct idx \<Longrightarrow> length xs = length idx \<Longrightarrow> \<forall>i \<in> set idx. i < length row \<Longrightarrow> k < length idx \<Longrightarrow>
   fold (\<lambda>(i, x) r. r[i := x]) (zip idx xs) row ! (idx ! k) = xs ! k"
proof (induction idx xs arbitrary: row k rule: list_induct2')
  case (4 i idx x xs)
  have other: "fold (\<lambda>(i, x) r. r[i := x]) (zip idx ys) r ! j = r ! j" if "j \<notin> set idx" for j ys and r :: "'a list"
    using that
  proof (induction idx ys arbitrary: r rule: list_induct2')
    case (4 a as b bs)
    from "4.IH" [of "r[a := b]"] "4.prems" show ?case by simp
  qed auto
  show ?case
  proof (cases k)
    case 0
    with 4 other [of i xs "row[i := x]"] show ?thesis by simp
  next
    case (Suc k')
    with "4.IH" [of "row[i := x]" k'] 4 show ?thesis by simp
  qed
qed auto

lemma length_scatter_perm [simp]: "length (fold (\<lambda>(i, x) r. r[i := x]) ps row) = length row"
  by (induction ps arbitrary: row) auto

lemma length_top_p_row [simp]: "length (top_p_row argsort p row) = length row"
  by (simp add: top_p_row_def Let_def)

text \<open>The top-p filter by position in the sorted order.\<close>

lemma top_p_at:
  assumes ok: "argsort_ok argsort" and k: "k < length row"
  shows "top_p_row argsort p row ! (argsort row ! k) =
    (if 0 < k \<and> p < 1 \<and> sum_list (take k (masked_softmax (map ((!) row) (argsort row)))) > p then None else row ! (argsort row ! k))"
proof -
  let ?idx = "argsort row" and ?s = "map ((!) row) (argsort row)"
  have len: "length ?idx = length row" using argsort_length [OF ok] .
  let ?over = "map (\<lambda>c. c > p) (cumsum 0 (masked_softmax ?s))"
  let ?kept = "map2 (\<lambda>m x. if m then None else x) (map (\<lambda>b. b \<and> p < 1) (take (length ?over) (False # ?over))) ?s"
  have "top_p_row argsort p row ! (?idx ! k) = ?kept ! k"
    unfolding top_p_row_def Let_def using ok len k
    by (intro scatter_perm_at) (auto simp: argsort_ok_def)
  also have "\<dots> = (if 0 < k \<and> p < 1 \<and> sum_list (take k (masked_softmax ?s)) > p then None else row ! (?idx ! k))"
    using k len by (cases k) (auto simp: nth_Cons' nth_cumsum)
  finally show ?thesis .
qed

lemma argsort_onto: "argsort_ok argsort \<Longrightarrow> j < length row \<Longrightarrow> \<exists>k < length row. argsort row ! k = j"
proof -
  assume a: "argsort_ok argsort" "j < length row"
  then have "j \<in> set (argsort row)" by (simp add: argsort_ok_def)
  then show ?thesis using argsort_length [OF a(1)] by (auto simp: in_set_conv_nth)
qed

lemma top_p_off: "argsort_ok argsort \<Longrightarrow> \<not> p < 1 \<Longrightarrow> top_p_row argsort p row = row"
proof (rule nth_equalityI)
  fix j assume a: "argsort_ok argsort" "\<not> p < 1" "j < length (top_p_row argsort p row)"
  then obtain k where "k < length row" "argsort row ! k = j" using argsort_onto [of argsort j row] by auto
  with top_p_at [OF a(1), of k row p] a(2) show "top_p_row argsort p row ! j = row ! j" by simp
qed simp

lemma min_p_off: "\<not> mp > 0 \<Longrightarrow> min_p_row mp row = row"
  by (rule nth_equalityI) (simp_all add: min_p_row_def Let_def)

lemma top_k_off: "\<not> k > 0 \<Longrightarrow> top_k_row m k row = row"
  by (simp add: top_k_row_def Let_def)

text \<open>The cutoff does not depend on how many values \<open>topk\<close> was asked for.\<close>

lemma top_k_row_cutoff:
  assumes "0 < k" "k \<le> int m" "row \<noteq> []" "length row = V"
  shows "top_k_row (min m V) k row = map (\<lambda>x. if x < rev (sort row) ! (min (nat k) V - 1) then None else x) row"
proof -
  have len: "length (topk_vals (min m V) row) = min m V" using assms(4) by (simp add: topk_vals_def)
  have idx: "nat (min (max (k - 1) 0) (int (min m V) - 1)) = min (nat k) V - 1"
    using assms(1,2) by (auto simp: min_def max_def)
  have lt: "min (nat k) V - 1 < min m V" using assms by (cases row) auto
  have cut: "topk_vals (min m V) row ! nat (min (max (k - 1) 0) (int (min m V) - 1)) = rev (sort row) ! (min (nat k) V - 1)"
    unfolding idx using lt by (simp add: topk_vals_def)
  show ?thesis
    unfolding top_k_row_def Let_def len cut using assms(1) by simp
qed

section \<open>Rows do not interfere\<close>

lemma max_ge: "(k :: int) \<in> set ks \<Longrightarrow> k \<le> foldr max ks d"
  by (induction ks) auto

lemma guarded_row:
  assumes "i < length l" "length ps = length l" "\<not> P (ps ! i) \<Longrightarrow> f (ps ! i) (l ! i) = l ! i"
  shows "(if list_ex P ps then map2 f ps l else l) ! i = (if P (ps ! i) then f (ps ! i) (l ! i) else l ! i)"
proof (cases "list_ex P ps")
  case True
  with assms show ?thesis by auto
next
  case False
  then have "\<not> P (ps ! i)" using assms(1,2) by (auto simp: list_ex_iff)
  with False show ?thesis by simp
qed

lemma filter_rows_row:
  assumes ok: "argsort_ok argsort" and i: "i < length logits" and V: "length (logits ! i) = V" "V > 0"
    and len: "length temps = length logits" "length ks = length logits" "length ps = length logits" "length mps = length logits"
  shows "filter_rows argsort V temps ks ps mps logits ! i = filter_row argsort V (temps ! i) (ks ! i) (ps ! i) (mps ! i) (logits ! i)"
proof -
  let ?row = "scale_row (temps ! i) (logits ! i)" and ?M = "foldr max ks (hd ks)"
  have row: "?row \<noteq> []" "length ?row = V" using V by (auto simp flip: length_0_conv)
  have k: "ks ! i \<le> ?M" using i len(2) by (intro max_ge) simp
  have two: "(if ?M > 0 then map2 (top_k_row (min (nat ?M) V)) ks (map2 scale_row temps logits) else map2 scale_row temps logits) ! i
      = (if ks ! i > 0 then top_k_row (min (nat (ks ! i)) V) (ks ! i) ?row else ?row)"
  proof (cases "ks ! i > 0")
    case True
    then have "top_k_row (min (nat ?M) V) (ks ! i) ?row = top_k_row (min (nat (ks ! i)) V) (ks ! i) ?row"
      using k row by (simp add: top_k_row_cutoff)
    with True k i len show ?thesis by simp
  next
    case False
    with i len show ?thesis by (simp add: top_k_off)
  qed
  let ?l2 = "if ?M > 0 then map2 (top_k_row (min (nat ?M) V)) ks (map2 scale_row temps logits) else map2 scale_row temps logits"
  let ?r2 = "if ks ! i > 0 then top_k_row (min (nat (ks ! i)) V) (ks ! i) ?row else ?row"
  have l2: "length ?l2 = length logits" using len by simp
  have three: "(if list_ex (\<lambda>p. p < 1) ps then map2 (top_p_row argsort) ps ?l2 else ?l2) ! i
      = (if ps ! i < 1 then top_p_row argsort (ps ! i) ?r2 else ?r2)"
    unfolding two [symmetric] by (rule guarded_row) (use i len l2 top_p_off [OF ok] in simp_all)
  let ?l3 = "if list_ex (\<lambda>p. p < 1) ps then map2 (top_p_row argsort) ps ?l2 else ?l2"
  have l3: "length ?l3 = length logits" using len l2 by simp
  have "(if list_ex (\<lambda>mp. mp > 0) mps then map2 min_p_row mps ?l3 else ?l3) ! i
      = (if mps ! i > 0 then min_p_row (mps ! i) (?l3 ! i) else ?l3 ! i)"
    by (rule guarded_row) (use i len l3 min_p_off in simp_all)
  then show ?thesis unfolding filter_rows_def filter_row_def Let_def three .
qed

section \<open>What survives the filters\<close>

definition mass :: "real option \<Rightarrow> real" where
  "mass s = (case s of None \<Rightarrow> 0 | Some x \<Rightarrow> exp x)"

lemma mass_simps [simp]: "mass None = 0" "mass (Some x) = exp x" "0 \<le> mass s" "0 < mass s \<longleftrightarrow> s \<noteq> None"
  by (cases s; simp add: mass_def)+

lemma masked_softmax_at: "i < length row \<Longrightarrow> masked_softmax row ! i = mass (row ! i) / sum_list (map mass row)"
  by (simp add: masked_softmax_def Let_def mass_def [abs_def])

lemma mass_pos: "Some x \<in> set row \<Longrightarrow> 0 < sum_list (map mass row)"
proof (induction row)
  case (Cons s row)
  have "0 \<le> sum_list (map mass ys)" for ys by (induction ys) auto
  then show ?case using Cons by (cases "s = Some x") (auto simp: add_pos_nonneg add_nonneg_pos)
qed simp

lemma masked_softmax_dist:
  assumes "Some x \<in> set row"
  shows "sum_list (masked_softmax row) = 1" "\<And>i. i < length row \<Longrightarrow> 0 \<le> masked_softmax row ! i"
    "\<And>i. i < length row \<Longrightarrow> 0 < masked_softmax row ! i \<longleftrightarrow> row ! i \<noteq> None"
proof -
  have pos: "0 < sum_list (map mass row)" by (rule mass_pos [OF assms])
  have "sum_list (map (\<lambda>e. e / c) xs) = sum_list xs / c" for c :: real and xs
    by (induction xs) (auto simp: add_divide_distrib)
  moreover have "masked_softmax row = map (\<lambda>e. e / sum_list (map mass row)) (map mass row)"
    by (simp add: masked_softmax_def Let_def mass_def [abs_def])
  ultimately show "sum_list (masked_softmax row) = 1" using pos by (simp del: map_map)
  show "0 \<le> masked_softmax row ! i" if "i < length row" for i
    using pos that by (simp add: masked_softmax_at)
  show "0 < masked_softmax row ! i \<longleftrightarrow> row ! i \<noteq> None" if "i < length row" for i
    using pos that by (simp add: masked_softmax_at zero_less_divide_iff)
qed

lemma mass_mono: "s \<le> s' \<Longrightarrow> mass s \<le> mass s'"
  by (cases s; cases s') auto

lemma softmax_mono:
  assumes "Some x \<in> set row" "i < length row" "j < length row" "row ! i \<le> row ! j"
  shows "masked_softmax row ! i \<le> masked_softmax row ! j"
  using mass_pos [OF assms(1)] assms(2-4) by (simp add: masked_softmax_at divide_right_mono mass_mono)

lemma max_of_ge: "(q :: real) \<in> set qs \<Longrightarrow> q \<le> foldr max qs d"
  by (induction qs) auto

lemma max_of_in: "qs \<noteq> [] \<Longrightarrow> \<forall>q \<in> set qs. 0 \<le> q \<Longrightarrow> foldr max qs 0 \<in> set (qs :: real list)"
proof (induction qs)
  case (Cons q qs)
  then show ?case by (cases "qs = []") (auto simp: max_def)
qed simp

text \<open>The number of entries a token has to beat to fall out of the top \<open>k\<close>.\<close>

definition above :: "real option list \<Rightarrow> real option \<Rightarrow> nat" where
  "above row x = length (filter (\<lambda>y. x < y) row)"

lemma above_sort: "above (rev (sort row)) x = above row x"
proof -
  have "mset (filter (\<lambda>y. x < y) (rev (sort row))) = mset (filter (\<lambda>y. x < y) row)" by simp
  then show ?thesis unfolding above_def by (rule mset_eq_length)
qed

text \<open>An entry at least as large as the \<open>k\<close>-th largest has fewer than \<open>k\<close> entries above it.\<close>

lemma above_cutoff:
  assumes "0 < k" "k \<le> length row" "rev (sort row) ! (k - 1) \<le> x"
  shows "above row x < k"
proof -
  let ?s = "rev (sort row)"
  have desc: "?s ! j \<le> ?s ! i" if "i \<le> j" "j < length row" for i j
    using that by (simp add: rev_nth sorted_nth_mono)
  have out: "\<not> x < y" if y: "y \<in> set (drop (k - 1) ?s)" for y
  proof -
    obtain j where j: "j < length (drop (k - 1) ?s)" "y = drop (k - 1) ?s ! j" using y unfolding in_set_conv_nth by blast
    have "k - 1 + j < length row" using j(1) by simp
    moreover have "y = ?s ! (k - 1 + j)" using j(2) assms(2) by (simp only: nth_drop length_rev length_sort)
    ultimately have "y \<le> ?s ! (k - 1)" using desc [of "k - 1" "k - 1 + j"] by simp
    with assms(3) show ?thesis by auto
  qed
  have "above row x = length (filter (\<lambda>y. x < y) (take (k - 1) ?s @ drop (k - 1) ?s))"
    unfolding append_take_drop_id using above_sort [of row x] by (simp only: above_def)
  also have "\<dots> = length (filter (\<lambda>y. x < y) (take (k - 1) ?s))"
  proof -
    have "filter (\<lambda>y. x < y) (drop (k - 1) ?s) = []" using out by (intro filter_False) blast
    then show ?thesis by (simp only: filter_append append_Nil2)
  qed
  also have "\<dots> \<le> k - 1" by (rule order_trans [OF length_filter_le]) simp
  finally show ?thesis using assms(1) by simp
qed

text \<open>The stages of one row. The largest entry survives each of them.\<close>

definition is_top :: "real option list \<Rightarrow> nat \<Rightarrow> bool" where
  "is_top row j = (j < length row \<and> row ! j \<noteq> None \<and> (\<forall>i < length row. row ! i \<le> row ! j))"

definition thinned :: "real option list \<Rightarrow> real option list \<Rightarrow> bool" where
  "thinned row row' = (length row' = length row \<and> (\<forall>i < length row. row' ! i = None \<or> row' ! i = row ! i))"

lemma thinned_refl [simp]: "thinned row row"
  by (simp add: thinned_def)

lemma thinned_trans: "thinned a b \<Longrightarrow> thinned b c \<Longrightarrow> thinned a c"
  unfolding thinned_def by metis

lemma thinned_top: "thinned row row' \<Longrightarrow> is_top row j \<Longrightarrow> row' ! j \<noteq> None \<Longrightarrow> is_top row' j"
  unfolding thinned_def is_top_def by (metis less_eq_option_None)

lemma kept_top: "thinned row row' \<Longrightarrow> \<exists>j. is_top row j \<and> is_top row' j \<Longrightarrow> is_top row' i \<Longrightarrow> is_top row i"
  unfolding thinned_def is_top_def by (metis order_antisym)

lemma top_k_stage:
  assumes "row \<noteq> []" "length row = V" "0 < k"
  shows "thinned row (top_k_row (min (nat k) V) k row)" "\<exists>j. is_top row j \<Longrightarrow> \<exists>j. is_top row j \<and> is_top (top_k_row (min (nat k) V) k row) j"
    "i < V \<Longrightarrow> top_k_row (min (nat k) V) k row ! i \<noteq> None \<Longrightarrow> int (above row (row ! i)) < k"
proof -
  let ?c = "rev (sort row) ! (min (nat k) V - 1)" and ?r = "top_k_row (min (nat k) V) k row"
  have r: "?r = map (\<lambda>x. if x < ?c then None else x) row"
    using assms by (intro top_k_row_cutoff) simp_all
  have at: "?r ! i = (if row ! i < ?c then None else row ! i)" if "i < V" for i
    using that assms(2) by (simp add: r)
  show th: "thinned row ?r" using assms(2) at by (simp add: thinned_def)
  show "\<exists>j. is_top row j \<and> is_top ?r j" if ex: "\<exists>j. is_top row j"
  proof -
    obtain j where j: "is_top row j" using ex by blast
    have lt: "min (nat k) V - 1 < length row" using assms by (cases row) auto
    then have "?c \<in> set row" by (metis length_rev length_sort nth_mem set_rev set_sort)
    then have "?c \<le> row ! j" using j by (metis in_set_conv_nth is_top_def)
    then have "?r ! j \<noteq> None" using at [of j] j assms(2) by (auto simp: is_top_def)
    then show ?thesis using thinned_top [OF th j] j by blast
  qed
  assume i: "i < V" "?r ! i \<noteq> None"
  then have "?c \<le> row ! i" using at by (simp split: if_splits) 
  then have "above row (row ! i) < min (nat k) V"
    using assms by (intro above_cutoff) (auto simp: Suc_le_eq)
  then show "int (above row (row ! i)) < k" by linarith
qed

lemma top_p_stage:
  assumes ok: "argsort_ok argsort" and ne: "row \<noteq> []"
  shows "thinned row (top_p_row argsort p row)" "\<exists>j. is_top row j \<Longrightarrow> \<exists>j. is_top row j \<and> is_top (top_p_row argsort p row) j"
    "k < length row \<Longrightarrow> p < 1 \<Longrightarrow> top_p_row argsort p row ! (argsort row ! k) \<noteq> None \<Longrightarrow>
       k = 0 \<or> sum_list (take k (masked_softmax (map ((!) row) (argsort row)))) \<le> p"
proof -
  have idx: "argsort row ! k < length row" if "k < length row" for k
  proof -
    have "argsort row ! k \<in> set (argsort row)" using that argsort_length [OF ok, of row] by simp
    then show ?thesis using ok by (simp add: argsort_ok_def)
  qed
  show th: "thinned row (top_p_row argsort p row)"
  proof -
    have "top_p_row argsort p row ! j = None \<or> top_p_row argsort p row ! j = row ! j" if j: "j < length row" for j
    proof -
      obtain k where k: "k < length row" "argsort row ! k = j" using argsort_onto [OF ok j] by blast
      show ?thesis using top_p_at [OF ok k(1), of p] k(2) by (simp split: if_splits)
    qed
    then show ?thesis by (simp add: thinned_def)
  qed
  show "\<exists>j. is_top row j \<and> is_top (top_p_row argsort p row) j" if ex: "\<exists>j. is_top row j"
  proof -
    obtain t where t: "is_top row t" using ex by blast
    let ?j = "argsort row ! 0"
    have l: "0 < length row" using ne by simp
    obtain k where k: "k < length row" "argsort row ! k = t" using argsort_onto [OF ok, of t row] t by (auto simp: is_top_def)
    have "row ! t \<le> row ! ?j" using ok k by (auto simp: argsort_ok_def)
    moreover obtain x where x: "row ! t = Some x" using t by (auto simp: is_top_def)
    ultimately have "row ! ?j \<noteq> None" by (cases "row ! ?j") auto
    moreover have "row ! i \<le> row ! ?j" if "i < length row" for i
      using t that \<open>row ! t \<le> row ! ?j\<close> unfolding is_top_def by (blast intro: order_trans)
    ultimately have "is_top row ?j" using idx [OF l] by (simp add: is_top_def)
    moreover have "top_p_row argsort p row ! ?j = row ! ?j" using top_p_at [OF ok l, of p] by simp
    ultimately have "top_p_row argsort p row ! ?j \<noteq> None" by (simp add: is_top_def)
    then show ?thesis using thinned_top [OF th \<open>is_top row ?j\<close>] \<open>is_top row ?j\<close> by blast
  qed
  show "k = 0 \<or> sum_list (take k (masked_softmax (map ((!) row) (argsort row)))) \<le> p"
    if "k < length row" "p < 1" "top_p_row argsort p row ! (argsort row ! k) \<noteq> None"
    using top_p_at [OF ok that(1), of p] that(2,3) by (auto split: if_splits)
qed

lemma min_p_stage:
  assumes ne: "row \<noteq> []"
  shows "thinned row (min_p_row mp row)" "mp \<le> 1 \<Longrightarrow> \<exists>j. is_top row j \<Longrightarrow> \<exists>j. is_top row j \<and> is_top (min_p_row mp row) j"
    "i < length row \<Longrightarrow> 0 < mp \<Longrightarrow> min_p_row mp row ! i \<noteq> None \<Longrightarrow> \<forall>q \<in> set (masked_softmax row). masked_softmax row ! i \<ge> q * mp"
proof -
  have at: "min_p_row mp row ! i = (if mp > 0 \<and> masked_softmax row ! i < foldr max (masked_softmax row) 0 * mp then None else row ! i)"
    if "i < length row" for i using that by (simp add: min_p_row_def Let_def)
  show th: "thinned row (min_p_row mp row)" using at by (simp add: thinned_def)
  show "\<exists>j. is_top row j \<and> is_top (min_p_row mp row) j" if mp: "mp \<le> 1" and ex: "\<exists>j. is_top row j"
  proof -
    obtain j where j: "is_top row j" using ex by blast
    obtain x where "row ! j = Some x" using j by (auto simp: is_top_def)
    then have x: "Some x \<in> set row" using j nth_mem [of j row] by (simp add: is_top_def)
    have nonneg: "\<forall>q \<in> set (masked_softmax row). 0 \<le> q"
      using masked_softmax_dist(2) [OF x] by (auto simp: in_set_conv_nth)
    have "foldr max (masked_softmax row) 0 \<in> set (masked_softmax row)"
    proof (rule max_of_in [OF _ nonneg])
      show "masked_softmax row \<noteq> []" using ne by (metis length_0_conv length_masked_softmax)
    qed
    then obtain i where i: "i < length row" "masked_softmax row ! i = foldr max (masked_softmax row) 0"
      by (auto simp: in_set_conv_nth)
    have "masked_softmax row ! i \<le> masked_softmax row ! j"
      using j i(1) by (intro softmax_mono [OF x]) (auto simp: is_top_def)
    moreover have "foldr max (masked_softmax row) 0 * mp \<le> foldr max (masked_softmax row) 0 * 1"
      using mp i nonneg by (intro mult_left_mono) (auto simp flip: i(2))
    ultimately have "min_p_row mp row ! j = row ! j" using at [of j] i(2) j by (auto simp: is_top_def)
    then show ?thesis using thinned_top [OF th j] j by (auto simp: is_top_def)
  qed
  show "\<forall>q \<in> set (masked_softmax row). masked_softmax row ! i \<ge> q * mp"
    if "i < length row" "0 < mp" "min_p_row mp row ! i \<noteq> None"
  proof
    fix q assume "q \<in> set (masked_softmax row)"
    then have "q \<le> foldr max (masked_softmax row) 0" by (rule max_of_ge)
    then have "q * mp \<le> foldr max (masked_softmax row) 0 * mp" using that(2) by (intro mult_right_mono) auto
    moreover have "\<not> masked_softmax row ! i < foldr max (masked_softmax row) 0 * mp"
      using at [OF that(1)] that(2,3) by auto
    ultimately show "masked_softmax row ! i \<ge> q * mp" by linarith
  qed
qed

definition row_stages :: "(real option list \<Rightarrow> nat list) \<Rightarrow> nat \<Rightarrow> real \<Rightarrow> int \<Rightarrow> real \<Rightarrow> real list
    \<Rightarrow> real option list \<times> real option list \<times> real option list" where
  "row_stages argsort V temp k p row =
     (let r1 = scale_row temp row;
          r2 = (if k > 0 then top_k_row (min (nat k) V) k r1 else r1)
      in (r1, r2, if p < 1 then top_p_row argsort p r2 else r2))"

text \<open>A token allowed by the parameters of its request.\<close>

definition allowed :: "(real option list \<Rightarrow> nat list) \<Rightarrow> nat \<Rightarrow> real \<Rightarrow> int \<Rightarrow> real \<Rightarrow> real \<Rightarrow> real list \<Rightarrow> nat \<Rightarrow> bool" where
  "allowed argsort V temp k p mp row i =
     (case row_stages argsort V temp k p row of (r1, r2, r3) \<Rightarrow>
        (k > 0 \<longrightarrow> int (above r1 (r1 ! i)) < k) \<and>
        (p < 1 \<longrightarrow> (\<exists>pos. argsort r2 ! pos = i \<and> (pos = 0 \<or> sum_list (take pos (masked_softmax (map ((!) r2) (argsort r2)))) \<le> p))) \<and>
        (mp > 0 \<longrightarrow> (\<forall>q \<in> set (masked_softmax r3). q * mp \<le> masked_softmax r3 ! i)))"

lemma scale_top: "row \<noteq> [] \<Longrightarrow> \<exists>j. is_top (scale_row temp row) j"
proof -
  assume ne: "row \<noteq> []"
  let ?r = "scale_row temp row"
  have "?r \<noteq> []" using ne by (metis length_0_conv length_scale_row)
  then have j: "argmax ?r < length ?r" by (rule argmax_less)
  then have "is_top ?r (argmax ?r)" using argmax_max [of _ ?r] by (simp add: is_top_def) (simp add: scale_row_def)
  then show ?thesis by blast
qed

lemma filter_row_ok:
  assumes ok: "argsort_ok argsort" and V: "length row = V" "V > 0" and mp: "mp \<le> 1"
    and r_def: "r = filter_row argsort V temp k p mp row"
  shows "thinned (scale_row temp row) r" "\<exists>j. is_top r j"
    "\<And>j. is_top r j \<Longrightarrow> is_top (scale_row temp row) j"
    "\<And>i. i < V \<Longrightarrow> r ! i \<noteq> None \<Longrightarrow> allowed argsort V temp k p mp row i"
proof -
  let ?r1 = "scale_row temp row"
  define r2 where "r2 = (if k > 0 then top_k_row (min (nat k) V) k ?r1 else ?r1)"
  define r3 where "r3 = (if p < 1 then top_p_row argsort p r2 else r2)"
  have r: "r = (if mp > 0 then min_p_row mp r3 else r3)"
    by (simp add: r_def filter_row_def Let_def r2_def r3_def)
  have ne: "row \<noteq> []" using V by auto
  have n1: "?r1 \<noteq> []" "length ?r1 = V" using V ne by (auto simp: scale_row_def)
  have l2: "length r2 = V" "length r3 = V" using V by (simp_all add: r2_def r3_def)
  then have n2: "r2 \<noteq> []" "r3 \<noteq> []" using V(2) by auto
  have t2: "thinned ?r1 r2" using top_k_stage(1) [OF n1] by (simp add: r2_def)
  have t3: "thinned r2 r3" using top_p_stage(1) [OF ok n2(1)] by (simp add: r3_def)
  have t4: "thinned r3 r" using min_p_stage(1) [OF n2(2)] by (simp add: r)
  show "thinned ?r1 r" using t2 t3 t4 thinned_trans by blast
  have e2: "\<exists>j. is_top ?r1 j \<and> is_top r2 j" using scale_top [OF ne, of temp] top_k_stage(2) [OF n1] by (auto simp: r2_def)
  then have e3: "\<exists>j. is_top r2 j \<and> is_top r3 j" using top_p_stage(2) [OF ok n2(1), of p] by (auto simp: r3_def)
  then have e4: "\<exists>j. is_top r3 j \<and> is_top r j" using min_p_stage(2) [OF n2(2) mp] by (auto simp: r)
  then show "\<exists>j. is_top r j" by blast
  show "is_top ?r1 j" if "is_top r j" for j
    using that kept_top [OF t4 e4] kept_top [OF t3 e3] kept_top [OF t2 e2] by blast
  fix i assume i: "i < V" "r ! i \<noteq> None"
  have i3: "r3 ! i \<noteq> None" using t4 i l2 unfolding thinned_def by metis
  have i2: "r2 ! i \<noteq> None" using t3 i3 i(1) l2 unfolding thinned_def by metis
  have "k > 0 \<Longrightarrow> int (above ?r1 (?r1 ! i)) < k" using top_k_stage(3) [OF n1 _ i(1)] i2 by (simp add: r2_def)
  moreover have "\<exists>pos. argsort r2 ! pos = i \<and> (pos = 0 \<or> sum_list (take pos (masked_softmax (map ((!) r2) (argsort r2)))) \<le> p)" if "p < 1"
  proof -
    obtain pos where pos: "pos < length r2" "argsort r2 ! pos = i" using argsort_onto [OF ok, of i r2] i(1) l2 by auto
    with top_p_stage(3) [OF ok n2(1) pos(1) that] i3 that show ?thesis by (auto simp: r3_def)
  qed
  moreover have "mp > 0 \<Longrightarrow> \<forall>q \<in> set (masked_softmax r3). q * mp \<le> masked_softmax r3 ! i"
    using min_p_stage(3) [OF n2(2), of i mp] i l2 by (simp add: r)
  moreover have "row_stages argsort V temp k p row = (?r1, r2, r3)"
    by (simp add: row_stages_def Let_def r2_def r3_def)
  ultimately show "allowed argsort V temp k p mp row i"
    unfolding allowed_def by simp
qed

section \<open>Theorems\<close>

definition batch_shape :: "nat \<Rightarrow> real list list \<Rightarrow> real list \<Rightarrow> int list \<Rightarrow> real list \<Rightarrow> real list \<Rightarrow> int list \<Rightarrow> int list \<Rightarrow> bool" where
  "batch_shape V logits temps ks ps mps seeds offsets =
     (V > 0 \<and> (\<forall>row \<in> set logits. length row = V) \<and> length temps = length logits \<and> length ks = length logits \<and>
      length ps = length logits \<and> length mps = length logits \<and> length seeds = length logits \<and> length offsets = length logits)"

definition mixed_batch :: "real list \<Rightarrow> int list \<Rightarrow> real list \<Rightarrow> real list \<Rightarrow> int list \<Rightarrow> int list \<Rightarrow> sampling_batch" where
  "mixed_batch temps ks ps mps seeds offsets =
     \<lparr> bt_all_greedy = False, bt_temperatures = Some temps, bt_top_ks = Some ks, bt_top_ps = Some ps,
       bt_min_ps = Some mps, bt_seeds = Some seeds, bt_offsets = Some offsets \<rparr>"

lemma sample_mixed:
  assumes "argsort_ok argsort" "batch_shape V logits temps ks ps mps seeds offsets" "logits \<noteq> []"
  shows "\<exists>out lps. sample argsort draw V logits (mixed_batch temps ks ps mps seeds offsets) = Inr out \<and>
    length (out_token_ids out) = length logits \<and> out_logprobs out = Some lps \<and> length lps = length logits \<and>
    (\<forall>i < length logits.
       let r = filter_row argsort V (temps ! i) (ks ! i) (ps ! i) (mps ! i) (logits ! i);
           t = select_token draw (temps ! i) (seeds ! i + offsets ! i) r
       in out_token_ids out ! i = int t \<and> lps ! i = log_softmax_opt r ! t)"
proof -
  have row: "filter_rows argsort V temps ks ps mps logits ! i
      = filter_row argsort V (temps ! i) (ks ! i) (ps ! i) (mps ! i) (logits ! i)" if "i < length logits" for i
    using assms(2) that by (intro filter_rows_row [OF assms(1)]) (auto simp: batch_shape_def)
  show ?thesis
    using assms(3) by (simp add: sample_def mixed_batch_def Let_def row)
qed


text \<open>A stable descending sort of indices.\<close>

definition stable_argsort :: "real option list \<Rightarrow> nat list" where
  "stable_argsort row = rev (sort_key (\<lambda>i. row ! i) [0..<length row])"

lemma stable_argsort_ok: "argsort_ok stable_argsort"
  unfolding argsort_ok_def
proof (intro allI conjI impI)
  fix row :: "real option list" and i j
  show "distinct (stable_argsort row)" "set (stable_argsort row) = {..<length row}"
    by (auto simp: stable_argsort_def)
  assume ij: "i \<le> j" "j < length row"
  let ?s = "sort_key (\<lambda>i. row ! i) [0..<length row]"
  have "sorted (map (\<lambda>i. row ! i) ?s)" by (rule sorted_sort_key)
  then have "map (\<lambda>i. row ! i) ?s ! (length row - Suc j) \<le> map (\<lambda>i. row ! i) ?s ! (length row - Suc i)"
    using ij by (intro sorted_nth_mono) auto
  then show "row ! (stable_argsort row ! j) \<le> row ! (stable_argsort row ! i)"
    using ij by (simp add: stable_argsort_def rev_nth)
qed


text \<open>C25: What a request may be given. For every request of a mixed batch the distribution that is drawn
  from is a probability distribution; each token of its support is allowed by the request's top-k (fewer
  than \<open>k\<close> larger logits), top-p (the probability sorted before it does not exceed \<open>p\<close>) and min-p (at
  least \<open>min_p\<close> times the largest probability); a most likely token is never filtered; the token
  returned is in the support, and for temperature zero it has the largest logit of the request.\<close>

theorem sample_support:
  assumes "argsort_ok argsort" "batch_shape V logits temps ks ps mps seeds offsets" "i < length logits" "mps ! i \<le> 1"
    and "\<And>sd row. \<exists>x. Some x \<in> set row \<Longrightarrow> draw sd (masked_softmax row) < length row \<and> row ! draw sd (masked_softmax row) \<noteq> None"
  shows "\<exists>out t r. sample argsort draw V logits (mixed_batch temps ks ps mps seeds offsets) = Inr out \<and>
    out_token_ids out ! i = int t \<and> t < V \<and> length r = V \<and> sum_list (masked_softmax r) = 1 \<and>
    (\<forall>j < V. 0 < masked_softmax r ! j \<longrightarrow> allowed argsort V (temps ! i) (ks ! i) (ps ! i) (mps ! i) (logits ! i) j) \<and>
    (\<exists>j < V. 0 < masked_softmax r ! j \<and> is_top (scale_row (temps ! i) (logits ! i)) j) \<and>
    0 < masked_softmax r ! t \<and>
    (if temps ! i = 0 then \<forall>q \<in> set (logits ! i). q \<le> logits ! i ! t
     else t = draw (seeds ! i + offsets ! i) (masked_softmax r))"
proof -
  have ne: "logits \<noteq> []" using assms(3) by auto
  have V: "length (logits ! i) = V" "V > 0" using assms(2,3) by (auto simp: batch_shape_def)
  let ?temp = "temps ! i" and ?row = "logits ! i"
  define r where "r = filter_row argsort V ?temp (ks ! i) (ps ! i) (mps ! i) ?row"
  define t where "t = select_token draw ?temp (seeds ! i + offsets ! i) r"
  obtain out where out: "sample argsort draw V logits (mixed_batch temps ks ps mps seeds offsets) = Inr out"
    "out_token_ids out ! i = int t"
    using sample_mixed [OF assms(1,2) ne, of draw] assms(3) by (auto simp: r_def t_def Let_def)
  note f = filter_row_ok [OF assms(1) V assms(4) r_def]
  have len: "length r = V" using f(1) V(1) by (simp add: thinned_def)
  obtain top where top: "is_top r top" using f(2) by blast
  obtain x where x: "r ! top = Some x" using top by (auto simp: is_top_def)
  then have sx: "Some x \<in> set r" using top nth_mem [of top r] by (simp add: is_top_def)
  have am: "is_top r (argmax r)"
  proof -
    have "r \<noteq> []" using len V(2) by auto
    then have "argmax r < length r" by (rule argmax_less)
    moreover have "r ! j \<le> r ! argmax r" if "j < length r" for j using that by (rule argmax_max)
    moreover from this [of top] have "r ! argmax r \<noteq> None" using top x by (cases "r ! argmax r") (auto simp: is_top_def)
    ultimately show ?thesis by (simp add: is_top_def)
  qed
  have tt: "t < V \<and> r ! t \<noteq> None"
    using am assms(5) [of r] sx len by (auto simp: t_def select_token_def is_top_def)
  have pos: "0 < masked_softmax r ! j \<longleftrightarrow> r ! j \<noteq> None" if "j < V" for j
    using masked_softmax_dist(3) [OF sx] that len by simp
  have one: "sum_list (masked_softmax r) = 1" by (rule masked_softmax_dist(1) [OF sx])
  have supp: "\<forall>j < V. 0 < masked_softmax r ! j \<longrightarrow> allowed argsort V ?temp (ks ! i) (ps ! i) (mps ! i) ?row j"
    using f(4) pos by blast
  have keep: "\<exists>j < V. 0 < masked_softmax r ! j \<and> is_top (scale_row ?temp ?row) j"
    using top f(3) [OF top] pos len by (auto simp: is_top_def)
  have zero: "if ?temp = 0 then \<forall>q \<in> set ?row. q \<le> ?row ! t else t = draw (seeds ! i + offsets ! i) (masked_softmax r)"
    using f(3) [OF am] V by (auto simp: t_def select_token_def is_top_def scale_row_def in_set_conv_nth)
  show ?thesis
    using out len one supp keep tt pos zero by blast
qed

text \<open>A draw that returns the first token of positive probability.\<close>

definition first_draw :: "int \<Rightarrow> real list \<Rightarrow> nat" where
  "first_draw sd probs = length (takeWhile (\<lambda>q. q \<le> 0) probs)"

lemma first_draw_ok:
  assumes "\<exists>x. Some x \<in> set row"
  shows "first_draw sd (masked_softmax row) < length row \<and> row ! first_draw sd (masked_softmax row) \<noteq> None"
proof -
  obtain x where x: "Some x \<in> set row" using assms by blast
  let ?n = "first_draw sd (masked_softmax row)"
  have lt: "?n < length (masked_softmax row)"
  proof (rule ccontr)
    assume "\<not> ?thesis"
    then have "takeWhile (\<lambda>q. q \<le> 0) (masked_softmax row) = masked_softmax row"
      unfolding first_draw_def by (metis length_takeWhile_le not_less order_antisym takeWhile_eq_take take_all)
    then have "\<forall>q \<in> set (masked_softmax row). q \<le> 0" by (metis set_takeWhileD)
    then have "sum_list (masked_softmax row) \<le> 0" by (intro sum_list_nonpos) auto
    with masked_softmax_dist(1) [OF x] show False by simp
  qed
  then have "\<not> masked_softmax row ! ?n \<le> 0"
    unfolding first_draw_def by (rule nth_length_takeWhile)
  then show ?thesis using masked_softmax_dist(3) [OF x, of ?n] lt by simp
qed

theorem sample_support_witness:
  "\<exists>out t r. sample stable_argsort first_draw 3 [[1, 2, 3], [5, 0, 4]]
      (mixed_batch [1, 0] [2, 3] [9/10, 1] [0, 1/20] [1, 2] [3, 4]) = Inr out \<and>
    out_token_ids out ! 0 = int t \<and> 0 < masked_softmax r ! t \<and> allowed stable_argsort 3 1 2 (9/10) 0 [1, 2, 3] t"
  using sample_support [OF stable_argsort_ok, where V = 3 and logits = "[[1, 2, 3], [5, 0, 4]]" and temps = "[1, 0]"
      and ks = "[2, 3]" and ps = "[9/10, 1]" and mps = "[0, 1/20]" and seeds = "[1, 2]" and offsets = "[3, 4]" and i = 0
      and draw = first_draw] first_draw_ok
  by (fastforce simp: batch_shape_def)

end
