(* ===== verification/Executor.thy ===== *)
theory Executor
  imports Sampler CachedForward
begin

text \<open>
  The executor (\<open>executors/torch/executor.py\<close>): choice between the graph replay of a plan, the graph
  replay of a built input and the eager forward, the rows that are sampled, the staging of the sampling
  parameters and tokens, and the results of a step. A runner is a record of its methods over a state of
  its own. A buffer that was never allocated is the empty list; pinned memory and streams have no
  counterpart. An exception ends \<open>execute\<close>; the state after one is not modelled.
\<close>

section \<open>State\<close>

record 'c model_runner =
  mr_try_plan :: "(batch_plan \<Rightarrow> 'c \<Rightarrow> real list list option \<times> 'c) option"
  mr_try_graph :: "(model_input \<Rightarrow> 'c \<Rightarrow> (real list list option \<times> 'c) outcome) option"
  mr_forward :: "model_input \<Rightarrow> 'c \<Rightarrow> (real list list \<times> 'c) outcome"

record 'c executor =
  ex_runner :: "'c model_runner"
  ex_state :: 'c
  ex_block_len :: nat
  ex_eos :: int
  ex_pool :: pool
  ex_host_tokens :: "int list"
  ex_host_f32 :: "real list list"
  ex_host_i64 :: "int list list"
  ex_gpu_f32 :: "real list list"
  ex_gpu_i64 :: "int list list"

definition executor_init :: "'c model_runner \<Rightarrow> 'c \<Rightarrow> nat \<Rightarrow> int \<Rightarrow> 'c executor" where
  "executor_init runner c bl eos =
     \<lparr> ex_runner = runner, ex_state = c, ex_block_len = bl, ex_eos = eos, ex_pool = pool_init,
       ex_host_tokens = [], ex_host_f32 = [], ex_host_i64 = [], ex_gpu_f32 = [], ex_gpu_i64 = [] \<rparr>"

definition min_sample_cap :: nat where
  "min_sample_cap = 64"

section \<open>The forward\<close>

text \<open>\<open>model_input\<close> stays \<open>None\<close> when the plan was replayed from a graph.\<close>

definition run_model ::
    "int \<Rightarrow> batch_plan \<Rightarrow> 'c executor \<Rightarrow> (model_input option \<times> real list list \<times> 'c executor) outcome" where
  "run_model junk batch ex =
     (let (output, ex1) =
        (case mr_try_plan (ex_runner ex) of
           None \<Rightarrow> (None, ex)
         | Some try \<Rightarrow> (case try batch (ex_state ex) of (out, c) \<Rightarrow> (out, ex\<lparr> ex_state := c \<rparr>)))
      in case output of
           Some logits \<Rightarrow> Inr (None, logits, ex1)
         | None \<Rightarrow>
             obind (pool_build junk batch (ex_block_len ex1) (ex_pool ex1)) (\<lambda>(mi, p).
             let ex2 = ex1\<lparr> ex_pool := p \<rparr> in
             obind (case mr_try_graph (ex_runner ex2) of
                      Some try \<Rightarrow> (if is_decode_only_plan batch then try mi (ex_state ex2) else Inr (None, ex_state ex2))
                    | None \<Rightarrow> Inr (None, ex_state ex2)) (\<lambda>(out, c).
             case out of
               Some logits \<Rightarrow> Inr (Some mi, logits, ex2\<lparr> ex_state := c \<rparr>)
             | None \<Rightarrow> obind (mr_forward (ex_runner ex2) mi c) (\<lambda>(logits, c').
                 Inr (Some mi, logits, ex2\<lparr> ex_state := c' \<rparr>)))))"

section \<open>Sampling\<close>

definition sampling_indices :: "batch_plan \<Rightarrow> nat list" where
  "sampling_indices batch =
     filter (\<lambda>i. req_sampling_plan (requests batch ! i) \<noteq> None) [0..<length (requests batch)]"

definition sampling_plans :: "batch_plan \<Rightarrow> sampling_plan list" where
  "sampling_plans batch = List.map_filter req_sampling_plan (requests batch)"

definition ensure_token_buffer :: "int \<Rightarrow> nat \<Rightarrow> 'c executor \<Rightarrow> 'c executor" where
  "ensure_token_buffer junk n ex =
     (if ex_host_tokens ex \<noteq> [] \<and> n \<le> length (ex_host_tokens ex) then ex
      else ex\<lparr> ex_host_tokens := replicate (max n min_sample_cap) junk \<rparr>)"

definition ensure_param_buffers :: "int \<Rightarrow> nat \<Rightarrow> 'c executor \<Rightarrow> 'c executor" where
  "ensure_param_buffers junk n ex =
     (if ex_host_f32 ex \<noteq> [] \<and> n \<le> length (ex_host_f32 ex) then ex
      else
        (let cap = max n min_sample_cap;
             f32 = replicate cap (replicate 3 (real_of_int junk));
             i64 = replicate cap (replicate 3 junk)
         in ex\<lparr> ex_host_f32 := f32, ex_host_i64 := i64, ex_gpu_f32 := f32, ex_gpu_i64 := i64 \<rparr>))"

text \<open>One row of the staging buffers.\<close>

definition set_entry :: "nat \<Rightarrow> nat \<Rightarrow> 'a \<Rightarrow> 'a list list \<Rightarrow> 'a list list" where
  "set_entry i j v rows = rows[i := (rows ! i)[j := v]]"

definition pack_params ::
    "nat \<Rightarrow> nat \<times> sampling_plan \<Rightarrow> real list list \<times> int list list \<Rightarrow> real list list \<times> int list list" where
  "pack_params V ip bufs =
     (let index = fst ip; params = sp_params (snd ip)
      in (set_entry index 2 (min_p params) (set_entry index 1 (top_p params) (set_entry index 0 (temperature params) (fst bufs))),
          set_entry index 2 (int (sample_index (snd ip)))
            (set_entry index 1 (seed params)
              (set_entry index 0 (case top_k params of Some k \<Rightarrow> int k | None \<Rightarrow> int V) (snd bufs)))))"

definition column :: "nat \<Rightarrow> nat \<Rightarrow> 'a list list \<Rightarrow> 'a list" where
  "column n j rows = map (\<lambda>row. row ! j) (take n rows)"

definition pack_sampling_params :: "nat \<Rightarrow> sampling_plan list \<Rightarrow> 'c executor \<Rightarrow> sampling_batch \<times> 'c executor" where
  "pack_sampling_params V plans ex =
     (let n = length plans;
          (f32, i64) = fold (pack_params V) (zip [0..<n] plans) (ex_host_f32 ex, ex_host_i64 ex);
          g32 = put_slice (ex_gpu_f32 ex) 0 (take n f32);
          g64 = put_slice (ex_gpu_i64 ex) 0 (take n i64)
      in (\<lparr> bt_all_greedy = False, bt_temperatures = Some (column n 0 g32), bt_top_ks = Some (column n 0 g64),
            bt_top_ps = Some (column n 1 g32), bt_min_ps = Some (column n 2 g32),
            bt_seeds = Some (column n 1 g64), bt_offsets = Some (column n 2 g64) \<rparr>,
          ex\<lparr> ex_host_f32 := f32, ex_host_i64 := i64, ex_gpu_f32 := g32, ex_gpu_i64 := g64 \<rparr>))"

definition copy_tokens_to_host :: "int list \<Rightarrow> 'c executor \<Rightarrow> int list \<times> 'c executor" where
  "copy_tokens_to_host toks ex =
     (let b = put_slice (ex_host_tokens ex) 0 toks in (take (length toks) b, ex\<lparr> ex_host_tokens := b \<rparr>))"

text \<open>A replayed plan has one row per request; otherwise the last row of each request is selected.\<close>

definition sample_logits :: "model_input option \<Rightarrow> real list list \<Rightarrow> nat list \<Rightarrow> real list list outcome" where
  "sample_logits mi logits idx =
     (case mi of
        None \<Rightarrow> omap (onth logits) idx
      | Some m \<Rightarrow>
          (let ends = map (\<lambda>x. x - 1) (tl (mi_query_start_loc m))
           in omap (\<lambda>i. obind (onth ends i) (py_nth logits)) idx))"

definition greedy_batch :: sampling_batch where
  "greedy_batch = \<lparr> bt_all_greedy = True, bt_temperatures = None, bt_top_ks = None, bt_top_ps = None,
     bt_min_ps = None, bt_seeds = None, bt_offsets = None \<rparr>"

definition sample_tokens ::
    "(real option list \<Rightarrow> nat list) \<Rightarrow> (int \<Rightarrow> real list \<Rightarrow> nat) \<Rightarrow> int \<Rightarrow> batch_plan \<Rightarrow> model_input option
       \<Rightarrow> real list list \<Rightarrow> 'c executor \<Rightarrow> ((nat \<rightharpoonup> int) \<times> 'c executor) outcome" where
  "sample_tokens argsort draw junk batch mi logits ex =
     (let plans = sampling_plans batch; idx = sampling_indices batch; n = length plans
      in if plans = [] then Inr (Map.empty, ex)
         else
           (let ex1 = ensure_token_buffer junk n ex
            in obind (if list_all (\<lambda>p. temperature (sp_params p) = 0) plans then Inr (greedy_batch, ex1)
                      else obind (onth logits 0) (\<lambda>row.
                        Inr (pack_sampling_params (length row) plans (ensure_param_buffers junk n ex1)))) (\<lambda>(sb, ex2).
               obind (sample_logits mi logits idx) (\<lambda>rows.
               obind (sample argsort draw (length (hd rows)) rows sb) (\<lambda>out.
               let (toks, ex3) = copy_tokens_to_host (out_token_ids out) ex2
               in require (length toks = length idx) (ValueError ''zip() argument 2 has a different length'')
                    (Inr (map_of (zip idx toks), ex3))))))) "

section \<open>A step\<close>

definition request_result :: "int \<Rightarrow> (nat \<rightharpoonup> int) \<Rightarrow> nat \<Rightarrow> scheduled_request \<Rightarrow> request_execution_result" where
  "request_result eos tokens index r =
     (case tokens index of
        None \<Rightarrow> \<lparr> res_request_id = request_id r, generated_token_ids = [],
                  cached_len_delta = length (input_token_ids r), is_eos = False \<rparr>
      | Some t \<Rightarrow>
          \<lparr> res_request_id = request_id r, generated_token_ids = [t], cached_len_delta = length (input_token_ids r),
            is_eos = (t = eos \<or> (case req_sampling_plan r of None \<Rightarrow> False | Some p \<Rightarrow> t \<in> set (stop_token_ids (sp_params p)))) \<rparr>)"

definition torch_execute ::
    "(real option list \<Rightarrow> nat list) \<Rightarrow> (int \<Rightarrow> real list \<Rightarrow> nat) \<Rightarrow> int \<Rightarrow> batch_plan \<Rightarrow> 'c executor
       \<Rightarrow> (execution_result \<times> 'c executor) outcome" where
  "torch_execute argsort draw junk batch ex =
     obind (run_model junk batch ex) (\<lambda>(mi, logits, ex1).
     obind (sample_tokens argsort draw junk batch mi logits ex1) (\<lambda>(tokens, ex2).
       Inr (\<lparr> res_step_id = step_id batch,
              request_results = map (\<lambda>i. request_result (ex_eos ex2) tokens i (requests batch ! i)) [0..<length (requests batch)] \<rparr>,
            ex2)))"

section \<open>Staging\<close>

definition executor_wf :: "'c executor \<Rightarrow> bool" where
  "executor_wf ex =
     (pool_wf (ex_pool ex) \<and>
      length (ex_host_i64 ex) = length (ex_host_f32 ex) \<and> length (ex_gpu_f32 ex) = length (ex_host_f32 ex) \<and>
      length (ex_gpu_i64 ex) = length (ex_host_f32 ex) \<and>
      (\<forall>row \<in> set (ex_host_f32 ex). length row = 3) \<and> (\<forall>row \<in> set (ex_host_i64 ex). length row = 3))"

lemma executor_init_wf: "executor_wf (executor_init runner c bl eos)"
  by (simp add: executor_wf_def executor_init_def pool_wf_init)

lemma ensure_buffers:
  assumes "executor_wf ex" "0 < n"
  shows "executor_wf (ensure_token_buffer junk n ex)" "n \<le> length (ex_host_tokens (ensure_token_buffer junk n ex))"
    "executor_wf (ensure_param_buffers junk n ex)" "n \<le> length (ex_host_f32 (ensure_param_buffers junk n ex))"
    "ex_host_tokens (ensure_param_buffers junk n ex) = ex_host_tokens ex"
  using assms by (auto simp: executor_wf_def ensure_token_buffer_def ensure_param_buffers_def Let_def)

definition same_runner :: "'c executor \<Rightarrow> 'c executor \<Rightarrow> bool" where
  "same_runner ex ex' = (ex_runner ex' = ex_runner ex \<and> ex_state ex' = ex_state ex \<and>
     ex_block_len ex' = ex_block_len ex \<and> ex_eos ex' = ex_eos ex \<and> ex_pool ex' = ex_pool ex)"

lemma same_runner_trans: "same_runner a b \<Longrightarrow> same_runner b c \<Longrightarrow> same_runner a c"
  by (simp add: same_runner_def)

lemma ensure_same: "same_runner ex (ensure_token_buffer junk n ex)" "same_runner ex (ensure_param_buffers junk n ex)"
  by (simp_all add: same_runner_def ensure_token_buffer_def ensure_param_buffers_def Let_def)

lemma set_entries_3:
  "length (rows ! i) = 3 \<Longrightarrow> i < length rows \<Longrightarrow>
     set_entry i 2 c (set_entry i (Suc 0) b (set_entry i 0 a rows)) = rows[i := [a, b, c]]"
  by (auto simp: set_entry_def length_Suc_conv numeral_3_eq_3)

definition top_k_or :: "nat \<Rightarrow> sampling_plan \<Rightarrow> int" where
  "top_k_or V p = (case top_k (sp_params p) of Some k \<Rightarrow> int k | None \<Rightarrow> int V)"

definition f32_row :: "sampling_plan \<Rightarrow> real list" where
  "f32_row p = [temperature (sp_params p), top_p (sp_params p), min_p (sp_params p)]"

definition i64_row :: "nat \<Rightarrow> sampling_plan \<Rightarrow> int list" where
  "i64_row V p = [top_k_or V p, seed (sp_params p), int (sample_index p)]"

lemma rows_update: "\<forall>r \<in> set f. P r \<Longrightarrow> P v \<Longrightarrow> \<forall>r \<in> set (f[i := v]). P r"
  using set_update_subset_insert [of f i v] by blast

lemma packed_rows:
  assumes "length plans \<le> length f32" "length i64 = length f32"
    "\<forall>row \<in> set f32. length row = 3" "\<forall>row \<in> set i64. length row = 3"
  shows "\<exists>f i. fold (pack_params V) (zip [0..<length plans] plans) (f32, i64) = (f, i) \<and>
    length f = length f32 \<and> length i = length f32 \<and> (\<forall>row \<in> set f. length row = 3) \<and> (\<forall>row \<in> set i. length row = 3) \<and>
    take (length plans) f = map f32_row plans \<and> take (length plans) i = map (i64_row V) plans"
  using assms(1)
proof (induction plans rule: rev_induct)
  case Nil
  then show ?case using assms by simp
next
  case (snoc p plans)
  then obtain f i where fi: "fold (pack_params V) (zip [0..<length plans] plans) (f32, i64) = (f, i)"
    "length f = length f32" "length i = length f32" "\<forall>row \<in> set f. length row = 3" "\<forall>row \<in> set i. length row = 3"
    "take (length plans) f = map f32_row plans" "take (length plans) i = map (i64_row V) plans"
    by auto
  have lt: "length plans < length f32" using snoc.prems by simp
  have "pack_params V (length plans, p) (f, i) = (f[length plans := f32_row p], i[length plans := i64_row V p])"
    using lt fi(2-5) by (simp add: pack_params_def Let_def set_entries_3 f32_row_def i64_row_def top_k_or_def)
  then have "fold (pack_params V) (zip [0..<length (plans @ [p])] (plans @ [p])) (f32, i64)
      = (f[length plans := f32_row p], i[length plans := i64_row V p])"
    using fi(1) by simp
  moreover have "\<forall>row \<in> set (f[length plans := f32_row p]). length row = 3"
    "\<forall>row \<in> set (i[length plans := i64_row V p]). length row = 3"
    by (rule rows_update [OF fi(4)], simp add: f32_row_def) (rule rows_update [OF fi(5)], simp add: i64_row_def)
  ultimately show ?case
    using fi(2,3,6,7) lt by (simp add: take_list_update_Suc)
qed

lemma put_prefix: "length ys = n \<Longrightarrow> n \<le> length xs \<Longrightarrow> take n (put_slice xs 0 ys) = ys"
  using take_put_slice [of 0 ys xs] by simp

text \<open>Whatever the staging held, the packed batch holds the parameters of the requests.\<close>

lemma pack_sampling_params_eq:
  assumes wf: "executor_wf ex" and n: "length plans \<le> length (ex_host_f32 ex)"
  shows "\<exists>ex'. pack_sampling_params V plans ex =
      (mixed_batch (map (temperature \<circ> sp_params) plans) (map (top_k_or V) plans) (map (top_p \<circ> sp_params) plans)
         (map (min_p \<circ> sp_params) plans) (map (seed \<circ> sp_params) plans) (map (int \<circ> sample_index) plans), ex')
    \<and> executor_wf ex' \<and> same_runner ex ex' \<and> ex_host_tokens ex' = ex_host_tokens ex"
proof -
  obtain f i where fi: "fold (pack_params V) (zip [0..<length plans] plans) (ex_host_f32 ex, ex_host_i64 ex) = (f, i)"
    "length f = length (ex_host_f32 ex)" "length i = length (ex_host_f32 ex)"
    "\<forall>row \<in> set f. length row = 3" "\<forall>row \<in> set i. length row = 3"
    "take (length plans) f = map f32_row plans" "take (length plans) i = map (i64_row V) plans"
    using packed_rows [OF n, of "ex_host_i64 ex" V] wf unfolding executor_wf_def by blast
  have g: "take (length plans) (put_slice (ex_gpu_f32 ex) 0 (map f32_row plans)) = map f32_row plans"
    "take (length plans) (put_slice (ex_gpu_i64 ex) 0 (map (i64_row V) plans)) = map (i64_row V) plans"
    using n wf by (auto simp: executor_wf_def intro!: put_prefix)
  show ?thesis
    using wf n fi(2-5)
    by (auto simp: pack_sampling_params_def fi(1,6,7) Let_def column_def g mixed_batch_def f32_row_def i64_row_def
        executor_wf_def same_runner_def comp_def)
qed

section \<open>Sampled tokens\<close>

lemma sampling_plans_indices:
  "sampling_plans batch = map (\<lambda>i. the (req_sampling_plan (requests batch ! i))) (sampling_indices batch)"
proof -
  have "List.map_filter req_sampling_plan rs
      = map (\<lambda>i. the (req_sampling_plan (rs ! i))) (filter (\<lambda>i. req_sampling_plan (rs ! i) \<noteq> None) [0..<length rs])" for rs
  proof (induction rs rule: rev_induct)
    case (snoc r rs)
    have "filter (\<lambda>i. req_sampling_plan ((rs @ [r]) ! i) \<noteq> None) [0..<length rs] = filter (\<lambda>i. req_sampling_plan (rs ! i) \<noteq> None) [0..<length rs]"
      by (intro filter_cong) (auto simp: nth_append)
    moreover have "map (\<lambda>i. the (req_sampling_plan ((rs @ [r]) ! i))) (filter P [0..<length rs])
        = map (\<lambda>i. the (req_sampling_plan (rs ! i))) (filter P [0..<length rs])" for P
      by (intro map_cong) (auto simp: nth_append)
    ultimately show ?case using snoc by (simp add: List.map_filter_def)
  qed (simp add: List.map_filter_def)
  then show ?thesis by (simp add: sampling_plans_def sampling_indices_def)
qed

text \<open>The token a row of logits gives under a request's parameters.\<close>

definition row_token :: "(real option list \<Rightarrow> nat list) \<Rightarrow> (int \<Rightarrow> real list \<Rightarrow> nat) \<Rightarrow> bool \<Rightarrow> sampling_plan \<Rightarrow> real list \<Rightarrow> int" where
  "row_token argsort draw greedy p row =
     (if greedy then int (argmax row)
      else int (select_token draw (temperature (sp_params p)) (seed (sp_params p) + int (sample_index p))
             (filter_row argsort (length row) (temperature (sp_params p)) (top_k_or (length row) p)
                (top_p (sp_params p)) (min_p (sp_params p)) row)))"

definition all_greedy :: "batch_plan \<Rightarrow> bool" where
  "all_greedy batch = list_all (\<lambda>p. temperature (sp_params p) = 0) (sampling_plans batch)"

definition sampled :: "(real option list \<Rightarrow> nat list) \<Rightarrow> (int \<Rightarrow> real list \<Rightarrow> nat) \<Rightarrow> batch_plan \<Rightarrow> (nat \<Rightarrow> real list) \<Rightarrow> nat \<rightharpoonup> int" where
  "sampled argsort draw batch row i =
     (if i < length (requests batch)
      then map_option (\<lambda>p. row_token argsort draw (all_greedy batch) p (row i)) (req_sampling_plan (requests batch ! i))
      else None)"

lemma sample_rows:
  assumes "argsort_ok argsort" "0 < V" "\<forall>i \<in> set idx. length (row i) = V" "length plans = length idx" "idx \<noteq> []"
    and "sb = (if greedy then greedy_batch
      else mixed_batch (map (temperature \<circ> sp_params) plans) (map (top_k_or V) plans) (map (top_p \<circ> sp_params) plans)
         (map (min_p \<circ> sp_params) plans) (map (seed \<circ> sp_params) plans) (map (int \<circ> sample_index) plans))"
  shows "\<exists>out. sample argsort draw (length (hd (map row idx))) (map row idx) sb = Inr out \<and>
    out_token_ids out = map2 (\<lambda>p i. row_token argsort draw greedy p (row i)) plans idx"
proof -
  have V: "length (hd (map row idx)) = V" using assms(3,5) by (cases idx) auto
  show ?thesis
  proof (cases greedy)
    case True
    have "omap torch_argmax (map row idx) = Inr (map (\<lambda>r. int (argmax r)) (map row idx))"
      using assms(2,3) by (intro omap_Inr_map) (auto simp: torch_argmax_def)
    moreover have "map2 (\<lambda>p i. row_token argsort draw greedy p (row i)) plans idx = map (\<lambda>r. int (argmax r)) (map row idx)"
      using True assms(4) by (intro nth_equalityI) (auto simp: row_token_def)
    ultimately show ?thesis using True assms(5,6) by (simp add: sample_def greedy_batch_def)
  next
    case False
    have sh: "batch_shape V (map row idx) (map (temperature \<circ> sp_params) plans) (map (top_k_or V) plans)
        (map (top_p \<circ> sp_params) plans) (map (min_p \<circ> sp_params) plans) (map (seed \<circ> sp_params) plans) (map (int \<circ> sample_index) plans)"
      using assms(2-4) by (auto simp: batch_shape_def)
    from sample_mixed [OF assms(1) sh, of draw] obtain out where out: "sample argsort draw V (map row idx) sb = Inr out"
      "length (out_token_ids out) = length idx"
      "\<forall>j < length idx. out_token_ids out ! j = row_token argsort draw greedy (plans ! j) (row (idx ! j))"
      using False assms(3-6) by (auto simp: Let_def row_token_def)
    then have "out_token_ids out = map2 (\<lambda>p i. row_token argsort draw greedy p (row i)) plans idx"
      using assms(4) by (intro nth_equalityI) auto
    then show ?thesis using out(1) V by simp
  qed
qed

lemma sample_tokens_eq:
  assumes wf: "executor_wf ex" and ok: "argsort_ok argsort" and V: "0 < V"
    and rows: "sample_logits mi logits (sampling_indices batch) = Inr (map row (sampling_indices batch))"
    and len: "\<forall>i \<in> set (sampling_indices batch). length (row i) = V" "sampling_indices batch \<noteq> [] \<Longrightarrow> logits \<noteq> []" "\<forall>r \<in> set logits. length r = V"
  shows "\<exists>ex'. sample_tokens argsort draw junk batch mi logits ex = Inr (sampled argsort draw batch row, ex')
    \<and> executor_wf ex' \<and> same_runner ex ex'"
proof -
  let ?plans = "sampling_plans batch" and ?idx = "sampling_indices batch"
  have plans: "?plans = map (\<lambda>i. the (req_sampling_plan (requests batch ! i))) ?idx" by (rule sampling_plans_indices)
  show ?thesis
  proof (cases "?idx = []")
    case True
    then have "\<forall>i < length (requests batch). req_sampling_plan (requests batch ! i) = None"
      by (auto simp: sampling_indices_def filter_empty_conv)
    then have "sampled argsort draw batch row = Map.empty" by (auto simp: sampled_def)
    then show ?thesis using True wf by (simp add: sample_tokens_def plans same_runner_def)
  next
    case False
    let ?n = "length ?plans" and ?greedy = "all_greedy batch"
    let ?ex1 = "ensure_token_buffer junk ?n ex"
    let ?sb = "if ?greedy then greedy_batch
      else mixed_batch (map (temperature \<circ> sp_params) ?plans) (map (top_k_or V) ?plans) (map (top_p \<circ> sp_params) ?plans)
         (map (min_p \<circ> sp_params) ?plans) (map (seed \<circ> sp_params) ?plans) (map (int \<circ> sample_index) ?plans)"
    have n: "0 < ?n" "?n = length ?idx" "?plans \<noteq> []" using False by (auto simp: plans)
    note b = ensure_buffers(1,2) [OF wf n(1), of junk] ensure_buffers(3-5) [OF ensure_buffers(1) [OF wf n(1)] n(1), of junk junk]
    have row0: "onth logits 0 = Inr (logits ! 0)" "length (logits ! 0) = V" using len(2) [OF False] len(3) by auto
    obtain ex2 where ex2: "(if ?greedy then Inr (greedy_batch, ?ex1)
        else obind (onth logits 0) (\<lambda>row. Inr (pack_sampling_params (length row) ?plans (ensure_param_buffers junk ?n ?ex1)))) = Inr (?sb, ex2)"
      "executor_wf ex2" "same_runner ex ex2" "?n \<le> length (ex_host_tokens ex2)"
    proof (cases ?greedy)
      case True
      show ?thesis by (rule that [of ?ex1]) (use True b(1,2) ensure_same in simp_all)
    next
      case ng: False
      obtain ex2 where e: "pack_sampling_params V ?plans (ensure_param_buffers junk ?n ?ex1) = (?sb, ex2)" "executor_wf ex2"
        "same_runner (ensure_param_buffers junk ?n ?ex1) ex2" "ex_host_tokens ex2 = ex_host_tokens (ensure_param_buffers junk ?n ?ex1)"
        using pack_sampling_params_eq [of "ensure_param_buffers junk ?n ?ex1" ?plans V] b ng by auto
      have "same_runner ex ex2" using same_runner_trans ensure_same e(3) by blast
      show ?thesis by (rule that [of ex2]) (use e row0 ng b(2) b(5) \<open>same_runner ex ex2\<close> in simp_all)
    qed
    obtain out where out: "sample argsort draw (length (hd (map row ?idx))) (map row ?idx) ?sb = Inr out"
      "out_token_ids out = map2 (\<lambda>p i. row_token argsort draw ?greedy p (row i)) ?plans ?idx"
      using sample_rows [OF ok V len(1) n(2) False refl] by blast
    have toks: "out_token_ids out = map (\<lambda>i. row_token argsort draw ?greedy (the (req_sampling_plan (requests batch ! i))) (row i)) ?idx"
      unfolding out(2) plans by (intro nth_equalityI) auto
    have copy: "copy_tokens_to_host (out_token_ids out) ex2
        = (out_token_ids out, ex2\<lparr> ex_host_tokens := put_slice (ex_host_tokens ex2) 0 (out_token_ids out) \<rparr>)"
      using put_prefix [of "out_token_ids out" ?n "ex_host_tokens ex2"] ex2(4) toks n(2) by (simp add: copy_tokens_to_host_def Let_def)
    have "map_of (zip ?idx (out_token_ids out)) = sampled argsort draw batch row"
      unfolding toks map_of_zip_map by (rule ext) (auto simp: sampled_def sampling_indices_def)
    then have "sample_tokens argsort draw junk batch mi logits ex
        = Inr (sampled argsort draw batch row, ex2\<lparr> ex_host_tokens := put_slice (ex_host_tokens ex2) 0 (out_token_ids out) \<rparr>)"
      using n(3) ex2(1) rows out(1) copy toks by (simp add: sample_tokens_def Let_def all_greedy_def)
    moreover have "executor_wf (ex2\<lparr> ex_host_tokens := t \<rparr>)" "same_runner ex (ex2\<lparr> ex_host_tokens := t \<rparr>)" for t
      using ex2(2,3) by (simp_all add: executor_wf_def same_runner_def)
    ultimately show ?thesis by blast
  qed
qed

section \<open>Over the reference model\<close>

text \<open>\<open>ReferenceModelRunner\<close> has no graph methods.\<close>

definition ref_runner :: "ref_model \<Rightarrow> slot_data kv_storage model_runner" where
  "ref_runner M = \<lparr> mr_try_plan = None, mr_try_graph = None, mr_forward = ref_forward M \<rparr>"

lemma owed_logits_row:
  assumes ok: "batch_ok bl nb rs xss" and i: "i < length rs" "input_token_ids (rs ! i) \<noteq> []"
  shows "sum_list (take (Suc i) (map token_count rs)) - 1 < length (owed_logits M rs xss)"
    "owed_logits M rs xss ! (sum_list (take (Suc i) (map token_count rs)) - 1) = spec_logits M (xss ! i)"
proof -
  let ?H = "\<lambda>r. map (\<lambda>i. spec_logits M (take (Suc i) (xss ! r))) [0..<length (xss ! r)]"
  let ?xs = "map (\<lambda>r. drop (start_position (rs ! r)) (?H r)) [0..<length rs]"
  have len: "length (xss ! r) = start_position (rs ! r) + token_count (rs ! r)" if "r < length rs" for r
    using ok that by (simp add: batch_ok_def request_context_def token_count_def)
  have lens: "map length ?xs = map token_count rs"
    using len by (auto intro!: nth_equalityI)
  have cnt: "0 < token_count (rs ! i)" using i(2) by (simp add: token_count_def)
  have pos: "sum_list (take (Suc i) (map token_count rs)) - 1 = sum_list (take i (map length ?xs)) + (token_count (rs ! i) - 1)"
    unfolding lens using i(1) cnt by (simp add: sum_list_take_Suc)
  have "length (?xs ! i) = token_count (rs ! i)" using len [OF i(1)] i(1) by simp
  then have row: "concat ?xs ! (sum_list (take i (map length ?xs)) + (token_count (rs ! i) - 1)) = ?xs ! i ! (token_count (rs ! i) - 1)"
    using i(1) cnt by (intro nth_concat_offset) simp_all
  have last: "?xs ! i ! (token_count (rs ! i) - 1) = spec_logits M (xss ! i)"
    using i(1) cnt len [OF i(1)] by simp
  show "owed_logits M rs xss ! (sum_list (take (Suc i) (map token_count rs)) - 1) = spec_logits M (xss ! i)"
    unfolding pos owed_logits_def fed_def using row last by simp
  have "length (owed_logits M rs xss) = sum_list (map token_count rs)"
    unfolding owed_logits_def fed_def length_concat by (simp only: lens)
  moreover have "sum_list (take (Suc i) (map token_count rs)) \<le> sum_list (map token_count rs)" by (rule sum_list_take_le)
  moreover have "0 < sum_list (take (Suc i) (map token_count rs))" using i(1) cnt by (simp add: sum_list_take_Suc)
  ultimately show "sum_list (take (Suc i) (map token_count rs)) - 1 < length (owed_logits M rs xss)" by linarith
qed

lemma sample_logits_owed:
  assumes ok: "batch_ok bl nb rs xss" and mi: "describes bl rs mi"
    and idx: "\<forall>i \<in> set idx. i < length rs" and ne: "\<forall>r \<in> set rs. input_token_ids r \<noteq> []"
  shows "sample_logits (Some mi) (owed_logits M rs xss) idx = Inr (map (\<lambda>i. spec_logits M (xss ! i)) idx)"
proof -
  have "obind (onth (map (\<lambda>x. x - 1) (tl (mi_query_start_loc mi))) i) (py_nth (owed_logits M rs xss)) = Inr (spec_logits M (xss ! i))"
    if i: "i \<in> set idx" for i
  proof -
    have lt: "i < length rs" "input_token_ids (rs ! i) \<noteq> []" using idx ne i by auto
    have "0 < sum_list (take (Suc i) (map token_count rs))"
      using lt by (simp add: sum_list_take_Suc token_count_def)
    then have "map (\<lambda>x. x - 1) (tl (mi_query_start_loc mi)) ! i = int (sum_list (take (Suc i) (map token_count rs)) - 1)"
      using mi lt(1) by (simp add: describes_def nth_tl nth_prefix_sums del: take_Suc)
    moreover have "i < length (map (\<lambda>x. x - 1) (tl (mi_query_start_loc mi)))"
      using mi lt(1) by (simp add: describes_def)
    ultimately show ?thesis using owed_logits_row [OF ok lt, of M] by simp
  qed
  then show ?thesis unfolding sample_logits_def by (simp add: omap_Inr_map)
qed

lemma pool_describes:
  assumes "batch_ok bl nb (requests batch) xss" "requests batch \<noteq> []" "\<forall>r \<in> set (requests batch). 1 \<le> request_context r" "pool_wf p"
  shows "\<exists>mi p'. pool_build junk batch bl p = Inr (mi, p') \<and> describes bl (requests batch) mi \<and> pool_wf p'"
proof -
  have bl: "bl > 0" using assms(1) by (simp add: batch_ok_def)
  have "describes bl (requests batch) ((plan_input batch bl)\<lparr> mi_flashinfer_csr := c, mi_is_decode_only := b \<rparr>)" for c b
    using plan_input_describes [OF batch_pages [OF assms(1)]] by (simp add: describes_def)
  then show ?thesis
    using pool_build_plan_input [OF assms(4) bl assms(2) batch_requests_ok [OF assms(1,3)], of junk] by blast
qed

section \<open>Theorems\<close>

text \<open>C5: One executor step over the reference transformer. For every batch a scheduler may build and
  whatever the reused buffers hold, \<open>execute\<close> returns one result per request in order; a request with
  a sampling plan gets the token its parameters select from the logits of recomputing its whole
  sequence without a cache, a request without one gets none; and the cache afterwards holds every
  request's whole context, which is what the next step of each request starts from.\<close>

theorem execute_recomputes:
  assumes "executor_wf ex" "ex_runner ex = ref_runner M" "ex_block_len ex = bl" "argsort_ok argsort" "lm_head M \<noteq> []"
    and "batch_ok bl nb (requests batch) xss" "requests batch \<noteq> []" "\<forall>r \<in> set (requests batch). input_token_ids r \<noteq> []"
    and "kv_ok M bl nb (ex_state ex)" "\<forall>xs \<in> set xss. \<forall>t \<in> set xs. 0 \<le> t \<and> t < int (length (embedding M))"
    and "\<forall>i < length (requests batch).
           cache_holds M bl (ex_state ex) (block_table (requests batch ! i)) (xss ! i) (start_position (requests batch ! i))"
  shows "\<exists>ex'. torch_execute argsort draw junk batch ex =
      Inr (\<lparr> res_step_id = step_id batch,
             request_results = map (\<lambda>i. request_result (ex_eos ex)
               (sampled argsort draw batch (\<lambda>i. spec_logits M (xss ! i))) i (requests batch ! i)) [0..<length (requests batch)] \<rparr>, ex') \<and>
    executor_wf ex' \<and> ex_runner ex' = ref_runner M \<and> ex_block_len ex' = bl \<and> ex_eos ex' = ex_eos ex \<and> kv_ok M bl nb (ex_state ex') \<and>
    (\<forall>i < length (requests batch).
       cache_holds M bl (ex_state ex') (block_table (requests batch ! i)) (xss ! i) (request_context (requests batch ! i)))"
proof -
  let ?rs = "requests batch"
  have ctx: "\<forall>r \<in> set ?rs. 1 \<le> request_context r" using assms(8) by (simp add: request_context_def Suc_le_eq)
  obtain mi p where mi: "pool_build junk batch bl (ex_pool ex) = Inr (mi, p)" "describes bl ?rs mi" "pool_wf p"
    using pool_describes [OF assms(6,7) ctx, of "ex_pool ex" junk] assms(1) unfolding executor_wf_def by blast
  have vocab: "\<forall>i < length ?rs. \<forall>t \<in> set (xss ! i). 0 \<le> t \<and> t < int (length (embedding M))"
    using assms(6,10) by (auto simp: batch_ok_def)
  obtain st where st: "ref_forward M mi (ex_state ex) = Inr (owed_logits M ?rs xss, st)" "kv_ok M bl nb st"
    "\<forall>i < length ?rs. cache_holds M bl st (block_table (?rs ! i)) (xss ! i) (request_context (?rs ! i))"
    using ref_forward_ok [OF assms(6) mi(2) assms(9) vocab assms(11)] by blast
  let ?ex = "ex\<lparr> ex_pool := p, ex_state := st \<rparr>"
  have run: "run_model junk batch ex = Inr (Some mi, owed_logits M ?rs xss, ?ex)"
    using assms(2,3) mi(1) st(1) by (simp add: run_model_def ref_runner_def)
  have wf: "executor_wf ?ex" using assms(1) mi(3) by (simp add: executor_wf_def)
  have idx: "\<forall>i \<in> set (sampling_indices batch). i < length ?rs" by (simp add: sampling_indices_def)
  have rows: "\<forall>r \<in> set (owed_logits M ?rs xss). length r = length (lm_head M)"
    by (auto simp: owed_logits_def fed_def spec_logits_def head_logits_def dest!: in_set_dropD)
  have "0 < length ?rs" using assms(7) by simp
  then have "owed_logits M ?rs xss \<noteq> []"
    using owed_logits_row(1) [OF assms(6), of 0 M] assms(8) by fastforce
  then obtain ex' where ex': "sample_tokens argsort draw junk batch (Some mi) (owed_logits M ?rs xss) ?ex
      = Inr (sampled argsort draw batch (\<lambda>i. spec_logits M (xss ! i)), ex')" "executor_wf ex'" "same_runner ?ex ex'"
    using sample_tokens_eq [OF wf assms(4) _ sample_logits_owed [OF assms(6) mi(2) idx assms(8)] _ _ rows, of draw junk] assms(5)
    by (auto simp: spec_logits_def head_logits_def)
  then show ?thesis
    using run st(2,3) assms(2,3) by (simp add: torch_execute_def same_runner_def)
qed

text \<open>A greedy request that samples and one that only prefills, from an executor whose buffers were
  never allocated.\<close>

definition greedy_plan :: sampling_plan where
  "greedy_plan = \<lparr> sp_params = \<lparr> temperature = 0, top_k = None, top_p = 1, min_p = 0, seed = 0, stop_token_ids = [7], num_logprobs = 0 \<rparr>, sample_index = 0 \<rparr>"

definition sampled_plan :: batch_plan where
  "sampled_plan = \<lparr> step_id = 3, requests =
     [(cached_request [0, 1] 0 [0, 1])\<lparr> req_sampling_plan := Some greedy_plan \<rparr>, cached_request [1] 1 [2, 3]] \<rparr>"

lemma sampled_plan_batch:
  "batch_ok 1 4 (requests sampled_plan) [[0, 1], [0, 1]]" "requests sampled_plan \<noteq> []"
  "\<forall>r \<in> set (requests sampled_plan). input_token_ids r \<noteq> []"
  "\<forall>i < length (requests sampled_plan). cache_holds example_model 1 cached_store
     (block_table (requests sampled_plan ! i)) ([[0, 1], [0, 1]] ! i) (start_position (requests sampled_plan ! i))"
  by (auto simp: batch_ok_def sampled_plan_def cached_request_def batch_slots_def slots_at_def slot_at_def
      pages_of_def request_context_def ceil_div_def less_Suc_eq example_model_def cached_store_def
      cache_holds_def layer_holds_def spec_ks_def spec_vs_def spec_hidden_def numeral_2_eq_2)

theorem execute_recomputes_witness:
  "\<exists>res ex'. torch_execute stable_argsort first_draw 5 sampled_plan (executor_init (ref_runner example_model) cached_store 1 2) = Inr (res, ex')
     \<and> map (length \<circ> generated_token_ids) (request_results res) = [1, 0]"
proof -
  let ?ex = "executor_init (ref_runner example_model) cached_store 1 2"
  have ex: "executor_wf ?ex" "ex_runner ?ex = ref_runner example_model" "ex_block_len ?ex = 1" "ex_state ?ex = cached_store" "lm_head example_model \<noteq> []"
    by (simp_all add: executor_init_wf) (simp_all add: executor_init_def example_model_def)
  note t = execute_recomputes [OF ex(1,2,3) stable_argsort_ok ex(5) sampled_plan_batch(1-3) _ cached_batch(5), of first_draw 5, unfolded ex(4),
      OF cached_batch(4) sampled_plan_batch(4)]
  have r: "requests sampled_plan = [(cached_request [0, 1] 0 [0, 1])\<lparr> req_sampling_plan := Some greedy_plan \<rparr>, cached_request [1] 1 [2, 3]]"
    by (simp add: sampled_plan_def)
  have "map (length \<circ> generated_token_ids) (map (\<lambda>i. request_result e
      (sampled stable_argsort first_draw sampled_plan row) i (requests sampled_plan ! i)) [0..<length (requests sampled_plan)]) = [1, 0]" for e row
    unfolding r by (simp add: request_result_def sampled_def r cached_request_def numeral_2_eq_2)
  with t show ?thesis by auto
qed

lemma sample_tokens_dom:
  assumes "sample_tokens argsort draw junk batch mi logits ex = Inr (tokens, ex')"
  shows "dom tokens = set (sampling_indices batch)"
proof (cases "sampling_plans batch = []")
  case True
  then show ?thesis using assms by (simp add: sample_tokens_def sampling_plans_indices)
next
  case False
  with assms obtain toks where "length toks = length (sampling_indices batch)" "tokens = map_of (zip (sampling_indices batch) toks)"
    by (auto simp: sample_tokens_def Let_def obind_Inr_iff require_Inr_iff case_prod_unfold)
  then show ?thesis by (simp add: dom_map_of_zip)
qed



end
