(* ===== verification/Triton.thy ===== *)
theory Triton
  imports Prelude
begin

text \<open>
  Row-major tensors and kernel launches, shared by the packed-weight layout and the Triton kernels. A 2-D
  tensor is the list of its rows; a kernel sees the flat memory. One program of a kernel reads its
  operands and stores a list of (offset, value) pairs; the programs of a launch run in some order.
\<close>

section \<open>Matrices\<close>

definition matrix :: "nat \<Rightarrow> nat \<Rightarrow> 'a list list \<Rightarrow> bool" where
  "matrix k n rows = (length rows = k \<and> (\<forall>row \<in> set rows. length row = n))"

lemma matrix_eqI:
  "matrix k n a \<Longrightarrow> matrix k n b \<Longrightarrow> (\<And>i j. i < k \<Longrightarrow> j < n \<Longrightarrow> a ! i ! j = b ! i ! j) \<Longrightarrow> a = b"
  by (rule nth_equalityI) (auto simp: matrix_def intro!: nth_equalityI)

lemma matrix_row: "matrix k n rows \<Longrightarrow> i < k \<Longrightarrow> length (rows ! i) = n"
  by (simp add: matrix_def)

lemma length_flat: "matrix k n rows \<Longrightarrow> length (concat rows) = k * n"
  by (induction rows arbitrary: k) (auto simp: matrix_def length_concat)

lemma nth_flat:
  assumes "matrix k n rows" "i < k" "j < n"
  shows "concat rows ! (i * n + j) = rows ! i ! j"
proof -
  have "map length rows = replicate k n"
    using assms(1) by (intro nth_equalityI) (auto simp: matrix_def)
  then have "sum_list (take i (map length rows)) = i * n"
    using assms(2) by (simp add: sum_list_replicate)
  with nth_concat_offset [of i rows j] assms show ?thesis by (simp add: matrix_def)
qed

text \<open>A flat tensor of \<open>r\<close> rows of \<open>c\<close> entries.\<close>

definition unflatten :: "nat \<Rightarrow> nat \<Rightarrow> 'a list \<Rightarrow> 'a list list" where
  "unflatten r c xs = map (\<lambda>i. map (\<lambda>j. xs ! (i * c + j)) [0..<c]) [0..<r]"

lemma matrix_unflatten [simp]: "matrix r c (unflatten r c xs)"
  by (simp add: matrix_def unflatten_def)

lemma nth_unflatten: "i < r \<Longrightarrow> j < c \<Longrightarrow> unflatten r c xs ! i ! j = xs ! (i * c + j)"
  by (simp add: unflatten_def)

lemma flat_index_less: "i < r \<Longrightarrow> j < c \<Longrightarrow> i * c + j < r * (c :: nat)"
proof -
  assume a: "i < r" "j < c"
  then have "i * c + j < Suc i * c" by simp
  also have "\<dots> \<le> r * c" using a by (intro mult_le_mono1) simp
  finally show ?thesis .
qed

lemma flat_index_inj: "j < c \<Longrightarrow> j' < c \<Longrightarrow> i * c + j = i' * c + j' \<Longrightarrow> i = i' \<and> j = (j' :: nat)"
proof -
  assume a: "j < c" "j' < c" "i * c + j = i' * c + j'"
  have d: "(x * c + y) div c = x" if "y < c" for x y using that by simp
  have "i = i'" using d [OF a(1), of i] d [OF a(2), of i'] a(3) by simp
  then show ?thesis using a(3) by simp
qed

section \<open>Loads and stores\<close>

text \<open>\<open>tl.load(ptr + off, mask, other)\<close>\<close>

definition masked_load :: "bool \<Rightarrow> nat \<Rightarrow> 'a \<Rightarrow> 'a list \<Rightarrow> 'a" where
  "masked_load msk off other mem = (if msk then mem ! off else other)"

text \<open>\<open>tl.store(ptr + offs, values, mask)\<close> as the list of its lanes.\<close>

definition masked_store :: "(bool \<times> nat \<times> 'a) list \<Rightarrow> (nat \<times> 'a) list" where
  "masked_store lanes = map snd (filter fst lanes)"

lemma set_masked_store: "set (masked_store lanes) = {(off, v). (True, off, v) \<in> set lanes}"
  by (force simp: masked_store_def)

definition apply_writes :: "(nat \<times> 'a) list \<Rightarrow> 'a list \<Rightarrow> 'a list" where
  "apply_writes ws mem = fold (\<lambda>(off, v) m. m[off := v]) ws mem"

definition launch :: "('p \<Rightarrow> (nat \<times> 'a) list) \<Rightarrow> 'p list \<Rightarrow> 'a list \<Rightarrow> 'a list" where
  "launch program order mem = apply_writes (concat (map program order)) mem"

lemma length_apply_writes [simp]: "length (apply_writes ws mem) = length mem"
  unfolding apply_writes_def by (induction ws arbitrary: mem) auto

lemma length_launch [simp]: "length (launch program order mem) = length mem"
  by (simp add: launch_def)

text \<open>If all stores to an offset agree on the value, their order does not matter.\<close>

lemma apply_writes_value:
  assumes "off < length mem" "(off, v) \<in> set ws" "\<And>u. (off, u) \<in> set ws \<Longrightarrow> u = v"
  shows "apply_writes ws mem ! off = v"
proof -
  have "apply_writes ws mem ! off = v" if "\<forall>w \<in> set ws. fst w = off \<longrightarrow> snd w = v" "off \<in> fst ` set ws \<or> mem ! off = v" for ws
    using that
  proof (induction ws rule: rev_induct)
    case (snoc w ws)
    obtain o' u where w: "w = (o', u)" by (cases w)
    have step: "apply_writes (ws @ [w]) mem = (apply_writes ws mem)[o' := u]" by (simp add: apply_writes_def w)
    show ?case
    proof (cases "o' = off")
      case True
      then have "u = v" using snoc.prems(1) w by simp
      then show ?thesis unfolding step using True assms(1) by simp
    next
      case False
      then have "apply_writes ws mem ! off = v" using snoc w by auto
      then show ?thesis unfolding step using False by simp
    qed
  qed (simp add: apply_writes_def)
  moreover have "\<forall>w \<in> set ws. fst w = off \<longrightarrow> snd w = v"
  proof (intro ballI impI)
    fix w assume "w \<in> set ws" "fst w = off"
    then show "snd w = v" by (intro assms(3)) (metis prod.collapse)
  qed
  moreover have "off \<in> fst ` set ws" using assms(2) by (metis fst_conv imageI)
  ultimately show ?thesis by blast
qed

lemma launch_value:
  assumes "off < length mem" "p \<in> set order" "(off, v) \<in> set (program p)"
    and "\<And>q u. q \<in> set order \<Longrightarrow> (off, u) \<in> set (program q) \<Longrightarrow> u = v"
  shows "launch program order mem ! off = v"
  unfolding launch_def
proof (rule apply_writes_value [OF assms(1)])
  show "(off, v) \<in> set (concat (map program order))" using assms(2,3) by auto
  fix u assume "(off, u) \<in> set (concat (map program order))"
  then obtain q where "q \<in> set order" "(off, u) \<in> set (program q)" by auto
  then show "u = v" by (rule assms(4))
qed

text \<open>An order in which the programs of a two-dimensional grid may run.\<close>

definition grid_order :: "nat \<Rightarrow> nat \<Rightarrow> (nat \<times> nat) list \<Rightarrow> bool" where
  "grid_order gm gn order = (distinct order \<and> set order = {..<gm} \<times> {..<gn})"

lemma block_cover:
  assumes "j < n" "0 < blk"
  shows "j div blk < ceil_div n blk" "\<exists>i < blk. j = j div blk * blk + i"
proof -
  show "j div blk < ceil_div n blk" using assms by (simp add: div_less_ceil_div)
  have "j = j div blk * blk + j mod blk" "j mod blk < blk" using assms(2) by simp_all
  then show "\<exists>i < blk. j = j div blk * blk + i" by blast
qed

end
