(* ===== verification/W4A16Pack.thy ===== *)
theory W4A16Pack
  imports Triton
begin

text \<open>
  Marlin W4A16 weights (\<open>executors/torch/dsl/w4a16_pack.py\<close>): group-wise quantisation to unsigned INT4,
  16x16 tiling, the 1024-entry permutation, packing of eight nibbles into an int32, and the inverse.
  Weights and scales are exact reals (the conversions between floating-point types are not modelled),
  quantised values are integers, packed weights 32-bit words. A 2-D tensor is the list of its rows.
\<close>

section \<open>Permutations\<close>

abbreviation tile_k :: nat where "tile_k \<equiv> 16"
abbreviation tile_n :: nat where "tile_n \<equiv> 16"
abbreviation perm_n :: nat where "perm_n \<equiv> 64"
abbreviation pack_nibbles :: nat where "pack_nibbles \<equiv> 8"
abbreviation perm_elems :: nat where "perm_elems \<equiv> 1024"
abbreviation max_q :: int where "max_q \<equiv> 15"
abbreviation zero_point :: int where "zero_point \<equiv> 8"

text \<open>The eight indices one thread contributes per tile, and the interleave of eight consecutive ones.\<close>

definition thread_indices :: "nat \<Rightarrow> nat list" where
  "thread_indices thread =
     (let col = thread div 4
      in concat (map (\<lambda>block. let tid = thread mod 4
           in map (\<lambda>row. 16 * row + col + 8 * block) [2 * tid, 2 * tid + 1, 2 * tid + 8, 2 * tid + 9]) [0, 1]))"

definition nibble_order :: "nat list" where
  "nibble_order = [0, 2, 4, 6, 1, 3, 5, 7]"

definition marlin_weight_perm :: "nat list" where
  "marlin_weight_perm =
     (let perm = concat (map (\<lambda>thread. let perm1 = thread_indices thread
            in concat (map (\<lambda>tile. map (\<lambda>index. index + 256 * tile) perm1) [0..<4])) [0..<32])
      in concat (map (\<lambda>g. map (\<lambda>i. g ! i) nibble_order) (rows_of pack_nibbles perm)))"

definition marlin_weight_inv_perm :: "nat list" where
  "marlin_weight_inv_perm = fold (\<lambda>i inv. inv[marlin_weight_perm ! i := i]) [0..<perm_elems] (replicate perm_elems 0)"

definition marlin_scale_perm :: "nat list" where
  "marlin_scale_perm = concat (map (\<lambda>i. map (\<lambda>j. i + 8 * j) [0..<8]) [0..<8])"

text \<open>\<open>x.reshape(-1, m)[:, perm]\<close> of a row whose length \<open>m\<close> divides.\<close>

definition gather_blocks :: "nat \<Rightarrow> nat list \<Rightarrow> 'a list \<Rightarrow> 'a list" where
  "gather_blocks m perm xs = concat (map (\<lambda>blk. map (\<lambda>i. blk ! i) perm) (rows_of m xs))"

definition permute_scales_marlin :: "nat \<Rightarrow> real list list \<Rightarrow> real list list outcome" where
  "permute_scales_marlin n scales =
     require (n mod perm_n = 0) (ValueError ''N must be a multiple of 64 for scale permutation'')
       (Inr (map (gather_blocks perm_n marlin_scale_perm) scales))"

section \<open>Quantisation\<close>

definition require_pack_shapes :: "nat \<Rightarrow> nat \<Rightarrow> int \<Rightarrow> (nat \<times> nat) outcome" where
  "require_pack_shapes k n gs =
     require (k \<noteq> 0 \<and> n \<noteq> 0) (ValueError ''weight_kn must have positive K and N'')
    (require (k mod tile_k = 0) (ValueError ''K must be a multiple of 16'')
    (require (n mod perm_n = 0) (ValueError ''N must be a multiple of 64'')
    (require (gs > 0) (ValueError ''group_size must be positive'')
    (require (gs mod int tile_k = 0) (ValueError ''group_size must be a multiple of 16'')
    (require (int k mod gs = 0) (ValueError ''K must be divisible by group_size'')
      (Inr (k, n)))))))"

definition width :: "'a list list \<Rightarrow> nat" where
  "width rows = (case rows of [] \<Rightarrow> 0 | r # _ \<Rightarrow> length r)"

definition compute_w4a16_scales :: "real list list \<Rightarrow> int \<Rightarrow> real list list outcome" where
  "compute_w4a16_scales w gs =
     obind (require_pack_shapes (length w) (width w) gs) (\<lambda>(k, n).
       Inr (map (\<lambda>g. map (\<lambda>c. max (Max (set (map (\<lambda>r. \<bar>r ! c\<bar>) (take (nat gs) (drop (g * nat gs) w))))) (1 / 10 ^ 8)
                          / of_int zero_point) [0..<n]) [0..<k div nat gs]))"

datatype scale_tensor = ScaleVec "real list" | ScaleMat "real list list"

definition broadcast_scales :: "scale_tensor \<Rightarrow> nat \<Rightarrow> nat \<Rightarrow> nat \<Rightarrow> real list list outcome" where
  "broadcast_scales sc k n gs =
     (let m = (case sc of ScaleVec v \<Rightarrow> [v] | ScaleMat m \<Rightarrow> m); groups = k div gs
      in require (list_all (\<lambda>row. length row = n) m) (ValueError ''scales must be [K/group_size, N] or [N]'')
        (let m' = (if length m = 1 \<and> groups \<noteq> 1 then replicate groups (m ! 0) else m)
         in require (length m' = groups) (ValueError ''scales.shape[0] must be 1 or K/group_size'') (Inr m')))"

text \<open>\<open>torch.round\<close> rounds halves to the even neighbour.\<close>

definition torch_round :: "real \<Rightarrow> int" where
  "torch_round x =
     (let f = \<lfloor>x\<rfloor>; d = x - of_int f
      in if d < 1 / 2 then f else if d > 1 / 2 then f + 1 else if even f then f else f + 1)"

definition quantize_value :: "real \<Rightarrow> real \<Rightarrow> int" where
  "quantize_value w s = min (max (torch_round (w / s) + zero_point) 0) max_q"

definition scale_rows :: "nat \<Rightarrow> real list list \<Rightarrow> real list list" where
  "scale_rows gs scales = concat (map (replicate gs) scales)"

section \<open>Layout\<close>

text \<open>\<open>reshape(k/16, 16, n/16, 16).permute(0, 2, 1, 3).reshape(k/16, n*16)\<close> by position, and its inverse.\<close>

definition tile_rows :: "nat \<Rightarrow> nat \<Rightarrow> 'a list list \<Rightarrow> 'a list list" where
  "tile_rows k n q =
     map (\<lambda>kt. map (\<lambda>p. q ! (tile_k * kt + p mod 256 div 16) ! (tile_n * (p div 256) + p mod 16)) [0..<n * tile_k])
       [0..<k div tile_k]"

definition untile_rows :: "nat \<Rightarrow> nat \<Rightarrow> 'a list list \<Rightarrow> 'a list list" where
  "untile_rows k n rows =
     map (\<lambda>kk. map (\<lambda>nn. rows ! (kk div tile_k) ! (256 * (nn div tile_n) + 16 * (kk mod tile_k) + nn mod tile_n)) [0..<n]) [0..<k]"

definition pack_nibble_row :: "int list \<Rightarrow> 32 word list" where
  "pack_nibble_row row =
     map (\<lambda>j. fold (\<lambda>nibble w. w OR push_bit (4 * nibble) (word_of_int (row ! (pack_nibbles * j + nibble)) AND 15)) [0..<pack_nibbles] 0)
       [0..<length row div pack_nibbles]"

definition unpack_nibble_row :: "32 word list \<Rightarrow> int list" where
  "unpack_nibble_row ws =
     map (\<lambda>p. sint (signed_drop_bit (4 * (p mod pack_nibbles)) (ws ! (p div pack_nibbles)) AND 15)) [0..<length ws * pack_nibbles]"

definition pack_w4a16_marlin ::
    "real list list \<Rightarrow> scale_tensor option \<Rightarrow> int \<Rightarrow> (32 word list list \<times> real list list) outcome" where
  "pack_w4a16_marlin w scales gs =
     obind (require_pack_shapes (length w) (width w) gs) (\<lambda>(k, n).
     obind (case scales of Some sc \<Rightarrow> Inr sc | None \<Rightarrow> obind (compute_w4a16_scales w gs) (\<lambda>m. Inr (ScaleMat m))) (\<lambda>sc.
     obind (broadcast_scales sc k n (nat gs)) (\<lambda>m.
       let quantized = map2 (map2 quantize_value) w (scale_rows (nat gs) m);
           tiled = map (gather_blocks perm_elems marlin_weight_perm) (tile_rows k n quantized)
       in Inr (map pack_nibble_row tiled, m))))"

definition unpack_w4a16_marlin :: "32 word list list \<Rightarrow> scale_tensor \<Rightarrow> int \<Rightarrow> real list list outcome" where
  "unpack_w4a16_marlin qweight scales gs =
     (let k = length qweight * tile_k; n = width qweight * pack_nibbles div tile_k
      in obind (require_pack_shapes k n gs) (\<lambda>_.
         obind (broadcast_scales scales k n (nat gs)) (\<lambda>m.
           let logical = map (gather_blocks perm_elems marlin_weight_inv_perm) (map unpack_nibble_row qweight);
               quantized = untile_rows k n logical
           in Inr (map2 (map2 (\<lambda>q s. (of_int q - of_int zero_point) * s)) quantized (scale_rows (nat gs) m)))))"

definition fakequant_w4a16 :: "real list list \<Rightarrow> scale_tensor option \<Rightarrow> int \<Rightarrow> real list list outcome" where
  "fakequant_w4a16 w scales gs =
     obind (pack_w4a16_marlin w scales gs) (\<lambda>(qweight, m). unpack_w4a16_marlin qweight (ScaleMat m) gs)"

section \<open>Gather permutations\<close>

text \<open>What the layout relies on: a permutation and its inverse table.\<close>

locale gather_perm =
  fixes m :: nat and perm inv :: "nat list"
  assumes pos: "0 < m"
    and len: "length perm = m" "length inv = m"
    and range: "\<And>i. i < m \<Longrightarrow> perm ! i < m"
    and left: "\<And>i. i < m \<Longrightarrow> inv ! (perm ! i) = i"
begin

lemma onto:
  assumes "j < m"
  shows "inv ! j < m \<and> perm ! (inv ! j) = j"
proof -
  have "inj_on (\<lambda>i. perm ! i) {..<m}" by (rule inj_on_inverseI [where g = "\<lambda>j. inv ! j"]) (simp add: left)
  then have "(\<lambda>i. perm ! i) ` {..<m} = {..<m}" using range by (intro endo_inj_surj) auto
  then obtain i where "i < m" "j = perm ! i" using assms by (metis imageE lessThan_iff)
  then show ?thesis using left by simp
qed

lemma block_inverse: "length blk = m \<Longrightarrow> map (\<lambda>j. map (\<lambda>i. blk ! i) perm ! j) inv = blk"
  using onto len by (intro nth_equalityI) simp_all

lemma block_inverse': "length blk = m \<Longrightarrow> map (\<lambda>i. map (\<lambda>j. blk ! j) inv ! i) perm = blk"
  using left range len by (intro nth_equalityI) simp_all

lemma gather_inverse:
  assumes "length xs = n * m"
  shows "gather_blocks m inv (gather_blocks m perm xs) = xs" "gather_blocks m perm (gather_blocks m inv xs) = xs"
proof -
  have rows: "\<forall>r \<in> set (rows_of m xs). length r = m" using rows_of_row_length [OF pos assms] by blast
  have "rows_of m (concat (map (\<lambda>blk. map (\<lambda>i. blk ! i) p) (rows_of m xs))) = map (\<lambda>blk. map (\<lambda>i. blk ! i) p) (rows_of m xs)"
    if "length p = m" for p using that pos by (intro rows_of_concat) auto
  then have two: "gather_blocks m q (gather_blocks m p xs) = concat (map (\<lambda>blk. map (\<lambda>j. map (\<lambda>i. blk ! i) p ! j) q) (rows_of m xs))"
    if "length p = m" for p q using that by (simp add: gather_blocks_def comp_def)
  have "map (\<lambda>blk. map (\<lambda>j. map (\<lambda>i. blk ! i) perm ! j) inv) (rows_of m xs) = rows_of m xs"
    by (rule map_idI, rule block_inverse) (use rows in blast)
  then show "gather_blocks m inv (gather_blocks m perm xs) = xs" using two [OF len(1)] pos by (simp add: concat_rows_of)
  have "map (\<lambda>blk. map (\<lambda>j. map (\<lambda>i. blk ! i) inv ! j) perm) (rows_of m xs) = rows_of m xs"
    by (rule map_idI, rule block_inverse') (use rows in blast)
  then show "gather_blocks m perm (gather_blocks m inv xs) = xs" using two [OF len(2)] pos by (simp add: concat_rows_of)
qed

lemma inverse: "gather_perm m inv perm"
  using pos len onto left by unfold_locales simp_all

lemma gather_length: "length xs = n * m \<Longrightarrow> length (gather_blocks m perm xs) = n * m"
  using rows_of_row_length [of m xs n] length_rows_of [of m xs n] pos len
  by (simp add: gather_blocks_def length_concat comp_def sum_list_triv)

lemma gather_set: "length xs = n * m \<Longrightarrow> set (gather_blocks m perm xs) \<subseteq> set xs"
proof
  fix x assume a: "length xs = n * m" "x \<in> set (gather_blocks m perm xs)"
  then obtain blk i where b: "blk \<in> set (rows_of m xs)" "i \<in> set perm" "x = blk ! i"
    by (auto simp: gather_blocks_def)
  then have "i < length blk" using rows_of_row_length [OF pos a(1)] range len by (auto simp: in_set_conv_nth)
  then have "x \<in> set (concat (rows_of m xs))" using b by (auto intro!: bexI [of _ blk])
  then show "x \<in> set xs" using pos by (simp add: concat_rows_of)
qed

end

section \<open>The permutation tables\<close>

text \<open>The table is the concatenation of one eight-entry group per thread and tile.\<close>

definition thread_group :: "nat \<Rightarrow> nat \<Rightarrow> nat list" where
  "thread_group thread tile =
     (let c = thread div 4; t = thread mod 4; b = c + 256 * tile
      in [b + 32 * t, b + 32 * t + 128, b + 32 * t + 8, b + 32 * t + 136,
          b + 32 * t + 16, b + 32 * t + 144, b + 32 * t + 24, b + 32 * t + 152])"

lemma thread_group_eq:
  "map (\<lambda>i. map (\<lambda>index. index + 256 * tile) (thread_indices thread) ! i) nibble_order = thread_group thread tile"
  by (simp add: thread_indices_def thread_group_def nibble_order_def Let_def algebra_simps)

lemma thread_group_mem:
  "m \<in> {0, 128, 8, 136, 16, 144, 24, 152} \<Longrightarrow> thread div 4 + 256 * tile + 32 * (thread mod 4) + m \<in> set (thread_group thread tile)"
  by (auto simp: thread_group_def Let_def)

lemma concat_of_concat: "concat (concat xsss) = concat (map concat xsss)"
  by (induction xsss) auto

lemma weight_perm_groups:
  "marlin_weight_perm = concat (map (\<lambda>thread. concat (map (thread_group thread) [0..<4])) [0..<32])"
proof -
  let ?g = "\<lambda>thread tile. map (\<lambda>index. index + 256 * tile) (thread_indices thread)"
  let ?gs = "concat (map (\<lambda>thread. map (?g thread) [0..<4]) [0..<32])"
  have "concat (map (\<lambda>thread. let perm1 = thread_indices thread
          in concat (map (\<lambda>tile. map (\<lambda>index. index + 256 * tile) perm1) [0..<4])) [0..<32]) = concat ?gs"
    by (simp add: Let_def concat_of_concat comp_def)
  moreover have "rows_of pack_nibbles (concat ?gs) = ?gs"
    by (rule rows_of_concat) (auto simp: thread_indices_def Let_def)
  ultimately have "marlin_weight_perm = concat (map (\<lambda>g. map (\<lambda>i. g ! i) nibble_order) ?gs)"
    by (simp add: marlin_weight_perm_def)
  also have "\<dots> = concat (map (\<lambda>thread. concat (map (\<lambda>tile. map (\<lambda>i. ?g thread tile ! i) nibble_order) [0..<4])) [0..<32])"
    by (simp only: map_concat concat_of_concat map_map comp_def)
  finally show ?thesis by (simp only: thread_group_eq)
qed

lemma length_weight_perm: "length marlin_weight_perm = 1024"
  by (simp add: weight_perm_groups length_concat comp_def thread_group_def Let_def sum_list_triv)

lemma regroup_digits:
  "v = 256 * t + 16 * r + c \<Longrightarrow> r = 2 * x + y + 8 * z \<Longrightarrow> c = a + 8 * b \<Longrightarrow>
     v = (a + 256 * t) + 32 * x + (16 * y + 128 * z + 8 * b :: nat)"
  by simp

lemma set_weight_perm: "set marlin_weight_perm = {..<1024}"
proof
  have "x < 1024" if "x \<in> set (thread_group thread tile)" "thread < 32" "tile < 4" for x thread tile
  proof -
    have "thread div 4 \<le> 7" "thread mod 4 \<le> 3" using that by auto
    then show ?thesis using that by (auto simp: thread_group_def Let_def)
  qed
  then show "set marlin_weight_perm \<subseteq> {..<1024}" by (fastforce simp: weight_perm_groups)
  show "{..<1024} \<subseteq> set marlin_weight_perm"
  proof
    fix v :: nat assume "v \<in> {..<1024}"
    then have v: "v < 1024" by simp
    define tile row c where "tile = v div 256" and "row = v mod 256 div 16" and "c = v mod 16"
    have eq: "v = 256 * tile + 16 * row + c" "tile < 4" "row < 16" "c < 16"
    proof -
      have "v = 256 * (v div 256) + v mod 256" by simp
      moreover have "v mod 256 = 16 * (v mod 256 div 16) + v mod 256 mod 16" by (rule mult_div_mod_eq [symmetric])
      moreover have "v mod 256 mod 16 = v mod 16" by (rule mod_mod_cancel) simp
      ultimately show "v = 256 * tile + 16 * row + c" unfolding tile_def row_def c_def by linarith
    qed (use v in \<open>auto simp: tile_def row_def c_def\<close>)
    define thread where "thread = 4 * (c mod 8) + row mod 8 div 2"
    have th: "thread div 4 = c mod 8" "thread mod 4 = row mod 8 div 2" "thread < 32"
      by (auto simp: thread_def)
    have row: "row = 2 * (row mod 8 div 2) + row mod 2 + 8 * (row div 8)" "row mod 2 < 2" "row div 8 < 2"
      using eq(3) by presburger+
    have c: "c = c mod 8 + 8 * (c div 8)" "c div 8 < 2" using eq(4) by auto
    have "v = (c mod 8 + 256 * tile) + 32 * (row mod 8 div 2) + (16 * (row mod 2) + 128 * (row div 8) + 8 * (c div 8))"
      by (rule regroup_digits [OF eq(1) row(1) c(1)])
    moreover have m: "16 * (row mod 2) + 128 * (row div 8) + 8 * (c div 8) \<in> {0, 128, 8, 136, 16, 144, 24, 152}"
      using row(2,3) c(2) by (auto simp: less_Suc_eq numeral_2_eq_2)
    ultimately have "v \<in> set (thread_group thread tile)"
      using thread_group_mem [OF m, of thread tile] by (simp only: th)
    then have "v \<in> set (concat (map (thread_group thread) [0..<4]))" using eq(2) by auto
    then show "v \<in> set marlin_weight_perm" using th(3) unfolding weight_perm_groups by auto
  qed
qed

lemma inverse_table:
  assumes "distinct perm" "set perm = {..<length perm}" "n \<le> length perm"
  shows "length (fold (\<lambda>i inv. inv[perm ! i := i]) [0..<n] (replicate (length perm) 0)) = length perm \<and>
    (\<forall>i < n. fold (\<lambda>i inv. inv[perm ! i := i]) [0..<n] (replicate (length perm) 0) ! (perm ! i) = i)"
  using assms(3)
proof (induction n)
  case (Suc n)
  have "perm ! i < length perm" if "i < length perm" for i using nth_mem [OF that] assms(2) by auto
  moreover have "perm ! i \<noteq> perm ! n \<and> perm ! n \<noteq> perm ! i" if "i < n" for i
    using that Suc.prems assms(1) by (simp add: nth_eq_iff_index_eq)
  ultimately show ?case using Suc by (auto simp: less_Suc_eq)
qed simp

interpretation weight: gather_perm perm_elems marlin_weight_perm marlin_weight_inv_perm
proof
  have d: "distinct marlin_weight_perm"
    by (rule card_distinct) (simp add: set_weight_perm length_weight_perm)
  note t = inverse_table [OF d, of 1024, unfolded length_weight_perm set_weight_perm]
  show "length marlin_weight_inv_perm = perm_elems" using t by (simp add: marlin_weight_inv_perm_def)
  show "marlin_weight_inv_perm ! (marlin_weight_perm ! i) = i" if "i < perm_elems" for i
    using t that by (simp add: marlin_weight_inv_perm_def)
  show "marlin_weight_perm ! i < perm_elems" if "i < perm_elems" for i
    using nth_mem [of i marlin_weight_perm] that by (simp add: set_weight_perm length_weight_perm)
qed (simp_all add: length_weight_perm)

interpretation weight_inv: gather_perm perm_elems marlin_weight_inv_perm marlin_weight_perm
  by (rule weight.inverse)

text \<open>The scale interleave is the transposition of an 8x8 table, its own inverse.\<close>

lemma nth_scale_perm: "i < 64 \<Longrightarrow> marlin_scale_perm ! i = i div 8 + 8 * (i mod 8)"
proof -
  assume i: "i < 64"
  have "concat (map (\<lambda>i. map (\<lambda>j. i + 8 * j) [0..<8]) [0..<8]) ! (sum_list (take (i div 8) (map length (map (\<lambda>i. map (\<lambda>j. i + 8 * j) [0..<8 :: nat]) [0..<8]))) + i mod 8)
      = map (\<lambda>i. map (\<lambda>j. i + 8 * j) [0..<8]) [0..<8] ! (i div 8) ! (i mod 8)"
    using i by (intro nth_concat_offset) (simp_all add: div_less_iff_less_mult del: upt_Suc)
  moreover have "sum_list (take (i div 8) (map length (map (\<lambda>i. map (\<lambda>j. i + 8 * j) [0..<8 :: nat]) [0..<8 :: nat]))) = 8 * (i div 8)"
    using i by (simp add: comp_def map_replicate_const div_less_iff_less_mult sum_list_replicate min_def del: upt_Suc)
  ultimately show ?thesis using i by (simp add: marlin_scale_perm_def div_less_iff_less_mult del: upt_Suc)
qed

interpretation scale: gather_perm perm_n marlin_scale_perm marlin_scale_perm
proof
  have d: "i div 8 < 8" "i mod 8 < 8" if "i < (64 :: nat)" for i using that by auto
  have *: "i div 8 + 8 * (i mod 8) < 64" if "i < (64 :: nat)" for i using d [OF that] by linarith
  show "marlin_scale_perm ! i < perm_n" if "i < perm_n" for i using that * by (simp add: nth_scale_perm)
  show "marlin_scale_perm ! (marlin_scale_perm ! i) = i" if i: "i < perm_n" for i
  proof -
    have "(i div 8 + 8 * (i mod 8)) div 8 = i mod 8" "(i div 8 + 8 * (i mod 8)) mod 8 = i div 8"
      using d [OF i] by simp_all
    then show ?thesis using i * [OF i] by (simp add: nth_scale_perm)
  qed
qed (simp_all add: marlin_scale_perm_def length_concat comp_def sum_list_triv)

section \<open>Nibbles\<close>

lemma bit_and_15: "bit (x AND 15 :: 32 word) i \<longleftrightarrow> i < 4 \<and> bit x i"
proof -
  have m: "(15 :: 32 word) = mask 4" by (simp add: mask_eq_exp_minus_1)
  show ?thesis unfolding m by (auto simp only: bit_and_iff bit_mask_iff possible_bit_word) (auto dest: bit_imp_le_length)
qed

lemma bit_packed:
  "m \<le> 8 \<Longrightarrow> bit (fold (\<lambda>nibble w. w OR push_bit (4 * nibble) (f nibble AND 15)) [0..<m] 0 :: 32 word) i
     \<longleftrightarrow> i < 4 * m \<and> bit (f (i div 4)) (i mod 4)"
proof (induction m)
  case (Suc m)
  have "bit (push_bit (4 * m) (f m AND 15)) i \<longleftrightarrow> 4 * m \<le> i \<and> i < 4 * Suc m \<and> bit (f m) (i - 4 * m)"
    using Suc.prems by (auto simp: bit_push_bit_iff bit_and_15 simp del: push_bit_and)
  moreover have "4 * m \<le> i \<Longrightarrow> i < 4 * Suc m \<Longrightarrow> i div 4 = m \<and> i mod 4 = i - 4 * m"
    by (metis add.commute div_nat_eqI mult.commute mult_Suc_right minus_mult_div_eq_mod)
  ultimately show ?case using Suc by (auto simp: bit_or_iff simp del: push_bit_and)
qed simp

lemma bit_nibble: "n < 8 \<Longrightarrow> bit (signed_drop_bit (4 * n) w AND 15 :: 32 word) i \<longleftrightarrow> i < 4 \<and> bit w (4 * n + i)"
  by (auto simp: bit_and_15 bit_signed_drop_bit_iff add.commute)

lemma small_nibble: "0 \<le> v \<Longrightarrow> v \<le> 15 \<Longrightarrow> bit (word_of_int v :: 32 word) i \<Longrightarrow> i < 4"
proof -
  assume v: "0 \<le> v" "v \<le> 15" "bit (word_of_int v :: 32 word) i"
  have "take_bit 4 v = v" using v by (simp add: take_bit_int_eq_self)
  then show "i < 4" using v(3) by (metis bit_of_int_iff bit_take_bit_iff)
qed

lemma sint_small: "0 \<le> v \<Longrightarrow> v \<le> 15 \<Longrightarrow> sint (word_of_int v :: 32 word) = v"
  by (simp add: int_word_sint)

lemma unpack_pack_row:
  assumes "8 dvd length row" "\<forall>v \<in> set row. 0 \<le> v \<and> v \<le> 15"
  shows "unpack_nibble_row (pack_nibble_row row) = row"
proof (rule nth_equalityI)
  have len: "length row div 8 * 8 = length row" using assms(1) by simp
  then show "length (unpack_nibble_row (pack_nibble_row row)) = length row"
    by (simp add: unpack_nibble_row_def pack_nibble_row_def)
  fix p assume "p < length (unpack_nibble_row (pack_nibble_row row))"
  then have p: "p < length row" using len by (simp add: unpack_nibble_row_def pack_nibble_row_def)
  have v: "0 \<le> row ! p" "row ! p \<le> 15" using assms(2) p by auto
  let ?W = "pack_nibble_row row ! (p div 8)"
  have W: "?W = fold (\<lambda>nibble w. w OR push_bit (4 * nibble) (word_of_int (row ! (8 * (p div 8) + nibble)) AND 15)) [0..<8] 0"
    using p len by (simp add: pack_nibble_row_def div_less_iff_less_mult)
  have "signed_drop_bit (4 * (p mod 8)) ?W AND 15 = word_of_int (row ! p)"
  proof (rule bit_word_eqI)
    fix i assume "i < LENGTH(32)"
    show "bit (signed_drop_bit (4 * (p mod 8)) ?W AND 15) i \<longleftrightarrow> bit (word_of_int (row ! p) :: 32 word) i"
    proof (cases "i < 4")
      case True
      then have ix: "(4 * (p mod 8) + i) div 4 = p mod 8" "(4 * (p mod 8) + i) mod 4 = i" "4 * (p mod 8) + i < 4 * 8"
        using mod_less_divisor [of 8 p] by (simp_all del: mod_less_divisor)
      have "8 * (p div 8) + p mod 8 = p" by simp
      with True bit_nibble [of "p mod 8" ?W i] ix show ?thesis
        unfolding W bit_packed [OF order_refl] by simp
    next
      case False
      moreover have "\<not> bit (word_of_int (row ! p) :: 32 word) i" using False small_nibble [OF v, of i] by blast
      ultimately show ?thesis using bit_nibble [of "p mod 8" ?W i] by simp
    qed
  qed
  moreover have "sint (word_of_int (row ! p) :: 32 word) = row ! p"
    using v by (rule sint_small)
  ultimately show "unpack_nibble_row (pack_nibble_row row) ! p = row ! p"
    using p len by (simp add: unpack_nibble_row_def pack_nibble_row_def)
qed

lemma pack_unpack_row: "pack_nibble_row (unpack_nibble_row ws) = ws"
proof (rule nth_equalityI)
  show "length (pack_nibble_row (unpack_nibble_row ws)) = length ws"
    by (simp add: unpack_nibble_row_def pack_nibble_row_def)
  fix j assume "j < length (pack_nibble_row (unpack_nibble_row ws))"
  then have j: "j < length ws" by (simp add: unpack_nibble_row_def pack_nibble_row_def)
  let ?f = "\<lambda>nibble. word_of_int (unpack_nibble_row ws ! (8 * j + nibble)) :: 32 word"
  have f: "?f n = signed_drop_bit (4 * n) (ws ! j) AND 15" if "n < 8" for n
    using that j by (simp add: unpack_nibble_row_def)
  have "bit (fold (\<lambda>nibble w. w OR push_bit (4 * nibble) (?f nibble AND 15)) [0..<8] 0) i \<longleftrightarrow> bit (ws ! j) i" if "i < 32" for i
  proof -
    have "i div 4 < 8" "4 * (i div 4) + i mod 4 = i" using that by auto
    then show ?thesis using that unfolding bit_packed [OF order_refl] f [OF \<open>i div 4 < 8\<close>]
      by (simp only: bit_nibble) simp
  qed
  then have "fold (\<lambda>nibble w. w OR push_bit (4 * nibble) (?f nibble AND 15)) [0..<8] 0 = ws ! j"
    by (intro bit_word_eqI) simp
  then show "pack_nibble_row (unpack_nibble_row ws) ! j = ws ! j"
    using j by (simp add: pack_nibble_row_def unpack_nibble_row_def)
qed

lemma unpack_row_range: "\<forall>v \<in> set (unpack_nibble_row ws). 0 \<le> v \<and> v \<le> 15"
proof -
  have "0 \<le> sint (x AND 15) \<and> sint (x AND 15) \<le> 15" for x :: "32 word"
  proof -
    have u: "0 \<le> uint (x AND 15)" "uint (x AND 15) \<le> 15"
      by (simp_all add: unsigned_and_eq AND_upper2')
    then have "sint (word_of_int (uint (x AND 15)) :: 32 word) = uint (x AND 15)" by (rule sint_small)
    with u show ?thesis by simp
  qed
  then show ?thesis by (auto simp: unpack_nibble_row_def)
qed

section \<open>Tiles\<close>

lemma tile_index:
  assumes "a < (16 :: nat)" "b < 16"
  shows "(256 * t + 16 * a + b) div 256 = t" "(256 * t + 16 * a + b) mod 256 div 16 = a" "(256 * t + 16 * a + b) mod 16 = b"
proof -
  have lt: "16 * a + b < 256" using assms by linarith
  have eq: "256 * t + 16 * a + b = 256 * t + (16 * a + b)" by simp
  show "(256 * t + 16 * a + b) div 256 = t" unfolding eq using lt by simp
  show "(256 * t + 16 * a + b) mod 256 div 16 = a" unfolding eq using lt assms(2) by simp
  have "256 * t + 16 * a + b = 16 * (16 * t + a) + b" by simp
  then show "(256 * t + 16 * a + b) mod 16 = b" using assms(2) by (simp only: mod_mult_self4 mod_less)
qed

lemma tile_bound: "a < (16 :: nat) \<Longrightarrow> b < 16 \<Longrightarrow> t < n div 16 \<Longrightarrow> 16 dvd n \<Longrightarrow> 256 * t + 16 * a + b < n * 16"
  by (auto elim!: dvdE)

lemma tile_split: "(p :: nat) = 256 * (p div 256) + 16 * (p mod 256 div 16) + p mod 16"
proof -
  have "p = 256 * (p div 256) + p mod 256" by simp
  moreover have "p mod 256 = 16 * (p mod 256 div 16) + p mod 256 mod 16" by (rule mult_div_mod_eq [symmetric])
  moreover have "p mod 256 mod 16 = p mod 16" by (rule mod_mod_cancel) simp
  ultimately show ?thesis by linarith
qed

lemma column_bound:
  assumes "p < n * (16 :: nat)" "16 dvd n"
  shows "16 * (p div 256) + p mod 16 < n"
proof -
  obtain m where n: "n = 16 * m" using assms(2) by (elim dvdE)
  have "p div 256 < m" using assms(1) n by (simp add: div_less_iff_less_mult)
  moreover have "p mod 16 < 16" by simp
  ultimately show ?thesis unfolding n by linarith
qed

lemma matrix_tile: "matrix (k div 16) (n * 16) (tile_rows k n q)"
  by (auto simp: matrix_def tile_rows_def)

lemma matrix_untile: "matrix k n (untile_rows k n rows)"
  by (auto simp: matrix_def untile_rows_def)

lemma nth_untile:
  "i < k \<Longrightarrow> j < n \<Longrightarrow> untile_rows k n rows ! i ! j = rows ! (i div 16) ! (256 * (j div 16) + 16 * (i mod 16) + j mod 16)"
  by (simp add: untile_rows_def)

lemma nth_tile:
  "t < k div 16 \<Longrightarrow> p < n * 16 \<Longrightarrow> tile_rows k n q ! t ! p = q ! (16 * t + p mod 256 div 16) ! (16 * (p div 256) + p mod 16)"
  by (simp add: tile_rows_def)

lemma row_bound:
  assumes "t < k div 16" "16 dvd k" "a < (16 :: nat)"
  shows "16 * t + a < k" "(16 * t + a) div 16 = t" "(16 * t + a) mod 16 = a"
proof -
  obtain m where "k = 16 * m" using assms(2) by (elim dvdE)
  then show "16 * t + a < k" using assms(1,3) by simp
qed (use assms(3) in simp_all)

lemma untile_tile:
  assumes "matrix k n q" "16 dvd k" "16 dvd n"
  shows "untile_rows k n (tile_rows k n q) = q"
proof (rule matrix_eqI [OF matrix_untile assms(1)])
  fix i j assume ij: "i < k" "j < n"
  have div: "a div 16 < m div 16" if "a < m" "16 dvd m" for a m :: nat
  proof -
    obtain c where "m = c * 16" using \<open>16 dvd m\<close> by (metis dvdE mult.commute)
    then show ?thesis using that(1) by (simp add: div_less_iff_less_mult)
  qed
  have m: "i mod 16 < 16" "j mod 16 < 16" by simp_all
  note ix = tile_index [OF m, of "j div 16"] and b = tile_bound [OF m div [OF ij(2) assms(3)] assms(3)]
  show "untile_rows k n (tile_rows k n q) ! i ! j = q ! i ! j"
    unfolding nth_untile [OF ij] nth_tile [OF div [OF ij(1) assms(2)] b] ix by (simp only: mult_div_mod_eq)
qed

lemma tile_untile:
  assumes "matrix (k div 16) (n * 16) rows" "16 dvd k" "16 dvd n"
  shows "tile_rows k n (untile_rows k n rows) = rows"
proof (rule matrix_eqI [OF matrix_tile assms(1)])
  fix i p assume ip: "i < k div 16" "p < n * 16"
  have a: "p mod 256 div 16 < 16" by (simp add: div_less_iff_less_mult)
  note r = row_bound [OF ip(1) assms(2) a] and c = column_bound [OF ip(2) assms(3)]
  have d: "(16 * (p div 256) + p mod 16) div 16 = p div 256" "(16 * (p div 256) + p mod 16) mod 16 = p mod 16" by simp_all
  show "tile_rows k n (untile_rows k n rows) ! i ! p = rows ! i ! p"
    unfolding nth_tile [OF ip] nth_untile [OF r(1) c] r(2,3) d by (simp only: tile_split [symmetric])
qed

section \<open>Packing and unpacking\<close>

lemma scale_rows_nth:
  assumes "kk < length m * gs"
  shows "scale_rows gs m ! kk = m ! (kk div gs)"
proof -
  have gs: "0 < gs" using assms by (cases gs) auto
  have lt: "kk div gs < length m" using assms gs by (simp add: div_less_iff_less_mult)
  have "concat (map (replicate gs) m) ! (sum_list (take (kk div gs) (map length (map (replicate gs) m))) + kk mod gs)
      = map (replicate gs) m ! (kk div gs) ! (kk mod gs)"
    using assms gs by (intro nth_concat_offset) (simp_all add: div_less_iff_less_mult)
  moreover have "sum_list (take (kk div gs) (map length (map (replicate gs) m))) = kk div gs * gs"
    using less_imp_le [OF lt] by (simp add: comp_def map_replicate_const sum_list_replicate min_def)
  ultimately show ?thesis using lt gs by (simp add: scale_rows_def)
qed

lemma matrix_scale_rows: "matrix g n m \<Longrightarrow> matrix (g * gs) n (scale_rows gs m)"
  by (auto simp: matrix_def scale_rows_def length_concat comp_def sum_list_triv)

lemma matrix_map2: "matrix k n a \<Longrightarrow> matrix k n b \<Longrightarrow> matrix k n (map2 (map2 f) a b)"
  by (auto simp: matrix_def in_set_zip)

lemma nth_map2_map2: "matrix k n a \<Longrightarrow> matrix k n b \<Longrightarrow> i < k \<Longrightarrow> j < n \<Longrightarrow> map2 (map2 f) a b ! i ! j = f (a ! i ! j) (b ! i ! j)"
  by (simp add: matrix_def)

text \<open>The shapes both directions accept.\<close>

definition pack_shapes :: "nat \<Rightarrow> nat \<Rightarrow> int \<Rightarrow> bool" where
  "pack_shapes k n gs = (0 < k \<and> 0 < n \<and> 16 dvd k \<and> 64 dvd n \<and> 0 < gs \<and> 16 dvd gs \<and> gs dvd int k)"

lemma require_pack_shapes_iff: "require_pack_shapes k n gs = Inr kn \<longleftrightarrow> pack_shapes k n gs \<and> kn = (k, n)"
  by (auto simp: require_pack_shapes_def require_Inr_iff pack_shapes_def dvd_eq_mod_eq_0)

lemma pack_shapes_groups: "pack_shapes k n gs \<Longrightarrow> k div nat gs * nat gs = k"
  by (metis dvd_div_mult_self int_dvd_int_iff nat_0_le order_less_imp_le pack_shapes_def)

lemma broadcast_matrix: "broadcast_scales sc k n gs = Inr m \<Longrightarrow> matrix (k div gs) n m"
  by (auto simp: broadcast_scales_def Let_def require_Inr_iff matrix_def list_all_iff split: if_splits scale_tensor.splits)

lemma broadcast_mat: "matrix (k div gs) n m \<Longrightarrow> broadcast_scales (ScaleMat m) k n gs = Inr m"
  by (auto simp: broadcast_scales_def Let_def matrix_def list_all_iff)

text \<open>The integers a packed tensor holds, and a packed tensor from its integers.\<close>

definition packed :: "nat \<Rightarrow> nat \<Rightarrow> int list list \<Rightarrow> 32 word list list" where
  "packed k n q = map pack_nibble_row (map (gather_blocks perm_elems marlin_weight_perm) (tile_rows k n q))"

definition unpacked :: "nat \<Rightarrow> nat \<Rightarrow> 32 word list list \<Rightarrow> int list list" where
  "unpacked k n qw = untile_rows k n (map (gather_blocks perm_elems marlin_weight_inv_perm) (map unpack_nibble_row qw))"

lemma tile_row_length: "64 dvd n \<Longrightarrow> row \<in> set (tile_rows k n q) \<Longrightarrow> length row = (n div 64) * perm_elems"
  by (auto simp: tile_rows_def elim!: dvdE)

lemma packed_matrix:
  assumes "64 dvd n"
  shows "matrix (k div 16) (n * 2) (packed k n q)"
proof -
  have "length (pack_nibble_row (gather_blocks perm_elems marlin_weight_perm row)) = n * 2" if "row \<in> set (tile_rows k n q)" for row
    using weight.gather_length [OF tile_row_length [OF assms that]] assms by (auto simp: pack_nibble_row_def elim!: dvdE)
  then show ?thesis by (auto simp: matrix_def packed_def tile_rows_def)
qed

lemma unpacked_packed:
  assumes "matrix k n q" "16 dvd k" "64 dvd n" "\<forall>row \<in> set q. \<forall>v \<in> set row. 0 \<le> v \<and> v \<le> 15"
  shows "unpacked k n (packed k n q) = q"
proof -
  have "map (gather_blocks perm_elems marlin_weight_inv_perm) (map unpack_nibble_row (packed k n q)) = tile_rows k n q"
    unfolding packed_def map_map comp_def
  proof (rule map_idI)
    fix row assume row: "row \<in> set (tile_rows k n q)"
    note len = tile_row_length [OF assms(3) row]
    have n16: "16 dvd n" using assms(3) by (rule dvd_trans [rotated]) simp
    have "\<forall>v \<in> set row. 0 \<le> v \<and> v \<le> 15"
    proof
      fix v assume "v \<in> set row"
      then obtain p where p: "p < length row" "v = row ! p" by (auto simp: in_set_conv_nth)
      obtain kt where kt: "kt < k div 16" "row = tile_rows k n q ! kt" using row by (auto simp: in_set_conv_nth tile_rows_def)
      have "p < n * 16" using p(1) kt by (simp add: tile_rows_def)
      note b = nth_tile [OF kt(1) this, of q] column_bound [OF this n16]
      have "p mod 256 div 16 < 16" by (simp add: div_less_iff_less_mult)
      note r = row_bound(1) [OF kt(1) assms(2) this]
      have "q ! (16 * kt + p mod 256 div 16) \<in> set q" using r assms(1) by (simp add: matrix_def)
      moreover have "v \<in> set (q ! (16 * kt + p mod 256 div 16))"
        using b r assms(1) unfolding p(2) kt(2) by (simp add: matrix_def)
      ultimately show "0 \<le> v \<and> v \<le> 15" using assms(4) by blast
    qed
    then have "\<forall>v \<in> set (gather_blocks perm_elems marlin_weight_perm row). 0 \<le> v \<and> v \<le> 15"
      using weight.gather_set [OF len] by blast
    moreover have "8 dvd length (gather_blocks perm_elems marlin_weight_perm row)"
      unfolding weight.gather_length [OF len] by simp
    ultimately show "gather_blocks perm_elems marlin_weight_inv_perm
        (unpack_nibble_row (pack_nibble_row (gather_blocks perm_elems marlin_weight_perm row))) = row"
      using weight.gather_inverse(1) [OF len] by (simp add: unpack_pack_row)
  qed
  moreover have "16 dvd n" using assms(3) by (rule dvd_trans [rotated]) simp
  ultimately show ?thesis unfolding unpacked_def using untile_tile [OF assms(1,2)] by simp
qed

lemma packed_unpacked:
  assumes "matrix (k div 16) (n * 2) qw" "16 dvd k" "64 dvd n"
  shows "packed k n (unpacked k n qw) = qw"
proof -
  let ?rows = "map (gather_blocks perm_elems marlin_weight_inv_perm) (map unpack_nibble_row qw)"
  have len: "length (unpack_nibble_row ws) = (n div 64) * perm_elems" if "ws \<in> set qw" for ws
    using that assms(1,3) by (auto simp: matrix_def unpack_nibble_row_def elim!: dvdE)
  have row: "gather_blocks perm_elems marlin_weight_perm (gather_blocks perm_elems marlin_weight_inv_perm (unpack_nibble_row ws)) = unpack_nibble_row ws"
    if "ws \<in> set qw" for ws using weight.gather_inverse(2) [OF len [OF that]] .
  have "length (gather_blocks perm_elems marlin_weight_inv_perm (unpack_nibble_row ws)) = n * 16" if ws: "ws \<in> set qw" for ws
    using weight_inv.gather_length [OF len [OF ws]] assms(3) by (auto elim!: dvdE)
  then have "matrix (k div 16) (n * 16) ?rows" using assms(1) by (auto simp: matrix_def)
  moreover have "16 dvd n" using assms(3) by (rule dvd_trans [rotated]) simp
  ultimately have "tile_rows k n (unpacked k n qw) = ?rows"
    unfolding unpacked_def using assms(2) by (intro tile_untile)
  then show ?thesis using row by (simp add: packed_def comp_def pack_unpack_row map_idI)
qed

lemma unpacked_range:
  assumes "matrix (k div 16) (n * 2) qw" "16 dvd k" "64 dvd n" and ij: "i < k" "j < n"
  shows "0 \<le> unpacked k n qw ! i ! j \<and> unpacked k n qw ! i ! j \<le> 15"
proof -
  have n16: "16 dvd n" using assms(3) by (rule dvd_trans [rotated]) simp
  have len: "length (unpack_nibble_row ws) = (n div 64) * perm_elems" if "ws \<in> set qw" for ws
    using that assms(1,3) by (auto simp: matrix_def unpack_nibble_row_def elim!: dvdE)
  show ?thesis
  proof -
    have "i div 16 < length qw" "j div 16 < n div 16"
      using ij assms(1,2) n16 by (auto simp: matrix_def div_less_iff_less_mult elim!: dvdE)
    note b = this(1) tile_bound [OF mod_less_divisor mod_less_divisor this(2) n16, of i j]
    let ?ws = "qw ! (i div 16)" and ?p = "256 * (j div 16) + 16 * (i mod 16) + j mod 16"
    let ?g = "gather_blocks perm_elems marlin_weight_inv_perm (unpack_nibble_row ?ws)"
    have ws: "?ws \<in> set qw" using b(1) by simp
    have "length ?g = n * 16" using weight_inv.gather_length [OF len [OF ws]] assms(3) by (auto elim!: dvdE)
    then have "?g ! ?p \<in> set ?g" using b(2) by simp
    then have "?g ! ?p \<in> set (unpack_nibble_row ?ws)" using weight_inv.gather_set [OF len [OF ws]] by blast
    moreover have "unpacked k n qw ! i ! j = ?g ! ?p"
      unfolding unpacked_def nth_untile [OF ij] using b(1) by simp
    ultimately show ?thesis using unpack_row_range by metis
  qed
qed

lemma unpacked_matrix: "matrix k n (unpacked k n qw)"
  unfolding unpacked_def by (rule matrix_untile)

section \<open>Rounding\<close>

lemma torch_round_near: "\<bar>x - of_int (torch_round x)\<bar> \<le> 1 / 2"
proof -
  have "of_int \<lfloor>x\<rfloor> \<le> x" "x < of_int \<lfloor>x\<rfloor> + 1" by linarith+
  then show ?thesis by (auto simp: torch_round_def Let_def)
qed

lemma torch_round_int [simp]: "torch_round (of_int z) = z"
  by (simp add: torch_round_def)

lemma quantize_range: "0 \<le> quantize_value x s \<and> quantize_value x s \<le> 15"
  by (simp add: quantize_value_def)

lemma quantize_dequantize: "0 < s \<Longrightarrow> 0 \<le> q \<Longrightarrow> q \<le> 15 \<Longrightarrow> quantize_value ((of_int q - of_int zero_point) * s) s = q"
  using torch_round_int [of "q - 8"] by (simp add: quantize_value_def)

text \<open>The reconstruction error of one value under a scale that covers it.\<close>

lemma quantize_error:
  assumes "0 < s" "\<bar>x\<bar> \<le> 8 * s"
  defines "y \<equiv> (of_int (quantize_value x s) - 8) * s"
  shows "\<bar>y - x\<bar> \<le> s / 2 \<or> (15 / 2 * s \<le> x \<and> y = 7 * s)"
proof -
  let ?r = "torch_round (x / s)"
  have near: "\<bar>x / s - of_int ?r\<bar> \<le> 1 / 2" by (rule torch_round_near)
  have "-8 \<le> x / s" "x / s \<le> 8" using assms(1,2) by (auto simp: field_simps)
  then have "-9 < real_of_int ?r" "real_of_int ?r < 9" using near by linarith+
  then have r: "-8 \<le> ?r" "?r \<le> 8" by linarith+
  show ?thesis
  proof (cases "?r = 8")
    case True
    then have "quantize_value x s = 15" by (simp add: quantize_value_def)
    moreover have "real_of_int ?r = 8" using True by simp
    then have "15 / 2 \<le> x / s" using near by linarith
    then have "15 / 2 * s \<le> x" using assms(1) by (simp add: field_simps)
    ultimately show ?thesis by (simp add: y_def)
  next
    case False
    then have "quantize_value x s - 8 = ?r" using r by (simp add: quantize_value_def)
    then have y: "y = of_int ?r * s" unfolding y_def by (metis of_int_diff of_int_numeral)
    have "y - x = - (x / s - of_int ?r) * s" using assms(1) unfolding y by (simp add: field_simps)
    then have "\<bar>y - x\<bar> = \<bar>x / s - of_int ?r\<bar> * s" using assms(1) by (simp add: abs_mult)
    also have "\<dots> \<le> 1 / 2 * s" using near assms(1) by (intro mult_right_mono) auto
    finally show ?thesis by simp
  qed
qed

section \<open>Theorems\<close>

text \<open>Values whose quotient is finite and fits the int32 the code converts to.\<close>

definition quant_safe :: "real \<Rightarrow> real \<Rightarrow> bool" where
  "quant_safe x s = (0 < s \<and> \<bar>x\<bar> \<le> 2 ^ 30 * s)"

lemma pack_Inr:
  assumes "pack_w4a16_marlin w scales gs = Inr (qw, m)" "\<forall>row \<in> set w. length row = width w"
  shows "pack_shapes (length w) (width w) gs" "matrix (length w) (width w) w" "matrix (length w div nat gs) (width w) m"
    "qw = packed (length w) (width w) (map2 (map2 quantize_value) w (scale_rows (nat gs) m))"
proof -
  obtain sc where "pack_shapes (length w) (width w) gs" "broadcast_scales sc (length w) (width w) (nat gs) = Inr m"
    "qw = packed (length w) (width w) (map2 (map2 quantize_value) w (scale_rows (nat gs) m))"
    using assms(1) by (auto simp: pack_w4a16_marlin_def obind_Inr_iff require_pack_shapes_iff Let_def packed_def)
  then show "pack_shapes (length w) (width w) gs" "matrix (length w div nat gs) (width w) m"
    "qw = packed (length w) (width w) (map2 (map2 quantize_value) w (scale_rows (nat gs) m))"
    by (simp_all add: broadcast_matrix)
  show "matrix (length w) (width w) w" using assms(2) by (simp add: matrix_def)
qed

lemma packed_dims:
  assumes "pack_shapes k n gs" "matrix (k div 16) (n * 2) qw"
  shows "length qw * 16 = k" "width qw * 8 div 16 = n"
proof -
  have k: "16 dvd k" "0 < k" using assms(1) by (simp_all add: pack_shapes_def)
  then show "length qw * 16 = k" using assms(2) by (simp add: matrix_def)
  have "0 < k div 16" using k by (auto elim!: dvdE)
  then have "width qw = n * 2" using assms(2) by (cases qw) (auto simp: matrix_def width_def)
  then show "width qw * 8 div 16 = n" by simp
qed

lemma unpack_shaped:
  assumes "pack_shapes k n gs" "matrix (k div 16) (n * 2) qw" "matrix (k div nat gs) n m"
  shows "unpack_w4a16_marlin qw (ScaleMat m) gs =
    Inr (map2 (map2 (\<lambda>q s. (of_int q - of_int zero_point) * s)) (unpacked k n qw) (scale_rows (nat gs) m))"
proof -
  have "require_pack_shapes k n gs = Inr (k, n)" using assms(1) by (simp add: require_pack_shapes_iff)
  then show ?thesis
    using packed_dims [OF assms(1,2)] broadcast_mat [OF assms(3)]
    by (simp add: unpack_w4a16_marlin_def Let_def unpacked_def)
qed

lemma pack_shaped:
  assumes "pack_shapes k n gs" "matrix k n w" "matrix (k div nat gs) n m"
  shows "pack_w4a16_marlin w (Some (ScaleMat m)) gs = Inr (packed k n (map2 (map2 quantize_value) w (scale_rows (nat gs) m)), m)"
proof -
  have "length w = k" "width w = n"
    using assms(1,2) by (auto simp: matrix_def width_def pack_shapes_def split: list.splits)
  moreover have "require_pack_shapes k n gs = Inr (k, n)" using assms(1) by (simp add: require_pack_shapes_iff)
  ultimately show ?thesis
    using broadcast_mat [OF assms(3)] by (simp add: pack_w4a16_marlin_def Let_def packed_def)
qed

lemma fakequant_values:
  assumes "pack_w4a16_marlin w scales gs = Inr (qw, m)" "\<forall>row \<in> set w. length row = width w"
  shows "unpack_w4a16_marlin qw (ScaleMat m) gs =
    Inr (map2 (map2 (\<lambda>x s. (of_int (quantize_value x s) - 8) * s)) w (scale_rows (nat gs) m))"
proof -
  let ?k = "length w" and ?n = "width w" and ?s = "scale_rows (nat gs) m"
  note p = pack_Inr [OF assms]
  let ?q = "map2 (map2 quantize_value) w ?s"
  have dv: "16 dvd ?k" "64 dvd ?n" using p(1) by (simp_all add: pack_shapes_def)
  have s: "matrix ?k ?n ?s" using matrix_scale_rows [OF p(3), of "nat gs"] pack_shapes_groups [OF p(1)] by simp
  have q: "matrix ?k ?n ?q" by (rule matrix_map2 [OF p(2) s])
  have "\<forall>row \<in> set ?q. \<forall>v \<in> set row. 0 \<le> v \<and> v \<le> 15"
    using quantize_range by (auto simp: in_set_zip)
  then have "unpacked ?k ?n qw = ?q" unfolding p(4) by (rule unpacked_packed [OF q dv])
  moreover have "map2 (map2 (\<lambda>q s. (of_int q - of_int zero_point) * s)) ?q ?s
      = map2 (map2 (\<lambda>x s. (of_int (quantize_value x s) - 8) * s)) w ?s" (is "?l = ?r")
  proof (rule matrix_eqI)
    show "matrix ?k ?n ?l" "matrix ?k ?n ?r" using q p(2) s by (simp_all add: matrix_map2)
  qed (use q p(2) s in \<open>simp add: nth_map2_map2\<close>)
  moreover have "matrix (?k div 16) (?n * 2) qw" unfolding p(4) by (rule packed_matrix [OF dv(2)])
  ultimately show ?thesis using unpack_shaped [OF p(1) _ p(3)] by simp
qed

text \<open>C36: Packing into the Marlin layout loses nothing but the rounding. Whatever the weight matrix and the
  scales (one per group and column, or one row for all groups), if \<open>pack_w4a16_marlin\<close> accepts them then
  unpacking its result gives, at every position, the value \<open>(q - 8) * scale\<close> of the integer \<open>q\<close> the weight
  was quantised to: tiling, permutation and nibble packing are undone exactly.\<close>

theorem unpack_pack:
  assumes "pack_w4a16_marlin w scales gs = Inr (qw, m)" "\<forall>row \<in> set w. length row = width w"
    and "list_all2 (list_all2 quant_safe) w (scale_rows (nat gs) m)"
  shows "unpack_w4a16_marlin qw (ScaleMat m) gs =
    Inr (map2 (map2 (\<lambda>x s. (of_int (quantize_value x s) - 8) * s)) w (scale_rows (nat gs) m))"
  by (rule fakequant_values [OF assms(1,2)])

definition ones :: "real list list" where
  "ones = replicate 16 (replicate 64 1)"

lemma ones_matrix: "matrix 16 64 ones" "length ones = 16" "width ones = 64"
  by (auto simp: ones_def matrix_def width_def numeral_eq_Suc)

lemma ones_shapes: "pack_shapes 16 64 16" "matrix (16 div nat 16) 64 [replicate 64 s]"
  by (simp_all add: pack_shapes_def matrix_def)

theorem unpack_pack_witness:
  "\<exists>qw. pack_w4a16_marlin ones (Some (ScaleMat [replicate 64 1])) 16 = Inr (qw, [replicate 64 1]) \<and>
     unpack_w4a16_marlin qw (ScaleMat [replicate 64 1]) 16 = Inr ones"
proof -
  have s: "scale_rows (nat 16) [replicate 64 1] = ones" by (simp add: scale_rows_def ones_def)
  have safe: "list_all2 (list_all2 quant_safe) ones (scale_rows (nat 16) [replicate 64 1])"
    unfolding s by (simp add: ones_def list_all2_same quant_safe_def)
  have "map2 (map2 (\<lambda>x s. (of_int (quantize_value x s) - 8) * s)) ones ones = ones"
    using torch_round_int [of 1] by (simp add: ones_def quantize_value_def zip_replicate)
  with unpack_pack [OF pack_shaped [OF ones_shapes(1) ones_matrix(1) ones_shapes(2)] _ safe]
  show ?thesis using pack_shaped [OF ones_shapes(1) ones_matrix(1) ones_shapes(2), of 1] ones_matrix
    by (auto simp: s [simplified] matrix_def)
qed

text \<open>C37: The layout is a bijection on INT4 matrices. Any packed tensor of an accepted shape, dequantised under
  positive scales and packed again with the same scales, gives the same words: every bit of \<open>qweight\<close> is
  significant and none is written by two nibbles.\<close>

theorem pack_unpack:
  assumes "pack_shapes k n gs" "matrix (k div 16) (n * 2) qw" "matrix (k div nat gs) n m" "\<forall>row \<in> set m. \<forall>s \<in> set row. 0 < s"
  shows "\<exists>w. unpack_w4a16_marlin qw (ScaleMat m) gs = Inr w \<and> pack_w4a16_marlin w (Some (ScaleMat m)) gs = Inr (qw, m)"
proof -
  let ?s = "scale_rows (nat gs) m" and ?q = "unpacked k n qw"
  let ?w = "map2 (map2 (\<lambda>q s. (of_int q - of_int zero_point) * s)) ?q ?s"
  have dv: "16 dvd k" "64 dvd n" "0 < k" using assms(1) by (simp_all add: pack_shapes_def)
  have s: "matrix k n ?s" using matrix_scale_rows [OF assms(3), of "nat gs"] pack_shapes_groups [OF assms(1)] by simp
  have q: "matrix k n ?q" by (rule unpacked_matrix)
  have w: "matrix k n ?w" by (rule matrix_map2 [OF q s])
  have pos: "0 < ?s ! i ! j" if "i < k" "j < n" for i j
    using that s assms(4) by (auto simp: matrix_def scale_rows_def dest!: nth_mem)
  have range: "0 \<le> ?q ! i ! j \<and> ?q ! i ! j \<le> 15" if "i < k" "j < n" for i j
    by (rule unpacked_range [OF assms(2) dv(1,2) that])
  have "map2 (map2 quantize_value) ?w ?s = ?q"
  proof (rule matrix_eqI [OF matrix_map2 [OF w s] q])
    fix i j assume ij: "i < k" "j < n"
    have "0 \<le> ?q ! i ! j" "?q ! i ! j \<le> 15" using range [OF ij] by auto
    then show "map2 (map2 quantize_value) ?w ?s ! i ! j = ?q ! i ! j"
      unfolding nth_map2_map2 [OF w s ij] nth_map2_map2 [OF q s ij] by (rule quantize_dequantize [OF pos [OF ij]])
  qed
  then have "pack_w4a16_marlin ?w (Some (ScaleMat m)) gs = Inr (packed k n ?q, m)"
    unfolding pack_shaped [OF assms(1) w assms(3)] by simp
  then show ?thesis using unpack_shaped [OF assms(1-3)] packed_unpacked [OF assms(2) dv(1,2)] by simp
qed

theorem pack_unpack_witness:
  "\<exists>w. unpack_w4a16_marlin [replicate 128 0x7654321F] (ScaleMat [replicate 64 (1 / 2)]) 16 = Inr w \<and>
     pack_w4a16_marlin w (Some (ScaleMat [replicate 64 (1 / 2)])) 16 = Inr ([replicate 128 0x7654321F], [replicate 64 (1 / 2)])"
  by (rule pack_unpack [OF ones_shapes(1) _ ones_shapes(2)]) (simp_all add: matrix_def)

lemma own_scales:
  assumes "compute_w4a16_scales w gs = Inr m" "\<forall>row \<in> set w. length row = width w" "i < length w" "j < width w"
  shows "matrix (length w div nat gs) (width w) m" "0 < m ! (i div nat gs) ! j" "\<bar>w ! i ! j\<bar> \<le> 8 * (m ! (i div nat gs) ! j)"
proof -
  let ?g = "nat gs"
  let ?amax = "\<lambda>g c. Max (set (map (\<lambda>r. \<bar>r ! c\<bar>) (take ?g (drop (g * ?g) w))))"
  have sh: "pack_shapes (length w) (width w) gs"
    and m: "m = map (\<lambda>g. map (\<lambda>c. max (?amax g c) (1 / 10 ^ 8) / of_int zero_point) [0..<width w]) [0..<length w div ?g]"
    using assms(1) by (auto simp: compute_w4a16_scales_def obind_Inr_iff require_pack_shapes_iff)
  show "matrix (length w div ?g) (width w) m" by (auto simp: m matrix_def)
  have gs: "0 < ?g" "length w = length w div ?g * ?g" using sh pack_shapes_groups [OF sh] by (auto simp: pack_shapes_def)
  have lt: "i div ?g < length w div ?g" using gs assms(3) by (simp add: div_less_iff_less_mult)
  have at: "m ! (i div ?g) ! j = max (?amax (i div ?g) j) (1 / 10 ^ 8) / 8" using lt assms(4) by (simp add: m)
  have "0 < max (?amax (i div ?g) j) (1 / 10 ^ 8)" by (simp add: less_max_iff_disj)
  then show "0 < m ! (i div ?g) ! j" unfolding at by simp
  have "w ! i \<in> set (take ?g (drop (i div ?g * ?g) w))"
  proof -
    have r: "i mod ?g < ?g" "i div ?g * ?g + i mod ?g = i" using gs(1) by (simp_all only: mod_less_divisor div_mult_mod_eq)
    then have lt: "i mod ?g < length w - i div ?g * ?g" using assms(3) by linarith
    have "take ?g (drop (i div ?g * ?g) w) ! (i mod ?g) = w ! i"
      using r lt nth_drop [of "i div ?g * ?g" w "i mod ?g"] by (simp only: nth_take less_imp_le zero_less_diff) (simp only: r)
    then show ?thesis using r(1) lt by (metis nth_mem length_take length_drop min_less_iff_conj)
  qed
  then have "\<bar>w ! i ! j\<bar> \<le> ?amax (i div ?g) j" by (intro Max_ge) auto
  then show "\<bar>w ! i ! j\<bar> \<le> 8 * (m ! (i div ?g) ! j)" unfolding at by simp
qed



end
