(* ===== verification/MoEAlign.thy ===== *)
theory MoEAlign
  imports Triton
begin

text \<open>
  Alignment of routed (token, expert) pairs to GEMM blocks (\<open>moe_align_block_size\<close> of
  \<open>executors/torch/triton_moe.py\<close>): pairs grouped by expert with a stable sort, every expert's run padded
  to a multiple of the block size with the sentinel \<open>-1\<close>, and the expert of every block. Indices are
  natural numbers, without the int32 conversions of the code.
\<close>

section \<open>Definitions\<close>

definition bincount :: "nat list \<Rightarrow> nat \<Rightarrow> nat list" where
  "bincount xs minlength = map (count_list xs) [0..<max minlength (if xs = [] then 0 else Suc (Max (set xs)))]"

definition exclusive_cumsum :: "nat list \<Rightarrow> nat list" where
  "exclusive_cumsum xs = map2 (\<lambda>s c. s - c) (tl (prefix_sums 0 xs)) xs"

definition moe_align_block_size :: "int list list \<Rightarrow> nat \<Rightarrow> nat \<Rightarrow> (int list \<times> nat list \<times> nat \<times> nat) outcome" where
  "moe_align_block_size topk_ids block_m num_experts =
     (let flat = concat topk_ids
      in require (list_all (\<lambda>x. 0 \<le> x) flat) (RuntimeError ''bincount only supports 1-d non-negative integral inputs.'')
        (let ids = map nat flat; num_pairs = length ids;
             counts = bincount ids num_experts;
             padded = map (\<lambda>c. (c + block_m - 1) div block_m * block_m) counts;
             block_counts = map (\<lambda>p. p div block_m) padded;
             exclusive_counts = exclusive_cumsum counts; exclusive_padded = exclusive_cumsum padded;
             order = sort_key (\<lambda>i. ids ! i) [0..<num_pairs];
             experts_sorted = map (\<lambda>i. ids ! i) order;
             pos = map (\<lambda>j. exclusive_padded ! (experts_sorted ! j) + (j - exclusive_counts ! (experts_sorted ! j))) [0..<num_pairs];
             sorted_ids = apply_writes (zip pos (map int order)) (replicate (sum_list padded) (- 1))
         in require (length block_counts = num_experts \<or> length block_counts = 1) (RuntimeError ''repeats must have the same size as input along dim'')
              (Inr (sorted_ids, concat (map (\<lambda>e. replicate (block_counts ! (if length block_counts = 1 then 0 else e)) e) [0..<num_experts]),
                    sum_list padded, sum_list padded))))"

section \<open>Runs\<close>

lemma apply_writes_other: "off \<notin> fst ` set ws \<Longrightarrow> apply_writes ws mem ! off = mem ! off"
proof (induction ws arbitrary: mem)
  case (Cons w ws)
  have "apply_writes (w # ws) mem = apply_writes ws (mem[fst w := snd w])"
    by (cases w) (simp add: apply_writes_def)
  moreover have "fst w \<noteq> off" "off \<notin> fst ` set ws" using Cons.prems by auto
  ultimately show ?case using Cons.IH [of "mem[fst w := snd w]"] by simp
qed (simp add: apply_writes_def)

text \<open>The pairs of one expert in order, the length of its padded run, and what alignment is to produce.\<close>

definition run_of :: "nat list \<Rightarrow> nat \<Rightarrow> nat list" where
  "run_of ids e = filter (\<lambda>q. ids ! q = e) [0..<length ids]"

definition run_padded :: "nat \<Rightarrow> nat list \<Rightarrow> nat \<Rightarrow> nat" where
  "run_padded bm ids e = ceil_div (length (run_of ids e)) bm * bm"

definition padded_run :: "nat \<Rightarrow> nat list \<Rightarrow> nat \<Rightarrow> int list" where
  "padded_run bm ids e = map int (run_of ids e) @ replicate (run_padded bm ids e - length (run_of ids e)) (- 1)"

definition aligned_ids :: "nat \<Rightarrow> nat list \<Rightarrow> nat \<Rightarrow> int list" where
  "aligned_ids bm ids E = concat (map (padded_run bm ids) [0..<E])"

definition aligned_experts :: "nat \<Rightarrow> nat list \<Rightarrow> nat \<Rightarrow> nat list" where
  "aligned_experts bm ids E = concat (map (\<lambda>e. replicate (ceil_div (length (run_of ids e)) bm) e) [0..<E])"

lemma count_run: "count_list ids e = length (run_of ids e)"
proof -
  have "count_list ids e = length (filter ((=) e) ids)" by (simp add: count_list_eq_length_filter)
  also have "\<dots> = length (filter ((=) e) (map (\<lambda>i. ids ! i) [0..<length ids]))" by (simp add: map_nth)
  also have "\<dots> = length (run_of ids e)"
    unfolding run_of_def filter_map length_map comp_def by (intro arg_cong [where f = length] filter_cong) auto
  finally show ?thesis .
qed

lemma run_padded_ge: "0 < bm \<Longrightarrow> length (run_of ids e) \<le> run_padded bm ids e"
  using ceil_div_le_iff [of bm "length (run_of ids e)" "ceil_div (length (run_of ids e)) bm"] by (simp add: run_padded_def)

lemma length_padded_run: "0 < bm \<Longrightarrow> length (padded_run bm ids e) = run_padded bm ids e"
  using run_padded_ge [of bm ids e] by (simp add: padded_run_def)

text \<open>A stable sort by expert is the concatenation of the runs.\<close>

lemma sorted_split: "sorted (map f ys) \<Longrightarrow> filter (\<lambda>y. f y < E) ys @ filter (\<lambda>y. \<not> f y < (E :: nat)) ys = ys"
proof (induction ys)
  case (Cons y ys)
  show ?case
  proof (cases "f y < E")
    case False
    then have "filter (\<lambda>y. f y < E) ys = []" using Cons.prems by (auto simp: filter_empty_conv)
    with Cons False show ?thesis by simp
  qed (use Cons in simp)
qed simp

lemma sorted_runs:
  "sorted (map f ys) \<Longrightarrow> (\<And>y. y \<in> set ys \<Longrightarrow> f y < E) \<Longrightarrow> concat (map (\<lambda>e. filter (\<lambda>y. f y = e) ys) [0..<E]) = (ys :: 'a list)"
proof (induction E arbitrary: ys)
  case (Suc E)
  let ?lo = "filter (\<lambda>y. f y < E) ys" and ?hi = "filter (\<lambda>y. \<not> f y < E) ys"
  have "?hi = filter (\<lambda>y. f y = E) ys" using Suc.prems(2) by (intro filter_cong) (auto simp: less_Suc_eq)
  moreover have "sorted (map f ?lo)" by (rule sorted_filter [OF Suc.prems(1)])
  then have "concat (map (\<lambda>e. filter (\<lambda>y. f y = e) ?lo) [0..<E]) = ?lo" by (rule Suc.IH) auto
  moreover have "filter (\<lambda>y. f y = e) ?lo = filter (\<lambda>y. f y = e) ys" if "e < E" for e
    using that by (auto intro: filter_cong)
  then have "map (\<lambda>e. filter (\<lambda>y. f y = e) ?lo) [0..<E] = map (\<lambda>e. filter (\<lambda>y. f y = e) ys) [0..<E]" by simp
  ultimately have "concat (map (\<lambda>e. filter (\<lambda>y. f y = e) ys) [0..<E]) = ?lo" "?hi = filter (\<lambda>y. f y = E) ys" by (simp_all only:)
  then show ?case using sorted_split [OF Suc.prems(1), of E] by simp
next
  case 0
  then show ?case by (cases ys) auto
qed

lemma order_runs:
  assumes "\<And>q. q < length ids \<Longrightarrow> ids ! q < E"
  shows "sort_key (\<lambda>i. ids ! i) [0..<length ids] = concat (map (run_of ids) [0..<E])"
proof -
  let ?s = "sort_key (\<lambda>i. ids ! i) [0..<length ids]"
  have "concat (map (\<lambda>e. filter (\<lambda>q. ids ! q = e) ?s) [0..<E]) = ?s"
    by (rule sorted_runs) (use assms in auto)
  then show ?thesis by (simp add: sort_key_stable run_of_def [abs_def])
qed

lemma run_total:
  assumes "\<And>q. q < length ids \<Longrightarrow> ids ! q < E"
  shows "length (concat (map (run_of ids) [0..<E])) = length ids"
proof -
  have "length (concat (map (run_of ids) [0..<E])) = length (sort_key (\<lambda>i. ids ! i) [0..<length ids])"
    by (simp only: order_runs [OF assms])
  then show ?thesis by (simp only: length_sort length_upt diff_zero)
qed

lemma nth_exclusive_cumsum: "i < length xs \<Longrightarrow> exclusive_cumsum xs ! i = sum_list (take i xs)"
  by (simp add: exclusive_cumsum_def nth_tl nth_prefix_sums sum_list_take_Suc)

section \<open>Scatter\<close>

text \<open>The scatter of the pairs to their padded positions is the concatenation of the padded runs.\<close>

lemma aligned_scatter:
  assumes bm: "0 < bm" and E: "\<And>q. q < length ids \<Longrightarrow> ids ! q < E"
  defines "counts \<equiv> map (\<lambda>e. length (run_of ids e)) [0..<E]" and "padded \<equiv> map (run_padded bm ids) [0..<E]"
    and "order \<equiv> concat (map (run_of ids) [0..<E])"
  defines "pos \<equiv> map (\<lambda>j. exclusive_cumsum padded ! (ids ! (order ! j)) + (j - exclusive_cumsum counts ! (ids ! (order ! j)))) [0..<length ids]"
  shows "apply_writes (zip pos (map int order)) (replicate (sum_list padded) (- 1)) = aligned_ids bm ids E"
proof -
  let ?xs = "\<lambda>e. sum_list (take e padded)" and ?cs = "\<lambda>e. sum_list (take e counts)"
  have lens: "map length (map (run_of ids) [0..<E]) = counts" "map length (map (padded_run bm ids) [0..<E]) = padded"
    using bm by (simp_all add: counts_def padded_def length_padded_run comp_def)
  have "mset order = mset [0..<length ids]"
    using order_runs [OF E] by (simp add: order_def flip: order_runs [OF E])
  then have lo: "length order = length ids" using mset_eq_length by fastforce
  have total: "sum_list counts = length ids" using lo unfolding order_def length_concat lens(1) .
  text \<open>Position, order and expert of the \<open>r\<close>-th pair of expert \<open>e\<close>.\<close>
  have at: "order ! (?cs e + r) = run_of ids e ! r" "pos ! (?cs e + r) = ?xs e + r" "?cs e + r < length ids"
    if "e < E" "r < length (run_of ids e)" for e r
  proof -
    show o: "order ! (?cs e + r) = run_of ids e ! r"
      using nth_concat_offset [of e "map (run_of ids) [0..<E]" r] that unfolding lens(1) by (simp add: order_def)
    have "sum_list (take (Suc e) counts) \<le> sum_list counts" by (rule sum_list_take_le)
    moreover have "sum_list (take (Suc e) counts) = ?cs e + length (run_of ids e)"
      using that(1) by (simp add: sum_list_take_Suc counts_def)
    ultimately show lt: "?cs e + r < length ids" using that(2) total by linarith
    have "run_of ids e ! r \<in> set (run_of ids e)" using that(2) by simp
    then have "ids ! (order ! (?cs e + r)) = e" unfolding o by (simp add: run_of_def)
    then show "pos ! (?cs e + r) = ?xs e + r"
      using lt that(1) by (simp add: pos_def nth_exclusive_cumsum padded_def counts_def)
  qed
  have writes: "(off, v) \<in> set (zip pos (map int order)) \<longleftrightarrow>
      (\<exists>e r. e < E \<and> r < length (run_of ids e) \<and> off = ?xs e + r \<and> v = int (run_of ids e ! r))" for off v
  proof
    assume "(off, v) \<in> set (zip pos (map int order))"
    then obtain j where j: "j < length ids" "off = pos ! j" "v = int (order ! j)"
      by (auto simp: in_set_zip lo pos_def)
    obtain e r where "e < length counts" "r < counts ! e" "j = sum_list (take e counts) + r"
      using offset_cases [of j counts] j(1) total by metis
    then show "\<exists>e r. e < E \<and> r < length (run_of ids e) \<and> off = ?xs e + r \<and> v = int (run_of ids e ! r)"
      using at j(2,3) by (intro exI [of _ e] exI [of _ r]) (auto simp: counts_def)
  next
    assume "\<exists>e r. e < E \<and> r < length (run_of ids e) \<and> off = ?xs e + r \<and> v = int (run_of ids e ! r)"
    then obtain e r where er: "e < E" "r < length (run_of ids e)" "off = ?xs e + r" "v = int (run_of ids e ! r)" by blast
    have "zip pos (map int order) ! (?cs e + r) = (off, v)" "?cs e + r < length (zip pos (map int order))"
      using at [OF er(1,2)] er(3,4) lo by (simp_all add: pos_def)
    then show "(off, v) \<in> set (zip pos (map int order))" by (metis nth_mem)
  qed
  have unique: "e = e' \<and> r = r'" if "e < E" "e' < E" "r < padded ! e" "r' < padded ! e'" "?xs e + r = ?xs e' + r'" for e e' r r'
  proof -
    have "\<not> e < e'" using sum_list_take_gap [of e e' padded r] that by (fastforce simp: padded_def)
    moreover have "\<not> e' < e" using sum_list_take_gap [of e' e padded r'] that by (fastforce simp: padded_def)
    ultimately show ?thesis using that(5) by simp
  qed
  have lenA: "length (aligned_ids bm ids E) = sum_list padded"
    unfolding aligned_ids_def length_concat lens(2) ..
  show ?thesis
  proof (rule nth_equalityI)
    fix p assume "p < length (apply_writes (zip pos (map int order)) (replicate (sum_list padded) (- 1)))"
    then have p: "p < sum_list padded" by simp
    obtain e r where er: "e < length padded" "r < padded ! e" "p = ?xs e + r" using offset_cases [OF p] by metis
    then have e: "e < E" "r < run_padded bm ids e" by (simp_all add: padded_def)
    have A: "aligned_ids bm ids E ! p = padded_run bm ids e ! r"
      using nth_concat_offset [of e "map (padded_run bm ids) [0..<E]" r] e bm er(3) unfolding lens(2)
      by (simp add: aligned_ids_def length_padded_run)
    have only: "e' = e \<and> r' = r" if "e' < E" "r' < length (run_of ids e')" "p = ?xs e' + r'" for e' r'
      using unique [of e' e r' r] that e er run_padded_ge [OF bm, of ids e'] by (simp add: padded_def)
    show "apply_writes (zip pos (map int order)) (replicate (sum_list padded) (- 1)) ! p = aligned_ids bm ids E ! p"
    proof (cases "r < length (run_of ids e)")
      case True
      have "apply_writes (zip pos (map int order)) (replicate (sum_list padded) (- 1)) ! p = int (run_of ids e ! r)"
      proof (rule apply_writes_value)
        show "(p, int (run_of ids e ! r)) \<in> set (zip pos (map int order))"
          unfolding writes using e(1) True er(3) by blast
        show "u = int (run_of ids e ! r)" if "(p, u) \<in> set (zip pos (map int order))" for u
          using that only unfolding writes by blast
      qed (use p in simp)
      then show ?thesis using True unfolding A by (simp add: padded_run_def nth_append)
    next
      case False
      have "p \<notin> fst ` set (zip pos (map int order))"
      proof
        assume "p \<in> fst ` set (zip pos (map int order))"
        then obtain u where "(p, u) \<in> set (zip pos (map int order))" by auto
        then show False using only False unfolding writes by blast
      qed
      then have "apply_writes (zip pos (map int order)) (replicate (sum_list padded) (- 1)) ! p = replicate (sum_list padded) (- 1) ! p"
        by (rule apply_writes_other)
      then show ?thesis using False e p unfolding A by (simp add: padded_run_def nth_append)
    qed
  qed (simp add: lenA)
qed

section \<open>The result of alignment\<close>

lemma bincount_runs:
  assumes "\<And>q. q < length ids \<Longrightarrow> ids ! q < E"
  shows "bincount ids E = map (\<lambda>e. length (run_of ids e)) [0..<E]"
proof -
  have "ids \<noteq> [] \<Longrightarrow> Suc (Max (set ids)) \<le> E"
    using assms by (auto simp: in_set_conv_nth Suc_le_eq)
  then have "max E (if ids = [] then 0 else Suc (Max (set ids))) = E" by (cases "ids = []") (simp_all add: max_absorb1)
  moreover have "count_list ids = (\<lambda>e. length (run_of ids e))" by (rule ext) (rule count_run)
  ultimately show ?thesis by (simp only: bincount_def)
qed

lemma moe_align_ok:
  assumes bm: "0 < bm" and E: "\<forall>row \<in> set topk_ids. \<forall>x \<in> set row. 0 \<le> x \<and> x < int E"
  defines "ids \<equiv> map nat (concat topk_ids)"
  shows "moe_align_block_size topk_ids bm E =
    Inr (aligned_ids bm ids E, aligned_experts bm ids E, length (aligned_ids bm ids E), length (aligned_ids bm ids E))"
proof -
  have lt: "\<And>q. q < length ids \<Longrightarrow> ids ! q < E"
    using E nth_mem [of _ ids] by (fastforce simp: ids_def)
  have pos: "list_all (\<lambda>x. 0 \<le> x) (concat topk_ids)" using E by (auto simp: list_all_iff)
  have padded: "map (\<lambda>c. (c + bm - 1) div bm * bm) (map (\<lambda>e. length (run_of ids e)) [0..<E]) = map (run_padded bm ids) [0..<E]"
    by (simp add: run_padded_def ceil_div_def)
  have blocks: "map (\<lambda>e. replicate (map (\<lambda>p. p div bm) (map (run_padded bm ids) [0..<E]) !
        (if length (map (\<lambda>p. p div bm) (map (run_padded bm ids) [0..<E])) = 1 then 0 else e)) e) [0..<E]
      = map (\<lambda>e. replicate (ceil_div (length (run_of ids e)) bm) e) [0..<E]"
    using bm by (intro map_cong) (auto simp: run_padded_def)
  have total: "sum_list (map (run_padded bm ids) [0..<E]) = length (aligned_ids bm ids E)"
    using bm by (simp add: aligned_ids_def length_concat comp_def length_padded_run)
  have len: "length (concat (map (run_of ids) [0..<E])) = length ids"
    by (rule run_total [OF lt])
  have experts: "map (\<lambda>j. exclusive_cumsum (map (run_padded bm ids) [0..<E]) ! (map (\<lambda>i. ids ! i) (concat (map (run_of ids) [0..<E])) ! j)
        + (j - exclusive_cumsum (map (\<lambda>e. length (run_of ids e)) [0..<E]) ! (map (\<lambda>i. ids ! i) (concat (map (run_of ids) [0..<E])) ! j))) [0..<length ids]
      = map (\<lambda>j. exclusive_cumsum (map (run_padded bm ids) [0..<E]) ! (ids ! (concat (map (run_of ids) [0..<E]) ! j))
        + (j - exclusive_cumsum (map (\<lambda>e. length (run_of ids e)) [0..<E]) ! (ids ! (concat (map (run_of ids) [0..<E]) ! j)))) [0..<length ids]"
    using len by (intro map_cong) simp_all
  have bc: "bincount ids E = map (\<lambda>e. length (run_of ids e)) [0..<E]" by (rule bincount_runs) (rule lt)
  have ord: "sort_key (\<lambda>i. ids ! i) [0..<length ids] = concat (map (run_of ids) [0..<E])" by (rule order_runs) (rule lt)
  have scatter: "apply_writes (zip (map (\<lambda>j. exclusive_cumsum (map (run_padded bm ids) [0..<E]) ! (ids ! (concat (map (run_of ids) [0..<E]) ! j))
        + (j - exclusive_cumsum (map (\<lambda>e. length (run_of ids e)) [0..<E]) ! (ids ! (concat (map (run_of ids) [0..<E]) ! j)))) [0..<length ids])
      (map int (concat (map (run_of ids) [0..<E])))) (replicate (sum_list (map (run_padded bm ids) [0..<E])) (- 1)) = aligned_ids bm ids E"
    by (rule aligned_scatter [OF bm]) (rule lt)
  show ?thesis
    unfolding moe_align_block_size_def Let_def ids_def [symmetric] bc padded ord experts
    unfolding scatter blocks using pos total by (simp add: aligned_experts_def)
qed

text \<open>An id outside the experts is refused.\<close>

lemma moe_align_refuses:
  assumes "row \<in> set topk_ids" "x \<in> set row" "x < 0 \<or> int E \<le> x" "0 < E"
  shows "\<exists>msg. moe_align_block_size topk_ids bm E = Inl (RuntimeError msg)"
proof (cases "list_all (\<lambda>x. 0 \<le> x) (concat topk_ids)")
  case True
  define ids where "ids = map nat (concat topk_ids)"
  have "x \<ge> 0" using True assms by (auto simp: list_all_iff)
  have mem: "nat x \<in> set ids" using assms(1,2) by (auto simp: ids_def)
  then have "nat x \<le> Max (set ids)" by (intro Max_ge) simp_all
  moreover have "E \<le> nat x" using assms(3) \<open>x \<ge> 0\<close> by simp
  moreover have "ids \<noteq> []" using length_pos_if_in_set [OF mem] by simp
  ultimately have "length (bincount ids E) \<noteq> E \<and> length (bincount ids E) \<noteq> 1" using assms(4) by (simp add: bincount_def)
  then show ?thesis
    using True unfolding moe_align_block_size_def Let_def ids_def [symmetric] by simp
next
  case False
  then show ?thesis by (simp add: moe_align_block_size_def Let_def)
qed

lemma blocks_scale: "sum_list (map (\<lambda>e. f e * bm) es) = sum_list (map f es) * (bm :: nat)"
  by (induction es) (simp_all add: distrib_right)

lemma aligned_entry:
  assumes bm: "0 < bm" and p: "p < length (aligned_ids bm ids E)"
  shows "\<exists>e r. e < E \<and> r < run_padded bm ids e \<and> aligned_ids bm ids E ! p = padded_run bm ids e ! r \<and>
    p div bm < length (aligned_experts bm ids E) \<and> aligned_experts bm ids E ! (p div bm) = e"
proof -
  let ?b = "\<lambda>e. ceil_div (length (run_of ids e)) bm"
  let ?runs = "map (padded_run bm ids) [0..<E]" and ?blocks = "map (\<lambda>e. replicate (?b e) e) [0..<E]"
  have len: "map length ?runs = map (\<lambda>e. ?b e * bm) [0..<E]" "map length ?blocks = map ?b [0..<E]"
    using bm by (simp_all add: length_padded_run run_padded_def)
  have "p < sum_list (map (\<lambda>e. ?b e * bm) [0..<E])" using p unfolding aligned_ids_def length_concat len .
  then obtain e r where er: "e < E" "r < ?b e * bm" "p = sum_list (take e (map (\<lambda>e. ?b e * bm) [0..<E])) + r"
    by (elim offset_cases) simp
  have "take e (map (\<lambda>e. ?b e * bm) [0..<E]) = map (\<lambda>e. ?b e * bm) [0..<e]"
    "take e (map ?b [0..<E]) = map ?b [0..<e]" using er(1) by (simp_all add: take_map)
  then have pe: "p = sum_list (take e (map ?b [0..<E])) * bm + r" using er(3) by (simp add: blocks_scale)
  have rb: "r div bm < ?b e" using er(2) bm by (simp add: div_less_iff_less_mult)
  have pd: "p div bm = sum_list (take e (map ?b [0..<E])) + r div bm" unfolding pe using bm by simp
  have "concat ?runs ! p = ?runs ! e ! r"
    using nth_concat_offset [of e ?runs r] er bm unfolding len by (simp add: length_padded_run run_padded_def)
  moreover have "concat ?blocks ! (p div bm) = ?blocks ! e ! (r div bm)"
    using nth_concat_offset [of e ?blocks "r div bm"] er(1) rb unfolding len pd by simp
  moreover have "p div bm < length (concat ?blocks)"
  proof -
    have "sum_list (take (Suc e) (map ?b [0..<E])) \<le> sum_list (map ?b [0..<E])" by (rule sum_list_take_le)
    then show ?thesis unfolding length_concat len pd using er(1) rb by (simp add: sum_list_take_Suc)
  qed
  ultimately show ?thesis
    using er(1,2) rb by (intro exI [of _ e] exI [of _ r]) (simp add: aligned_ids_def aligned_experts_def run_padded_def)
qed

lemma aligned_multiple: "0 < bm \<Longrightarrow> bm dvd length (aligned_ids bm ids E)"
proof -
  assume bm: "0 < bm"
  have "length (aligned_ids bm ids E) = sum_list (map (\<lambda>e. ceil_div (length (run_of ids e)) bm) [0..<E]) * bm"
    using bm by (simp add: aligned_ids_def length_concat comp_def length_padded_run run_padded_def blocks_scale)
  then show ?thesis by simp
qed

text \<open>The over-provisioned grid covers every block.\<close>

lemma aligned_bound:
  assumes "0 < bm" "\<And>q. q < length ids \<Longrightarrow> ids ! q < E"
  shows "length (aligned_ids bm ids E) \<le> ((length ids + bm - 1) div bm + E) * bm"
proof -
  have "sum_list (map (run_padded bm ids) [0..<n]) \<le> sum_list (map (\<lambda>e. length (run_of ids e)) [0..<n]) + n * bm" for n
  proof (induction n)
    case (Suc n)
    have "run_padded bm ids n \<le> length (run_of ids n) + bm"
      unfolding run_padded_def ceil_div_def by (rule order_trans [OF div_times_less_eq_dividend]) simp
    then show ?case using Suc by simp
  qed simp
  then have "length (aligned_ids bm ids E) \<le> length (concat (map (run_of ids) [0..<E])) + E * bm"
    using assms(1) by (simp add: aligned_ids_def length_concat comp_def length_padded_run)
  also have "length (concat (map (run_of ids) [0..<E])) = length ids"
    by (rule run_total [OF assms(2)])
  also have "length ids \<le> (length ids + bm - 1) div bm * bm"
    using ceil_div_le_iff [OF assms(1), of "length ids" "ceil_div (length ids) bm"] by (simp add: ceil_div_def)
  finally show ?thesis by (simp add: distrib_right)
qed

text \<open>A non-negative entry is the pair of a run.\<close>

lemma padded_run_entry:
  assumes "0 < bm" "r < run_padded bm ids e" "padded_run bm ids e ! r \<noteq> - 1"
  shows "\<exists>q. padded_run bm ids e ! r = int q \<and> q < length ids \<and> ids ! q = e"
proof -
  have r: "r < length (run_of ids e)"
    using assms by (cases "r < length (run_of ids e)") (auto simp: padded_run_def nth_append)
  then have "run_of ids e ! r \<in> set (run_of ids e)" by simp
  then show ?thesis using r by (auto simp: padded_run_def nth_append run_of_def)
qed

end
