(* ===== verification/TritonOps.thy ===== *)
theory TritonOps
  imports Triton ReferenceModel
begin

text \<open>
  The hand-written Triton kernels of \<open>executors/torch/triton_ops.py\<close>: the fused SwiGLU activation and the
  fused mixture-of-experts router, with their torch references. Every program of a kernel is the list
  of its stores; the order in which the programs of a grid run is a parameter, as is the block size the
  autotuner picks. Arithmetic is exact; a logit of \<open>-inf\<close> is \<open>None\<close>.
\<close>

section \<open>SwiGLU\<close>

definition sigmoid :: "real \<Rightarrow> real" where
  "sigmoid x = 1 / (1 + exp (- x))"

definition silu_program ::
    "nat \<Rightarrow> nat \<Rightarrow> nat \<Rightarrow> nat \<Rightarrow> real list \<Rightarrow> nat \<times> nat \<Rightarrow> (nat \<times> real) list" where
  "silu_program BLOCK stride_gu stride_out hidden gate_up pid =
     (let (row, col) = pid;
          cols = map (\<lambda>i. col * BLOCK + i) [0..<BLOCK]
      in masked_store (map (\<lambda>c.
           let msk = c < hidden; gate_off = row * stride_gu + c; up_off = gate_off + hidden;
               gate = masked_load msk gate_off 0 gate_up;
               up = masked_load msk up_off 0 gate_up
           in (msk, row * stride_out + c, gate * sigmoid gate * up)) cols))"

text \<open>The columns of a tensor; a tensor without rows has none that matter.\<close>

definition cols_of :: "'a list list \<Rightarrow> nat" where
  "cols_of rows = (case rows of [] \<Rightarrow> 0 | r # _ \<Rightarrow> length r)"

definition silu_and_mul_triton :: "nat \<Rightarrow> (nat \<times> nat) list \<Rightarrow> real list \<Rightarrow> real list list \<Rightarrow> real list list" where
  "silu_and_mul_triton BLOCK order out gate_up =
     (let num_tokens = length gate_up; two_hidden = cols_of gate_up; hidden = two_hidden div 2
      in unflatten num_tokens hidden
           (launch (silu_program BLOCK two_hidden hidden hidden (concat gate_up)) order out))"

definition silu_and_mul_reference :: "real list list \<Rightarrow> real list list" where
  "silu_and_mul_reference gate_up =
     map (\<lambda>row. let hidden = length row div 2; gate = take hidden row; up = drop hidden row
                in map2 (\<lambda>g u. g * sigmoid g * u) gate up) gate_up"

lemma cols_of_matrix: "matrix k n rows \<Longrightarrow> 0 < k \<Longrightarrow> cols_of rows = n"
  by (auto simp: matrix_def cols_of_def split: list.splits)

lemma silu_program_writes:
  "(off, v) \<in> set (silu_program BLOCK sg so hidden mem (row, col)) \<longleftrightarrow>
     (\<exists>c. c < hidden \<and> (\<exists>i < BLOCK. c = col * BLOCK + i) \<and> off = row * so + c \<and>
        v = mem ! (row * sg + c) * sigmoid (mem ! (row * sg + c)) * mem ! (row * sg + c + hidden))"
  by (auto simp: silu_program_def set_masked_store Let_def masked_load_def image_iff)

lemma silu_kernel:
  assumes "matrix k (2 * hidden) gate_up" "grid_order k (ceil_div hidden BLOCK) order" "0 < BLOCK"
    and "length out = k * hidden" "i < k" "j < hidden"
  shows "launch (silu_program BLOCK (2 * hidden) hidden hidden (concat gate_up)) order out ! (i * hidden + j)
    = gate_up ! i ! j * sigmoid (gate_up ! i ! j) * gate_up ! i ! (hidden + j)"
proof (rule launch_value)
  let ?mem = "concat gate_up"
  have at: "?mem ! (i * (2 * hidden) + j) = gate_up ! i ! j"
    "?mem ! (i * (2 * hidden) + j + hidden) = gate_up ! i ! (hidden + j)"
    using nth_flat [OF assms(1,5), of j] nth_flat [OF assms(1,5), of "hidden + j"] assms(6) by (simp_all add: ac_simps)
  show "i * hidden + j < length out" using flat_index_less [OF assms(5,6)] assms(4) by simp
  show "(i, j div BLOCK) \<in> set order"
    using assms(2,5) block_cover(1) [OF assms(6,3)] by (simp add: grid_order_def)
  show "(i * hidden + j, gate_up ! i ! j * sigmoid (gate_up ! i ! j) * gate_up ! i ! (hidden + j))
      \<in> set (silu_program BLOCK (2 * hidden) hidden hidden ?mem (i, j div BLOCK))"
    unfolding silu_program_writes at [symmetric] using block_cover(2) [OF assms(6,3)] assms(6) by blast
  fix q u assume q: "q \<in> set order" "(i * hidden + j, u) \<in> set (silu_program BLOCK (2 * hidden) hidden hidden ?mem q)"
  obtain row col where rc: "q = (row, col)" by (cases q)
  obtain c where c: "c < hidden" "i * hidden + j = row * hidden + c"
    "u = ?mem ! (row * (2 * hidden) + c) * sigmoid (?mem ! (row * (2 * hidden) + c)) * ?mem ! (row * (2 * hidden) + c + hidden)"
    using q(2) unfolding rc silu_program_writes by blast
  have "i = row \<and> j = c" by (rule flat_index_inj [OF assms(6) c(1,2)])
  then show "u = gate_up ! i ! j * sigmoid (gate_up ! i ! j) * gate_up ! i ! (hidden + j)" using c(3) at by simp
qed

lemma silu_triton_reference:
  assumes "matrix k (2 * hidden) gate_up" "grid_order k (ceil_div hidden BLOCK) order" "0 < BLOCK" "length out = k * hidden"
  shows "silu_and_mul_triton BLOCK order out gate_up = silu_and_mul_reference gate_up"
proof (cases "k = 0")
  case True
  then show ?thesis using assms(1) by (simp add: matrix_def silu_and_mul_triton_def silu_and_mul_reference_def unflatten_def)
next
  case False
  have dims: "length gate_up = k" "cols_of gate_up = 2 * hidden"
    using assms(1) False cols_of_matrix by (auto simp: matrix_def)
  have "matrix k hidden (silu_and_mul_reference gate_up)"
    using assms(1) by (auto simp: silu_and_mul_reference_def matrix_def Let_def)
  then show ?thesis
  proof (rule matrix_eqI [rotated])
    show "matrix k hidden (silu_and_mul_triton BLOCK order out gate_up)"
      by (simp add: silu_and_mul_triton_def dims)
    fix i j assume ij: "i < k" "j < hidden"
    then have "silu_and_mul_triton BLOCK order out gate_up ! i ! j
        = gate_up ! i ! j * sigmoid (gate_up ! i ! j) * gate_up ! i ! (hidden + j)"
      using silu_kernel [OF assms ij] by (simp add: silu_and_mul_triton_def dims nth_unflatten)
    also have "\<dots> = silu_and_mul_reference gate_up ! i ! j"
      using assms(1) ij matrix_row [OF assms(1) ij(1)] by (simp add: silu_and_mul_reference_def dims Let_def)
    finally show "silu_and_mul_triton BLOCK order out gate_up ! i ! j = silu_and_mul_reference gate_up ! i ! j" .
  qed
qed

section \<open>Fused routing\<close>

fun blank :: "nat list \<Rightarrow> 'a option list \<Rightarrow> 'a option list" where
  "blank [] xs = xs"
| "blank (i # is) xs = blank is (xs[i := None])"

function next_power_of_2_from :: "nat \<Rightarrow> nat \<Rightarrow> nat" where
  "next_power_of_2_from p n = (if n \<le> p \<or> p = 0 then p else next_power_of_2_from (2 * p) n)"
  by pat_completeness auto
termination by (relation "measure (\<lambda>(p, n). n - p)") auto

declare next_power_of_2_from.simps [simp del]

definition next_power_of_2 :: "nat \<Rightarrow> nat" where
  "next_power_of_2 n = next_power_of_2_from 1 n"

lemma next_power_of_2_ge: "n \<le> next_power_of_2 n"
proof -
  have "0 < p \<Longrightarrow> n \<le> next_power_of_2_from p n" for p
  proof (induction p n rule: next_power_of_2_from.induct)
    case (1 p n)
    then show ?case by (subst next_power_of_2_from.simps) auto
  qed
  then show ?thesis by (simp add: next_power_of_2_def)
qed

text \<open>One round of the selection loop: the registers hold the remaining values, the ids and the weights.\<close>

definition topk_round ::
    "real list \<Rightarrow> nat \<Rightarrow> real option list \<times> nat list \<times> real list \<Rightarrow> real option list \<times> nat list \<times> real list" where
  "topk_round scores i regs =
     (let (vals, ids, weights) = regs; m_idx = argmax vals;
          w = sum_list (map (\<lambda>e. if e = m_idx then scores ! e else 0) [0..<length scores])
      in (vals[m_idx := None], ids[i := m_idx], weights[i := w]))"

text \<open>The register vectors of one program after the loop and the normalisation.\<close>

definition topk_registers ::
    "nat \<Rightarrow> nat \<Rightarrow> nat \<Rightarrow> bool \<Rightarrow> nat \<Rightarrow> nat \<Rightarrow> real \<Rightarrow> bool \<Rightarrow> real list \<Rightarrow> real list \<Rightarrow> nat \<Rightarrow> nat list \<times> real list" where
  "topk_registers BLOCK_E BLOCK_K stride_row has_bias TOP_K num_experts scaling renorm logits_mem bias_mem row =
     (let logits = map (\<lambda>e. masked_load (e < num_experts) (row * stride_row + e) None (map Some logits_mem)) [0..<BLOCK_E];
          corr = map (\<lambda>e. masked_load (e < num_experts) e None (map Some bias_mem)) [0..<BLOCK_E];
          m = (case logits ! argmax logits of None \<Rightarrow> 0 | Some x \<Rightarrow> x);
          p = map (\<lambda>x. case x of None \<Rightarrow> 0 | Some y \<Rightarrow> exp (y - m)) logits;
          scores = map (\<lambda>q. q / sum_list p) p;
          vals = (if has_bias then map2 (\<lambda>s b. map_option (\<lambda>v. s + v) b) scores corr else map Some scores);
          (_, topk_ids, topk_weights) = fold (topk_round scores) [0..<TOP_K] (vals, replicate BLOCK_K 0, replicate BLOCK_K 0);
          w1 = (if renorm then map (\<lambda>w. w / sum_list topk_weights) topk_weights else topk_weights)
      in (topk_ids, map (\<lambda>w. w * scaling) w1))"

definition store_slots :: "nat \<Rightarrow> nat \<Rightarrow> nat \<Rightarrow> 'a list \<Rightarrow> (nat \<times> 'a) list" where
  "store_slots TOP_K stride_row row xs =
     masked_store (map (\<lambda>slot. (slot < TOP_K, row * stride_row + slot, xs ! slot)) [0..<length xs])"

definition moe_topk_softmax_triton ::
    "nat list \<Rightarrow> real list \<Rightarrow> nat list \<Rightarrow> real list list \<Rightarrow> real list option \<Rightarrow> nat \<Rightarrow> real \<Rightarrow> bool
       \<Rightarrow> (real list list \<times> nat list list) outcome" where
  "moe_topk_softmax_triton order weights_out ids_out logits corr topn scaling renorm =
     (let num_tokens = length logits; num_experts = cols_of logits
      in require (topn \<le> num_experts) (ValueError ''top_k cannot exceed num_experts'')
        (let regs = topk_registers (next_power_of_2 num_experts) (next_power_of_2 topn) num_experts (corr \<noteq> None) topn
                      num_experts scaling renorm (concat logits) (case corr of Some b \<Rightarrow> b | None \<Rightarrow> concat logits)
         in Inr (unflatten num_tokens topn (launch (\<lambda>row. store_slots topn topn row (snd (regs row))) order weights_out),
                 unflatten num_tokens topn (launch (\<lambda>row. store_slots topn topn row (fst (regs row))) order ids_out))))"

definition topk_reference_row ::
    "(real list \<Rightarrow> nat \<Rightarrow> nat list) \<Rightarrow> real list option \<Rightarrow> nat \<Rightarrow> real \<Rightarrow> bool \<Rightarrow> real list \<Rightarrow> real list \<times> nat list" where
  "topk_reference_row topk corr topn scaling renorm row =
     (let scores = softmax row;
          biased = (case corr of Some b \<Rightarrow> map2 (+) scores b | None \<Rightarrow> scores);
          ids = topk biased topn;
          weights = map (\<lambda>i. scores ! i) ids;
          w1 = (if renorm then map (\<lambda>w. w / sum_list weights) weights else weights)
      in (map (\<lambda>w. w * scaling) w1, ids))"

definition moe_topk_softmax_reference ::
    "(real list \<Rightarrow> nat \<Rightarrow> nat list) \<Rightarrow> real list list \<Rightarrow> real list option \<Rightarrow> nat \<Rightarrow> real \<Rightarrow> bool
       \<Rightarrow> real list list \<times> nat list list" where
  "moe_topk_softmax_reference topk logits corr topn scaling renorm =
     (map (\<lambda>row. fst (topk_reference_row topk corr topn scaling renorm row)) logits,
      map (\<lambda>row. snd (topk_reference_row topk corr topn scaling renorm row)) logits)"

text \<open>What \<open>torch.topk\<close> is documented to give here: the indices of the largest entries in descending order, the
  smallest index first among equal ones.\<close>

definition topk_ok :: "(real list \<Rightarrow> nat \<Rightarrow> nat list) \<Rightarrow> bool" where
  "topk_ok topk = (\<forall>xs k. k \<le> length xs \<longrightarrow> length (topk xs k) = k \<and>
     (\<forall>i < k. topk xs k ! i = argmax (blank (take i (topk xs k)) (map Some xs))))"

section \<open>The selection loop\<close>

lemma length_blank [simp]: "length (blank is xs) = length xs"
  by (induction "is" xs rule: blank.induct) auto

lemma nth_blank: "j < length xs \<Longrightarrow> blank is xs ! j = (if j \<in> set is then None else xs ! j)"
  by (induction "is" xs rule: blank.induct) auto

lemma blank_snoc: "blank (is @ [i]) xs = (blank is xs)[i := None]"
  by (induction "is" xs rule: blank.induct) auto

text \<open>Padding lanes never win as long as a real entry is left.\<close>

lemma argmax_padded:
  assumes "xs = take n ys" "n \<le> length ys" "0 < n"
    and "\<And>j. n \<le> j \<Longrightarrow> j < length ys \<Longrightarrow> ys ! j \<le> xs ! argmax xs"
  shows "argmax ys = argmax xs"
proof (rule argmax_eqI)
  have len: "length xs = n" using assms(1,2) by simp
  have a: "argmax xs < n" using argmax_less [of xs] len assms(3) by auto
  have at: "ys ! j = xs ! j" if "j < n" for j using that assms(1) by simp
  show "argmax xs < length ys" using a assms(2) by simp
  show "ys ! j \<le> ys ! argmax xs" if "j < length ys" for j
    using that at [OF a] at [of j] argmax_max [of j xs] assms(4) [of j] len by (cases "j < n") auto
  show "ys ! j < ys ! argmax xs" if "j < argmax xs" for j
    using argmax_first [OF that] at a that by simp
qed

lemma argmax_blank:
  assumes "length is < length xs"
  shows "\<exists>j < length xs. j \<notin> set is" "argmax (blank is (map Some xs)) < length xs"
    "argmax (blank is (map Some xs)) \<notin> set is"
proof -
  have "card (set is) < length xs" using assms by (metis card_length le_less_trans)
  then have "\<not> {..<length xs} \<subseteq> set is" using card_mono [of "set is" "{..<length xs}"] by fastforce
  then show ex: "\<exists>j < length xs. j \<notin> set is" by auto
  let ?b = "blank is (map Some xs)"
  have ne: "?b \<noteq> []" using assms by (metis length_blank length_map list.size(3) not_less_zero)
  show lt: "argmax ?b < length xs" using argmax_less [OF ne] by simp
  obtain j where j: "j < length xs" "j \<notin> set is" using ex by blast
  have "?b ! j \<le> ?b ! argmax ?b" using j by (intro argmax_max) simp
  then show "argmax ?b \<notin> set is" using j lt by (auto simp: nth_blank split: if_splits)
qed

lemma topk_loop:
  assumes ok: "topk_ok topk" and n: "k \<le> length xs" "length xs \<le> length vals"
    and vals: "take (length xs) vals = map Some xs"
    and pad: "\<And>j. length xs \<le> j \<Longrightarrow> j < length vals \<Longrightarrow> vals ! j = None \<or> (vals ! j = Some 0 \<and> (\<forall>x \<in> set xs. 0 < x))"
    and scores: "length scores = length vals" and bk: "k \<le> bk" and m: "m \<le> k"
  shows "\<exists>ids ws. fold (topk_round scores) [0..<m] (vals, replicate bk 0, replicate bk 0) = (blank (take m (topk xs k)) vals, ids, ws) \<and>
    ids = take m (topk xs k) @ replicate (bk - m) 0 \<and> ws = map (\<lambda>i. scores ! i) (take m (topk xs k)) @ replicate (bk - m) 0"
  using m
proof (induction m)
  case (Suc m)
  let ?t = "topk xs k"
  have t: "length ?t = k" "\<And>i. i < k \<Longrightarrow> ?t ! i = argmax (blank (take i ?t) (map Some xs))"
    using ok n(1) by (simp_all add: topk_ok_def)
  have lt: "m < k" using Suc.prems by simp
  let ?b = "blank (take m ?t) (map Some xs)" and ?v = "blank (take m ?t) vals"
  have free: "length (take m ?t) < length xs" using lt n(1) t(1) by simp
  note ab = argmax_blank [OF free]
  have top: "?b ! argmax ?b = Some (xs ! argmax ?b)" using ab by (simp add: nth_blank)
  have tk: "?b = take (length xs) ?v"
  proof (rule nth_equalityI)
    fix j assume "j < length ?b"
    then have j: "j < length xs" by simp
    have "vals ! j = Some (xs ! j)" using arg_cong [OF vals, of "\<lambda>v. v ! j"] j by simp
    then show "?b ! j = take (length xs) ?v ! j" using j n(2) by (simp add: nth_blank)
  qed (use n(2) in simp)
  have "argmax ?v = argmax ?b"
  proof (rule argmax_padded [OF tk])
    show "length xs \<le> length ?v" "0 < length xs" using n free by auto
    fix j assume j: "length xs \<le> j" "j < length ?v"
    have "xs ! argmax ?b \<in> set xs" using ab by simp
    then show "?v ! j \<le> ?b ! argmax ?b" using pad [of j] j top by (auto simp: nth_blank)
  qed
  then have idx: "argmax ?v = ?t ! m" using t(2) [OF lt] by simp
  have small: "?t ! m < length scores" using ab(2) t(2) [OF lt] n(2) scores by simp
  have w: "sum_list (map (\<lambda>e. if e = ?t ! m then scores ! e else 0) [0..<length scores]) = scores ! (?t ! m)"
    using small by (simp add: sum_list_distinct_conv_sum_set)
  obtain ids ws where IH: "fold (topk_round scores) [0..<m] (vals, replicate bk 0, replicate bk 0) = (?v, ids, ws)"
    "ids = take m ?t @ replicate (bk - m) 0" "ws = map (\<lambda>i. scores ! i) (take m ?t) @ replicate (bk - m) 0"
    using Suc by auto
  have rep: "(replicate (bk - m) z)[0 := y] = y # replicate (bk - Suc m) z" for y z :: 'z
    using lt bk by (cases "bk - m") (auto simp: Suc_diff_Suc)
  have upd: "(take m xs' @ replicate (bk - m) z)[m := y] = take m xs' @ y # replicate (bk - Suc m) z"
    if "length xs' = k" for xs' and z y :: 'z
    using that lt rep by (simp add: list_update_append)
  have suc: "take (Suc m) ?t = take m ?t @ [?t ! m]" using lt t(1) by (simp add: take_Suc_conv_app_nth)
  have "fold (topk_round scores) [0..<Suc m] (vals, replicate bk 0, replicate bk 0) = topk_round scores m (?v, ids, ws)"
    using IH(1) by simp
  also have "\<dots> = (?v[?t ! m := None], ids[m := ?t ! m], ws[m := scores ! (?t ! m)])"
    by (simp add: topk_round_def Let_def idx w)
  finally show ?case
    unfolding IH(2,3) suc blank_snoc using upd [of ?t 0 "?t ! m"] upd [of "map (\<lambda>i. scores ! i) ?t" 0 "scores ! (?t ! m)"] t(1)
    by (simp add: take_map)
qed simp

lemma topk_in_range:
  assumes "topk_ok topk" "k \<le> length xs" "i \<in> set (topk xs k)"
  shows "i < length xs"
proof -
  have t: "length (topk xs k) = k" "\<And>j. j < k \<Longrightarrow> topk xs k ! j = argmax (blank (take j (topk xs k)) (map Some xs))"
    using assms(1,2) by (simp_all add: topk_ok_def)
  obtain j where j: "j < k" "i = topk xs k ! j" using assms(3) t(1) by (auto simp: in_set_conv_nth)
  have "length (take j (topk xs k)) < length xs" using j(1) t(1) assms(2) by simp
  then show ?thesis unfolding j(2) t(2) [OF j(1)] by (rule argmax_blank(2))
qed

section \<open>One program\<close>

lemma padded_load:
  assumes "matrix n E rows" "r < n" "E \<le> be"
  shows "map (\<lambda>e. masked_load (e < E) (r * E + e) None (map Some (concat rows))) [0..<be] = map Some (rows ! r) @ replicate (be - E) None"
proof (rule nth_equalityI)
  show "length (map (\<lambda>e. masked_load (e < E) (r * E + e) None (map Some (concat rows))) [0..<be]) = length (map Some (rows ! r) @ replicate (be - E) None)"
    using assms matrix_row [OF assms(1,2)] by simp
  fix e assume "e < length (map (\<lambda>e. masked_load (e < E) (r * E + e) None (map Some (concat rows))) [0..<be])"
  then have "e < be" by simp
  moreover have "e < E \<Longrightarrow> r * E + e < length (concat rows)"
    using flat_index_less [OF assms(2)] length_flat [OF assms(1)] by simp
  ultimately show "map (\<lambda>e. masked_load (e < E) (r * E + e) None (map Some (concat rows))) [0..<be] ! e = (map Some (rows ! r) @ replicate (be - E) None) ! e"
    using nth_flat [OF assms(1,2)] matrix_row [OF assms(1,2)] by (auto simp: masked_load_def nth_append)
qed

lemma padded_load_vec:
  assumes "length b = E" "E \<le> be"
  shows "map (\<lambda>e. masked_load (e < E) e None (map Some b)) [0..<be] = map Some b @ replicate (be - E) None"
  using assms by (intro nth_equalityI) (auto simp: masked_load_def nth_append)

lemma stable_softmax:
  "row \<noteq> [] \<Longrightarrow> map (\<lambda>q. q / sum_list (map (\<lambda>x. exp (x - m)) row)) (map (\<lambda>x. exp (x - m)) row) = softmax row"
proof -
  assume ne: "row \<noteq> []"
  have sum: "sum_list (map (\<lambda>x. exp (x - m)) row) = sum_list (map exp row) / exp m"
    by (induction row) (simp_all add: exp_diff add_divide_distrib)
  show ?thesis
    unfolding sum by (simp add: softmax_def Let_def exp_diff)
qed

lemma softmax_pos: "x \<in> set (softmax row) \<Longrightarrow> 0 < x"
proof -
  assume x: "x \<in> set (softmax row)"
  then have "row \<noteq> []" by (auto simp: softmax_def Let_def)
  then have "0 < sum_list (map exp row)"
  proof (induction row)
    case (Cons a row)
    have "0 \<le> sum_list (map exp row)" by (induction row) (auto intro: add_nonneg_nonneg)
    then show ?case by (simp add: add_pos_nonneg)
  qed simp
  with x show "0 < x" by (auto simp: softmax_def Let_def)
qed

lemma length_softmax [simp]: "length (softmax row) = length row"
  by (simp add: softmax_def Let_def)

lemma topk_registers_reference:
  assumes ok: "topk_ok topk" and L: "matrix n E rows" "r < n" and E: "E \<le> be" "0 < E" and k: "k \<le> E" "k \<le> bk"
    and corr: "case corr of Some b \<Rightarrow> length b = E \<and> mem = b | None \<Rightarrow> True"
  shows "\<exists>ids ws. topk_registers be bk E (corr \<noteq> None) k E scaling renorm (concat rows) mem r = (ids, ws) \<and>
    length ids = bk \<and> length ws = bk \<and>
    take k ws = fst (topk_reference_row topk corr k scaling renorm (rows ! r)) \<and>
    take k ids = snd (topk_reference_row topk corr k scaling renorm (rows ! r))"
proof -
  let ?row = "rows ! r" and ?pad = "be - E"
  have row: "length ?row = E" "?row \<noteq> []" using matrix_row [OF L] E(2) by auto
  let ?L = "map Some ?row @ replicate ?pad None"
  define m where "m = (case ?L ! argmax ?L of None \<Rightarrow> 0 | Some x \<Rightarrow> x)"
  let ?p = "map (\<lambda>x. case x of None \<Rightarrow> 0 | Some y \<Rightarrow> exp (y - m)) ?L"
  have p: "?p = map (\<lambda>x. exp (x - m)) ?row @ replicate ?pad 0" by simp
  have sum: "sum_list ?p = sum_list (map (\<lambda>x. exp (x - m)) ?row)" unfolding p by (simp add: sum_list_replicate)
  define scores where "scores = map (\<lambda>q. q / sum_list ?p) ?p"
  have sc: "scores = softmax ?row @ replicate ?pad 0"
    unfolding scores_def sum unfolding p unfolding map_append stable_softmax [OF row(2)] by simp
  define biased where "biased = (case corr of Some b \<Rightarrow> map2 (+) (softmax ?row) b | None \<Rightarrow> softmax ?row)"
  define vals where "vals = (if corr \<noteq> None then map2 (\<lambda>s b. map_option (\<lambda>v. s + v) b) scores (map (\<lambda>e. masked_load (e < E) e None (map Some mem)) [0..<be])
    else map Some scores)"
  have bl: "length biased = E" using row corr by (auto simp: biased_def split: option.splits)
  have vals: "vals = map Some biased @ replicate ?pad (if corr = None then Some 0 else None)"
  proof (cases corr)
    case None
    then show ?thesis by (simp add: vals_def biased_def sc)
  next
    case (Some b)
    then have b: "length b = E" "mem = b" using corr by simp_all
    have "map2 (\<lambda>s v. map_option (\<lambda>v. s + v) v) (softmax ?row) (map Some b) = map Some (map2 (+) (softmax ?row) b)"
      using b row by (intro nth_equalityI) auto
    then show ?thesis
      using Some b row by (simp add: vals_def biased_def sc padded_load_vec [OF b(1) E(1)] zip_append zip_replicate)
  qed
  have loop: "\<exists>ids ws. fold (topk_round scores) [0..<k] (vals, replicate bk 0, replicate bk 0) = (blank (take k (topk biased k)) vals, ids, ws) \<and>
    ids = take k (topk biased k) @ replicate (bk - k) 0 \<and> ws = map (\<lambda>i. scores ! i) (take k (topk biased k)) @ replicate (bk - k) 0"
  proof (rule topk_loop [OF ok])
    show "k \<le> length biased" "length biased \<le> length vals" "take (length biased) vals = map Some biased"
      using bl k by (simp_all add: vals)
    show "length scores = length vals" using row bl by (simp add: sc vals)
    fix j assume j: "length biased \<le> j" "j < length vals"
    then have "vals ! j = (if corr = None then Some 0 else None)" by (simp add: vals nth_append)
    moreover have "corr = None \<Longrightarrow> \<forall>x \<in> set biased. 0 < x" using softmax_pos by (simp add: biased_def)
    ultimately show "vals ! j = None \<or> vals ! j = Some 0 \<and> (\<forall>x \<in> set biased. 0 < x)" by auto
  qed (use k in simp_all)
  let ?ids = "topk biased k"
  have ids: "length ?ids = k" using ok bl k by (simp add: topk_ok_def)
  have gather: "map (\<lambda>i. scores ! i) ?ids = map (\<lambda>i. softmax ?row ! i) ?ids"
    using topk_in_range [OF ok, of k biased] bl k row by (auto simp: sc nth_append)
  let ?w = "map (\<lambda>i. softmax ?row ! i) ?ids"
  have fin: "fold (topk_round scores) [0..<k] (vals, replicate bk 0, replicate bk 0)
      = (blank ?ids vals, ?ids @ replicate (bk - k) 0, ?w @ replicate (bk - k) 0)"
    using loop ids gather by simp
  have regs: "topk_registers be bk E (corr \<noteq> None) k E scaling renorm (concat rows) mem r
      = (?ids @ replicate (bk - k) 0, map (\<lambda>w. w * scaling)
          (if renorm then map (\<lambda>w. w / sum_list (?w @ replicate (bk - k) 0)) (?w @ replicate (bk - k) 0) else ?w @ replicate (bk - k) 0))"
    unfolding topk_registers_def Let_def padded_load [OF L E(1)] m_def [symmetric] scores_def [symmetric] vals_def [symmetric] fin
    by simp
  show ?thesis
    unfolding regs using ids k(2) row
    by (auto simp: topk_reference_row_def Let_def biased_def [symmetric] sum_list_replicate)
qed

section \<open>Theorems\<close>

lemma store_slots_writes:
  "(off, v) \<in> set (store_slots k k row xs) \<longleftrightarrow> (\<exists>slot < min k (length xs). off = row * k + slot \<and> v = xs ! slot)"
  by (auto simp: store_slots_def set_masked_store image_iff)

lemma launch_slots:
  assumes "distinct order" "set order = {..<n}" "length out = n * k" "\<And>r. r < n \<Longrightarrow> k \<le> length (regs r)"
  shows "unflatten n k (launch (\<lambda>row. store_slots k k row (regs row)) order out) = map (\<lambda>r. take k (regs r)) [0..<n]"
proof (rule matrix_eqI [OF matrix_unflatten])
  show "matrix n k (map (\<lambda>r. take k (regs r)) [0..<n])" using assms(4) by (auto simp: matrix_def)
  fix r j assume rj: "r < n" "j < k"
  have "launch (\<lambda>row. store_slots k k row (regs row)) order out ! (r * k + j) = regs r ! j"
  proof (rule launch_value)
    show "r * k + j < length out" using flat_index_less [OF rj] assms(3) by simp
    show "r \<in> set order" using rj assms(2) by simp
    show "(r * k + j, regs r ! j) \<in> set (store_slots k k r (regs r))"
      using rj assms(4) [OF rj(1)] by (auto simp: store_slots_writes)
    fix q u assume "q \<in> set order" "(r * k + j, u) \<in> set (store_slots k k q (regs q))"
    then obtain slot where s: "slot < k" "r * k + j = q * k + slot" "u = regs q ! slot" by (auto simp: store_slots_writes)
    then show "u = regs r ! j" using flat_index_inj [OF rj(2) s(1,2)] by simp
  qed
  then show "unflatten n k (launch (\<lambda>row. store_slots k k row (regs row)) order out) ! r ! j = map (\<lambda>r. take k (regs r)) [0..<n] ! r ! j"
    using rj by (simp add: nth_unflatten)
qed


text \<open>The selection by repeated maxima satisfies the contract of \<open>torch.topk\<close>.\<close>

fun select_top :: "real option list \<Rightarrow> nat \<Rightarrow> nat list" where
  "select_top vals 0 = []"
| "select_top vals (Suc k) = argmax vals # select_top (vals[argmax vals := None]) k"

lemma select_top_spec:
  "length (select_top vals k) = k \<and> (\<forall>i < k. select_top vals k ! i = argmax (blank (take i (select_top vals k)) vals))"
  by (induction vals k rule: select_top.induct) (auto simp: nth_Cons' less_Suc_eq_0_disj take_Cons')

lemma select_top_ok: "topk_ok (\<lambda>xs k. select_top (map Some xs) k)"
  using select_top_spec by (simp add: topk_ok_def)


text \<open>C39: The SwiGLU kernel computes its reference for every block size the autotuner may choose, every order of
  its programs and whatever its output buffer held.\<close>

theorem silu_matches_reference:
  assumes "matrix k (2 * hidden) gate_up" "grid_order k (ceil_div hidden BLOCK) order" "0 < BLOCK" "length out = k * hidden"
  shows "silu_and_mul_triton BLOCK order out gate_up = silu_and_mul_reference gate_up"
  by (rule silu_triton_reference [OF assms])

theorem silu_matches_reference_witness:
  "silu_and_mul_triton 2 [(0, 1), (0, 0)] [0, 0, 0] [[1, 2, 3, 4, 5, 6]] = silu_and_mul_reference [[1, 2, 3, 4, 5, 6]]"
  by (rule silu_matches_reference [of 1 3]) (auto simp: matrix_def grid_order_def ceil_div_def)

end
