(* ===== verification/MoE.thy ===== *)
theory MoE
  imports MoEAlign TritonOps
begin

text \<open>
  The mixture-of-experts MLP of \<open>executors/torch/triton_moe.py\<close>: the grouped GEMM kernel as a family of
  programs over flat memory with explicit strides and masks, the combination of the expert outputs, the
  fused pipeline and the per-expert reference loop. Arithmetic is exact, so the rounding of intermediates
  to the input type (\<open>quantize_intermediates\<close>) is the identity.
\<close>

section \<open>The grouped GEMM kernel\<close>

text \<open>\<open>acc = tl.dot(a, tl.trans(b), acc)\<close>\<close>

definition tile_dot :: "real list list \<Rightarrow> real list list \<Rightarrow> real list list \<Rightarrow> real list list" where
  "tile_dot a b acc = map2 (\<lambda>arow accrow. map2 (\<lambda>brow v. v + dot arow brow) b accrow) a acc"

text \<open>The compile-time constants and the scalar arguments of a launch.\<close>

record gemm_args =
  gather_a :: bool
  apply_weight :: bool
  block_m :: nat
  block_n :: nat
  block_h :: nat
  k_pairs :: nat
  h_dim :: nat
  n_dim :: nat
  stride_a_row :: nat
  stride_b_expert :: nat
  stride_b_row :: nat
  stride_c_row :: nat

definition moe_grouped_gemm_program ::
    "gemm_args \<Rightarrow> real list \<Rightarrow> real list \<Rightarrow> int list \<Rightarrow> nat list \<Rightarrow> real list \<Rightarrow> nat \<Rightarrow> nat \<times> nat \<Rightarrow> (nat \<times> real) list" where
  "moe_grouped_gemm_program ga a b sorted_ids expert_ids weights num_tokens_post_padded pid =
     (let (pid_m, pid_n) = pid; BM = block_m ga; BN = block_n ga; BH = block_h ga;
          sgrow = BM * pid_m
      in if num_tokens_post_padded \<le> sgrow then []
         else
           (let expert = expert_ids ! pid_m;
                grows = map (\<lambda>i. sgrow + i) [0..<BM];
                pair_ids = map (\<lambda>g. sorted_ids ! g) grows;
                row_masks = map (\<lambda>p. p \<noteq> - 1) pair_ids;
                a_rows = (if gather_a ga
                          then map (\<lambda>p. if p \<noteq> - 1 then nat p div k_pairs ga else 0) pair_ids
                          else grows);
                n = map (\<lambda>j. pid_n * BN + j) [0..<BN];
                acc = fold (\<lambda>h acc.
                  let hs = map (\<lambda>i. h + i) [0..<BH];
                      a_tile = map (\<lambda>i. map (\<lambda>x. masked_load (row_masks ! i \<and> x < h_dim ga) (a_rows ! i * stride_a_row ga + x) 0 a) hs) [0..<BM];
                      b_tile = map (\<lambda>c. map (\<lambda>x. masked_load (c < n_dim ga \<and> x < h_dim ga)
                                 (expert * stride_b_expert ga + c * stride_b_row ga + x) 0 b) hs) n
                  in tile_dot a_tile b_tile acc) (map (\<lambda>k. k * BH) [0..<ceil_div (h_dim ga) BH]) (replicate BM (replicate BN 0));
                res = (if apply_weight ga
                       then map (\<lambda>i. let w = masked_load (row_masks ! i) (nat (pair_ids ! i)) 0 weights
                                     in map (\<lambda>v. v * w) (acc ! i)) [0..<BM]
                       else acc)
            in masked_store (concat (map (\<lambda>i. map (\<lambda>j.
                 (row_masks ! i \<and> n ! j < n_dim ga, grows ! i * stride_c_row ga + n ! j, res ! i ! j)) [0..<BN]) [0..<BM]))))"

section \<open>Combination, reference, pipeline\<close>

text \<open>Boolean indexing and \<open>index_add_\<close>.\<close>

definition mask_select :: "bool list \<Rightarrow> 'a list \<Rightarrow> 'a list" where
  "mask_select msk xs = map snd (filter fst (zip msk xs))"

definition index_add :: "nat list \<Rightarrow> real list list \<Rightarrow> real list list \<Rightarrow> real list list" where
  "index_add idx src out = fold (\<lambda>(i, row) d. d[i := map2 (+) (d ! i) row]) (zip idx src) out"

definition moe_combine :: "real list list \<Rightarrow> int list \<Rightarrow> real list list \<Rightarrow> real list list" where
  "moe_combine c2 sorted_ids topk_weights =
     (let valid = map (\<lambda>p. 0 \<le> p) sorted_ids;
          pairs = mask_select valid sorted_ids;
          num_tokens = length topk_weights; kp = cols_of topk_weights;
          toks = map (\<lambda>p. nat p div kp) pairs
      in index_add toks (mask_select valid (take (length sorted_ids) c2)) (replicate num_tokens (replicate (cols_of c2) 0)))"

definition moe_expert_mlp_reference ::
    "real list list \<Rightarrow> real list list \<Rightarrow> int list list \<Rightarrow> real list list list \<Rightarrow> real list list list \<Rightarrow> real list list" where
  "moe_expert_mlp_reference hidden topk_weights topk_ids w13 w2 =
     (let num_tokens = length hidden; hdim = cols_of hidden; kp = cols_of topk_ids;
          flat_ids = concat topk_ids; flat_w = concat topk_weights;
          toks = concat (map (replicate kp) [0..<num_tokens])
      in fold (\<lambda>expert out.
           let sel = map (\<lambda>x. x = int expert) flat_ids
           in if \<not> list_ex id sel then out
              else
                (let x = map (\<lambda>t. hidden ! t) (mask_select sel toks);
                     h = map (\<lambda>row. map (\<lambda>w. dot row w) (w13 ! expert)) x;
                     act = silu_and_mul_reference h;
                     y = map (\<lambda>row. map (\<lambda>w. dot row w) (w2 ! expert)) act
                 in index_add (mask_select sel toks) (map2 (\<lambda>row w. map (\<lambda>v. v * w) row) y (mask_select sel flat_w)) out))
         [0..<length w13] (replicate num_tokens (replicate hdim 0)))"

text \<open>The buffers that were allocated but not written, the block sizes and the execution orders of the
  three launches.\<close>

record moe_launch =
  ml_block_m :: nat
  ml_block_n :: nat
  ml_block_h :: nat
  ml_silu_block :: nat
  ml_order1 :: "(nat \<times> nat) list"
  ml_silu_order :: "(nat \<times> nat) list"
  ml_order2 :: "(nat \<times> nat) list"
  ml_c1 :: "real list"
  ml_act :: "real list"
  ml_c2 :: "real list"

text \<open>\<open>stride(0)\<close> and \<open>stride(1)\<close> of a contiguous 3-D tensor.\<close>

definition stride0 :: "real list list list \<Rightarrow> nat" where
  "stride0 w = cols_of w * cols_of (concat w)"

definition stride1 :: "real list list list \<Rightarrow> nat" where
  "stride1 w = cols_of (concat w)"

definition gemm1_args :: "moe_launch \<Rightarrow> nat \<Rightarrow> nat \<Rightarrow> real list list list \<Rightarrow> gemm_args" where
  "gemm1_args ml kp hdim w13 = \<lparr> gather_a = True, apply_weight = False, block_m = ml_block_m ml, block_n = ml_block_n ml,
     block_h = ml_block_h ml, k_pairs = kp, h_dim = hdim, n_dim = cols_of w13, stride_a_row = hdim,
     stride_b_expert = stride0 w13, stride_b_row = stride1 w13, stride_c_row = cols_of w13 \<rparr>"

definition gemm2_args :: "moe_launch \<Rightarrow> nat \<Rightarrow> nat \<Rightarrow> nat \<Rightarrow> real list list list \<Rightarrow> gemm_args" where
  "gemm2_args ml kp act_cols hdim w2 = \<lparr> gather_a = False, apply_weight = True, block_m = ml_block_m ml, block_n = ml_block_n ml,
     block_h = ml_block_h ml, k_pairs = kp, h_dim = act_cols, n_dim = hdim, stride_a_row = act_cols,
     stride_b_expert = stride0 w2, stride_b_row = stride1 w2, stride_c_row = hdim \<rparr>"

definition moe_grid_m :: "moe_launch \<Rightarrow> nat \<Rightarrow> nat \<Rightarrow> nat \<Rightarrow> nat" where
  "moe_grid_m ml num_tokens kp num_experts = (num_tokens * kp + ml_block_m ml - 1) div ml_block_m ml + num_experts"

definition moe_expert_mlp_triton ::
    "moe_launch \<Rightarrow> real list list \<Rightarrow> real list list \<Rightarrow> int list list \<Rightarrow> real list list list \<Rightarrow> real list list list
       \<Rightarrow> real list list outcome" where
  "moe_expert_mlp_triton ml hidden topk_weights topk_ids w13 w2 =
     (let num_tokens = length hidden; hdim = cols_of hidden; kp = cols_of topk_ids; num_experts = length w13; n2 = cols_of w13
      in obind (moe_align_block_size topk_ids (ml_block_m ml) num_experts) (\<lambda>(sorted_ids, expert_ids, post_padded, total_padded).
           let rows = moe_grid_m ml num_tokens kp num_experts * ml_block_m ml;
               c1 = unflatten rows n2 (launch (moe_grouped_gemm_program (gemm1_args ml kp hdim w13) (concat hidden)
                      (concat (map concat w13)) sorted_ids expert_ids (concat topk_weights) post_padded) (ml_order1 ml) (ml_c1 ml));
               act = silu_and_mul_triton (ml_silu_block ml) (ml_silu_order ml) (ml_act ml) c1;
               c2 = unflatten rows hdim (launch (moe_grouped_gemm_program (gemm2_args ml kp (cols_of act) hdim w2) (concat act)
                      (concat (map concat w2)) sorted_ids expert_ids (concat topk_weights) post_padded) (ml_order2 ml) (ml_c2 ml))
           in Inr (moe_combine c2 sorted_ids topk_weights)))"

section \<open>The kernel's values\<close>

lemma tile_dot_matrix:
  "length a = m \<Longrightarrow> length b = n \<Longrightarrow> matrix m n acc \<Longrightarrow> matrix m n (tile_dot a b acc)"
  by (auto simp: matrix_def tile_dot_def in_set_zip)

lemma nth_tile_dot:
  "length a = m \<Longrightarrow> length b = n \<Longrightarrow> matrix m n acc \<Longrightarrow> i < m \<Longrightarrow> j < n \<Longrightarrow>
     tile_dot a b acc ! i ! j = acc ! i ! j + dot (a ! i) (b ! j)"
  by (simp add: matrix_def tile_dot_def)

lemma tile_fold:
  assumes "\<And>h. length (A h) = m" "\<And>h. length (B h) = n" "matrix m n acc" "i < m" "j < n"
  shows "fold (\<lambda>h. tile_dot (A h) (B h)) hs acc ! i ! j = acc ! i ! j + sum_list (map (\<lambda>h. dot (A h ! i) (B h ! j)) hs) \<and>
    matrix m n (fold (\<lambda>h. tile_dot (A h) (B h)) hs acc)"
  using assms(3)
proof (induction hs arbitrary: acc)
  case (Cons h hs)
  have m: "matrix m n (tile_dot (A h) (B h) acc)" using assms(1,2) Cons.prems by (rule tile_dot_matrix)
  show ?case
    using Cons.IH [OF m] nth_tile_dot [OF assms(1,2) Cons.prems assms(4,5)] by simp
qed simp

lemma shift_upt: "map (\<lambda>i. c + i) [0..<b] = [c..<c + b]"
  using map_add_upt [of c b] by (simp add: add.commute)

lemma blocks_upt: "concat (map (\<lambda>k. map (\<lambda>i. k * b + i) [0..<b]) [0..<m]) = [0..<m * b]"
proof (induction m)
  case (Suc m)
  have "[0..<m * b + b] = [0..<m * b] @ [m * b..<m * b + b]" by (rule upt_add_eq_append) simp
  then show ?case using Suc shift_upt [of "m * b" b] by (simp add: add.commute [of b])
qed simp

lemma sum_list_concat: "sum_list (concat xss) = sum_list (map sum_list xss)"
  by (induction xss) simp_all

lemma dot_map: "dot (map f xs) (map g xs) = sum_list (map (\<lambda>x. f x * g x) xs)"
  unfolding dot_def by (induction xs) simp_all

lemma sum_mask_upt: "h \<le> n \<Longrightarrow> sum_list (map (\<lambda>x. if x < h then f x else (0 :: real)) [0..<n]) = sum_list (map f [0..<h])"
proof (induction n)
  case (Suc n)
  show ?case
  proof (cases "h = Suc n")
    case True
    have "map (\<lambda>x. if x < h then f x else 0) [0..<h] = map f [0..<h]" by (intro map_cong) auto
    then show ?thesis using True by (simp only:)
  qed (use Suc in simp)
qed simp

text \<open>The blocked, masked reduction is the whole inner product.\<close>

lemma blocked_dot:
  assumes "0 < b"
  shows "sum_list (map (\<lambda>h. dot (map (\<lambda>x. if x < H then f x else 0) (map (\<lambda>i. h + i) [0..<b]))
           (map (\<lambda>x. if x < H then g x else 0) (map (\<lambda>i. h + i) [0..<b]))) (map (\<lambda>k. k * b) [0..<ceil_div H b]))
    = sum_list (map (\<lambda>x. f x * g x) [0..<H])"
proof -
  let ?F = "\<lambda>x. if x < H then f x * g x else 0"
  have "sum_list (map (\<lambda>h. dot (map (\<lambda>x. if x < H then f x else 0) (map (\<lambda>i. h + i) [0..<b]))
           (map (\<lambda>x. if x < H then g x else 0) (map (\<lambda>i. h + i) [0..<b]))) (map (\<lambda>k. k * b) [0..<ceil_div H b]))
      = sum_list (map (\<lambda>k. sum_list (map ?F (map (\<lambda>i. k * b + i) [0..<b]))) [0..<ceil_div H b])"
    by (simp add: dot_map comp_def if_distrib cong: if_cong)
  also have "\<dots> = sum_list (map ?F (concat (map (\<lambda>k. map (\<lambda>i. k * b + i) [0..<b]) [0..<ceil_div H b])))"
    by (simp only: map_concat sum_list_concat map_map comp_def)
  also have "\<dots> = sum_list (map (\<lambda>x. f x * g x) [0..<H])"
    unfolding blocks_upt using ceil_div_le_iff [OF assms, of H "ceil_div H b"] by (intro sum_mask_upt) simp
  finally show ?thesis .
qed

text \<open>The value of one lane: the inner product of the row of A and the row of the expert's weight.\<close>

definition lane_value :: "gemm_args \<Rightarrow> real list \<Rightarrow> real list \<Rightarrow> int list \<Rightarrow> nat list \<Rightarrow> real list \<Rightarrow> nat \<Rightarrow> nat \<Rightarrow> real" where
  "lane_value ga a b sorted_ids expert_ids weights g c =
     (let p = nat (sorted_ids ! g); arow = (if gather_a ga then p div k_pairs ga else g);
          v = sum_list (map (\<lambda>x. a ! (arow * stride_a_row ga + x) *
                b ! (expert_ids ! (g div block_m ga) * stride_b_expert ga + c * stride_b_row ga + x)) [0..<h_dim ga])
      in if apply_weight ga then v * weights ! p else v)"

lemma set_tile:
  "(True, off, v) \<in> set (concat (map (\<lambda>i. map (\<lambda>j. (P i j, f i j, r i j)) [0..<n]) [0..<m])) \<longleftrightarrow>
     (\<exists>i < m. \<exists>j < n. P i j \<and> off = f i j \<and> v = r i j)"
  by (auto simp: image_iff) (metis atLeastLessThan_iff imageI le0)+

lemma gemm_set:
  assumes bh: "0 < block_h ga"
  shows "set (moe_grouped_gemm_program ga a b sorted_ids expert_ids weights post (pid_m, pid_n)) =
    {(g * stride_c_row ga + c, lane_value ga a b sorted_ids expert_ids weights g c) | g c.
       block_m ga * pid_m < post \<and> (\<exists>i < block_m ga. g = block_m ga * pid_m + i) \<and> (\<exists>j < block_n ga. c = pid_n * block_n ga + j) \<and>
       sorted_ids ! g \<noteq> - 1 \<and> c < n_dim ga}"
proof (cases "post \<le> block_m ga * pid_m")
  case True
  then show ?thesis by (auto simp: moe_grouped_gemm_program_def)
next
  case False
  let ?BM = "block_m ga" and ?BN = "block_n ga" and ?BH = "block_h ga"
  let ?e = "expert_ids ! pid_m" and ?s0 = "?BM * pid_m"
  define grows where "grows = map (\<lambda>i. ?s0 + i) [0..<?BM]"
  define pair_ids where "pair_ids = map (\<lambda>g. sorted_ids ! g) grows"
  define row_masks where "row_masks = map (\<lambda>p. p \<noteq> - 1) pair_ids"
  define a_rows where "a_rows = (if gather_a ga then map (\<lambda>p. if p \<noteq> - 1 then nat p div k_pairs ga else 0) pair_ids else grows)"
  define n where "n = map (\<lambda>j. pid_n * ?BN + j) [0..<?BN]"
  define At where "At h = map (\<lambda>i. map (\<lambda>x. masked_load (row_masks ! i \<and> x < h_dim ga) (a_rows ! i * stride_a_row ga + x) 0 a)
      (map (\<lambda>i. h + i) [0..<?BH])) [0..<?BM]" for h
  define Bt where "Bt h = map (\<lambda>c. map (\<lambda>x. masked_load (c < n_dim ga \<and> x < h_dim ga) (?e * stride_b_expert ga + c * stride_b_row ga + x) 0 b)
      (map (\<lambda>i. h + i) [0..<?BH])) n" for h
  define acc where "acc = fold (\<lambda>h. tile_dot (At h) (Bt h)) (map (\<lambda>k. k * ?BH) [0..<ceil_div (h_dim ga) ?BH]) (replicate ?BM (replicate ?BN 0))"
  define res where "res = (if apply_weight ga then map (\<lambda>i. let w = masked_load (row_masks ! i) (nat (pair_ids ! i)) 0 weights
      in map (\<lambda>v. v * w) (acc ! i)) [0..<?BM] else acc)"
  have program: "moe_grouped_gemm_program ga a b sorted_ids expert_ids weights post (pid_m, pid_n) =
      masked_store (concat (map (\<lambda>i. map (\<lambda>j. (row_masks ! i \<and> n ! j < n_dim ga, grows ! i * stride_c_row ga + n ! j, res ! i ! j)) [0..<?BN]) [0..<?BM]))"
    using False unfolding moe_grouped_gemm_program_def Let_def prod.case if_not_P [OF False] by (simp only: grows_def pair_ids_def row_masks_def a_rows_def n_def At_def Bt_def acc_def res_def Let_def)
  have lane: "res ! i ! j = lane_value ga a b sorted_ids expert_ids weights (?s0 + i) (pid_n * ?BN + j)"
    if "i < ?BM" "j < ?BN" "sorted_ids ! (?s0 + i) \<noteq> - 1" "pid_n * ?BN + j < n_dim ga" for i j
  proof -
    let ?c = "pid_n * ?BN + j"
    have at: "grows ! i = ?s0 + i" "pair_ids ! i = sorted_ids ! (?s0 + i)" "row_masks ! i" "n ! j = ?c" "(?s0 + i) div ?BM = pid_m"
      using that by (simp_all add: grows_def pair_ids_def row_masks_def n_def)
    define arow where "arow = (if gather_a ga then nat (sorted_ids ! (?s0 + i)) div k_pairs ga else ?s0 + i)"
    have ar: "a_rows ! i = arow" using that at by (simp add: a_rows_def arow_def pair_ids_def grows_def)
    have m0: "matrix ?BM ?BN (replicate ?BM (replicate ?BN (0 :: real)))" by (simp add: matrix_def)
    have "acc ! i ! j = sum_list (map (\<lambda>h. dot (At h ! i) (Bt h ! j)) (map (\<lambda>k. k * ?BH) [0..<ceil_div (h_dim ga) ?BH])) \<and> matrix ?BM ?BN acc"
      using tile_fold [of At ?BM Bt ?BN, OF _ _ m0 that(1,2)] that(1,2) by (simp add: acc_def At_def Bt_def n_def)
    moreover have "At h ! i = map (\<lambda>x. if x < h_dim ga then a ! (arow * stride_a_row ga + x) else 0) (map (\<lambda>i. h + i) [0..<?BH])"
      "Bt h ! j = map (\<lambda>x. if x < h_dim ga then b ! (?e * stride_b_expert ga + ?c * stride_b_row ga + x) else 0) (map (\<lambda>i. h + i) [0..<?BH])" for h
      using that at ar by (simp_all add: At_def Bt_def masked_load_def n_def)
    ultimately have eq: "acc ! i ! j = sum_list (map (\<lambda>x. a ! (arow * stride_a_row ga + x) *
        b ! (?e * stride_b_expert ga + ?c * stride_b_row ga + x)) [0..<h_dim ga]) \<and> matrix ?BM ?BN acc"
      by (simp only: blocked_dot [OF bh])
    moreover have "length (acc ! i) = ?BN" using eq that(1) matrix_row by blast
    ultimately show ?thesis
      using that at by (simp add: res_def lane_value_def Let_def arow_def masked_load_def)
  qed
  have simple: "row_masks ! i = (sorted_ids ! (?s0 + i) \<noteq> - 1)" "grows ! i = ?s0 + i" if "i < ?BM" for i
    using that by (simp_all add: grows_def pair_ids_def row_masks_def)
  have nj: "n ! j = pid_n * ?BN + j" if "j < ?BN" for j using that by (simp add: n_def)
  have mem: "(off, v) \<in> set (moe_grouped_gemm_program ga a b sorted_ids expert_ids weights post (pid_m, pid_n)) \<longleftrightarrow>
    (\<exists>i < ?BM. \<exists>j < ?BN. sorted_ids ! (?s0 + i) \<noteq> - 1 \<and> pid_n * ?BN + j < n_dim ga \<and>
      off = (?s0 + i) * stride_c_row ga + (pid_n * ?BN + j) \<and> v = lane_value ga a b sorted_ids expert_ids weights (?s0 + i) (pid_n * ?BN + j))" for off v
  proof -
    have "(off, v) \<in> set (moe_grouped_gemm_program ga a b sorted_ids expert_ids weights post (pid_m, pid_n)) \<longleftrightarrow>
      (\<exists>i < ?BM. \<exists>j < ?BN. row_masks ! i \<and> n ! j < n_dim ga \<and> off = grows ! i * stride_c_row ga + n ! j \<and> v = res ! i ! j)"
      unfolding program set_masked_store mem_Collect_eq prod.case set_tile conj_assoc ..
    then show ?thesis using simple nj lane by (smt (verit))
  qed
  show ?thesis using mem False by (auto simp: set_eq_iff)
qed

lemma gemm_launch:
  assumes "grid_order gm (ceil_div (n_dim ga) (block_n ga)) order" "0 < block_m ga" "0 < block_n ga" "0 < block_h ga"
    and "stride_c_row ga = n_dim ga" "length mem = gm * block_m ga * n_dim ga" "post \<le> gm * block_m ga"
    and "g < post" "sorted_ids ! g \<noteq> - 1" "c < n_dim ga"
  shows "launch (moe_grouped_gemm_program ga a b sorted_ids expert_ids weights post) order mem ! (g * n_dim ga + c)
    = lane_value ga a b sorted_ids expert_ids weights g c"
proof (rule launch_value)
  have g: "g < gm * block_m ga" using assms(7,8) by simp
  then show "g * n_dim ga + c < length mem" using flat_index_less [OF _ assms(10)] assms(6) by simp
  have gb: "g div block_m ga < gm" using g assms(2) by (simp add: div_less_iff_less_mult)
  then show "(g div block_m ga, c div block_n ga) \<in> set order"
    using assms(1) block_cover(1) [OF assms(10,3)] by (simp add: grid_order_def)
  have "g = block_m ga * (g div block_m ga) + g mod block_m ga" "g mod block_m ga < block_m ga" using assms(2) by simp_all
  moreover have "block_m ga * (g div block_m ga) < post" using assms(8) by (rule le_less_trans [OF times_div_less_eq_dividend])
  ultimately show "(g * n_dim ga + c, lane_value ga a b sorted_ids expert_ids weights g c)
      \<in> set (moe_grouped_gemm_program ga a b sorted_ids expert_ids weights post (g div block_m ga, c div block_n ga))"
    unfolding gemm_set [OF assms(4)] assms(5) using assms(9,10) block_cover(2) [OF assms(10,3)] by blast
  fix q u assume q: "q \<in> set order" "(g * n_dim ga + c, u) \<in> set (moe_grouped_gemm_program ga a b sorted_ids expert_ids weights post q)"
  obtain pm pn where pq: "q = (pm, pn)" by (cases q)
  obtain g' c' where gc: "c' < n_dim ga" "g * n_dim ga + c = g' * n_dim ga + c'" "u = lane_value ga a b sorted_ids expert_ids weights g' c'"
    using q(2) unfolding pq gemm_set [OF assms(4)] assms(5) by blast
  have "g = g' \<and> c = c'" by (rule flat_index_inj [OF assms(10) gc(1,2)])
  then show "u = lane_value ga a b sorted_ids expert_ids weights g c" using gc(3) by simp
qed

lemma dot_nth: "length xs = n \<Longrightarrow> length ys = n \<Longrightarrow> dot xs ys = sum_list (map (\<lambda>x. xs ! x * ys ! x) [0..<n])"
  unfolding dot_def by (intro arg_cong [where f = sum_list] nth_equalityI) auto

section \<open>Three-dimensional weights\<close>

definition tensor3 :: "nat \<Rightarrow> nat \<Rightarrow> nat \<Rightarrow> real list list list \<Rightarrow> bool" where
  "tensor3 e r c w = (length w = e \<and> (\<forall>m \<in> set w. matrix r c m))"

lemma tensor3_matrices: "tensor3 e r c w \<Longrightarrow> matrix e (r * c) (map concat w)"
  by (auto simp: tensor3_def matrix_def length_flat [unfolded matrix_def])

lemma tensor3_nth:
  assumes "tensor3 e r c w" "i < e" "j < r" "x < c"
  shows "concat (map concat w) ! (i * (r * c) + j * c + x) = w ! i ! j ! x"
proof -
  have "concat (map concat w) ! (i * (r * c) + (j * c + x)) = map concat w ! i ! (j * c + x)"
    by (rule nth_flat [OF tensor3_matrices [OF assms(1)] assms(2) flat_index_less [OF assms(3,4)]])
  also have "\<dots> = w ! i ! j ! x"
    using nth_flat [of r c "w ! i" j x] assms by (simp add: tensor3_def)
  finally show ?thesis by (simp add: add.assoc)
qed

lemma tensor3_strides:
  assumes "tensor3 e r c w" "0 < e" "0 < r"
  shows "cols_of w = r" "stride0 w = r * c" "stride1 w = c"
proof -
  obtain m ms row rows where "w = m # ms" "m = row # rows"
    using assms by (cases w; cases "hd w") (auto simp: tensor3_def matrix_def)
  then show "cols_of w = r" "stride0 w = r * c" "stride1 w = c"
    using assms(1) by (auto simp: tensor3_def matrix_def cols_of_def stride0_def stride1_def)
qed

section \<open>The value of one pair\<close>

definition silu_row :: "real list \<Rightarrow> real list" where
  "silu_row row = hd (silu_and_mul_reference [row])"

lemma silu_rows: "silu_and_mul_reference rows = map silu_row rows"
  by (simp add: silu_and_mul_reference_def silu_row_def)

lemma length_silu_row: "length row = 2 * k \<Longrightarrow> length (silu_row row) = k"
  by (simp add: silu_row_def silu_and_mul_reference_def Let_def)

text \<open>What expert \<open>e\<close> contributes for row \<open>x\<close> of the hidden states with routing weight \<open>w\<close>.\<close>

definition expert_row :: "real list list list \<Rightarrow> real list list list \<Rightarrow> nat \<Rightarrow> real list \<Rightarrow> real \<Rightarrow> real list" where
  "expert_row w13 w2 e x w = map (\<lambda>r. dot (silu_row (map (dot x) (w13 ! e))) r * w) (w2 ! e)"

lemma mask_select_nth:
  assumes "length msk = length xs"
  shows "mask_select msk xs = map (\<lambda>i. xs ! i) (filter (\<lambda>i. msk ! i) [0..<length xs])"
proof -
  have "zip msk xs = map (\<lambda>i. (msk ! i, xs ! i)) [0..<length xs]" using assms by (intro nth_equalityI) auto
  then show ?thesis by (simp add: mask_select_def filter_map comp_def)
qed

lemma index_add_map:
  "index_add (map f qs) (map g qs) out = fold (\<lambda>q d. d[f q := map2 (+) (d ! f q) (g q)]) qs out"
  unfolding index_add_def by (induction qs arbitrary: out) simp_all

lemma fold_index_add:
  "fold (\<lambda>e. index_add (map f (run e)) (map g (run e))) es out = index_add (map f (concat (map run es))) (map g (concat (map run es))) out"
  unfolding index_add_map by (induction es arbitrary: out) (simp_all add: index_add_map)

text \<open>The valid positions of the aligned layout, in order, are the runs.\<close>

lemma aligned_pairs:
  assumes "0 < bm"
  shows "map nat (filter (\<lambda>p. p \<noteq> - 1) (aligned_ids bm ids E)) = concat (map (run_of ids) [0..<E])"
proof -
  have "map nat (filter (\<lambda>p. p \<noteq> - 1) (padded_run bm ids e)) = run_of ids e" for e
    by (simp add: padded_run_def filter_map comp_def filter_True filter_False map_idI)
  then show ?thesis by (simp add: aligned_ids_def filter_concat map_concat comp_def)
qed

lemma aligned_nonneg: "0 < bm \<Longrightarrow> p \<in> set (aligned_ids bm ids E) \<Longrightarrow> 0 \<le> p \<longleftrightarrow> p \<noteq> - 1"
  by (auto simp: aligned_ids_def padded_run_def)

lemma combine_pairs:
  assumes bm: "0 < bm" and rows: "length (aligned_ids bm ids E) \<le> length c2"
    and c2: "\<And>g. g < length (aligned_ids bm ids E) \<Longrightarrow> aligned_ids bm ids E ! g \<noteq> - 1 \<Longrightarrow> c2 ! g = Y (nat (aligned_ids bm ids E ! g))"
  shows "moe_combine c2 (aligned_ids bm ids E) tw
    = index_add (map (\<lambda>q. q div cols_of tw) (concat (map (run_of ids) [0..<E]))) (map Y (concat (map (run_of ids) [0..<E])))
        (replicate (length tw) (replicate (cols_of c2) 0))"
proof -
  let ?s = "aligned_ids bm ids E"
  let ?V = "filter (\<lambda>g. ?s ! g \<noteq> - 1) [0..<length ?s]"
  have V: "filter (\<lambda>i. map (\<lambda>p. 0 \<le> p) ?s ! i) [0..<length ?s] = ?V"
    by (intro filter_cong) (simp_all add: aligned_nonneg [OF bm nth_mem])
  have pairs: "map (\<lambda>g. nat (?s ! g)) ?V = concat (map (run_of ids) [0..<E])"
  proof -
    have "filter (\<lambda>p. p \<noteq> - 1) ?s = map (\<lambda>g. ?s ! g) ?V"
      by (subst (1) map_nth [symmetric]) (simp only: filter_map comp_def)
    then show ?thesis using aligned_pairs [OF bm, of ids E] by (simp add: comp_def)
  qed
  have "mask_select (map (\<lambda>p. 0 \<le> p) ?s) ?s = map (\<lambda>g. ?s ! g) ?V"
    by (subst mask_select_nth) (simp_all only: V length_map)
  moreover have "mask_select (map (\<lambda>p. 0 \<le> p) ?s) (take (length ?s) c2) = map (\<lambda>g. Y (nat (?s ! g))) ?V"
  proof -
    have len: "length (take (length ?s) c2) = length ?s" using rows by simp
    have "mask_select (map (\<lambda>p. 0 \<le> p) ?s) (take (length ?s) c2) = map (\<lambda>g. take (length ?s) c2 ! g) ?V"
      by (subst mask_select_nth) (simp_all only: V len length_map)
    also have "\<dots> = map (\<lambda>g. Y (nat (?s ! g))) ?V" using c2 by (intro map_cong) simp_all
    finally show ?thesis .
  qed
  ultimately show ?thesis
    unfolding moe_combine_def Let_def pairs [symmetric] by (simp only: map_map comp_def)
qed

lemma repeated_tokens:
  assumes "q < n * kp"
  shows "concat (map (replicate kp) [0..<n]) ! q = q div kp"
proof -
  have "0 < kp" using assms by (cases kp) simp_all
  then have "q div kp < n" "q mod kp < kp" using assms by (simp_all add: div_less_iff_less_mult)
  moreover have "matrix n kp (map (replicate kp) [0..<n])" by (auto simp: matrix_def)
  ultimately have "concat (map (replicate kp) [0..<n]) ! (q div kp * kp + q mod kp) = q div kp"
    using nth_flat by fastforce
  then show ?thesis by simp
qed

lemma map2_maps: "map2 h (map f xs) (map g xs) = map (\<lambda>x. h (f x) (g x)) xs"
  by (induction xs) simp_all

lemma reference_pairs:
  fixes w13 w2 :: "real list list list"
  assumes m: "matrix n kp topk_ids" "matrix n kp tw" "length hidden = n" "0 < n"
    and nn: "\<forall>row \<in> set topk_ids. \<forall>x \<in> set row. 0 \<le> x"
  defines "ids \<equiv> map nat (concat topk_ids)"
  defines "P \<equiv> concat (map (run_of ids) [0..<length w13])"
    and "Y \<equiv> \<lambda>q. expert_row w13 w2 (ids ! q) (hidden ! (q div kp)) (concat tw ! q)"
  shows "moe_expert_mlp_reference hidden tw topk_ids w13 w2
    = index_add (map (\<lambda>q. q div kp) P) (map Y P) (replicate n (replicate (cols_of hidden) 0))"
proof -
  let ?run = "run_of ids" and ?t = "\<lambda>q. q div kp"
  have len: "length (concat topk_ids) = n * kp" "length (concat tw) = n * kp" "length ids = n * kp"
    using m length_flat by (simp_all add: ids_def)
  have toks: "length (concat (map (replicate kp) [0..<n])) = n * kp"
    by (rule length_flat) (auto simp: matrix_def)
  have kp: "cols_of topk_ids = kp" using m cols_of_matrix by blast
  have run: "filter (\<lambda>i. map (\<lambda>x. x = int e) (concat topk_ids) ! i) [0..<n * kp] = ?run e" for e
    unfolding run_of_def len
  proof (intro filter_cong refl)
    fix q assume "q \<in> set [0..<n * kp]"
    then have q: "q < n * kp" by simp
    then have "0 \<le> concat topk_ids ! q" using nn len(1) nth_mem [of q "concat topk_ids"] by fastforce
    then show "map (\<lambda>x. x = int e) (concat topk_ids) ! q = (ids ! q = e)" using q len by (auto simp: ids_def)
  qed
  have lt: "q \<in> set (?run e) \<Longrightarrow> q < n * kp" for q e using len(3) by (simp add: run_of_def)
  have sel: "mask_select (map (\<lambda>x. x = int e) (concat topk_ids)) (concat (map (replicate kp) [0..<n])) = map ?t (?run e)"
    "mask_select (map (\<lambda>x. x = int e) (concat topk_ids)) (concat tw) = map (\<lambda>q. concat tw ! q) (?run e)" for e
    using lt repeated_tokens by (simp_all add: mask_select_nth len toks run)
  have empty: "list_ex id (map (\<lambda>x. x = int e) (concat topk_ids)) \<longleftrightarrow> ?run e \<noteq> []" for e
  proof -
    have "list_ex id (map (\<lambda>x. x = int e) (concat topk_ids)) \<longleftrightarrow> (\<exists>i < n * kp. map (\<lambda>x. x = int e) (concat topk_ids) ! i)"
      using len(1) by (simp add: list_ex_length)
    then show ?thesis unfolding run [symmetric] by (auto simp: filter_empty_conv)
  qed
  have contrib: "map2 (\<lambda>row w. map (\<lambda>v. v * w) row)
      (map (\<lambda>row. map (\<lambda>w. dot row w) (w2 ! e)) (silu_and_mul_reference (map (\<lambda>row. map (\<lambda>w. dot row w) (w13 ! e)) (map (\<lambda>t. hidden ! t) (map ?t (?run e))))))
      (map (\<lambda>q. concat tw ! q) (?run e)) = map Y (?run e)" for e
    unfolding silu_rows map_map comp_def map2_maps
    by (intro map_cong refl) (simp add: Y_def expert_row_def run_of_def)
  have body: "(if \<not> list_ex id (map (\<lambda>x. x = int e) (concat topk_ids)) then out
      else index_add (map ?t (?run e)) (map Y (?run e)) out) = index_add (map ?t (?run e)) (map Y (?run e)) out" for e out
    unfolding empty by (simp add: index_add_def)
  show ?thesis
    unfolding moe_expert_mlp_reference_def Let_def m(3) kp sel contrib body P_def by (rule fold_index_add)
qed

section \<open>The fused pipeline\<close>

text \<open>The shapes of the operands, and launches whose grids, block sizes and buffers fit them.\<close>

definition moe_shapes :: "nat \<Rightarrow> nat \<Rightarrow> nat \<Rightarrow> nat \<Rightarrow> nat \<Rightarrow> real list list \<Rightarrow> real list list \<Rightarrow> int list list
    \<Rightarrow> real list list list \<Rightarrow> real list list list \<Rightarrow> bool" where
  "moe_shapes n kp hdim isz E hidden tw topk_ids w13 w2 =
     (0 < n \<and> 0 < hdim \<and> 0 < isz \<and> 0 < E \<and> matrix n hdim hidden \<and> matrix n kp tw \<and> matrix n kp topk_ids \<and>
      tensor3 E (2 * isz) hdim w13 \<and> tensor3 E hdim isz w2)"

definition moe_launch_ok :: "nat \<Rightarrow> nat \<Rightarrow> nat \<Rightarrow> nat \<Rightarrow> nat \<Rightarrow> moe_launch \<Rightarrow> bool" where
  "moe_launch_ok n kp hdim isz E ml =
     (let gm = moe_grid_m ml n kp E; rows = gm * ml_block_m ml
      in 0 < ml_block_m ml \<and> 0 < ml_block_n ml \<and> 0 < ml_block_h ml \<and> 0 < ml_silu_block ml \<and>
         grid_order gm (ceil_div (2 * isz) (ml_block_n ml)) (ml_order1 ml) \<and> length (ml_c1 ml) = rows * (2 * isz) \<and>
         grid_order rows (ceil_div isz (ml_silu_block ml)) (ml_silu_order ml) \<and> length (ml_act ml) = rows * isz \<and>
         grid_order gm (ceil_div hdim (ml_block_n ml)) (ml_order2 ml) \<and> length (ml_c2 ml) = rows * hdim)"

lemma fused_rows:
  fixes w13 w2 :: "real list list list"
  assumes sh: "moe_shapes n kp hdim isz E hidden tw topk_ids w13 w2" and la: "moe_launch_ok n kp hdim isz E ml"
    and ids_lt: "\<And>q. q < length ids \<Longrightarrow> ids ! q < E" and ids_len: "length ids = n * kp"
  defines "sids \<equiv> aligned_ids (ml_block_m ml) ids E" and "eids \<equiv> aligned_experts (ml_block_m ml) ids E"
    and "rows \<equiv> moe_grid_m ml n kp E * ml_block_m ml"
  defines "c1 \<equiv> unflatten rows (2 * isz) (launch (moe_grouped_gemm_program (gemm1_args ml kp hdim w13) (concat hidden)
      (concat (map concat w13)) sids eids (concat tw) (length sids)) (ml_order1 ml) (ml_c1 ml))"
  defines "act \<equiv> silu_and_mul_triton (ml_silu_block ml) (ml_silu_order ml) (ml_act ml) c1"
  defines "c2 \<equiv> unflatten rows hdim (launch (moe_grouped_gemm_program (gemm2_args ml kp (cols_of act) hdim w2) (concat act)
      (concat (map concat w2)) sids eids (concat tw) (length sids)) (ml_order2 ml) (ml_c2 ml))"
  assumes g: "g < length sids" "sids ! g \<noteq> - 1"
  shows "c2 ! g = expert_row w13 w2 (ids ! nat (sids ! g)) (hidden ! (nat (sids ! g) div kp)) (concat tw ! nat (sids ! g))"
proof -
  let ?bm = "ml_block_m ml" and ?gm = "moe_grid_m ml n kp E" and ?q = "nat (sids ! g)"
  let ?e = "ids ! ?q" and ?t = "?q div kp"
  have dims: "0 < n" "0 < hdim" "0 < isz" "0 < E" "matrix n hdim hidden" "tensor3 E (2 * isz) hdim w13" "tensor3 E hdim isz w2"
    using sh by (auto simp: moe_shapes_def)
  have ml: "0 < ?bm" "0 < ml_block_n ml" "0 < ml_block_h ml" "0 < ml_silu_block ml"
    "grid_order ?gm (ceil_div (2 * isz) (ml_block_n ml)) (ml_order1 ml)" "length (ml_c1 ml) = rows * (2 * isz)"
    "grid_order rows (ceil_div isz (ml_silu_block ml)) (ml_silu_order ml)" "length (ml_act ml) = rows * isz"
    "grid_order ?gm (ceil_div hdim (ml_block_n ml)) (ml_order2 ml)" "length (ml_c2 ml) = rows * hdim"
    using la by (simp_all add: moe_launch_ok_def Let_def rows_def)
  obtain e r where er: "e < E" "r < run_padded ?bm ids e" "sids ! g = padded_run ?bm ids e ! r" "eids ! (g div ?bm) = e"
    using aligned_entry [OF ml(1), of g ids E] g(1) unfolding sids_def eids_def by blast
  obtain q where q: "padded_run ?bm ids e ! r = int q" "q < length ids" "ids ! q = e"
    using padded_run_entry [OF ml(1) er(2)] g(2) er(3) by auto
  have qq: "?q = q" "?e = e" "eids ! (g div ?bm) = ?e" using er q by simp_all
  have t: "?t < n" using q(2) ids_len qq(1) by (cases "kp = 0") (auto simp: div_less_iff_less_mult)
  have fits: "length sids \<le> ?gm * ?bm"
    using aligned_bound [OF ml(1) ids_lt] by (simp add: sids_def moe_grid_m_def ids_len)
  then have grows: "g < rows" using g(1) by (simp add: rows_def)
  have s13: "cols_of w13 = 2 * isz" "stride0 w13 = 2 * isz * hdim" "stride1 w13 = hdim"
    by (rule tensor3_strides [OF dims(6,4)]; use dims in simp)+
  have s2: "stride0 w2 = hdim * isz" "stride1 w2 = isz"
    by (rule tensor3_strides [OF dims(7,4)]; use dims in simp)+
  have w13: "matrix (2 * isz) hdim (w13 ! ?e)" and w2: "matrix hdim isz (w2 ! ?e)"
    using dims er(1) qq(2) by (simp_all add: tensor3_def)
  have x: "length (hidden ! ?t) = hdim" using matrix_row [OF dims(5) t] .
  have c1: "c1 ! g = map (dot (hidden ! ?t)) (w13 ! ?e)"
  proof (rule nth_equalityI)
    show "length (c1 ! g) = length (map (dot (hidden ! ?t)) (w13 ! ?e))"
      using grows w13 by (simp add: c1_def unflatten_def matrix_def)
    fix c assume "c < length (c1 ! g)"
    then have c: "c < 2 * isz" using grows by (simp add: c1_def unflatten_def)
    have "c1 ! g ! c = lane_value (gemm1_args ml kp hdim w13) (concat hidden) (concat (map concat w13)) sids eids (concat tw) g c"
      unfolding c1_def nth_unflatten [OF grows c] using ml c g fits
        gemm_launch [of ?gm "gemm1_args ml kp hdim w13" "ml_order1 ml" "ml_c1 ml" "length sids" g sids c]
      by (simp add: gemm1_args_def s13 rows_def)
    also have "\<dots> = sum_list (map (\<lambda>x. hidden ! ?t ! x * w13 ! ?e ! c ! x) [0..<hdim])"
      unfolding lane_value_def gemm1_args_def gemm_args.simps Let_def s13 qq(3)
      using nth_flat [OF dims(5) t] tensor3_nth [OF dims(6) _ c] er(1) qq(2) by (auto intro!: arg_cong [where f = sum_list])
    also have "\<dots> = dot (hidden ! ?t) (w13 ! ?e ! c)"
      using dot_nth [OF x matrix_row [OF w13 c]] by simp
    finally show "c1 ! g ! c = map (dot (hidden ! ?t)) (w13 ! ?e) ! c" using c w13 by (simp add: matrix_def)
  qed
  have m1: "matrix rows (2 * isz) c1" by (simp add: c1_def)
  have act: "act = map silu_row c1"
    unfolding act_def silu_rows [symmetric] by (rule silu_triton_reference [OF m1 ml(7,4,8)])
  have ma: "matrix rows isz act" using m1 by (auto simp: act matrix_def length_silu_row)
  have ca: "cols_of act = isz" using ma grows cols_of_matrix by auto
  have ag: "act ! g = silu_row (map (dot (hidden ! ?t)) (w13 ! ?e))"
    using m1 grows by (simp add: act matrix_def c1 [symmetric])
  show ?thesis
  proof (rule nth_equalityI)
    show "length (c2 ! g) = length (expert_row w13 w2 ?e (hidden ! ?t) (concat tw ! ?q))"
      using grows w2 by (simp add: c2_def unflatten_def matrix_def expert_row_def)
    fix c assume "c < length (c2 ! g)"
    then have c: "c < hdim" using grows by (simp add: c2_def unflatten_def)
    have "c2 ! g ! c = lane_value (gemm2_args ml kp isz hdim w2) (concat act) (concat (map concat w2)) sids eids (concat tw) g c"
      unfolding c2_def nth_unflatten [OF grows c] ca using ml c g fits
        gemm_launch [of ?gm "gemm2_args ml kp isz hdim w2" "ml_order2 ml" "ml_c2 ml" "length sids" g sids c]
      by (simp add: gemm2_args_def s2 rows_def)
    also have "\<dots> = sum_list (map (\<lambda>x. act ! g ! x * w2 ! ?e ! c ! x) [0..<isz]) * concat tw ! ?q"
      unfolding lane_value_def gemm2_args_def gemm_args.simps Let_def s2 qq(3)
      using nth_flat [OF ma grows] tensor3_nth [OF dims(7) _ c] er(1) qq(2)
      by (auto intro!: arg_cong [where f = sum_list])
    also have "\<dots> = dot (act ! g) (w2 ! ?e ! c) * concat tw ! ?q"
      using dot_nth [OF matrix_row [OF ma grows] matrix_row [OF w2 c]] by simp
    finally show "c2 ! g ! c = expert_row w13 w2 ?e (hidden ! ?t) (concat tw ! ?q) ! c"
      using c w2 by (simp add: matrix_def expert_row_def ag)
  qed
qed

section \<open>Theorems\<close>

text \<open>C6: The fused mixture-of-experts MLP computes the per-expert reference loop. For every routing of every
  batch, the alignment, both grouped GEMMs with their masks, strides and over-provisioned grids, the
  activation kernel between them and the scatter-sum give the reference's output, whatever block sizes are
  chosen, in whatever order the programs of each launch run and whatever the three unwritten buffers
  held: rows of padding never reach the result.\<close>

theorem fused_moe_matches_reference:
  assumes "moe_shapes n kp hdim isz E hidden tw topk_ids w13 w2" "moe_launch_ok n kp hdim isz E ml"
    and "\<forall>row \<in> set topk_ids. \<forall>x \<in> set row. 0 \<le> x \<and> x < int E"
  shows "moe_expert_mlp_triton ml hidden tw topk_ids w13 w2 = Inr (moe_expert_mlp_reference hidden tw topk_ids w13 w2)"
proof -
  define ids where "ids = map nat (concat topk_ids)"
  have sh: "0 < n" "0 < isz" "0 < E" "matrix n hdim hidden" "matrix n kp tw" "matrix n kp topk_ids" "tensor3 E (2 * isz) hdim w13"
    using assms(1) by (auto simp: moe_shapes_def)
  have bm: "0 < ml_block_m ml" using assms(2) by (simp add: moe_launch_ok_def Let_def)
  have dims: "length hidden = n" "length tw = n" "length w13 = E" using sh by (simp_all add: matrix_def tensor3_def)
  have cols: "cols_of hidden = hdim" "cols_of topk_ids = kp" "cols_of tw = kp" "cols_of w13 = 2 * isz"
    using cols_of_matrix [OF sh(4,1)] cols_of_matrix [OF sh(6,1)] cols_of_matrix [OF sh(5,1)] tensor3_strides(1) [OF sh(7,3)] sh(2) by simp_all
  have ids: "length ids = n * kp" "\<And>q. q < length ids \<Longrightarrow> ids ! q < E"
    using length_flat [OF sh(6)] assms(3) nth_mem [of _ ids] by (auto simp: ids_def) fastforce
  have align: "moe_align_block_size topk_ids (ml_block_m ml) E = Inr (aligned_ids (ml_block_m ml) ids E,
      aligned_experts (ml_block_m ml) ids E, length (aligned_ids (ml_block_m ml) ids E), length (aligned_ids (ml_block_m ml) ids E))"
    unfolding ids_def by (rule moe_align_ok [OF bm assms(3)])
  have fits: "length (aligned_ids (ml_block_m ml) ids E) \<le> moe_grid_m ml n kp E * ml_block_m ml"
    using aligned_bound [OF bm, of ids E] ids by (simp add: moe_grid_m_def)
  have nonneg: "\<forall>row \<in> set topk_ids. \<forall>x \<in> set row. 0 \<le> x" using assms(3) by blast
  have rows: "0 < moe_grid_m ml n kp E * ml_block_m ml" using sh(3) bm by (simp add: moe_grid_m_def)
  define c1 where "c1 = unflatten (moe_grid_m ml n kp E * ml_block_m ml) (2 * isz) (launch (moe_grouped_gemm_program (gemm1_args ml kp hdim w13) (concat hidden)
      (concat (map concat w13)) (aligned_ids (ml_block_m ml) ids E) (aligned_experts (ml_block_m ml) ids E) (concat tw)
      (length (aligned_ids (ml_block_m ml) ids E))) (ml_order1 ml) (ml_c1 ml))"
  define act where "act = silu_and_mul_triton (ml_silu_block ml) (ml_silu_order ml) (ml_act ml) c1"
  define c2 where "c2 = unflatten (moe_grid_m ml n kp E * ml_block_m ml) hdim (launch (moe_grouped_gemm_program (gemm2_args ml kp (cols_of act) hdim w2) (concat act)
      (concat (map concat w2)) (aligned_ids (ml_block_m ml) ids E) (aligned_experts (ml_block_m ml) ids E) (concat tw)
      (length (aligned_ids (ml_block_m ml) ids E))) (ml_order2 ml) (ml_c2 ml))"
  have rowvals: "c2 ! g = expert_row w13 w2 (ids ! nat (aligned_ids (ml_block_m ml) ids E ! g))
      (hidden ! (nat (aligned_ids (ml_block_m ml) ids E ! g) div kp)) (concat tw ! nat (aligned_ids (ml_block_m ml) ids E ! g))"
    if "g < length (aligned_ids (ml_block_m ml) ids E)" "aligned_ids (ml_block_m ml) ids E ! g \<noteq> - 1" for g
    unfolding c2_def act_def c1_def by (rule fused_rows [OF assms(1,2) ids(2,1) that])
  have fits': "length (aligned_ids (ml_block_m ml) ids E) \<le> length c2" using fits by (simp add: c2_def unflatten_def)
  have cols2: "cols_of c2 = hdim" unfolding c2_def by (rule cols_of_matrix [OF matrix_unflatten rows])
  have "moe_expert_mlp_triton ml hidden tw topk_ids w13 w2 = Inr (moe_combine c2 (aligned_ids (ml_block_m ml) ids E) tw)"
    unfolding moe_expert_mlp_triton_def Let_def dims cols align obind_simps prod.case c2_def act_def c1_def ..
  also have "moe_combine c2 (aligned_ids (ml_block_m ml) ids E) tw = moe_expert_mlp_reference hidden tw topk_ids w13 w2"
    using combine_pairs [where Y = "\<lambda>q. expert_row w13 w2 (ids ! q) (hidden ! (q div kp)) (concat tw ! q)", OF bm fits' rowvals, of tw]
      reference_pairs [OF sh(6,5) dims(1) sh(1) nonneg, of w13 w2]
    unfolding ids_def [symmetric] dims cols cols2 by simp
  finally show ?thesis .
qed

theorem fused_moe_matches_reference_witness:
  "moe_expert_mlp_triton \<lparr> ml_block_m = 2, ml_block_n = 1, ml_block_h = 1, ml_silu_block = 1,
     ml_order1 = [(2, 1), (2, 0), (1, 1), (1, 0), (0, 1), (0, 0)],
     ml_silu_order = [(5, 0), (4, 0), (3, 0), (2, 0), (1, 0), (0, 0)], ml_order2 = [(0, 0), (1, 0), (2, 0)],
     ml_c1 = replicate 12 9, ml_act = replicate 6 9, ml_c2 = replicate 6 9 \<rparr>
     [[3], [4]] [[2], [1]] [[1], [0]] [[[1], [2]], [[3], [4]]] [[[5]], [[6]]]
   = Inr (moe_expert_mlp_reference [[3], [4]] [[2], [1]] [[1], [0]] [[[1], [2]], [[3], [4]]] [[[5]], [[6]]])"
  by (rule fused_moe_matches_reference [of 2 1 1 1 2])
    (auto simp: moe_shapes_def moe_launch_ok_def moe_grid_m_def matrix_def tensor3_def grid_order_def ceil_div_def lessThan_nat_numeral lessThan_Suc)



end
