(* ===== verification/FusedOps.thy ===== *)
theory FusedOps
  imports TritonOps
begin

text \<open>
  The dispatching operators of \<open>executors/torch/fused_ops.py\<close>: RMSNorm, residual add with RMSNorm, SwiGLU
  and rotary embedding, delegated to FlashInfer on a CUDA half-precision tensor when the library is
  installed and computed by PyTorch otherwise. The library's kernels are fields of a record; what the
  model relies on is \<open>fused_lib_ok\<close>, that they compute what the fallback computes. Exact reals.
\<close>

section \<open>Dispatch\<close>

text \<open>Tensors of one runner live on one device with one type, so \<open>tensor.is_cuda\<close> and the type test are
  two fields.\<close>

record fused_lib =
  fl_is_cuda :: bool
  fl_half :: bool
  fl_available :: bool
  fl_version :: string
  fl_rmsnorm :: "real list list \<Rightarrow> real list \<Rightarrow> real \<Rightarrow> real list list"
  fl_fused_add_rmsnorm :: "real list list \<Rightarrow> real list list \<Rightarrow> real list \<Rightarrow> real \<Rightarrow> real list list \<times> real list list"
  fl_silu_and_mul :: "real list list \<Rightarrow> real list list"
  fl_rope :: "real \<Rightarrow> int list \<Rightarrow> real list list list \<Rightarrow> real list list list"

definition use_flashinfer_fused :: "fused_lib \<Rightarrow> bool" where
  "use_flashinfer_fused fl = (fl_is_cuda fl \<and> fl_half fl \<and> fl_available fl)"

text \<open>\<open>str.split\<close>, \<open>str.isdigit\<close> and \<open>int\<close> on ASCII version strings.\<close>

fun split_on :: "char \<Rightarrow> string \<Rightarrow> string list" where
  "split_on sep [] = [[]]"
| "split_on sep (c # cs) = (if c = sep then [] # split_on sep cs
     else (case split_on sep cs of [] \<Rightarrow> [[c]] | p # ps \<Rightarrow> (c # p) # ps))"

definition digit_value :: "char \<Rightarrow> nat option" where
  "digit_value c = (if 48 \<le> (of_char c :: nat) \<and> (of_char c :: nat) \<le> 57 then Some (of_char c - 48) else None)"

definition int_of_digits :: "nat list \<Rightarrow> nat" where
  "int_of_digits ds = fold (\<lambda>d acc. 10 * acc + d) ds 0"

definition flashinfer_version_tuple :: "fused_lib \<Rightarrow> nat list" where
  "flashinfer_version_tuple fl =
     map int_of_digits (filter (\<lambda>ds. ds \<noteq> []) (map (List.map_filter digit_value) (take 3 (split_on (CHR ''.'') (fl_version fl)))))"

text \<open>Comparison of tuples.\<close>

fun tuple_less :: "nat list \<Rightarrow> nat list \<Rightarrow> bool" where
  "tuple_less xs [] = False"
| "tuple_less [] (y # ys) = True"
| "tuple_less (x # xs) (y # ys) = (x < y \<or> x = y \<and> tuple_less xs ys)"

definition use_flashinfer_silu :: "fused_lib \<Rightarrow> bool" where
  "use_flashinfer_silu fl = (use_flashinfer_fused fl \<and> tuple_less (flashinfer_version_tuple fl) [0, 6, 5])"

section \<open>Operators\<close>

definition rmsnorm_row :: "real list \<Rightarrow> real \<Rightarrow> real list \<Rightarrow> real list" where
  "rmsnorm_row w eps x =
     (let variance = sum_list (map (\<lambda>v. v ^ 2) x) / real (length x);
          normalized = map (\<lambda>v. v * (1 / sqrt (variance + eps))) x
      in map2 (*) w normalized)"

definition rmsnorm :: "fused_lib \<Rightarrow> real list list \<Rightarrow> real list \<Rightarrow> real \<Rightarrow> real list list" where
  "rmsnorm fl x w eps = (if use_flashinfer_fused fl then fl_rmsnorm fl x w eps else map (rmsnorm_row w eps) x)"

definition fused_add_rmsnorm ::
    "fused_lib \<Rightarrow> real list list \<Rightarrow> real list list \<Rightarrow> real list \<Rightarrow> real \<Rightarrow> real list list \<times> real list list" where
  "fused_add_rmsnorm fl x residual w eps =
     (if use_flashinfer_fused fl then fl_fused_add_rmsnorm fl x residual w eps
      else (let residual = map2 (map2 (+)) residual x in (rmsnorm fl residual w eps, residual)))"

definition silu :: "real \<Rightarrow> real" where
  "silu x = x * sigmoid x"

definition silu_and_mul_row :: "real list \<Rightarrow> real list" where
  "silu_and_mul_row row = (let hidden = length row div 2 in map2 (*) (map silu (take hidden row)) (drop hidden row))"

definition silu_and_mul :: "fused_lib \<Rightarrow> real list list \<Rightarrow> real list list" where
  "silu_and_mul fl gate_up = (if use_flashinfer_silu fl then fl_silu_and_mul fl gate_up else map silu_and_mul_row gate_up)"

definition apply_rope_inplace ::
    "fused_lib \<Rightarrow> real list list list \<Rightarrow> real list list list \<Rightarrow> int list \<Rightarrow> real \<Rightarrow> real list list list \<times> real list list list" where
  "apply_rope_inplace fl query key position theta = (fl_rope fl theta position query, fl_rope fl theta position key)"

section \<open>The library's contract\<close>

text \<open>\<open>inv_freq\<close> are the frequencies the runner's own rotary embedding derives from the same base.\<close>

definition fused_lib_ok :: "fused_lib \<Rightarrow> real \<Rightarrow> real list \<Rightarrow> bool" where
  "fused_lib_ok fl theta inv_freq =
     (use_flashinfer_fused fl \<longrightarrow>
       (\<forall>x w eps. fl_rmsnorm fl x w eps = map (rmsnorm_row w eps) x) \<and>
       (\<forall>x r w eps. fl_fused_add_rmsnorm fl x r w eps = (let r' = map2 (map2 (+)) r x in (map (rmsnorm_row w eps) r', r'))) \<and>
       (\<forall>x. fl_silu_and_mul fl x = map silu_and_mul_row x) \<and>
       (\<forall>pos x. fl_rope fl theta pos x = map2 (rotated inv_freq) pos x))"

lemma rmsnorm_rows: "fused_lib_ok fl theta f \<Longrightarrow> rmsnorm fl x w eps = map (rmsnorm_row w eps) x"
  by (simp add: fused_lib_ok_def rmsnorm_def)

lemma fused_add_rmsnorm_rows:
  "fused_lib_ok fl theta f \<Longrightarrow>
     fused_add_rmsnorm fl x r w eps = (map (rmsnorm_row w eps) (map2 (map2 (+)) r x), map2 (map2 (+)) r x)"
  by (simp add: fused_lib_ok_def fused_add_rmsnorm_def rmsnorm_def Let_def)

lemma silu_and_mul_rows: "fused_lib_ok fl theta f \<Longrightarrow> silu_and_mul fl x = map silu_and_mul_row x"
  by (simp add: fused_lib_ok_def silu_and_mul_def use_flashinfer_silu_def)

lemma rope_rows:
  "fused_lib_ok fl theta f \<Longrightarrow> use_flashinfer_fused fl \<Longrightarrow>
     apply_rope_inplace fl q k pos theta = (map2 (rotated f) pos q, map2 (rotated f) pos k)"
  by (simp add: fused_lib_ok_def apply_rope_inplace_def)

text \<open>A runner on the CPU satisfies the contract.\<close>

definition cpu_lib :: fused_lib where
  "cpu_lib = \<lparr> fl_is_cuda = False, fl_half = False, fl_available = False, fl_version = [],
     fl_rmsnorm = (\<lambda>x w e. x), fl_fused_add_rmsnorm = (\<lambda>x r w e. (x, r)), fl_silu_and_mul = (\<lambda>x. x), fl_rope = (\<lambda>t p x. x) \<rparr>"

lemma cpu_lib_ok: "fused_lib_ok cpu_lib theta f"
  by (simp add: fused_lib_ok_def cpu_lib_def use_flashinfer_fused_def)

text \<open>A local build tag runs into the patch number, so a validated release with a tag is not recognised.\<close>

lemma version_tag:
  "flashinfer_version_tuple (fl\<lparr> fl_version := ''0.6.4'' \<rparr>) = [0, 6, 4]"
  "flashinfer_version_tuple (fl\<lparr> fl_version := ''0.6.4+cu129'' \<rparr>) = [0, 6, 4129]"
  by (simp_all add: flashinfer_version_tuple_def digit_value_def int_of_digits_def List.map_filter_def)

end
