(* ===== verification/W4A16Serve.thy ===== *)
theory W4A16Serve
  imports W4A16Pack FusedOps
begin

text \<open>
  Linear layers and the W4A16 serving path of \<open>executors/torch/w4a16.py\<close>: a layer whose weight is packed
  for the Marlin kernel. The kernel is a parameter; its contract \<open>marlin_ok\<close> is that it multiplies by the
  weight the packed words stand for.
\<close>

section \<open>Linear layers\<close>

record nn_linear =
  nn_weight :: "real list list"
  nn_bias :: "real list option"

definition add_bias :: "real list option \<Rightarrow> real list \<Rightarrow> real list" where
  "add_bias b y = (case b of None \<Rightarrow> y | Some c \<Rightarrow> map2 (+) y c)"

definition f_linear :: "real list list \<Rightarrow> real list option \<Rightarrow> real list list \<Rightarrow> real list list" where
  "f_linear w b x = map (\<lambda>v. add_bias b (map (dot v) w)) x"

definition nn_forward :: "nn_linear \<Rightarrow> real list list \<Rightarrow> real list list" where
  "nn_forward lin x = f_linear (nn_weight lin) (nn_bias lin) x"

lemma f_linear_None: "f_linear w None x = map (\<lambda>v. map (dot v) w) x"
  by (simp add: f_linear_def add_bias_def)

lemma f_linear_bias: "map (add_bias b) (f_linear w None x) = f_linear w b x"
  by (simp add: f_linear_def add_bias_def)

text \<open>\<open>Tensor.t()\<close>\<close>

definition mat_t :: "'a list list \<Rightarrow> 'a list list" where
  "mat_t w = map (\<lambda>j. map (\<lambda>row. row ! j) w) [0..<width w]"

lemma width_mat_t: "0 < width w \<Longrightarrow> width (mat_t w) = length w"
  by (simp add: mat_t_def width_def upt_conv_Cons)

lemma mat_t_rows: "\<forall>row \<in> set (mat_t w). length row = width (mat_t w)"
proof (cases "width w")
  case (Suc n)
  then show ?thesis using width_mat_t [of w] by (simp add: mat_t_def)
qed (simp add: mat_t_def)

section \<open>Marlin layers\<close>

definition w4_group_size :: nat where "w4_group_size = 128"
definition max_par :: nat where "max_par = 8"

definition quantize_packed_weight :: "real list list \<Rightarrow> nat \<Rightarrow> (32 word list list \<times> real list list) outcome" where
  "quantize_packed_weight weight_t group_size =
     obind (pack_w4a16_marlin weight_t None (int group_size)) (\<lambda>(qweight, scales).
     obind (permute_scales_marlin (width scales) scales) (\<lambda>permuted. Inr (qweight, permuted)))"

text \<open>\<open>marlin_gemm\<close>: activations, words, scales, columns of the output, group size, parallelism.\<close>

type_synonym marlin_op =
  "real list list \<Rightarrow> 32 word list list \<Rightarrow> real list list \<Rightarrow> nat \<Rightarrow> nat \<Rightarrow> nat \<Rightarrow> real list list"

definition marlin_linear ::
    "marlin_op \<Rightarrow> real list list \<Rightarrow> 32 word list list \<Rightarrow> real list list \<Rightarrow> nat \<Rightarrow> real list option \<Rightarrow> real list list" where
  "marlin_linear op x qweight scales out_features b =
     map (add_bias b) (op x qweight scales out_features w4_group_size max_par)"

record marlin_layer =
  mw_in_features :: nat
  mw_out_features :: nat
  mw_qweight :: "32 word list list"
  mw_scales :: "real list list"
  mw_workspace :: "int list"
  mw_bias :: "real list option"

definition from_linear :: "nn_linear \<Rightarrow> nat \<Rightarrow> marlin_layer outcome" where
  "from_linear lin group_size =
     obind (quantize_packed_weight (mat_t (nn_weight lin)) group_size) (\<lambda>(qweight, scales).
       Inr \<lparr> mw_in_features = width (nn_weight lin), mw_out_features = length (nn_weight lin),
             mw_qweight = qweight, mw_scales = scales,
             mw_workspace = replicate (length (nn_weight lin) div 128 * max_par) 0, mw_bias = nn_bias lin \<rparr>)"

definition marlin_forward :: "marlin_op \<Rightarrow> marlin_layer \<Rightarrow> real list list \<Rightarrow> real list list" where
  "marlin_forward op m x = marlin_linear op x (mw_qweight m) (mw_scales m) (mw_out_features m) (mw_bias m)"

section \<open>The kernel's contract\<close>

definition marlin_ok :: "marlin_op \<Rightarrow> bool" where
  "marlin_ok op =
     (\<forall>x qw m s w. unpack_w4a16_marlin qw (ScaleMat m) (int w4_group_size) = Inr w \<longrightarrow>
        permute_scales_marlin (width m) m = Inr s \<longrightarrow>
        op x qw s (width w) w4_group_size max_par = f_linear (mat_t w) None x)"

text \<open>What a weight becomes on the way through the packed form.\<close>

definition served_weight :: "real list list \<Rightarrow> real list list outcome" where
  "served_weight w = obind (fakequant_w4a16 (mat_t w) None (int w4_group_size)) (\<lambda>t. Inr (mat_t t))"

lemma width_matrix: "matrix k n w \<Longrightarrow> 0 < k \<Longrightarrow> width w = n"
  by (auto simp: matrix_def width_def split: list.splits)

lemma quantize_served:
  assumes op: "marlin_ok op" and q: "quantize_packed_weight (mat_t w) w4_group_size = Inr (qw, s)"
  shows "\<exists>w'. served_weight w = Inr w' \<and> matrix (width (mat_t w)) (length (mat_t w)) w' \<and>
    (\<forall>x b. marlin_linear op x qw s (width (mat_t w)) b = f_linear w' b x)"
proof -
  obtain m where m: "pack_w4a16_marlin (mat_t w) None (int w4_group_size) = Inr (qw, m)" "permute_scales_marlin (width m) m = Inr s"
    using q by (auto simp: quantize_packed_weight_def obind_Inr_iff)
  note p = pack_Inr [OF m(1) mat_t_rows]
  obtain t where t: "unpack_w4a16_marlin qw (ScaleMat m) (int w4_group_size) = Inr t"
    "t = map2 (map2 (\<lambda>x s. (of_int (quantize_value x s) - 8) * s)) (mat_t w) (scale_rows w4_group_size m)"
    using fakequant_values [OF m(1) mat_t_rows] by simp
  have sm: "matrix (length (mat_t w)) (width (mat_t w)) (scale_rows w4_group_size m)"
    using matrix_scale_rows [OF p(3), of w4_group_size] pack_shapes_groups [OF p(1)] by simp
  have tm: "matrix (length (mat_t w)) (width (mat_t w)) t" unfolding t(2) by (rule matrix_map2 [OF p(2) sm])
  have k: "0 < length (mat_t w)" using p(1) by (simp add: pack_shapes_def)
  have wt: "width t = width (mat_t w)" by (rule width_matrix [OF tm k])
  have "served_weight w = Inr (mat_t t)"
    using m(1) t(1) by (simp add: served_weight_def fakequant_w4a16_def)
  moreover have "matrix (width (mat_t w)) (length (mat_t w)) (mat_t t)"
    using tm wt by (simp add: matrix_def mat_t_def)
  moreover have "marlin_linear op x qw s (width (mat_t w)) b = f_linear (mat_t t) b x" for x b
    using op t(1) m(2) by (simp add: marlin_ok_def marlin_linear_def wt f_linear_bias flip: wt)
  ultimately show ?thesis by blast
qed

text \<open>A layer built from a linear layer serves the fake-quantised weight.\<close>

lemma marlin_layer_served:
  assumes op: "marlin_ok op" and made: "from_linear lin w4_group_size = Inr layer" and wide: "0 < width (nn_weight lin)"
  shows "\<exists>w'. served_weight (nn_weight lin) = Inr w' \<and> (\<forall>x. marlin_forward op layer x = f_linear w' (nn_bias lin) x)"
proof -
  obtain qw s where q: "quantize_packed_weight (mat_t (nn_weight lin)) w4_group_size = Inr (qw, s)"
    "mw_qweight layer = qw" "mw_scales layer = s" "mw_out_features layer = length (nn_weight lin)" "mw_bias layer = nn_bias lin"
    using made by (auto simp: from_linear_def obind_Inr_iff)
  show ?thesis
    using quantize_served [OF op q(1)] q(2-5) width_mat_t [OF wide] by (auto simp: marlin_forward_def)
qed

text \<open>The contract can be met: undo the scale permutation, unpack, multiply.\<close>

definition marlin_model :: marlin_op where
  "marlin_model x qw s n gs mp =
     (case unpack_w4a16_marlin qw (ScaleMat (map (gather_blocks perm_n marlin_scale_perm) s)) (int gs) of
        Inl e \<Rightarrow> [] | Inr w \<Rightarrow> f_linear (mat_t w) None x)"

lemma marlin_model_ok: "marlin_ok marlin_model"
proof -
  have undo: "map (gather_blocks perm_n marlin_scale_perm) s = m"
    if u: "unpack_w4a16_marlin qw (ScaleMat m) (int w4_group_size) = Inr w" "permute_scales_marlin (width m) m = Inr s" for qw m s w
  proof -
    let ?k = "length qw * tile_k" and ?n = "width qw * pack_nibbles div tile_k"
    obtain m' where b: "broadcast_scales (ScaleMat m) ?k ?n w4_group_size = Inr m'"
      using u(1) by (auto simp: unpack_w4a16_marlin_def Let_def obind_Inr_iff)
    then have rows: "\<forall>row \<in> set m. length row = ?n" by (auto simp: broadcast_scales_def Let_def require_Inr_iff list_all_iff)
    have s: "s = map (gather_blocks perm_n marlin_scale_perm) m" "width m mod perm_n = 0"
      using u(2) by (auto simp: permute_scales_marlin_def require_Inr_iff)
    have "gather_blocks perm_n marlin_scale_perm (gather_blocks perm_n marlin_scale_perm row) = row" if r: "row \<in> set m" for row
    proof -
      have "width m = ?n" using rows r by (cases m) (auto simp: width_def)
      then have "length row = ?n div perm_n * perm_n" using rows r s(2) by (simp add: mod_0_imp_dvd)
      then show ?thesis by (rule scale.gather_inverse(1))
    qed
    then show ?thesis by (simp add: s(1) map_idI)
  qed
  show ?thesis
    unfolding marlin_ok_def marlin_model_def using undo by (auto split: sum.splits)
qed

end
