(* ===== verification/PackedQKV.thy ===== *)
theory PackedQKV
  imports W4A16Serve "HOL-Library.AList"
begin

text \<open>
  The packed query/key/value projection (\<open>executors/torch/packed_qkv.py\<close>): packing three linear layers into
  one GEMM, the W4A16 transform of the packed weight, the split of the result, and the renaming of
  HuggingFace checkpoint keys. Copying into an existing buffer and registering a new one give the same
  value; which storage holds it is not modelled.
\<close>

section \<open>Packing and projecting\<close>

record packed_qkv =
  q_size :: nat
  k_size :: nat
  v_size :: nat
  q_proj :: "nn_linear option"
  k_proj :: "nn_linear option"
  v_proj :: "nn_linear option"
  packed_weight :: "real list list option"
  packed_bias :: "real list option"
  qkv_qweight :: "32 word list list option"
  qkv_scales :: "real list list"
  qkv_workspace :: "int list"

definition qkv_pack :: "packed_qkv \<Rightarrow> packed_qkv outcome" where
  "qkv_pack p =
     (case (q_proj p, k_proj p, v_proj p) of
        (Some q, Some k, Some v) \<Rightarrow>
          (let packed = nn_weight q @ nn_weight k @ nn_weight v
           in case nn_bias q of
                None \<Rightarrow> Inr (p\<lparr> packed_weight := Some packed, packed_bias := None \<rparr>)
              | Some bq \<Rightarrow>
                  (case (nn_bias k, nn_bias v) of
                     (Some bk, Some bv) \<Rightarrow> Inr (p\<lparr> packed_weight := Some packed, packed_bias := Some (bq @ bk @ bv) \<rparr>)
                   | _ \<Rightarrow> Inl AttributeError))
      | _ \<Rightarrow> Inl AttributeError)"

text \<open>The initial weights \<open>nn.Linear\<close> draws are arguments.\<close>

definition qkv_init :: "int \<Rightarrow> int \<Rightarrow> int \<Rightarrow> int \<Rightarrow> nn_linear \<Rightarrow> nn_linear \<Rightarrow> nn_linear \<Rightarrow> packed_qkv outcome" where
  "qkv_init hidden_size qs ks vs q k v =
     require (min (min hidden_size qs) (min ks vs) > 0) (ValueError ''PackedQKV sizes must be positive'')
       (qkv_pack \<lparr> q_size = nat qs, k_size = nat ks, v_size = nat vs, q_proj = Some q, k_proj = Some k, v_proj = Some v,
          packed_weight = None, packed_bias = None, qkv_qweight = None, qkv_scales = [], qkv_workspace = [] \<rparr>)"

definition qkv_quantize_w4a16 :: "nat \<Rightarrow> packed_qkv \<Rightarrow> packed_qkv outcome" where
  "qkv_quantize_w4a16 group_size p =
     (case packed_weight p of
        None \<Rightarrow> Inl AttributeError
      | Some w \<Rightarrow>
          (let packed_out = q_size p + k_size p + v_size p
           in obind (quantize_packed_weight (mat_t w) group_size) (\<lambda>(qweight, scales).
                Inr (p\<lparr> qkv_qweight := Some qweight, qkv_scales := scales, qkv_workspace := replicate (packed_out div 128 * 8) 0,
                        q_proj := None, k_proj := None, v_proj := None, packed_weight := None \<rparr>))))"

text \<open>\<open>torch.split(x, sizes, dim=-1)\<close> into three.\<close>

definition split3 :: "nat \<Rightarrow> nat \<Rightarrow> nat \<Rightarrow> 'a list list \<Rightarrow> ('a list list \<times> 'a list list \<times> 'a list list) outcome" where
  "split3 a b c rows =
     require (list_all (\<lambda>row. length row = a + b + c) rows)
       (RuntimeError ''split_with_sizes expects split_sizes to sum exactly to the dimension'')
       (Inr (map (take a) rows, map (\<lambda>row. take b (drop a row)) rows, map (drop (a + b)) rows))"

definition qkv_forward ::
    "marlin_op \<Rightarrow> packed_qkv \<Rightarrow> real list list \<Rightarrow> (real list list \<times> real list list \<times> real list list) outcome" where
  "qkv_forward op p x =
     obind (case qkv_qweight p of
              Some qweight \<Rightarrow> Inr (marlin_linear op x qweight (qkv_scales p) (q_size p + k_size p + v_size p) (packed_bias p))
            | None \<Rightarrow> (case packed_weight p of None \<Rightarrow> Inl TypeError | Some w \<Rightarrow> Inr (f_linear w (packed_bias p) x)))
       (\<lambda>projected. split3 (q_size p) (k_size p) (v_size p) projected)"

section \<open>Checkpoint keys\<close>

fun replace_all :: "string \<Rightarrow> string \<Rightarrow> string \<Rightarrow> string" where
  "replace_all needle new [] = []"
| "replace_all needle new (c # cs) =
     (if needle \<noteq> [] \<and> prefix needle (c # cs) then new @ replace_all needle new (drop (length needle - 1) cs)
      else c # replace_all needle new cs)"

definition qkv_needle :: "string \<Rightarrow> string" where
  "qkv_needle name = ''.self_attn.'' @ name @ ''.''"

definition qkv_target :: "string \<Rightarrow> string" where
  "qkv_target name = ''.self_attn.qkv.'' @ name @ ''.''"

definition remap_key :: "string \<Rightarrow> string" where
  "remap_key key =
     (if sublist ''.self_attn.qkv.'' key then key
      else (case find (\<lambda>name. sublist (qkv_needle name) key) [''q_proj'', ''k_proj'', ''v_proj''] of
              None \<Rightarrow> key
            | Some name \<Rightarrow> replace_all (qkv_needle name) (qkv_target name) key))"

text \<open>A dictionary is an association list in insertion order.\<close>

definition remap_hf_keys :: "(string \<times> 'v) list \<Rightarrow> (string \<times> 'v) list" where
  "remap_hf_keys state_dict = fold (\<lambda>(key, v) remapped. AList.update (remap_key key) v remapped) state_dict []"

section \<open>Facts\<close>

lemma f_linear_append: "f_linear (w @ w') None x = map2 (@) (f_linear w None x) (f_linear w' None x)"
  by (induction x) (simp_all add: f_linear_def add_bias_def)

definition bias_fits :: "nat \<Rightarrow> real list option \<Rightarrow> bool" where
  "bias_fits n b = (case b of None \<Rightarrow> True | Some c \<Rightarrow> length c = n)"

text \<open>The sizes of the three layers agree with the declared ones, and all have a bias or none has.\<close>

definition qkv_ok :: "packed_qkv \<Rightarrow> nn_linear \<Rightarrow> nn_linear \<Rightarrow> nn_linear \<Rightarrow> bool" where
  "qkv_ok p q k v =
     (q_proj p = Some q \<and> k_proj p = Some k \<and> v_proj p = Some v \<and>
      length (nn_weight q) = q_size p \<and> length (nn_weight k) = k_size p \<and> length (nn_weight v) = v_size p \<and>
      bias_fits (q_size p) (nn_bias q) \<and> bias_fits (k_size p) (nn_bias k) \<and> bias_fits (v_size p) (nn_bias v) \<and>
      (nn_bias q = None \<longleftrightarrow> nn_bias k = None) \<and> (nn_bias q = None \<longleftrightarrow> nn_bias v = None))"

lemma add_bias_split:
  assumes "length y = a + b" "length ba = a" "length bb = b"
  shows "take a (map2 (+) y (ba @ bb)) = map2 (+) (take a y) ba" "drop a (map2 (+) y (ba @ bb)) = map2 (+) (drop a y) bb"
  using assms by (simp_all add: take_map drop_map take_zip drop_zip)

lemma split_linear:
  assumes "length wq = a" "length wk = b" "length wv = c"
  shows "split3 a b c (f_linear (wq @ wk @ wv) None x) = Inr (f_linear wq None x, f_linear wk None x, f_linear wv None x)"
    and "length bq = a \<Longrightarrow> length bk = b \<Longrightarrow> length bv = c \<Longrightarrow>
      split3 a b c (f_linear (wq @ wk @ wv) (Some (bq @ bk @ bv)) x)
        = Inr (f_linear wq (Some bq) x, f_linear wk (Some bk) x, f_linear wv (Some bv) x)"
proof -
  show "split3 a b c (f_linear (wq @ wk @ wv) None x) = Inr (f_linear wq None x, f_linear wk None x, f_linear wv None x)"
    using assms by (auto simp: split3_def require_def list_all_iff f_linear_def add_bias_def)
  assume l: "length bq = a" "length bk = b" "length bv = c"
  have row: "map2 (+) (map (dot v) (wq @ wk @ wv)) (bq @ bk @ bv)
      = map2 (+) (map (dot v) wq) bq @ map2 (+) (map (dot v) wk) bk @ map2 (+) (map (dot v) wv) bv" for v
    using assms l by simp
  show "split3 a b c (f_linear (wq @ wk @ wv) (Some (bq @ bk @ bv)) x)
      = Inr (f_linear wq (Some bq) x, f_linear wk (Some bk) x, f_linear wv (Some bv) x)"
    using assms l unfolding f_linear_def add_bias_def option.case row
    by (auto simp: split3_def require_def list_all_iff)
qed

lemma packed_forward:
  assumes "qkv_ok p q k v" "qkv_pack p = Inr p'" "qkv_qweight p = None"
  shows "qkv_forward op p' x = Inr (nn_forward q x, nn_forward k x, nn_forward v x)"
proof -
  have s: "length (nn_weight q) = q_size p" "length (nn_weight k) = k_size p" "length (nn_weight v) = v_size p"
    using assms(1) by (simp_all add: qkv_ok_def)
  show ?thesis
  proof (cases "nn_bias q")
    case None
    then have "qkv_forward op p' x = split3 (q_size p) (k_size p) (v_size p) (f_linear (nn_weight q @ nn_weight k @ nn_weight v) None x)"
      using assms by (auto simp: qkv_ok_def qkv_pack_def Let_def qkv_forward_def)
    then show ?thesis
      using split_linear(1) [OF s, of x] None assms(1) by (simp add: qkv_ok_def nn_forward_def)
  next
    case (Some bq)
    then obtain bk bv where b: "nn_bias k = Some bk" "nn_bias v = Some bv" using assms(1) by (auto simp: qkv_ok_def)
    then have "qkv_forward op p' x = split3 (q_size p) (k_size p) (v_size p)
        (f_linear (nn_weight q @ nn_weight k @ nn_weight v) (Some (bq @ bk @ bv)) x)"
      using assms Some by (auto simp: qkv_ok_def qkv_pack_def Let_def qkv_forward_def)
    then show ?thesis
      using split_linear(2) [OF s, of bq bk bv x] Some b assms(1)
      by (simp add: qkv_ok_def bias_fits_def nn_forward_def)
  qed
qed

text \<open>After the W4A16 transform the layer projects with the fake-quantised packed weight.\<close>

lemma quantized_forward:
  assumes op: "marlin_ok op" and quant: "qkv_quantize_w4a16 w4_group_size p = Inr p'" and w: "packed_weight p = Some w"
    and dims: "length w = q_size p + k_size p + v_size p" "0 < width w"
  shows "\<exists>w'. served_weight w = Inr w' \<and> qkv_forward op p' x = qkv_forward op (p\<lparr> packed_weight := Some w', qkv_qweight := None \<rparr>) x"
proof -
  obtain qw s where q: "quantize_packed_weight (mat_t w) w4_group_size = Inr (qw, s)"
    "p' = p\<lparr> qkv_qweight := Some qw, qkv_scales := s, qkv_workspace := replicate ((q_size p + k_size p + v_size p) div 128 * 8) 0,
       q_proj := None, k_proj := None, v_proj := None, packed_weight := None \<rparr>"
    using quant w by (auto simp: qkv_quantize_w4a16_def obind_Inr_iff Let_def)
  show ?thesis
    using quantize_served [OF op q(1)] width_mat_t [OF dims(2)] dims(1) by (auto simp: q(2) qkv_forward_def)
qed

text \<open>Renaming keys twice is renaming them once.\<close>

lemma replace_all_target:
  assumes "sublist needle key" "needle \<noteq> []"
  shows "sublist new (replace_all needle new key)"
  using assms
proof (induction needle new key rule: replace_all.induct)
  case (2 needle new c cs)
  show ?case
  proof (cases "prefix needle (c # cs)")
    case True
    then show ?thesis using "2.prems"(2) by simp
  next
    case False
    then have "sublist needle cs" using "2.prems"(1) unfolding sublist_Cons_right by blast
    then have "sublist new (replace_all needle new cs)" using "2.IH"(2) "2.prems"(2) False by blast
    then have "sublist new (c # replace_all needle new cs)" unfolding sublist_Cons_right by blast
    then show ?thesis using False by simp
  qed
qed simp

lemma find_holds: "find P xs = Some x \<Longrightarrow> P x"
  by (induction xs) (auto split: if_splits)

lemma remap_key_cases:
  "remap_key key = key \<or> (\<exists>name. sublist (qkv_needle name) key \<and> remap_key key = replace_all (qkv_needle name) (qkv_target name) key)"
proof (cases "sublist ''.self_attn.qkv.'' key")
  case False
  show ?thesis
  proof (cases "find (\<lambda>name. sublist (qkv_needle name) key) [''q_proj'', ''k_proj'', ''v_proj'']")
    case None
    then show ?thesis unfolding remap_key_def if_not_P [OF False] by (simp only: option.case simp_thms)
  next
    case (Some name)
    then show ?thesis using find_holds [OF Some] unfolding remap_key_def if_not_P [OF False] by (simp only: option.case) blast
  qed
qed (simp only: remap_key_def if_True simp_thms)

lemma remap_key_idem: "remap_key (remap_key key) = remap_key key"
proof (cases "remap_key key = key")
  case False
  then obtain name where n: "sublist (qkv_needle name) key" "remap_key key = replace_all (qkv_needle name) (qkv_target name) key"
    using remap_key_cases by blast
  have "sublist (qkv_target name) (remap_key key)"
    unfolding n(2) by (rule replace_all_target [OF n(1)]) (simp add: qkv_needle_def)
  moreover have "sublist ''.self_attn.qkv.'' (qkv_target name)" unfolding qkv_target_def by (rule sublist_append_rightI)
  ultimately have "sublist ''.self_attn.qkv.'' (remap_key key)" using sublist_order.order_trans by blast
  then show ?thesis by (simp only: remap_key_def [of "remap_key key"] if_True)
qed (simp only:)

end
