(* ===== verification/Qwen.thy ===== *)
theory Qwen
  imports PackedQKV MoE FlashInfer
begin

text \<open>
  The Qwen model runner (\<open>executors/torch/qwen.py\<close>): configuration, dense and mixture-of-experts MLP,
  attention with its four backends, decoder layer, backbone and the forward passes. The native operators
  (\<open>flash_attention\<close>, paged decode attention, Marlin, FlashInfer's wrappers) are the fields of a record.
  Exact reals; profiler ranges are not modelled.
\<close>

section \<open>Configuration\<close>

record qwen_config =
  vocab_size :: nat
  hidden_size :: nat
  intermediate_size :: nat
  num_hidden_layers :: nat
  num_attention_heads :: nat
  num_key_value_heads :: nat
  rms_norm_eps :: real
  hidden_act :: string
  rope_theta :: real
  tie_word_embeddings :: bool
  cfg_num_experts :: "nat option"
  cfg_num_experts_per_tok :: "nat option"
  cfg_moe_intermediate_size :: "nat option"
  cfg_norm_topk_prob :: bool
  cfg_qk_norm :: bool

definition cfg_head_dim :: "qwen_config \<Rightarrow> nat" where
  "cfg_head_dim c = hidden_size c div num_attention_heads c"

definition num_key_value_groups :: "qwen_config \<Rightarrow> nat" where
  "num_key_value_groups c = num_attention_heads c div num_key_value_heads c"

definition choose_num_splits :: "int \<Rightarrow> int \<Rightarrow> int" where
  "choose_num_splits num_logical_blocks max_splits =
     min max_splits (max (min num_logical_blocks 16) (num_logical_blocks div 4))"

section \<open>Operators\<close>

record attention_ops =
  op_write :: "slot_data list \<Rightarrow> slot_data list \<Rightarrow> int list \<Rightarrow> slot_data list \<Rightarrow> slot_data list \<Rightarrow> (slot_data list \<times> slot_data list) outcome"
  op_gather :: "slot_data list \<Rightarrow> slot_data list \<Rightarrow> int list \<Rightarrow> nat \<Rightarrow> (slot_data list \<times> slot_data list) outcome"
  op_flash :: "slot_data list \<Rightarrow> slot_data list \<Rightarrow> slot_data list \<Rightarrow> int \<Rightarrow> real \<Rightarrow> slot_data list"
  op_paged :: "slot_data \<Rightarrow> slot_data list \<Rightarrow> slot_data list \<Rightarrow> int list \<Rightarrow> nat \<Rightarrow> real \<Rightarrow> slot_data"
  op_split :: "slot_data \<Rightarrow> slot_data list \<Rightarrow> slot_data list \<Rightarrow> int list \<Rightarrow> nat \<Rightarrow> int \<Rightarrow> real \<Rightarrow> slot_data"
  op_flashinfer :: "plan_call \<Rightarrow> slot_data list \<Rightarrow> slot_data list \<Rightarrow> slot_data list \<Rightarrow> slot_data list"
  op_marlin :: marlin_op
  op_topk :: "real list \<Rightarrow> nat \<Rightarrow> nat list"
  op_launch :: "real list list \<Rightarrow> moe_launch"

text \<open>A projection is an \<open>nn.Linear\<close> or the layer W4A16 put in its place.\<close>

datatype projection = DenseProj nn_linear | MarlinProj marlin_layer

fun projection_forward :: "attention_ops \<Rightarrow> projection \<Rightarrow> real list list \<Rightarrow> real list list" where
  "projection_forward ops (DenseProj lin) x = nn_forward lin x"
| "projection_forward ops (MarlinProj m) x = marlin_forward (op_marlin ops) m x"

record qwen_rms_norm =
  norm_weight :: "real list"
  norm_eps :: real

definition norm_forward :: "fused_lib \<Rightarrow> qwen_rms_norm \<Rightarrow> real list list \<Rightarrow> real list list" where
  "norm_forward fl nrm x = rmsnorm fl x (norm_weight nrm) (norm_eps nrm)"

section \<open>Dense MLP\<close>

record qwen_mlp =
  gate_proj :: "nn_linear option"
  up_proj :: "nn_linear option"
  down_proj :: projection
  gate_up_weight :: "real list list option"
  gate_up_qweight :: "32 word list list option"
  gate_up_scales :: "real list list"
  mlp_workspace :: "int list"

definition pack_gate_up :: "qwen_mlp \<Rightarrow> qwen_mlp outcome" where
  "pack_gate_up mlp =
     (case (gate_proj mlp, up_proj mlp) of
        (Some g, Some u) \<Rightarrow> Inr (mlp\<lparr> gate_up_weight := Some (nn_weight g @ nn_weight u) \<rparr>)
      | _ \<Rightarrow> Inl AttributeError)"

definition mlp_init :: "qwen_config \<Rightarrow> nn_linear \<Rightarrow> nn_linear \<Rightarrow> nn_linear \<Rightarrow> qwen_mlp outcome" where
  "mlp_init config g u d =
     require (hidden_act config = ''silu'') (ValueError ''unsupported Qwen activation'')
       (pack_gate_up \<lparr> gate_proj = Some g, up_proj = Some u, down_proj = DenseProj d, gate_up_weight = None,
          gate_up_qweight = None, gate_up_scales = [], mlp_workspace = [] \<rparr>)"

definition mlp_quantize_w4a16 :: "nat \<Rightarrow> qwen_mlp \<Rightarrow> qwen_mlp outcome" where
  "mlp_quantize_w4a16 group_size mlp =
     (case gate_up_weight mlp of
        None \<Rightarrow> Inl AttributeError
      | Some w \<Rightarrow> obind (quantize_packed_weight (mat_t w) group_size) (\<lambda>(qweight, scales).
          Inr (mlp\<lparr> gate_up_qweight := Some qweight, gate_up_scales := scales,
                    mlp_workspace := replicate (length w div 128 * 8) 0,
                    gate_proj := None, up_proj := None, gate_up_weight := None \<rparr>)))"

definition mlp_forward :: "attention_ops \<Rightarrow> fused_lib \<Rightarrow> qwen_mlp \<Rightarrow> real list list \<Rightarrow> real list list outcome" where
  "mlp_forward ops fl mlp x =
     (case gate_up_qweight mlp of
        Some qweight \<Rightarrow>
          (let gate_up = marlin_linear (op_marlin ops) x qweight (gate_up_scales mlp) (width qweight div 2) None
           in Inr (projection_forward ops (down_proj mlp) (silu_and_mul fl gate_up)))
      | None \<Rightarrow>
          (if use_flashinfer_fused fl
           then (case gate_up_weight mlp of
                   None \<Rightarrow> Inl TypeError
                 | Some w \<Rightarrow> Inr (projection_forward ops (down_proj mlp) (silu_and_mul fl (f_linear w None x))))
           else (case (gate_proj mlp, up_proj mlp) of
                   (Some g, Some u) \<Rightarrow>
                     Inr (projection_forward ops (down_proj mlp) (map2 (map2 (*)) (map (map silu) (nn_forward g x)) (nn_forward u x)))
                 | _ \<Rightarrow> Inl TypeError)))"

section \<open>Mixture-of-experts MLP\<close>

record moe_expert =
  exp_gate :: nn_linear
  exp_up :: nn_linear
  exp_down :: nn_linear

record qwen_moe_mlp =
  moe_gate :: nn_linear
  moe_experts :: "moe_expert list"
  experts_per_tok :: nat
  norm_topk_prob :: bool
  use_reference_mlp :: bool
  moe_packed :: "(real list list list \<times> real list list list) option"

definition moe_init :: "qwen_config \<Rightarrow> nn_linear \<Rightarrow> moe_expert list \<Rightarrow> qwen_moe_mlp outcome" where
  "moe_init config g es =
     require (hidden_act config = ''silu'') (ValueError ''unsupported Qwen activation'')
       (case (cfg_num_experts config, cfg_num_experts_per_tok config, cfg_moe_intermediate_size config) of
          (Some e, Some k, Some i) \<Rightarrow>
            Inr \<lparr> moe_gate = g, moe_experts = es, experts_per_tok = k, norm_topk_prob = cfg_norm_topk_prob config,
                  use_reference_mlp = False, moe_packed = None \<rparr>
        | _ \<Rightarrow> Inl (ValueError ''MoE config requires num_experts, num_experts_per_tok and moe_intermediate_size''))"

definition pack_experts :: "moe_expert list \<Rightarrow> real list list list \<times> real list list list" where
  "pack_experts es =
     (map (\<lambda>e. nn_weight (exp_gate e) @ nn_weight (exp_up e)) es, map (\<lambda>e. nn_weight (exp_down e)) es)"

text \<open>The memo: all tensors of a runner share device and type, so it has one key.\<close>

definition packed_experts :: "qwen_moe_mlp \<Rightarrow> (real list list list \<times> real list list list) \<times> qwen_moe_mlp" where
  "packed_experts moe =
     (case moe_packed moe of
        Some p \<Rightarrow> (p, moe)
      | None \<Rightarrow> (let p = pack_experts (moe_experts moe) in (p, moe\<lparr> moe_packed := Some p \<rparr>)))"

definition route :: "attention_ops \<Rightarrow> qwen_moe_mlp \<Rightarrow> real list \<Rightarrow> real list \<times> int list" where
  "route ops moe logits =
     (let probs = softmax logits; ids = op_topk ops probs (experts_per_tok moe);
          ws = map (\<lambda>i. probs ! i) ids
      in (if norm_topk_prob moe then map (\<lambda>w. w / sum_list ws) ws else ws, map int ids))"

definition moe_forward ::
    "attention_ops \<Rightarrow> qwen_moe_mlp \<Rightarrow> real list list \<Rightarrow> (real list list \<times> qwen_moe_mlp) outcome" where
  "moe_forward ops moe x =
     (let routed = map (route ops moe) (nn_forward (moe_gate moe) x);
          routing_weights = map fst routed; topk_ids = map snd routed;
          ((w13, w2), moe') = packed_experts moe
      in if use_reference_mlp moe then Inr (moe_expert_mlp_reference x routing_weights topk_ids w13 w2, moe')
         else obind (moe_expert_mlp_triton (op_launch ops x) x routing_weights topk_ids w13 w2) (\<lambda>y. Inr (y, moe')))"

section \<open>Attention\<close>

text \<open>Lower-right causal grouped-query attention: one query token, then a request.\<close>

definition sdpa_token :: "nat \<Rightarrow> nat \<Rightarrow> nat \<Rightarrow> real \<Rightarrow> real option list \<Rightarrow> slot_data \<Rightarrow> slot_data list \<Rightarrow> slot_data list \<Rightarrow> slot_data" where
  "sdpa_token heads kvh d scale m q ks vs =
     (let groups = heads div kvh; rks = map (\<lambda>k. repeat_kv k groups) ks; rvs = map (\<lambda>v. repeat_kv v groups) vs
      in map (\<lambda>h. let scores = map (\<lambda>k. dot (q ! h) (k ! h) * scale) rks; probs = masked_softmax (add_mask scores m)
                   in weighted_sum d probs (map (\<lambda>v. v ! h) rvs)) [0..<heads])"

definition sdpa :: "nat \<Rightarrow> nat \<Rightarrow> nat \<Rightarrow> slot_data list \<Rightarrow> slot_data list \<Rightarrow> slot_data list \<Rightarrow> real \<Rightarrow> slot_data list" where
  "sdpa heads kvh d Q K V scale =
     map2 (\<lambda>q m. sdpa_token heads kvh d scale m q K V) Q (build_causal_mask (length Q) (int (length K) - int (length Q)))"

record qwen_attention =
  qa_heads :: nat
  qa_kv_heads :: nat
  qa_head_dim :: nat
  use_flash_attention :: bool
  use_paged_decode_attention :: bool
  paged_decode_max_splits :: int
  qa_rope_theta :: real
  qa_qkv :: packed_qkv
  qa_o_proj :: projection
  q_norm :: "qwen_rms_norm option"
  k_norm :: "qwen_rms_norm option"

definition attention_init ::
    "qwen_config \<Rightarrow> bool \<Rightarrow> bool \<Rightarrow> int \<Rightarrow> nn_linear \<Rightarrow> nn_linear \<Rightarrow> nn_linear \<Rightarrow> nn_linear \<Rightarrow> qwen_rms_norm \<Rightarrow> qwen_rms_norm
       \<Rightarrow> qwen_attention outcome" where
  "attention_init config flash paged max_splits q k v out qn kn =
     require (num_key_value_heads config \<noteq> 0) ZeroDivisionError
    (require (num_attention_heads config mod num_key_value_heads config = 0)
       (ValueError ''num_attention_heads must be divisible by num_key_value_heads'')
    (require (num_attention_heads config \<noteq> 0) ZeroDivisionError
       (let attention_size = num_attention_heads config * cfg_head_dim config;
            kv_size = num_key_value_heads config * cfg_head_dim config
        in obind (qkv_init (int (hidden_size config)) (int attention_size) (int kv_size) (int kv_size) q k v) (\<lambda>qkv.
             Inr \<lparr> qa_heads = num_attention_heads config, qa_kv_heads = num_key_value_heads config,
                   qa_head_dim = cfg_head_dim config, use_flash_attention = flash, use_paged_decode_attention = paged,
                   paged_decode_max_splits = max_splits, qa_rope_theta = rope_theta config, qa_qkv = qkv,
                   qa_o_proj = DenseProj out, q_norm = (if cfg_qk_norm config then Some qn else None),
                   k_norm = (if cfg_qk_norm config then Some kn else None) \<rparr>))))"

text \<open>The per-head norms.\<close>

definition qk_norms ::
    "fused_lib \<Rightarrow> qwen_attention \<Rightarrow> slot_data list \<Rightarrow> slot_data list \<Rightarrow> (slot_data list \<times> slot_data list) outcome" where
  "qk_norms fl attn Q K =
     (case q_norm attn of
        None \<Rightarrow> Inr (Q, K)
      | Some qn \<Rightarrow>
          (case k_norm attn of
             None \<Rightarrow> Inl TypeError
           | Some kn \<Rightarrow> Inr (map (norm_forward fl qn) Q, map (norm_forward fl kn) K)))"

definition request_output ::
    "attention_ops \<Rightarrow> qwen_attention \<Rightarrow> nat \<Rightarrow> model_input \<Rightarrow> slot_data list \<Rightarrow> slot_data kv_storage \<Rightarrow> nat \<Rightarrow> real list list outcome" where
  "request_output ops attn idx mi Q st r =
     obind (onth (mi_query_start_loc_host mi) r) (\<lambda>query_start.
     obind (onth (mi_query_start_loc_host mi) (r + 1)) (\<lambda>query_end.
     obind (onth (mi_context_lens_host mi) r) (\<lambda>context_len.
       let q_len = query_end - query_start; request_Q = take q_len (drop query_start Q);
           scale = 1 / sqrt (real (qa_head_dim attn))
       in if use_paged_decode_attention attn \<and> q_len = 1 then
            obind (layer_cache st idx) (\<lambda>(kc, vc).
            require (geo_block_len (geometry st) \<noteq> 0) ZeroDivisionError
              (let num_logical_blocks = ceil_div context_len (geo_block_len (geometry st));
                   num_splits = choose_num_splits (int num_logical_blocks) (paged_decode_max_splits attn)
               in obind (onth request_Q 0) (\<lambda>q.
                  obind (onth (mi_block_tables mi) r) (\<lambda>table.
                    Inr [concat (if num_splits = 1 then op_paged ops q kc vc table context_len scale
                                 else op_split ops q kc vc table context_len num_splits scale)]))))
          else
            obind (onth (mi_block_tables mi) r) (\<lambda>table.
            obind (gather_context (op_gather ops) st idx table context_len) (\<lambda>(K, V).
              Inr (map concat
                (if use_flash_attention attn then op_flash ops request_Q K V (int context_len - int q_len) scale
                 else sdpa (qa_heads attn) (qa_kv_heads attn) (qa_head_dim attn) request_Q K V scale)))))))"

text \<open>\<open>call\<close> is the plan the FlashInfer wrapper holds, \<open>None\<close> for the other backends.\<close>

definition attention_forward ::
    "attention_ops \<Rightarrow> fused_lib \<Rightarrow> plan_call option \<Rightarrow> qwen_attention \<Rightarrow> nat \<Rightarrow> real list list \<Rightarrow> (real list \<times> real list) list option
       \<Rightarrow> model_input \<Rightarrow> slot_data kv_storage \<Rightarrow> (real list list \<times> slot_data kv_storage) outcome" where
  "attention_forward ops fl call attn idx x cos_sin mi st =
     obind (qkv_forward (op_marlin ops) (qa_qkv attn) x) (\<lambda>(q, k, v).
       let d = qa_head_dim attn; Q = map (rows_of d) q; K = map (rows_of d) k; V = map (rows_of d) v
       in obind (qk_norms fl attn Q K) (\<lambda>(Q, K).
          obind (if use_flashinfer_fused fl then Inr (apply_rope_inplace fl Q K (mi_position mi) (qa_rope_theta attn))
                 else (case cos_sin of
                         None \<Rightarrow> Inl AttributeError
                       | Some cs \<Rightarrow> Inr (map2 (\<lambda>c y. map (apply_rotary c) y) cs Q, map2 (\<lambda>c y. map (apply_rotary c) y) cs K))) (\<lambda>(Q, K).
          obind (write_slots (op_write ops) (\<lambda>_ s. s) (st_kv_dtype st) st idx (mi_slot_mapping mi) K V) (\<lambda>st'.
            case call of
              Some c \<Rightarrow>
                obind (layer_cache st' idx) (\<lambda>(kc, vc).
                  Inr (projection_forward ops (qa_o_proj attn) (map concat (op_flashinfer ops c Q kc vc)), st'))
            | None \<Rightarrow>
                require (mi_packed_mask mi = None)
                  (ValueError ''custom attention masks (tree speculation) require the FlashInfer attention backend'')
                  (obind (omap (request_output ops attn idx mi Q st') [0..<length (mi_query_start_loc_host mi) - 1]) (\<lambda>outs.
                    require (outs \<noteq> []) (RuntimeError ''torch.cat(): expected a non-empty list of Tensors'')
                      (Inr (projection_forward ops (qa_o_proj attn) (concat outs), st'))))))))"

section \<open>Layers\<close>

datatype qwen_ffn = DenseMlp qwen_mlp | MoeMlp qwen_moe_mlp

text \<open>The memo of the packed experts is not threaded through a forward: \<open>packed_memo\<close> below shows that it
  never changes a result.\<close>

fun ffn_forward :: "attention_ops \<Rightarrow> fused_lib \<Rightarrow> qwen_ffn \<Rightarrow> real list list \<Rightarrow> real list list outcome" where
  "ffn_forward ops fl (DenseMlp mlp) x = mlp_forward ops fl mlp x"
| "ffn_forward ops fl (MoeMlp moe) x = obind (moe_forward ops moe x) (\<lambda>(y, moe'). Inr y)"

record qwen_layer =
  self_attn :: qwen_attention
  ffn :: qwen_ffn
  input_layernorm :: qwen_rms_norm
  post_attention_layernorm :: qwen_rms_norm

definition layer_step ::
    "attention_ops \<Rightarrow> fused_lib \<Rightarrow> plan_call option \<Rightarrow> qwen_layer \<Rightarrow> nat \<Rightarrow> real list list \<times> real list list option
       \<Rightarrow> (real list \<times> real list) list option \<Rightarrow> model_input \<Rightarrow> slot_data kv_storage
       \<Rightarrow> ((real list list \<times> real list list option) \<times> slot_data kv_storage) outcome" where
  "layer_step ops fl call ly idx hr cos_sin mi st =
     (let (h, residual) = hr;
          (x, residual) = (case residual of
             None \<Rightarrow> (norm_forward fl (input_layernorm ly) h, h)
           | Some r \<Rightarrow> fused_add_rmsnorm fl h r (norm_weight (input_layernorm ly)) (norm_eps (input_layernorm ly)))
      in obind (attention_forward ops fl call (self_attn ly) idx x cos_sin mi st) (\<lambda>(a, st').
           let (x, residual) = fused_add_rmsnorm fl a residual (norm_weight (post_attention_layernorm ly)) (norm_eps (post_attention_layernorm ly))
           in obind (ffn_forward ops fl (ffn ly) x) (\<lambda>y. Inr ((y, Some residual), st'))))"

record qwen_model =
  embed_tokens :: "real list list"
  qwen_layers :: "qwen_layer list"
  final_norm :: qwen_rms_norm
  rotary_inv_freq :: "real list"
  qwen_lm_head :: "real list list"

definition embed_lookup :: "real list list \<Rightarrow> int list \<Rightarrow> real list list outcome" where
  "embed_lookup table toks =
     omap (\<lambda>t. if 0 \<le> t \<and> t < int (length table) then Inr (table ! nat t) else Inl IndexError) toks"

definition forward_compute ::
    "attention_ops \<Rightarrow> fused_lib \<Rightarrow> plan_call option \<Rightarrow> qwen_model \<Rightarrow> model_input \<Rightarrow> slot_data kv_storage
       \<Rightarrow> (real list list \<times> slot_data kv_storage) outcome" where
  "forward_compute ops fl call M mi st =
     obind (embed_lookup (embed_tokens M) (mi_input_token_ids mi)) (\<lambda>h0.
       let cos_sin = (if use_flashinfer_fused fl then None else Some (map (rotary_forward (rotary_inv_freq M)) (mi_position mi)))
       in obind (ofold (\<lambda>(idx, ly) (hr, s). layer_step ops fl call ly idx hr cos_sin mi s)
                   (zip [0..<length (qwen_layers M)] (qwen_layers M)) ((h0, None), st)) (\<lambda>((h, residual), st').
            let x = (case residual of
                       None \<Rightarrow> norm_forward fl (final_norm M) h
                     | Some r \<Rightarrow> fst (fused_add_rmsnorm fl h r (norm_weight (final_norm M)) (norm_eps (final_norm M))))
            in Inr (f_linear (qwen_lm_head M) None x, st')))"

text \<open>The runner's state: the cache and, with that backend, FlashInfer's host state.\<close>

definition qwen_forward ::
    "attention_ops \<Rightarrow> fused_lib \<Rightarrow> qwen_model \<Rightarrow> model_input \<Rightarrow> fi_attention option \<times> slot_data kv_storage
       \<Rightarrow> (real list list \<times> fi_attention option \<times> slot_data kv_storage) outcome" where
  "qwen_forward ops fl M mi s =
     (case s of
        (None, st) \<Rightarrow> obind (forward_compute ops fl None M mi st) (\<lambda>(logits, st'). Inr (logits, None, st'))
      | (Some fi, st) \<Rightarrow>
          obind (fi_plan fi mi) (\<lambda>(call, fi').
          obind (forward_compute ops fl (Some call) M mi st) (\<lambda>(logits, st'). Inr (logits, Some fi', st'))))"

section \<open>Loading\<close>

text \<open>The loop of \<open>load_state_dict\<close> after the weights are in place, and \<open>quantize_runner_w4a16\<close>. A
  \<open>QwenMoEMLP\<close> has neither \<open>pack_gate_up\<close> nor \<open>quantize_w4a16\<close>.\<close>

definition pack_layer :: "qwen_layer \<Rightarrow> qwen_layer outcome" where
  "pack_layer ly =
     obind (case ffn ly of DenseMlp mlp \<Rightarrow> obind (pack_gate_up mlp) (\<lambda>m. Inr (DenseMlp m)) | MoeMlp _ \<Rightarrow> Inl AttributeError) (\<lambda>f.
     obind (qkv_pack (qa_qkv (self_attn ly))) (\<lambda>qkv.
       Inr (ly\<lparr> ffn := f, self_attn := (self_attn ly)\<lparr> qa_qkv := qkv \<rparr> \<rparr>)))"

definition marlin_projection :: "nat \<Rightarrow> projection \<Rightarrow> projection outcome" where
  "marlin_projection group_size p =
     (case p of DenseProj lin \<Rightarrow> obind (from_linear lin group_size) (\<lambda>m. Inr (MarlinProj m)) | MarlinProj _ \<Rightarrow> Inl AttributeError)"

definition quantize_layer :: "nat \<Rightarrow> qwen_layer \<Rightarrow> qwen_layer outcome" where
  "quantize_layer group_size ly =
     obind (qkv_quantize_w4a16 group_size (qa_qkv (self_attn ly))) (\<lambda>qkv.
     obind (marlin_projection group_size (qa_o_proj (self_attn ly))) (\<lambda>out.
     obind (case ffn ly of
              DenseMlp mlp \<Rightarrow> obind (mlp_quantize_w4a16 group_size mlp) (\<lambda>m.
                obind (marlin_projection group_size (down_proj m)) (\<lambda>d. Inr (DenseMlp (m\<lparr> down_proj := d \<rparr>))))
            | MoeMlp _ \<Rightarrow> Inl AttributeError) (\<lambda>f.
       Inr (ly\<lparr> ffn := f, self_attn := (self_attn ly)\<lparr> qa_qkv := qkv, qa_o_proj := out \<rparr> \<rparr>))))"

definition quantize_runner_w4a16 :: "nat \<Rightarrow> qwen_model \<Rightarrow> qwen_model outcome" where
  "quantize_runner_w4a16 group_size M =
     obind (omap (quantize_layer group_size) (qwen_layers M)) (\<lambda>lys. Inr (M\<lparr> qwen_layers := lys \<rparr>))"

definition finish_load :: "bool \<Rightarrow> qwen_model \<Rightarrow> qwen_model outcome" where
  "finish_load w4a16 M =
     obind (omap pack_layer (qwen_layers M)) (\<lambda>lys.
       let M' = M\<lparr> qwen_layers := lys \<rparr>
       in if w4a16 then quantize_runner_w4a16 w4_group_size M' else Inr M')"

text \<open>The checks of \<open>QwenModelRunner.__init__\<close>.\<close>

definition runner_checks ::
    "qwen_config \<Rightarrow> slot_data kv_storage \<Rightarrow> bool \<Rightarrow> bool \<Rightarrow> bool \<Rightarrow> bool \<Rightarrow> bool \<Rightarrow> int \<Rightarrow> bool \<Rightarrow> bool \<Rightarrow> unit outcome" where
  "runner_checks config st cuda_available is_cuda flash paged flashinfer max_splits dtype_given w4a16 =
     (let g = geometry st
      in require (\<not> (w4a16 \<and> \<not> cuda_available)) (ValueError ''W4A16 quantized weights require a CUDA device'')
        (require (num_layers g = num_hidden_layers config \<and> num_kv_heads g = num_key_value_heads config \<and>
                  geo_head_dim g = cfg_head_dim config) (ValueError ''cache geometry must match Qwen configuration'')
        (require (st_kv_dtype st \<in> set float_dtypes \<or> flashinfer) (ValueError ''FP8 KV cache requires the FlashInfer attention backend'')
        (require (st_kv_dtype st \<in> set float_dtypes \<or> dtype_given) (ValueError ''FP8 KV cache requires an explicit model dtype'')
        (require (\<not> (flashinfer \<and> (flash \<or> paged))) (ValueError ''FlashInfer attention cannot be combined with in-house attention flags'')
        (require (\<not> (flash \<and> cfg_head_dim config \<noteq> 64)) (ValueError ''FlashAttention v0 requires head_dim == 64'')
        (require (\<not> (paged \<and> \<not> is_cuda)) (ValueError ''Paged Decode Attention requires CUDA cache storage'')
        (require (\<not> (paged \<and> (cfg_head_dim config mod 32 \<noteq> 0 \<or> cfg_head_dim config > 256)))
           (ValueError ''Paged Decode Attention requires head_dim to be a multiple of 32 and no greater than 256'')
        (require (\<not> (paged \<and> max_splits \<le> 0)) (ValueError ''paged_decode_max_splits must be positive'')
        (require (\<not> (flashinfer \<and> \<not> is_cuda)) (ValueError ''FlashInfer attention requires CUDA cache storage'')
           (Inr ())))))))))))"

section \<open>First facts\<close>

text \<open>The operator's precondition on the number of splits.\<close>

lemma num_splits_bounds:
  assumes "1 \<le> n" "1 \<le> max_splits"
  shows "1 \<le> choose_num_splits n max_splits \<and> choose_num_splits n max_splits \<le> n \<and> choose_num_splits n max_splits \<le> max_splits"
  using assms by (auto simp: choose_num_splits_def min_def max_def)

text \<open>The memo of the packed experts: whatever forwards ran before, packing again gives the same.\<close>

definition memo_ok :: "qwen_moe_mlp \<Rightarrow> bool" where
  "memo_ok moe = (moe_packed moe = None \<or> moe_packed moe = Some (pack_experts (moe_experts moe)))"

lemma packed_memo:
  "memo_ok moe \<Longrightarrow> fst (packed_experts moe) = pack_experts (moe_experts moe) \<and> memo_ok (snd (packed_experts moe)) \<and>
     moe_experts (snd (packed_experts moe)) = moe_experts moe"
  by (auto simp: memo_ok_def packed_experts_def Let_def)


definition moe_model :: qwen_model where
  "moe_model =
     (let lin = \<lparr> nn_weight = [[1]], nn_bias = None \<rparr>; nrm = \<lparr> norm_weight = [1], norm_eps = 1 \<rparr>;
          attn = \<lparr> qa_heads = 1, qa_kv_heads = 1, qa_head_dim = 1, use_flash_attention = False, use_paged_decode_attention = False,
            paged_decode_max_splits = 16, qa_rope_theta = 10000,
            qa_qkv = \<lparr> q_size = 1, k_size = 1, v_size = 1, q_proj = Some lin, k_proj = Some lin, v_proj = Some lin, packed_weight = None,
              packed_bias = None, qkv_qweight = None, qkv_scales = [], qkv_workspace = [] \<rparr>,
            qa_o_proj = DenseProj lin, q_norm = None, k_norm = None \<rparr>;
          moe = \<lparr> moe_gate = lin, moe_experts = [\<lparr> exp_gate = lin, exp_up = lin, exp_down = lin \<rparr>], experts_per_tok = 1,
            norm_topk_prob = True, use_reference_mlp = False, moe_packed = None \<rparr>
      in \<lparr> embed_tokens = [[1]],
           qwen_layers = [\<lparr> self_attn = attn, ffn = MoeMlp moe, input_layernorm = nrm, post_attention_layernorm = nrm \<rparr>],
           final_norm = nrm, rotary_inv_freq = [1], qwen_lm_head = [[1]] \<rparr>)"


end
