(* ===== verification/QwenForward.thy ===== *)
theory QwenForward
  imports Qwen CachedStack
begin

text \<open>
  The Qwen forward over the paged cache against recomputation without a cache, for every attention
  backend: the row-wise reference of a layer, the contracts of the native attention operators, and the
  proof that a layer of the model meets the contract \<open>cached_stack\<close>.
\<close>

section \<open>Row by row\<close>

text \<open>What the projections and the MLP of a layer compute for one row.\<close>

record row_layer =
  rl_q :: "real list \<Rightarrow> real list"
  rl_k :: "real list \<Rightarrow> real list"
  rl_v :: "real list \<Rightarrow> real list"
  rl_o :: "real list \<Rightarrow> real list"
  rl_ffn :: "real list \<Rightarrow> real list"

definition norm_row :: "qwen_rms_norm \<Rightarrow> real list \<Rightarrow> real list" where
  "norm_row nrm v = rmsnorm_row (norm_weight nrm) (norm_eps nrm) v"

definition head_norm_row :: "qwen_rms_norm option \<Rightarrow> slot_data \<Rightarrow> slot_data" where
  "head_norm_row nrm s = (case nrm of None \<Rightarrow> s | Some w \<Rightarrow> map (norm_row w) s)"

text \<open>A row before layer \<open>l\<close> is the hidden state with the residual it carries; before the first layer there
  is no residual.\<close>

definition resid :: "nat \<Rightarrow> real list \<times> real list \<Rightarrow> real list" where
  "resid l s = (if l = 0 then fst s else map2 (+) (snd s) (fst s))"

definition row_in :: "qwen_layer \<Rightarrow> nat \<Rightarrow> real list \<times> real list \<Rightarrow> real list" where
  "row_in ly l s = norm_row (input_layernorm ly) (resid l s)"

definition row_q :: "real list \<Rightarrow> qwen_layer \<Rightarrow> row_layer \<Rightarrow> nat \<Rightarrow> nat \<Rightarrow> real list \<times> real list \<Rightarrow> slot_data" where
  "row_q f ly rl l i s = rotated f (int i) (head_norm_row (q_norm (self_attn ly)) (rows_of (qa_head_dim (self_attn ly)) (rl_q rl (row_in ly l s))))"

definition row_k :: "real list \<Rightarrow> qwen_layer \<Rightarrow> row_layer \<Rightarrow> nat \<Rightarrow> nat \<Rightarrow> real list \<times> real list \<Rightarrow> slot_data" where
  "row_k f ly rl l i s = rotated f (int i) (head_norm_row (k_norm (self_attn ly)) (rows_of (qa_head_dim (self_attn ly)) (rl_k rl (row_in ly l s))))"

definition qwen_queries :: "real list \<Rightarrow> qwen_layer \<Rightarrow> row_layer \<Rightarrow> nat \<Rightarrow> (real list \<times> real list) list \<Rightarrow> slot_data list" where
  "qwen_queries f ly rl l H = map (\<lambda>i. row_q f ly rl l i (H ! i)) [0..<length H]"

definition qwen_keys :: "real list \<Rightarrow> qwen_layer \<Rightarrow> row_layer \<Rightarrow> nat \<Rightarrow> (real list \<times> real list) list \<Rightarrow> slot_data list" where
  "qwen_keys f ly rl l H = map (\<lambda>i. row_k f ly rl l i (H ! i)) [0..<length H]"

definition qwen_vals :: "qwen_layer \<Rightarrow> row_layer \<Rightarrow> nat \<Rightarrow> (real list \<times> real list) list \<Rightarrow> slot_data list" where
  "qwen_vals ly rl l H = map (\<lambda>s. rows_of (qa_head_dim (self_attn ly)) (rl_v rl (row_in ly l s))) H"

text \<open>One query over a context, in the layer's head layout.\<close>

definition attend :: "qwen_attention \<Rightarrow> slot_data \<Rightarrow> slot_data list \<Rightarrow> slot_data list \<Rightarrow> slot_data" where
  "attend attn q ks vs = sdpa_token (qa_heads attn) (qa_kv_heads attn) (qa_head_dim attn) (1 / sqrt (real (qa_head_dim attn)))
     (replicate (length ks) (Some 0)) q ks vs"

definition attn_row :: "real list \<Rightarrow> qwen_layer \<Rightarrow> row_layer \<Rightarrow> nat \<Rightarrow> (real list \<times> real list) list \<Rightarrow> nat \<Rightarrow> real list" where
  "attn_row f ly rl l H i = rl_o rl (concat (attend (self_attn ly) (row_q f ly rl l i (H ! i))
     (take (Suc i) (qwen_keys f ly rl l H)) (take (Suc i) (qwen_vals ly rl l H))))"

definition next_row :: "real list \<Rightarrow> qwen_layer \<Rightarrow> row_layer \<Rightarrow> nat \<Rightarrow> (real list \<times> real list) list \<Rightarrow> nat \<Rightarrow> real list \<times> real list" where
  "next_row f ly rl l H i =
     (let r = map2 (+) (resid l (H ! i)) (attn_row f ly rl l H i)
      in (rl_ffn rl (norm_row (post_attention_layernorm ly) r), r))"

definition qwen_next :: "real list \<Rightarrow> qwen_layer \<Rightarrow> row_layer \<Rightarrow> nat \<Rightarrow> (real list \<times> real list) list \<Rightarrow> (real list \<times> real list) list" where
  "qwen_next f ly rl l H = map (next_row f ly rl l H) [0..<length H]"

definition token_row :: "qwen_model \<Rightarrow> nat \<Rightarrow> int \<Rightarrow> real list" where
  "token_row M hs t = (if 0 \<le> t \<and> t < int (length (embed_tokens M)) then embed_tokens M ! nat t else replicate hs 0)"

definition qwen_hidden :: "qwen_model \<Rightarrow> row_layer list \<Rightarrow> nat \<Rightarrow> nat \<Rightarrow> int list \<Rightarrow> (real list \<times> real list) list" where
  "qwen_hidden M rls hs n xs =
     fold (\<lambda>l. qwen_next (rotary_inv_freq M) (qwen_layers M ! l) (rls ! l) l) [0..<n] (map (\<lambda>t. (token_row M hs t, [])) xs)"

definition qwen_logit_row :: "qwen_model \<Rightarrow> real list \<times> real list \<Rightarrow> real list" where
  "qwen_logit_row M s = map (dot (norm_row (final_norm M) (resid (length (qwen_layers M)) s))) (qwen_lm_head M)"

definition qwen_logits :: "qwen_model \<Rightarrow> row_layer list \<Rightarrow> nat \<Rightarrow> int list \<Rightarrow> real list" where
  "qwen_logits M rls hs xs = qwen_logit_row M (last (qwen_hidden M rls hs (length (qwen_layers M)) xs))"

lemma length_qwen_next [simp]: "length (qwen_next f ly rl l H) = length H"
  by (simp add: qwen_next_def)

lemma length_qwen_keys [simp]:
  "length (qwen_keys f ly rl l H) = length H" "length (qwen_vals ly rl l H) = length H" "length (qwen_queries f ly rl l H) = length H"
  by (simp_all add: qwen_keys_def qwen_vals_def qwen_queries_def)

lemma qwen_keys_take:
  "qwen_keys f ly rl l (take n H) = take n (qwen_keys f ly rl l H)" "qwen_vals ly rl l (take n H) = take n (qwen_vals ly rl l H)"
  by (auto simp: qwen_keys_def qwen_vals_def take_map intro!: nth_equalityI)

lemma qwen_next_take: "qwen_next f ly rl l (take n H) = take n (qwen_next f ly rl l H)"
proof (rule nth_equalityI)
  fix i assume "i < length (qwen_next f ly rl l (take n H))"
  then have i: "i < n" "i < length H" by auto
  then have "min (Suc i) n = Suc i" by simp
  with i show "qwen_next f ly rl l (take n H) ! i = take n (qwen_next f ly rl l H) ! i"
    by (simp add: qwen_next_def next_row_def attn_row_def qwen_keys_take min_def)
qed simp

lemma length_qwen_hidden [simp]: "length (qwen_hidden M rls hs n xs) = length xs"
  unfolding qwen_hidden_def by (induction n) simp_all

lemma qwen_hidden_Suc:
  "qwen_hidden M rls hs (Suc n) xs = qwen_next (rotary_inv_freq M) (qwen_layers M ! n) (rls ! n) n (qwen_hidden M rls hs n xs)"
  by (simp add: qwen_hidden_def)

lemma qwen_hidden_take: "qwen_hidden M rls hs n (take m xs) = take m (qwen_hidden M rls hs n xs)"
  by (induction n) (simp_all add: qwen_hidden_Suc qwen_next_take, simp add: qwen_hidden_def take_map)

lemma qwen_logits_nth:
  "i < length xs \<Longrightarrow> qwen_logit_row M (qwen_hidden M rls hs (length (qwen_layers M)) xs ! i) = qwen_logits M rls hs (take (Suc i) xs)"
  unfolding qwen_logits_def qwen_hidden_take by (simp add: take_Suc_conv_app_nth)

section \<open>Causal attention is attention over a prefix\<close>

lemma attend_token_sdpa:
  "attend_token \<lparr> num_heads = nh, kv_heads = kvh, head_dim = d, lin_q = a, lin_k = b, lin_v = c, lin_o = e \<rparr> m q ks vs
    = concat (sdpa_token nh kvh d (1 / sqrt (real d)) m q ks vs)"
  by (simp add: attend_token_def sdpa_token_def Let_def)

lemma sdpa_prefix:
  assumes "Q = drop s Qs" "length Qs = length K" "length V = length K" "s \<le> length K"
  shows "map concat (sdpa (qa_heads attn) (qa_kv_heads attn) (qa_head_dim attn) Q K V (1 / sqrt (real (qa_head_dim attn))))
    = map (\<lambda>i. concat (attend attn (Qs ! i) (take (Suc i) K) (take (Suc i) V))) [s..<length K]"
proof (rule nth_equalityI)
  have lQ: "length Q = length K - s" using assms by simp
  have lm: "length (build_causal_mask (length Q) (int (length K) - int (length Q))) = length Q"
    by (simp add: build_causal_mask_def Let_def)
  show "length (map concat (sdpa (qa_heads attn) (qa_kv_heads attn) (qa_head_dim attn) Q K V (1 / sqrt (real (qa_head_dim attn)))))
      = length (map (\<lambda>i. concat (attend attn (Qs ! i) (take (Suc i) K) (take (Suc i) V))) [s..<length K])"
    using lQ lm by (simp add: sdpa_def)
  fix i assume "i < length (map concat (sdpa (qa_heads attn) (qa_kv_heads attn) (qa_head_dim attn) Q K V (1 / sqrt (real (qa_head_dim attn)))))"
  then have i: "i < length Q" using lm by (simp add: sdpa_def)
  let ?L = "\<lparr> num_heads = qa_heads attn, kv_heads = qa_kv_heads attn, head_dim = qa_head_dim attn,
     lin_q = undefined, lin_k = undefined, lin_v = undefined, lin_o = undefined \<rparr>"
  have m: "build_causal_mask (length Q) (int (length K) - int (length Q)) ! i = map (\<lambda>t. if t < Suc (s + i) then Some 0 else None) [0..<length K]"
    using causal_mask_row [OF i, of "length K"] lQ assms(4) i by simp
  have "attend_token ?L (build_causal_mask (length Q) (int (length K) - int (length Q)) ! i) (Q ! i) K V
      = attend_token ?L (replicate (Suc (s + i)) (Some 0)) (Q ! i) (take (Suc (s + i)) K) (take (Suc (s + i)) V)"
    using lQ i assms(3) by (intro masked_prefix [OF _ assms(3) m]) simp
  moreover have "Q ! i = Qs ! (s + i)" using i assms by simp
  moreover have "length (take (Suc (s + i)) K) = Suc (s + i)" using lQ i by simp
  ultimately show "map concat (sdpa (qa_heads attn) (qa_kv_heads attn) (qa_head_dim attn) Q K V (1 / sqrt (real (qa_head_dim attn)))) ! i
      = map (\<lambda>i. concat (attend attn (Qs ! i) (take (Suc i) K) (take (Suc i) V))) [s..<length K] ! i"
    using i lm lQ unfolding attend_token_sdpa attend_def by (simp add: sdpa_def)
qed

section \<open>The operators' contracts\<close>

text \<open>What the page table \<open>table\<close> reads from a layer's flat cache.\<close>

definition paged_context :: "nat \<Rightarrow> slot_data list \<Rightarrow> int list \<Rightarrow> nat \<Rightarrow> slot_data list" where
  "paged_context bl cache table n = map (\<lambda>p. cache ! nat (slot_at table bl p)) [0..<n]"

text \<open>FlashInfer's paged prefill: request \<open>r\<close> of the plan owns the query rows between its two offsets and the
  pages between its two page offsets, of which the last is filled up to \<open>last_page_len\<close>.\<close>

definition csr_attention :: "nat \<Rightarrow> qwen_attention \<Rightarrow> plan_call \<Rightarrow> slot_data list \<Rightarrow> slot_data list \<Rightarrow> slot_data list \<Rightarrow> slot_data list" where
  "csr_attention bl attn call Q kc vc =
     (let qo = (case pc_qo_indptr call of Some p \<Rightarrow> p | None \<Rightarrow> map int [0..<length (pc_kv_indptr call)]); kv = pc_kv_indptr call
      in concat (map (\<lambda>r.
           let qs = nat (qo ! r); qe = nat (qo ! Suc r);
               pages = take (nat (kv ! Suc r) - nat (kv ! r)) (drop (nat (kv ! r)) (pc_indices call));
               n = (length pages - 1) * bl + nat (pc_last_page call ! r)
           in sdpa (qa_heads attn) (qa_kv_heads attn) (qa_head_dim attn) (take (qe - qs) (drop qs Q))
                (paged_context bl kc pages n) (paged_context bl vc pages n) (1 / sqrt (real (qa_head_dim attn)))) [0..<length kv - 1]))"

definition attention_ops_ok :: "attention_ops \<Rightarrow> nat \<Rightarrow> qwen_attention \<Rightarrow> bool" where
  "attention_ops_ok ops bl attn =
     (let scale = 1 / sqrt (real (qa_head_dim attn))
      in (use_flash_attention attn \<longrightarrow> (\<forall>Q K V. length Q \<le> length K \<longrightarrow> length V = length K \<longrightarrow>
            op_flash ops Q K V (int (length K) - int (length Q)) scale = sdpa (qa_heads attn) (qa_kv_heads attn) (qa_head_dim attn) Q K V scale)) \<and>
         (use_paged_decode_attention attn \<longrightarrow> 1 \<le> paged_decode_max_splits attn \<and>
           (\<forall>q kc vc table n. 1 \<le> n \<longrightarrow>
             op_paged ops q kc vc table n scale = attend attn q (paged_context bl kc table n) (paged_context bl vc table n) \<and>
             (\<forall>splits. 1 \<le> splits \<longrightarrow> splits \<le> int (ceil_div n bl) \<longrightarrow>
               op_split ops q kc vc table n splits scale = attend attn q (paged_context bl kc table n) (paged_context bl vc table n)))) \<and>
         (\<forall>call Q kc vc. pc_causal call \<longrightarrow> pc_mask call = None \<longrightarrow> op_flashinfer ops call Q kc vc = csr_attention bl attn call Q kc vc))"

lemma flash_contract:
  "attention_ops_ok ops bl attn \<Longrightarrow> use_flash_attention attn \<Longrightarrow> length Q \<le> length K \<Longrightarrow> length V = length K \<Longrightarrow>
     op_flash ops Q K V (int (length K) - int (length Q)) (1 / sqrt (real (qa_head_dim attn)))
       = sdpa (qa_heads attn) (qa_kv_heads attn) (qa_head_dim attn) Q K V (1 / sqrt (real (qa_head_dim attn)))"
  unfolding attention_ops_ok_def Let_def by blast

text \<open>The plan a batch is entitled to.\<close>

definition plan_describes :: "nat \<Rightarrow> scheduled_request list \<Rightarrow> plan_call \<Rightarrow> bool" where
  "plan_describes bl rs call =
     ((case pc_qo_indptr call of
         Some p \<Rightarrow> p = map int (prefix_sums 0 (map token_count rs))
       | None \<Rightarrow> \<forall>r \<in> set rs. token_count r = 1) \<and>
      pc_kv_indptr call = map int (prefix_sums 0 (map (pages_of bl) rs)) \<and>
      pc_indices call = concat (map (\<lambda>r. take (pages_of bl r) (block_table r)) rs) \<and>
      pc_last_page call = map (int \<circ> last_page_of bl \<circ> request_context) rs \<and> pc_causal call \<and> pc_mask call = None)"

lemma prefix_sums_ones: "prefix_sums acc (replicate n 1) = [acc..<acc + n + 1]"
  by (induction n arbitrary: acc) (simp_all add: upt_rec)

lemma plan_describes_qo:
  assumes "plan_describes bl rs call"
  shows "(case pc_qo_indptr call of Some p \<Rightarrow> p | None \<Rightarrow> map int [0..<length (pc_kv_indptr call)])
    = map int (prefix_sums 0 (map token_count rs))"
proof (cases "pc_qo_indptr call")
  case None
  then have "map token_count rs = replicate (length rs) 1" "length (pc_kv_indptr call) = length rs + 1"
    using assms by (auto simp: plan_describes_def map_replicate_const [symmetric])
  then show ?thesis using None prefix_sums_ones [of 0 "length rs"] by simp
qed (use assms in \<open>simp add: plan_describes_def\<close>)

section \<open>One request\<close>

lemma paged_context_held:
  assumes "bl > 0" "slots_hold bl st idx table K V n" "length K = n" "length V = n"
    and "take (ceil_div n bl) table' = take (ceil_div n bl) table"
  shows "paged_context bl (K_cache st ! idx) table' n = K" "paged_context bl (V_cache st ! idx) table' n = V"
proof -
  have "slot_at table' bl p = slot_at table bl p" if "p < n" for p
    by (rule slot_at_cong [OF assms(5) div_less_ceil_div [OF assms(1) that]])
  then show "paged_context bl (K_cache st ! idx) table' n = K" "paged_context bl (V_cache st ! idx) table' n = V"
    using assms(2-4) by (auto simp: paged_context_def slots_hold_def intro!: nth_equalityI)
qed

text \<open>The output rows a request is owed.\<close>

definition request_rows :: "qwen_attention \<Rightarrow> scheduled_request \<Rightarrow> slot_data list \<Rightarrow> slot_data list \<Rightarrow> slot_data list \<Rightarrow> real list list" where
  "request_rows attn r Qs K V = map (\<lambda>i. concat (attend attn (Qs ! i) (take (Suc i) K) (take (Suc i) V))) [start_position r..<length K]"

lemma gather_op_irrelevant: "\<not> use_custom_ops st \<Longrightarrow> gather_context op st l table n = gather_context op' st l table n"
  by (simp add: gather_context_def)

lemma write_op_irrelevant: "\<not> use_custom_ops st \<Longrightarrow> write_slots op f d st l slots ks vs = write_slots op' f d st l slots ks vs"
  by (simp add: write_slots_def)

lemma take_one_drop: "take 1 (drop S xs) = [y] \<Longrightarrow> S < length xs \<and> xs ! S = y"
  by (cases "S < length xs") (simp_all add: Cons_nth_drop_Suc [symmetric])

lemma request_output_ok:
  assumes ok: "batch_ok bl nb rs xss" and mi: "describes bl rs mi" and kv: "kv_shape n bl nb st" and idx: "idx < n"
    and r: "r < length rs" and ctx: "1 \<le> request_context (rs ! r)" and ops: "attention_ops_ok ops bl attn"
    and lens: "\<And>q. q < length rs \<Longrightarrow> length (Qs q) = request_context (rs ! q)"
      "length K = request_context (rs ! r)" "length V = request_context (rs ! r)"
    and held: "slots_hold bl st idx (block_table (rs ! r)) K V (request_context (rs ! r))"
  shows "request_output ops attn idx mi (fed rs Qs) st r = Inr (request_rows attn (rs ! r) (Qs r) K V)"
proof -
  let ?s = "start_position (rs ! r)" and ?c = "request_context (rs ! r)" and ?n = "token_count (rs ! r)"
  let ?scale = "1 / sqrt (real (qa_head_dim attn))"
  define S where "S = sum_list (take r (map token_count rs))"
  have bl: "bl > 0" using ok by (simp add: batch_ok_def)
  have sc: "?c = ?s + ?n" by (simp add: request_context_def token_count_def)
  have chunk: "take ?n (drop S (fed rs Qs)) = drop ?s (Qs r)"
    unfolding S_def by (rule fed_chunk [OF r lens(1)])
  have at: "onth (mi_query_start_loc_host mi) r = Inr S" "onth (mi_query_start_loc_host mi) (r + 1) = Inr (S + ?n)"
    "onth (mi_context_lens_host mi) r = Inr ?c" "onth (mi_block_tables mi) r = Inr (mi_block_tables mi ! r)"
    using mi r by (simp_all add: describes_def S_def nth_prefix_sums sum_list_take_Suc del: prefix_sums.simps)
  have pre: "map concat (sdpa (qa_heads attn) (qa_kv_heads attn) (qa_head_dim attn) (drop ?s (Qs r)) K V ?scale) = request_rows attn (rs ! r) (Qs r) K V"
    unfolding request_rows_def by (rule sdpa_prefix) (use lens r sc in simp_all)
  have kvl: "geo_block_len (geometry st) = bl" "\<not> use_custom_ops st" "idx < length (K_cache st)" "idx < length (V_cache st)"
    using kv idx by (auto simp: kv_shape_def)
  show ?thesis
  proof (cases "use_paged_decode_attention attn \<and> ?n = 1")
    case True
    let ?blocks = "ceil_div ?c bl" and ?ctxK = "paged_context bl (K_cache st ! idx) (mi_block_tables mi ! r) ?c"
    let ?splits = "choose_num_splits (int ?blocks) (paged_decode_max_splits attn)"
    have cache: "layer_cache st idx = Inr (K_cache st ! idx, V_cache st ! idx)"
      using kvl by (simp add: layer_cache_def layer_slots_def)
    have pages: "take (ceil_div ?c bl) (mi_block_tables mi ! r) = take (ceil_div ?c bl) (block_table (rs ! r))"
      using mi r by (simp add: describes_def pages_of_def)
    note held' = paged_context_held [OF bl held lens(2,3) pages]
    have "1 \<le> ?blocks" using ctx bl by (simp add: ceil_div_pos_iff Suc_le_eq)
    moreover have "1 \<le> paged_decode_max_splits attn" using ops True by (simp add: attention_ops_ok_def Let_def)
    ultimately have splits: "1 \<le> ?splits" "?splits \<le> int ?blocks" using num_splits_bounds [of "int ?blocks"] by auto
    have q: "drop ?s (Qs r) = [Qs r ! ?s]"
      using True lens(1) [OF r] sc by (metis Cons_nth_drop_Suc add.commute drop_all le_refl lessI plus_1_eq_Suc)
    have "op_paged ops (Qs r ! ?s) (K_cache st ! idx) (V_cache st ! idx) (mi_block_tables mi ! r) ?c ?scale = attend attn (Qs r ! ?s) K V"
      "op_split ops (Qs r ! ?s) (K_cache st ! idx) (V_cache st ! idx) (mi_block_tables mi ! r) ?c ?splits ?scale = attend attn (Qs r ! ?s) K V"
      using ops True ctx splits held' by (simp_all add: attention_ops_ok_def Let_def)
    moreover have "request_rows attn (rs ! r) (Qs r) K V = [concat (attend attn (Qs r ! ?s) K V)]"
      using True sc lens(2,3) by (simp add: request_rows_def)
    moreover have "S < length (fed rs Qs) \<and> fed rs Qs ! S = Qs r ! ?s"
      using chunk True q by (intro take_one_drop) simp
    ultimately show ?thesis
      using True bl kvl(1) cache unfolding request_output_def at obind_simps Let_def
      by (simp add: require_def onth_def)
  next
    case False
    have g: "gather_context (op_gather ops) st idx (mi_block_tables mi ! r) ?c = Inr (K, V)"
      using gather_batch [OF ok mi kv idx r lens(2,3) held] gather_op_irrelevant [OF kvl(2)] by metis
    have flash: "op_flash ops (drop ?s (Qs r)) K V (int ?c - int ?n) ?scale
        = sdpa (qa_heads attn) (qa_kv_heads attn) (qa_head_dim attn) (drop ?s (Qs r)) K V ?scale" if "use_flash_attention attn"
    proof -
      have l: "length (drop ?s (Qs r)) = ?n" using lens(1) [OF r] sc by simp
      moreover have "op_flash ops (drop ?s (Qs r)) K V (int (length K) - int (length (drop ?s (Qs r)))) ?scale
        = sdpa (qa_heads attn) (qa_kv_heads attn) (qa_head_dim attn) (drop ?s (Qs r)) K V ?scale"
        using lens(2,3) sc l by (intro flash_contract [OF ops that]) simp_all
      ultimately show ?thesis using lens(2) by simp
    qed
    show ?thesis
      using False pre unfolding request_output_def at obind_simps Let_def by (auto simp: chunk g flash)
  qed
qed

text \<open>All requests in one FlashInfer call.\<close>

lemma csr_attention_ok:
  assumes ok: "batch_ok bl nb rs xss" and plan: "plan_describes bl rs call"
    and ctx: "\<And>r. r < length rs \<Longrightarrow> 1 \<le> request_context (rs ! r)"
    and lens: "\<And>r. r < length rs \<Longrightarrow> length (Qs r) = request_context (rs ! r)"
      "\<And>r. r < length rs \<Longrightarrow> length (K r) = request_context (rs ! r)" "\<And>r. r < length rs \<Longrightarrow> length (V r) = request_context (rs ! r)"
    and held: "\<And>r. r < length rs \<Longrightarrow> slots_hold bl st idx (block_table (rs ! r)) (K r) (V r) (request_context (rs ! r))"
  shows "map concat (csr_attention bl attn call (fed rs Qs) (K_cache st ! idx) (V_cache st ! idx))
    = concat (map (\<lambda>r. request_rows attn (rs ! r) (Qs r) (K r) (V r)) [0..<length rs])"
proof -
  have bl: "bl > 0" using ok by (simp add: batch_ok_def)
  let ?pages = "\<lambda>r. take (pages_of bl (rs ! r)) (block_table (rs ! r))"
  have lp: "map length (map (\<lambda>r. take (pages_of bl r) (block_table r)) rs) = map (pages_of bl) rs"
    using batch_pages [OF ok] by (auto simp: min_def intro: antisym)
  have one: "(let qs = nat (map int (prefix_sums 0 (map token_count rs)) ! r); qe = nat (map int (prefix_sums 0 (map token_count rs)) ! Suc r);
        pages = take (nat (map int (prefix_sums 0 (map (pages_of bl) rs)) ! Suc r) - nat (map int (prefix_sums 0 (map (pages_of bl) rs)) ! r))
          (drop (nat (map int (prefix_sums 0 (map (pages_of bl) rs)) ! r)) (concat (map (\<lambda>r. take (pages_of bl r) (block_table r)) rs)));
        n = (length pages - 1) * bl + nat (map (int \<circ> last_page_of bl \<circ> request_context) rs ! r)
      in sdpa (qa_heads attn) (qa_kv_heads attn) (qa_head_dim attn) (take (qe - qs) (drop qs (fed rs Qs)))
           (paged_context bl (K_cache st ! idx) pages n) (paged_context bl (V_cache st ! idx) pages n) (1 / sqrt (real (qa_head_dim attn))))
    = sdpa (qa_heads attn) (qa_kv_heads attn) (qa_head_dim attn) (drop (start_position (rs ! r)) (Qs r)) (K r) (V r) (1 / sqrt (real (qa_head_dim attn)))"
    if r: "r < length rs" for r
  proof -
    have q: "nat (map int (prefix_sums 0 (map token_count rs)) ! r) = sum_list (take r (map token_count rs))"
      "nat (map int (prefix_sums 0 (map token_count rs)) ! Suc r) - sum_list (take r (map token_count rs)) = token_count (rs ! r)"
      using r by (simp_all add: nth_prefix_sums sum_list_take_Suc del: prefix_sums.simps)
    have k: "nat (map int (prefix_sums 0 (map (pages_of bl) rs)) ! r) = sum_list (take r (map (pages_of bl) rs))"
      "nat (map int (prefix_sums 0 (map (pages_of bl) rs)) ! Suc r) - sum_list (take r (map (pages_of bl) rs)) = pages_of bl (rs ! r)"
      using r by (simp_all add: nth_prefix_sums sum_list_take_Suc del: prefix_sums.simps)
    have pg: "take (pages_of bl (rs ! r)) (drop (sum_list (take r (map (pages_of bl) rs))) (concat (map (\<lambda>r. take (pages_of bl r) (block_table r)) rs))) = ?pages r"
      using take_drop_concat [of r "map (\<lambda>r. take (pages_of bl r) (block_table r)) rs", unfolded lp] r batch_pages [OF ok]
      by (simp add: min_absorb2)
    have "length (?pages r) = pages_of bl (rs ! r)" using ok r by (simp add: batch_ok_def)
    then have n: "(length (?pages r) - 1) * bl + nat (map (int \<circ> last_page_of bl \<circ> request_context) rs ! r) = request_context (rs ! r)"
      using last_page_bounds(3) [OF bl, of "request_context (rs ! r)"] ctx [OF r] r by (simp add: pages_of_def)
    have "paged_context bl (K_cache st ! idx) (?pages r) (request_context (rs ! r)) = K r"
      "paged_context bl (V_cache st ! idx) (?pages r) (request_context (rs ! r)) = V r"
      by (rule paged_context_held [OF bl held [OF r] lens(2,3) [OF r]]; simp add: pages_of_def)+
    moreover have "take (token_count (rs ! r)) (drop (sum_list (take r (map token_count rs))) (fed rs Qs)) = drop (start_position (rs ! r)) (Qs r)"
      by (rule fed_chunk [OF r]) (rule lens(1))
    ultimately show ?thesis unfolding Let_def q k pg n by simp
  qed
  have len: "length (map int (prefix_sums 0 (map (pages_of bl) rs))) - 1 = length rs" by simp
  have p: "pc_kv_indptr call = map int (prefix_sums 0 (map (pages_of bl) rs))"
    "pc_indices call = concat (map (\<lambda>r. take (pages_of bl r) (block_table r)) rs)"
    "pc_last_page call = map (int \<circ> last_page_of bl \<circ> request_context) rs"
    using plan by (simp_all add: plan_describes_def)
  have "csr_attention bl attn call (fed rs Qs) (K_cache st ! idx) (V_cache st ! idx)
      = concat (map (\<lambda>r. sdpa (qa_heads attn) (qa_kv_heads attn) (qa_head_dim attn) (drop (start_position (rs ! r)) (Qs r)) (K r) (V r)
          (1 / sqrt (real (qa_head_dim attn)))) [0..<length rs])"
    unfolding csr_attention_def plan_describes_qo [OF plan] Let_def unfolding p len
    by (intro arg_cong [where f = concat] map_cong refl) (rule one [unfolded Let_def], simp)
  moreover have "map concat (sdpa (qa_heads attn) (qa_kv_heads attn) (qa_head_dim attn) (drop (start_position (rs ! r)) (Qs r)) (K r) (V r)
      (1 / sqrt (real (qa_head_dim attn)))) = request_rows attn (rs ! r) (Qs r) (K r) (V r)" if "r < length rs" for r
    unfolding request_rows_def
    by (rule sdpa_prefix) (use lens that in \<open>simp_all add: request_context_def\<close>)
  ultimately show ?thesis by (simp add: map_concat) (intro arg_cong [where f = concat] map_cong, simp_all)
qed

section \<open>One layer over the batch\<close>

text \<open>The row functions describe the projections and the MLP of a layer of hidden size \<open>hs\<close>.\<close>

definition realises :: "attention_ops \<Rightarrow> fused_lib \<Rightarrow> nat \<Rightarrow> qwen_layer \<Rightarrow> row_layer \<Rightarrow> bool" where
  "realises ops fl hs ly rl =
     ((\<forall>x. qkv_forward (op_marlin ops) (qa_qkv (self_attn ly)) x = Inr (map (rl_q rl) x, map (rl_k rl) x, map (rl_v rl) x)) \<and>
      (\<forall>x. projection_forward ops (qa_o_proj (self_attn ly)) x = map (rl_o rl) x) \<and>
      (\<forall>x. x \<noteq> [] \<longrightarrow> (\<forall>v \<in> set x. length v = hs) \<longrightarrow> ffn_forward ops fl (ffn ly) x = Inr (map (rl_ffn rl) x)) \<and>
      (q_norm (self_attn ly) = None \<longleftrightarrow> k_norm (self_attn ly) = None) \<and>
      (\<forall>v. length (rl_o rl v) = hs) \<and> (\<forall>v. length v = hs \<longrightarrow> length (rl_ffn rl v) = hs) \<and>
      length (norm_weight (post_attention_layernorm ly)) = hs)"

text \<open>What a forward needs besides the batch: something to feed, positive contexts, and either no mask or a
  FlashInfer plan that describes the batch.\<close>

definition qwen_plain :: "plan_call option \<Rightarrow> nat \<Rightarrow> scheduled_request list \<Rightarrow> model_input \<Rightarrow> bool" where
  "qwen_plain call bl rs mi =
     (rs \<noteq> [] \<and> concat (map input_token_ids rs) \<noteq> [] \<and> (\<forall>r \<in> set rs. 1 \<le> request_context r) \<and>
      (case call of None \<Rightarrow> mi_packed_mask mi = None | Some c \<Rightarrow> plan_describes bl rs c))"

lemma map2_map_left: "map2 g (map f xs) ys = map2 (\<lambda>x y. g (f x) y) xs ys"
  by (rule nth_equalityI) auto

lemma rotated_cos_sin:
  "map2 (\<lambda>c y. map (apply_rotary c) y) (map (rotary_forward f) pos) Q = map2 (rotated f) pos Q"
  unfolding map2_map_left rotated_def [abs_def] ..

lemma request_rows_out:
  assumes "length H = request_context r"
  shows "map (rl_o rl) (request_rows (self_attn ly) r (qwen_queries f ly rl l H) (qwen_keys f ly rl l H) (qwen_vals ly rl l H))
    = drop (start_position r) (map (attn_row f ly rl l H) [0..<length H])"
  unfolding request_rows_def drop_map map_map comp_def drop_upt
  by (intro map_cong) (simp_all add: attn_row_def qwen_queries_def)

lemma attention_forward_ok:
  assumes ok: "batch_ok bl nb rs xss" and mi: "describes bl rs mi" and kv: "kv_shape n bl nb st" and idx: "l < n"
    and plain: "qwen_plain call bl rs mi" and rl: "realises ops fl hs ly rl"
    and ops: "attention_ops_ok ops bl (self_attn ly)" and fl: "fused_lib_ok fl (qa_rope_theta (self_attn ly)) f"
    and H: "\<And>r. r < length rs \<Longrightarrow> length (H r) = request_context (rs ! r)"
    and held: "\<And>r. r < length rs \<Longrightarrow> slots_hold bl st l (block_table (rs ! r)) (qwen_keys f ly rl l (H r)) (qwen_vals ly rl l (H r)) (start_position (rs ! r))"
  shows "\<exists>st'. attention_forward ops fl call (self_attn ly) l (map (row_in ly l) (fed rs H))
      (if use_flashinfer_fused fl then None else Some (map (rotary_forward f) (mi_position mi))) mi st
      = Inr (fed rs (\<lambda>r. map (attn_row f ly rl l (H r)) [0..<length (H r)]), st') \<and>
    batch_written n bl nb rs l (\<lambda>r. qwen_keys f ly rl l (H r)) (\<lambda>r. qwen_vals ly rl l (H r)) st st'"
proof -
  let ?at = "self_attn ly" and ?x = "map (row_in ly l) (fed rs H)" and ?d = "qa_head_dim (self_attn ly)"
  let ?qs = "\<lambda>r. qwen_queries f ly rl l (H r)" and ?ks = "\<lambda>r. qwen_keys f ly rl l (H r)" and ?vs = "\<lambda>r. qwen_vals ly rl l (H r)"
  have qkv: "qkv_forward (op_marlin ops) (qa_qkv ?at) ?x = Inr (map (rl_q rl) ?x, map (rl_k rl) ?x, map (rl_v rl) ?x)"
    and o_proj: "projection_forward ops (qa_o_proj ?at) y = map (rl_o rl) y" for y
    using rl by (simp_all add: realises_def)
  have norm: "qk_norms fl ?at (map (rows_of ?d) (map g ?x)) (map (rows_of ?d) (map g' ?x))
      = Inr (map (\<lambda>s. head_norm_row (q_norm ?at) (rows_of ?d (g (row_in ly l s)))) (fed rs H),
             map (\<lambda>s. head_norm_row (k_norm ?at) (rows_of ?d (g' (row_in ly l s)))) (fed rs H))" for g g'
    using rl rmsnorm_rows [OF fl]
    by (cases "q_norm ?at"; cases "k_norm ?at")
      (simp_all add: qk_norms_def head_norm_row_def norm_forward_def norm_row_def [abs_def] realises_def)
  have pos: "map2 (rotated f) (mi_position mi) (map g (fed rs H)) = fed rs (\<lambda>r. map (\<lambda>i. rotated f (int i) (g (H r ! i))) [0..<length (H r)])" for g
    using mi positions_fed [of rs H "\<lambda>p s. rotated f p (g s)"] H by (simp add: describes_def map2_map_right)
  have Q: "map2 (rotated f) (mi_position mi) (map (\<lambda>s. head_norm_row (q_norm ?at) (rows_of ?d (rl_q rl (row_in ly l s)))) (fed rs H)) = fed rs ?qs"
    and K: "map2 (rotated f) (mi_position mi) (map (\<lambda>s. head_norm_row (k_norm ?at) (rows_of ?d (rl_k rl (row_in ly l s)))) (fed rs H)) = fed rs ?ks"
    unfolding pos by (simp_all add: qwen_queries_def qwen_keys_def row_q_def row_k_def)
  have V: "map (rows_of ?d) (map (rl_v rl) ?x) = fed rs ?vs" by (simp add: qwen_vals_def comp_def flip: map_fed)
  have rope: "(if use_flashinfer_fused fl then Inr (apply_rope_inplace fl A B (mi_position mi) (qa_rope_theta ?at))
      else (case if use_flashinfer_fused fl then None else Some (map (rotary_forward f) (mi_position mi)) of None \<Rightarrow> Inl AttributeError
        | Some cs \<Rightarrow> Inr (map2 (\<lambda>c y. map (apply_rotary c) y) cs A, map2 (\<lambda>c y. map (apply_rotary c) y) cs B)))
    = Inr (map2 (rotated f) (mi_position mi) A, map2 (rotated f) (mi_position mi) B)" for A B
    using rope_rows [OF fl] by (simp add: rotated_cos_sin)
  have nc: "\<not> use_custom_ops st" using kv by (simp add: kv_shape_def)
  have lens: "length (?ks r) = request_context (rs ! r)" "length (?vs r) = request_context (rs ! r)" "length (?qs r) = request_context (rs ! r)"
    if "r < length rs" for r using H [OF that] by simp_all
  obtain st' where st': "write_slots (op_write ops) (\<lambda>_ s. s) (st_kv_dtype st) st l (batch_slots bl rs) (fed rs ?ks) (fed rs ?vs) = Inr st'"
    "batch_written n bl nb rs l ?ks ?vs st st'"
    using write_batch [OF ok kv idx lens(1,2) held] write_op_irrelevant [OF nc] by metis
  have kv': "kv_shape n bl nb st'"
    and held': "\<And>r. r < length rs \<Longrightarrow> slots_hold bl st' l (block_table (rs ! r)) (?ks r) (?vs r) (request_context (rs ! r))"
    using st'(2) by (simp_all add: batch_written_def)
  have ctx: "1 \<le> request_context (rs ! r)" if "r < length rs" for r using plain that by (simp add: qwen_plain_def)
  have sm: "mi_slot_mapping mi = batch_slots bl rs" and nr: "length (mi_query_start_loc_host mi) - 1 = length rs"
    using mi by (simp_all add: describes_def)
  define outs where "outs = map (\<lambda>r. request_rows ?at (rs ! r) (?qs r) (?ks r) (?vs r)) [0..<length rs]"
  have out: "map (rl_o rl) (concat outs) = fed rs (\<lambda>r. map (attn_row f ly rl l (H r)) [0..<length (H r)])"
    unfolding outs_def map_concat fed_def map_map comp_def
    by (intro arg_cong [where f = concat] map_cong refl request_rows_out H) simp
  have "attention_forward ops fl call ?at l ?x (if use_flashinfer_fused fl then None else Some (map (rotary_forward f) (mi_position mi))) mi st
      = Inr (map (rl_o rl) (concat outs), st')"
  proof (cases call)
    case None
    have "request_output ops ?at l mi (fed rs ?qs) st' r = Inr (request_rows ?at (rs ! r) (?qs r) (?ks r) (?vs r))" if "r < length rs" for r
      by (rule request_output_ok [OF ok mi kv' idx that ctx [OF that] ops lens(3) lens(1,2) [OF that] held' [OF that]])
    then have "omap (request_output ops ?at l mi (fed rs ?qs) st') [0..<length rs] = Inr outs"
      unfolding outs_def by (intro omap_Inr_map) simp
    moreover have "outs \<noteq> []" "mi_packed_mask mi = None" using plain None by (simp_all add: outs_def qwen_plain_def)
    ultimately show ?thesis
      unfolding attention_forward_def qkv obind_simps prod.case Let_def norm rope Q K V sm st'(1) nr None option.case o_proj
      by (simp add: require_def)
  next
    case (Some c)
    have plan: "plan_describes bl rs c" using plain Some by (simp add: qwen_plain_def)
    have cache: "layer_cache st' l = Inr (K_cache st' ! l, V_cache st' ! l)"
      using kv' idx by (simp add: layer_cache_def layer_slots_def onth_def kv_shape_def)
    have "op_flashinfer ops c (fed rs ?qs) (K_cache st' ! l) (V_cache st' ! l) = csr_attention bl ?at c (fed rs ?qs) (K_cache st' ! l) (V_cache st' ! l)"
      using ops plan by (simp add: attention_ops_ok_def Let_def plan_describes_def)
    moreover have "map concat (csr_attention bl ?at c (fed rs ?qs) (K_cache st' ! l) (V_cache st' ! l)) = concat outs"
      unfolding outs_def by (rule csr_attention_ok [OF ok plan ctx lens(3,1,2) held'])
    ultimately show ?thesis
      unfolding attention_forward_def qkv obind_simps prod.case Let_def norm rope Q K V sm st'(1) Some option.case cache o_proj by simp
  qed
  then show ?thesis using st'(2) out by auto
qed

section \<open>The stack of layers\<close>

text \<open>What the code threads from layer to layer for the rows \<open>H\<close> before layer \<open>l\<close>.\<close>

definition qwen_rep :: "nat \<Rightarrow> (real list \<times> real list) list \<Rightarrow> real list list \<times> real list list option" where
  "qwen_rep l H = (map fst H, if l = 0 then None else Some (map snd H))"

definition rows_sized :: "nat \<Rightarrow> nat \<Rightarrow> (real list \<times> real list) list \<Rightarrow> bool" where
  "rows_sized hs l H = (\<forall>s \<in> set H. length (fst s) = hs \<and> (l \<noteq> 0 \<longrightarrow> length (snd s) = hs))"

lemma layer_input:
  assumes "fused_lib_ok fl theta f"
  shows "(case snd (qwen_rep l H) of
      None \<Rightarrow> (norm_forward fl (input_layernorm ly) (fst (qwen_rep l H)), fst (qwen_rep l H))
    | Some r \<Rightarrow> fused_add_rmsnorm fl (fst (qwen_rep l H)) r (norm_weight (input_layernorm ly)) (norm_eps (input_layernorm ly)))
    = (map (row_in ly l) H, map (resid l) H)"
  by (auto simp: qwen_rep_def norm_forward_def rmsnorm_rows [OF assms] fused_add_rmsnorm_rows [OF assms] row_in_def norm_row_def resid_def
      map2_map_same)

lemma length_resid: "length (fst s) = hs \<Longrightarrow> (l \<noteq> 0 \<longrightarrow> length (snd s) = hs) \<Longrightarrow> length (resid l s) = hs"
  by (simp add: resid_def)

lemma length_norm_row: "length (norm_weight w) = length v \<Longrightarrow> length (norm_row w v) = length v"
  by (simp add: norm_row_def rmsnorm_row_def Let_def)

lemma next_row_sized:
  assumes "realises ops fl hs ly rl" "rows_sized hs l H" "i < length H"
  shows "length (map2 (+) (resid l (H ! i)) (attn_row f ly rl l H i)) = hs"
    "length (fst (next_row f ly rl l H i)) = hs" "length (snd (next_row f ly rl l H i)) = hs"
proof -
  have "length (fst (H ! i)) = hs" "l \<noteq> 0 \<longrightarrow> length (snd (H ! i)) = hs"
    using assms(2,3) by (auto simp: rows_sized_def)
  then have "length (resid l (H ! i)) = hs" by (rule length_resid)
  moreover have o: "length (rl_o rl v) = hs" for v using assms(1) by (simp add: realises_def)
  ultimately show r: "length (map2 (+) (resid l (H ! i)) (attn_row f ly rl l H i)) = hs"
    by (simp add: attn_row_def)
  moreover have "length (norm_weight (post_attention_layernorm ly)) = hs" using assms(1) by (simp add: realises_def)
  ultimately have "length (norm_row (post_attention_layernorm ly) (map2 (+) (resid l (H ! i)) (attn_row f ly rl l H i))) = hs"
    using length_norm_row by metis
  then show "length (fst (next_row f ly rl l H i)) = hs" "length (snd (next_row f ly rl l H i)) = hs"
    using assms(1) r by (simp_all add: next_row_def Let_def realises_def)
qed

lemma rows_sized_next: "realises ops fl hs ly rl \<Longrightarrow> rows_sized hs l H \<Longrightarrow> rows_sized hs (Suc l) (qwen_next f ly rl l H)"
  using next_row_sized by (auto simp: rows_sized_def qwen_next_def)

lemma layer_step_ok:
  assumes ok: "batch_ok bl nb rs xss" and mi: "describes bl rs mi" and kv: "kv_shape n bl nb st" and idx: "l < n"
    and plain: "qwen_plain call bl rs mi" and rl: "realises ops fl hs ly rl"
    and ops: "attention_ops_ok ops bl (self_attn ly)" and fl: "fused_lib_ok fl (qa_rope_theta (self_attn ly)) f"
    and H: "\<And>r. r < length rs \<Longrightarrow> length (H r) = request_context (rs ! r)" "\<And>r. r < length rs \<Longrightarrow> rows_sized hs l (H r)"
    and held: "\<And>r. r < length rs \<Longrightarrow> slots_hold bl st l (block_table (rs ! r)) (qwen_keys f ly rl l (H r)) (qwen_vals ly rl l (H r)) (start_position (rs ! r))"
  shows "\<exists>st'. layer_step ops fl call ly l (qwen_rep l (fed rs H))
      (if use_flashinfer_fused fl then None else Some (map (rotary_forward f) (mi_position mi))) mi st
      = Inr (qwen_rep (Suc l) (fed rs (\<lambda>r. qwen_next f ly rl l (H r))), st') \<and>
    batch_written n bl nb rs l (\<lambda>r. qwen_keys f ly rl l (H r)) (\<lambda>r. qwen_vals ly rl l (H r)) st st'"
proof -
  let ?cs = "if use_flashinfer_fused fl then None else Some (map (rotary_forward f) (mi_position mi))"
  let ?res = "\<lambda>r i. map2 (+) (resid l (H r ! i)) (attn_row f ly rl l (H r) i)"
  let ?R = "fed rs (\<lambda>r. map (?res r) [0..<length (H r)])" and ?post = "post_attention_layernorm ly"
  obtain st' where st': "attention_forward ops fl call (self_attn ly) l (map (row_in ly l) (fed rs H)) ?cs mi st
      = Inr (fed rs (\<lambda>r. map (attn_row f ly rl l (H r)) [0..<length (H r)]), st')"
    "batch_written n bl nb rs l (\<lambda>r. qwen_keys f ly rl l (H r)) (\<lambda>r. qwen_vals ly rl l (H r)) st st'"
    using attention_forward_ok [OF ok mi kv idx plain rl ops fl H(1) held] by blast
  have in_r: "map (resid l) (fed rs H) = fed rs (\<lambda>r. map (\<lambda>i. resid l (H r ! i)) [0..<length (H r)])"
    unfolding map_fed by (intro fed_cong nth_equalityI) simp_all
  have add: "map2 (map2 (+)) (map (resid l) (fed rs H)) (fed rs (\<lambda>r. map (attn_row f ly rl l (H r)) [0..<length (H r)])) = ?R"
    unfolding in_r by (rule map2_fed)
  have ne: "map (norm_row ?post) ?R \<noteq> []"
  proof -
    have "length ?R = length (concat (map input_token_ids rs))"
      unfolding batch_tokens [OF ok] by (rule length_fed) (use H(1) ok in \<open>simp add: batch_ok_def\<close>)
    then show ?thesis using plain by (auto simp: qwen_plain_def)
  qed
  have R_hs: "length v = hs" if "v \<in> set ?R" for v
    using that next_row_sized(1) [OF rl H(2)] by (auto simp: fed_def dest!: in_set_dropD)
  then have "\<forall>v \<in> set (map (norm_row ?post) ?R). length v = hs"
    using length_norm_row [of ?post] rl by (auto simp: realises_def)
  then have ffn: "ffn_forward ops fl (ffn ly) (map (norm_row ?post) ?R) = Inr (map (rl_ffn rl) (map (norm_row ?post) ?R))"
    using rl ne by (auto simp: realises_def)
  have "fst (next_row f ly rl l (H r) i) = rl_ffn rl (norm_row ?post (?res r i))" "snd (next_row f ly rl l (H r) i) = ?res r i" for r i
    by (simp_all add: next_row_def Let_def)
  then have rep: "qwen_rep (Suc l) (fed rs (\<lambda>r. qwen_next f ly rl l (H r))) = (map (rl_ffn rl) (map (norm_row ?post) ?R), Some ?R)"
    by (simp add: qwen_rep_def map_fed qwen_next_def comp_def)
  have step: "layer_step ops fl call ly l hr cs mi st = obind (attention_forward ops fl call (self_attn ly) l x cs mi st) (\<lambda>(a, st').
      obind (ffn_forward ops fl (ffn ly) (map (norm_row ?post) (map2 (map2 (+)) r a))) (\<lambda>y. Inr ((y, Some (map2 (map2 (+)) r a)), st')))"
    if "(case snd hr of None \<Rightarrow> (norm_forward fl (input_layernorm ly) (fst hr), fst hr)
      | Some r \<Rightarrow> fused_add_rmsnorm fl (fst hr) r (norm_weight (input_layernorm ly)) (norm_eps (input_layernorm ly))) = (x, r)" for hr cs x r
  proof -
    obtain h residual where hr: "hr = (h, residual)" by (cases hr)
    show ?thesis
      unfolding layer_step_def hr Let_def prod.case that [unfolded hr fst_conv snd_conv]
      by (simp add: fused_add_rmsnorm_rows [OF fl] norm_row_def [abs_def])
  qed
  show ?thesis
    unfolding step [OF layer_input [OF fl]] st'(1) obind_simps prod.case add ffn rep using st'(2) by blast
qed

section \<open>The model\<close>

text \<open>The row functions and the operators fit the whole model.\<close>

definition model_realised ::
    "attention_ops \<Rightarrow> fused_lib \<Rightarrow> nat \<Rightarrow> qwen_model \<Rightarrow> row_layer list \<Rightarrow> nat \<Rightarrow> bool" where
  "model_realised ops fl bl M rls hs =
     ((\<forall>l < length (qwen_layers M). realises ops fl hs (qwen_layers M ! l) (rls ! l) \<and>
         attention_ops_ok ops bl (self_attn (qwen_layers M ! l)) \<and>
         fused_lib_ok fl (qa_rope_theta (self_attn (qwen_layers M ! l))) (rotary_inv_freq M)) \<and>
      (\<exists>theta. fused_lib_ok fl theta (rotary_inv_freq M)) \<and> (\<forall>v \<in> set (embed_tokens M). length v = hs))"

lemma hidden_sized:
  "model_realised ops fl bl M rls hs \<Longrightarrow> l \<le> length (qwen_layers M) \<Longrightarrow> rows_sized hs l (qwen_hidden M rls hs l xs)"
proof (induction l)
  case 0
  then show ?case by (auto simp: rows_sized_def qwen_hidden_def token_row_def model_realised_def)
next
  case (Suc l)
  then have "realises ops fl hs (qwen_layers M ! l) (rls ! l)" by (simp add: model_realised_def)
  from rows_sized_next [OF this Suc.IH] Suc.prems show ?case by (simp add: qwen_hidden_Suc)
qed

definition qwen_cos_sin :: "fused_lib \<Rightarrow> qwen_model \<Rightarrow> model_input \<Rightarrow> (real list \<times> real list) list option" where
  "qwen_cos_sin fl M mi = (if use_flashinfer_fused fl then None else Some (map (rotary_forward (rotary_inv_freq M)) (mi_position mi)))"

lemma qwen_layer_ok:
  assumes "batch_ok bl nb rs xss" "describes bl rs mi" "model_realised ops fl bl M rls hs \<and> qwen_plain call bl rs mi"
    and "kv_shape (length (qwen_layers M)) bl nb st" "l < length (qwen_layers M)"
    and "\<And>r. r < length rs \<Longrightarrow> slots_hold bl st l (block_table (rs ! r))
       (qwen_keys (rotary_inv_freq M) (qwen_layers M ! l) (rls ! l) l (qwen_hidden M rls hs l (xss ! r)))
       (qwen_vals (qwen_layers M ! l) (rls ! l) l (qwen_hidden M rls hs l (xss ! r))) (start_position (rs ! r))"
  shows "\<exists>st'. layer_step ops fl call (qwen_layers M ! l) l (qwen_rep l (fed rs (\<lambda>r. qwen_hidden M rls hs l (xss ! r)))) (qwen_cos_sin fl M mi) mi st
      = Inr (qwen_rep (Suc l) (fed rs (\<lambda>r. qwen_hidden M rls hs (Suc l) (xss ! r))), st') \<and>
    batch_written (length (qwen_layers M)) bl nb rs l
      (\<lambda>r. qwen_keys (rotary_inv_freq M) (qwen_layers M ! l) (rls ! l) l (qwen_hidden M rls hs l (xss ! r)))
      (\<lambda>r. qwen_vals (qwen_layers M ! l) (rls ! l) l (qwen_hidden M rls hs l (xss ! r))) st st'"
proof -
  have m: "realises ops fl hs (qwen_layers M ! l) (rls ! l)" "attention_ops_ok ops bl (self_attn (qwen_layers M ! l))"
    "fused_lib_ok fl (qa_rope_theta (self_attn (qwen_layers M ! l))) (rotary_inv_freq M)"
    using assms(3,5) by (auto simp: model_realised_def)
  have "length (qwen_hidden M rls hs l (xss ! r)) = request_context (rs ! r)" if "r < length rs" for r
    using assms(1) that by (simp add: batch_ok_def)
  moreover have "rows_sized hs l (qwen_hidden M rls hs l (xss ! r))" for r
    using hidden_sized [of ops fl bl M rls hs l] assms(3,5) by simp
  ultimately show ?thesis
    unfolding qwen_hidden_Suc qwen_cos_sin_def
    by (intro layer_step_ok [OF assms(1,2,4,5) conjunct2 [OF assms(3)] m _ _ assms(6)])
qed

interpretation qwen_stack: cached_stack "length (qwen_layers M)"
    "\<lambda>l mi hr st. layer_step ops fl call (qwen_layers M ! l) l hr (qwen_cos_sin fl M mi) mi st" qwen_rep "qwen_hidden M rls hs"
    "\<lambda>l. qwen_keys (rotary_inv_freq M) (qwen_layers M ! l) (rls ! l) l" "\<lambda>l. qwen_vals (qwen_layers M ! l) (rls ! l) l"
    "\<lambda>bl rs mi. model_realised ops fl bl M rls hs \<and> qwen_plain call bl rs mi"
  for ops fl call M rls hs
  by unfold_locales (auto simp: qwen_hidden_take qwen_keys_take intro!: qwen_layer_ok)

definition qwen_owed :: "qwen_model \<Rightarrow> row_layer list \<Rightarrow> nat \<Rightarrow> scheduled_request list \<Rightarrow> int list list \<Rightarrow> real list list" where
  "qwen_owed M rls hs rs xss = fed rs (\<lambda>r. map (\<lambda>i. qwen_logits M rls hs (take (Suc i) (xss ! r))) [0..<length (xss ! r)])"

definition qwen_holds :: "qwen_model \<Rightarrow> row_layer list \<Rightarrow> nat \<Rightarrow> nat \<Rightarrow> slot_data kv_storage \<Rightarrow> int list \<Rightarrow> int list \<Rightarrow> nat \<Rightarrow> bool" where
  "qwen_holds M rls hs bl st table xs n =
     (\<forall>l < length (qwen_layers M). slots_hold bl st l table
        (qwen_keys (rotary_inv_freq M) (qwen_layers M ! l) (rls ! l) l (qwen_hidden M rls hs l xs))
        (qwen_vals (qwen_layers M ! l) (rls ! l) l (qwen_hidden M rls hs l xs)) n)"

lemma qwen_holds_stack: "qwen_holds M rls hs = qwen_stack.stack_holds M rls hs"
  by (intro ext) (simp add: qwen_holds_def qwen_stack.stack_holds_def qwen_stack.holds_at_def)

lemma forward_compute_ok:
  assumes ok: "batch_ok bl nb rs xss" and mi: "describes bl rs mi" and kv: "kv_shape (length (qwen_layers M)) bl nb st"
    and plain: "qwen_plain call bl rs mi" and real: "model_realised ops fl bl M rls hs"
    and vocab: "\<forall>r < length rs. \<forall>t \<in> set (xss ! r). 0 \<le> t \<and> t < int (length (embed_tokens M))"
    and held: "\<forall>r < length rs. qwen_holds M rls hs bl st (block_table (rs ! r)) (xss ! r) (start_position (rs ! r))"
  shows "\<exists>st'. forward_compute ops fl call M mi st = Inr (qwen_owed M rls hs rs xss, st') \<and>
    kv_shape (length (qwen_layers M)) bl nb st' \<and> untouched bl rs st st' \<and>
    (\<forall>r < length rs. qwen_holds M rls hs bl st' (block_table (rs ! r)) (xss ! r) (request_context (rs ! r)))"
proof -
  let ?n = "length (qwen_layers M)"
  have toks: "mi_input_token_ids mi = fed rs (\<lambda>r. xss ! r)"
    using mi batch_tokens [OF ok] by (simp add: describes_def)
  have "\<forall>t \<in> set (mi_input_token_ids mi). 0 \<le> t \<and> t < int (length (embed_tokens M))"
    using vocab unfolding toks fed_def by (auto dest!: in_set_dropD)
  then have "embed_lookup (embed_tokens M) (mi_input_token_ids mi) = Inr (map (token_row M hs) (mi_input_token_ids mi))"
    unfolding embed_lookup_def by (intro omap_Inr_map) (simp add: token_row_def)
  moreover have "qwen_rep 0 (fed rs (\<lambda>r. qwen_hidden M rls hs 0 (xss ! r))) = (map (token_row M hs) (mi_input_token_ids mi), None)"
    by (simp add: toks map_fed qwen_rep_def qwen_hidden_def comp_def)
  moreover obtain st' where st': "ofold (\<lambda>l (hr, s). layer_step ops fl call (qwen_layers M ! l) l hr (qwen_cos_sin fl M mi) mi s) [0..<?n]
        (qwen_rep 0 (fed rs (\<lambda>r. qwen_hidden M rls hs 0 (xss ! r))), st)
      = Inr (qwen_rep ?n (fed rs (\<lambda>r. qwen_hidden M rls hs ?n (xss ! r))), st')"
    "kv_shape ?n bl nb st'" "untouched bl rs st st'"
    "\<forall>r < length rs. qwen_holds M rls hs bl st' (block_table (rs ! r)) (xss ! r) (request_context (rs ! r))"
    using qwen_stack.run_stack [of bl nb rs xss mi ops fl M rls hs call st] assms by (auto simp: qwen_holds_stack)
  moreover have "ofold (\<lambda>(idx, ly) (hr, s). layer_step ops fl call ly idx hr cs mi s) (zip [0..<?n] (qwen_layers M))
      = ofold (\<lambda>l (hr, s). layer_step ops fl call (qwen_layers M ! l) l hr cs mi s) [0..<?n]" for cs
    by (rule ofold_enumerate)
  moreover have "(case snd (qwen_rep ?n H) of None \<Rightarrow> norm_forward fl (final_norm M) (fst (qwen_rep ?n H))
      | Some r \<Rightarrow> fst (fused_add_rmsnorm fl (fst (qwen_rep ?n H)) r (norm_weight (final_norm M)) (norm_eps (final_norm M))))
      = map (\<lambda>s. norm_row (final_norm M) (resid ?n s)) H" for H
  proof -
    obtain theta where fl: "fused_lib_ok fl theta (rotary_inv_freq M)" using real by (auto simp: model_realised_def)
    show ?thesis
      by (auto simp: qwen_rep_def norm_forward_def rmsnorm_rows [OF fl] fused_add_rmsnorm_rows [OF fl] norm_row_def resid_def map2_map_same)
  qed
  moreover have "f_linear (qwen_lm_head M) None (map (\<lambda>s. norm_row (final_norm M) (resid ?n s)) (fed rs (\<lambda>r. qwen_hidden M rls hs ?n (xss ! r))))
      = qwen_owed M rls hs rs xss"
    unfolding f_linear_None map_map map_fed qwen_owed_def
    by (intro fed_cong nth_equalityI) (auto simp: qwen_logit_row_def comp_def simp flip: qwen_logits_nth)
  ultimately show ?thesis
    by (simp add: forward_compute_def qwen_cos_sin_def case_prod_beta)
qed

section \<open>The runner\<close>

text \<open>FlashInfer's host state, when that backend is on: its page size is the cache's and the batch fits the
  32-bit tensors it is planned with.\<close>

fun backend_ok :: "nat \<Rightarrow> scheduled_request list \<Rightarrow> fi_attention option \<Rightarrow> bool" where
  "backend_ok bl rs None = True"
| "backend_ok bl rs (Some fi) = (page_size fi = int bl \<and> i32_ok bl rs \<and> sum_list (map token_count rs) < 2 ^ 31)"

text \<open>The inputs the two builders make.\<close>

definition built_input :: "batch_plan \<Rightarrow> nat \<Rightarrow> model_input \<Rightarrow> bool" where
  "built_input plan bl mi =
     (from_plan plan bl = Inr mi \<or> (\<exists>junk p p'. pool_wf p \<and> pool_build junk plan bl p = Inr (mi, p')))"

lemma built_input_cases:
  assumes "built_input plan bl mi" "bl > 0" "requests plan \<noteq> []" "list_all (request_ok bl) (requests plan)"
  obtains "mi = plan_input plan bl"
  | "mi = (plan_input plan bl)\<lparr> mi_flashinfer_csr := Some (plan_csr bl (requests plan)), mi_is_decode_only := is_decode_only_plan plan \<rparr>"
proof (cases "from_plan plan bl = Inr mi")
  case True
  then show thesis using from_plan_plan_input [OF assms(2-4)] that(1) by simp
next
  case False
  then obtain junk p p' where p: "pool_wf p" "pool_build junk plan bl p = Inr (mi, p')"
    using assms(1) by (auto simp: built_input_def)
  from pool_build_plan_input [OF p(1) assms(2-4), of junk] p(2) show thesis using that(2) by auto
qed

lemma prefix_sums_le: "x \<in> set (prefix_sums acc xs) \<Longrightarrow> x \<le> acc + sum_list xs"
  by (induction xs arbitrary: acc) fastforce+

lemma fi_plan_describes:
  assumes "built_input plan bl mi" "bl > 0" "requests plan \<noteq> []" "list_all (request_ok bl) (requests plan)"
    and "backend_ok bl (requests plan) (Some fi)"
  shows "\<exists>call fi'. fi_plan fi mi = Inr (call, fi') \<and> plan_describes bl (requests plan) call"
  using assms(1-4)
proof (cases rule: built_input_cases)
  case 1
  let ?rs = "requests plan"
  have csr: "build_paged_kv_csr (map (pad_row (max_len (map block_table ?rs)) \<circ> block_table) ?rs) (map int (map request_context ?rs)) (int bl)
      = Inr (map int (prefix_sums 0 (map (pages_of bl) ?rs)), concat (map (\<lambda>r. take (pages_of bl r) (block_table r)) ?rs),
          map (int \<circ> last_page_of bl \<circ> request_context) ?rs)"
    using assms(5) by (intro csr_of_padded_tables [OF assms(2-4)]) simp
  have "map i32 (map int (prefix_sums 0 (map token_count ?rs))) = map int (prefix_sums 0 (map token_count ?rs))"
    using assms(5) prefix_sums_le [of _ 0 "map token_count ?rs"] by (intro i32_map_id) (auto dest!: prefix_sums_le)
  then show ?thesis
    using csr assms(5)
    by (simp add: fi_plan_def paged_csr_def 1 plan_input_def Let_def plan_describes_def token_count_def [abs_def])
next
  case 2
  then show ?thesis
    by (simp add: fi_plan_def plan_input_def plan_csr_def Let_def plan_describes_def)
qed

lemma qwen_forward_ok:
  assumes ok: "batch_ok bl nb (requests plan) xss" and ne: "requests plan \<noteq> []" "concat (map input_token_ids (requests plan)) \<noteq> []"
    and ctx: "\<forall>r \<in> set (requests plan). 1 \<le> request_context r" and mi: "built_input plan bl mi"
    and kv: "kv_shape (length (qwen_layers M)) bl nb st" and real: "model_realised ops fl bl M rls hs"
    and bk: "backend_ok bl (requests plan) fi"
    and vocab: "\<forall>xs \<in> set xss. \<forall>t \<in> set xs. 0 \<le> t \<and> t < int (length (embed_tokens M))"
    and held: "\<forall>r < length (requests plan). qwen_holds M rls hs bl st (block_table (requests plan ! r)) (xss ! r) (start_position (requests plan ! r))"
  shows "\<exists>fi' st'. qwen_forward ops fl M mi (fi, st) = Inr (qwen_owed M rls hs (requests plan) xss, fi', st') \<and>
    kv_shape (length (qwen_layers M)) bl nb st' \<and>
    (\<forall>r < length (requests plan). qwen_holds M rls hs bl st' (block_table (requests plan ! r)) (xss ! r) (request_context (requests plan ! r)))"
proof -
  have bl: "bl > 0" using ok by (simp add: batch_ok_def)
  note rok = batch_requests_ok [OF ok ctx]
  have plain: "describes bl (requests plan) mi \<and> mi_packed_mask mi = None"
    using mi bl ne(1) rok
    by (cases rule: built_input_cases)
      (use plan_input_describes [OF batch_pages [OF ok]] in \<open>simp_all add: describes_def, simp_all add: plan_input_def Let_def\<close>)
  have vocab': "\<forall>r < length (requests plan). \<forall>t \<in> set (xss ! r). 0 \<le> t \<and> t < int (length (embed_tokens M))"
    using vocab ok by (auto simp: batch_ok_def)
  note compute = forward_compute_ok [OF ok conjunct1 [OF plain] kv _ real vocab' held]
  show ?thesis
  proof (cases fi)
    case None
    have "qwen_plain None bl (requests plan) mi" using plain ne ctx by (simp add: qwen_plain_def)
    from compute [OF this] None show ?thesis by (auto simp: qwen_forward_def)
  next
    case (Some f)
    then obtain call f' where f: "fi_plan f mi = Inr (call, f')" "plan_describes bl (requests plan) call"
      using fi_plan_describes [OF mi bl ne(1) rok] bk by blast
    then have "qwen_plain (Some call) bl (requests plan) mi" using ne ctx by (simp add: qwen_plain_def)
    from compute [OF this] Some f(1) show ?thesis by (auto simp: qwen_forward_def)
  qed
qed

end
