(* ===== verification/QwenModel.thy ===== *)
theory QwenModel
  imports QwenForward
begin

text \<open>
  A loaded Qwen model computes row by row what its checkpoint says: the packed query/key/value projection
  and the packed gate/up projection are the checkpoint's linear layers, in both branches of the MLP, and
  under W4A16 the same layers with the weights the packed words stand for.
\<close>

section \<open>The rows of a checkpoint layer\<close>

definition effective_weight :: "bool \<Rightarrow> real list list \<Rightarrow> real list list" where
  "effective_weight w4a16 w = (if w4a16 then (case served_weight w of Inr w' \<Rightarrow> w' | Inl _ \<Rightarrow> w) else w)"

definition project_row :: "real list list \<Rightarrow> real list option \<Rightarrow> real list \<Rightarrow> real list" where
  "project_row w b v = add_bias b (map (dot v) w)"

definition joint_bias :: "nn_linear \<Rightarrow> nn_linear \<Rightarrow> nn_linear \<Rightarrow> real list option" where
  "joint_bias q k v =
     (case (nn_bias q, nn_bias k, nn_bias v) of (Some a, Some b, Some c) \<Rightarrow> Some (a @ b @ c) | _ \<Rightarrow> None)"

text \<open>The linear layers of a dense decoder layer: query, key, value, output, gate, up, down.\<close>

fun dense_parts :: "qwen_layer \<Rightarrow> (nn_linear \<times> nn_linear \<times> nn_linear \<times> nn_linear \<times> nn_linear \<times> nn_linear \<times> nn_linear) option" where
  "dense_parts ly =
     (case (q_proj (qa_qkv (self_attn ly)), k_proj (qa_qkv (self_attn ly)), v_proj (qa_qkv (self_attn ly)), qa_o_proj (self_attn ly), ffn ly) of
        (Some q, Some k, Some v, DenseProj out, DenseMlp mlp) \<Rightarrow>
          (case (gate_proj mlp, up_proj mlp, down_proj mlp) of
             (Some g, Some u, DenseProj d) \<Rightarrow> Some (q, k, v, out, g, u, d)
           | _ \<Rightarrow> None)
      | _ \<Rightarrow> None)"

definition dense_rows :: "bool \<Rightarrow> qwen_layer \<Rightarrow> row_layer" where
  "dense_rows w4a16 ly =
     (case dense_parts ly of
        None \<Rightarrow> \<lparr> rl_q = id, rl_k = id, rl_v = id, rl_o = id, rl_ffn = id \<rparr>
      | Some (q, k, v, out, g, u, d) \<Rightarrow>
          (let qkv = project_row (effective_weight w4a16 (nn_weight q @ nn_weight k @ nn_weight v)) (joint_bias q k v);
               a = length (nn_weight q); b = length (nn_weight k)
           in \<lparr> rl_q = (\<lambda>x. take a (qkv x)), rl_k = (\<lambda>x. take b (drop a (qkv x))), rl_v = (\<lambda>x. drop (a + b) (qkv x)),
                rl_o = project_row (effective_weight w4a16 (nn_weight out)) (nn_bias out),
                rl_ffn = (\<lambda>x. project_row (effective_weight w4a16 (nn_weight d)) (nn_bias d)
                   (silu_and_mul_row (map (dot x) (effective_weight w4a16 (nn_weight g @ nn_weight u))))) \<rparr>))"

text \<open>The shapes a checkpoint of hidden size \<open>hs\<close> has.\<close>

definition dense_layer_ok :: "nat \<Rightarrow> qwen_layer \<Rightarrow> bool" where
  "dense_layer_ok hs ly =
     (case (dense_parts ly, ffn ly) of
        (Some (q, k, v, out, g, u, d), DenseMlp mlp) \<Rightarrow>
          qkv_ok (qa_qkv (self_attn ly)) q k v \<and> qkv_qweight (qa_qkv (self_attn ly)) = None \<and>
          0 < width (nn_weight q @ nn_weight k @ nn_weight v) \<and>
          0 < width (nn_weight out) \<and> length (nn_weight out) = hs \<and> bias_fits hs (nn_bias out) \<and>
          gate_up_qweight mlp = None \<and> nn_bias g = None \<and> nn_bias u = None \<and> length (nn_weight g) = length (nn_weight u) \<and>
          0 < width (nn_weight g @ nn_weight u) \<and>
          0 < width (nn_weight d) \<and> length (nn_weight d) = hs \<and> bias_fits hs (nn_bias d) \<and>
          (q_norm (self_attn ly) = None \<longleftrightarrow> k_norm (self_attn ly) = None) \<and>
          length (norm_weight (post_attention_layernorm ly)) = hs
      | _ \<Rightarrow> False)"

lemma dense_layer_parts:
  assumes "dense_layer_ok hs ly"
  obtains q k v out g u d mlp where "dense_parts ly = Some (q, k, v, out, g, u, d)" "ffn ly = DenseMlp mlp"
proof -
  obtain mlp where dense: "ffn ly = DenseMlp mlp"
    using assms by (cases "ffn ly") (auto simp: dense_layer_ok_def simp del: dense_parts.simps split: option.splits)
  with assms that show thesis
    by (cases "dense_parts ly") (auto simp: dense_layer_ok_def simp del: dense_parts.simps)
qed

section \<open>Loading preserves the rows\<close>

lemma nn_forward_rows: "nn_forward lin x = map (project_row (nn_weight lin) (nn_bias lin)) x"
  by (simp add: nn_forward_def f_linear_def project_row_def [abs_def])

lemma f_linear_rows: "f_linear w b x = map (project_row w b) x"
  by (simp add: f_linear_def project_row_def [abs_def])

definition loaded_projection :: "bool \<Rightarrow> nn_linear \<Rightarrow> projection \<Rightarrow> bool" where
  "loaded_projection w4a16 lin p = (if w4a16 then marlin_projection w4_group_size (DenseProj lin) = Inr p else p = DenseProj lin)"

lemma loaded_projection_rows:
  assumes "loaded_projection w4a16 lin p" "w4a16 \<longrightarrow> marlin_ok (op_marlin ops)" "0 < width (nn_weight lin)"
  shows "projection_forward ops p x = map (project_row (effective_weight w4a16 (nn_weight lin)) (nn_bias lin)) x"
proof (cases w4a16)
  case True
  then obtain m where m: "from_linear lin w4_group_size = Inr m" "p = MarlinProj m"
    using assms(1) by (auto simp: loaded_projection_def marlin_projection_def obind_Inr_iff)
  from marlin_layer_served [of "op_marlin ops", OF _ m(1) assms(3)] True assms(2) show ?thesis
    by (auto simp: m(2) effective_weight_def f_linear_rows)
qed (use assms(1) in \<open>simp add: loaded_projection_def effective_weight_def nn_forward_rows\<close>)

lemma served_rows:
  assumes "quantize_packed_weight (mat_t w) w4_group_size = Inr (qw, s)" "0 < width w"
  shows "length (effective_weight True w) = length w"
    and "marlin_ok op \<Longrightarrow> marlin_linear op x qw s (length w) b = map (project_row (effective_weight True w) b) x"
    and "width qw div 2 = length w"
proof -
  have wl: "width (mat_t w) = length w" by (rule width_mat_t [OF assms(2)])
  obtain op :: marlin_op where op: "marlin_ok op" using marlin_model_ok by blast
  from quantize_served [OF op assms(1)] show "length (effective_weight True w) = length w"
    by (auto simp: effective_weight_def wl matrix_def)
  show "marlin_linear op x qw s (length w) b = map (project_row (effective_weight True w) b) x" if "marlin_ok op" for op
    using quantize_served [OF that assms(1)] by (auto simp: effective_weight_def wl f_linear_rows)
  obtain m where m: "pack_w4a16_marlin (mat_t w) None (int w4_group_size) = Inr (qw, m)"
    using assms(1) by (auto simp: quantize_packed_weight_def obind_Inr_iff)
  note p = pack_Inr [OF m mat_t_rows]
  have "64 dvd width (mat_t w)" "16 dvd length (mat_t w)" "0 < length (mat_t w)" using p(1) by (simp_all add: pack_shapes_def)
  then have "0 < length (mat_t w) div 16" "matrix (length (mat_t w) div 16) (width (mat_t w) * 2) qw"
    unfolding p(4) by (simp_all add: div_greater_zero_iff dvd_imp_le packed_matrix)
  then show "width qw div 2 = length w" by (simp add: width_matrix wl)
qed

text \<open>What loading does to one layer.\<close>

definition load_layer :: "bool \<Rightarrow> qwen_layer \<Rightarrow> qwen_layer outcome" where
  "load_layer w4a16 ly = obind (pack_layer ly) (\<lambda>ly'. if w4a16 then quantize_layer w4_group_size ly' else Inr ly')"

lemma finish_load_layers:
  assumes "finish_load w4a16 M0 = Inr M"
  shows "length (qwen_layers M) = length (qwen_layers M0)" "embed_tokens M = embed_tokens M0"
    "rotary_inv_freq M = rotary_inv_freq M0" "final_norm M = final_norm M0" "qwen_lm_head M = qwen_lm_head M0"
    "l < length (qwen_layers M0) \<Longrightarrow> load_layer w4a16 (qwen_layers M0 ! l) = Inr (qwen_layers M ! l)"
proof -
  obtain lys where lys: "omap pack_layer (qwen_layers M0) = Inr lys"
    "(if w4a16 then quantize_runner_w4a16 w4_group_size (M0\<lparr> qwen_layers := lys \<rparr>) else Inr (M0\<lparr> qwen_layers := lys \<rparr>)) = Inr M"
    using assms by (auto simp: finish_load_def obind_Inr_iff Let_def)
  then obtain lys' where l': "M = M0\<lparr> qwen_layers := lys' \<rparr>"
    "if w4a16 then omap (quantize_layer w4_group_size) lys = Inr lys' else lys' = lys"
    by (auto simp: quantize_runner_w4a16_def obind_Inr_iff split: if_splits)
  have "length lys' = length lys \<and> (\<forall>i < length lys. if w4a16 then quantize_layer w4_group_size (lys ! i) = Inr (lys' ! i) else lys' ! i = lys ! i)"
    using l'(2) omap_Inr_nth [of "quantize_layer w4_group_size" lys lys'] by (cases w4a16) auto
  then show "length (qwen_layers M) = length (qwen_layers M0)" "embed_tokens M = embed_tokens M0"
    "rotary_inv_freq M = rotary_inv_freq M0" "final_norm M = final_norm M0" "qwen_lm_head M = qwen_lm_head M0"
    "l < length (qwen_layers M0) \<Longrightarrow> load_layer w4a16 (qwen_layers M0 ! l) = Inr (qwen_layers M ! l)"
    using omap_Inr_nth [OF lys(1)] l'(1) by (auto simp: load_layer_def)
qed

lemma mlp_rows:
  assumes fl: "fused_lib_ok fl theta f" and op: "w4a16 \<longrightarrow> marlin_ok (op_marlin ops)"
    and parts: "gate_proj mlp = Some g" "up_proj mlp = Some u" "gate_up_qweight mlp = None" "nn_bias g = None" "nn_bias u = None"
      "length (nn_weight g) = length (nn_weight u)" "0 < width (nn_weight g @ nn_weight u)"
    and packed: "pack_gate_up mlp = Inr mlp1" "(if w4a16 then mlp_quantize_w4a16 w4_group_size mlp1 else Inr mlp1) = Inr mlp2"
  shows "mlp_forward ops fl (mlp2\<lparr> down_proj := p \<rparr>) x = Inr (projection_forward ops p
      (map (\<lambda>v. silu_and_mul_row (map (dot v) (effective_weight w4a16 (nn_weight g @ nn_weight u)))) x))"
proof -
  let ?W = "nn_weight g @ nn_weight u"
  have m1: "mlp1 = mlp\<lparr> gate_up_weight := Some ?W \<rparr>" using packed(1) parts by (simp add: pack_gate_up_def)
  have lin: "f_linear w None x = map (\<lambda>v. map (dot v) w) x" for w by (rule f_linear_None)
  show ?thesis
  proof (cases w4a16)
    case True
    then obtain qw s where q: "quantize_packed_weight (mat_t ?W) w4_group_size = Inr (qw, s)"
      "gate_up_qweight mlp2 = Some qw" "gate_up_scales mlp2 = s"
      using packed(2) by (auto simp: m1 mlp_quantize_w4a16_def obind_Inr_iff)
    note sv = served_rows [OF q(1) parts(7)]
    have "marlin_linear (op_marlin ops) x qw s (width qw div 2) None = map (\<lambda>v. map (dot v) (effective_weight True ?W)) x"
      using sv(2) [of "op_marlin ops" x None] op True by (simp add: sv(3) project_row_def add_bias_def del: length_append)
    then show ?thesis using q True by (simp add: mlp_forward_def silu_and_mul_rows [OF fl] comp_def)
  next
    case False
    then have m2: "mlp2 = mlp\<lparr> gate_up_weight := Some ?W \<rparr>" using packed(2) m1 by simp
    have "silu_and_mul_row (map (dot v) ?W) = map2 (*) (map silu (map (dot v) (nn_weight g))) (map (dot v) (nn_weight u))" for v
      using parts(6) by (simp add: silu_and_mul_row_def)
    then show ?thesis
      using False parts
      by (simp add: m2 mlp_forward_def silu_and_mul_rows [OF fl] effective_weight_def lin nn_forward_def map2_map_same comp_def)
  qed
qed

text \<open>The parts of a loaded layer.\<close>

lemma load_layer_parts:
  assumes "load_layer w4a16 ly0 = Inr ly" "dense_parts ly0 = Some (q, k, v, out, g, u, d)" "ffn ly0 = DenseMlp mlp"
  obtains p1 p2 mlp1 mlp2 po pd where
    "qkv_pack (qa_qkv (self_attn ly0)) = Inr p1" "(if w4a16 then qkv_quantize_w4a16 w4_group_size p1 else Inr p1) = Inr p2"
    "pack_gate_up mlp = Inr mlp1" "(if w4a16 then mlp_quantize_w4a16 w4_group_size mlp1 else Inr mlp1) = Inr mlp2"
    "loaded_projection w4a16 out po" "loaded_projection w4a16 d pd"
    "ly = ly0\<lparr> ffn := DenseMlp (mlp2\<lparr> down_proj := pd \<rparr>), self_attn := (self_attn ly0)\<lparr> qa_qkv := p2, qa_o_proj := po \<rparr> \<rparr>"
proof -
  have parts: "qa_o_proj (self_attn ly0) = DenseProj out" "down_proj mlp = DenseProj d"
    using assms(2,3) by (auto split: option.splits projection.splits)
  obtain p1 mlp1 where m: "pack_gate_up mlp = Inr mlp1" "qkv_pack (qa_qkv (self_attn ly0)) = Inr p1"
    "(if w4a16 then quantize_layer w4_group_size (ly0\<lparr> ffn := DenseMlp mlp1, self_attn := (self_attn ly0)\<lparr> qa_qkv := p1 \<rparr> \<rparr>)
      else Inr (ly0\<lparr> ffn := DenseMlp mlp1, self_attn := (self_attn ly0)\<lparr> qa_qkv := p1 \<rparr> \<rparr>)) = Inr ly"
    using assms(1,3) by (auto simp: load_layer_def pack_layer_def obind_Inr_iff)
  have d1: "down_proj mlp1 = DenseProj d"
    using m(1) parts(2) by (auto simp: pack_gate_up_def split: option.splits)
  show thesis
  proof (cases w4a16)
    case True
    then obtain p2 po mlp2 pd where "qkv_quantize_w4a16 w4_group_size p1 = Inr p2"
      "marlin_projection w4_group_size (DenseProj out) = Inr po" "mlp_quantize_w4a16 w4_group_size mlp1 = Inr mlp2"
      "marlin_projection w4_group_size (down_proj mlp2) = Inr pd"
      "ly = ly0\<lparr> ffn := DenseMlp (mlp2\<lparr> down_proj := pd \<rparr>), self_attn := (self_attn ly0)\<lparr> qa_qkv := p2, qa_o_proj := po \<rparr> \<rparr>"
      using m(3) parts(1) by (auto simp: quantize_layer_def obind_Inr_iff)
    moreover from this(3) have "down_proj mlp2 = DenseProj d"
      using d1 by (auto simp: mlp_quantize_w4a16_def obind_Inr_iff split: option.splits)
    ultimately show thesis using True m(1,2) by (intro that [of p1 p2 mlp1 mlp2 po pd]) (simp_all add: loaded_projection_def)
  next
    case False
    have e1: "mlp1\<lparr> down_proj := DenseProj d \<rparr> = mlp1" using d1 by (cases mlp1) simp
    have e2: "(self_attn ly0)\<lparr> qa_qkv := p1, qa_o_proj := DenseProj out \<rparr> = (self_attn ly0)\<lparr> qa_qkv := p1 \<rparr>"
      using parts(1) by (cases "self_attn ly0") simp
    have "ly = ly0\<lparr> ffn := DenseMlp (mlp1\<lparr> down_proj := DenseProj d \<rparr>),
        self_attn := (self_attn ly0)\<lparr> qa_qkv := p1, qa_o_proj := DenseProj out \<rparr> \<rparr>"
      unfolding e1 e2 using m(3) False by simp
    then show thesis
      using False m(1,2)
      by (intro that [of p1 p1 mlp1 mlp1 "DenseProj out" "DenseProj d"]) (simp_all only: loaded_projection_def if_False)
  qed
qed

lemma length_effective:
  assumes "loaded_projection w4a16 lin p" "0 < width (nn_weight lin)"
  shows "length (effective_weight w4a16 (nn_weight lin)) = length (nn_weight lin)"
proof (cases w4a16)
  case True
  then obtain qw s where "quantize_packed_weight (mat_t (nn_weight lin)) w4_group_size = Inr (qw, s)"
    using assms(1) by (auto simp: loaded_projection_def marlin_projection_def from_linear_def obind_Inr_iff)
  from served_rows(1) [OF this assms(2)] True show ?thesis by simp
qed (simp add: effective_weight_def)

lemma length_project_row: "length w = hs \<Longrightarrow> bias_fits hs b \<Longrightarrow> length (project_row w b v) = hs"
  by (auto simp: project_row_def add_bias_def bias_fits_def split: option.splits)

lemma packed_bias_fits: "qkv_ok p q k v \<Longrightarrow> bias_fits (q_size p + k_size p + v_size p) (joint_bias q k v)"
  by (auto simp: qkv_ok_def joint_bias_def bias_fits_def split: option.splits)

lemma split3_rows:
  assumes "\<And>v. length (h v) = a + b + c"
  shows "split3 a b c (map h x) = Inr (map (\<lambda>v. take a (h v)) x, map (\<lambda>v. take b (drop a (h v))) x, map (\<lambda>v. drop (a + b) (h v)) x)"
  using assms by (simp add: split3_def require_def list_all_iff comp_def)

lemma qkv_rows:
  assumes ok: "qkv_ok p q k v" "qkv_qweight p = None" "0 < width (nn_weight q @ nn_weight k @ nn_weight v)"
    and op: "w4a16 \<longrightarrow> marlin_ok op"
    and packed: "qkv_pack p = Inr p1" "(if w4a16 then qkv_quantize_w4a16 w4_group_size p1 else Inr p1) = Inr p2"
  shows "qkv_forward op p2 x = split3 (q_size p) (k_size p) (v_size p)
      (map (project_row (effective_weight w4a16 (nn_weight q @ nn_weight k @ nn_weight v)) (joint_bias q k v)) x)"
    and "length (effective_weight w4a16 (nn_weight q @ nn_weight k @ nn_weight v)) = q_size p + k_size p + v_size p"
proof -
  let ?W = "nn_weight q @ nn_weight k @ nn_weight v"
  have p1: "p1 = p\<lparr> packed_weight := Some ?W, packed_bias := joint_bias q k v \<rparr>"
    using packed(1) ok(1) by (auto simp: qkv_pack_def qkv_ok_def joint_bias_def Let_def split: option.splits)
  have l: "length ?W = q_size p + k_size p + v_size p" using ok(1) by (simp add: qkv_ok_def)
  have "qkv_forward op p2 x = split3 (q_size p) (k_size p) (v_size p) (map (project_row (effective_weight w4a16 ?W) (joint_bias q k v)) x) \<and>
    length (effective_weight w4a16 ?W) = q_size p + k_size p + v_size p"
  proof (cases w4a16)
    case True
    then obtain qw s where qs: "quantize_packed_weight (mat_t ?W) w4_group_size = Inr (qw, s)" "qkv_qweight p2 = Some qw" "qkv_scales p2 = s"
      "q_size p2 = q_size p" "k_size p2 = k_size p" "v_size p2 = v_size p" "packed_bias p2 = joint_bias q k v"
      using packed(2) by (auto simp: p1 qkv_quantize_w4a16_def obind_Inr_iff Let_def)
    from served_rows(1,2) [OF qs(1) ok(3)] op True show ?thesis
      unfolding l by (simp add: qkv_forward_def qs(2-) del: length_append)
  next
    case False
    then show ?thesis
      using packed(2) ok(2) l by (auto simp: p1 qkv_forward_def effective_weight_def f_linear_rows)
  qed
  then show "qkv_forward op p2 x = split3 (q_size p) (k_size p) (v_size p) (map (project_row (effective_weight w4a16 ?W) (joint_bias q k v)) x)"
    "length (effective_weight w4a16 ?W) = q_size p + k_size p + v_size p" by blast+
qed

lemma loaded_layer_realises:
  assumes load: "load_layer w4a16 ly0 = Inr ly" and ok: "dense_layer_ok hs ly0" and fl: "fused_lib_ok fl theta f"
    and op: "w4a16 \<longrightarrow> marlin_ok (op_marlin ops)"
  shows "realises ops fl hs ly (dense_rows w4a16 ly0)"
proof -
  obtain q k v out g u d mlp where parts: "dense_parts ly0 = Some (q, k, v, out, g, u, d)" "ffn ly0 = DenseMlp mlp"
    using ok by (rule dense_layer_parts)
  then have sub: "gate_proj mlp = Some g" "up_proj mlp = Some u"
    by (auto split: option.splits projection.splits)
  have k: "qkv_ok (qa_qkv (self_attn ly0)) q k v" "qkv_qweight (qa_qkv (self_attn ly0)) = None"
    "0 < width (nn_weight q @ nn_weight k @ nn_weight v)"
    and o: "0 < width (nn_weight out)" "length (nn_weight out) = hs" "bias_fits hs (nn_bias out)"
    and m: "gate_up_qweight mlp = None" "nn_bias g = None" "nn_bias u = None" "length (nn_weight g) = length (nn_weight u)"
      "0 < width (nn_weight g @ nn_weight u)"
    and d: "0 < width (nn_weight d)" "length (nn_weight d) = hs" "bias_fits hs (nn_bias d)"
    and qk: "q_norm (self_attn ly0) = None \<longleftrightarrow> k_norm (self_attn ly0) = None"
    and nw: "length (norm_weight (post_attention_layernorm ly0)) = hs"
    using ok by (simp_all add: dense_layer_ok_def parts del: dense_parts.simps)
  obtain p1 p2 mlp1 mlp2 po pd where l:
    "qkv_pack (qa_qkv (self_attn ly0)) = Inr p1" "(if w4a16 then qkv_quantize_w4a16 w4_group_size p1 else Inr p1) = Inr p2"
    "pack_gate_up mlp = Inr mlp1" "(if w4a16 then mlp_quantize_w4a16 w4_group_size mlp1 else Inr mlp1) = Inr mlp2"
    "loaded_projection w4a16 out po" "loaded_projection w4a16 d pd"
    "ly = ly0\<lparr> ffn := DenseMlp (mlp2\<lparr> down_proj := pd \<rparr>), self_attn := (self_attn ly0)\<lparr> qa_qkv := p2, qa_o_proj := po \<rparr> \<rparr>"
    using load_layer_parts [OF load parts] by metis
  let ?qkv = "project_row (effective_weight w4a16 (nn_weight q @ nn_weight k @ nn_weight v)) (joint_bias q k v)"
  have sz: "length (nn_weight q) = q_size (qa_qkv (self_attn ly0))" "length (nn_weight k) = k_size (qa_qkv (self_attn ly0))"
    using k(1) by (simp_all add: qkv_ok_def)
  have rows: "length (?qkv x) = q_size (qa_qkv (self_attn ly0)) + k_size (qa_qkv (self_attn ly0)) + v_size (qa_qkv (self_attn ly0))" for x
    by (rule length_project_row [OF qkv_rows(2) [OF k op l(1,2)] packed_bias_fits [OF k(1)]])
  have 1: "qkv_forward (op_marlin ops) (qa_qkv (self_attn ly)) x
      = Inr (map (rl_q (dense_rows w4a16 ly0)) x, map (rl_k (dense_rows w4a16 ly0)) x, map (rl_v (dense_rows w4a16 ly0)) x)" for x
    using qkv_rows(1) [OF k op l(1,2)] split3_rows [of ?qkv, OF rows]
    by (simp add: l(7) dense_rows_def parts Let_def sz del: dense_parts.simps)
  have 2: "projection_forward ops (qa_o_proj (self_attn ly)) x = map (rl_o (dense_rows w4a16 ly0)) x" for x
    using loaded_projection_rows [OF l(5) op o(1)] by (simp add: l(7) dense_rows_def parts Let_def del: dense_parts.simps)
  have 3: "ffn_forward ops fl (ffn ly) x = Inr (map (rl_ffn (dense_rows w4a16 ly0)) x)" for x
    using mlp_rows [OF fl op sub m l(3,4), of pd x] loaded_projection_rows [OF l(6) op d(1)]
    by (simp add: l(7) dense_rows_def parts Let_def comp_def del: dense_parts.simps)
  have 4: "length (rl_o (dense_rows w4a16 ly0) x) = hs" for x
    using length_project_row [OF _ o(3)] length_effective [OF l(5) o(1)] o(2)
    by (simp add: dense_rows_def parts Let_def del: dense_parts.simps)
  have 5: "length (rl_ffn (dense_rows w4a16 ly0) x) = hs" for x
    using length_project_row [OF _ d(3)] length_effective [OF l(6) d(1)] d(2)
    by (simp add: dense_rows_def parts Let_def del: dense_parts.simps)
  show ?thesis unfolding realises_def using 1 2 3 4 5 qk nw by (simp add: l(7))
qed

section \<open>The forward of a loaded model\<close>

definition checkpoint_ok :: "nat \<Rightarrow> qwen_model \<Rightarrow> bool" where
  "checkpoint_ok hs M = (list_all (dense_layer_ok hs) (qwen_layers M) \<and> list_all (\<lambda>v. length v = hs) (embed_tokens M))"

text \<open>The native operators keep their contracts on every layer.\<close>

definition operators_ok :: "attention_ops \<Rightarrow> fused_lib \<Rightarrow> real \<Rightarrow> bool \<Rightarrow> nat \<Rightarrow> qwen_model \<Rightarrow> bool" where
  "operators_ok ops fl theta w4a16 bl M =
     (fused_lib_ok fl theta (rotary_inv_freq M) \<and> (w4a16 \<longrightarrow> marlin_ok (op_marlin ops)) \<and>
      (\<forall>ly \<in> set (qwen_layers M). qa_rope_theta (self_attn ly) = theta \<and> attention_ops_ok ops bl (self_attn ly)))"

lemma attention_ops_update: "attention_ops_ok ops bl (a\<lparr> qa_qkv := x, qa_o_proj := y \<rparr>) = attention_ops_ok ops bl a"
proof -
  have "attend (a\<lparr> qa_qkv := x, qa_o_proj := y \<rparr>) = attend a" by (intro ext) (simp add: attend_def)
  moreover have "csr_attention bl (a\<lparr> qa_qkv := x, qa_o_proj := y \<rparr>) = csr_attention bl a" by (intro ext) (simp add: csr_attention_def)
  ultimately show ?thesis by (simp add: attention_ops_ok_def)
qed

lemma loaded_model_realised:
  assumes load: "finish_load w4a16 M0 = Inr M" and ok: "checkpoint_ok hs M0" and ops: "operators_ok ops fl theta w4a16 bl M0"
  shows "model_realised ops fl bl M (map (dense_rows w4a16) (qwen_layers M0)) hs"
proof -
  note L = finish_load_layers [OF load]
  have fl: "fused_lib_ok fl theta (rotary_inv_freq M)" using ops by (simp add: operators_ok_def L(3))
  have "realises ops fl hs (qwen_layers M ! l) (dense_rows w4a16 (qwen_layers M0 ! l)) \<and>
      attention_ops_ok ops bl (self_attn (qwen_layers M ! l)) \<and> qa_rope_theta (self_attn (qwen_layers M ! l)) = theta"
    if l: "l < length (qwen_layers M0)" for l
  proof -
    let ?ly0 = "qwen_layers M0 ! l"
    have d: "dense_layer_ok hs ?ly0" using ok l by (simp add: checkpoint_ok_def list_all_length)
    have o: "qa_rope_theta (self_attn ?ly0) = theta" "attention_ops_ok ops bl (self_attn ?ly0)" "w4a16 \<longrightarrow> marlin_ok (op_marlin ops)"
      using ops l by (simp_all add: operators_ok_def)
    obtain q k v out g u dn mlp where parts: "dense_parts ?ly0 = Some (q, k, v, out, g, u, dn)" "ffn ?ly0 = DenseMlp mlp"
      using d by (rule dense_layer_parts)
    obtain a b c where "qwen_layers M ! l = ?ly0\<lparr> ffn := c, self_attn := (self_attn ?ly0)\<lparr> qa_qkv := a, qa_o_proj := b \<rparr> \<rparr>"
      by (rule load_layer_parts [OF L(6) [OF l] parts]) blast
    then have "self_attn (qwen_layers M ! l) = (self_attn ?ly0)\<lparr> qa_qkv := a, qa_o_proj := b \<rparr>" by simp
    with o loaded_layer_realises [OF L(6) [OF l] d fl o(3)] show ?thesis by (simp add: attention_ops_update)
  qed
  then show ?thesis using fl ok by (auto simp: model_realised_def L(1,2) checkpoint_ok_def list_all_iff)
qed

text \<open>C2: The Qwen runner computes its checkpoint. Whatever attention backend is on (per-request attention over
  gathered context, FlashAttention, paged decode with any number of splits, FlashInfer planned from either
  builder's input), with or without the fused library operators and with or without W4A16, one packed
  forward of a loaded model over any batch returns, for every fed position, the logits of recomputing the
  request's prefix row by row from the checkpoint's own layers without cache or packing (under W4A16 with
  the weights the packed words stand for), and leaves every request's whole context cached.\<close>

theorem qwen_forward_recomputes:
  assumes "finish_load w4a16 M0 = Inr M" "checkpoint_ok hs M0" "operators_ok ops fl theta w4a16 bl M0"
    and "batch_ok bl nb (requests plan) xss" "requests plan \<noteq> []" "concat (map input_token_ids (requests plan)) \<noteq> []"
    and "\<forall>r \<in> set (requests plan). 1 \<le> request_context r" "built_input plan bl mi" "backend_ok bl (requests plan) fi"
    and "kv_shape (length (qwen_layers M)) bl nb st"
    and "\<forall>xs \<in> set xss. \<forall>t \<in> set xs. 0 \<le> t \<and> t < int (length (embed_tokens M))"
    and "rls = map (dense_rows w4a16) (qwen_layers M0)"
    and "\<forall>r < length (requests plan).
           qwen_holds M rls hs bl st (block_table (requests plan ! r)) (xss ! r) (start_position (requests plan ! r))"
  shows "\<exists>fi' st'. qwen_forward ops fl M mi (fi, st) = Inr (qwen_owed M rls hs (requests plan) xss, fi', st') \<and>
    kv_shape (length (qwen_layers M)) bl nb st' \<and>
    (\<forall>r < length (requests plan).
       qwen_holds M rls hs bl st' (block_table (requests plan ! r)) (xss ! r) (request_context (requests plan ! r)))"
  using assms loaded_model_realised [OF assms(1-3)] by (intro qwen_forward_ok) simp_all

text \<open>A one-layer checkpoint behind FlashInfer.\<close>

definition eye :: "nn_linear" where
  "eye = \<lparr> nn_weight = [[1, 0], [0, 1]], nn_bias = None \<rparr>"

definition small_norm :: qwen_rms_norm where
  "small_norm = \<lparr> norm_weight = [1, 1], norm_eps = 1 \<rparr>"

definition small_attention :: qwen_attention where
  "small_attention = \<lparr> qa_heads = 1, qa_kv_heads = 1, qa_head_dim = 2, use_flash_attention = False, use_paged_decode_attention = False,
     paged_decode_max_splits = 16, qa_rope_theta = 10000,
     qa_qkv = \<lparr> q_size = 2, k_size = 2, v_size = 2, q_proj = Some eye, k_proj = Some eye, v_proj = Some eye, packed_weight = None,
       packed_bias = None, qkv_qweight = None, qkv_scales = [], qkv_workspace = [] \<rparr>,
     qa_o_proj = DenseProj eye, q_norm = Some small_norm, k_norm = Some small_norm \<rparr>"

definition small_model :: qwen_model where
  "small_model = \<lparr> embed_tokens = [[1, 0], [0, 1]],
     qwen_layers = [\<lparr> self_attn = small_attention,
       ffn = DenseMlp \<lparr> gate_proj = Some eye, up_proj = Some eye, down_proj = DenseProj eye, gate_up_weight = None, gate_up_qweight = None,
         gate_up_scales = [], mlp_workspace = [] \<rparr>,
       input_layernorm = small_norm, post_attention_layernorm = small_norm \<rparr>],
     final_norm = small_norm, rotary_inv_freq = [1], qwen_lm_head = [[1, 2], [3, 4]] \<rparr>"

definition small_ops :: attention_ops where
  "small_ops = \<lparr> op_write = (\<lambda>k v s a b. Inl TypeError), op_gather = (\<lambda>k v t n. Inl TypeError), op_flash = (\<lambda>q k v n s. []),
     op_paged = (\<lambda>q k v t n s. []), op_split = (\<lambda>q k v t n m s. []), op_flashinfer = csr_attention 1 small_attention,
     op_marlin = marlin_model, op_topk = (\<lambda>p k. []), op_launch = (\<lambda>x. \<lparr> ml_block_m = 16, ml_block_n = 16, ml_block_h = 16, ml_silu_block = 16, ml_order1 = [],
       ml_silu_order = [], ml_order2 = [], ml_c1 = [], ml_act = [], ml_c2 = [] \<rparr>) \<rparr>"

definition small_plan :: batch_plan where
  "small_plan = \<lparr> step_id = 0, requests = [\<lparr> request_id = [], input_token_ids = [0, 1], req_work_type = Prefill, start_position = 0,
     block_table = [1, 0], need_sample = True, req_sampling_plan = None \<rparr>] \<rparr>"

definition small_store :: "slot_data kv_storage" where
  "small_store = \<lparr> geometry = \<lparr> num_layers = 1, num_blocks = 2, geo_block_len = 1, num_kv_heads = 1, geo_head_dim = 2 \<rparr>,
     st_kv_dtype = Float32, k_scale = 1, v_scale = 1, K_cache = [[[], []]], V_cache = [[[], []]], use_custom_ops = False \<rparr>"

definition small_fi :: fi_attention where
  "small_fi = \<lparr> num_qo_heads = 1, fi_num_kv_heads = 1, fi_head_dim = 2, page_size = 1, max_batch = 1, fi_indices = [0, 0],
     decode_wrappers = [], active = None \<rparr>"

definition small_loaded :: qwen_model where
  "small_loaded = (case finish_load False small_model of Inr M \<Rightarrow> M)"

lemma small_load: "finish_load False small_model = Inr small_loaded"
  by (simp add: small_loaded_def finish_load_def small_model_def small_attention_def eye_def pack_layer_def pack_gate_up_def qkv_pack_def Let_def)

lemma small_checkpoint: "checkpoint_ok 2 small_model"
  by (simp add: checkpoint_ok_def small_model_def small_attention_def dense_layer_ok_def eye_def qkv_ok_def bias_fits_def width_def small_norm_def)

lemma small_operators: "operators_ok small_ops cpu_lib 10000 False 1 small_model"
  by (simp add: operators_ok_def cpu_lib_ok small_model_def attention_ops_ok_def small_ops_def)
    (simp add: small_attention_def)

lemma small_batch:
  "batch_ok 1 2 (requests small_plan) [[0, 1]]" "requests small_plan \<noteq> []" "concat (map input_token_ids (requests small_plan)) \<noteq> []"
  "\<forall>r \<in> set (requests small_plan). 1 \<le> request_context r" "built_input small_plan 1 (plan_input small_plan 1)"
  "backend_ok 1 (requests small_plan) (Some small_fi)" "kv_shape (length (qwen_layers small_loaded)) 1 2 small_store"
  "\<forall>xs \<in> set [[0, 1]]. \<forall>t \<in> set xs. 0 \<le> t \<and> t < int (length (embed_tokens small_loaded))"
proof -
  show b: "batch_ok 1 2 (requests small_plan) [[0, 1]]"
    by (auto simp: batch_ok_def small_plan_def batch_slots_def slots_at_def slot_at_def pages_of_def request_context_def ceil_div_def
        less_Suc_eq numeral_2_eq_2)
  show c: "\<forall>r \<in> set (requests small_plan). 1 \<le> request_context r"
    by (simp add: small_plan_def request_context_def)
  show "requests small_plan \<noteq> []" "concat (map input_token_ids (requests small_plan)) \<noteq> []"
    by (simp_all add: small_plan_def)
  then show "built_input small_plan 1 (plan_input small_plan 1)"
    unfolding built_input_def by (intro disjI1 from_plan_plan_input batch_requests_ok [OF b c]) simp
  show "backend_ok 1 (requests small_plan) (Some small_fi)"
    by (simp add: small_plan_def small_fi_def i32_ok_def request_context_def pages_of_def ceil_div_def token_count_def)
  note L = finish_load_layers [OF small_load]
  show "kv_shape (length (qwen_layers small_loaded)) 1 2 small_store"
    unfolding L(1) by (simp add: small_model_def kv_shape_def small_store_def float_dtypes_def)
  show "\<forall>xs \<in> set [[0, 1]]. \<forall>t \<in> set xs. 0 \<le> t \<and> t < int (length (embed_tokens small_loaded))"
    unfolding L(2) by (simp add: small_model_def)
qed

theorem qwen_forward_recomputes_witness:
  "\<exists>fi' st'. qwen_forward small_ops cpu_lib small_loaded (plan_input small_plan 1) (Some small_fi, small_store)
     = Inr (qwen_owed small_loaded (map (dense_rows False) (qwen_layers small_model)) 2 (requests small_plan) [[0, 1]], fi', st')"
proof -
  have "\<forall>r < length (requests small_plan). qwen_holds small_loaded (map (dense_rows False) (qwen_layers small_model)) 2 1 small_store
     (block_table (requests small_plan ! r)) ([[0, 1]] ! r) (start_position (requests small_plan ! r))"
    by (simp add: small_plan_def qwen_holds_def slots_hold_def)
  from qwen_forward_recomputes [OF small_load small_checkpoint small_operators small_batch refl this] show ?thesis by blast
qed

end
