(* ===== verification/QwenGraph.thy ===== *)
theory QwenGraph
  imports QwenModel SpecLossless DecodeGraph
begin

text \<open>
  The decode CUDA graph of a Qwen runner in the speculative engine (\<open>try_decode_cuda_graph\<close> of \<open>qwen.py\<close>
  over \<open>decode_graph.py\<close>): one query of one request is replayed in the bucket of size one. Capture and
  replay are the runtime's; the contract \<open>graph_rt_ok\<close> is that a replay runs the captured forward over the
  static buffers and that a failure touches no slot but those the static input maps.
\<close>

section \<open>The runtime's contract\<close>

text \<open>Everything but the slots in \<open>slots\<close> is as before.\<close>

definition cache_kept :: "int list \<Rightarrow> slot_data kv_storage \<Rightarrow> slot_data kv_storage \<Rightarrow> bool" where
  "cache_kept slots c c' =
     (geometry c' = geometry c \<and> st_kv_dtype c' = st_kv_dtype c \<and> use_custom_ops c' = use_custom_ops c \<and>
      map length (K_cache c') = map length (K_cache c) \<and> map length (V_cache c') = map length (V_cache c) \<and>
      (\<forall>l s. s \<notin> set slots \<longrightarrow> 0 \<le> s \<longrightarrow> K_cache c' ! l ! nat s = K_cache c ! l ! nat s \<and> V_cache c' ! l ! nat s = V_cache c ! l ! nat s))"

definition graph_rt_ok ::
    "attention_ops \<Rightarrow> fused_lib \<Rightarrow> qwen_model \<Rightarrow> (slot_data kv_storage, real) graph_runtime \<Rightarrow> bool" where
  "graph_rt_ok ops fl M rt =
     ((\<forall>bucket mi call c. case rt_replay rt bucket mi call c of
         (Inr logits, c') \<Rightarrow> forward_compute ops fl (Some call) M mi c = Inr (logits, c')
       | (Inl _, c') \<Rightarrow> cache_kept (mi_slot_mapping mi) c c') \<and>
      (\<forall>bucket mi c. cache_kept (mi_slot_mapping mi) c (snd (rt_capture rt bucket mi c))))"

lemma map_length_eqD: "map length xs = map length ys \<Longrightarrow> length xs = length ys \<and> (\<forall>l < length ys. length (xs ! l) = length (ys ! l))"
  by (induction xs ys rule: list_induct2') (auto simp: nth_Cons split: nat.splits)

lemma cache_kept_shape: "cache_kept slots c c' \<Longrightarrow> kv_shape n bl nb c \<Longrightarrow> kv_shape n bl nb c'"
  by (auto simp: kv_shape_def cache_kept_def dest!: map_length_eqD)

section \<open>With FlashInfer the host fields are not read\<close>

lemma forward_compute_host:
  "forward_compute ops fl (Some call) M (mi\<lparr> mi_query_start_loc_host := a, mi_context_lens_host := b \<rparr>) st
     = forward_compute ops fl (Some call) M mi st"
proof -
  have "attention_forward ops fl (Some call) attn idx x cs (mi\<lparr> mi_query_start_loc_host := a, mi_context_lens_host := b \<rparr>) s
      = attention_forward ops fl (Some call) attn idx x cs mi s" for attn idx x cs s
    by (simp add: attention_forward_def Let_def cong: if_cong option.case_cong)
  then have "layer_step ops fl (Some call) ly idx hr cs (mi\<lparr> mi_query_start_loc_host := a, mi_context_lens_host := b \<rparr>) s
      = layer_step ops fl (Some call) ly idx hr cs mi s" for ly idx hr cs s
    by (simp add: layer_step_def)
  then show ?thesis by (simp add: forward_compute_def)
qed

section \<open>Bucket one\<close>

definition static_ok :: "nat \<Rightarrow> model_input \<Rightarrow> bool" where
  "static_ok nb mi =
     (length (mi_input_token_ids mi) = 1 \<and> length (mi_position mi) = 1 \<and> length (mi_slot_mapping mi) = 1 \<and>
      length (mi_context_lens mi) = 1 \<and> length (mi_block_tables mi) = 1 \<and> row_width (mi_block_tables mi) = nb \<and>
      mi_query_start_loc mi = [0, 1] \<and> mi_packed_mask mi = None)"

definition graph_wf :: "nat \<Rightarrow> decode_graph \<Rightarrow> bool" where
  "graph_wf nb dg = (dg_num_blocks dg = nb \<and> (\<forall>mi. dg_inputs dg 1 = Some mi \<longrightarrow> static_ok nb mi))"

lemma graph_wf_init: "graph_wf nb (dg_init bl nb dummy)"
  by (simp add: graph_wf_def dg_init_def)

definition chunk_static :: "nat \<Rightarrow> int list \<Rightarrow> int \<Rightarrow> model_input \<Rightarrow> decode_graph \<Rightarrow> model_input \<Rightarrow> bool" where
  "chunk_static pages xs y mi dg sm =
     (static_ok (dg_num_blocks dg) sm \<and> mi_input_token_ids sm = [y] \<and> mi_position sm = mi_position mi \<and>
      mi_slot_mapping sm = mi_slot_mapping mi \<and> mi_context_lens sm = mi_context_lens mi \<and>
      mi_block_tables sm = [put_slice (dummy_row dg) 0 (map int [0..<pages])])"

lemma chunk_fields:
  assumes "chunk_input bl pages xs [y] mi" "bl > 0" "ceil_div (length xs + 1) bl \<le> pages"
  shows "mi_input_token_ids mi = [y]" "mi_position mi = [int (length xs)]" "mi_slot_mapping mi = [int (length xs)]"
    "mi_context_lens mi = [int (length xs + 1)]" "mi_block_tables mi = [map int [0..<pages]]"
    "mi_flashinfer_csr mi = Some (chunk_csr bl 1 (length xs + 1))"
proof -
  have "mi\<lparr> mi_flashinfer_csr := None, mi_is_decode_only := False \<rparr> = plan_input (chunk_plan pages xs [y]) bl"
    using assms(1) by (simp add: chunk_input_def)
  note e = this [unfolded plan_input_chunk [OF assms(2), of xs "[y]" pages, simplified, OF assms(3) [simplified]]]
  show "mi_input_token_ids mi = [y]" "mi_position mi = [int (length xs)]" "mi_slot_mapping mi = [int (length xs)]"
    "mi_context_lens mi = [int (length xs + 1)]" "mi_block_tables mi = [map int [0..<pages]]"
    "mi_flashinfer_csr mi = Some (chunk_csr bl 1 (length xs + 1))"
    using arg_cong [OF e, of mi_input_token_ids] arg_cong [OF e, of mi_position] arg_cong [OF e, of mi_slot_mapping]
      arg_cong [OF e, of mi_context_lens] arg_cong [OF e, of mi_block_tables] assms(1)
    by (simp_all add: chunk_input_def)
qed

lemma fill_chunk:
  assumes "chunk_input bl pages xs [y] mi" "bl > 0" "ceil_div (length xs + 1) bl \<le> pages" "pages \<le> nb" "graph_wf nb dg"
  shows "\<exists>dg' sm. fill_input 1 mi 1 dg = Inr dg' \<and> dg_inputs dg' 1 = Some sm \<and> chunk_static pages xs y mi dg' sm \<and> graph_wf nb dg' \<and>
    dg_failed dg' = dg_failed dg"
proof -
  note f = chunk_fields [OF assms(1-3)]
  have pages: "0 < pages" using assms(3) ceil_div_pos_iff [OF assms(2), of "length xs + 1"] by simp
  obtain dst dg1 where d: "static_input 1 dg = (dst, dg1)" "static_ok nb dst" "dg_num_blocks dg1 = nb" "dg_failed dg1 = dg_failed dg"
    "dummy_row dg1 = dummy_row dg"
  proof (cases "dg_inputs dg 1")
    case None
    have "static_ok nb (static_input_new dg 1)"
      using assms(5) by (simp add: static_ok_def static_input_new_def row_width_def graph_wf_def)
    then show ?thesis using None assms(5) that [of "static_input_new dg 1"]
      by (simp add: static_input_def Let_def graph_wf_def dummy_row_def)
  next
    case (Some m)
    then show ?thesis using assms(5) that [of m dg] by (simp add: static_input_def graph_wf_def)
  qed
  have w: "min (row_width (mi_block_tables mi)) (row_width (mi_block_tables dst)) = pages"
    using d(2) assms(4) by (simp add: f row_width_def static_ok_def)
  have one: "put_slice xs 0 [x] = [x]" if "length xs = 1" for xs :: "int list" and x
    using that by (cases xs) (simp_all add: put_slice_def)
  have pad: "put_slice [x] 1 [] = [x]" for x :: int by (simp add: put_slice_def)
  let ?sm = "dst\<lparr> mi_input_token_ids := [y], mi_position := mi_position mi, mi_slot_mapping := mi_slot_mapping mi,
     mi_context_lens := mi_context_lens mi, mi_block_tables := [put_slice (dummy_row dg) 0 (map int [0..<pages])] \<rparr>"
  have "fill_input 1 mi 1 dg = Inr (dg1\<lparr> dg_inputs := (dg_inputs dg1)(1 \<mapsto> ?sm) \<rparr>)"
    using d(2) unfolding fill_input_def d(1) Let_def prod.case w
    by (simp add: copy_into_def require_def f one pad static_ok_def)
  moreover have "static_ok nb ?sm"
    using d(2) assms(4,5) pages by (auto simp: static_ok_def f row_width_def put_slice_def graph_wf_def)
  ultimately show ?thesis
    using d by (auto simp: chunk_static_def graph_wf_def f dummy_row_def)
qed

text \<open>The static input describes the chunk, up to the host fields, which the captured forward does not read.\<close>

lemma chunk_static_describes:
  assumes "chunk_static pages xs y mi dg sm" "chunk_input bl pages xs [y] mi" "bl > 0" "ceil_div (length xs + 1) bl \<le> pages" "pages \<le> dg_num_blocks dg"
  shows "describes bl [chunk_request pages xs [y]]
    (sm\<lparr> mi_query_start_loc_host := [0, 1], mi_context_lens_host := [length xs + 1] \<rparr>)"
proof -
  let ?r = "chunk_request pages xs [y]"
  note f = chunk_fields [OF assms(2-4)]
  have "describes bl [?r] mi" using chunk_input_describes(1) [OF assms(2)] assms(4) by simp
  moreover from this have "request_positions ?r = mi_position mi" "batch_slots bl [?r] = mi_slot_mapping mi"
    by (simp_all add: describes_def)
  then have "request_positions ?r = [int (length xs)]" "batch_slots bl [?r] = [int (length xs)]" unfolding f .
  moreover have "take (pages_of bl ?r) (put_slice (dummy_row dg) 0 (map int [0..<pages])) = take (pages_of bl ?r) (map int [0..<pages])"
    "pages \<le> length (put_slice (dummy_row dg) 0 (map int [0..<pages]))"
    using assms(4,5) by (simp_all add: put_slice_def pages_of_def)
  ultimately show ?thesis
    using assms(1,4) f by (auto simp: describes_def chunk_static_def static_ok_def token_count_def pages_of_def)
qed

lemma decode_plan_describes:
  assumes "bl > 0" "plan_decode_bucket 1 sm (Some ([0, int (ceil_div c bl)], map int [0..<ceil_div c bl], [int c - (int (ceil_div c bl) - 1) * int bl])) staged fi
      = Inr (call, fi')"
    and "c = length xs + 1" "ceil_div c bl \<le> pages"
  shows "plan_describes bl [chunk_request pages xs [y]] call"
proof -
  have "0 < ceil_div c bl" using assms(1,3) by (simp add: ceil_div_pos_iff)
  then have "int (ceil_div c bl - 1) = int (ceil_div c bl) - 1" by (simp add: of_nat_diff)
  then have lp: "int c - (int (ceil_div c bl) - 1) * int bl = int (last_page_of bl c)"
    using last_page_bounds(3) [OF assms(1), of c] assms(3) by (metis add_diff_cancel_left' add_gr_0 of_nat_add of_nat_mult zero_less_one)
  have tk: "take (ceil_div c bl) (map int [0..<pages]) = map int [0..<ceil_div c bl]" using assms(4) by (simp add: take_map)
  have "pc_qo_indptr call = None \<and> pc_kv_indptr call = [0, int (ceil_div c bl)] \<and> pc_indices call = map int [0..<ceil_div c bl] \<and>
      pc_last_page call = [int (last_page_of bl c)] \<and> pc_causal call \<and> pc_mask call = None"
    using assms(2) unfolding plan_decode_bucket_def lp
    by (auto simp: obind_Inr_iff Let_def require_Inr_iff put_slice_def split: if_splits)
  then show ?thesis
    using tk assms(3) by (simp add: plan_describes_def token_count_def pages_of_def)
qed

lemma cache_kept_refl [simp]: "cache_kept slots c c"
  by (simp add: cache_kept_def)

lemma cache_kept_trans: "cache_kept slots c c' \<Longrightarrow> cache_kept slots c' c'' \<Longrightarrow> cache_kept slots c c''"
  by (simp add: cache_kept_def)

lemma select_one: "select_decode_graph_bucket 1 = Some 1"
  by code_simp

text \<open>What capturing, planning and replaying bucket one may do.\<close>

lemma replay_bucket_cases:
  assumes rt: "graph_rt_ok ops fl M rt" and wf: "graph_wf nb dg" and sm: "dg_inputs dg 1 = Some sm"
    and r: "replay_bucket rt 1 1 (Some csr) staged (dg, fi, st) = (out, dg', fi', st')"
  shows "graph_wf nb dg' \<and>
    (case out of
       None \<Rightarrow> cache_kept (mi_slot_mapping sm) st st'
     | Some rows \<Rightarrow> (\<exists>logits call f f' s. rows = take 1 logits \<and> plan_decode_bucket 1 sm (Some csr) staged f = Inr (call, f') \<and>
         cache_kept (mi_slot_mapping sm) st s \<and> forward_compute ops fl (Some call) M sm s = Inr (logits, st')))"
proof -
  have cap: "cache_kept (mi_slot_mapping sm) c (snd (rt_capture rt 1 sm c))" for c using rt by (simp add: graph_rt_ok_def)
  have si: "static_input 1 dg = (sm, dg)" using sm by (simp add: static_input_def)
  obtain res d f s where e: "ensure_captured rt 1 (dg, fi, st) = (res, d, f, s)" by (metis prod_cases4)
  have d: "graph_wf nb d" "dg_inputs d 1 = Some sm" "cache_kept (mi_slot_mapping sm) st s"
    using e wf sm cap [of st]
    by (auto simp: ensure_captured_def si graph_wf_def simp del: One_nat_def split: if_splits sum.splits prod.splits)
  have mf: "graph_wf nb (mark_failed 1 err d)" for err using d(1) by (simp add: graph_wf_def mark_failed_def)
  show ?thesis
  proof (cases res)
    case (Inl err)
    then show ?thesis using r e d(3) mf by (auto simp: replay_bucket_def)
  next
    case (Inr u)
    show ?thesis
    proof (cases "plan_decode_bucket 1 sm (Some csr) staged f")
      case (Inl err)
      then show ?thesis using r e \<open>res = Inr u\<close> d mf by (auto simp: replay_bucket_def)
    next
      case p: (Inr cf)
      obtain call f1 where cf: "cf = (call, f1)" by (cases cf)
      obtain res2 s2 where r2: "rt_replay rt 1 sm call s = (res2, s2)" by (cases "rt_replay rt 1 sm call s")
      then have "case res2 of Inr logits \<Rightarrow> forward_compute ops fl (Some call) M sm s = Inr (logits, s2) | Inl _ \<Rightarrow> cache_kept (mi_slot_mapping sm) s s2"
        using rt unfolding graph_rt_ok_def by (metis (mono_tags, lifting) case_prod_conv)
      note k = this
      show ?thesis
      proof (cases res2)
        case (Inl err)
        then show ?thesis
          using r e \<open>res = Inr u\<close> d mf p cf r2 k cache_kept_trans [OF d(3)] by (auto simp: replay_bucket_def)
      next
        case (Inr logits)
        then have "out = Some (take 1 logits) \<and> dg' = d \<and> st' = s2"
          using r e \<open>res = Inr u\<close> d p cf r2 by (simp add: replay_bucket_def)
        moreover have "forward_compute ops fl (Some call) M sm s = Inr (logits, s2)" using k Inr by simp
        ultimately show ?thesis using d(1,3) p [unfolded cf] by (simp del: One_nat_def) blast
      qed
    qed
  qed
qed

text \<open>\<open>try_replay\<close> of one decode token: nothing, with only the chunk's slot touched, or the forward of the
  static input under a plan that describes the chunk.\<close>

lemma try_replay_chunk:
  assumes rt: "graph_rt_ok ops fl M rt" and mi: "chunk_input bl pages xs [y] mi" and bl: "bl > 0"
    and fits: "ceil_div (length xs + 1) bl \<le> pages" "pages \<le> nb" and wf: "graph_wf nb dg"
  shows "\<exists>out dg' fi' st'. try_replay rt staged mi (dg, fi, st) = Inr (out, dg', fi', st') \<and> graph_wf nb dg' \<and>
    (case out of
       None \<Rightarrow> cache_kept [int (length xs)] st st'
     | Some rows \<Rightarrow> (\<exists>logits call sm d s. rows = take 1 logits \<and> chunk_static pages xs y mi d sm \<and> dg_num_blocks d = nb \<and>
         plan_describes bl [chunk_request pages xs [y]] call \<and>
         cache_kept [int (length xs)] st s \<and> forward_compute ops fl (Some call) M sm s = Inr (logits, st')))"
proof -
  note f = chunk_fields [OF mi bl fits(1)]
  have sel: "select_decode_graph_bucket (int (length (mi_context_lens mi))) = Some 1" by (simp add: f select_one)
  show ?thesis
  proof (cases "\<not> mi_is_decode_only mi \<or> 1 \<in> set (dg_failed dg)")
    case True
    then have "try_replay rt staged mi (dg, fi, st) = Inr (None, dg, fi, st)"
      using sel by (auto simp: try_replay_def Let_def)
    then show ?thesis using wf by auto
  next
    case False
    obtain d sm where d: "fill_input 1 mi 1 dg = Inr d" "dg_inputs d 1 = Some sm" "chunk_static pages xs y mi d sm" "graph_wf nb d"
      using fill_chunk [OF mi bl fits wf] by blast
    let ?c = "length xs + 1"
    let ?csr = "([0, int (ceil_div ?c bl)], map int [0..<ceil_div ?c bl], [int ?c - (int (ceil_div ?c bl) - 1) * int bl])"
    let ?d = "d\<lparr> csr_ready := False \<rparr>"
    obtain out dg' fi' st' where r: "replay_bucket rt 1 1 (Some ?csr) staged (?d, fi, st) = (out, dg', fi', st')" by (metis prod_cases4)
    have len: "length (mi_context_lens mi) = 1" by (simp add: f)
    have t: "try_replay rt staged mi (dg, fi, st) = Inr (out, dg', fi', st')"
      using False by (simp only: try_replay_def prod.case Let_def len of_nat_1 select_one f(6) chunk_csr_def option.case d(1)
          obind_simps if_False if_True simp_thms r de_Morgan_disj)
    have wf': "graph_wf nb ?d" "dg_inputs ?d 1 = Some sm" using d(2,4) by (simp_all add: graph_wf_def)
    note c = replay_bucket_cases [OF rt wf' r]
    have sm: "mi_slot_mapping sm = [int (length xs)]" using d(3) f(3) by (simp add: chunk_static_def)
    show ?thesis
    proof (cases out)
      case None
      then show ?thesis using t c sm by auto
    next
      case (Some rows)
      then obtain logits call g g' s where g: "rows = take 1 logits" "plan_decode_bucket 1 sm (Some ?csr) staged g = Inr (call, g')"
        "cache_kept [int (length xs)] st s" "forward_compute ops fl (Some call) M sm s = Inr (logits, st')"
        using c sm by auto
      have "plan_describes bl [chunk_request pages xs [y]] call"
        by (rule decode_plan_describes [OF bl g(2) refl fits(1)])
      moreover have "dg_num_blocks d = nb" using d(4) by (simp add: graph_wf_def)
      ultimately have "\<exists>logits call sm d s. rows = take 1 logits \<and> chunk_static pages xs y mi d sm \<and> dg_num_blocks d = nb \<and>
         plan_describes bl [chunk_request pages xs [y]] call \<and>
         cache_kept [int (length xs)] st s \<and> forward_compute ops fl (Some call) M sm s = Inr (logits, st')"
        using g(1,3,4) d(3) by blast
      moreover have "graph_wf nb dg'" using c by blast
      ultimately show ?thesis using t Some by (simp del: One_nat_def)
    qed
  qed
qed

end
