(* ===== verification/QwenLossless.thy ===== *)
theory QwenLossless
  imports QwenGraph
begin

text \<open>
  The Qwen runner meets the contract \<open>causal_runner\<close>, whichever attention backend is on and whichever buckets
  of its decode graph fail to capture, plan or replay; so speculative decoding over two Qwen models, each with
  its own backend, operators, decode graph and weight format, is lossless.
\<close>

section \<open>The runner\<close>

text \<open>The runner's state: with the FlashInfer backend its host state and, from two blocks on, the decode graph;
  the cache.\<close>

type_synonym qwen_state = "(fi_attention \<times> decode_graph option) option \<times> slot_data kv_storage"

definition qwen_try_graph ::
    "(slot_data kv_storage, real) graph_runtime \<Rightarrow> bool \<Rightarrow> model_input \<Rightarrow> qwen_state \<Rightarrow> (real list list option \<times> qwen_state) outcome" where
  "qwen_try_graph rt staged mi s =
     (case s of
        (Some (fi, Some dg), st) \<Rightarrow>
          obind (try_replay rt staged mi (dg, fi, st)) (\<lambda>(out, dg', fi', st'). Inr (out, (Some (fi', Some dg'), st')))
      | _ \<Rightarrow> Inr (None, s))"

definition qwen_run_forward ::
    "attention_ops \<Rightarrow> fused_lib \<Rightarrow> qwen_model \<Rightarrow> model_input \<Rightarrow> qwen_state \<Rightarrow> (real list list \<times> qwen_state) outcome" where
  "qwen_run_forward ops fl M mi s =
     obind (qwen_forward ops fl M mi (map_option fst (fst s), snd s)) (\<lambda>(logits, fi', st').
       Inr (logits, (case (fst s, fi') of (Some (_, dg), Some f) \<Rightarrow> Some (f, dg) | _ \<Rightarrow> None), st'))"

definition qwen_runner ::
    "attention_ops \<Rightarrow> fused_lib \<Rightarrow> qwen_model \<Rightarrow> (slot_data kv_storage, real) graph_runtime \<Rightarrow> bool \<Rightarrow> (qwen_state, real) runner" where
  "qwen_runner ops fl M rt staged =
     \<lparr> forward = qwen_run_forward ops fl M, try_decode_cuda_graph = Some (qwen_try_graph rt staged) \<rparr>"

section \<open>The runner is causal\<close>

definition scores_vocab :: "nat \<Rightarrow> qwen_model \<Rightarrow> bool" where
  "scores_vocab V M = (V > 0 \<and> length (qwen_lm_head M) = V \<and> V \<le> length (embed_tokens M))"

definition graphs_ok ::
    "attention_ops \<Rightarrow> fused_lib \<Rightarrow> qwen_model \<Rightarrow> (slot_data kv_storage, real) graph_runtime \<Rightarrow> nat
       \<Rightarrow> (fi_attention \<times> decode_graph option) option \<Rightarrow> bool" where
  "graphs_ok ops fl M rt nb b = (case b of Some (fi, Some dg) \<Rightarrow> graph_wf nb dg \<and> graph_rt_ok ops fl M rt | _ \<Rightarrow> True)"

text \<open>The runner's cache holds \<open>xs\<close> on the first \<open>pages\<close> blocks.\<close>

definition qwen_run_holds ::
    "attention_ops \<Rightarrow> fused_lib \<Rightarrow> qwen_model \<Rightarrow> (slot_data kv_storage, real) graph_runtime \<Rightarrow> row_layer list \<Rightarrow> nat \<Rightarrow> nat
       \<Rightarrow> nat \<Rightarrow> nat \<Rightarrow> nat \<Rightarrow> qwen_state \<Rightarrow> int list \<Rightarrow> bool" where
  "qwen_run_holds ops fl M rt rls hs V bl nb pages s xs =
     (model_realised ops fl bl M rls hs \<and> scores_vocab V M \<and> kv_shape (length (qwen_layers M)) bl nb (snd s) \<and> pages \<le> nb \<and>
      graphs_ok ops fl M rt nb (fst s) \<and> qwen_holds M rls hs bl (snd s) (map int [0..<pages]) xs (length xs))"

lemma chunk_plan_describes:
  assumes mi: "chunk_input bl pages xs ys mi" and bl: "bl > 0" and fits: "ceil_div (length xs + length ys) bl \<le> pages" and ys: "ys \<noteq> []"
  shows "\<exists>call fi'. fi_plan fi mi = Inr (call, fi') \<and> plan_describes bl [chunk_request pages xs ys] call"
proof -
  let ?c = "length xs + length ys"
  have c: "0 < ?c" using ys by simp
  have "0 < ceil_div ?c bl" using c bl by (simp add: ceil_div_pos_iff)
  then have "int (ceil_div ?c bl - 1) = int (ceil_div ?c bl) - 1" by (simp add: of_nat_diff)
  then have lp: "int ?c - (int (ceil_div ?c bl) - 1) * int bl = int (last_page_of bl ?c)"
    using last_page_bounds(3) [OF bl c] by (metis add_diff_cancel_left' of_nat_add of_nat_mult)
  have mask: "mi_packed_mask mi = None" by (rule chunk_input_describes(2) [OF mi fits])
  have csr: "mi_flashinfer_csr mi = Some (chunk_csr bl (length ys) ?c)" using mi by (simp add: chunk_input_def)
  have "take (ceil_div ?c bl) (map int [0..<pages]) = map int [0..<ceil_div ?c bl]"
    using fits by (simp add: take_map)
  then show ?thesis
    unfolding fi_plan_def csr chunk_csr_def lp by (simp add: mask Let_def plan_describes_def pages_of_def token_count_def)
qed

text \<open>One chunk under either call the wrapper may hold, from any cache that holds the tokens before it.\<close>

lemma compute_chunk:
  assumes real: "model_realised ops fl bl M rls hs" and vocab: "scores_vocab V M" "list_all (in_vocab V) (xs @ ys)"
    and kv: "kv_shape (length (qwen_layers M)) bl nb st" and pages: "pages \<le> nb" and ys: "ys \<noteq> []" and bl: "bl > 0"
    and held: "qwen_holds M rls hs bl st (map int [0..<pages]) xs (length xs)"
    and fits: "ceil_div (length xs + length ys) bl \<le> pages" and mi: "describes bl [chunk_request pages xs ys] mi"
    and call: "case call of None \<Rightarrow> mi_packed_mask mi = None | Some c \<Rightarrow> plan_describes bl [chunk_request pages xs ys] c"
  shows "\<exists>st'. forward_compute ops fl call M mi st = Inr (rows_after (qwen_logits M rls hs) xs ys, st') \<and>
    kv_shape (length (qwen_layers M)) bl nb st' \<and> qwen_holds M rls hs bl st' (map int [0..<pages]) (xs @ ys) (length (xs @ ys))"
proof -
  let ?r = "chunk_request pages xs ys"
  have ok: "batch_ok bl nb [?r] [xs @ ys]" by (rule chunk_batch_ok [OF bl fits pages])
  have toks: "\<forall>r < length [?r]. \<forall>t \<in> set ([xs @ ys] ! r). 0 \<le> t \<and> t < int (length (embed_tokens M))"
    using vocab by (auto simp: list_all_iff in_vocab_def scores_vocab_def intro: less_le_trans)
  have held': "\<forall>r < length [?r]. qwen_holds M rls hs bl st (block_table ([?r] ! r)) ([xs @ ys] ! r) (start_position ([?r] ! r))"
    using held qwen_stack.stack_holds_prefix [of M rls hs bl st _ xs "length xs" "xs @ ys"] by (simp add: qwen_holds_stack)
  have owed: "qwen_owed M rls hs [?r] [xs @ ys] = rows_after (qwen_logits M rls hs) xs ys"
    by (rule nth_equalityI) (simp_all add: qwen_owed_def fed_def rows_after_def)
  have "Suc 0 \<le> length xs + length ys" using ys by (cases ys) simp_all
  then have "qwen_plain call bl [?r] mi" using call ys by (auto simp: qwen_plain_def split: option.splits)
  from forward_compute_ok [OF ok mi kv this real toks held'] show ?thesis by (auto simp: owed)
qed

lemma qwen_forward_chunk:
  assumes h: "qwen_run_holds ops fl M rt rls hs V bl nb pages s xs" and toks: "list_all (in_vocab V) (xs @ ys)" and ys: "ys \<noteq> []"
    and bl: "bl > 0" and fits: "ceil_div (length xs + length ys) bl \<le> pages" and mi: "chunk_input bl pages xs ys mi"
  shows "\<exists>s'. qwen_run_forward ops fl M mi s = Inr (rows_after (qwen_logits M rls hs) xs ys, s') \<and>
    qwen_run_holds ops fl M rt rls hs V bl nb pages s' (xs @ ys)"
proof -
  obtain b st where s: "s = (b, st)" by (cases s)
  have k: "model_realised ops fl bl M rls hs" "scores_vocab V M" "kv_shape (length (qwen_layers M)) bl nb st" "pages \<le> nb"
    "qwen_holds M rls hs bl st (map int [0..<pages]) xs (length xs)" and g: "graphs_ok ops fl M rt nb b"
    using h by (simp_all add: qwen_run_holds_def s)
  note d = chunk_input_describes [OF mi fits]
  note compute = compute_chunk [OF k(1,2) toks k(3,4) ys bl k(5) fits d(1)]
  show ?thesis
  proof (cases b)
    case None
    from compute [of None] d(2) None k show ?thesis
      by (auto simp: qwen_run_forward_def qwen_forward_def s qwen_run_holds_def graphs_ok_def)
  next
    case (Some fg)
    obtain fi dg where fg: "fg = (fi, dg)" by (cases fg)
    obtain call f' where f: "fi_plan fi mi = Inr (call, f')" "plan_describes bl [chunk_request pages xs ys] call"
      using chunk_plan_describes [OF mi bl fits ys] by blast
    have "graphs_ok ops fl M rt nb (Some (f', dg))" using g by (simp add: graphs_ok_def Some fg)
    with compute [of "Some call"] f k show ?thesis
      by (auto simp: qwen_run_forward_def qwen_forward_def s Some fg qwen_run_holds_def)
  qed
qed

lemma kept_holds:
  assumes "qwen_holds M rls hs bl st (map int [0..<pages]) xs (length xs)" "cache_kept [int (length xs)] st st'"
    and bl: "bl > 0" and fits: "ceil_div (length xs + 1) bl \<le> pages"
  shows "qwen_holds M rls hs bl st' (map int [0..<pages]) xs (length xs)"
proof -
  have slots: "batch_slots bl [chunk_request pages xs [y]] = [int (length xs)]" for y
    using plan_input_chunk [OF bl, of xs "[y]" pages] fits by (simp add: plan_input_def chunk_plan_def Let_def batch_slots_def)
  have "slot_at (map int [0..<pages]) bl p = int p" if "p < length xs" for p
    using that slot_at_identity [OF bl] div_less_ceil_div [OF bl, of p "length xs + 1"] fits by simp
  moreover have "untouched bl [chunk_request pages xs [0]] st st'"
    using assms(2) by (simp add: untouched_def slots cache_kept_def)
  ultimately show ?thesis
    using qwen_stack.stack_holds_untouched [of M rls hs bl st _ xs "length xs" "[chunk_request pages xs [0]]" st'] assms(1)
    by (simp add: qwen_holds_stack slots)
qed

lemma qwen_graph_chunk:
  assumes h: "qwen_run_holds ops fl M rt rls hs V bl nb pages s xs" and toks: "list_all (in_vocab V) (xs @ [y])"
    and bl: "bl > 0" and fits: "ceil_div (length xs + 1) bl \<le> pages" and mi: "chunk_input bl pages xs [y] mi"
  shows "\<exists>out s'. qwen_try_graph rt staged mi s = Inr (out, s') \<and>
    (case out of None \<Rightarrow> qwen_run_holds ops fl M rt rls hs V bl nb pages s' xs
     | Some rows \<Rightarrow> rows = rows_after (qwen_logits M rls hs) xs [y] \<and> qwen_run_holds ops fl M rt rls hs V bl nb pages s' (xs @ [y]))"
proof (cases "\<exists>fi dg. fst s = Some (fi, Some dg)")
  case False
  then have "qwen_try_graph rt staged mi s = Inr (None, s)"
    by (auto simp: qwen_try_graph_def split: prod.splits option.splits)
  with h show ?thesis by auto
next
  case True
  then obtain fi dg st where s: "s = (Some (fi, Some dg), st)" by (cases s) auto
  have k: "model_realised ops fl bl M rls hs" "scores_vocab V M" "kv_shape (length (qwen_layers M)) bl nb st" "pages \<le> nb"
    "qwen_holds M rls hs bl st (map int [0..<pages]) xs (length xs)" and g: "graph_wf nb dg" "graph_rt_ok ops fl M rt"
    using h by (simp_all add: qwen_run_holds_def s graphs_ok_def)
  obtain out dg' fi' st' where t: "try_replay rt staged mi (dg, fi, st) = Inr (out, dg', fi', st')" "graph_wf nb dg'"
    "case out of
       None \<Rightarrow> cache_kept [int (length xs)] st st'
     | Some rows \<Rightarrow> (\<exists>logits call sm d s. rows = take 1 logits \<and> chunk_static pages xs y mi d sm \<and> dg_num_blocks d = nb \<and>
         plan_describes bl [chunk_request pages xs [y]] call \<and>
         cache_kept [int (length xs)] st s \<and> forward_compute ops fl (Some call) M sm s = Inr (logits, st'))"
    using try_replay_chunk [OF g(2) mi bl fits k(4) g(1)] by blast
  have q: "qwen_try_graph rt staged mi s = Inr (out, (Some (fi', Some dg'), st'))"
    using t(1) by (simp add: qwen_try_graph_def s)
  have gs: "graphs_ok ops fl M rt nb (Some (fi', Some dg'))" using t(2) g(2) by (simp add: graphs_ok_def)
  show ?thesis
  proof (cases out)
    case None
    then have "cache_kept [int (length xs)] st st'" using t(3) by simp
    with q None k gs cache_kept_shape [OF _ k(3)] kept_holds [OF k(5) _ bl fits] show ?thesis
      by (auto simp: qwen_run_holds_def)
  next
    case (Some rows)
    then obtain logits call sm d c where r: "rows = take 1 logits" "chunk_static pages xs y mi d sm" "dg_num_blocks d = nb"
      "plan_describes bl [chunk_request pages xs [y]] call"
      "cache_kept [int (length xs)] st c" "forward_compute ops fl (Some call) M sm c = Inr (logits, st')"
      using t(3) by auto
    let ?sm = "sm\<lparr> mi_query_start_loc_host := [0, 1], mi_context_lens_host := [length xs + 1] \<rparr>"
    have sm: "describes bl [chunk_request pages xs [y]] ?sm"
      using chunk_static_describes [OF r(2) mi bl fits] k(4) r(3) by simp
    obtain st'' where st'': "forward_compute ops fl (Some call) M ?sm c = Inr (rows_after (qwen_logits M rls hs) xs [y], st'')"
      "kv_shape (length (qwen_layers M)) bl nb st''" "qwen_holds M rls hs bl st'' (map int [0..<pages]) (xs @ [y]) (length (xs @ [y]))"
      using compute_chunk [OF k(1,2) toks cache_kept_shape [OF r(5) k(3)] k(4) _ bl kept_holds [OF k(5) r(5) bl fits] _ sm, of "Some call"]
        fits r(4) by auto
    then have "logits = rows_after (qwen_logits M rls hs) xs [y]" "st'' = st'" using r(6) by (simp_all add: forward_compute_host)
    moreover have "take 1 (rows_after (qwen_logits M rls hs) xs [y]) = rows_after (qwen_logits M rls hs) xs [y]"
      by (simp add: rows_after_def)
    ultimately show ?thesis using q Some r(1) k gs st''(2,3) by (auto simp: qwen_run_holds_def)
  qed
qed

interpretation qwen_run: causal_runner "qwen_runner ops fl M rt staged" "qwen_logits M rls hs" "in_vocab V"
    "qwen_run_holds ops fl M rt rls hs V bl nb pages" bl pages
  for ops fl M rt staged rls hs V bl nb pages
proof unfold_locales
  fix c xs ys assume "qwen_run_holds ops fl M rt rls hs V bl nb pages c (xs @ ys)"
  then show "qwen_run_holds ops fl M rt rls hs V bl nb pages c xs"
    using qwen_stack.stack_holds_take [of M rls hs bl "snd c" _ "xs @ ys" "length (xs @ ys)" "length xs"]
    by (simp add: qwen_run_holds_def qwen_holds_stack)
next
  fix c xs zs assume "qwen_run_holds ops fl M rt rls hs V bl nb pages c xs"
  then have "qwen_logits M rls hs zs \<noteq> []" "length (qwen_logits M rls hs zs) = V"
    by (auto simp: qwen_run_holds_def scores_vocab_def qwen_logits_def qwen_logit_row_def)
  then show "qwen_logits M rls hs zs \<noteq> [] \<and> in_vocab V (int (argmax (qwen_logits M rls hs zs)))"
    using argmax_less [of "qwen_logits M rls hs zs"] by (simp add: in_vocab_def)
next
  fix c xs ys mi
  assume "qwen_run_holds ops fl M rt rls hs V bl nb pages c xs" "list_all (in_vocab V) (xs @ ys)" "ys \<noteq> []" "bl > 0"
    "ceil_div (length xs + length ys) bl \<le> pages" "chunk_input bl pages xs ys mi"
  then show "\<exists>c'. forward (qwen_runner ops fl M rt staged) mi c = Inr (rows_after (qwen_logits M rls hs) xs ys, c') \<and>
      qwen_run_holds ops fl M rt rls hs V bl nb pages c' (xs @ ys)"
    unfolding qwen_runner_def runner.select_convs by (rule qwen_forward_chunk)
next
  fix tr c xs y mi
  assume "try_decode_cuda_graph (qwen_runner ops fl M rt staged) = Some tr"
  then have tr: "tr = qwen_try_graph rt staged" by (simp add: qwen_runner_def)
  assume "qwen_run_holds ops fl M rt rls hs V bl nb pages c xs" "list_all (in_vocab V) (xs @ [y])" "bl > 0"
    "ceil_div (length xs + 1) bl \<le> pages" "chunk_input bl pages xs [y] mi"
  then show "\<exists>out c'. tr mi c = Inr (out, c') \<and>
      (case out of None \<Rightarrow> qwen_run_holds ops fl M rt rls hs V bl nb pages c' xs
       | Some rows \<Rightarrow> rows = rows_after (qwen_logits M rls hs) xs [y] \<and> qwen_run_holds ops fl M rt rls hs V bl nb pages c' (xs @ [y]))"
    unfolding tr by (rule qwen_graph_chunk)
qed

interpretation qwen_pair: chain_pair "qwen_runner ops fl M rt staged" "qwen_logits M rls hs" "in_vocab V"
    "qwen_run_holds ops fl M rt rls hs V bl nb nb" bl nb
    "qwen_runner ops' fl' D rt' staged'" "qwen_logits D rls' hs'" "qwen_run_holds ops' fl' D rt' rls' hs' V bl nb (nb - 1)" "nb - 1" k
  for ops fl M rt staged rls hs V bl nb ops' fl' D rt' staged' rls' hs' k
  by unfold_locales simp

section \<open>Theorems\<close>

text \<open>A runner over a loaded checkpoint, at the start of a generation.\<close>

definition qwen_ready ::
    "attention_ops \<Rightarrow> fused_lib \<Rightarrow> (slot_data kv_storage, real) graph_runtime \<Rightarrow> bool \<Rightarrow> nat \<Rightarrow> nat \<Rightarrow> nat \<Rightarrow> nat
       \<Rightarrow> qwen_model \<Rightarrow> qwen_model \<Rightarrow> qwen_state \<Rightarrow> bool" where
  "qwen_ready ops fl rt w4a16 hs V bl nb M0 M s =
     (finish_load w4a16 M0 = Inr M \<and> checkpoint_ok hs M0 \<and> (\<exists>theta. operators_ok ops fl theta w4a16 bl M0) \<and>
      scores_vocab V M \<and> kv_shape (length (qwen_layers M)) bl nb (snd s) \<and> graphs_ok ops fl M rt nb (fst s))"

lemma qwen_ready_holds:
  assumes "qwen_ready ops fl rt w4a16 hs V bl nb M0 M s" "pages \<le> nb"
  shows "qwen_run_holds ops fl M rt (map (dense_rows w4a16) (qwen_layers M0)) hs V bl nb pages s []"
  using assms loaded_model_realised by (auto simp: qwen_ready_def qwen_run_holds_def qwen_holds_def slots_hold_def)

text \<open>C1: Speculation over two Qwen models is lossless. Target and draft are loaded checkpoints over one
  vocabulary, each with its own attention backend, fused operators, decode graph and weight format (the target
  may serve W4A16, the draft not), each with a paged cache in whatever state. Greedy \<open>generate\<close> on a fresh
  engine always returns, and returns the target's own greedy text, computed row by row from the checkpoint
  without cache, packing, graph or draft, also when captures, plans or replays of the draft's graph fail.\<close>

theorem qwen_speculation_lossless:
  assumes "engine_init (qwen_runner ops fl T rt staged) ct (qwen_runner ops' fl' D rt' staged') cd bl nb (int k) = Inr e" "k \<ge> 1" "bl > 0"
    and "qwen_ready ops fl rt w4a16 hs V bl nb T0 T ct" "qwen_ready ops' fl' rt' w4a16' hs' V bl nb D0 D cd"
    and "prompt \<noteq> []" "list_all (in_vocab V) prompt"
    and "1 \<le> max_new" "int (length prompt) + max_new + int k \<le> int ((nb - 1) * bl) + 1"
  shows "\<exists>e'. generate junk sm True prompt max_new eos e g
    = Some (Inr (stop_after eos (greedy_seq (qwen_logits T (map (dense_rows w4a16) (qwen_layers T0)) hs) prompt (nat max_new)), e', g))"
  by (rule qwen_pair.chain_lossless [OF assms(1) refl qwen_ready_holds [OF assms(4) order_refl] qwen_ready_holds [OF assms(5) diff_le_self]
      assms(3,2,7,6,8,9)])

text \<open>The draft decodes through its graph; the target has no graph.\<close>

definition small_runtime :: "(slot_data kv_storage, real) graph_runtime" where
  "small_runtime = \<lparr> rt_capture = (\<lambda>bucket mi c. (Inr (), c)),
     rt_replay = (\<lambda>bucket mi call c. case forward_compute small_ops cpu_lib (Some call) small_loaded mi c of
       Inl err \<Rightarrow> (Inl err, c) | Inr (logits, c') \<Rightarrow> (Inr logits, c')) \<rparr>"

definition small_room :: "slot_data kv_storage" where
  "small_room = \<lparr> geometry = \<lparr> num_layers = 1, num_blocks = 8, geo_block_len = 1, num_kv_heads = 1, geo_head_dim = 2 \<rparr>,
     st_kv_dtype = Float32, k_scale = 1, v_scale = 1, K_cache = [replicate 8 []], V_cache = [replicate 8 []], use_custom_ops = False \<rparr>"

abbreviation small_runner :: "(qwen_state, real) runner" where
  "small_runner \<equiv> qwen_runner small_ops cpu_lib small_loaded small_runtime True"

theorem qwen_speculation_lossless_witness:
  "\<exists>e e'. engine_init small_runner (None, small_room) small_runner (Some (small_fi, Some (dg_init 1 8 7)), small_room) 1 8 2 = Inr e \<and>
     generate 0 (torch_sampling (\<lambda>b n g. ([], g)) (\<lambda>ps g. ([], g))) True [0, 1] 3 (Some 1) e ()
       = Some (Inr (stop_after (Some 1) (greedy_seq (qwen_logits small_loaded (map (dense_rows False) (qwen_layers small_model)) 2) [0, 1] 3), e', ()))"
proof -
  note L = finish_load_layers [OF small_load]
  have V: "scores_vocab 2 small_loaded" by (simp add: scores_vocab_def L(2,5)) (simp add: small_model_def)
  have kv: "kv_shape (length (qwen_layers small_loaded)) 1 8 small_room"
    by (simp add: L(1)) (simp add: small_model_def kv_shape_def small_room_def float_dtypes_def)
  have rt: "graph_rt_ok small_ops cpu_lib small_loaded small_runtime"
    by (auto simp: graph_rt_ok_def small_runtime_def split: sum.splits)
  have ready: "qwen_ready small_ops cpu_lib small_runtime False 2 2 1 8 small_model small_loaded (b, small_room)"
    if "b = None \<or> b = Some (small_fi, Some (dg_init 1 8 7))" for b
    using that small_load small_checkpoint small_operators V kv rt graph_wf_init by (auto simp: qwen_ready_def graphs_ok_def)
  obtain e where e: "engine_init small_runner (None, small_room) small_runner (Some (small_fi, Some (dg_init 1 8 7)), small_room) 1 8 (int 2) = Inr e"
    by (simp add: engine_init_def)
  have "\<exists>e'. generate 0 (torch_sampling (\<lambda>b n g. ([], g)) (\<lambda>ps g. ([], g))) True [0, 1] 3 (Some 1) e ()
       = Some (Inr (stop_after (Some 1) (greedy_seq (qwen_logits small_loaded (map (dense_rows False) (qwen_layers small_model)) 2) [0, 1] (nat 3)), e', ()))"
    by (rule qwen_speculation_lossless [OF e _ _ ready ready]) (simp_all add: in_vocab_def)
  with e show ?thesis by simp
qed

end
