(* ===== verification/Control.thy ===== *)
theory Control
  imports Plan
begin

text \<open>
  The vocabulary of the control plane (\<open>crates/einf-control/src\<close>): its errors, operations on mutable
  state that may fail half-way, transactions with rollback (\<open>rollback.rs\<close>), sampling parameters
  (\<open>sample.rs\<close>), the life of a request (\<open>request.rs\<close>) and the scheduling policies (\<open>policy.rs\<close>).
\<close>

section \<open>Errors and state\<close>

datatype request_state = Waiting | Running | Finished | Cancelled | Failed

text \<open>The errors of \<open>error.rs\<close>, and \<open>Panic\<close> for a failed \<open>assert\<close>, \<open>unwrap\<close>, \<open>expect\<close>, index or subtraction.\<close>

datatype control_error =
    InvalidConfig string
  | DuplicateRequest string
  | UnknownRequest string
  | UnknownBlock nat
  | InvalidState string string request_state
  | RequestInvariant string string
  | InsufficientBlocks nat nat
  | BlockNotInUse nat
  | BlockAlreadyInUse nat
  | ArithmeticOverflow
  | NoOutstandingBatch
  | StaleBatch nat nat
  | UnsealedBlock nat
  | InvalidSeal nat
  | InvalidExecutionResult string
  | RequestInFlight string
  | InvalidReusePlan string
  | Panic

text \<open>A method with \<open>&mut self\<close> and a \<open>Result\<close>: what it returns and the state it leaves, also on an error.\<close>

type_synonym ('s, 'a) ctl = "'s \<Rightarrow> (control_error + 'a) \<times> 's"

definition cret :: "'a \<Rightarrow> ('s, 'a) ctl" where
  "cret x s = (Inr x, s)"

definition cerr :: "control_error \<Rightarrow> ('s, 'a) ctl" where
  "cerr e s = (Inl e, s)"

definition cbind :: "('s, 'a) ctl \<Rightarrow> ('a \<Rightarrow> ('s, 'b) ctl) \<Rightarrow> ('s, 'b) ctl" where
  "cbind m f s = (case m s of (Inl e, s') \<Rightarrow> (Inl e, s') | (Inr x, s') \<Rightarrow> f x s')"

primrec cfold :: "('x \<Rightarrow> ('s, unit) ctl) \<Rightarrow> 'x list \<Rightarrow> ('s, unit) ctl" where
  "cfold f [] = cret ()"
| "cfold f (x # xs) = cbind (f x) (\<lambda>_. cfold f xs)"

lemma ctl_simps [simp]:
  "cret x s = (Inr x, s)" "cerr e s = (Inl e, s)"
  by (simp_all add: cret_def cerr_def)

lemma cbind_Inr: "m s = (Inr x, s') \<Longrightarrow> cbind m f s = f x s'"
  by (simp add: cbind_def)

lemma cbind_Inl: "m s = (Inl e, s') \<Longrightarrow> cbind m f s = (Inl e, s')"
  by (simp add: cbind_def)

lemma cbind_cret [simp]: "cbind (cret x) f = f x"
  by (rule ext) (simp add: cbind_def)

text \<open>\<open>usize\<close> and \<open>u64\<close> are 64 bits wide.\<close>

definition word_limit :: nat where
  "word_limit = 2 ^ 64"

definition checked_add :: "nat \<Rightarrow> nat \<Rightarrow> control_error + nat" where
  "checked_add a b = (if a + b < word_limit then Inr (a + b) else Inl ArithmeticOverflow)"

definition csum :: "control_error + 'a \<Rightarrow> ('s, 'a) ctl" where
  "csum r s = (r, s)"

lemma checked_add_ok: "a + b < word_limit \<Longrightarrow> checked_add a b = Inr (a + b)"
  by (simp add: checked_add_def)

section \<open>Rollback\<close>

text \<open>\<open>RollbackScope::run\<close>: the body carries the undo actions it has deferred, last first.\<close>

definition rollback_run :: "('s \<times> ('s \<Rightarrow> 's) list, 'a) ctl \<Rightarrow> ('s, 'a) ctl" where
  "rollback_run f s =
     (case f (s, []) of
        (Inr x, s', undos) \<Rightarrow> (Inr x, s')
      | (Inl e, s', undos) \<Rightarrow> (Inl e, fold (\<lambda>u. u) undos s'))"

definition rollback_defer :: "('s \<Rightarrow> 's) \<Rightarrow> ('s \<times> ('s \<Rightarrow> 's) list, unit) ctl" where
  "rollback_defer u su = (Inr (), fst su, u # snd su)"

text \<open>An operation on the state inside the scope.\<close>

definition scoped :: "('s, 'a) ctl \<Rightarrow> ('s \<times> ('s \<Rightarrow> 's) list, 'a) ctl" where
  "scoped m su = (case m (fst su) of (r, s') \<Rightarrow> (r, s', snd su))"

section \<open>Sampling parameters\<close>

text \<open>\<open>SamplingParams::new\<close>. The temperature zero stands for \<open>SamplingMode::Greedy\<close>; reals are finite.\<close>

definition sampling_params_new ::
    "real \<Rightarrow> nat option \<Rightarrow> real \<Rightarrow> real \<Rightarrow> nat \<Rightarrow> int list \<Rightarrow> nat \<Rightarrow> control_error + sampling_params" where
  "sampling_params_new temp k p mp sd stops logprobs =
     (if temp < 0 then Inl (InvalidConfig ''temperature must be finite and non-negative'')
      else if k = Some 0 then Inl (InvalidConfig ''top_k must be positive when specified'')
      else if \<not> (0 < p \<and> p \<le> 1) then Inl (InvalidConfig ''top_p must be finite and in (0, 1]'')
      else if \<not> (0 \<le> mp \<and> mp \<le> 1) then Inl (InvalidConfig ''min_p must be finite and in [0, 1]'')
      else if 2 ^ 63 \<le> sd then Inl (InvalidConfig ''seed must not exceed i64::MAX'')
      else if temp = 0 \<and> (k \<noteq> None \<or> p \<noteq> 1 \<or> mp \<noteq> 0)
      then Inl (InvalidConfig ''top_k, top_p, and min_p require positive temperature'')
      else Inr \<lparr> temperature = temp, top_k = k, top_p = p, min_p = mp, seed = int sd, stop_token_ids = stops,
                 num_logprobs = logprobs \<rparr>)"

definition sampling_params_greedy :: "int list \<Rightarrow> nat \<Rightarrow> sampling_params" where
  "sampling_params_greedy stops logprobs =
     \<lparr> temperature = 0, top_k = None, top_p = 1, min_p = 0, seed = 0, stop_token_ids = stops, num_logprobs = logprobs \<rparr>"

definition is_greedy :: "sampling_params \<Rightarrow> bool" where
  "is_greedy params = (temperature params = 0)"

section \<open>Requests\<close>

definition is_terminal :: "request_state \<Rightarrow> bool" where
  "is_terminal st = (st \<in> {Finished, Cancelled, Failed})"

datatype completion_reason = Eos | Length

record request_spec =
  spec_id :: string
  spec_prompt :: "int list"
  spec_max_new_len :: nat
  spec_sampling_params :: sampling_params

record request =
  rq_id :: string
  prompt_token_ids :: "int list"
  arrival_index :: nat
  max_new_len :: nat
  rq_params :: sampling_params
  rq_sample_index :: nat
  rq_generated :: "int list"
  rq_state :: request_state
  cached_len :: nat
  completion :: "completion_reason option"
  rq_error :: "string option"

definition context_token_ids :: "request \<Rightarrow> int list" where
  "context_token_ids r = prompt_token_ids r @ rq_generated r"

definition work_is_decode :: "request \<Rightarrow> bool" where
  "work_is_decode r = (length (prompt_token_ids r) \<le> cached_len r)"

definition pending_len :: "request \<Rightarrow> nat" where
  "pending_len r =
     (if length (prompt_token_ids r) \<le> cached_len r then 1 else length (prompt_token_ids r) - cached_len r)"

definition rq_invariant :: "request \<Rightarrow> string \<Rightarrow> control_error" where
  "rq_invariant r message = RequestInvariant (rq_id r) message"

definition assert_state :: "request_state \<Rightarrow> (request, unit) ctl" where
  "assert_state expected r =
     (if rq_state r = expected then cret () r
      else cerr (InvalidState (rq_id r)
        (case expected of Waiting \<Rightarrow> ''Waiting'' | Running \<Rightarrow> ''Running'' | _ \<Rightarrow> ''requested state'') (rq_state r)) r)"

definition assert_invariants :: "(request, unit) ctl" where
  "assert_invariants r =
     (if max_new_len r < length (rq_generated r) then cerr (rq_invariant r ''generated token count exceeds max_new_len'') r
      else if rq_sample_index r \<noteq> length (rq_generated r)
      then cerr (rq_invariant r ''sample index does not match generated token count'') r
      else case rq_state r of
        Finished \<Rightarrow> if completion r = None \<or> rq_error r \<noteq> None
                     then cerr (rq_invariant r ''finished request has invalid terminal metadata'') r else cret () r
      | Failed \<Rightarrow> if completion r \<noteq> None \<or> rq_error r = None
                   then cerr (rq_invariant r ''failed request has invalid terminal metadata'') r else cret () r
      | Cancelled \<Rightarrow> if completion r \<noteq> None \<or> rq_error r \<noteq> None
                      then cerr (rq_invariant r ''cancelled request has terminal metadata'') r else cret () r
      | _ \<Rightarrow> if completion r \<noteq> None \<or> rq_error r \<noteq> None
             then cerr (rq_invariant r ''active request has terminal metadata'') r else cret () r)"

definition request_create :: "request_spec \<Rightarrow> nat \<Rightarrow> control_error + request" where
  "request_create spec arrival =
     (if spec_prompt spec = [] then Inl (InvalidConfig ''prompt must contain at least one token'')
      else if spec_max_new_len spec = 0 then Inl (InvalidConfig ''max_new_len must be positive'')
      else let r = \<lparr> rq_id = spec_id spec, prompt_token_ids = spec_prompt spec, arrival_index = arrival,
                 max_new_len = spec_max_new_len spec, rq_params = spec_sampling_params spec, rq_sample_index = 0,
                 rq_generated = [], rq_state = Waiting, cached_len = 0, completion = None, rq_error = None \<rparr>
           in case assert_invariants r of (Inl e, _) \<Rightarrow> Inl e | (Inr _, r') \<Rightarrow> Inr r')"

definition admit :: "(request, unit) ctl" where
  "admit = cbind assert_invariants (\<lambda>_. cbind (assert_state Waiting) (\<lambda>_ r. assert_invariants (r\<lparr> rq_state := Running \<rparr>)))"

text \<open>\<open>reuse\<close> asserts that a prompt token is left to run.\<close>

definition reuse :: "nat \<Rightarrow> (request, unit) ctl" where
  "reuse reused_len = cbind assert_invariants (\<lambda>_. cbind (assert_state Running) (\<lambda>_ r.
     let r' = r\<lparr> cached_len := cached_len r + reused_len \<rparr>
     in if cached_len r' < length (prompt_token_ids r') then assert_invariants r' else cerr Panic r'))"

definition preempt :: "(request, unit) ctl" where
  "preempt = cbind assert_invariants (\<lambda>_. cbind (assert_state Running) (\<lambda>_ r.
     assert_invariants (r\<lparr> rq_state := Waiting, cached_len := 0 \<rparr>)))"

definition advance :: "int list \<Rightarrow> nat \<Rightarrow> completion_reason option \<Rightarrow> (request, unit) ctl" where
  "advance tokens delta reason = cbind assert_invariants (\<lambda>_. cbind (assert_state Running) (\<lambda>_ r.
     case checked_add (length (rq_generated r)) (length tokens) of
       Inl e \<Rightarrow> cerr e r
     | Inr generated_len \<Rightarrow>
         (if max_new_len r < generated_len then cerr (rq_invariant r ''advance exceeds max_new_len'') r
          else case checked_add (rq_sample_index r) (length tokens) of
            Inl e \<Rightarrow> cerr e r
          | Inr index \<Rightarrow>
              (case checked_add (cached_len r) delta of
                 Inl e \<Rightarrow> cerr e r
               | Inr cached \<Rightarrow>
                   (let r1 = (case reason of None \<Rightarrow> r | Some c \<Rightarrow> r\<lparr> rq_state := Finished, completion := Some c \<rparr>)
                    in assert_invariants (r1\<lparr> rq_generated := rq_generated r1 @ tokens, rq_sample_index := index, cached_len := cached \<rparr>))))))"

definition rollback_advance ::
    "nat \<Rightarrow> nat \<Rightarrow> nat \<Rightarrow> request_state \<Rightarrow> completion_reason option \<Rightarrow> request \<Rightarrow> request" where
  "rollback_advance generated_extra index cached st reason r =
     r\<lparr> rq_generated := take (length (rq_generated r) - generated_extra) (rq_generated r), rq_sample_index := index,
        cached_len := cached, rq_state := st, completion := reason \<rparr>"

definition rollback_fail :: "request \<Rightarrow> request" where
  "rollback_fail r = r\<lparr> rq_state := Running, rq_error := None \<rparr>"

definition rq_fail :: "string \<Rightarrow> (request, unit) ctl" where
  "rq_fail message = cbind assert_invariants (\<lambda>_. cbind (assert_state Running) (\<lambda>_ r.
     assert_invariants (r\<lparr> rq_state := Failed, rq_error := Some message \<rparr>)))"

definition rq_cancel :: "(request, unit) ctl" where
  "rq_cancel = cbind assert_invariants (\<lambda>_ r.
     if rq_state r \<in> {Waiting, Running} then assert_invariants (r\<lparr> rq_state := Cancelled \<rparr>)
     else if rq_state r = Cancelled then cret () r
     else cerr (InvalidState (rq_id r) ''Waiting or Running'' (rq_state r)) r)"

section \<open>Policies\<close>

datatype ordering = Less | Equal | Greater

definition then_cmp :: "ordering \<Rightarrow> ordering \<Rightarrow> ordering" where
  "then_cmp x y = (if x = Equal then y else x)"

definition nat_cmp :: "nat \<Rightarrow> nat \<Rightarrow> ordering" where
  "nat_cmp a b = (if a < b then Less else if a = b then Equal else Greater)"

fun string_cmp :: "string \<Rightarrow> string \<Rightarrow> ordering" where
  "string_cmp [] [] = Equal"
| "string_cmp [] (b # bs) = Less"
| "string_cmp (a # as) [] = Greater"
| "string_cmp (a # as) (b # bs) = then_cmp (nat_cmp (of_char a) (of_char b)) (string_cmp as bs)"

record policy_request =
  pol_id :: string
  pol_arrival :: nat
  pol_state :: request_state
  pol_work :: work_type

type_synonym policy = "policy_request \<Rightarrow> policy_request \<Rightarrow> ordering"

definition fcfs :: policy where
  "fcfs l r = then_cmp (nat_cmp (pol_arrival l) (pol_arrival r)) (string_cmp (pol_id l) (pol_id r))"

definition decode_rank :: "work_type \<Rightarrow> nat" where
  "decode_rank kind = (if kind = Decode then 0 else 1)"

definition decode_first :: policy where
  "decode_first l r = then_cmp (nat_cmp (decode_rank (pol_work l)) (decode_rank (pol_work r))) (fcfs l r)"

text \<open>\<open>sort_by\<close> is stable.\<close>

primrec insert_by :: "('a \<Rightarrow> 'a \<Rightarrow> ordering) \<Rightarrow> 'a \<Rightarrow> 'a list \<Rightarrow> 'a list" where
  "insert_by cmp x [] = [x]"
| "insert_by cmp x (y # ys) = (if cmp x y = Greater then y # insert_by cmp x ys else x # y # ys)"

definition sort_by :: "('a \<Rightarrow> 'a \<Rightarrow> ordering) \<Rightarrow> 'a list \<Rightarrow> 'a list" where
  "sort_by cmp xs = foldr (insert_by cmp) xs []"

section \<open>Facts\<close>

subsection \<open>Requests\<close>

definition rq_valid :: "request \<Rightarrow> bool" where
  "rq_valid r =
     (prompt_token_ids r \<noteq> [] \<and> 0 < max_new_len r \<and> length (rq_generated r) \<le> max_new_len r \<and>
      rq_sample_index r = length (rq_generated r) \<and>
      (completion r \<noteq> None \<longleftrightarrow> rq_state r = Finished) \<and> (rq_error r \<noteq> None \<longleftrightarrow> rq_state r = Failed))"

named_theorems request_simps

lemma assert_invariants_ok [request_simps]: "rq_valid r \<Longrightarrow> assert_invariants r = (Inr (), r)"
  by (auto simp: rq_valid_def assert_invariants_def split: request_state.splits)

lemma assert_state_ok [request_simps]: "rq_state r = st \<Longrightarrow> assert_state st r = (Inr (), r)"
  by (simp add: assert_state_def)

lemma context_nonempty [simp]: "rq_valid r \<Longrightarrow> context_token_ids r \<noteq> []"
  by (simp add: rq_valid_def context_token_ids_def)

lemma create_ok:
  assumes "spec_prompt spec \<noteq> []" "spec_max_new_len spec \<noteq> 0"
  shows "\<exists>r. request_create spec a = Inr r \<and> rq_valid r \<and> rq_id r = spec_id spec \<and> prompt_token_ids r = spec_prompt spec \<and>
    max_new_len r = spec_max_new_len spec \<and> rq_params r = spec_sampling_params spec \<and> arrival_index r = a \<and> rq_state r = Waiting \<and>
    rq_generated r = [] \<and> cached_len r = 0"
  using assms by (simp add: request_create_def Let_def assert_invariants_def rq_valid_def)

lemma admit_ok:
  assumes "rq_valid r" "rq_state r = Waiting"
  shows "admit r = (Inr (), r\<lparr> rq_state := Running \<rparr>)" "rq_valid (r\<lparr> rq_state := Running \<rparr>)"
proof -
  show "rq_valid (r\<lparr> rq_state := Running \<rparr>)" using assms by (simp add: rq_valid_def)
  then show "admit r = (Inr (), r\<lparr> rq_state := Running \<rparr>)" using assms by (simp add: admit_def cbind_def request_simps)
qed

lemma reuse_ok:
  assumes "rq_valid r" "rq_state r = Running" "cached_len r + n < length (prompt_token_ids r)"
  shows "reuse n r = (Inr (), r\<lparr> cached_len := cached_len r + n \<rparr>)" "rq_valid (r\<lparr> cached_len := cached_len r + n \<rparr>)"
proof -
  show "rq_valid (r\<lparr> cached_len := cached_len r + n \<rparr>)" using assms by (simp add: rq_valid_def)
  then show "reuse n r = (Inr (), r\<lparr> cached_len := cached_len r + n \<rparr>)"
    using assms by (simp add: reuse_def cbind_def request_simps Let_def)
qed

lemma preempt_ok:
  assumes "rq_valid r" "rq_state r = Running"
  shows "preempt r = (Inr (), r\<lparr> rq_state := Waiting, cached_len := 0 \<rparr>)" "rq_valid (r\<lparr> rq_state := Waiting, cached_len := 0 \<rparr>)"
proof -
  show "rq_valid (r\<lparr> rq_state := Waiting, cached_len := 0 \<rparr>)" using assms by (simp add: rq_valid_def)
  then show "preempt r = (Inr (), r\<lparr> rq_state := Waiting, cached_len := 0 \<rparr>)"
    using assms by (simp add: preempt_def cbind_def request_simps)
qed

lemma fail_ok:
  assumes "rq_valid r" "rq_state r = Running"
  shows "rq_fail msg r = (Inr (), r\<lparr> rq_state := Failed, rq_error := Some msg \<rparr>)" "rq_valid (r\<lparr> rq_state := Failed, rq_error := Some msg \<rparr>)"
proof -
  show "rq_valid (r\<lparr> rq_state := Failed, rq_error := Some msg \<rparr>)" using assms by (simp add: rq_valid_def)
  then show "rq_fail msg r = (Inr (), r\<lparr> rq_state := Failed, rq_error := Some msg \<rparr>)"
    using assms by (simp add: rq_fail_def cbind_def request_simps)
qed

lemma cancel_ok:
  assumes "rq_valid r" "rq_state r = Waiting \<or> rq_state r = Running"
  shows "rq_cancel r = (Inr (), r\<lparr> rq_state := Cancelled \<rparr>)" "rq_valid (r\<lparr> rq_state := Cancelled \<rparr>)"
proof -
  show "rq_valid (r\<lparr> rq_state := Cancelled \<rparr>)" using assms by (auto simp: rq_valid_def)
  then show "rq_cancel r = (Inr (), r\<lparr> rq_state := Cancelled \<rparr>)"
    using assms by (auto simp: rq_cancel_def cbind_def request_simps)
qed

definition advanced :: "int list \<Rightarrow> nat \<Rightarrow> completion_reason option \<Rightarrow> request \<Rightarrow> request" where
  "advanced tokens delta reason r =
     r\<lparr> rq_state := (if reason = None then rq_state r else Finished),
        completion := (if reason = None then completion r else reason),
        rq_generated := rq_generated r @ tokens, rq_sample_index := rq_sample_index r + length tokens,
        cached_len := cached_len r + delta \<rparr>"

lemma advanced_eq:
  "(case reason of None \<Rightarrow> r | Some c \<Rightarrow> r\<lparr> rq_state := Finished, completion := Some c \<rparr>)
     \<lparr> rq_generated := rq_generated (case reason of None \<Rightarrow> r | Some c \<Rightarrow> r\<lparr> rq_state := Finished, completion := Some c \<rparr>) @ tokens,
       rq_sample_index := rq_sample_index r + length tokens, cached_len := cached_len r + delta \<rparr> = advanced tokens delta reason r"
  by (cases r; cases reason) (simp_all add: advanced_def)

lemma advance_ok:
  assumes "rq_valid r" "rq_state r = Running" "length (rq_generated r) + length tokens \<le> max_new_len r"
    and "max_new_len r < word_limit" "cached_len r + delta < word_limit"
  shows "advance tokens delta reason r = (Inr (), advanced tokens delta reason r)" "rq_valid (advanced tokens delta reason r)"
proof -
  show v: "rq_valid (advanced tokens delta reason r)" using assms(1-3) by (auto simp: rq_valid_def advanced_def)
  have "rq_sample_index r = length (rq_generated r)" using assms(1) by (simp add: rq_valid_def)
  then show "advance tokens delta reason r = (Inr (), advanced tokens delta reason r)"
    using assms assert_invariants_ok [OF v]
    by (simp add: advance_def cbind_def request_simps checked_add_def Let_def flip: advanced_eq)
qed

subsection \<open>Policies\<close>

lemma mset_insert_by [simp]: "mset (insert_by cmp x xs) = add_mset x (mset xs)"
  by (induction xs) auto

lemma mset_sort_by [simp]: "mset (sort_by cmp xs) = mset xs"
  by (induction xs) (simp_all add: sort_by_def)

lemma set_sort_by [simp]: "set (sort_by cmp xs) = set xs"
  by (metis mset_sort_by set_mset_mset)

lemma distinct_sort_by [simp]: "distinct (sort_by cmp xs) = distinct xs"
  by (metis mset_sort_by mset_eq_imp_distinct_iff)

lemma set_insert_by [simp]: "set (insert_by cmp x xs) = insert x (set xs)"
  by (induction xs) auto

lemma sort_by_sorted:
  assumes "\<And>a b. cmp a b = Greater \<Longrightarrow> cmp b a \<noteq> Greater"
    and "\<And>a b c. cmp a b \<noteq> Greater \<Longrightarrow> cmp b c \<noteq> Greater \<Longrightarrow> cmp a c \<noteq> Greater"
  shows "sorted_wrt (\<lambda>a b. cmp a b \<noteq> Greater) (sort_by cmp xs)"
proof -
  have ins: "sorted_wrt (\<lambda>a b. cmp a b \<noteq> Greater) (insert_by cmp x ys)" if "sorted_wrt (\<lambda>a b. cmp a b \<noteq> Greater) ys" for x ys
    using that
  proof (induction ys)
    case (Cons y ys)
    then show ?case using assms(1) [of x y] assms(2) [of x y] by auto
  qed simp
  show ?thesis unfolding sort_by_def by (induction xs) (auto intro: ins)
qed

lemma nat_cmp_simps [simp]:
  "nat_cmp a b = Less \<longleftrightarrow> a < b" "nat_cmp a b = Equal \<longleftrightarrow> a = b" "nat_cmp a b = Greater \<longleftrightarrow> b < a"
  by (simp_all add: nat_cmp_def)

lemma then_cmp_Greater: "then_cmp x y = Greater \<longleftrightarrow> x = Greater \<or> x = Equal \<and> y = Greater"
  by (cases x) (simp_all add: then_cmp_def)

lemma then_cmp_Equal: "then_cmp x y = Equal \<longleftrightarrow> x = Equal \<and> y = Equal"
  by (cases x) (simp_all add: then_cmp_def)

lemma string_cmp_Equal: "string_cmp a b = Equal \<longleftrightarrow> a = b"
  by (induction a b rule: string_cmp.induct) (auto simp: then_cmp_Equal)

lemma string_cmp_asym: "string_cmp a b = Greater \<Longrightarrow> string_cmp b a \<noteq> Greater"
  by (induction a b rule: string_cmp.induct) (auto simp: then_cmp_Greater)

lemma string_cmp_trans: "string_cmp a b \<noteq> Greater \<Longrightarrow> string_cmp b c \<noteq> Greater \<Longrightarrow> string_cmp a c \<noteq> Greater"
proof (induction a b arbitrary: c rule: string_cmp.induct)
  case (4 a as b bs)
  then show ?case by (cases c) (auto simp: then_cmp_Greater not_less)
qed (case_tac c; simp)+

text \<open>
  What the scheduler needs of a policy: its order is total, and among the requests that come after a
  prefill there is none that arrived earlier.
\<close>

locale scheduling_policy =
  fixes pol :: policy
  assumes asym: "pol l r = Greater \<Longrightarrow> pol r l \<noteq> Greater"
    and trans: "pol a b \<noteq> Greater \<Longrightarrow> pol b c \<noteq> Greater \<Longrightarrow> pol a c \<noteq> Greater"
    and prefill_by_arrival: "pol l r \<noteq> Greater \<Longrightarrow> pol_work l = Prefill \<Longrightarrow> pol_arrival l \<le> pol_arrival r"
begin

lemma ordered: "sorted_wrt (\<lambda>a b. pol (f a) (f b) \<noteq> Greater) (sort_by (\<lambda>a b. pol (f a) (f b)) xs)"
  by (rule sort_by_sorted) (fact asym, fact trans)

end

interpretation fcfs: scheduling_policy fcfs
proof
  fix a b c :: policy_request
  show "fcfs a b = Greater \<Longrightarrow> fcfs b a \<noteq> Greater"
    by (auto simp: fcfs_def then_cmp_Greater string_cmp_asym)
  show "fcfs a b \<noteq> Greater \<Longrightarrow> fcfs b c \<noteq> Greater \<Longrightarrow> fcfs a c \<noteq> Greater"
    using string_cmp_trans [of "pol_id a" "pol_id b" "pol_id c"] by (auto simp: fcfs_def then_cmp_Greater not_less)
  show "fcfs a b \<noteq> Greater \<Longrightarrow> pol_work a = Prefill \<Longrightarrow> pol_arrival a \<le> pol_arrival b"
    by (auto simp: fcfs_def then_cmp_Greater)
qed

interpretation decode_first: scheduling_policy decode_first
proof
  fix a b c :: policy_request
  show "decode_first a b = Greater \<Longrightarrow> decode_first b a \<noteq> Greater"
    using fcfs.asym [of a b] by (auto simp: decode_first_def then_cmp_Greater)
  show "decode_first a b \<noteq> Greater \<Longrightarrow> decode_first b c \<noteq> Greater \<Longrightarrow> decode_first a c \<noteq> Greater"
    using fcfs.trans [of a b c] by (auto simp: decode_first_def then_cmp_Greater not_less)
  show "decode_first a b \<noteq> Greater \<Longrightarrow> pol_work a = Prefill \<Longrightarrow> pol_arrival a \<le> pol_arrival b"
    by (auto simp: decode_first_def then_cmp_Greater decode_rank_def fcfs_def split: if_splits)
qed

end
