(* ===== verification/BlockPool.thy ===== *)
theory BlockPool
  imports Control
begin

text \<open>
  The pool of physical cache blocks (\<open>block_pool.rs\<close>): reservation, sharing of sealed blocks by reference
  counting, and release. The pool's books are kept against the multiset of references its users hold.
\<close>

section \<open>State\<close>

type_synonym digest = "8 word list"

datatype block_state = Writable "string option" | Sealed digest

record physical_block =
  blk_id :: nat
  blk_state :: block_state
  ref_cnt :: nat

text \<open>The ordered set of free blocks is the ascending list of its elements.\<close>

record block_pool =
  capacity :: nat
  pool_blocks :: "physical_block list"
  free_set :: "nat list"
  allocated_set :: "nat set"
  sealed_map :: "digest \<rightharpoonup> nat"

definition is_sealed :: "physical_block \<Rightarrow> bool" where
  "is_sealed b = (case blk_state b of Sealed _ \<Rightarrow> True | Writable _ \<Rightarrow> False)"

definition assert_sealed :: "physical_block \<Rightarrow> control_error + digest" where
  "assert_sealed b = (case blk_state b of Sealed h \<Rightarrow> Inr h | Writable _ \<Rightarrow> Inl Panic)"

definition assert_set_writer :: "string \<Rightarrow> physical_block \<Rightarrow> control_error + physical_block" where
  "assert_set_writer w b = (case blk_state b of Writable _ \<Rightarrow> Inr (b\<lparr> blk_state := Writable (Some w) \<rparr>) | Sealed _ \<Rightarrow> Inl Panic)"

definition seal :: "digest \<Rightarrow> physical_block \<Rightarrow> control_error + physical_block" where
  "seal h b = (if is_sealed b then Inl Panic else Inr (b\<lparr> blk_state := Sealed h \<rparr>))"

text \<open>Block numbers are 32 bits wide.\<close>

definition pool_new :: "nat \<Rightarrow> block_pool" where
  "pool_new num_blocks =
     (let n = num_blocks mod 2 ^ 32
      in \<lparr> capacity = num_blocks,
           pool_blocks = map (\<lambda>e. \<lparr> blk_id = e, blk_state = Writable None, ref_cnt = 0 \<rparr>) [0..<n],
           free_set = [0..<n], allocated_set = {}, sealed_map = Map.empty \<rparr>)"

definition available :: "block_pool \<Rightarrow> nat" where
  "available p = length (free_set p)"

definition can_reserve :: "nat \<Rightarrow> block_pool \<Rightarrow> bool" where
  "can_reserve num p = (num \<le> available p)"

definition block_of :: "nat \<Rightarrow> block_pool \<Rightarrow> physical_block option" where
  "block_of i p = (if i < length (pool_blocks p) then Some (pool_blocks p ! i) else None)"

definition put_block :: "nat \<Rightarrow> physical_block \<Rightarrow> block_pool \<Rightarrow> block_pool" where
  "put_block i b p = p\<lparr> pool_blocks := (pool_blocks p)[i := b] \<rparr>"

definition set_insort :: "nat \<Rightarrow> nat list \<Rightarrow> nat list" where
  "set_insort x xs = (if x \<in> set xs then xs else insort x xs)"

section \<open>Operations\<close>

text \<open>One iteration of the loop of \<open>reserve\<close>.\<close>

definition reserve_one :: "string \<Rightarrow> nat \<Rightarrow> (block_pool, unit) ctl" where
  "reserve_one w i p =
     (let p = p\<lparr> free_set := remove1 i (free_set p), allocated_set := insert i (allocated_set p) \<rparr>
      in case block_of i p of
           None \<Rightarrow> cerr Panic p
         | Some b \<Rightarrow>
             (let b = b\<lparr> ref_cnt := ref_cnt b + 1 \<rparr>
              in case assert_set_writer w b of Inl e \<Rightarrow> cerr e (put_block i b p) | Inr b' \<Rightarrow> cret () (put_block i b' p)))"

definition pool_reserve :: "nat \<Rightarrow> string \<Rightarrow> (block_pool, nat list) ctl" where
  "pool_reserve num w p =
     (if \<not> can_reserve num p then cerr (InsufficientBlocks num (available p)) p
      else let ids = take num (free_set p) in cbind (cfold (reserve_one w) ids) (\<lambda>_. cret ids) p)"

datatype seal_result = Published nat | Existing nat

definition seal_block :: "nat \<Rightarrow> digest \<Rightarrow> (block_pool, seal_result) ctl" where
  "seal_block i h p =
     (case sealed_map p h of
        Some existing \<Rightarrow> if existing = i then cret (Published i) p else cret (Existing existing) p
      | None \<Rightarrow>
          (case block_of i p of
             None \<Rightarrow> cerr Panic p
           | Some b \<Rightarrow>
               (case seal h b of
                  Inl e \<Rightarrow> cerr e p
                | Inr b' \<Rightarrow> cret (Published i) ((put_block i b' p)\<lparr> sealed_map := (sealed_map p)(h \<mapsto> i) \<rparr>))))"

definition sealed_block :: "digest \<Rightarrow> block_pool \<Rightarrow> physical_block option" where
  "sealed_block h p = (case sealed_map p h of None \<Rightarrow> None | Some i \<Rightarrow> block_of i p)"

definition release_one :: "nat \<Rightarrow> (block_pool, unit) ctl" where
  "release_one i p =
     (if i \<notin> allocated_set p then cerr (BlockNotInUse i) p
      else case block_of i p of
        None \<Rightarrow> cerr Panic p
      | Some b \<Rightarrow>
          (if ref_cnt b = 0 then cerr Panic p
           else let b' = b\<lparr> ref_cnt := ref_cnt b - 1 \<rparr>
                in if ref_cnt b' = 0
                   then cret () ((put_block i (b'\<lparr> blk_state := Writable None \<rparr>) p)
                          \<lparr> sealed_map := (case blk_state b' of Sealed h \<Rightarrow> (sealed_map p)(h := None) | Writable _ \<Rightarrow> sealed_map p),
                             free_set := set_insort i (free_set p), allocated_set := allocated_set p - {i} \<rparr>)
                   else cret () (put_block i b' p)))"

definition release_blocks :: "nat list \<Rightarrow> (block_pool, unit) ctl" where
  "release_blocks = cfold release_one"

definition check_sealed :: "nat \<Rightarrow> (block_pool, unit) ctl" where
  "check_sealed i p =
     (case block_of i p of
        None \<Rightarrow> cerr (UnknownBlock i) p
      | Some b \<Rightarrow> if is_sealed b then cret () p else cerr (UnsealedBlock i) p)"

definition retain_one :: "nat \<Rightarrow> (block_pool, unit) ctl" where
  "retain_one i p =
     (case block_of i p of
        None \<Rightarrow> cerr Panic p
      | Some b \<Rightarrow>
          (let p = put_block i (b\<lparr> ref_cnt := ref_cnt b + 1 \<rparr>) p
           in cret () (if i \<in> set (free_set p)
                       then p\<lparr> free_set := remove1 i (free_set p), allocated_set := insert i (allocated_set p) \<rparr> else p)))"

definition retain_shared :: "nat list \<Rightarrow> (block_pool, unit) ctl" where
  "retain_shared ids = cbind (cfold check_sealed ids) (\<lambda>_. cfold retain_one ids)"

definition reuse_and_reserve :: "nat list \<Rightarrow> nat \<Rightarrow> string \<Rightarrow> (block_pool, nat list) ctl" where
  "reuse_and_reserve reused need w = cbind (pool_reserve need w) (\<lambda>reserved p.
     case retain_shared reused p of
       (Inl e, p') \<Rightarrow> cbind (release_blocks reserved) (\<lambda>_. cerr e) p'
     | (Inr _, p') \<Rightarrow> cret (reused @ reserved) p')"

section \<open>The books\<close>

text \<open>
  \<open>R\<close> counts the references that allocations hold. The books agree with it: reference counts, the free and
  the allocated set, and the map from digests to the blocks sealed with them, which are all in use.
\<close>

definition state_at :: "block_pool \<Rightarrow> nat \<Rightarrow> block_state" where
  "state_at p i = blk_state (pool_blocks p ! i)"

abbreviation pool_size :: "block_pool \<Rightarrow> nat" where
  "pool_size p \<equiv> length (pool_blocks p)"

definition pool_ok :: "block_pool \<Rightarrow> nat multiset \<Rightarrow> bool" where
  "pool_ok p R =
     ((\<forall>i < pool_size p. ref_cnt (pool_blocks p ! i) = count R i \<and> blk_id (pool_blocks p ! i) = i) \<and>
      (\<forall>i \<in># R. i < pool_size p) \<and>
      free_set p = filter (\<lambda>i. i \<notin># R) [0..<pool_size p] \<and> allocated_set p = set_mset R \<and>
      (\<forall>h i. sealed_map p h = Some i \<longleftrightarrow> i < pool_size p \<and> state_at p i = Sealed h) \<and>
      (\<forall>i < pool_size p. i \<notin># R \<longrightarrow> (\<exists>w. state_at p i = Writable w)))"

lemma pool_okD:
  assumes "pool_ok p R"
  shows "\<And>i. i < pool_size p \<Longrightarrow> ref_cnt (pool_blocks p ! i) = count R i" "\<And>i. i < pool_size p \<Longrightarrow> blk_id (pool_blocks p ! i) = i"
    "\<And>i. i \<in># R \<Longrightarrow> i < pool_size p" "free_set p = filter (\<lambda>i. i \<notin># R) [0..<pool_size p]" "allocated_set p = set_mset R"
    "\<And>h i. sealed_map p h = Some i \<longleftrightarrow> i < pool_size p \<and> state_at p i = Sealed h"
    "\<And>i. i < pool_size p \<Longrightarrow> i \<notin># R \<Longrightarrow> \<exists>w. state_at p i = Writable w"
  using assms by (simp_all add: pool_ok_def)

lemma pool_okI:
  assumes "\<And>i. i < pool_size p \<Longrightarrow> ref_cnt (pool_blocks p ! i) = count R i" "\<And>i. i < pool_size p \<Longrightarrow> blk_id (pool_blocks p ! i) = i"
    "\<And>i. i \<in># R \<Longrightarrow> i < pool_size p" "free_set p = filter (\<lambda>i. i \<notin># R) [0..<pool_size p]" "allocated_set p = set_mset R"
    "\<And>h i. sealed_map p h = Some i \<longleftrightarrow> i < pool_size p \<and> state_at p i = Sealed h"
    "\<And>i. i < pool_size p \<Longrightarrow> i \<notin># R \<Longrightarrow> \<exists>w. state_at p i = Writable w"
  shows "pool_ok p R"
  using assms by (simp add: pool_ok_def)

lemma pool_ok_counts:
  assumes "pool_ok p R" "set_mset R' = set_mset R" "pool_size p' = pool_size p" "free_set p' = free_set p"
    "allocated_set p' = allocated_set p" "sealed_map p' = sealed_map p" "\<And>j. state_at p' j = state_at p j"
    and "\<And>j. j < pool_size p \<Longrightarrow> ref_cnt (pool_blocks p' ! j) = count R' j \<and> blk_id (pool_blocks p' ! j) = j"
  shows "pool_ok p' R'"
  using assms by (simp add: pool_ok_def)

lemma put_block_simps [simp]:
  "pool_size (put_block i b p) = pool_size p" "free_set (put_block i b p) = free_set p" "allocated_set (put_block i b p) = allocated_set p"
  "sealed_map (put_block i b p) = sealed_map p"
  "pool_blocks (put_block i b p) ! j = (if j = i \<and> i < pool_size p then b else pool_blocks p ! j)"
  by (auto simp: put_block_def nth_list_update list_update_beyond)

lemma state_at_simps [simp]:
  "state_at (put_block i b p) j = (if j = i \<and> i < pool_size p then blk_state b else state_at p j)"
  "state_at (p\<lparr> free_set := fs \<rparr>) = state_at p" "state_at (p\<lparr> allocated_set := al \<rparr>) = state_at p" "state_at (p\<lparr> sealed_map := sm \<rparr>) = state_at p"
  by (auto simp: state_at_def fun_eq_iff)

lemma remove1_filter_upt: "remove1 i (filter P [0..<n]) = filter (\<lambda>j. P j \<and> j \<noteq> i) [0..<n]"
proof -
  have "remove1 i (filter P [0..<n]) = filter (\<lambda>x. i \<noteq> x) (filter P [0..<n])"
    by (subst distinct_remove1_removeAll) (simp_all add: removeAll_filter_not_eq)
  also have "\<dots> = filter (\<lambda>j. P j \<and> j \<noteq> i) [0..<n]" by (auto intro: filter_cong)
  finally show ?thesis .
qed

lemma set_insort_filter_upt: "i < n \<Longrightarrow> set_insort i (filter P [0..<n]) = filter (\<lambda>j. P j \<or> j = i) [0..<n]"
proof (cases "P i")
  case True
  moreover assume "i < n"
  ultimately have "filter P [0..<n] = filter (\<lambda>j. P j \<or> j = i) [0..<n]" by (auto intro: filter_cong)
  with True \<open>i < n\<close> show ?thesis by (simp add: set_insort_def)
next
  case False
  moreover assume "i < n"
  ultimately show ?thesis
    by (intro sorted_distinct_set_unique)
      (auto simp: set_insort_def sorted_insort distinct_insort set_insort_key sorted_wrt_filter)
qed

lemma pool_new_ok: "pool_ok (pool_new n) {#}"
  by (simp add: pool_ok_def pool_new_def Let_def state_at_def)

lemma available_pool: "pool_ok p R \<Longrightarrow> available p = card {i. i < pool_size p \<and> i \<notin># R}"
  by (simp add: pool_ok_def available_def distinct_length_filter) (intro arg_cong [where f = card]; auto)

lemma block_of_ok: "i < pool_size p \<Longrightarrow> block_of i p = Some (pool_blocks p ! i)"
  by (simp add: block_of_def)

text \<open>What an operation keeps of the pool besides the blocks it names.\<close>

definition pool_keeps :: "(nat \<Rightarrow> bool) \<Rightarrow> block_pool \<Rightarrow> block_pool \<Rightarrow> bool" where
  "pool_keeps K p p' = (pool_size p' = pool_size p \<and> (\<forall>i < pool_size p. K i \<longrightarrow> state_at p' i = state_at p i))"

lemma pool_keeps_refl [simp]: "pool_keeps K p p"
  by (simp add: pool_keeps_def)

lemma pool_keeps_trans: "pool_keeps K p p' \<Longrightarrow> pool_keeps L p' p'' \<Longrightarrow> (\<And>i. M i \<Longrightarrow> K i \<and> L i) \<Longrightarrow> pool_keeps M p p''"
  by (auto simp: pool_keeps_def)

subsection \<open>Reserving\<close>

lemma reserve_one_ok:
  assumes ok: "pool_ok p R" and i: "i < pool_size p" "i \<notin># R"
  shows "\<exists>p'. reserve_one w i p = (Inr (), p') \<and> pool_ok p' (add_mset i R) \<and> pool_keeps (\<lambda>j. j \<noteq> i) p p' \<and>
    state_at p' i = Writable (Some w) \<and> sealed_map p' = sealed_map p"
proof -
  note d = pool_okD [OF ok]
  obtain v where v: "state_at p i = Writable v" using d(7) [OF i] by blast
  let ?b = "(pool_blocks p ! i)\<lparr> ref_cnt := ref_cnt (pool_blocks p ! i) + 1, blk_state := Writable (Some w) \<rparr>"
  let ?p = "put_block i ?b (p\<lparr> free_set := remove1 i (free_set p), allocated_set := insert i (allocated_set p) \<rparr>)"
  have run: "reserve_one w i p = (Inr (), ?p)"
    using i v by (simp add: reserve_one_def Let_def block_of_def assert_set_writer_def state_at_def)
  have "pool_ok ?p (add_mset i R)"
  proof (rule pool_okI)
    show "free_set ?p = filter (\<lambda>j. j \<notin># add_mset i R) [0..<pool_size ?p]"
      by (auto simp: d(4) remove1_filter_upt intro: filter_cong)
    show "sealed_map ?p h = Some j \<longleftrightarrow> j < pool_size ?p \<and> state_at ?p j = Sealed h" for h j
      using d(6) [of h j] v i by auto
    show "\<exists>u. state_at ?p j = Writable u" if "j < pool_size ?p" "j \<notin># add_mset i R" for j
      using d(7) [of j] that by auto
  qed (use d i in auto)
  moreover have "pool_keeps (\<lambda>j. j \<noteq> i) p ?p" by (simp add: pool_keeps_def)
  ultimately show ?thesis using run i by (intro exI [of _ ?p]) simp
qed

lemma reserve_all_ok:
  assumes "pool_ok p R" "distinct ids" "\<forall>i \<in> set ids. i < pool_size p \<and> i \<notin># R"
  shows "\<exists>p'. cfold (reserve_one w) ids p = (Inr (), p') \<and> pool_ok p' (R + mset ids) \<and> pool_keeps (\<lambda>j. j \<notin> set ids) p p' \<and>
    (\<forall>i \<in> set ids. state_at p' i = Writable (Some w)) \<and> sealed_map p' = sealed_map p"
  using assms
proof (induction ids arbitrary: p R)
  case (Cons i ids)
  obtain p1 where p1: "reserve_one w i p = (Inr (), p1)" "pool_ok p1 (add_mset i R)" "pool_keeps (\<lambda>j. j \<noteq> i) p p1"
    "state_at p1 i = Writable (Some w)" "sealed_map p1 = sealed_map p"
    using reserve_one_ok [OF Cons.prems(1), of i w] Cons.prems(3) by auto
  have size: "pool_size p1 = pool_size p" using p1(3) by (simp add: pool_keeps_def)
  obtain p2 where p2: "cfold (reserve_one w) ids p1 = (Inr (), p2)" "pool_ok p2 (add_mset i R + mset ids)"
    "pool_keeps (\<lambda>j. j \<notin> set ids) p1 p2" "\<forall>i \<in> set ids. state_at p2 i = Writable (Some w)" "sealed_map p2 = sealed_map p1"
    using Cons.IH [OF p1(2)] Cons.prems(2,3) size by auto
  have "state_at p2 i = Writable (Some w)"
    using p2(3) p1(4) Cons.prems(2,3) size by (simp add: pool_keeps_def)
  moreover have "pool_keeps (\<lambda>j. j \<notin> set (i # ids)) p p2" by (rule pool_keeps_trans [OF p1(3) p2(3)]) auto
  ultimately show ?case using p1 p2 by (simp add: cbind_def)
qed simp

lemma pool_reserve_ok:
  assumes ok: "pool_ok p R" and n: "n \<le> available p"
  shows "\<exists>ids p'. pool_reserve n w p = (Inr ids, p') \<and> length ids = n \<and> distinct ids \<and> (\<forall>i \<in> set ids. i \<notin># R \<and> i < pool_size p) \<and>
    pool_ok p' (R + mset ids) \<and> pool_keeps (\<lambda>i. i \<notin> set ids) p p' \<and> (\<forall>i \<in> set ids. state_at p' i = Writable (Some w)) \<and>
    sealed_map p' = sealed_map p"
proof -
  let ?ids = "take n (free_set p)"
  have free: "free_set p = filter (\<lambda>i. i \<notin># R) [0..<pool_size p]" using ok by (simp add: pool_ok_def)
  have ids: "distinct ?ids" "\<forall>i \<in> set ?ids. i < pool_size p \<and> i \<notin># R" "length ?ids = n"
    using n unfolding free available_def by (auto dest!: in_set_takeD)
  obtain p' where p': "cfold (reserve_one w) ?ids p = (Inr (), p')" "pool_ok p' (R + mset ?ids)" "pool_keeps (\<lambda>j. j \<notin> set ?ids) p p'"
    "\<forall>i \<in> set ?ids. state_at p' i = Writable (Some w)" "sealed_map p' = sealed_map p"
    using reserve_all_ok [OF ok ids(1,2), of w] by blast
  have "pool_reserve n w p = (Inr ?ids, p')" using n p'(1) by (simp add: pool_reserve_def can_reserve_def Let_def cbind_def)
  with ids p'(2-5) show ?thesis by blast
qed

lemma pool_reserve_full: "available p < n \<Longrightarrow> pool_reserve n w p = (Inl (InsufficientBlocks n (available p)), p)"
  by (simp add: pool_reserve_def can_reserve_def)

subsection \<open>Releasing\<close>

lemma release_one_ok:
  assumes ok: "pool_ok p R" and i: "i \<in># R"
  shows "\<exists>p'. release_one i p = (Inr (), p') \<and> pool_ok p' (R - {#i#}) \<and> pool_keeps (\<lambda>j. j \<in># R - {#i#}) p p'"
proof -
  note d = pool_okD [OF ok]
  let ?b = "pool_blocks p ! i"
  have b: "i < pool_size p" "ref_cnt ?b = count R i" "i \<in> allocated_set p" "count R i \<noteq> 0"
    using d(1,3,5) i by auto
  show ?thesis
  proof (cases "count R i = 1")
    case False
    let ?p = "put_block i (?b\<lparr> ref_cnt := ref_cnt ?b - 1 \<rparr>) p"
    have same: "j \<in># R - {#i#} \<longleftrightarrow> j \<in># R" for j
      using b(4) False by (cases "j = i") (auto simp flip: count_greater_zero_iff)
    have st: "state_at ?p j = state_at p j" for j by (simp add: state_at_def)
    have "1 < count R i" using b(4) False by linarith
    then have "release_one i p = (Inr (), ?p)"
      using b by (simp add: release_one_def block_of_def Let_def)
    moreover have "pool_ok ?p (R - {#i#})"
      by (rule pool_ok_counts [OF ok _ _ _ _ _ st]) (use d(1,2) b(1) same in auto)
    moreover have "pool_keeps (\<lambda>j. j \<in># R - {#i#}) p ?p" using st by (simp add: pool_keeps_def)
    ultimately show ?thesis by blast
  next
    case True
    let ?p = "(put_block i (?b\<lparr> ref_cnt := ref_cnt ?b - 1, blk_state := Writable None \<rparr>) p)
      \<lparr> sealed_map := (case blk_state ?b of Sealed h \<Rightarrow> (sealed_map p)(h := None) | Writable _ \<Rightarrow> sealed_map p),
        free_set := set_insort i (free_set p), allocated_set := allocated_set p - {i} \<rparr>"
    have gone: "j \<in># R - {#i#} \<longleftrightarrow> j \<in># R \<and> j \<noteq> i" for j
      using True by (cases "j = i") (auto simp flip: count_greater_zero_iff)
    have run: "release_one i p = (Inr (), ?p)"
      using b True by (simp add: release_one_def block_of_def Let_def)
    have "pool_ok ?p (R - {#i#})"
    proof (rule pool_okI)
      show "free_set ?p = filter (\<lambda>j. j \<notin># R - {#i#}) [0..<pool_size ?p]"
        using b(1) by (auto simp: d(4) gone set_insort_filter_upt intro: filter_cong)
      show "allocated_set ?p = set_mset (R - {#i#})" using gone d(5) by auto
      show "sealed_map ?p h = Some j \<longleftrightarrow> j < pool_size ?p \<and> state_at ?p j = Sealed h" for h j
        using d(6) [of h j] d(6) [of h i] b(1) by (cases "blk_state ?b") (auto simp: state_at_def)
      show "\<exists>u. state_at ?p j = Writable u" if "j < pool_size ?p" "j \<notin># R - {#i#}" for j
        using d(7) [of j] that gone by auto
      show "j < pool_size ?p" if "j \<in># R - {#i#}" for j using that gone d(3) by simp
    qed (use d b(1) in auto)
    moreover have "pool_keeps (\<lambda>j. j \<in># R - {#i#}) p ?p" using gone by (simp add: pool_keeps_def)
    ultimately show ?thesis using run by blast
  qed
qed

lemma release_blocks_ok:
  assumes "pool_ok p R" "mset ids \<subseteq># R"
  shows "\<exists>p'. release_blocks ids p = (Inr (), p') \<and> pool_ok p' (R - mset ids) \<and> pool_keeps (\<lambda>j. j \<in># R - mset ids) p p'"
  using assms
proof (induction ids arbitrary: p R)
  case (Cons i ids)
  have i: "i \<in># R" "mset ids \<subseteq># R - {#i#}" using Cons.prems(2) by (simp_all add: insert_subset_eq_iff)
  obtain p1 where p1: "release_one i p = (Inr (), p1)" "pool_ok p1 (R - {#i#})" "pool_keeps (\<lambda>j. j \<in># R - {#i#}) p p1"
    using release_one_ok [OF Cons.prems(1) i(1)] by blast
  obtain p2 where p2: "release_blocks ids p1 = (Inr (), p2)" "pool_ok p2 (R - {#i#} - mset ids)"
    "pool_keeps (\<lambda>j. j \<in># R - {#i#} - mset ids) p1 p2"
    using Cons.IH [OF p1(2) i(2)] by blast
  have diff: "R - mset (i # ids) = R - {#i#} - mset ids" by simp
  have "pool_keeps (\<lambda>j. j \<in># R - mset (i # ids)) p p2"
    unfolding diff by (rule pool_keeps_trans [OF p1(3) p2(3)]) (auto dest: in_diffD simp del: diff_diff_add_mset)
  then show ?case using p1 p2 by (simp add: release_blocks_def cbind_def)
qed (simp add: release_blocks_def)

subsection \<open>Sharing and sealing\<close>

lemma sealed_in_use: "pool_ok p R \<Longrightarrow> i < pool_size p \<Longrightarrow> state_at p i = Sealed h \<Longrightarrow> i \<in># R"
  by (auto simp: pool_ok_def)

lemma retain_one_ok:
  assumes ok: "pool_ok p R" and i: "i \<in># R"
  shows "\<exists>p'. retain_one i p = (Inr (), p') \<and> pool_ok p' (add_mset i R) \<and> pool_keeps (\<lambda>_. True) p p'"
proof -
  note d = pool_okD [OF ok]
  let ?p = "put_block i ((pool_blocks p ! i)\<lparr> ref_cnt := ref_cnt (pool_blocks p ! i) + 1 \<rparr>) p"
  have b: "i < pool_size p" "i \<notin> set (free_set p)" using d(3,4) i by auto
  have st: "state_at ?p j = state_at p j" for j by (simp add: state_at_def)
  have "retain_one i p = (Inr (), ?p)" using b by (simp add: retain_one_def block_of_def Let_def)
  moreover have "pool_ok ?p (add_mset i R)"
    by (rule pool_ok_counts [OF ok _ _ _ _ _ st]) (use d(1,2) b(1) i in auto)
  moreover have "pool_keeps (\<lambda>_. True) p ?p" using st by (simp add: pool_keeps_def)
  ultimately show ?thesis by blast
qed

lemma retain_all_ok:
  assumes "pool_ok p R" "\<forall>i \<in> set ids. i \<in># R"
  shows "\<exists>p'. cfold retain_one ids p = (Inr (), p') \<and> pool_ok p' (R + mset ids) \<and> pool_keeps (\<lambda>_. True) p p'"
  using assms
proof (induction ids arbitrary: p R)
  case (Cons i ids)
  obtain p1 where p1: "retain_one i p = (Inr (), p1)" "pool_ok p1 (add_mset i R)" "pool_keeps (\<lambda>_. True) p p1"
    using retain_one_ok [OF Cons.prems(1)] Cons.prems(2) by auto
  obtain p2 where p2: "cfold retain_one ids p1 = (Inr (), p2)" "pool_ok p2 (add_mset i R + mset ids)" "pool_keeps (\<lambda>_. True) p1 p2"
    using Cons.IH [OF p1(2)] Cons.prems(2) by auto
  have "pool_keeps (\<lambda>_. True) p p2" by (rule pool_keeps_trans [OF p1(3) p2(3)]) simp
  then show ?case using p1 p2 by (simp add: cbind_def)
qed simp

lemma check_sealed_all: "\<forall>i \<in> set ids. i < pool_size p \<and> (\<exists>h. state_at p i = Sealed h) \<Longrightarrow> cfold check_sealed ids p = (Inr (), p)"
  by (induction ids) (auto simp: cbind_def check_sealed_def block_of_def is_sealed_def state_at_def)

lemma retain_shared_ok:
  assumes "pool_ok p R" "\<forall>i \<in> set ids. i < pool_size p \<and> (\<exists>h. state_at p i = Sealed h)"
  shows "\<exists>p'. retain_shared ids p = (Inr (), p') \<and> pool_ok p' (R + mset ids) \<and> pool_keeps (\<lambda>_. True) p p'"
proof -
  have "\<forall>i \<in> set ids. i \<in># R" using assms sealed_in_use by blast
  with retain_all_ok [OF assms(1)] check_sealed_all [OF assms(2)] show ?thesis
    by (simp add: retain_shared_def cbind_def)
qed

lemma reuse_and_reserve_ok:
  assumes ok: "pool_ok p R" and reused: "\<forall>i \<in> set reused. i < pool_size p \<and> (\<exists>h. state_at p i = Sealed h)" and n: "n \<le> available p"
  shows "\<exists>ids p'. reuse_and_reserve reused n w p = (Inr (reused @ ids), p') \<and> length ids = n \<and> distinct ids \<and>
    (\<forall>i \<in> set ids. i \<notin># R \<and> i < pool_size p) \<and> pool_ok p' (R + mset (reused @ ids)) \<and> pool_keeps (\<lambda>i. i \<in># R) p p' \<and>
    (\<forall>i \<in> set ids. state_at p' i = Writable (Some w))"
proof -
  obtain ids p1 where p1: "pool_reserve n w p = (Inr ids, p1)" "length ids = n" "distinct ids" "\<forall>i \<in> set ids. i \<notin># R \<and> i < pool_size p"
    "pool_ok p1 (R + mset ids)" "pool_keeps (\<lambda>i. i \<notin> set ids) p p1" "\<forall>i \<in> set ids. state_at p1 i = Writable (Some w)"
    using pool_reserve_ok [OF ok n, of w] by blast
  have "\<forall>i \<in> set reused. i < pool_size p1 \<and> (\<exists>h. state_at p1 i = Sealed h)"
    using reused p1(4,6) sealed_in_use [OF ok] by (fastforce simp: pool_keeps_def)
  from retain_shared_ok [OF p1(5) this] obtain p2 where p2: "retain_shared reused p1 = (Inr (), p2)"
    "pool_ok p2 (R + mset ids + mset reused)" "pool_keeps (\<lambda>_. True) p1 p2" by blast
  have "reuse_and_reserve reused n w p = (Inr (reused @ ids), p2)"
    using p1(1) p2(1) by (simp add: reuse_and_reserve_def cbind_def)
  moreover have "pool_keeps (\<lambda>i. i \<in># R) p p2" by (rule pool_keeps_trans [OF p1(6) p2(3)]) (use p1(4) in auto)
  moreover have "\<forall>i \<in> set ids. state_at p2 i = Writable (Some w)" using p1(4,6,7) p2(3) by (auto simp: pool_keeps_def)
  moreover have "R + mset (reused @ ids) = R + mset ids + mset reused" by simp
  ultimately show ?thesis using p1(2-4) p2(2) by metis
qed

lemma reuse_and_reserve_full:
  "available p < n \<Longrightarrow> reuse_and_reserve reused n w p = (Inl (InsufficientBlocks n (available p)), p)"
  by (simp add: reuse_and_reserve_def cbind_def pool_reserve_full)

lemma seal_block_ok:
  assumes ok: "pool_ok p R" and i: "i \<in># R" "state_at p i = Writable v"
  shows "(\<exists>p'. sealed_map p h = None \<and> seal_block i h p = (Inr (Published i), p') \<and> pool_ok p' R \<and> pool_keeps (\<lambda>j. j \<noteq> i) p p' \<and>
            state_at p' i = Sealed h) \<or>
    (\<exists>j. seal_block i h p = (Inr (Existing j), p) \<and> j \<noteq> i \<and> j < pool_size p \<and> state_at p j = Sealed h)"
proof (cases "sealed_map p h")
  case (Some j)
  then have "j < pool_size p" "state_at p j = Sealed h" using ok by (auto simp: pool_ok_def)
  with i Some show ?thesis by (auto simp: seal_block_def)
next
  case None
  note d = pool_okD [OF ok]
  have b: "i < pool_size p" by (rule d(3) [OF i(1)])
  let ?p = "(put_block i ((pool_blocks p ! i)\<lparr> blk_state := Sealed h \<rparr>) p)\<lparr> sealed_map := (sealed_map p)(h \<mapsto> i) \<rparr>"
  have run: "seal_block i h p = (Inr (Published i), ?p)"
    using None b i(2) by (simp add: seal_block_def block_of_def seal_def is_sealed_def state_at_def)
  have "pool_ok ?p R"
  proof (rule pool_okI)
    show "sealed_map ?p g = Some j \<longleftrightarrow> j < pool_size ?p \<and> state_at ?p j = Sealed g" for g j
      using d(6) [of g j] d(6) [of h j] b None i(2) by auto
    show "\<exists>u. state_at ?p j = Writable u" if "j < pool_size ?p" "j \<notin># R" for j
      using d(7) [of j] that i(1) by auto
  qed (use d b in auto)
  moreover have "pool_keeps (\<lambda>j. j \<noteq> i) p ?p" "state_at ?p i = Sealed h"
    using b by (simp_all add: pool_keeps_def)
  ultimately show ?thesis using None run by blast
qed

end
