(* ===== verification/KvCache.thy ===== *)
theory KvCache
  imports BlockPool
begin

text \<open>
  The cache manager (\<open>kv_cache.rs\<close>): block tables per request and the prefix cache, which finds the blocks of a
  prompt by the chained hashes of its token chunks. SHA-256 is a parameter.
\<close>

section \<open>Hashes\<close>

definition empty_hash_prefix :: digest where
  "empty_hash_prefix = [0, 1, 0, 1, 0, 1, 0, 1, 1, 0, 1, 0, 1, 0, 1, 0, 0, 1, 0, 1, 0, 1, 0, 1, 1, 0, 1, 0, 1, 0, 1, 0]"

text \<open>\<open>i64::to_le_bytes\<close>.\<close>

definition to_le_bytes :: "int \<Rightarrow> 8 word list" where
  "to_le_bytes t = map (\<lambda>i. word_of_int (t div 256 ^ i)) [0..<8]"

definition hash_tokens :: "(8 word list \<Rightarrow> digest) \<Rightarrow> int list \<Rightarrow> digest option \<Rightarrow> digest" where
  "hash_tokens sha tokens pre =
     sha ((case pre of None \<Rightarrow> [] | Some p \<Rightarrow> p) @ concat (map to_le_bytes tokens))"

text \<open>\<open>chunks_exact\<close> drops a last, shorter chunk.\<close>

definition chunks_exact :: "nat \<Rightarrow> 'a list \<Rightarrow> 'a list list" where
  "chunks_exact n xs = map (\<lambda>i. take n (drop (n * i) xs)) [0..<length xs div n]"

section \<open>The manager\<close>

record kv_allocation =
  alloc_request :: string
  alloc_blocks :: "nat list"

record kv_manager =
  mgr_block_len :: nat
  mgr_pool :: block_pool
  allocations :: "string \<rightharpoonup> kv_allocation"

record reuse_plan =
  reuse_blocks :: "nat list"
  reused_len :: nat

definition kv_manager_new :: "nat \<Rightarrow> nat \<Rightarrow> control_error + kv_manager" where
  "kv_manager_new num_blocks bl =
     (if bl = 0 then Inl (InvalidConfig ''block length must be positive'')
      else Inr \<lparr> mgr_block_len = bl, mgr_pool = pool_new num_blocks, allocations = Map.empty \<rparr>)"

definition free_blocks :: "kv_manager \<Rightarrow> nat" where
  "free_blocks m = available (mgr_pool m)"

definition capacity_tokens :: "kv_manager \<Rightarrow> nat" where
  "capacity_tokens m = min (capacity (mgr_pool m) * mgr_block_len m) (word_limit - 1)"

definition mgr_block_table :: "kv_manager \<Rightarrow> string \<Rightarrow> nat list" where
  "mgr_block_table m rid = (case allocations m rid of None \<Rightarrow> [] | Some a \<Rightarrow> alloc_blocks a)"

text \<open>An operation on the pool.\<close>

definition on_pool :: "(block_pool, 'a) ctl \<Rightarrow> (kv_manager, 'a) ctl" where
  "on_pool f m = (case f (mgr_pool m) of (r, p) \<Rightarrow> (r, m\<lparr> mgr_pool := p \<rparr>))"

text \<open>The loop of \<open>plan_reuse\<close>.\<close>

primrec reuse_scan :: "(8 word list \<Rightarrow> digest) \<Rightarrow> block_pool \<Rightarrow> digest \<Rightarrow> int list list \<Rightarrow> nat list" where
  "reuse_scan sha p pre [] = []"
| "reuse_scan sha p pre (chunk # chunks) =
     (let h = hash_tokens sha chunk (Some pre)
      in case sealed_block h p of None \<Rightarrow> [] | Some b \<Rightarrow> blk_id b # reuse_scan sha p h chunks)"

definition plan_reuse :: "(8 word list \<Rightarrow> digest) \<Rightarrow> int list \<Rightarrow> kv_manager \<Rightarrow> reuse_plan option" where
  "plan_reuse sha prompt m =
     (let bl = mgr_block_len m
      in if length prompt < bl then None
         else let blocks = take ((length prompt - 1) div bl)
                             (reuse_scan sha (mgr_pool m) empty_hash_prefix (chunks_exact bl prompt))
              in if blocks = [] then None
                 else Some \<lparr> reuse_blocks = blocks, reused_len = length blocks * bl \<rparr>)"

text \<open>One chunk of \<open>seal_blocks\<close>; the loop carries the prefix hash and the next index.\<close>

definition set_table_entry :: "string \<Rightarrow> nat \<Rightarrow> nat \<Rightarrow> kv_manager \<Rightarrow> kv_manager" where
  "set_table_entry rid i b m =
     m\<lparr> allocations := (allocations m)(rid := map_option (\<lambda>a. a\<lparr> alloc_blocks := (alloc_blocks a)[i := b] \<rparr>) (allocations m rid)) \<rparr>"

definition seal_chunk :: "(8 word list \<Rightarrow> digest) \<Rightarrow> string \<Rightarrow> digest \<Rightarrow> nat \<Rightarrow> int list \<Rightarrow> (kv_manager, digest) ctl" where
  "seal_chunk sha rid pre idx chunk m =
     (let h = hash_tokens sha chunk (Some pre); table = mgr_block_table m rid
      in if length table \<le> idx then cerr Panic m
         else cbind (on_pool (seal_block (table ! idx) h)) (\<lambda>res.
           case res of
             Published _ \<Rightarrow> cret h
           | Existing existing \<Rightarrow>
               cbind (on_pool (retain_shared [existing])) (\<lambda>_.
               cbind (\<lambda>m. (Inr (), set_table_entry rid idx existing m)) (\<lambda>_.
               cbind (on_pool (release_blocks [table ! idx])) (\<lambda>_. cret h)))) m)"

primrec seal_loop ::
    "(8 word list \<Rightarrow> digest) \<Rightarrow> string \<Rightarrow> digest \<Rightarrow> nat \<Rightarrow> int list list \<Rightarrow> (kv_manager, unit) ctl" where
  "seal_loop sha rid pre idx [] = cret ()"
| "seal_loop sha rid pre idx (chunk # chunks) =
     cbind (seal_chunk sha rid pre idx chunk) (\<lambda>h. seal_loop sha rid h (idx + 1) chunks)"

text \<open>The digest of the last sealed block of the table.\<close>

definition seal_start :: "kv_manager \<Rightarrow> string \<Rightarrow> nat \<Rightarrow> control_error + (digest \<times> nat)" where
  "seal_start m rid sealed_len =
     (if sealed_len < mgr_block_len m then Inr (empty_hash_prefix, 0)
      else let idx = sealed_len div mgr_block_len m - 1; table = mgr_block_table m rid
           in if length table \<le> idx then Inl Panic
              else case block_of (table ! idx) (mgr_pool m) of
                None \<Rightarrow> Inl Panic
              | Some b \<Rightarrow> (case assert_sealed b of Inl e \<Rightarrow> Inl e | Inr h \<Rightarrow> Inr (h, idx + 1)))"

definition seal_blocks :: "(8 word list \<Rightarrow> digest) \<Rightarrow> string \<Rightarrow> int list \<Rightarrow> nat \<Rightarrow> (kv_manager, nat) ctl" where
  "seal_blocks sha rid need_seal_tokens sealed_len m =
     (case allocations m rid of
        None \<Rightarrow> cerr Panic m
      | Some _ \<Rightarrow>
          (case seal_start m rid sealed_len of
             Inl e \<Rightarrow> cerr e m
           | Inr (pre, next_idx) \<Rightarrow>
               (let chunks = chunks_exact (mgr_block_len m) need_seal_tokens
                in cbind (seal_loop sha rid pre next_idx chunks) (\<lambda>_. cret (length chunks * mgr_block_len m)) m)))"

definition required_blocks :: "kv_manager \<Rightarrow> nat \<Rightarrow> control_error + nat" where
  "required_blocks m tokens =
     (if tokens = 0 then Inr 0
      else case checked_add tokens (mgr_block_len m - 1) of Inl e \<Rightarrow> Inl e | Inr v \<Rightarrow> Inr (v div mgr_block_len m))"

definition reserve_to :: "string \<Rightarrow> reuse_plan option \<Rightarrow> nat \<Rightarrow> (kv_manager, nat list) ctl" where
  "reserve_to rid plan tokens m =
     (if plan \<noteq> None \<and> allocations m rid \<noteq> None
      then cerr (InvalidReusePlan ''only a new running request can reuse cache'') m
      else case (case plan of None \<Rightarrow> Inr tokens | Some pl \<Rightarrow> if tokens < reused_len pl then Inl Panic else Inr (tokens - reused_len pl)) of
        Inl e \<Rightarrow> cerr e m
      | Inr rest \<Rightarrow>
          (case required_blocks m rest of
             Inl e \<Rightarrow> cerr e m
           | Inr required \<Rightarrow>
               (let current = length (mgr_block_table m rid)
                in cbind (if current < required
                          then cbind (on_pool (reuse_and_reserve (case plan of None \<Rightarrow> [] | Some pl \<Rightarrow> reuse_blocks pl) (required - current) rid))
                                 (\<lambda>delta m. (Inr (), m\<lparr> allocations := (allocations m)(rid \<mapsto>
                                    \<lparr> alloc_request = rid, alloc_blocks = mgr_block_table m rid @ delta \<rparr>) \<rparr>))
                          else cret ())
                     (\<lambda>_ m. case allocations m rid of None \<Rightarrow> cerr Panic m | Some a \<Rightarrow> cret (alloc_blocks a) m) m)))"

definition mgr_release :: "string \<Rightarrow> (kv_manager, unit) ctl" where
  "mgr_release rid m =
     (case allocations m rid of
        None \<Rightarrow> cret () m
      | Some a \<Rightarrow> on_pool (release_blocks (alloc_blocks a)) (m\<lparr> allocations := (allocations m)(rid := None) \<rparr>))"

section \<open>The books\<close>

text \<open>The references the allocations hold.\<close>

definition table_refs :: "kv_allocation option \<Rightarrow> nat multiset" where
  "table_refs a = (case a of None \<Rightarrow> {#} | Some a \<Rightarrow> mset (alloc_blocks a))"

definition refs :: "(string \<rightharpoonup> kv_allocation) \<Rightarrow> nat multiset" where
  "refs al = (\<Sum>rid \<in> dom al. table_refs (al rid))"

lemma refs_split: "finite (dom al) \<Longrightarrow> refs al = table_refs (al rid) + refs (al(rid := None))"
proof (cases "al rid")
  case None
  then have "al(rid := None) = al" by auto
  then show ?thesis by (simp add: table_refs_def None)
next
  case (Some a)
  assume "finite (dom al)"
  moreover have "refs (al(rid := None)) = (\<Sum>r \<in> dom al - {rid}. table_refs (al r))"
    unfolding refs_def by (rule sum.cong) auto
  moreover have "refs al = table_refs (al rid) + (\<Sum>r \<in> dom al - {rid}. table_refs (al r))"
    unfolding refs_def using \<open>finite (dom al)\<close> Some by (intro sum.remove) auto
  ultimately show ?thesis by simp
qed

lemma refs_update: "finite (dom al) \<Longrightarrow> refs (al(rid \<mapsto> a)) = mset (alloc_blocks a) + refs (al(rid := None))"
  using refs_split [of "al(rid \<mapsto> a)" rid] by (simp add: table_refs_def)

lemma refs_empty [simp]: "refs Map.empty = {#}"
  by (simp add: refs_def)

text \<open>The digest of the first \<open>i\<close> chunks.\<close>

primrec chain_hash :: "(8 word list \<Rightarrow> digest) \<Rightarrow> nat \<Rightarrow> int list \<Rightarrow> nat \<Rightarrow> digest" where
  "chain_hash sha bl xs 0 = empty_hash_prefix"
| "chain_hash sha bl xs (Suc i) = hash_tokens sha (take bl (drop (i * bl) xs)) (Some (chain_hash sha bl xs i))"

lemma chain_hash_take: "i * bl \<le> n \<Longrightarrow> chain_hash sha bl (take n xs) i = chain_hash sha bl xs i"
proof (induction i)
  case (Suc i)
  then have "take bl (drop (i * bl) (take n xs)) = take bl (drop (i * bl) xs)" by (simp add: drop_take)
  with Suc show ?case by simp
qed simp

text \<open>
  A request with \<open>c\<close> cached tokens of \<open>ctx\<close>: its table has room for them, its full blocks are sealed under the
  digest of the tokens up to them, and the other blocks are writable.
\<close>

definition table_ok :: "(8 word list \<Rightarrow> digest) \<Rightarrow> nat \<Rightarrow> block_pool \<Rightarrow> nat list \<Rightarrow> int list \<Rightarrow> nat \<Rightarrow> bool" where
  "table_ok sha bl p table ctx c =
     (c \<le> length table * bl \<and>
      (\<forall>i < c div bl. state_at p (table ! i) = Sealed (chain_hash sha bl ctx (Suc i))) \<and>
      (\<forall>i < length table. c div bl \<le> i \<longrightarrow> (\<exists>w. state_at p (table ! i) = Writable w)))"

text \<open>\<open>V\<close> gives the context and the cached length of every request with an allocation. A writable block has
  one user.\<close>

definition mgr_ok :: "(8 word list \<Rightarrow> digest) \<Rightarrow> kv_manager \<Rightarrow> (string \<rightharpoonup> int list \<times> nat) \<Rightarrow> bool" where
  "mgr_ok sha m V =
     (0 < mgr_block_len m \<and> finite (dom V) \<and> dom (allocations m) = dom V \<and> pool_ok (mgr_pool m) (refs (allocations m)) \<and>
      (\<forall>b \<in># refs (allocations m). (\<exists>w. state_at (mgr_pool m) b = Writable w) \<longrightarrow> count (refs (allocations m)) b = 1) \<and>
      (\<forall>rid ctx c. V rid = Some (ctx, c) \<longrightarrow> table_ok sha (mgr_block_len m) (mgr_pool m) (mgr_block_table m rid) ctx c))"

lemma mgr_new_ok: "kv_manager_new n bl = Inr m \<Longrightarrow> mgr_ok sha m Map.empty"
  by (auto simp: kv_manager_new_def mgr_ok_def pool_new_ok split: if_splits)

lemma mgr_okD:
  assumes "mgr_ok sha m V"
  shows "0 < mgr_block_len m" "finite (dom (allocations m))" "dom (allocations m) = dom V" "pool_ok (mgr_pool m) (refs (allocations m))"
    "\<And>b w. b \<in># refs (allocations m) \<Longrightarrow> state_at (mgr_pool m) b = Writable w \<Longrightarrow> count (refs (allocations m)) b = 1"
    "\<And>rid ctx c. V rid = Some (ctx, c) \<Longrightarrow> table_ok sha (mgr_block_len m) (mgr_pool m) (mgr_block_table m rid) ctx c"
  using assms by (auto simp: mgr_ok_def)

lemma mgr_table_refs: "table_refs (allocations m rid) = mset (mgr_block_table m rid)"
  by (simp add: table_refs_def mgr_block_table_def split: option.splits)

lemma mgr_refs_split:
  "mgr_ok sha m V \<Longrightarrow> refs (allocations m) = mset (mgr_block_table m rid) + refs ((allocations m)(rid := None))"
  using refs_split [OF mgr_okD(2)] by (simp add: mgr_table_refs)

lemma table_in_refs: "mgr_ok sha m V \<Longrightarrow> b \<in> set (mgr_block_table m rid) \<Longrightarrow> b \<in># refs (allocations m)"
  using mgr_refs_split [of sha m V rid] by simp

lemma table_other_refs: "mgr_ok sha m V \<Longrightarrow> rid' \<noteq> rid \<Longrightarrow> b \<in> set (mgr_block_table m rid') \<Longrightarrow> b \<in># refs ((allocations m)(rid := None))"
  using refs_split [of "(allocations m)(rid := None)" rid'] mgr_okD(2) [of sha m V] by (simp add: mgr_table_refs)

lemma table_ok_keeps:
  assumes "table_ok sha bl p table ctx c" "pool_keeps K p p'" "\<And>b. b \<in> set table \<Longrightarrow> K b \<and> b < pool_size p" "c div bl \<le> length table"
  shows "table_ok sha bl p' table ctx c"
proof -
  have "state_at p' (table ! i) = state_at p (table ! i)" if "i < length table" for i
    using assms(2) assms(3) [of "table ! i"] that by (simp add: pool_keeps_def)
  with assms(1,4) show ?thesis by (simp add: table_ok_def)
qed

lemma table_ok_div: "table_ok sha bl p table ctx c \<Longrightarrow> 0 < bl \<Longrightarrow> c div bl \<le> length table"
  by (simp add: table_ok_def div_le_mono [THEN order_trans, of c "length table * bl" bl "length table"])

text \<open>Changing the pool and the table of one request.\<close>

lemma mgr_okI:
  assumes ok: "mgr_ok sha m V" and m': "mgr_block_len m' = mgr_block_len m" "finite (dom V')" "dom (allocations m') = dom V'"
    and others: "\<And>r. r \<noteq> rid \<Longrightarrow> allocations m' r = allocations m r \<and> V' r = V r"
    and pool: "pool_ok (mgr_pool m') (refs (allocations m'))"
    and keeps: "pool_keeps K (mgr_pool m) (mgr_pool m')" "\<And>b. b \<in># refs ((allocations m)(rid := None)) \<Longrightarrow> K b"
    and uniq: "\<And>b w. b \<in># refs (allocations m') \<Longrightarrow> state_at (mgr_pool m') b = Writable w \<Longrightarrow> count (refs (allocations m')) b = 1"
    and own: "\<And>ctx c. V' rid = Some (ctx, c) \<Longrightarrow> table_ok sha (mgr_block_len m) (mgr_pool m') (mgr_block_table m' rid) ctx c"
  shows "mgr_ok sha m' V'"
proof -
  note d = mgr_okD [OF ok]
  have "table_ok sha (mgr_block_len m) (mgr_pool m') (mgr_block_table m' r) ctx c" if v: "V' r = Some (ctx, c)" for r ctx c
  proof (cases "r = rid")
    case True
    with own v show ?thesis by simp
  next
    case False
    have t: "mgr_block_table m' r = mgr_block_table m r" using others [OF False] by (simp add: mgr_block_table_def)
    have tk: "table_ok sha (mgr_block_len m) (mgr_pool m) (mgr_block_table m r) ctx c"
      using d(6) v others [OF False] by simp
    show ?thesis unfolding t
      by (rule table_ok_keeps [OF tk keeps(1) _ table_ok_div [OF tk d(1)]])
        (use keeps(2) table_other_refs [OF ok False] table_in_refs [OF ok] pool_okD(3) [OF d(4)] in blast)
  qed
  then show ?thesis using m' d(1) pool uniq by (auto simp: mgr_ok_def)
qed

section \<open>Reuse\<close>

lemma length_chunks_exact [simp]: "length (chunks_exact n xs) = length xs div n"
  by (simp add: chunks_exact_def)

lemma nth_chunks_exact: "i < length xs div n \<Longrightarrow> chunks_exact n xs ! i = take n (drop (i * n) xs)"
  by (simp add: chunks_exact_def ac_simps)

lemma sealed_block_Some: "pool_ok p R \<Longrightarrow> sealed_block h p = Some b \<Longrightarrow> blk_id b < pool_size p \<and> state_at p (blk_id b) = Sealed h"
  using pool_okD(2,6) [of p R] by (auto simp: sealed_block_def block_of_def split: option.splits if_splits)

lemma reuse_scan_ok:
  assumes ok: "pool_ok p R" and pre: "pre = chain_hash sha bl xs k"
    and chunks: "\<And>i. i < length chunks \<Longrightarrow> chunks ! i = take bl (drop ((k + i) * bl) xs)"
    and i: "i < length (reuse_scan sha p pre chunks)"
  shows "reuse_scan sha p pre chunks ! i < pool_size p \<and> state_at p (reuse_scan sha p pre chunks ! i) = Sealed (chain_hash sha bl xs (Suc (k + i)))"
  using pre chunks i
proof (induction chunks arbitrary: pre k i)
  case (Cons chunk chunks)
  have chunk: "chunk = take bl (drop (k * bl) xs)" using Cons.prems(2) [of 0] by simp
  let ?h = "hash_tokens sha chunk (Some pre)"
  have h: "?h = chain_hash sha bl xs (Suc k)" using Cons.prems(1) chunk by simp
  obtain b where b: "sealed_block ?h p = Some b"
    using Cons.prems(3) by (auto simp: Let_def split: option.splits)
  have rest: "chunks ! j = take bl (drop ((Suc k + j) * bl) xs)" if "j < length chunks" for j
    using Cons.prems(2) [of "Suc j"] that by simp
  show ?case
  proof (cases i)
    case 0
    then show ?thesis using b h sealed_block_Some [OF ok b] by (simp add: Let_def)
  next
    case (Suc j)
    then show ?thesis using Cons.IH [OF h rest, of j] Cons.prems(3) b by (simp add: Let_def)
  qed
qed simp

lemma length_reuse_scan: "length (reuse_scan sha p pre chunks) \<le> length chunks"
  by (induction chunks arbitrary: pre) (auto simp: Let_def split: option.splits)

text \<open>What \<open>plan_reuse\<close> returns: blocks sealed under the digests of the prompt's first chunks, which leave at
  least one token to run.\<close>

lemma plan_reuse_ok:
  assumes ok: "mgr_ok sha m V" and plan: "plan_reuse sha prompt m = Some pl" and ne: "prompt \<noteq> []"
  shows "reused_len pl = length (reuse_blocks pl) * mgr_block_len m" "reused_len pl < length prompt" "0 < reused_len pl"
    "\<And>i. i < length (reuse_blocks pl) \<Longrightarrow> reuse_blocks pl ! i < pool_size (mgr_pool m) \<and>
       state_at (mgr_pool m) (reuse_blocks pl ! i) = Sealed (chain_hash sha (mgr_block_len m) prompt (Suc i))"
proof -
  let ?bl = "mgr_block_len m" and ?scan = "reuse_scan sha (mgr_pool m) empty_hash_prefix (chunks_exact (mgr_block_len m) prompt)"
  have bl: "0 < ?bl" by (rule mgr_okD(1) [OF ok])
  have pl: "reuse_blocks pl = take ((length prompt - 1) div ?bl) ?scan" "reused_len pl = length (reuse_blocks pl) * ?bl" "reuse_blocks pl \<noteq> []"
    using plan by (auto simp: plan_reuse_def Let_def split: if_splits)
  show "reused_len pl = length (reuse_blocks pl) * ?bl" by (rule pl(2))
  show "0 < reused_len pl" using pl(2,3) bl by simp
  have "length (reuse_blocks pl) * ?bl \<le> (length prompt - 1) div ?bl * ?bl" unfolding pl(1) by simp
  also have "\<dots> \<le> length prompt - 1" by (rule div_times_less_eq_dividend)
  finally show "reused_len pl < length prompt" using pl(2) ne by (cases prompt) auto
  show "reuse_blocks pl ! i < pool_size (mgr_pool m) \<and> state_at (mgr_pool m) (reuse_blocks pl ! i) = Sealed (chain_hash sha ?bl prompt (Suc i))"
    if "i < length (reuse_blocks pl)" for i
    using reuse_scan_ok [OF mgr_okD(4) [OF ok], of empty_hash_prefix sha ?bl prompt 0 "chunks_exact ?bl prompt" i] that
    by (simp add: pl(1) nth_chunks_exact)
qed

section \<open>Reserving\<close>

text \<open>How many blocks a request needs for \<open>tokens\<close> tokens.\<close>

definition blocks_for :: "nat \<Rightarrow> nat \<Rightarrow> nat" where
  "blocks_for bl tokens = (tokens + (bl - 1)) div bl"

lemma required_blocks_ok: "tokens + mgr_block_len m \<le> word_limit \<Longrightarrow> 0 < mgr_block_len m \<Longrightarrow> required_blocks m tokens = Inr (blocks_for (mgr_block_len m) tokens)"
proof -
  assume "tokens + mgr_block_len m \<le> word_limit" "0 < mgr_block_len m"
  then have "tokens + (mgr_block_len m - 1) < word_limit" by arith
  then show ?thesis using \<open>0 < mgr_block_len m\<close> by (simp add: required_blocks_def checked_add_def blocks_for_def del: One_nat_def)
qed

lemma blocks_for_covers: "0 < bl \<Longrightarrow> tokens \<le> blocks_for bl tokens * bl"
proof -
  assume "0 < bl"
  then have "(tokens + (bl - 1)) mod bl < bl" by simp
  moreover have "blocks_for bl tokens * bl + (tokens + (bl - 1)) mod bl = tokens + (bl - 1)"
    by (simp add: blocks_for_def)
  ultimately show ?thesis by linarith
qed

lemma blocks_for_pos: "0 < bl \<Longrightarrow> 0 < tokens \<Longrightarrow> 0 < blocks_for bl tokens"
  using blocks_for_covers [of bl tokens] by (cases "blocks_for bl tokens") auto

lemma blocks_for_mono: "a \<le> b \<Longrightarrow> blocks_for bl a \<le> blocks_for bl b"
  by (simp add: blocks_for_def div_le_mono)

lemma blocks_for_add: "0 < bl \<Longrightarrow> blocks_for bl (k * bl + t) = k + blocks_for bl t"
proof -
  assume "0 < bl"
  moreover have "k * bl + t + (bl - 1) = (t + (bl - 1)) + k * bl" by simp
  ultimately show ?thesis by (simp only: blocks_for_def div_mult_self1)
qed

text \<open>The part \<open>reserve_to\<close> computes before it touches the pool.\<close>

definition reserve_need :: "kv_manager \<Rightarrow> string \<Rightarrow> reuse_plan option \<Rightarrow> nat \<Rightarrow> nat" where
  "reserve_need m rid plan tokens =
     blocks_for (mgr_block_len m) (tokens - (case plan of None \<Rightarrow> 0 | Some pl \<Rightarrow> reused_len pl)) - length (mgr_block_table m rid)"

lemma reserve_to_unfold:
  assumes bl: "0 < mgr_block_len m" and size: "tokens + mgr_block_len m \<le> word_limit"
    and plan: "plan = None \<or> (\<exists>pl. plan = Some pl \<and> allocations m rid = None \<and> reused_len pl < tokens)"
    and ne: "allocations m rid \<noteq> None \<or> 0 < tokens"
  shows "reserve_to rid plan tokens m =
    (if reserve_need m rid plan tokens = 0 then (Inr (mgr_block_table m rid), m)
     else case reuse_and_reserve (case plan of None \<Rightarrow> [] | Some pl \<Rightarrow> reuse_blocks pl) (reserve_need m rid plan tokens) rid (mgr_pool m) of
       (Inl e, p) \<Rightarrow> (Inl e, m\<lparr> mgr_pool := p \<rparr>)
     | (Inr delta, p) \<Rightarrow> (Inr (mgr_block_table m rid @ delta),
         m\<lparr> mgr_pool := p, allocations := (allocations m)(rid \<mapsto> \<lparr> alloc_request = rid, alloc_blocks = mgr_block_table m rid @ delta \<rparr>) \<rparr>))"
proof -
  let ?rest = "tokens - (case plan of None \<Rightarrow> 0 | Some pl \<Rightarrow> reused_len pl)"
  have guard: "(plan \<noteq> None \<and> allocations m rid \<noteq> None) = False" using plan by auto
  have rest: "(case plan of None \<Rightarrow> Inr tokens | Some pl \<Rightarrow> if tokens < reused_len pl then Inl Panic else Inr (tokens - reused_len pl))
      = (Inr ?rest :: control_error + nat)"
    using plan by auto
  have req: "required_blocks m ?rest = Inr (blocks_for (mgr_block_len m) ?rest)"
    by (rule required_blocks_ok [OF _ bl]) (use size in linarith)
  have some: "allocations m rid \<noteq> None" if "reserve_need m rid plan tokens = 0"
  proof (rule ccontr)
    assume n: "\<not> allocations m rid \<noteq> None"
    then have "0 < ?rest" using ne plan by (auto split: option.splits)
    then have "0 < blocks_for (mgr_block_len m) ?rest" by (rule blocks_for_pos [OF bl])
    then show False using that n by (simp add: reserve_need_def mgr_block_table_def)
  qed
  show ?thesis
  proof (cases "reserve_need m rid plan tokens = 0")
    case True
    with some obtain a where a: "allocations m rid = Some a" by auto
    with guard have "plan = None" by simp
    with a True req show ?thesis
      by (simp add: reserve_to_def Let_def reserve_need_def mgr_block_table_def)
  next
    case False
    then show ?thesis
      unfolding reserve_to_def rest guard
      by (cases "reuse_and_reserve (case plan of None \<Rightarrow> [] | Some pl \<Rightarrow> reuse_blocks pl) (reserve_need m rid plan tokens) rid (mgr_pool m)"; cases "fst (reuse_and_reserve (case plan of None \<Rightarrow> [] | Some pl \<Rightarrow> reuse_blocks pl) (reserve_need m rid plan tokens) rid (mgr_pool m))")
        (simp_all add: req Let_def reserve_need_def cbind_def on_pool_def mgr_block_table_def)
  qed
qed

lemma reserve_to_full:
  assumes "0 < mgr_block_len m" "tokens + mgr_block_len m \<le> word_limit"
    and "plan = None \<or> (\<exists>pl. plan = Some pl \<and> allocations m rid = None \<and> reused_len pl < tokens)"
    and "allocations m rid \<noteq> None \<or> 0 < tokens" and "available (mgr_pool m) < reserve_need m rid plan tokens"
  shows "reserve_to rid plan tokens m = (Inl (InsufficientBlocks (reserve_need m rid plan tokens) (available (mgr_pool m))), m)"
  unfolding reserve_to_unfold [OF assms(1-4)] reuse_and_reserve_full [OF assms(5)] using assms(5) by simp

text \<open>What a successful reservation leaves: \<open>V\<close> gains the request with \<open>c\<close> cached tokens.\<close>

lemma reserve_to_ok:
  assumes ok: "mgr_ok sha m V" and size: "tokens + mgr_block_len m \<le> word_limit"
    and plan: "case plan of None \<Rightarrow> (case V rid of None \<Rightarrow> c = 0 | Some v \<Rightarrow> v = (ctx, c))
      | Some pl \<Rightarrow> V rid = None \<and> c = reused_len pl \<and> reused_len pl = length (reuse_blocks pl) * mgr_block_len m \<and>
          (\<forall>i < length (reuse_blocks pl). reuse_blocks pl ! i < pool_size (mgr_pool m) \<and>
             state_at (mgr_pool m) (reuse_blocks pl ! i) = Sealed (chain_hash sha (mgr_block_len m) ctx (Suc i)))"
    and c: "c < tokens" and room: "reserve_need m rid plan tokens \<le> available (mgr_pool m)"
  shows "\<exists>table m'. reserve_to rid plan tokens m = (Inr table, m') \<and> mgr_ok sha m' (V(rid \<mapsto> (ctx, c))) \<and> mgr_block_table m' rid = table \<and>
    tokens \<le> length table * mgr_block_len m \<and> mgr_block_len m' = mgr_block_len m \<and>
    (\<forall>r. r \<noteq> rid \<longrightarrow> mgr_block_table m' r = mgr_block_table m r) \<and> pool_keeps (\<lambda>b. b \<in># refs (allocations m)) (mgr_pool m) (mgr_pool m') \<and>
    (\<forall>b \<in> set table. b \<in> set (mgr_block_table m rid) \<or> b \<notin># refs (allocations m) \<or> (\<exists>h. state_at (mgr_pool m') b = Sealed h)) \<and>
    (\<exists>ids. table = mgr_block_table m rid @ (case plan of None \<Rightarrow> [] | Some pl \<Rightarrow> reuse_blocks pl) @ ids)"
proof -
  note d = mgr_okD [OF ok]
  let ?bl = "mgr_block_len m" and ?old = "mgr_block_table m rid" and ?need = "reserve_need m rid plan tokens"
  let ?reused = "case plan of None \<Rightarrow> [] | Some pl \<Rightarrow> reuse_blocks pl"
  have al: "allocations m rid = None \<longleftrightarrow> V rid = None" using d(3) by (metis domIff)
  have plan': "plan = None \<or> (\<exists>pl. plan = Some pl \<and> allocations m rid = None \<and> reused_len pl < tokens)"
    using plan al c by (cases plan) auto
  note run = reserve_to_unfold [OF d(1) size plan']
  have old: "plan \<noteq> None \<Longrightarrow> ?old = []" using plan' by (auto simp: mgr_block_table_def)
  have reused: "\<forall>b \<in> set ?reused. b < pool_size (mgr_pool m) \<and> (\<exists>h. state_at (mgr_pool m) b = Sealed h)"
    using plan by (auto simp: in_set_conv_nth split: option.splits)
  have told: "table_ok sha ?bl (mgr_pool m) ?old ctx c" if "plan = None"
    using plan that d(6) [of rid ctx c] al by (auto simp: table_ok_def mgr_block_table_def split: option.splits)
  show ?thesis
  proof (cases "?need = 0")
    case True
    have nonempty: "plan = None"
    proof (rule ccontr)
      assume "plan \<noteq> None"
      then have "0 < tokens - (case plan of None \<Rightarrow> 0 | Some pl \<Rightarrow> reused_len pl)" "?old = []" using plan' old by auto
      then show False using True blocks_for_pos [OF d(1), of "tokens - (case plan of None \<Rightarrow> 0 | Some pl \<Rightarrow> reused_len pl)"]
        by (simp add: reserve_need_def)
    qed
    have V: "V rid = Some (ctx, c)"
    proof (rule ccontr)
      assume "V rid \<noteq> Some (ctx, c)"
      then have "allocations m rid = None" using plan nonempty al by (auto split: option.splits)
      then have "?old = []" by (simp add: mgr_block_table_def)
      then show False using True nonempty blocks_for_pos [OF d(1), of tokens] c by (simp add: reserve_need_def)
    qed
    then have "V(rid \<mapsto> (ctx, c)) = V" by auto
    moreover have "tokens \<le> length ?old * ?bl"
    proof -
      have "blocks_for ?bl tokens \<le> length ?old" using True nonempty by (simp add: reserve_need_def)
      then have "blocks_for ?bl tokens * ?bl \<le> length ?old * ?bl" by (rule mult_le_mono1)
      with blocks_for_covers [OF d(1), of tokens] show ?thesis by linarith
    qed
    ultimately show ?thesis using run True ok c nonempty by (intro exI [of _ ?old] exI [of _ m]) simp
  next
    case False
    obtain ids p where r: "reuse_and_reserve ?reused ?need rid (mgr_pool m) = (Inr (?reused @ ids), p)" "length ids = ?need" "distinct ids"
      "\<forall>i \<in> set ids. i \<notin># refs (allocations m) \<and> i < pool_size (mgr_pool m)" "pool_ok p (refs (allocations m) + mset (?reused @ ids))"
      "pool_keeps (\<lambda>i. i \<in># refs (allocations m)) (mgr_pool m) p" "\<forall>i \<in> set ids. state_at p i = Writable (Some rid)"
      using reuse_and_reserve_ok [OF d(4) reused room, of rid] by blast
    let ?table = "?old @ ?reused @ ids"
    let ?m = "m\<lparr> mgr_pool := p, allocations := (allocations m)(rid \<mapsto> \<lparr> alloc_request = rid, alloc_blocks = ?table \<rparr>) \<rparr>"
    have run': "reserve_to rid plan tokens m = (Inr ?table, ?m)" using run c False r(1) by simp
    have R: "refs (allocations ?m) = refs (allocations m) + mset (?reused @ ids)"
      using mgr_refs_split [OF ok, of rid] refs_update [OF d(2), of rid "\<lparr> alloc_request = rid, alloc_blocks = ?table \<rparr>"] by simp
    have keep: "state_at p b = state_at (mgr_pool m) b" if "b \<in># refs (allocations m)" for b
      using r(6) that pool_okD(3) [OF d(4)] by (simp add: pool_keeps_def)
    have sealed: "state_at p b = state_at (mgr_pool m) b" "b \<in># refs (allocations m)" if "b \<in> set ?reused" for b
      using reused that sealed_in_use [OF d(4)] keep by blast+
    have tokens: "tokens \<le> length ?table * ?bl"
    proof (cases plan)
      case None
      have "blocks_for ?bl tokens = length ?table" using r(2) False None by (simp add: reserve_need_def)
      with blocks_for_covers [OF d(1), of tokens] show ?thesis by simp
    next
      case (Some pl)
      have "blocks_for ?bl (tokens - reused_len pl) = length ids" using r(2) old Some by (simp add: reserve_need_def)
      then have "tokens - reused_len pl \<le> length ids * ?bl" using blocks_for_covers [OF d(1), of "tokens - reused_len pl"] by simp
      then show ?thesis using plan Some old by (simp add: add_mult_distrib)
    qed
    have full: "table_ok sha ?bl p ?table ctx c"
    proof (cases plan)
      case None
      have le: "c div ?bl \<le> length ?old" using told None table_ok_div [OF _ d(1)] by blast
      have "table_ok sha ?bl p ?old ctx c"
        by (rule table_ok_keeps [OF told [OF None] r(6) _ le]) (use table_in_refs [OF ok] pool_okD(3) [OF d(4)] in blast)
      then show ?thesis using le c tokens r(7) None
        by (auto simp: table_ok_def nth_append)
    next
      case (Some pl)
      have "c div ?bl = length (reuse_blocks pl)" "?old = []" using plan Some d(1) old by simp_all
      then show ?thesis using plan Some c tokens r(7) sealed by (auto simp: table_ok_def nth_append)
    qed
    have disj: "b \<notin> set ids" if "b \<in># refs (allocations m) + mset ?reused" for b
      using that r(4) sealed(2) by auto
    have ok': "mgr_ok sha ?m (V(rid \<mapsto> (ctx, c)))"
    proof (rule mgr_okI [OF ok, where rid = rid and K = "\<lambda>i. i \<in># refs (allocations m)"])
      show "pool_ok (mgr_pool ?m) (refs (allocations ?m))" unfolding R using r(5) by simp
      show "pool_keeps (\<lambda>i. i \<in># refs (allocations m)) (mgr_pool m) (mgr_pool ?m)" using r(6) by simp
      show "count (refs (allocations ?m)) b = 1" if b: "b \<in># refs (allocations ?m)" "state_at (mgr_pool ?m) b = Writable w" for b w
      proof (cases "b \<in> set ids")
        case True
        then have "b \<notin># refs (allocations m)" "b \<notin># mset ?reused" using r(4) sealed(2) unfolding set_mset_mset by blast+
        then have "count (refs (allocations m)) b = 0" "count (mset ?reused) b = 0" unfolding not_in_iff by blast+
        moreover have "count (mset ids) b = 1" using True r(3) by (simp add: distinct_count_atmost_1 count_mset)
        ultimately show ?thesis unfolding R by simp
      next
        case nin: False
        have "b \<notin> set ?reused"
        proof
          assume re: "b \<in> set ?reused"
          then obtain h where "state_at (mgr_pool m) b = Sealed h" using reused by blast
          then have "state_at p b = Sealed h" using sealed(1) [OF re] by simp
          moreover have "state_at p b = Writable w" using b(2) by simp
          ultimately show False by simp
        qed
        moreover have "b \<in># refs (allocations m) \<or> b \<in> set ?reused \<or> b \<in> set ids"
          using b(1) unfolding R mset_append union_iff set_mset_mset by blast
        ultimately have "b \<in># refs (allocations m)" "b \<notin># mset (?reused @ ids)"
          using nin unfolding set_mset_mset set_append by blast+
        then have "b \<in># refs (allocations m)" "count (mset (?reused @ ids)) b = 0" unfolding not_in_iff by blast+
        moreover then have "state_at (mgr_pool m) b = Writable w" using keep b(2) by simp
        ultimately show ?thesis unfolding R using d(5) by simp
      qed
      show "dom (allocations ?m) = dom (V(rid \<mapsto> (ctx, c)))" using d(3) by simp
      show "finite (dom (V(rid \<mapsto> (ctx, c))))" using d(2,3) by simp
      show "table_ok sha ?bl (mgr_pool ?m) (mgr_block_table ?m rid) cx cc" if "(V(rid \<mapsto> (ctx, c))) rid = Some (cx, cc)" for cx cc
        using full that by (simp add: mgr_block_table_def)
      show "b \<in># refs (allocations m)" if "b \<in># refs ((allocations m)(rid := None))" for b
        using mgr_refs_split [OF ok, of rid] that by simp
    qed simp_all
    have "\<forall>b \<in> set ?table. b \<in> set ?old \<or> b \<notin># refs (allocations m) \<or> (\<exists>h. state_at p b = Sealed h)"
    proof
      fix b assume "b \<in> set ?table"
      then consider "b \<in> set ?old" | "b \<in> set ?reused" | "b \<in> set ids" unfolding set_append by blast
      then show "b \<in> set ?old \<or> b \<notin># refs (allocations m) \<or> (\<exists>h. state_at p b = Sealed h)"
      proof cases
        case 2
        then show ?thesis using reused sealed(1) [OF 2] by metis
      qed (use r(4) in blast)+
    qed
    then show ?thesis using run' ok' tokens r(6)
      by (intro exI [of _ ?table] exI [of _ ?m]) (simp add: mgr_block_table_def)
  qed
qed

section \<open>Releasing\<close>

lemma mgr_release_ok:
  assumes ok: "mgr_ok sha m V"
  shows "\<exists>m'. mgr_release rid m = (Inr (), m') \<and> mgr_ok sha m' (V(rid := None)) \<and> mgr_block_len m' = mgr_block_len m \<and>
    pool_size (mgr_pool m') = pool_size (mgr_pool m) \<and> (\<forall>r. r \<noteq> rid \<longrightarrow> mgr_block_table m' r = mgr_block_table m r)"
proof -
  note d = mgr_okD [OF ok]
  show ?thesis
  proof (cases "allocations m rid")
    case None
    then have "V(rid := None) = V" using d(3) by (metis domIff fun_upd_idem)
    with ok None show ?thesis by (simp add: mgr_release_def)
  next
    case (Some a)
    let ?al = "(allocations m)(rid := None)"
    have R: "refs (allocations m) = mset (alloc_blocks a) + refs ?al"
      using mgr_refs_split [OF ok, of rid] Some by (simp add: mgr_block_table_def)
    then have diff: "refs (allocations m) - mset (alloc_blocks a) = refs ?al" by simp
    obtain p where p: "release_blocks (alloc_blocks a) (mgr_pool m) = (Inr (), p)" "pool_ok p (refs ?al)" "pool_keeps (\<lambda>b. b \<in># refs ?al) (mgr_pool m) p"
      using release_blocks_ok [OF d(4), of "alloc_blocks a"] unfolding diff R by auto
    let ?m = "m\<lparr> mgr_pool := p, allocations := ?al \<rparr>"
    have "mgr_release rid m = (Inr (), ?m)" using p(1) Some by (simp add: mgr_release_def on_pool_def)
    moreover have "mgr_ok sha ?m (V(rid := None))"
    proof (rule mgr_okI [OF ok, where rid = rid and K = "\<lambda>b. b \<in># refs ?al"])
      show "count (refs (allocations ?m)) b = 1" if b: "b \<in># refs (allocations ?m)" "state_at (mgr_pool ?m) b = Writable w" for b w
      proof -
        have "b \<in># refs (allocations m)" "b \<in># refs ?al" using b(1) R by simp_all
        moreover then have "state_at (mgr_pool m) b = Writable w" using b(2) p(3) pool_okD(3) [OF d(4)] by (simp add: pool_keeps_def)
        ultimately have "count (mset (alloc_blocks a)) b + count (refs ?al) b = 1" using d(5) R by (metis count_union)
        moreover have "0 < count (refs ?al) b" using b(1) by simp
        ultimately have "count (refs ?al) b = 1" by linarith
        then show ?thesis by simp
      qed
    qed (use d p in \<open>auto\<close>)
    moreover have "pool_size p = pool_size (mgr_pool m)" using p(3) by (simp add: pool_keeps_def)
    ultimately show ?thesis by (auto simp: mgr_block_table_def)
  qed
qed

section \<open>Sealing\<close>

lemma table_ok_sealed:
  "table_ok sha bl p table ctx c \<Longrightarrow> i < c div bl \<Longrightarrow> state_at p (table ! i) = Sealed (chain_hash sha bl ctx (Suc i))"
  by (simp add: table_ok_def)

lemma count_once_index:
  assumes "count (mset xs) x = 1" "k < length xs" "xs ! k = x" "i < length xs" "i \<noteq> k"
  shows "xs ! i \<noteq> x"
proof
  assume "xs ! i = x"
  with assms have "{i, k} \<subseteq> {j. j < length xs \<and> x = xs ! j}" by auto
  then have "card {i, k} \<le> card {j. j < length xs \<and> x = xs ! j}" by (intro card_mono) auto
  moreover have "count (mset xs) x = card {j. j < length xs \<and> x = xs ! j}"
    by (simp add: count_mset count_list_eq_length_filter length_filter_conv_card)
  ultimately show False using assms(1,5) by simp
qed

lemma seal_chunk_ok:
  assumes ok: "mgr_ok sha m (V(rid \<mapsto> (ctx, k * mgr_block_len m)))" and k: "k < length (mgr_block_table m rid)"
    and chunk: "chunk = take (mgr_block_len m) (drop (k * mgr_block_len m) ctx)"
  shows "\<exists>m'. seal_chunk sha rid (chain_hash sha (mgr_block_len m) ctx k) k chunk m = (Inr (chain_hash sha (mgr_block_len m) ctx (Suc k)), m') \<and>
    mgr_ok sha m' (V(rid \<mapsto> (ctx, Suc k * mgr_block_len m))) \<and> mgr_block_len m' = mgr_block_len m \<and>
    length (mgr_block_table m' rid) = length (mgr_block_table m rid) \<and> (\<forall>r. r \<noteq> rid \<longrightarrow> mgr_block_table m' r = mgr_block_table m r) \<and>
    (\<forall>i. i \<noteq> k \<longrightarrow> mgr_block_table m' rid ! i = mgr_block_table m rid ! i) \<and>
    (mgr_block_table m' rid ! k = mgr_block_table m rid ! k \<or>
       state_at (mgr_pool m) (mgr_block_table m' rid ! k) = Sealed (chain_hash sha (mgr_block_len m) ctx (Suc k))) \<and>
    pool_keeps (\<lambda>b. b \<in># refs (allocations m) \<and> b \<noteq> mgr_block_table m rid ! k) (mgr_pool m) (mgr_pool m')"
proof -
  let ?V = "V(rid \<mapsto> (ctx, k * mgr_block_len m))" and ?V' = "V(rid \<mapsto> (ctx, Suc k * mgr_block_len m))"
  note d = mgr_okD [OF ok]
  let ?bl = "mgr_block_len m" and ?p = "mgr_pool m" and ?table = "mgr_block_table m rid"
  let ?b = "?table ! k" and ?h = "chain_hash sha ?bl ctx (Suc k)" and ?al = "(allocations m)(rid := None)"
  have t: "table_ok sha ?bl ?p ?table ctx (k * ?bl)" using d(6) [of rid] by simp
  have b: "?b \<in># refs (allocations m)" "?b < pool_size ?p" using table_in_refs [OF ok nth_mem [OF k]] pool_okD(3) [OF d(4)] by blast+
  obtain w where w: "state_at ?p ?b = Writable w" using t k d(1) by (auto simp: table_ok_def)
  have one: "count (refs (allocations m)) ?b = 1" by (rule d(5) [OF b(1) w])
  obtain a where a: "allocations m rid = Some a" "alloc_blocks a = ?table" using k by (auto simp: mgr_block_table_def split: option.splits)
  have R: "refs (allocations m) = mset ?table + refs ?al" by (rule mgr_refs_split [OF ok])
  have "0 < count (mset ?table) ?b" using k by (simp only: count_greater_zero_iff set_mset_mset nth_mem)
  then have "count (mset ?table) ?b = 1" "count (refs ?al) ?b = 0" using one unfolding R count_union by linarith+
  then have others: "?b \<notin># refs ?al" and apart: "\<And>i. i < length ?table \<Longrightarrow> i \<noteq> k \<Longrightarrow> ?table ! i \<noteq> ?b"
    using count_once_index [of ?table ?b k] k by (simp_all only: not_in_iff) blast
  have sealed_low: "state_at ?p (?table ! i) = Sealed (chain_hash sha ?bl ctx (Suc i))" if "i < k" for i
    using t that d(1) by (simp add: table_ok_def)
  have writable_high: "\<exists>w. state_at ?p (?table ! i) = Writable w" if "i < length ?table" "k \<le> i" for i
    using t that d(1) by (simp add: table_ok_def)
  have in_pool: "?table ! i < pool_size ?p" "?table ! i \<in># refs (allocations m)" if "i < length ?table" for i
    using table_in_refs [OF ok nth_mem [OF that]] pool_okD(3) [OF d(4)] by blast+
  have h: "hash_tokens sha chunk (Some (chain_hash sha ?bl ctx k)) = ?h" by (simp add: chunk)
  have room: "Suc k * ?bl \<le> length ?table * ?bl" using k by (intro mult_le_mono1) simp
  from seal_block_ok [OF d(4) b(1) w, of ?h] show ?thesis
  proof (elim disjE exE conjE)
    fix p assume p: "seal_block ?b ?h ?p = (Inr (Published ?b), p)" "pool_ok p (refs (allocations m))" "pool_keeps (\<lambda>j. j \<noteq> ?b) ?p p" "state_at p ?b = Sealed ?h"
    let ?m = "m\<lparr> mgr_pool := p \<rparr>"
    have same: "state_at p j = state_at ?p j" if "j < pool_size ?p" "j \<noteq> ?b" for j using p(3) that by (simp add: pool_keeps_def)
    have run: "seal_chunk sha rid (chain_hash sha ?bl ctx k) k chunk m = (Inr ?h, ?m)"
      unfolding seal_chunk_def h Let_def using k p(1) by (simp add: cbind_def on_pool_def)
    have ok': "mgr_ok sha ?m ?V'"
    proof (rule mgr_okI [OF ok, where rid = rid and K = "\<lambda>j. j \<noteq> ?b"])
      show "count (refs (allocations ?m)) j = 1" if "j \<in># refs (allocations ?m)" "state_at (mgr_pool ?m) j = Writable u" for j u
        using that same [of j] p(4) d(5) pool_okD(3) [OF d(4)] by (cases "j = ?b") auto
      show "table_ok sha ?bl (mgr_pool ?m) (mgr_block_table ?m rid) cx c" if "?V' rid = Some (cx, c)" for cx c
      proof -
        have "state_at p (?table ! i) = Sealed (chain_hash sha ?bl ctx (Suc i))" if "i < Suc k" for i
          using that sealed_low [of i] same [of "?table ! i"] in_pool(1) [of i] apart [of i] p(4) k by (cases "i = k") auto
        moreover have "\<exists>w. state_at p (?table ! i) = Writable w" if "i < length ?table" "Suc k \<le> i" for i
          using that writable_high [of i] same [of "?table ! i"] in_pool(1) [of i] apart [of i] by simp
        ultimately show ?thesis using that room d(1) by (auto simp: table_ok_def mgr_block_table_def)
      qed
    qed (use d p others in auto)
    have "pool_keeps (\<lambda>b. b \<in># refs (allocations m) \<and> b \<noteq> ?b) ?p p" using p(3) by (simp add: pool_keeps_def)
    then show ?thesis using run ok' by (intro exI [of _ ?m]) (simp add: mgr_block_table_def)
  next
    fix j assume j: "seal_block ?b ?h ?p = (Inr (Existing j), ?p)" "j \<noteq> ?b" "j < pool_size ?p" "state_at ?p j = Sealed ?h"
    obtain p1 where p1: "retain_shared [j] ?p = (Inr (), p1)" "pool_ok p1 (refs (allocations m) + {#j#})" "pool_keeps (\<lambda>_. True) ?p p1"
      using retain_shared_ok [OF d(4), of "[j]"] j by auto
    let ?t = "?table[k := j]"
    let ?al' = "(allocations m)(rid \<mapsto> a\<lparr> alloc_blocks := ?t \<rparr>)"
    obtain N where N: "mset ?table = add_mset ?b N" using k by (metis nth_mem set_mset_mset multi_member_split)
    then have "mset ?t = N + {#j#}" using k by (simp add: mset_update)
    then have R': "refs ?al' = refs (allocations m) + {#j#} - {#?b#}"
      using refs_update [OF d(2), of rid "a\<lparr> alloc_blocks := ?t \<rparr>"] unfolding R N by simp
    obtain p2 where p2: "release_blocks [?b] p1 = (Inr (), p2)" "pool_ok p2 (refs ?al')" "pool_keeps (\<lambda>b. b \<in># refs ?al') p1 p2"
      using release_blocks_ok [OF p1(2), of "[?b]"] b(1) unfolding R' by auto
    let ?m = "m\<lparr> mgr_pool := p2, allocations := ?al' \<rparr>"
    have table': "mgr_block_table ?m rid = ?t" by (simp add: mgr_block_table_def)
    have run: "seal_chunk sha rid (chain_hash sha ?bl ctx k) k chunk m = (Inr ?h, ?m)"
      unfolding seal_chunk_def h Let_def using k j(1) p1(1) p2(1) a by (simp add: cbind_def on_pool_def set_table_entry_def)
    have size: "pool_size p1 = pool_size ?p" using p1(3) by (simp add: pool_keeps_def)
    have st: "state_at p2 i = state_at ?p i" if "i \<in># refs ?al'" "i < pool_size ?p" for i
      using p1(3) p2(3) that by (simp add: pool_keeps_def)
    have in': "?t ! i \<in># refs ?al'" if "i < length ?table" for i
      using refs_update [OF d(2), of rid "a\<lparr> alloc_blocks := ?t \<rparr>"] that nth_mem [of i ?t] by simp
    have keep: "i \<in># refs ?al'" if "i \<in># refs (allocations m)" "i \<noteq> ?b" for i
      using that unfolding R' by (auto simp: in_diff_count)
    have low': "state_at p2 (?t ! i) = Sealed (chain_hash sha ?bl ctx (Suc i))" if "i < Suc k" for i
      using that k sealed_low [of i] st [of "?t ! i"] in' [of i] in_pool(1) [of i] j(3,4) by (cases "i = k") auto
    have high': "\<exists>w. state_at p2 (?t ! i) = Writable w" if "i < length ?table" "Suc k \<le> i" for i
      using that writable_high [of i] st [of "?t ! i"] in' [of i] in_pool(1) [of i] by simp
    have ok': "mgr_ok sha ?m ?V'"
    proof (rule mgr_okI [OF ok, where rid = rid and K = "\<lambda>i. i \<in># refs ?al'"])
      show "pool_keeps (\<lambda>i. i \<in># refs ?al') (mgr_pool m) (mgr_pool ?m)" using st size p2(3) by (simp add: pool_keeps_def)
      show "i \<in># refs ?al'" if "i \<in># refs ?al" for i using refs_update [OF d(2), of rid "a\<lparr> alloc_blocks := ?t \<rparr>"] that by simp
      show "count (refs (allocations ?m)) i = 1" if "i \<in># refs (allocations ?m)" "state_at (mgr_pool ?m) i = Writable u" for i u
      proof -
        have i: "i \<in># refs ?al'" "i < pool_size ?p" using that(1) pool_okD(3) [OF p2(2)] size p2(3) by (simp_all add: pool_keeps_def)
        then have wi: "state_at ?p i = Writable u" using st that(2) by simp
        then have nj: "i \<noteq> j" using j(4) by auto
        then have ri: "i \<in># refs (allocations m)" using i(1) unfolding R' by (auto dest: in_diffD)
        have "count (refs ?al') i \<le> count (refs (allocations m)) i" unfolding R' using nj by simp
        moreover have "0 < count (refs ?al') i" using i(1) by (simp only: count_greater_zero_iff)
        ultimately have "count (refs ?al') i = 1" using d(5) [OF ri wi] by linarith
        then show ?thesis by simp
      qed
      show "table_ok sha ?bl (mgr_pool ?m) (mgr_block_table ?m rid) cx c" if "?V' rid = Some (cx, c)" for cx c
        unfolding table' using that room d(1) low' high' by (auto simp: table_ok_def)
      show "dom (allocations ?m) = dom ?V'" using d(3) by auto
      show "finite (dom ?V')" using d(2,3) by simp
    qed (use p2 in auto)
    have "pool_keeps (\<lambda>b. b \<in># refs (allocations m) \<and> b \<noteq> ?b) ?p p2"
      using st keep size p2(3) by (simp add: pool_keeps_def)
    then show ?thesis using run ok' j(4) k by (intro exI [of _ ?m]) (simp add: mgr_block_table_def)
  qed
qed

text \<open>The tokens are sealed when \<open>apply_result\<close> has advanced the request: \<open>ctx\<close> is the context after, \<open>c\<close> the
  cached length before and \<open>c'\<close> after.\<close>

lemma seal_loop_ok:
  assumes "mgr_ok sha m (V(rid \<mapsto> (ctx, k * mgr_block_len m)))" "k + n \<le> length (mgr_block_table m rid)"
    and "chunks = map (\<lambda>i. take (mgr_block_len m) (drop (i * mgr_block_len m) ctx)) [k..<k + n]"
    and "Q m"
    and e: "k + n = e"
    and step: "\<And>m m' i. mgr_ok sha m (V(rid \<mapsto> (ctx, i * mgr_block_len m))) \<Longrightarrow> i < length (mgr_block_table m rid) \<Longrightarrow> i < e \<Longrightarrow>
      Q m \<Longrightarrow>
      seal_chunk sha rid (chain_hash sha (mgr_block_len m) ctx i) i (take (mgr_block_len m) (drop (i * mgr_block_len m) ctx)) m
        = (Inr (chain_hash sha (mgr_block_len m) ctx (Suc i)), m') \<Longrightarrow> Q m'"
  shows "\<exists>m'. seal_loop sha rid (chain_hash sha (mgr_block_len m) ctx k) k chunks m = (Inr (), m') \<and>
    mgr_ok sha m' (V(rid \<mapsto> (ctx, (k + n) * mgr_block_len m))) \<and> mgr_block_len m' = mgr_block_len m \<and>
    length (mgr_block_table m' rid) = length (mgr_block_table m rid) \<and> (\<forall>r. r \<noteq> rid \<longrightarrow> mgr_block_table m' r = mgr_block_table m r) \<and>
    pool_size (mgr_pool m') = pool_size (mgr_pool m) \<and> (\<forall>i. \<not> (k \<le> i \<and> i < k + n) \<longrightarrow> mgr_block_table m' rid ! i = mgr_block_table m rid ! i) \<and>
    Q m'"
  using assms(1-5)
proof (induction n arbitrary: k chunks m)
  case 0
  then have "chunks = []" by simp
  with "0.prems"(1,4) show ?case by simp
next
  case (Suc n)
  let ?bl = "mgr_block_len m"
  let ?c = "\<lambda>i. take ?bl (drop (i * ?bl) ctx)"
  have chunks: "chunks = ?c k # map ?c [Suc k..<Suc k + n]" using Suc.prems(3) by (simp add: upt_conv_Cons del: upt_Suc)
  have k: "k < length (mgr_block_table m rid)" using Suc.prems(2) by simp
  obtain m1 where m1: "seal_chunk sha rid (chain_hash sha ?bl ctx k) k (?c k) m = (Inr (chain_hash sha ?bl ctx (Suc k)), m1)"
    "mgr_ok sha m1 (V(rid \<mapsto> (ctx, Suc k * ?bl)))" "mgr_block_len m1 = ?bl" "length (mgr_block_table m1 rid) = length (mgr_block_table m rid)"
    "\<forall>r. r \<noteq> rid \<longrightarrow> mgr_block_table m1 r = mgr_block_table m r" "\<forall>i. i \<noteq> k \<longrightarrow> mgr_block_table m1 rid ! i = mgr_block_table m rid ! i"
    "pool_keeps (\<lambda>b. b \<in># refs (allocations m) \<and> b \<noteq> mgr_block_table m rid ! k) (mgr_pool m) (mgr_pool m1)"
    using seal_chunk_ok [OF Suc.prems(1) k refl] by blast
  have q: "Q m1" by (rule step [OF Suc.prems(1) k _ Suc.prems(4) m1(1)]) (use Suc.prems(5) in simp)
  have p1: "mgr_ok sha m1 (V(rid \<mapsto> (ctx, Suc k * mgr_block_len m1)))" and p4: "Q m1"
    using m1(2) q unfolding m1(3) by simp_all
  have p2: "Suc k + n \<le> length (mgr_block_table m1 rid)" and p5: "Suc k + n = e" using Suc.prems(2,5) m1(4) by simp_all
  obtain m2 where m2: "seal_loop sha rid (chain_hash sha ?bl ctx (Suc k)) (Suc k) (map ?c [Suc k..<Suc k + n]) m1 = (Inr (), m2)"
    "mgr_ok sha m2 (V(rid \<mapsto> (ctx, (Suc k + n) * ?bl)))" "mgr_block_len m2 = ?bl" "length (mgr_block_table m2 rid) = length (mgr_block_table m1 rid)"
    "\<forall>r. r \<noteq> rid \<longrightarrow> mgr_block_table m2 r = mgr_block_table m1 r" "pool_size (mgr_pool m2) = pool_size (mgr_pool m1)"
    "\<forall>i. \<not> (Suc k \<le> i \<and> i < Suc k + n) \<longrightarrow> mgr_block_table m2 rid ! i = mgr_block_table m1 rid ! i" "Q m2"
    using Suc.IH [OF p1 p2 refl p4 p5] unfolding m1(3) by blast
  have "pool_size (mgr_pool m1) = pool_size (mgr_pool m)" using m1(7) by (simp add: pool_keeps_def)
  then have size: "pool_size (mgr_pool m2) = pool_size (mgr_pool m)" using m2(6) by simp
  have run: "seal_loop sha rid (chain_hash sha ?bl ctx k) k chunks m = (Inr (), m2)"
    unfolding chunks seal_loop.simps cbind_def m1(1) by (simp only: prod.case sum.case m2(1) Suc_eq_plus1 [symmetric])
  have shift: "k + Suc n = Suc k + n" by simp
  have same: "\<forall>i. \<not> (k \<le> i \<and> i < Suc k + n) \<longrightarrow> mgr_block_table m2 rid ! i = mgr_block_table m rid ! i" using m2(7) m1(6) by auto
  have others: "\<forall>r. r \<noteq> rid \<longrightarrow> mgr_block_table m2 r = mgr_block_table m r" using m2(5) m1(5) by simp
  have len: "length (mgr_block_table m2 rid) = length (mgr_block_table m rid)" using m2(4) m1(4) by simp
  show ?case unfolding shift using run m2(2,3,8) len others size same by blast
qed

lemma seal_start_ok:
  assumes ok: "mgr_ok sha m V" and v: "V rid = Some (ctx, c)"
  shows "seal_start m rid (c div mgr_block_len m * mgr_block_len m) = Inr (chain_hash sha (mgr_block_len m) ctx (c div mgr_block_len m), c div mgr_block_len m)"
proof -
  note d = mgr_okD [OF ok]
  let ?bl = "mgr_block_len m" and ?k = "c div mgr_block_len m" and ?table = "mgr_block_table m rid"
  have t: "table_ok sha ?bl (mgr_pool m) ?table ctx c" by (rule d(6) [OF v])
  show ?thesis
  proof (cases "?k = 0")
    case True
    then show ?thesis using d(1) by (simp add: seal_start_def)
  next
    case False
    then obtain i where i: "?k = Suc i" by (cases ?k) auto
    have len: "i < length ?table" using table_ok_div [OF t d(1)] i by simp
    have "state_at (mgr_pool m) (?table ! i) = Sealed (chain_hash sha ?bl ctx (Suc i))" using table_ok_sealed [OF t] i by simp
    moreover have "?table ! i < pool_size (mgr_pool m)" using table_in_refs [OF ok nth_mem [OF len]] pool_okD(3) [OF d(4)] by blast
    moreover have "\<not> ?k * ?bl < ?bl" using i by simp
    ultimately show ?thesis using len d(1)
      by (simp add: seal_start_def Let_def i block_of_def assert_sealed_def state_at_def)
  qed
qed

lemma mgr_ok_weaken:
  assumes ok: "mgr_ok sha m (V(rid \<mapsto> (ctx, c)))" and c: "c' div mgr_block_len m = c div mgr_block_len m" "c' \<le> length (mgr_block_table m rid) * mgr_block_len m"
    and ctx: "take (c div mgr_block_len m * mgr_block_len m) ctx' = take (c div mgr_block_len m * mgr_block_len m) ctx"
  shows "mgr_ok sha m (V(rid \<mapsto> (ctx', c')))"
proof (rule mgr_okI [OF ok, where rid = rid and K = "\<lambda>_. True"])
  let ?bl = "mgr_block_len m"
  note d = mgr_okD [OF ok]
  have "chain_hash sha ?bl ctx' (Suc i) = chain_hash sha ?bl ctx (Suc i)" if "i < c div ?bl" for i
  proof -
    have "Suc i * ?bl \<le> c div ?bl * ?bl" using that by (intro mult_le_mono1) simp
    then show ?thesis using chain_hash_take [of "Suc i" ?bl "c div ?bl * ?bl" sha ctx] chain_hash_take [of "Suc i" ?bl "c div ?bl * ?bl" sha ctx'] ctx by metis
  qed
  then show "table_ok sha ?bl (mgr_pool m) (mgr_block_table m rid) cx cc" if "(V(rid \<mapsto> (ctx', c'))) rid = Some (cx, cc)" for cx cc
    using that c d(6) [of rid ctx c] by (auto simp: table_ok_def)
  show "dom (allocations m) = dom (V(rid \<mapsto> (ctx', c')))" "finite (dom (V(rid \<mapsto> (ctx', c'))))" using d(2,3) by auto
qed (use mgr_okD [OF ok] in auto)

lemma chunks_exact_slice:
  assumes "0 < bl" "k' * bl \<le> length ctx"
  shows "chunks_exact bl (drop (k * bl) (take (k' * bl) ctx)) = map (\<lambda>i. take bl (drop (i * bl) ctx)) [k..<k']"
proof (rule nth_equalityI)
  have len: "length (drop (k * bl) (take (k' * bl) ctx)) = (k' - k) * bl" using assms(2) by (simp add: diff_mult_distrib)
  then show l: "length (chunks_exact bl (drop (k * bl) (take (k' * bl) ctx))) = length (map (\<lambda>i. take bl (drop (i * bl) ctx)) [k..<k'])"
    using assms(1) by (simp del: length_drop)
  fix i assume "i < length (chunks_exact bl (drop (k * bl) (take (k' * bl) ctx)))"
  then have i: "i < k' - k" using l by simp
  then have "Suc (k + i) * bl \<le> k' * bl" by (intro mult_le_mono1) simp
  then have fit: "bl + (k + i) * bl \<le> k' * bl" by simp
  have "chunks_exact bl (drop (k * bl) (take (k' * bl) ctx)) ! i = take bl (drop (i * bl) (drop (k * bl) (take (k' * bl) ctx)))"
    by (rule nth_chunks_exact) (use len assms(1) i in \<open>simp del: length_drop\<close>)
  also have "\<dots> = take bl (drop ((k + i) * bl) (take (k' * bl) ctx))" by (simp add: algebra_simps)
  also have "\<dots> = take bl (drop ((k + i) * bl) ctx)" using fit by (simp add: drop_take min_def)
  finally show "chunks_exact bl (drop (k * bl) (take (k' * bl) ctx)) ! i = map (\<lambda>i. take bl (drop (i * bl) ctx)) [k..<k'] ! i"
    using i by simp
qed

text \<open>What the slots of a table hold: \<open>G s xs\<close> says that slot \<open>s\<close> holds the data of the last token of \<open>xs\<close>.\<close>

definition content_ok :: "nat \<Rightarrow> (nat \<Rightarrow> int list \<Rightarrow> bool) \<Rightarrow> nat list \<Rightarrow> int list \<Rightarrow> nat \<Rightarrow> bool" where
  "content_ok bl G table ctx c = (\<forall>p < c. G (table ! (p div bl) * bl + p mod bl) (take (Suc p) ctx))"

text \<open>SHA-256 has no collision among the chunk prefixes of the contexts in \<open>P\<close>.\<close>

definition collision_free :: "(8 word list \<Rightarrow> digest) \<Rightarrow> nat \<Rightarrow> (int list \<Rightarrow> bool) \<Rightarrow> bool" where
  "collision_free sha bl P =
     (\<forall>xs ys i j. P xs \<longrightarrow> P ys \<longrightarrow> i * bl \<le> length xs \<longrightarrow> j * bl \<le> length ys \<longrightarrow>
        chain_hash sha bl xs i = chain_hash sha bl ys j \<longrightarrow> i = j \<and> take (i * bl) xs = take (i * bl) ys)"

definition contents_ok :: "kv_manager \<Rightarrow> (nat \<Rightarrow> int list \<Rightarrow> bool) \<Rightarrow> (string \<rightharpoonup> int list \<times> nat) \<Rightarrow> bool" where
  "contents_ok m G V = (\<forall>rid ctx c. V rid = Some (ctx, c) \<longrightarrow> content_ok (mgr_block_len m) G (mgr_block_table m rid) ctx c)"

text \<open>A sealed block holds what its digest says.\<close>

lemma sealed_content:
  assumes ok: "mgr_ok sha m V" and content: "contents_ok m G V" and cf: "collision_free sha (mgr_block_len m) P"
    and P: "\<forall>r cx cc. V r = Some (cx, cc) \<longrightarrow> P cx \<and> cc \<le> length cx" "P ctx"
    and b: "b < pool_size (mgr_pool m)" "state_at (mgr_pool m) b = Sealed (chain_hash sha (mgr_block_len m) ctx (Suc k))"
    and k: "Suc k * mgr_block_len m \<le> length ctx" and p: "p div mgr_block_len m = k"
  shows "G (b * mgr_block_len m + p mod mgr_block_len m) (take (Suc p) ctx) \<and>
    (\<exists>r cx cc. V r = Some (cx, cc) \<and> Suc k * mgr_block_len m \<le> cc)"
proof -
  note d = mgr_okD [OF ok]
  let ?bl = "mgr_block_len m"
  have "b \<in># refs (allocations m)" by (rule sealed_in_use [OF d(4) b])
  then obtain r where r: "r \<in> dom (allocations m)" "b \<in># table_refs (allocations m r)"
    by (auto simp: refs_def dest: in_Union_mset_iff [THEN iffD1] simp: set_mset_sum [OF d(2)])
  then obtain i where i: "i < length (mgr_block_table m r)" "mgr_block_table m r ! i = b"
    by (auto simp: mgr_table_refs in_set_conv_nth)
  obtain cx cc where v: "V r = Some (cx, cc)" using r(1) d(3) by auto
  note t = d(6) [OF v]
  have low: "i < cc div ?bl"
  proof (rule ccontr)
    assume "\<not> i < cc div ?bl"
    then obtain w where "state_at (mgr_pool m) b = Writable w" using t i by (auto simp: table_ok_def)
    then show False using b(2) by simp
  qed
  then have "chain_hash sha ?bl cx (Suc i) = chain_hash sha ?bl ctx (Suc k)" using table_ok_sealed [OF t low] i(2) b(2) by (simp del: chain_hash.simps)
  moreover have sc: "Suc i * ?bl \<le> cc"
  proof -
    have "Suc i * ?bl \<le> cc div ?bl * ?bl" using low by (intro mult_le_mono1) simp
    also have "\<dots> \<le> cc" by (rule div_times_less_eq_dividend)
    finally show ?thesis .
  qed
  ultimately have same: "Suc i = Suc k \<and> take (Suc i * ?bl) cx = take (Suc i * ?bl) ctx"
    using cf P(1) [rule_format, OF v] P(2) k unfolding collision_free_def by (meson order_trans)
  have "p < Suc k * ?bl" using p d(1) by (metis dividend_less_times_div mult.commute mult_Suc_right)
  then have "p < cc" using sc same by simp
  then have "G (b * ?bl + p mod ?bl) (take (Suc p) cx)"
    using content v i(2) p same by (auto simp: contents_ok_def content_ok_def)
  moreover have "take (Suc p) cx = take (Suc p) ctx"
    using same \<open>p < Suc k * ?bl\<close> by (metis Suc_leI min.absorb1 take_take)
  ultimately show ?thesis using v sc same by auto
qed

lemma seal_blocks_ok:
  assumes ok: "mgr_ok sha m V" and v: "V rid = Some (ctx, c)"
    and c: "c \<le> c'" "c' \<le> length (mgr_block_table m rid) * mgr_block_len m" "c' \<le> length ctx'" "c \<le> length ctx" "take c ctx' = take c ctx"
  shows "\<exists>n m'. seal_blocks sha rid (drop (c div mgr_block_len m * mgr_block_len m) (take (c' div mgr_block_len m * mgr_block_len m) ctx'))
        (c div mgr_block_len m * mgr_block_len m) m = (Inr n, m') \<and> mgr_ok sha m' (V(rid \<mapsto> (ctx', c'))) \<and> mgr_block_len m' = mgr_block_len m \<and>
      length (mgr_block_table m' rid) = length (mgr_block_table m rid) \<and> (\<forall>r. r \<noteq> rid \<longrightarrow> mgr_block_table m' r = mgr_block_table m r) \<and>
      pool_size (mgr_pool m') = pool_size (mgr_pool m) \<and>
      (collision_free sha (mgr_block_len m) P \<longrightarrow> (\<forall>r cx cc. (V(rid \<mapsto> (ctx', c'))) r = Some (cx, cc) \<longrightarrow> P cx \<and> cc \<le> length cx) \<longrightarrow>
         contents_ok m G (V(rid \<mapsto> (ctx', c'))) \<longrightarrow> contents_ok m' G (V(rid \<mapsto> (ctx', c'))))"
proof -
  note d = mgr_okD [OF ok]
  let ?bl = "mgr_block_len m" and ?W = "V(rid \<mapsto> (ctx', c'))" and ?table = "mgr_block_table m rid"
  let ?k = "c div ?bl" and ?k' = "c' div ?bl"
  let ?good = "collision_free sha ?bl P \<and> (\<forall>r cx cc. ?W r = Some (cx, cc) \<longrightarrow> P cx \<and> cc \<le> length cx) \<and> contents_ok m G ?W"
  let ?Q = "\<lambda>m1. mgr_block_len m1 = ?bl \<and> (?good \<longrightarrow> contents_ok m1 G ?W)"
  have k: "?k \<le> ?k'" using c(1) by (rule div_le_mono)
  have k': "?k' \<le> length ?table" using c(2) d(1) by (metis div_le_mono div_mult_self_is_m)
  have kl: "?k' * ?bl \<le> c'" by (rule div_times_less_eq_dividend)
  have kc: "?k * ?bl \<le> c" by (rule div_times_less_eq_dividend)
  have pre: "take (?k * ?bl) ctx' = take (?k * ?bl) ctx" using c(5) kc by (metis min.absorb1 take_take)
  have V: "V = V(rid \<mapsto> (ctx, c))" using v by auto
  have ok': "mgr_ok sha m (V(rid \<mapsto> (ctx, c)))" unfolding V [symmetric] by (rule ok)
  have start: "mgr_ok sha m (V(rid \<mapsto> (ctx', ?k * ?bl)))"
    by (rule mgr_ok_weaken [OF ok']) (use d(1) pre order_trans [OF kc order_trans [OF c(1,2)]] in simp_all)
  let ?sealing = "\<lambda>m i m'. seal_chunk sha rid (chain_hash sha (mgr_block_len m) ctx' i) i (take (mgr_block_len m) (drop (i * mgr_block_len m) ctx')) m
      = (Inr (chain_hash sha (mgr_block_len m) ctx' (Suc i)), m')"
  have step: "?Q m2" if m1: "mgr_ok sha m1 (V(rid \<mapsto> (ctx', i * mgr_block_len m1)))" and i: "i < length (mgr_block_table m1 rid)" "i < ?k'"
    and q: "?Q m1" and run: "?sealing m1 i m2" for m1 m2 i
  proof -
    have bl: "mgr_block_len m1 = ?bl" using q by simp
    obtain m3 where m3: "?sealing m1 i m3" "mgr_ok sha m3 (V(rid \<mapsto> (ctx', Suc i * mgr_block_len m1)))" "mgr_block_len m3 = mgr_block_len m1"
      "length (mgr_block_table m3 rid) = length (mgr_block_table m1 rid)" "\<forall>r. r \<noteq> rid \<longrightarrow> mgr_block_table m3 r = mgr_block_table m1 r"
      "\<forall>j. j \<noteq> i \<longrightarrow> mgr_block_table m3 rid ! j = mgr_block_table m1 rid ! j"
      "mgr_block_table m3 rid ! i = mgr_block_table m1 rid ! i \<or>
       state_at (mgr_pool m1) (mgr_block_table m3 rid ! i) = Sealed (chain_hash sha (mgr_block_len m1) ctx' (Suc i))"
      "pool_keeps (\<lambda>b. b \<in># refs (allocations m1) \<and> b \<noteq> mgr_block_table m1 rid ! i) (mgr_pool m1) (mgr_pool m3)"
      using seal_chunk_ok [OF m1 i(1) refl] by blast
    have eq: "m3 = m2" using trans [OF m3(1) [symmetric] run] by (simp only: prod.inject)
    have "contents_ok m2 G ?W" if g: ?good
    proof -
      have con: "contents_ok m1 G ?W" using q g by blast
      have fit: "Suc i * ?bl \<le> c'" using i(2) kl by (meson Suc_leI le_trans mult_le_mono1)
      have low: "contents_ok m1 G (V(rid \<mapsto> (ctx', i * mgr_block_len m1)))"
        using con fit bl by (auto simp: contents_ok_def content_ok_def)
      have P: "P cx \<and> cc \<le> length cx" if "(V(rid \<mapsto> (ctx', i * mgr_block_len m1))) r = Some (cx, cc)" for r cx cc
      proof (cases "r = rid")
        case True
        then have "cx = ctx'" "cc = i * ?bl" using that bl by auto
        moreover have "i * ?bl \<le> Suc i * ?bl" by simp
        ultimately show ?thesis using g fit c(3) by (metis fun_upd_same order_trans)
      next
        case False
        then show ?thesis using that g by (metis fun_upd_other)
      qed
      have "G (mgr_block_table m3 rid ! (p div ?bl) * ?bl + p mod ?bl) (take (Suc p) ctx')" if p: "p < c'" for p
      proof (cases "p div ?bl = i \<and> mgr_block_table m3 rid ! i \<noteq> mgr_block_table m1 rid ! i")
        case False
        then have "mgr_block_table m3 rid ! (p div ?bl) = mgr_block_table m1 rid ! (p div ?bl)" using m3(6) by metis
        then show ?thesis using con p bl by (auto simp: contents_ok_def content_ok_def)
      next
        case True
        let ?b = "mgr_block_table m3 rid ! i"
        have "?b \<in># refs (allocations m3)" by (rule table_in_refs [OF m3(2) nth_mem]) (use m3(4) i(1) in simp)
        then have "?b < pool_size (mgr_pool m1)" using pool_okD(3) [OF mgr_okD(4) [OF m3(2)]] m3(8) by (simp add: pool_keeps_def)
        moreover have "state_at (mgr_pool m1) ?b = Sealed (chain_hash sha (mgr_block_len m1) ctx' (Suc i))" using m3(7) True by blast
        moreover have "Suc i * mgr_block_len m1 \<le> length ctx'" "collision_free sha (mgr_block_len m1) P" "p div mgr_block_len m1 = i"
          using fit c(3) g True unfolding bl by auto
        moreover have "P ctx'" using g by (metis fun_upd_same)
        ultimately have "G (?b * mgr_block_len m1 + p mod mgr_block_len m1) (take (Suc p) ctx')"
          using sealed_content [where ctx = ctx' and b = ?b and k = i and p = p and P = P, OF m1 low] P by blast
        then show ?thesis using True bl by simp
      qed
      moreover have "content_ok ?bl G (mgr_block_table m3 r) cx cc" if "r \<noteq> rid" "V r = Some (cx, cc)" for r cx cc
        using con that m3(5) bl by (auto simp: contents_ok_def)
      ultimately show ?thesis unfolding eq [symmetric] using m3(3) bl by (auto simp: contents_ok_def content_ok_def)
    qed
    then show ?thesis using m3(3) bl eq by simp
  qed
  let ?chunks = "map (\<lambda>i. take ?bl (drop (i * ?bl) ctx')) [?k..<?k + (?k' - ?k)]"
  have e: "?k + (?k' - ?k) = ?k'" using k by simp
  have q0: "?Q m" by simp
  have len: "?k + (?k' - ?k) \<le> length ?table" using k' e by simp
  obtain m' where m': "seal_loop sha rid (chain_hash sha ?bl ctx' ?k) ?k ?chunks m = (Inr (), m')"
    "mgr_ok sha m' (V(rid \<mapsto> (ctx', (?k + (?k' - ?k)) * ?bl)))" "mgr_block_len m' = ?bl" "length (mgr_block_table m' rid) = length ?table"
    "\<forall>r. r \<noteq> rid \<longrightarrow> mgr_block_table m' r = mgr_block_table m r" "pool_size (mgr_pool m') = pool_size (mgr_pool m)"
    "?Q m'"
    using seal_loop_ok [where Q = ?Q, OF start len refl q0 e] step by blast
  have chunks: "chunks_exact ?bl (drop (?k * ?bl) (take (?k' * ?bl) ctx')) = ?chunks"
    unfolding e by (rule chunks_exact_slice [OF d(1) order_trans [OF kl c(3)]])
  have hash: "chain_hash sha ?bl ctx ?k = chain_hash sha ?bl ctx' ?k"
    using chain_hash_take [of ?k ?bl "?k * ?bl" sha ctx] chain_hash_take [of ?k ?bl "?k * ?bl" sha ctx'] pre by simp
  have "allocations m rid \<noteq> None" using d(3) v by auto
  then have "\<exists>n. seal_blocks sha rid (drop (?k * ?bl) (take (?k' * ?bl) ctx')) (?k * ?bl) m = (Inr n, m')"
    using m'(1) by (auto simp: seal_blocks_def seal_start_ok [OF ok v] chunks hash Let_def cbind_def)
  moreover have "mgr_ok sha m' (V(rid \<mapsto> (ctx', c')))"
    by (rule mgr_ok_weaken [OF m'(2)]) (use m'(3,4) e c(2) d(1) in simp_all)
  ultimately show ?thesis using m'(3-7) by blast
qed

text \<open>A reservation keeps the contents; the blocks a new request reuses hold its prompt.\<close>

lemma reserve_contents:
  assumes ok: "mgr_ok sha m V" and content: "contents_ok m G V" and cf: "collision_free sha (mgr_block_len m) P"
    and P: "\<forall>r cx cc. V r = Some (cx, cc) \<longrightarrow> P cx \<and> cc \<le> length cx" "P ctx" "c \<le> length ctx"
    and plan: "case plan of None \<Rightarrow> (case V rid of None \<Rightarrow> c = 0 | Some v \<Rightarrow> v = (ctx, c))
      | Some pl \<Rightarrow> V rid = None \<and> c = reused_len pl \<and> reused_len pl = length (reuse_blocks pl) * mgr_block_len m \<and>
          (\<forall>i < length (reuse_blocks pl). reuse_blocks pl ! i < pool_size (mgr_pool m) \<and>
             state_at (mgr_pool m) (reuse_blocks pl ! i) = Sealed (chain_hash sha (mgr_block_len m) ctx (Suc i)))"
    and m': "mgr_block_len m' = mgr_block_len m" "\<forall>r. r \<noteq> rid \<longrightarrow> mgr_block_table m' r = mgr_block_table m r"
      "mgr_block_table m' rid = mgr_block_table m rid @ (case plan of None \<Rightarrow> [] | Some pl \<Rightarrow> reuse_blocks pl) @ ids"
  shows "contents_ok m' G (V(rid \<mapsto> (ctx, c)))"
proof -
  note d = mgr_okD [OF ok]
  let ?bl = "mgr_block_len m"
  have "content_ok ?bl G (mgr_block_table m' rid) ctx c"
  proof (cases plan)
    case None
    show ?thesis
    proof (cases "V rid")
      case None
      then show ?thesis using plan \<open>plan = None\<close> by (simp add: content_ok_def)
    next
      case (Some v)
      then have v: "V rid = Some (ctx, c)" using plan \<open>plan = None\<close> by simp
      have "p div ?bl < length (mgr_block_table m rid)" if "p < c" for p
        using d(6) [OF v] that by (simp add: table_ok_def less_mult_imp_div_less)
      moreover have "content_ok ?bl G (mgr_block_table m rid) ctx c" using content v by (simp add: contents_ok_def)
      ultimately show ?thesis using \<open>plan = None\<close> m'(3) by (simp add: content_ok_def nth_append)
    qed
  next
    case (Some pl)
    then have pl: "V rid = None" "c = length (reuse_blocks pl) * ?bl" "\<forall>i < length (reuse_blocks pl). reuse_blocks pl ! i < pool_size (mgr_pool m) \<and>
        state_at (mgr_pool m) (reuse_blocks pl ! i) = Sealed (chain_hash sha ?bl ctx (Suc i))" using plan by auto
    have "allocations m rid = None" using d(3) pl(1) by (metis domIff)
    then have "mgr_block_table m rid = []" by (simp add: mgr_block_table_def)
    then have table: "mgr_block_table m' rid = reuse_blocks pl @ ids" using m'(3) Some by simp
    have "G (mgr_block_table m' rid ! (p div ?bl) * ?bl + p mod ?bl) (take (Suc p) ctx)" if "p < c" for p
    proof -
      let ?k = "p div ?bl"
      have k: "?k < length (reuse_blocks pl)" using that pl(2) by (simp add: less_mult_imp_div_less)
      then have "Suc ?k * ?bl \<le> length (reuse_blocks pl) * ?bl" by (intro mult_le_mono1) simp
      then have fit: "Suc ?k * ?bl \<le> length ctx" using pl(2) P(3) by linarith
      show ?thesis using sealed_content [OF ok content cf P(1,2) _ _ fit refl, of "reuse_blocks pl ! ?k"] pl(3) k table
        by (simp add: nth_append del: chain_hash.simps)
    qed
    then show ?thesis by (simp add: content_ok_def)
  qed
  moreover have "content_ok ?bl G (mgr_block_table m' r) cx cc" if "r \<noteq> rid" "V r = Some (cx, cc)" for r cx cc
    using content that m'(2) by (simp add: contents_ok_def)
  ultimately show ?thesis using m'(1) by (auto simp: contents_ok_def)
qed

end
