(* ===== verification/Scheduler.thy ===== *)
theory Scheduler
  imports KvCache
begin

text \<open>
  The scheduler of the control plane (\<open>scheduler.rs\<close>): submission and cancellation, the choice of a batch under
  a token budget with preemption, and what a result or a failure of the batch does to its requests.
\<close>

section \<open>State\<close>

record scheduler_config =
  max_batch_len :: nat
  max_prefill_chunk_len :: nat

record scheduler =
  sched_config :: scheduler_config
  sched_policy :: policy
  sched_cache :: kv_manager
  sched_requests :: "string \<rightharpoonup> request"
  waiting_ids :: "string list"
  running_ids :: "string list"
  next_arrival :: nat
  next_step :: nat
  outstanding :: "batch_plan option"

definition scheduler_new :: "scheduler_config \<Rightarrow> policy \<Rightarrow> kv_manager \<Rightarrow> control_error + scheduler" where
  "scheduler_new config pol m =
     (if max_batch_len config = 0 \<or> max_prefill_chunk_len config = 0
      then Inl (InvalidConfig ''batch and prefill limits must be positive'')
      else Inr \<lparr> sched_config = config, sched_policy = pol, sched_cache = m, sched_requests = Map.empty, waiting_ids = [],
                 running_ids = [], next_arrival = 0, next_step = 0, outstanding = None \<rparr>)"

text \<open>Operations on a part of the scheduler. \<open>get_mut\<close> of a request that does not exist is an error or, under
  \<open>expect\<close>, a panic.\<close>

definition on_cache :: "(kv_manager, 'a) ctl \<Rightarrow> (scheduler, 'a) ctl" where
  "on_cache f s = (case f (sched_cache s) of (r, m) \<Rightarrow> (r, s\<lparr> sched_cache := m \<rparr>))"

definition on_request :: "control_error \<Rightarrow> string \<Rightarrow> (request, 'a) ctl \<Rightarrow> (scheduler, 'a) ctl" where
  "on_request missing rid f s =
     (case sched_requests s rid of
        None \<Rightarrow> cerr missing s
      | Some r \<Rightarrow> (case f r of (x, r') \<Rightarrow> (x, s\<lparr> sched_requests := (sched_requests s)(rid \<mapsto> r') \<rparr>)))"

definition modify :: "('s \<Rightarrow> 's) \<Rightarrow> ('s, unit) ctl" where
  "modify f s = (Inr (), f s)"

definition drop_running :: "string \<Rightarrow> scheduler \<Rightarrow> scheduler" where
  "drop_running rid s = s\<lparr> running_ids := filter (\<lambda>c. c \<noteq> rid) (running_ids s) \<rparr>"

section \<open>Submission and cancellation\<close>

definition submit :: "request_spec \<Rightarrow> (scheduler, unit) ctl" where
  "submit spec s =
     (if sched_requests s (spec_id spec) \<noteq> None then cerr (DuplicateRequest (spec_id spec)) s
      else case request_create spec (next_arrival s) of
        Inl e \<Rightarrow> cerr e s
      | Inr r \<Rightarrow>
          (case checked_add (next_arrival s) 1 of
             Inl e \<Rightarrow> cerr e s
           | Inr n \<Rightarrow> cret () (s\<lparr> next_arrival := n, sched_requests := (sched_requests s)(spec_id spec \<mapsto> r),
                                   waiting_ids := waiting_ids s @ [spec_id spec] \<rparr>)))"

definition batch_contains :: "string \<Rightarrow> scheduler \<Rightarrow> bool" where
  "batch_contains rid s =
     (case outstanding s of None \<Rightarrow> False | Some batch \<Rightarrow> list_ex (\<lambda>item. request_id item = rid) (requests batch))"

definition cancel :: "string \<Rightarrow> (scheduler, unit) ctl" where
  "cancel rid s =
     (if sched_requests s rid = None then cerr (UnknownRequest rid) s
      else if batch_contains rid s then cerr (RequestInFlight rid) s
      else cbind (on_request Panic rid rq_cancel) (\<lambda>_.
           cbind (modify (\<lambda>s. (drop_running rid s)\<lparr> waiting_ids := filter (\<lambda>c. c \<noteq> rid) (waiting_ids s) \<rparr>)) (\<lambda>_.
           on_cache (mgr_release rid))) s)"

section \<open>Order and preemption\<close>

definition work_type_of :: "request \<Rightarrow> work_type" where
  "work_type_of r = (if work_is_decode r then Decode else Prefill)"

definition policy_request_of :: "request \<Rightarrow> policy_request" where
  "policy_request_of r = \<lparr> pol_id = rq_id r, pol_arrival = arrival_index r, pol_state = rq_state r, pol_work = work_type_of r \<rparr>"

definition is_running :: "scheduler \<Rightarrow> string \<Rightarrow> bool" where
  "is_running s rid = (case sched_requests s rid of None \<Rightarrow> False | Some r \<Rightarrow> rq_state r = Running)"

definition ordered_running_ids :: "scheduler \<Rightarrow> string list" where
  "ordered_running_ids s =
     sort_by (\<lambda>l r. sched_policy s (policy_request_of (the (sched_requests s l))) (policy_request_of (the (sched_requests s r))))
       (filter (is_running s) (running_ids s))"

definition victim_id :: "string set \<Rightarrow> scheduler \<Rightarrow> string option" where
  "victim_id protected s =
     (let ids = filter (\<lambda>rid. rid \<notin> protected) (ordered_running_ids s) in if ids = [] then None else Some (last ids))"

definition preempt_id :: "string \<Rightarrow> (scheduler, unit) ctl" where
  "preempt_id rid = cbind (on_request (UnknownRequest rid) rid preempt) (\<lambda>_.
     cbind (modify (\<lambda>s. (drop_running rid s)\<lparr> waiting_ids := rid # waiting_ids s \<rparr>)) (\<lambda>_. on_cache (mgr_release rid)))"

definition fail_id :: "string \<Rightarrow> string \<Rightarrow> (scheduler, unit) ctl" where
  "fail_id rid message = cbind (on_request (UnknownRequest rid) rid (rq_fail message)) (\<lambda>_.
     cbind (modify (drop_running rid)) (\<lambda>_. on_cache (mgr_release rid)))"

section \<open>Scheduling\<close>

definition prepare_schedule_context :: "request \<Rightarrow> reuse_plan option \<Rightarrow> nat \<times> int list \<times> work_type" where
  "prepare_schedule_context r plan =
     (case plan of
        Some pl \<Rightarrow> (reused_len pl, context_token_ids r, Prefill)
      | None \<Rightarrow> (cached_len r, context_token_ids r, work_type_of r))"

definition schedule_one :: "string \<Rightarrow> reuse_plan option \<Rightarrow> nat \<Rightarrow> (scheduler, (scheduled_request \<times> nat) option) ctl" where
  "schedule_one rid plan remaining s =
     (case sched_requests s rid of
        None \<Rightarrow> cerr (UnknownRequest rid) s
      | Some r \<Rightarrow>
          (let (start, context, work) = prepare_schedule_context r plan;
               pending = (if work = Prefill then length context - start else 1);
               scheduled_len = (if work = Prefill then min (min (max_prefill_chunk_len (sched_config s)) pending) remaining
                                else min 1 remaining)
           in if scheduled_len = 0 then cret None s
              else case checked_add start scheduled_len of
                Inl _ \<Rightarrow> cerr (InvalidExecutionResult ''decode request has no input token'') s
              | Inr required \<Rightarrow>
                  (if length context < required
                   then cerr (InvalidExecutionResult ''decode request has no input token'') s
                   else cbind (on_cache (reserve_to rid plan required)) (\<lambda>table.
                     let need = (scheduled_len = pending)
                     in cret (Some (\<lparr> request_id = rid, input_token_ids = take scheduled_len (drop start context), req_work_type = work,
                           start_position = start, block_table = map int table, need_sample = need,
                           req_sampling_plan = (if need then Some \<lparr> sp_params = rq_params r, sample_index = rq_sample_index r \<rparr> else None) \<rparr>,
                         scheduled_len))) s)))"

definition oom_message :: "string \<Rightarrow> string" where
  "oom_message rid = ''Insufficient memory to fulfill request '' @ rid"

text \<open>The loop ends: a preemption shortens \<open>running_ids\<close>.\<close>

lemma on_cache_running [simp]: "running_ids (snd (on_cache f s)) = running_ids s" "waiting_ids (snd (on_cache f s)) = waiting_ids s"
  by (simp_all add: on_cache_def split: prod.splits)

lemma on_request_running [simp]: "running_ids (snd (on_request e rid f s)) = running_ids s"
  by (simp add: on_request_def split: prod.splits option.splits)

lemma preempt_id_running:
  "preempt_id rid s = (Inr (), s') \<Longrightarrow> running_ids s' = filter (\<lambda>c. c \<noteq> rid) (running_ids s)"
proof -
  assume run: "preempt_id rid s = (Inr (), s')"
  then obtain s1 where s1: "on_request (UnknownRequest rid) rid preempt s = (Inr (), s1)"
    by (auto simp: preempt_id_def cbind_def split: prod.splits sum.splits)
  then have "running_ids s1 = running_ids s" using on_request_running by (metis snd_conv)
  moreover have "on_cache (mgr_release rid) ((drop_running rid s1)\<lparr> waiting_ids := rid # waiting_ids s1 \<rparr>) = (Inr (), s')"
    using run s1 by (simp add: preempt_id_def cbind_def modify_def)
  ultimately show ?thesis using on_cache_running(1) [of "mgr_release rid" "(drop_running rid s1)\<lparr> waiting_ids := rid # waiting_ids s1 \<rparr>"]
    by (simp add: drop_running_def)
qed

lemma schedule_one_ids:
  "running_ids (snd (schedule_one rid plan remaining s)) = running_ids s" "waiting_ids (snd (schedule_one rid plan remaining s)) = waiting_ids s"
proof -
  have "running_ids (snd (cbind (on_cache f) (\<lambda>x. cret (g x)) s)) = running_ids s \<and> waiting_ids (snd (cbind (on_cache f) (\<lambda>x. cret (g x)) s)) = waiting_ids s"
    for f :: "(kv_manager, nat list) ctl" and g :: "nat list \<Rightarrow> (scheduled_request \<times> nat) option"
    by (auto simp: cbind_def on_cache_def split: prod.splits sum.splits)
  then show "running_ids (snd (schedule_one rid plan remaining s)) = running_ids s" "waiting_ids (snd (schedule_one rid plan remaining s)) = waiting_ids s"
    by (auto simp: schedule_one_def Let_def split: option.splits prod.splits sum.splits)
qed

lemma victim_in_running: "victim_id protected s = Some v \<Longrightarrow> v \<in> set (running_ids s) \<and> v \<notin> protected \<and> is_running s v"
proof -
  let ?ids = "filter (\<lambda>rid. rid \<notin> protected) (ordered_running_ids s)"
  assume "victim_id protected s = Some v"
  then have "?ids \<noteq> []" "v = last ?ids" by (auto simp: victim_id_def Let_def split: if_splits)
  then have "v \<in> set ?ids" using last_in_set by metis
  then show ?thesis by (simp add: ordered_running_ids_def)
qed

lemma preemption_shrinks:
  assumes "schedule_one rid plan remaining s = (x, s1)" "victim_id protected s1 = Some v" "preempt_id v s1 = (Inr u, s2)"
  shows "length (running_ids s2) < length (running_ids s)"
proof -
  have "running_ids s1 = running_ids s" using schedule_one_ids(1) [of rid plan remaining s] assms(1) by simp
  moreover have "v \<in> set (running_ids s1)" using victim_in_running [OF assms(2)] by blast
  moreover have "running_ids s2 = filter (\<lambda>c. c \<noteq> v) (running_ids s1)" using preempt_id_running assms(3) by simp
  ultimately show ?thesis using length_filter_less [of v "running_ids s" "\<lambda>c. c \<noteq> v"] by simp
qed

function try_schedule_running ::
    "string \<Rightarrow> nat \<Rightarrow> string set \<Rightarrow> scheduled_request list \<Rightarrow> (scheduler, nat \<times> scheduled_request list) ctl" where
  "try_schedule_running rid remaining protected selected s =
     (case schedule_one rid None remaining s of
        (Inr (Some (item, used)), s1) \<Rightarrow> (Inr (used, selected @ [item]), s1)
      | (Inr None, s1) \<Rightarrow> (Inr (0, selected), s1)
      | (Inl (InsufficientBlocks a b), s1) \<Rightarrow>
          (case victim_id protected s1 of
             None \<Rightarrow> cbind (fail_id rid (oom_message rid)) (\<lambda>_. cret (0, selected)) s1
           | Some victim \<Rightarrow>
               (if victim = rid then cbind (fail_id rid (oom_message rid)) (\<lambda>_. cret (0, selected)) s1
                else case preempt_id victim s1 of
                  (Inl e, s2) \<Rightarrow> (Inl e, s2)
                | (Inr _, s2) \<Rightarrow> try_schedule_running rid remaining protected selected s2))
      | (Inl e, s1) \<Rightarrow> (Inl e, s1))"
  by pat_completeness auto

termination
  by (relation "measure (\<lambda>(rid, remaining, protected, selected, s). length (running_ids s))") (auto dest!: sym [of "(_, _)"] intro: preemption_shrinks)

text \<open>The loop over the running requests; \<open>break\<close> at an exhausted budget is the same as skipping the rest.\<close>

primrec schedule_running ::
    "string list \<Rightarrow> nat \<Rightarrow> string set \<Rightarrow> scheduled_request list \<Rightarrow> (scheduler, nat \<times> string set \<times> scheduled_request list) ctl" where
  "schedule_running [] remaining protected selected = cret (remaining, protected, selected)"
| "schedule_running (rid # ids) remaining protected selected = (\<lambda>s.
     if remaining = 0 then cret (remaining, protected, selected) s
     else if \<not> is_running s rid then schedule_running ids remaining protected selected s
     else cbind (try_schedule_running rid remaining protected selected) (\<lambda>(used, selected').
       if used \<noteq> 0 then schedule_running ids (remaining - used) (insert rid protected) selected'
       else schedule_running ids remaining protected selected') s)"

text \<open>What follows a successful \<open>schedule_one\<close> of the request at the front of the queue.\<close>

definition admit_front :: "string \<Rightarrow> nat \<Rightarrow> (scheduler, unit) ctl" where
  "admit_front rid reused =
     cbind (modify (\<lambda>s. s\<lparr> waiting_ids := tl (waiting_ids s) \<rparr>)) (\<lambda>_.
     cbind (on_request Panic rid admit) (\<lambda>_.
     cbind (if reused \<noteq> 0 then on_request Panic rid (reuse reused) else cret ()) (\<lambda>_.
     modify (\<lambda>s. s\<lparr> running_ids := running_ids s @ [rid] \<rparr>))))"

lemma admit_front_waiting: "admit_front rid reused s = (Inr (), s') \<Longrightarrow> waiting_ids s' = tl (waiting_ids s)"
  by (auto simp: admit_front_def cbind_def modify_def on_request_def split: prod.splits sum.splits option.splits if_splits)

lemma admission_shrinks:
  assumes "(x, s1) = schedule_one rid plan remaining s" "(Inr u, s2) = admit_front rid reused s1" "waiting_ids s = w # ws"
  shows "length (waiting_ids s2) < length (w # ws)"
proof -
  have "waiting_ids s1 = waiting_ids s" using schedule_one_ids(2) [of rid plan remaining s] arg_cong [OF assms(1), of snd] by simp
  moreover have "waiting_ids s2 = tl (waiting_ids s1)" by (rule admit_front_waiting [of rid reused]) (simp flip: assms(2))
  ultimately show ?thesis by (simp add: assms(3))
qed

function schedule_waiting ::
    "(8 word list \<Rightarrow> digest) \<Rightarrow> nat \<Rightarrow> scheduled_request list \<Rightarrow> (scheduler, scheduled_request list) ctl" where
  "schedule_waiting sha remaining selected s =
     (if remaining = 0 then cret selected s
      else case waiting_ids s of
        [] \<Rightarrow> cret selected s
      | rid # rest \<Rightarrow>
          (case sched_requests s rid of
             None \<Rightarrow> schedule_waiting sha remaining selected (s\<lparr> waiting_ids := rest \<rparr>)
           | Some r \<Rightarrow>
               (if rq_state r \<noteq> Waiting then schedule_waiting sha remaining selected (s\<lparr> waiting_ids := rest \<rparr>)
                else let plan = plan_reuse sha (prompt_token_ids r) (sched_cache s);
                         reused = (case plan of Some pl \<Rightarrow> reused_len pl | None \<Rightarrow> 0)
                     in case schedule_one rid plan remaining s of
                          (Inr (Some (item, used)), s1) \<Rightarrow>
                            (case admit_front rid reused s1 of
                               (Inl e, s2) \<Rightarrow> (Inl e, s2)
                             | (Inr _, s2) \<Rightarrow> schedule_waiting sha (remaining - used) (selected @ [item]) s2)
                        | (Inr None, s1) \<Rightarrow> (Inr selected, s1)
                        | (Inl (InsufficientBlocks a b), s1) \<Rightarrow> (Inr selected, s1)
                        | (Inl e, s1) \<Rightarrow> (Inl e, s1))))"
  by pat_completeness auto

termination
proof (relation "measure (\<lambda>(sha, remaining, selected, s). length (waiting_ids s))", goal_cases)
  case 4
  then show ?case unfolding in_measure prod.case by (simp only: admission_shrinks)
qed simp_all

definition schedule_batch :: "(8 word list \<Rightarrow> digest) \<Rightarrow> (scheduler, batch_plan option) ctl" where
  "schedule_batch sha s =
     (if outstanding s \<noteq> None then cerr (InvalidExecutionResult ''previous batch is still outstanding'') s
      else cbind (schedule_running (ordered_running_ids s) (max_batch_len (sched_config s)) {} []) (\<lambda>(remaining, protected, selected).
           cbind (schedule_waiting sha remaining selected) (\<lambda>selected s.
             if selected = [] then cret None s
             else let plan = \<lparr> step_id = next_step s, requests = selected \<rparr>
                  in case checked_add (next_step s) 1 of
                       Inl e \<Rightarrow> cerr e s
                     | Inr n \<Rightarrow> cret (Some plan) (s\<lparr> next_step := n, outstanding := Some plan \<rparr>))) s)"

section \<open>Results\<close>

definition reject_result :: "batch_plan \<Rightarrow> control_error \<Rightarrow> (scheduler, 'a) ctl" where
  "reject_result plan e s = (Inl e, s\<lparr> outstanding := Some plan \<rparr>)"

text \<open>The checks of one result against its batch; \<open>None\<close> when it passes.\<close>

definition check_result ::
    "scheduler \<Rightarrow> batch_plan \<Rightarrow> string set \<Rightarrow> request_execution_result \<Rightarrow> control_error option" where
  "check_result s plan seen item =
     (if res_request_id item \<in> seen then Some (InvalidExecutionResult ''duplicate request result'')
      else case find (\<lambda>scheduled. request_id scheduled = res_request_id item) (requests plan) of
        None \<Rightarrow> Some (InvalidExecutionResult ''unknown request result'')
      | Some scheduled \<Rightarrow>
          (if cached_len_delta item \<noteq> length (input_token_ids scheduled)
           then Some (InvalidExecutionResult ''cached length delta mismatch'')
           else case sched_requests s (res_request_id item) of
             None \<Rightarrow> Some (UnknownRequest (res_request_id item))
           | Some r \<Rightarrow>
               (if rq_state r \<noteq> Running then Some (InvalidState (res_request_id item) ''Running'' (rq_state r))
                else case checked_add (length (rq_generated r)) (length (generated_token_ids item)) of
                  Inl e \<Rightarrow> Some e
                | Inr generated_len \<Rightarrow>
                    (if max_new_len r < generated_len
                     then Some (InvalidExecutionResult ''generated token count exceeds request limit'')
                     else if 1 < length (generated_token_ids item)
                     then Some (InvalidExecutionResult ''execution result generated more than one token'')
                     else if need_sample scheduled \<noteq> (req_sampling_plan scheduled \<noteq> None)
                     then Some (InvalidExecutionResult ''sampling plan does not match need_sample'')
                     else if (generated_token_ids item = []) \<noteq> (\<not> need_sample scheduled)
                     then Some (InvalidExecutionResult ''generated token presence does not match sampling plan'')
                     else if (case req_sampling_plan scheduled of None \<Rightarrow> False | Some p \<Rightarrow> sample_index p \<noteq> rq_sample_index r)
                     then Some (InvalidExecutionResult ''sampling plan index does not match request'')
                     else None))))"

primrec check_results ::
    "scheduler \<Rightarrow> batch_plan \<Rightarrow> string set \<Rightarrow> request_execution_result list \<Rightarrow> control_error option" where
  "check_results s plan seen [] = None"
| "check_results s plan seen (item # items) =
     (case check_result s plan seen item of
        Some e \<Rightarrow> Some e
      | None \<Rightarrow> check_results s plan (insert (res_request_id item) seen) items)"

definition completion_of :: "request \<Rightarrow> request_execution_result \<Rightarrow> completion_reason option" where
  "completion_of r item =
     (if is_eos item then Some Eos
      else if length (rq_generated r) + length (generated_token_ids item) = max_new_len r then Some Length else None)"

text \<open>\<open>Self::seal_blocks\<close>.\<close>

definition seal_request :: "(8 word list \<Rightarrow> digest) \<Rightarrow> request \<Rightarrow> nat \<Rightarrow> (kv_manager, unit) ctl" where
  "seal_request sha r old_cached_len m =
     (let bl = mgr_block_len m; sealed_len = old_cached_len div bl * bl; seal_end = cached_len r div bl * bl; context = context_token_ids r
      in if length context < seal_end \<or> seal_end < sealed_len then cerr Panic m
         else cbind (seal_blocks sha (rq_id r) (drop sealed_len (take seal_end context)) sealed_len) (\<lambda>_. cret ()) m)"

definition undo_request :: "string \<Rightarrow> (request \<Rightarrow> request) \<Rightarrow> scheduler \<Rightarrow> scheduler" where
  "undo_request rid f s = s\<lparr> sched_requests := (sched_requests s)(rid := map_option f (sched_requests s rid)) \<rparr>"

definition insert_at :: "nat \<Rightarrow> 'a \<Rightarrow> 'a list \<Rightarrow> 'a list" where
  "insert_at i x xs = take i xs @ x # drop i xs"

primrec position_of :: "'a \<Rightarrow> 'a list \<Rightarrow> nat option" where
  "position_of x [] = None"
| "position_of x (y # ys) = (if x = y then Some 0 else map_option Suc (position_of x ys))"

definition remove_at :: "nat \<Rightarrow> 'a list \<Rightarrow> 'a list" where
  "remove_at i xs = take i xs @ drop (i + 1) xs"

text \<open>Leaving \<open>running\<close> inside a rollback scope, and releasing the cache.\<close>

type_synonym 'a scoped = "(scheduler \<times> (scheduler \<Rightarrow> scheduler) list, 'a) ctl"

definition retire :: "string \<Rightarrow> unit scoped" where
  "retire rid = cbind
     (\<lambda>su. case position_of rid (running_ids (fst su)) of
        None \<Rightarrow> cret () su
      | Some i \<Rightarrow> cbind (rollback_defer (\<lambda>s. s\<lparr> running_ids := insert_at i rid (running_ids s) \<rparr>)) (\<lambda>_.
                  scoped (modify (\<lambda>s. s\<lparr> running_ids := remove_at i (running_ids s) \<rparr>))) su)
     (\<lambda>_. scoped (on_cache (mgr_release rid)))"

text \<open>One iteration of the loop of \<open>apply_result\<close>; it carries \<open>cache_snapshotted\<close>.\<close>

definition apply_item :: "(8 word list \<Rightarrow> digest) \<Rightarrow> bool \<Rightarrow> request_execution_result \<Rightarrow> bool scoped" where
  "apply_item sha snapshotted item su =
     (case sched_requests (fst su) (res_request_id item) of
        None \<Rightarrow> cerr Panic su
      | Some r \<Rightarrow>
          (let rid = res_request_id item; reason = completion_of r item; bl = mgr_block_len (sched_cache (fst su))
           in case checked_add (cached_len r) (cached_len_delta item) of
             Inl e \<Rightarrow> cerr e su
           | Inr new_cached_len \<Rightarrow>
               (let will_seal = cached_len r div bl < new_cached_len div bl; will_release = (reason \<noteq> None)
                in cbind (rollback_defer (undo_request rid (rollback_advance (length (generated_token_ids item)) (rq_sample_index r)
                            (cached_len r) (rq_state r) (completion r)))) (\<lambda>_.
                   cbind (scoped (on_request Panic rid (advance (generated_token_ids item) (cached_len_delta item) reason))) (\<lambda>_.
                   cbind (\<lambda>su. if (will_seal \<or> will_release) \<and> \<not> snapshotted
                               then (let snapshot = sched_cache (fst su) in rollback_defer (\<lambda>s. s\<lparr> sched_cache := snapshot \<rparr>) su)
                               else cret () su) (\<lambda>_ su.
                   case sched_requests (fst su) rid of
                     None \<Rightarrow> cerr Panic su
                   | Some r' \<Rightarrow>
                       cbind (scoped (on_cache (seal_request sha r' (cached_len r)))) (\<lambda>_.
                       cbind (if is_terminal (rq_state r') then retire rid else cret ()) (\<lambda>_.
                         cret (snapshotted \<or> will_seal \<or> will_release))) su))) su)))"

primrec apply_items :: "(8 word list \<Rightarrow> digest) \<Rightarrow> bool \<Rightarrow> request_execution_result list \<Rightarrow> unit scoped" where
  "apply_items sha snapshotted [] = cret ()"
| "apply_items sha snapshotted (item # items) =
     cbind (apply_item sha snapshotted item) (\<lambda>snapshotted'. apply_items sha snapshotted' items)"

definition apply_result_batch :: "(8 word list \<Rightarrow> digest) \<Rightarrow> execution_result \<Rightarrow> (scheduler, unit) ctl" where
  "apply_result_batch sha result s =
     (case outstanding s of
        None \<Rightarrow> cerr NoOutstandingBatch s
      | Some plan \<Rightarrow>
          (let s = s\<lparr> outstanding := None \<rparr>
           in if res_step_id result \<noteq> step_id plan then reject_result plan (StaleBatch (step_id plan) (res_step_id result)) s
              else if length (request_results result) \<noteq> length (requests plan)
              then reject_result plan (InvalidExecutionResult ''result count does not match batch'') s
              else case check_results s plan {} (request_results result) of
                Some e \<Rightarrow> reject_result plan e s
              | None \<Rightarrow>
                  (case rollback_run (apply_items sha False (request_results result)) s of
                     (Inr _, s') \<Rightarrow> cret () s'
                   | (Inl e, s') \<Rightarrow> reject_result plan e s')))"

definition fail_item :: "string \<Rightarrow> scheduled_request \<Rightarrow> unit scoped" where
  "fail_item message item su =
     (let rid = request_id item
      in if sched_requests (fst su) rid = None then cerr (UnknownRequest rid) su
         else cbind (rollback_defer (undo_request rid rollback_fail)) (\<lambda>_.
              cbind (scoped (on_request Panic rid (rq_fail message))) (\<lambda>_. retire rid)) su)"

definition fail_batch_items :: "batch_plan \<Rightarrow> string \<Rightarrow> (scheduler, unit) ctl" where
  "fail_batch_items batch message s =
     (case outstanding s of
        None \<Rightarrow> cerr NoOutstandingBatch s
      | Some plan \<Rightarrow>
          (if plan \<noteq> batch then cerr (StaleBatch (step_id plan) (step_id batch)) s
           else let s = s\<lparr> outstanding := None \<rparr>; snapshot = sched_cache s
                in rollback_run (cbind (rollback_defer (\<lambda>s. s\<lparr> sched_cache := snapshot \<rparr>)) (\<lambda>_. cfold (fail_item message) (requests plan))) s))"

end
