(* ===== verification/SchedulerInv.thy ===== *)
theory SchedulerInv
  imports Scheduler
begin

text \<open>
  The invariant of the scheduler and what every operation does under it: its books agree with the cache's, a
  batch names running requests with room for their tokens, and no operation panics or leaves its error paths.
\<close>

section \<open>The invariant\<close>

text \<open>What the cache manager is told: context and cached length of the running requests.\<close>

definition request_view :: "request \<Rightarrow> (int list \<times> nat) option" where
  "request_view r = (if rq_state r = Running then Some (context_token_ids r, cached_len r) else None)"

definition sview :: "(string \<rightharpoonup> request) \<Rightarrow> string \<rightharpoonup> int list \<times> nat" where
  "sview q rid = (case q rid of None \<Rightarrow> None | Some r \<Rightarrow> request_view r)"

definition fits_word :: "nat \<Rightarrow> request \<Rightarrow> bool" where
  "fits_word bl r = (length (prompt_token_ids r) + max_new_len r + bl \<le> word_limit)"

definition stored_ok :: "nat \<Rightarrow> nat \<Rightarrow> string \<Rightarrow> request \<Rightarrow> bool" where
  "stored_ok bl na rid r =
     (rq_valid r \<and> rq_id r = rid \<and> arrival_index r < na \<and> fits_word bl r \<and>
      (rq_state r = Waiting \<or> rq_state r = Running \<longrightarrow> length (rq_generated r) < max_new_len r) \<and>
      (rq_state r = Waiting \<longrightarrow> cached_len r = 0) \<and> (rq_state r = Running \<longrightarrow> cached_len r < length (context_token_ids r)))"

definition in_state :: "(string \<rightharpoonup> request) \<Rightarrow> request_state \<Rightarrow> string \<Rightarrow> bool" where
  "in_state q st rid = (\<exists>r. q rid = Some r \<and> rq_state r = st)"

definition sched_core :: "(8 word list \<Rightarrow> digest) \<Rightarrow> scheduler \<Rightarrow> bool" where
  "sched_core sha s =
     (0 < max_batch_len (sched_config s) \<and> 0 < max_prefill_chunk_len (sched_config s) \<and>
      mgr_ok sha (sched_cache s) (sview (sched_requests s)) \<and> finite (dom (sched_requests s)) \<and>
      (\<forall>rid r. sched_requests s rid = Some r \<longrightarrow> stored_ok (mgr_block_len (sched_cache s)) (next_arrival s) rid r) \<and>
      (\<forall>a ra b rb. sched_requests s a = Some ra \<longrightarrow> sched_requests s b = Some rb \<longrightarrow> arrival_index ra = arrival_index rb \<longrightarrow> a = b) \<and>
      distinct (running_ids s) \<and> distinct (waiting_ids s) \<and>
      (\<forall>rid. rid \<in> set (running_ids s) \<longleftrightarrow> in_state (sched_requests s) Running rid) \<and>
      (\<forall>rid. rid \<in> set (waiting_ids s) \<longleftrightarrow> in_state (sched_requests s) Waiting rid))"

abbreviation table_of :: "scheduler \<Rightarrow> string \<Rightarrow> nat list" where
  "table_of s \<equiv> mgr_block_table (sched_cache s)"

abbreviation sblock_len :: "scheduler \<Rightarrow> nat" where
  "sblock_len s \<equiv> mgr_block_len (sched_cache s)"

lemma sched_coreD:
  assumes "sched_core sha s"
  shows "0 < max_batch_len (sched_config s)" "0 < max_prefill_chunk_len (sched_config s)"
    "mgr_ok sha (sched_cache s) (sview (sched_requests s))" "finite (dom (sched_requests s))"
    "\<And>rid r. sched_requests s rid = Some r \<Longrightarrow> stored_ok (sblock_len s) (next_arrival s) rid r"
    "\<And>a ra b rb. sched_requests s a = Some ra \<Longrightarrow> sched_requests s b = Some rb \<Longrightarrow> arrival_index ra = arrival_index rb \<Longrightarrow> a = b"
    "distinct (running_ids s)" "distinct (waiting_ids s)"
    "\<And>rid. rid \<in> set (running_ids s) \<longleftrightarrow> in_state (sched_requests s) Running rid"
    "\<And>rid. rid \<in> set (waiting_ids s) \<longleftrightarrow> in_state (sched_requests s) Waiting rid"
  using assms by (auto simp: sched_core_def)

lemma sview_update: "sview (q(rid \<mapsto> r)) = (sview q)(rid := request_view r)"
  by (rule ext) (simp add: sview_def)

lemma in_state_update: "in_state (q(rid \<mapsto> r)) st x \<longleftrightarrow> (if x = rid then rq_state r = st else in_state q st x)"
  by (simp add: in_state_def)

lemma sview_running: "q rid = Some r \<Longrightarrow> rq_state r = Running \<Longrightarrow> sview q rid = Some (context_token_ids r, cached_len r)"
  by (simp add: sview_def request_view_def)

lemma sview_other: "q rid = Some r \<Longrightarrow> rq_state r \<noteq> Running \<Longrightarrow> sview q rid = None"
  by (simp add: sview_def request_view_def)

lemma is_running_state: "is_running s rid = in_state (sched_requests s) Running rid"
  by (auto simp: is_running_def in_state_def split: option.splits)

lemma view_bounded:
  assumes ok: "sched_core sha s" and v: "sview (sched_requests s) y = Some (cx, cc)"
  shows "cc \<le> length cx" "\<exists>x. sched_requests s y = Some x \<and> cx = context_token_ids x"
proof -
  obtain x where x: "sched_requests s y = Some x" "rq_state x = Running" "cx = context_token_ids x" "cc = cached_len x"
    using v by (auto simp: sview_def request_view_def split: option.splits if_splits)
  then show "\<exists>x. sched_requests s y = Some x \<and> cx = context_token_ids x" by blast
  show "cc \<le> length cx" using sched_coreD(5) [OF ok x(1)] x(2-4) by (simp add: stored_ok_def)
qed

text \<open>An operation that replaces one request, the queues and the cache.\<close>

lemma sched_coreI:
  assumes ok: "sched_core sha s" and r: "sched_requests s rid = Some r0"
    and s': "sched_config s' = sched_config s" "sched_requests s' = (sched_requests s)(rid \<mapsto> r)" "next_arrival s' = next_arrival s"
      "sblock_len s' = sblock_len s"
    and new: "stored_ok (sblock_len s) (next_arrival s) rid r" "arrival_index r = arrival_index r0"
    and mgr: "mgr_ok sha (sched_cache s') ((sview (sched_requests s))(rid := request_view r))"
    and queues: "distinct (running_ids s')" "distinct (waiting_ids s')"
      "\<And>x. x \<in> set (running_ids s') \<longleftrightarrow> (if x = rid then rq_state r = Running else in_state (sched_requests s) Running x)"
      "\<And>x. x \<in> set (waiting_ids s') \<longleftrightarrow> (if x = rid then rq_state r = Waiting else in_state (sched_requests s) Waiting x)"
  shows "sched_core sha s'"
proof -
  note d = sched_coreD [OF ok]
  have stored: "\<forall>x rx. sched_requests s' x = Some rx \<longrightarrow> stored_ok (sblock_len s') (next_arrival s') x rx"
    using s'(2-4) new(1) d(5) by (auto split: if_splits)
  have "a = b" if "sched_requests s' a = Some ra" "sched_requests s' b = Some rb" "arrival_index ra = arrival_index rb" for a ra b rb
  proof -
    have "\<exists>r1. sched_requests s x = Some r1 \<and> arrival_index r1 = arrival_index rx" if "sched_requests s' x = Some rx" for x rx
      using that r new(2) unfolding s'(2) by (auto split: if_splits)
    with that show ?thesis using d(6) by metis
  qed
  then have arrivals: "\<forall>a ra b rb. sched_requests s' a = Some ra \<longrightarrow> sched_requests s' b = Some rb \<longrightarrow> arrival_index ra = arrival_index rb \<longrightarrow> a = b"
    by blast
  have states: "\<forall>x. x \<in> set (running_ids s') \<longleftrightarrow> in_state (sched_requests s') Running x"
    "\<forall>x. x \<in> set (waiting_ids s') \<longleftrightarrow> in_state (sched_requests s') Waiting x"
    using queues(3,4) unfolding s'(2) in_state_update by blast+
  have "finite (dom (sched_requests s'))" unfolding s'(2) using d(4) by simp
  moreover have "mgr_ok sha (sched_cache s') (sview (sched_requests s'))" unfolding s'(2) sview_update by (rule mgr)
  ultimately show ?thesis unfolding sched_core_def s'(1) using d(1,2) stored arrivals states queues(1,2) by blast
qed

section \<open>Items of a batch\<close>

text \<open>An item of a batch describes the next tokens of a running request, with room in its table.\<close>

definition item_for :: "request \<Rightarrow> nat list \<Rightarrow> nat \<Rightarrow> scheduled_request \<Rightarrow> bool" where
  "item_for r table bl it =
     (rq_state r = Running \<and> request_id it = rq_id r \<and> start_position it = cached_len r \<and> input_token_ids it \<noteq> [] \<and>
      cached_len r + length (input_token_ids it) \<le> length (context_token_ids r) \<and>
      input_token_ids it = take (length (input_token_ids it)) (drop (cached_len r) (context_token_ids r)) \<and>
      block_table it = map int table \<and> cached_len r + length (input_token_ids it) \<le> length table * bl \<and>
      req_sampling_plan it = (if need_sample it then Some \<lparr> sp_params = rq_params r, sample_index = rq_sample_index r \<rparr> else None) \<and>
      (need_sample it \<longleftrightarrow> work_is_decode r \<or> cached_len r + length (input_token_ids it) = length (context_token_ids r)))"

definition item_ok :: "scheduler \<Rightarrow> scheduled_request \<Rightarrow> bool" where
  "item_ok s it = (\<exists>r. sched_requests s (request_id it) = Some r \<and> item_for r (table_of s (request_id it)) (sblock_len s) it)"

definition batch_ids :: "scheduled_request list \<Rightarrow> string list" where
  "batch_ids items = map request_id items"

definition items_ok :: "scheduler \<Rightarrow> scheduled_request list \<Rightarrow> bool" where
  "items_ok s items = (distinct (batch_ids items) \<and> (\<forall>it \<in> set items. item_ok s it))"

lemma items_ok_frame:
  assumes "items_ok s items" "sblock_len s' = sblock_len s"
    and "\<And>x. x \<in> set (batch_ids items) \<Longrightarrow> sched_requests s' x = sched_requests s x \<and> table_of s' x = table_of s x"
  shows "items_ok s' items"
  using assms by (auto simp: items_ok_def item_ok_def batch_ids_def)

section \<open>The contents of the cache\<close>

text \<open>An operation that does not touch the slots keeps what the tables of the running requests say of them, if
  the digests of the requests' contexts do not collide.\<close>

definition keeps_contents :: "(8 word list \<Rightarrow> digest) \<Rightarrow> scheduler \<Rightarrow> scheduler \<Rightarrow> bool" where
  "keeps_contents sha s s' =
     (sblock_len s' = sblock_len s \<and> (\<forall>rid. map_option context_token_ids (sched_requests s' rid) = map_option context_token_ids (sched_requests s rid)) \<and>
      (\<forall>P G. collision_free sha (sblock_len s) P \<longrightarrow> (\<forall>rid r. sched_requests s rid = Some r \<longrightarrow> P (context_token_ids r)) \<longrightarrow>
         contents_ok (sched_cache s) G (sview (sched_requests s)) \<longrightarrow> contents_ok (sched_cache s') G (sview (sched_requests s'))))"

lemma keeps_contents_refl [simp]: "keeps_contents sha s s"
  by (simp add: keeps_contents_def)

lemma keeps_contents_trans: "keeps_contents sha s s' \<Longrightarrow> keeps_contents sha s' s'' \<Longrightarrow> keeps_contents sha s s''"
proof -
  assume a: "keeps_contents sha s s'" "keeps_contents sha s' s''"
  have "P (context_token_ids r)" if h: "\<forall>rid r. sched_requests s rid = Some r \<longrightarrow> P (context_token_ids r)" "sched_requests s' rid = Some r" for P rid r
  proof -
    have "map_option context_token_ids (sched_requests s' rid) = map_option context_token_ids (sched_requests s rid)"
      using a(1) unfolding keeps_contents_def by blast
    then obtain z where "sched_requests s rid = Some z" "context_token_ids z = context_token_ids r" using h(2) by (cases "sched_requests s rid") auto
    then show ?thesis using h(1) by metis
  qed
  with a show ?thesis by (simp add: keeps_contents_def) metis
qed

section \<open>Leaving the batch: preemption and failure\<close>

lemma on_request_eq: "sched_requests s rid = Some r \<Longrightarrow> f r = (x, r') \<Longrightarrow>
    on_request e rid f s = (x, s\<lparr> sched_requests := (sched_requests s)(rid \<mapsto> r') \<rparr>)"
  by (simp add: on_request_def)

text \<open>What a request taken off the cache leaves unchanged.\<close>

definition taken_off :: "scheduler \<Rightarrow> string \<Rightarrow> request \<Rightarrow> scheduler \<Rightarrow> bool" where
  "taken_off s rid r' s' =
     (sched_requests s' = (sched_requests s)(rid \<mapsto> r') \<and> sched_config s' = sched_config s \<and> sched_policy s' = sched_policy s \<and>
      next_arrival s' = next_arrival s \<and> next_step s' = next_step s \<and> outstanding s' = outstanding s \<and> sblock_len s' = sblock_len s \<and>
      pool_size (mgr_pool (sched_cache s')) = pool_size (mgr_pool (sched_cache s)) \<and>
      (\<forall>x. x \<noteq> rid \<longrightarrow> table_of s' x = table_of s x))"

lemma taken_off_contents:
  assumes "taken_off s rid r' s'" "sched_requests s rid = Some r" "context_token_ids r' = context_token_ids r" "rq_state r' \<noteq> Running"
  shows "keeps_contents sha s s'"
proof -
  have "contents_ok (sched_cache s') G (sview (sched_requests s'))" if "contents_ok (sched_cache s) G (sview (sched_requests s))" for G
    using assms(1,4) that by (auto simp: taken_off_def contents_ok_def sview_update request_view_def)
  then show ?thesis using assms by (auto simp: keeps_contents_def taken_off_def)
qed

lemma release_request:
  assumes ok: "sched_core sha s" and r: "sched_requests s rid = Some r" "rq_state r = Running" and r': "rq_state r' \<noteq> Running"
    and new: "stored_ok (sblock_len s) (next_arrival s) rid r'" "arrival_index r' = arrival_index r"
    and w: "distinct ws" "\<And>x. x \<in> set ws \<longleftrightarrow> (if x = rid then rq_state r' = Waiting else in_state (sched_requests s) Waiting x)"
  shows "\<exists>m. mgr_release rid (sched_cache s) = (Inr (), m) \<and>
    sched_core sha (s\<lparr> sched_requests := (sched_requests s)(rid \<mapsto> r'), running_ids := filter (\<lambda>c. c \<noteq> rid) (running_ids s),
      waiting_ids := ws, sched_cache := m \<rparr>) \<and> mgr_block_len m = sblock_len s \<and> pool_size (mgr_pool m) = pool_size (mgr_pool (sched_cache s)) \<and>
    (\<forall>x. x \<noteq> rid \<longrightarrow> mgr_block_table m x = table_of s x)"
proof -
  note d = sched_coreD [OF ok]
  obtain m where m: "mgr_release rid (sched_cache s) = (Inr (), m)" "mgr_ok sha m ((sview (sched_requests s))(rid := None))"
    "mgr_block_len m = sblock_len s" "pool_size (mgr_pool m) = pool_size (mgr_pool (sched_cache s))"
    "\<forall>x. x \<noteq> rid \<longrightarrow> mgr_block_table m x = table_of s x"
    using mgr_release_ok [OF d(3), of rid] by blast
  have view: "request_view r' = None" using r' by (simp add: request_view_def)
  have "sched_core sha (s\<lparr> sched_requests := (sched_requests s)(rid \<mapsto> r'), running_ids := filter (\<lambda>c. c \<noteq> rid) (running_ids s),
      waiting_ids := ws, sched_cache := m \<rparr>)"
    by (rule sched_coreI [OF ok r(1) _ _ _ _ new]) (use m view d(7,9) w r' in auto)
  with m show ?thesis by blast
qed

lemma preempt_id_ok:
  assumes ok: "sched_core sha s" and r: "sched_requests s rid = Some r" "rq_state r = Running"
  shows "\<exists>s'. preempt_id rid s = (Inr (), s') \<and> sched_core sha s' \<and> taken_off s rid (r\<lparr> rq_state := Waiting, cached_len := 0 \<rparr>) s' \<and>
    running_ids s' = filter (\<lambda>c. c \<noteq> rid) (running_ids s) \<and> waiting_ids s' = rid # waiting_ids s"
proof -
  note d = sched_coreD [OF ok]
  let ?r = "r\<lparr> rq_state := Waiting, cached_len := 0 \<rparr>"
  note st = d(5) [OF r(1)]
  have v: "rq_valid r" using st by (simp add: stored_ok_def)
  have new: "stored_ok (sblock_len s) (next_arrival s) rid ?r"
    using st preempt_ok(2) [OF v r(2)] r(2) by (simp add: stored_ok_def fits_word_def)
  have nin: "rid \<notin> set (waiting_ids s)" using d(10) r by (auto simp: in_state_def)
  have w: "distinct (rid # waiting_ids s)" "x \<in> set (rid # waiting_ids s) \<longleftrightarrow> (if x = rid then rq_state ?r = Waiting else in_state (sched_requests s) Waiting x)" for x
    using d(8,10) nin by auto
  obtain m where m: "mgr_release rid (sched_cache s) = (Inr (), m)"
    "sched_core sha (s\<lparr> sched_requests := (sched_requests s)(rid \<mapsto> ?r), running_ids := filter (\<lambda>c. c \<noteq> rid) (running_ids s),
      waiting_ids := rid # waiting_ids s, sched_cache := m \<rparr>)" "mgr_block_len m = sblock_len s"
    "pool_size (mgr_pool m) = pool_size (mgr_pool (sched_cache s))" "\<forall>x. x \<noteq> rid \<longrightarrow> mgr_block_table m x = table_of s x"
    using release_request [OF ok r _ new _ w] by auto
  have "preempt_id rid s = (Inr (), s\<lparr> sched_requests := (sched_requests s)(rid \<mapsto> ?r), running_ids := filter (\<lambda>c. c \<noteq> rid) (running_ids s),
      waiting_ids := rid # waiting_ids s, sched_cache := m \<rparr>)"
    using m(1) by (simp add: preempt_id_def cbind_def on_request_eq [where f = preempt, OF r(1) preempt_ok(1) [OF v r(2)]] modify_def drop_running_def on_cache_def)
  with m(2-) show ?thesis by (simp add: taken_off_def)
qed

lemma fail_id_ok:
  assumes ok: "sched_core sha s" and r: "sched_requests s rid = Some r" "rq_state r = Running"
  shows "\<exists>s'. fail_id rid msg s = (Inr (), s') \<and> sched_core sha s' \<and> taken_off s rid (r\<lparr> rq_state := Failed, rq_error := Some msg \<rparr>) s' \<and>
    running_ids s' = filter (\<lambda>c. c \<noteq> rid) (running_ids s) \<and> waiting_ids s' = waiting_ids s"
proof -
  note d = sched_coreD [OF ok]
  let ?r = "r\<lparr> rq_state := Failed, rq_error := Some msg \<rparr>"
  note st = d(5) [OF r(1)]
  have v: "rq_valid r" using st by (simp add: stored_ok_def)
  have new: "stored_ok (sblock_len s) (next_arrival s) rid ?r"
    using st fail_ok(2) [OF v r(2)] by (simp add: stored_ok_def fits_word_def)
  have nin: "rid \<notin> set (waiting_ids s)" using d(10) r by (auto simp: in_state_def)
  have w: "distinct (waiting_ids s)" "x \<in> set (waiting_ids s) \<longleftrightarrow> (if x = rid then rq_state ?r = Waiting else in_state (sched_requests s) Waiting x)" for x
    using d(8,10) nin by auto
  obtain m where m: "mgr_release rid (sched_cache s) = (Inr (), m)"
    "sched_core sha (s\<lparr> sched_requests := (sched_requests s)(rid \<mapsto> ?r), running_ids := filter (\<lambda>c. c \<noteq> rid) (running_ids s),
      waiting_ids := waiting_ids s, sched_cache := m \<rparr>)" "mgr_block_len m = sblock_len s"
    "pool_size (mgr_pool m) = pool_size (mgr_pool (sched_cache s))" "\<forall>x. x \<noteq> rid \<longrightarrow> mgr_block_table m x = table_of s x"
    using release_request [OF ok r _ new _ w] by auto
  have "fail_id rid msg s = (Inr (), s\<lparr> sched_requests := (sched_requests s)(rid \<mapsto> ?r), running_ids := filter (\<lambda>c. c \<noteq> rid) (running_ids s),
      waiting_ids := waiting_ids s, sched_cache := m \<rparr>)"
    using m(1) by (simp add: fail_id_def cbind_def on_request_eq [where f = "rq_fail msg", OF r(1) fail_ok(1) [OF v r(2)]] modify_def drop_running_def on_cache_def)
  with m(2-) show ?thesis by (simp add: taken_off_def)
qed

section \<open>Scheduling one request\<close>

text \<open>What only the reservation of a request changes.\<close>

definition reserved :: "scheduler \<Rightarrow> string \<Rightarrow> scheduler \<Rightarrow> bool" where
  "reserved s rid s' =
     (s' = s\<lparr> sched_cache := sched_cache s' \<rparr> \<and> sblock_len s' = sblock_len s \<and>
      pool_size (mgr_pool (sched_cache s')) = pool_size (mgr_pool (sched_cache s)) \<and> (\<forall>x. x \<noteq> rid \<longrightarrow> table_of s' x = table_of s x))"

lemma sched_core_cache:
  "sched_core sha s \<Longrightarrow> mgr_ok sha m (sview (sched_requests s)) \<Longrightarrow> mgr_block_len m = sblock_len s \<Longrightarrow> sched_core sha (s\<lparr> sched_cache := m \<rparr>)"
  by (simp add: sched_core_def)

lemma context_fits:
  assumes "stored_ok bl na rid r" "rq_state r = Waiting \<or> rq_state r = Running"
  shows "length (context_token_ids r) + bl < word_limit"
  using assms by (auto simp: stored_ok_def fits_word_def context_token_ids_def)

lemma run_schedule_one:
  assumes r: "sched_requests s rid = Some r" and ctx: "prepare_schedule_context r plan = (start, context, work)"
    and n: "n = (if work = Prefill then min (min (max_prefill_chunk_len (sched_config s)) (length context - start)) remaining else min 1 remaining)"
    and pos: "0 < n" and bnd: "start + n \<le> length context" "length context < word_limit"
  shows "schedule_one rid plan remaining s = cbind (on_cache (reserve_to rid plan (start + n))) (\<lambda>table.
     cret (Some (\<lparr> request_id = rid, input_token_ids = take n (drop start context), req_work_type = work,
                   start_position = start, block_table = map int table, need_sample = (n = (if work = Prefill then length context - start else 1)),
                   req_sampling_plan = (if n = (if work = Prefill then length context - start else 1)
                     then Some \<lparr> sp_params = rq_params r, sample_index = rq_sample_index r \<rparr> else None) \<rparr>, n))) s"
proof -
  have "checked_add start n = Inr (start + n)" using bnd by (simp add: checked_add_def)
  moreover have "work = Prefill \<Longrightarrow> min (min (max_prefill_chunk_len (sched_config s)) (length context - start)) remaining = n"
    "work = Decode \<Longrightarrow> min 1 remaining = n" by (simp_all add: n)
  ultimately show ?thesis using r ctx pos bnd(1) by (cases work) (simp_all add: schedule_one_def Let_def del: One_nat_def)
qed

lemma schedule_one_running:
  assumes ok: "sched_core sha s" and r: "sched_requests s rid = Some r" "rq_state r = Running" and rem: "0 < remaining"
  shows "(\<exists>item s1. schedule_one rid None remaining s = (Inr (Some (item, length (input_token_ids item))), s1) \<and>
      length (input_token_ids item) \<le> remaining \<and> sched_core sha s1 \<and> request_id item = rid \<and> item_ok s1 item \<and> reserved s rid s1 \<and>
      (\<exists>ids. table_of s1 rid = table_of s rid @ ids)) \<or>
    (\<exists>a b. schedule_one rid None remaining s = (Inl (InsufficientBlocks a b), s))"
proof -
  note d = sched_coreD [OF ok]
  let ?m = "sched_cache s" and ?ctx = "context_token_ids r" and ?c = "cached_len r" and ?work = "work_type_of r"
  note st = d(5) [OF r(1)]
  have c: "?c < length ?ctx" and ids: "rq_id r = rid" using st r(2) by (simp_all add: stored_ok_def)
  define n where "n = (if ?work = Prefill then min (min (max_prefill_chunk_len (sched_config s)) (length ?ctx - ?c)) remaining else min 1 remaining)"
  have n: "0 < n" "?c + n \<le> length ?ctx" "n \<le> remaining" "?work \<noteq> Prefill \<Longrightarrow> n = 1" using c rem d(2) by (auto simp: n_def)
  have fits: "length ?ctx + sblock_len s < word_limit" using context_fits [OF st] r(2) by simp
  let ?need = "n = (if ?work = Prefill then length ?ctx - ?c else 1)"
  let ?item = "\<lambda>table. \<lparr> request_id = rid, input_token_ids = take n (drop ?c ?ctx), req_work_type = ?work,
      start_position = ?c, block_table = map int table, need_sample = ?need,
      req_sampling_plan = (if ?need then Some \<lparr> sp_params = rq_params r, sample_index = rq_sample_index r \<rparr> else None) \<rparr>"
  have run: "schedule_one rid None remaining s = cbind (on_cache (reserve_to rid None (?c + n))) (\<lambda>table. cret (Some (?item table, n))) s"
    by (rule run_schedule_one [OF r(1) _ n_def n(1,2)]) (use fits in \<open>simp_all add: prepare_schedule_context_def\<close>)
  have len: "length (take n (drop ?c ?ctx)) = n" using n(2) by simp
  have V: "sview (sched_requests s) rid = Some (?ctx, ?c)" by (rule sview_running [where q = "sched_requests s", OF r])
  have some: "allocations ?m rid \<noteq> None" using mgr_okD(3) [OF d(3)] V by auto
  have size: "?c + n + mgr_block_len ?m \<le> word_limit" using fits n(2) by simp
  show ?thesis
  proof (cases "reserve_need ?m rid None (?c + n) \<le> available (mgr_pool ?m)")
    case False
    then have "reserve_to rid None (?c + n) ?m = (Inl (InsufficientBlocks (reserve_need ?m rid None (?c + n)) (available (mgr_pool ?m))), ?m)"
      using reserve_to_full [OF mgr_okD(1) [OF d(3)] size] some by simp
    then show ?thesis unfolding run by (simp add: cbind_def on_cache_def)
  next
    case True
    have pl: "case (None :: reuse_plan option) of None \<Rightarrow> (case sview (sched_requests s) rid of None \<Rightarrow> ?c = 0 | Some v \<Rightarrow> v = (?ctx, ?c))
        | Some pl \<Rightarrow> sview (sched_requests s) rid = None \<and> ?c = reused_len pl \<and> reused_len pl = length (reuse_blocks pl) * mgr_block_len ?m \<and>
          (\<forall>i < length (reuse_blocks pl). reuse_blocks pl ! i < pool_size (mgr_pool ?m) \<and>
             state_at (mgr_pool ?m) (reuse_blocks pl ! i) = Sealed (chain_hash sha (mgr_block_len ?m) ?ctx (Suc i)))"
      using V by simp
    obtain table m where m: "reserve_to rid None (?c + n) ?m = (Inr table, m)" "mgr_ok sha m ((sview (sched_requests s))(rid \<mapsto> (?ctx, ?c)))"
      "mgr_block_table m rid = table" "?c + n \<le> length table * mgr_block_len ?m" "mgr_block_len m = mgr_block_len ?m"
      "\<forall>x. x \<noteq> rid \<longrightarrow> mgr_block_table m x = table_of s x" "pool_keeps (\<lambda>b. b \<in># refs (allocations ?m)) (mgr_pool ?m) (mgr_pool m)"
      "\<exists>ids. table = table_of s rid @ ids"
      using reserve_to_ok [OF d(3) size pl _ True] n(1) by auto
    let ?s = "s\<lparr> sched_cache := m \<rparr>"
    have "(sview (sched_requests s))(rid \<mapsto> (?ctx, ?c)) = sview (sched_requests s)" using V by auto
    then have "sched_core sha ?s" using sched_core_cache [OF ok _ m(5)] m(2) by simp
    moreover have "schedule_one rid None remaining s = (Inr (Some (?item table, n)), ?s)"
      unfolding run using m(1) by (simp add: cbind_def on_cache_def)
    moreover have "reserved s rid ?s" using m(5-7) by (simp add: reserved_def pool_keeps_def)
    moreover have "item_ok ?s (?item table)"
    proof -
      have "?need \<longleftrightarrow> work_is_decode r \<or> ?c + n = length ?ctx" using n(2,4) by (auto simp: work_type_of_def)
      then show ?thesis using r m(3-5) n ids len by (simp add: item_ok_def item_for_def)
    qed
    moreover have "\<exists>ids. table_of ?s rid = table_of s rid @ ids" using m(3,8) by simp
    ultimately show ?thesis using n(3) len
      by (intro disjI1 exI [of _ "?item table"] exI [of _ ?s]) simp
  qed
qed

lemma reserved_contents:
  assumes ok: "sched_core sha s" and r: "sched_requests s rid = Some r" "rq_state r = Running" and s': "reserved s rid s'"
    and table: "table_of s' rid = table_of s rid @ ids"
  shows "keeps_contents sha s s'"
proof -
  note d = sched_coreD [OF ok]
  have same: "sched_requests s' = sched_requests s" using s' by (simp add: reserved_def) (metis scheduler.select_convs(4) scheduler.surjective scheduler.update_convs(3))
  have V: "sview (sched_requests s) rid = Some (context_token_ids r, cached_len r)" by (rule sview_running [where q = "sched_requests s", OF r])
  then have upd: "(sview (sched_requests s))(rid \<mapsto> (context_token_ids r, cached_len r)) = sview (sched_requests s)" by auto
  note len = view_bounded [OF ok]
  have "contents_ok (sched_cache s') G (sview (sched_requests s))"
    if "collision_free sha (sblock_len s) P" "\<forall>rid r. sched_requests s rid = Some r \<longrightarrow> P (context_token_ids r)"
      "contents_ok (sched_cache s) G (sview (sched_requests s))" for P G
  proof -
    have all: "\<forall>y cx cc. sview (sched_requests s) y = Some (cx, cc) \<longrightarrow> P cx \<and> cc \<le> length cx" using len that(2) by metis
    show ?thesis
      using reserve_contents [where plan = None and rid = rid and ctx = "context_token_ids r" and c = "cached_len r" and ids = ids and m' = "sched_cache s'",
          OF d(3) that(3,1) all] all V s' table unfolding upd by (simp add: reserved_def)
  qed
  then show ?thesis using same s' by (simp add: keeps_contents_def reserved_def)
qed

text \<open>The request at the front of the queue.\<close>

lemma schedule_front:
  assumes ok: "sched_core sha s" and w: "waiting_ids s = rid # rest" and r: "sched_requests s rid = Some r" "rq_state r = Waiting"
    and rem: "0 < remaining" and plan: "plan = plan_reuse sha (prompt_token_ids r) (sched_cache s)"
    and reused: "reused = (case plan of Some pl \<Rightarrow> reused_len pl | None \<Rightarrow> 0)"
  shows "(\<exists>item s1 s2. schedule_one rid plan remaining s = (Inr (Some (item, length (input_token_ids item))), s1) \<and>
      admit_front rid reused s1 = (Inr (), s2) \<and> length (input_token_ids item) \<le> remaining \<and> sched_core sha s2 \<and> request_id item = rid \<and>
      item_ok s2 item \<and> sched_requests s2 = (sched_requests s)(rid \<mapsto> r\<lparr> rq_state := Running, cached_len := reused \<rparr>) \<and>
      s2 = s\<lparr> waiting_ids := rest, running_ids := running_ids s @ [rid], sched_requests := sched_requests s2, sched_cache := sched_cache s2 \<rparr> \<and>
      sblock_len s2 = sblock_len s \<and> pool_size (mgr_pool (sched_cache s2)) = pool_size (mgr_pool (sched_cache s)) \<and>
      (\<forall>x. x \<noteq> rid \<longrightarrow> table_of s2 x = table_of s x) \<and> keeps_contents sha s s2) \<or>
    (\<exists>a b n. schedule_one rid plan remaining s = (Inl (InsufficientBlocks a b), s) \<and>
      n \<le> max_prefill_chunk_len (sched_config s) \<and> n \<le> remaining \<and> available (mgr_pool (sched_cache s)) < blocks_for (sblock_len s) n)"
proof -
  note d = sched_coreD [OF ok]
  let ?m = "sched_cache s" and ?ctx = "context_token_ids r" and ?prompt = "prompt_token_ids r" and ?bl = "sblock_len s"
  note st = d(5) [OF r(1)]
  have ids: "rq_id r = rid" "cached_len r = 0" "?prompt \<noteq> []" "rq_valid r" using st r(2) by (simp_all add: stored_ok_def rq_valid_def)
  have V: "sview (sched_requests s) rid = None" using r by (simp add: sview_other)
  have none: "allocations ?m rid = None" using mgr_okD(3) [OF d(3)] V by (metis domIff)
  have pl: "reused_len pl = length (reuse_blocks pl) * ?bl" "reused_len pl < length ?prompt" "0 < reused_len pl"
    "\<forall>i < length (reuse_blocks pl). reuse_blocks pl ! i < pool_size (mgr_pool ?m) \<and>
       state_at (mgr_pool ?m) (reuse_blocks pl ! i) = Sealed (chain_hash sha ?bl ?ctx (Suc i))" if "plan = Some pl" for pl
  proof -
    note p = plan_reuse_ok [OF d(3) plan [symmetric, unfolded that] ids(3)]
    show "reused_len pl = length (reuse_blocks pl) * ?bl" "reused_len pl < length ?prompt" "0 < reused_len pl" by (rule p)+
    have "chain_hash sha ?bl ?prompt (Suc i) = chain_hash sha ?bl ?ctx (Suc i)" if "i < length (reuse_blocks pl)" for i
    proof -
      have "Suc i * ?bl \<le> length (reuse_blocks pl) * ?bl" using that by (intro mult_le_mono1) simp
      then have "Suc i * ?bl \<le> length ?prompt" using p(1,2) by simp
      from chain_hash_take [OF this, of sha ?ctx] show ?thesis by (simp add: context_token_ids_def)
    qed
    then show "\<forall>i < length (reuse_blocks pl). reuse_blocks pl ! i < pool_size (mgr_pool ?m) \<and>
       state_at (mgr_pool ?m) (reuse_blocks pl ! i) = Sealed (chain_hash sha ?bl ?ctx (Suc i))" using p(4) by metis
  qed
  have reused_lt: "reused < length ?prompt" using pl(2) ids(3) reused by (cases plan) auto
  define n where "n = min (min (max_prefill_chunk_len (sched_config s)) (length ?ctx - reused)) remaining"
  have n: "0 < n" "reused + n \<le> length ?ctx" "n \<le> remaining" "n \<le> max_prefill_chunk_len (sched_config s)"
    using reused_lt rem d(2) by (auto simp: n_def context_token_ids_def)
  have fits: "length ?ctx + ?bl < word_limit" using context_fits [OF st] r(2) by simp
  have prep: "prepare_schedule_context r plan = (reused, ?ctx, Prefill)"
    using ids(2,3) reused by (cases plan) (simp_all add: prepare_schedule_context_def work_type_of_def work_is_decode_def)
  let ?need = "n = length ?ctx - reused"
  let ?item = "\<lambda>table. \<lparr> request_id = rid, input_token_ids = take n (drop reused ?ctx), req_work_type = Prefill,
      start_position = reused, block_table = map int table, need_sample = ?need,
      req_sampling_plan = (if ?need then Some \<lparr> sp_params = rq_params r, sample_index = rq_sample_index r \<rparr> else None) \<rparr>"
  have run: "schedule_one rid plan remaining s = cbind (on_cache (reserve_to rid plan (reused + n))) (\<lambda>table. cret (Some (?item table, n))) s"
    using run_schedule_one [OF r(1) prep, of n remaining] n(1,2) fits by (simp add: n_def)
  have len: "length (take n (drop reused ?ctx)) = n" using n(2) by simp
  have size: "reused + n + mgr_block_len ?m \<le> word_limit" using fits n(2) by simp
  have plc: "case plan of None \<Rightarrow> (case sview (sched_requests s) rid of None \<Rightarrow> reused = 0 | Some v \<Rightarrow> v = (?ctx, reused))
        | Some pl \<Rightarrow> sview (sched_requests s) rid = None \<and> reused = reused_len pl \<and> reused_len pl = length (reuse_blocks pl) * mgr_block_len ?m \<and>
          (\<forall>i < length (reuse_blocks pl). reuse_blocks pl ! i < pool_size (mgr_pool ?m) \<and>
             state_at (mgr_pool ?m) (reuse_blocks pl ! i) = Sealed (chain_hash sha (mgr_block_len ?m) ?ctx (Suc i)))"
    using V pl reused by (cases plan) simp_all
  show ?thesis
  proof (cases "reserve_need ?m rid plan (reused + n) \<le> available (mgr_pool ?m)")
    case False
    have "reserve_need ?m rid plan (reused + n) = blocks_for ?bl n"
      using none reused by (cases plan) (simp_all add: reserve_need_def mgr_block_table_def)
    moreover have "plan = None \<or> (\<exists>pl. plan = Some pl \<and> allocations ?m rid = None \<and> reused_len pl < reused + n)"
      using none reused n(1) by (cases plan) auto
    moreover have "allocations ?m rid \<noteq> None \<or> 0 < reused + n" using n(1) by simp
    ultimately have "reserve_to rid plan (reused + n) ?m = (Inl (InsufficientBlocks (blocks_for ?bl n) (available (mgr_pool ?m))), ?m)"
      using reserve_to_full [OF mgr_okD(1) [OF d(3)] size, of plan rid] False by simp
    then have "schedule_one rid plan remaining s = (Inl (InsufficientBlocks (blocks_for ?bl n) (available (mgr_pool ?m))), s)"
      unfolding run by (simp add: cbind_def on_cache_def)
    moreover have "available (mgr_pool ?m) < blocks_for ?bl n" using False \<open>reserve_need _ _ _ _ = _\<close> by simp
    ultimately show ?thesis using n(3,4) by blast
  next
    case True
    obtain table m ids' where m: "reserve_to rid plan (reused + n) ?m = (Inr table, m)" "mgr_ok sha m ((sview (sched_requests s))(rid \<mapsto> (?ctx, reused)))"
      "mgr_block_table m rid = table" "reused + n \<le> length table * mgr_block_len ?m" "mgr_block_len m = mgr_block_len ?m"
      "\<forall>x. x \<noteq> rid \<longrightarrow> mgr_block_table m x = table_of s x" "pool_keeps (\<lambda>b. b \<in># refs (allocations ?m)) (mgr_pool ?m) (mgr_pool m)"
      "table = mgr_block_table ?m rid @ (case plan of None \<Rightarrow> [] | Some pl \<Rightarrow> reuse_blocks pl) @ ids'"
      using reserve_to_ok [OF d(3) size plc _ True] n(1) by auto
    let ?r = "r\<lparr> rq_state := Running, cached_len := reused \<rparr>"
    let ?s1 = "s\<lparr> sched_cache := m \<rparr>"
    let ?s2 = "s\<lparr> waiting_ids := rest, running_ids := running_ids s @ [rid], sched_requests := (sched_requests s)(rid \<mapsto> ?r), sched_cache := m \<rparr>"
    have one: "schedule_one rid plan remaining s = (Inr (Some (?item table, n)), ?s1)"
      unfolding run using m(1) by (simp add: cbind_def on_cache_def)
    have adm: "admit r = (Inr (), r\<lparr> rq_state := Running \<rparr>)" "rq_valid (r\<lparr> rq_state := Running \<rparr>)" using admit_ok [OF ids(4) r(2)] by simp_all
    have reu: "reuse reused (r\<lparr> rq_state := Running \<rparr>) = (Inr (), ?r)" "rq_valid ?r"
      using reuse_ok [OF adm(2), of reused] reused_lt ids(2) by simp_all
    have zero: "reused = 0 \<Longrightarrow> ?r = r\<lparr> rq_state := Running \<rparr>" using ids(2) by (cases r) simp
    have front: "admit_front rid reused ?s1 = (Inr (), ?s2)"
      using w r(1) adm(1) reu(1) zero by (auto simp: admit_front_def cbind_def modify_def on_request_def)
    have new: "stored_ok ?bl (next_arrival s) rid ?r" using st reu(2) reused_lt r(2) by (simp add: stored_ok_def fits_word_def context_token_ids_def)
    have nr: "rid \<notin> set (running_ids s)" using d(9) r by (auto simp: in_state_def)
    have core: "sched_core sha ?s2"
    proof (rule sched_coreI [OF ok r(1) _ _ _ _ new])
      show "mgr_ok sha (sched_cache ?s2) ((sview (sched_requests s))(rid := request_view ?r))"
        using m(2) by (simp add: request_view_def context_token_ids_def)
      show "x \<in> set (waiting_ids ?s2) \<longleftrightarrow> (if x = rid then rq_state ?r = Waiting else in_state (sched_requests s) Waiting x)" for x
        using d(8) d(10) [of x] w by auto
      show "x \<in> set (running_ids ?s2) \<longleftrightarrow> (if x = rid then rq_state ?r = Running else in_state (sched_requests s) Running x)" for x
        using d(9) [of x] by auto
    qed (use d(7,8) w nr m(5) in auto)
    have item: "item_ok ?s2 (?item table)"
    proof -
      have "?need \<longleftrightarrow> work_is_decode ?r \<or> reused + n = length ?ctx" using n(2) reused_lt by (auto simp: work_is_decode_def)
      then show ?thesis using m(3-5) n ids len reused_lt by (simp add: item_ok_def item_for_def context_token_ids_def work_is_decode_def)
    qed
    note len' = view_bounded [OF ok]
    have "contents_ok m G ((sview (sched_requests s))(rid \<mapsto> (?ctx, reused)))"
      if "collision_free sha (sblock_len s) P" "\<forall>rid r. sched_requests s rid = Some r \<longrightarrow> P (context_token_ids r)"
        "contents_ok (sched_cache s) G (sview (sched_requests s))" for P G
    proof -
      have all: "\<forall>y cx cc. sview (sched_requests s) y = Some (cx, cc) \<longrightarrow> P cx \<and> cc \<le> length cx" using len' that(2) by metis
      show ?thesis
        by (rule reserve_contents [OF d(3) that(3,1) all _ _ plc]) (use that(2) r(1) n(2) m(3,5,6,8) in auto)
    qed
    then have "keeps_contents sha s ?s2"
      using m(5) r(1) by (auto simp: keeps_contents_def sview_update request_view_def context_token_ids_def)
    then have "\<exists>item s1 s2. schedule_one rid plan remaining s = (Inr (Some (item, length (input_token_ids item))), s1) \<and>
      admit_front rid reused s1 = (Inr (), s2) \<and> length (input_token_ids item) \<le> remaining \<and> sched_core sha s2 \<and> request_id item = rid \<and>
      item_ok s2 item \<and> sched_requests s2 = (sched_requests s)(rid \<mapsto> ?r) \<and>
      s2 = s\<lparr> waiting_ids := rest, running_ids := running_ids s @ [rid], sched_requests := sched_requests s2, sched_cache := sched_cache s2 \<rparr> \<and>
      sblock_len s2 = sblock_len s \<and> pool_size (mgr_pool (sched_cache s2)) = pool_size (mgr_pool (sched_cache s)) \<and>
      (\<forall>x. x \<noteq> rid \<longrightarrow> table_of s2 x = table_of s x) \<and> keeps_contents sha s s2"
      using one front core item n(3) len m(5-7) by (intro exI [of _ "?item table"] exI [of _ ?s1] exI [of _ ?s2]) (simp add: pool_keeps_def)
    then show ?thesis by blast
  qed
qed

end
