(* ===== verification/SchedulerRun.thy ===== *)
theory SchedulerRun
  imports SchedulerInv
begin

text \<open>
  The loops of \<open>schedule\<close>: what they select, whom they preempt or fail and on whose behalf, and that the
  invariant survives.
\<close>

declare try_schedule_running.simps [simp del] schedule_waiting.simps [simp del]

section \<open>Victims\<close>

definition preempted :: "request \<Rightarrow> request" where
  "preempted r = r\<lparr> rq_state := Waiting, cached_len := 0 \<rparr>"

definition failed :: "string \<Rightarrow> request \<Rightarrow> request" where
  "failed msg r = r\<lparr> rq_state := Failed, rq_error := Some msg \<rparr>"

definition admitted :: "nat \<Rightarrow> request \<Rightarrow> request" where
  "admitted c r = r\<lparr> rq_state := Running, cached_len := c \<rparr>"

lemma request_change_simps [simp]:
  "rq_state (preempted r) = Waiting" "rq_state (failed msg r) = Failed" "rq_state (admitted c r) = Running"
  "context_token_ids (preempted r) = context_token_ids r" "context_token_ids (failed msg r) = context_token_ids r"
  "context_token_ids (admitted c r) = context_token_ids r"
  by (simp_all add: preempted_def failed_def admitted_def context_token_ids_def)

text \<open>\<open>l\<close> comes before \<open>r\<close> in the policy's order.\<close>

definition precedes :: "policy \<Rightarrow> request \<Rightarrow> request \<Rightarrow> bool" where
  "precedes pol l r = (pol (policy_request_of l) (policy_request_of r) \<noteq> Greater)"

lemma victim_comes_last:
  assumes pol: "scheduling_policy (sched_policy s)" and v: "victim_id protected s = Some v"
    and rid: "rid \<in> set (running_ids s)" "is_running s rid" "rid \<notin> protected" "rid \<noteq> v"
  shows "precedes (sched_policy s) (the (sched_requests s rid)) (the (sched_requests s v))"
proof -
  let ?cmp = "\<lambda>l r. sched_policy s (policy_request_of (the (sched_requests s l))) (policy_request_of (the (sched_requests s r)))"
  let ?ids = "filter (\<lambda>rid. rid \<notin> protected) (ordered_running_ids s)"
  have v': "?ids \<noteq> []" "v = last ?ids" using v by (auto simp: victim_id_def Let_def split: if_splits)
  have "sorted_wrt (\<lambda>l r. ?cmp l r \<noteq> Greater) (ordered_running_ids s)"
    unfolding ordered_running_ids_def by (rule scheduling_policy.ordered [OF pol])
  then have "sorted_wrt (\<lambda>l r. ?cmp l r \<noteq> Greater) (butlast ?ids @ [v])"
    using v' by (simp add: sorted_wrt_filter append_butlast_last_id)
  moreover have "rid \<in> set (butlast ?ids)"
  proof -
    have "rid \<in> set ?ids" using rid by (simp add: ordered_running_ids_def)
    then have "rid \<in> set (butlast ?ids @ [v])" using v' by (simp add: append_butlast_last_id)
    then show ?thesis using rid(4) by simp
  qed
  ultimately show ?thesis by (auto simp: precedes_def sorted_wrt_append)
qed

text \<open>What scheduling never changes.\<close>

definition sched_frame :: "(8 word list \<Rightarrow> digest) \<Rightarrow> scheduler \<Rightarrow> scheduler \<Rightarrow> bool" where
  "sched_frame sha s s' =
     (sched_config s' = sched_config s \<and> sched_policy s' = sched_policy s \<and> next_arrival s' = next_arrival s \<and>
      next_step s' = next_step s \<and> outstanding s' = outstanding s \<and> sblock_len s' = sblock_len s \<and>
      pool_size (mgr_pool (sched_cache s')) = pool_size (mgr_pool (sched_cache s)) \<and> keeps_contents sha s s')"

lemma sched_frame_refl [simp]: "sched_frame sha s s"
  by (simp add: sched_frame_def)

lemma sched_frame_trans: "sched_frame sha s s' \<Longrightarrow> sched_frame sha s' s'' \<Longrightarrow> sched_frame sha s s''"
  using keeps_contents_trans by (auto simp: sched_frame_def)

lemma taken_off_frame:
  "taken_off s rid r' s' \<Longrightarrow> sched_requests s rid = Some r \<Longrightarrow> context_token_ids r' = context_token_ids r \<Longrightarrow> rq_state r' \<noteq> Running \<Longrightarrow> sched_frame sha s s'"
  using taken_off_contents by (auto simp: sched_frame_def taken_off_def)

lemma reserved_requests: "reserved s rid s' \<Longrightarrow> sched_requests s' = sched_requests s"
  unfolding reserved_def by (metis scheduler.select_convs(4) scheduler.surjective scheduler.update_convs(3))

lemma reserved_frame:
  assumes "sched_core sha s" "sched_requests s rid = Some r" "rq_state r = Running" "reserved s rid s'" "table_of s' rid = table_of s rid @ ids"
  shows "sched_frame sha s s'" "running_ids s' = running_ids s" "waiting_ids s' = waiting_ids s"
proof -
  have eq: "s' = s\<lparr> sched_cache := sched_cache s' \<rparr>" using assms(4) unfolding reserved_def by blast
  have "sched_config s' = sched_config s" "sched_policy s' = sched_policy s" "next_arrival s' = next_arrival s" "next_step s' = next_step s"
    "outstanding s' = outstanding s" "running_ids s' = running_ids s" "waiting_ids s' = waiting_ids s"
    by (subst eq, simp)+
  with reserved_contents [OF assms] assms(4) show "sched_frame sha s s'" "running_ids s' = running_ids s" "waiting_ids s' = waiting_ids s"
    by (simp_all add: sched_frame_def reserved_def)
qed

section \<open>One running request\<close>

definition tried ::
    "(8 word list \<Rightarrow> digest) \<Rightarrow> string \<Rightarrow> request \<Rightarrow> nat \<Rightarrow> string set \<Rightarrow> scheduled_request list \<Rightarrow> scheduler
       \<Rightarrow> nat \<Rightarrow> scheduled_request list \<Rightarrow> scheduler \<Rightarrow> bool" where
  "tried sha rid r remaining protected selected s used selected' s' =
     (sched_core sha s' \<and> sched_frame sha s s' \<and>
      (\<forall>x \<in> protected. sched_requests s' x = sched_requests s x \<and> table_of s' x = table_of s x) \<and>
      ((\<exists>item. selected' = selected @ [item] \<and> used = length (input_token_ids item) \<and> 0 < used \<and> used \<le> remaining \<and> request_id item = rid \<and>
          item_ok s' item \<and> sched_requests s' rid = Some r) \<or>
       (used = 0 \<and> selected' = selected \<and> (\<exists>msg. sched_requests s' rid = Some (failed msg r)))) \<and>
      (\<forall>x. x \<noteq> rid \<longrightarrow> sched_requests s' x = sched_requests s x \<or>
         (\<exists>rx. sched_requests s x = Some rx \<and> rq_state rx = Running \<and> x \<notin> protected \<and> sched_requests s' x = Some (preempted rx) \<and>
           precedes (sched_policy s) r rx)))"

lemma tried_idle:
  assumes t: "tried sha rid r remaining protected selected s used selected' s'" and x: "x \<noteq> rid" "sched_requests s x = Some rx" "rq_state rx \<noteq> Running"
  shows "sched_requests s' x = sched_requests s x"
proof -
  have "sched_requests s' x = sched_requests s x \<or> (\<exists>ry. sched_requests s x = Some ry \<and> rq_state ry = Running)"
    using t x(1) unfolding tried_def by blast
  with x(2,3) show ?thesis by auto
qed

lemma item_ok_nonempty: "item_ok s item \<Longrightarrow> 0 < length (input_token_ids item)"
  by (auto simp: item_ok_def item_for_def)

lemma try_schedule_ok:
  assumes "sched_core sha s" "scheduling_policy (sched_policy s)" "sched_requests s rid = Some r" "rq_state r = Running"
    and "rid \<notin> protected" "0 < remaining"
  shows "\<exists>used selected' s'. try_schedule_running rid remaining protected selected s = (Inr (used, selected'), s') \<and>
    tried sha rid r remaining protected selected s used selected' s'"
  using assms
proof (induction "length (running_ids s)" arbitrary: s rule: less_induct)
  case less
  note ok = less.prems(1) and pol = less.prems(2) and r = less.prems(3,4) and np = less.prems(5) and rem = less.prems(6)
  note d = sched_coreD [OF ok]
  from schedule_one_running [OF ok r rem] consider
      item s1 ids where "schedule_one rid None remaining s = (Inr (Some (item, length (input_token_ids item))), s1)"
        "length (input_token_ids item) \<le> remaining" "sched_core sha s1" "request_id item = rid" "item_ok s1 item" "reserved s rid s1"
        "table_of s1 rid = table_of s rid @ ids"
    | a b where "schedule_one rid None remaining s = (Inl (InsufficientBlocks a b), s)" by blast
  then show ?case
  proof cases
    case 1
    have "try_schedule_running rid remaining protected selected s = (Inr (length (input_token_ids item), selected @ [item]), s1)"
      by (subst try_schedule_running.simps) (simp add: 1(1))
    moreover have "\<forall>x \<in> protected. table_of s1 x = table_of s x" using 1(6) np unfolding reserved_def by metis
    then have "tried sha rid r remaining protected selected s (length (input_token_ids item)) (selected @ [item]) s1"
      unfolding tried_def using 1(2-5) reserved_frame(1) [OF ok r 1(6,7)] reserved_requests [OF 1(6)] r(1) item_ok_nonempty [OF 1(5)]
      by simp
    ultimately show ?thesis by blast
  next
    case 2
    have fails: "\<exists>used selected' s'. cbind (fail_id rid (oom_message rid)) (\<lambda>_. cret (0, selected)) s = (Inr (used, selected'), s') \<and>
        tried sha rid r remaining protected selected s used selected' s'"
    proof -
      obtain s' where s': "fail_id rid (oom_message rid) s = (Inr (), s')" "sched_core sha s'"
        "taken_off s rid (failed (oom_message rid) r) s'"
        using fail_id_ok [OF ok r, of "oom_message rid"] unfolding failed_def by blast
      have "tried sha rid r remaining protected selected s 0 selected s'"
        unfolding tried_def using s'(2) taken_off_frame [OF s'(3) r(1)] s'(3) np by (auto simp: taken_off_def)
      then show ?thesis using s'(1) by (simp add: cbind_def)
    qed
    show ?thesis
    proof (cases "victim_id protected s")
      case None
      have "try_schedule_running rid remaining protected selected s = cbind (fail_id rid (oom_message rid)) (\<lambda>_. cret (0, selected)) s"
        by (subst try_schedule_running.simps) (simp add: 2 None)
      then show ?thesis using fails by simp
    next
      case (Some v)
      show ?thesis
      proof (cases "v = rid")
        case True
        have "try_schedule_running rid remaining protected selected s = cbind (fail_id rid (oom_message rid)) (\<lambda>_. cret (0, selected)) s"
          by (subst try_schedule_running.simps) (simp add: 2 Some True)
        then show ?thesis using fails by simp
      next
        case False
        have v: "v \<in> set (running_ids s)" "v \<notin> protected" "is_running s v" using victim_in_running [OF Some] by auto
        obtain rv where rv: "sched_requests s v = Some rv" "rq_state rv = Running" using v(3) by (auto simp: is_running_state in_state_def)
        have here: "rid \<in> set (running_ids s)" "is_running s rid" using d(9) r by (auto simp: is_running_state in_state_def)
        have prec: "precedes (sched_policy s) r rv"
          using victim_comes_last [OF pol Some here np] False rv(1) r(1) by simp
        obtain s2 where s2: "preempt_id v s = (Inr (), s2)" "sched_core sha s2" "taken_off s v (preempted rv) s2"
          "running_ids s2 = filter (\<lambda>c. c \<noteq> v) (running_ids s)"
          using preempt_id_ok [OF ok rv] unfolding preempted_def by blast
        have shorter: "length (running_ids s2) < length (running_ids s)"
          unfolding s2(4) by (rule length_filter_less [OF v(1)]) simp
        have r2: "sched_requests s2 rid = Some r" "sched_policy s2 = sched_policy s" using s2(3) r(1) False by (auto simp: taken_off_def)
        obtain used selected' s' where t: "try_schedule_running rid remaining protected selected s2 = (Inr (used, selected'), s')"
          "tried sha rid r remaining protected selected s2 used selected' s'"
          using less.hyps [OF shorter s2(2) _ r2(1) r(2) np rem] pol r2(2) by auto
        have run: "try_schedule_running rid remaining protected selected s = (Inr (used, selected'), s')"
          by (subst try_schedule_running.simps) (simp add: 2 Some False s2(1) t(1))
        have f: "sched_frame sha s s2" by (rule taken_off_frame [OF s2(3) rv(1)]) simp_all
        have others: "sched_requests s' x = sched_requests s x \<or>
         (\<exists>rx. sched_requests s x = Some rx \<and> rq_state rx = Running \<and> x \<notin> protected \<and> sched_requests s' x = Some (preempted rx) \<and>
           precedes (sched_policy s) r rx)" if x: "x \<noteq> rid" for x
        proof (cases "x = v")
          case True
          have "sched_requests s2 v = Some (preempted rv)" using s2(3) by (simp add: taken_off_def)
          then have "sched_requests s' v = Some (preempted rv)" using t(2) False unfolding tried_def
            by (metis option.inject request_change_simps(1) request_state.distinct(1))
          then show ?thesis using rv v(2) prec True by blast
        next
          case nv: False
          then have "sched_requests s2 x = sched_requests s x" using s2(3) by (simp add: taken_off_def)
          then show ?thesis using t(2) x r2(2) unfolding tried_def by metis
        qed
        have prot: "\<forall>x \<in> protected. sched_requests s2 x = sched_requests s x \<and> table_of s2 x = table_of s x"
          using s2(3) v(2) by (auto simp: taken_off_def)
        have "tried sha rid r remaining protected selected s used selected' s'"
          using t(2) others prot sched_frame_trans [OF f] unfolding tried_def by simp
        then show ?thesis using run by blast
      qed
    qed
  qed
qed

section \<open>The running requests\<close>

text \<open>What the loop over the running requests does to a request: nothing, or it fails, or it is preempted for
  the sake of one that precedes it and is either selected or has failed.\<close>

definition displaced ::
    "policy \<Rightarrow> (string \<rightharpoonup> request) \<Rightarrow> (string \<rightharpoonup> request) \<Rightarrow> scheduled_request list \<Rightarrow> string \<Rightarrow> bool" where
  "displaced pol q q' selected x =
     (q' x = q x \<or> (\<exists>r msg. q x = Some r \<and> rq_state r = Running \<and> q' x = Some (failed msg r)) \<or>
      (\<exists>r b rb. q x = Some r \<and> rq_state r = Running \<and> q' x = Some (preempted r) \<and> b \<noteq> x \<and> q b = Some rb \<and> rq_state rb = Running \<and>
         precedes pol rb r \<and> ((\<exists>msg. q' b = Some (failed msg rb)) \<or> b \<in> set (batch_ids selected) \<and> q' b = Some rb)))"

lemma displaced_same [simp]: "displaced pol q q selected x"
  by (simp add: displaced_def)

lemma displacedI:
  assumes "q x = Some r" "rq_state r = Running" "q' x = Some (preempted r)" "b \<noteq> x" "q b = Some rb" "rq_state rb = Running" "precedes pol rb r"
    and "(\<exists>msg. q' b = Some (failed msg rb)) \<or> b \<in> set (batch_ids selected) \<and> q' b = Some rb"
  shows "displaced pol q q' selected x"
  unfolding displaced_def
  by (rule disjI2, rule disjI2, rule exI [of _ r], rule exI [of _ b], rule exI [of _ rb], intro conjI) (fact assms)+

lemma displaced_running: "displaced pol q q' selected x \<Longrightarrow> q' x = Some r \<Longrightarrow> rq_state r = Running \<Longrightarrow> q x = Some r"
  by (auto simp: displaced_def)

lemma displaced_step:
  assumes before: "\<And>y. displaced (sched_policy s) q0 (sched_requests s) selected y"
    and t: "tried sha rid r remaining (set (batch_ids selected)) selected s used selected' s'"
    and r: "sched_requests s rid = Some r" "rq_state r = Running"
  shows "displaced (sched_policy s) q0 (sched_requests s') selected' x"
proof -
  let ?q = "sched_requests s" and ?q' = "sched_requests s'"
  have r0: "q0 rid = Some r" using displaced_running before r by blast
  have rid: "(\<exists>msg. ?q' rid = Some (failed msg r)) \<or> rid \<in> set (batch_ids selected') \<and> ?q' rid = Some r"
    using t by (auto simp: tried_def batch_ids_def)
  have sub: "set (batch_ids selected) \<subseteq> set (batch_ids selected')" using t by (auto simp: tried_def batch_ids_def)
  show ?thesis
  proof (cases "x = rid")
    case True
    then show ?thesis using rid r0 r(2) by (auto simp: displaced_def)
  next
    case False
    from t False consider "?q' x = ?q x"
      | rx where "?q x = Some rx" "rq_state rx = Running" "?q' x = Some (preempted rx)" "precedes (sched_policy s) r rx"
      unfolding tried_def by metis
    then show ?thesis
    proof cases
      case 1
      from before [of x] consider "?q x = q0 x" | rx msg where "q0 x = Some rx" "rq_state rx = Running" "?q x = Some (failed msg rx)"
        | rx b rb where "q0 x = Some rx" "rq_state rx = Running" "?q x = Some (preempted rx)" "b \<noteq> x" "q0 b = Some rb" "rq_state rb = Running"
          "precedes (sched_policy s) rb rx" "(\<exists>msg. ?q b = Some (failed msg rb)) \<or> b \<in> set (batch_ids selected) \<and> ?q b = Some rb"
        unfolding displaced_def by blast
      then show ?thesis
      proof cases
        case 3
        have "(\<exists>msg. ?q' b = Some (failed msg rb)) \<or> b \<in> set (batch_ids selected') \<and> ?q' b = Some rb"
        proof (cases "b \<in> set (batch_ids selected)")
          case True
          then have "?q' b = ?q b" using t by (simp add: tried_def)
          then show ?thesis using 3(8) sub True by auto
        next
          case False
          then obtain msg where f: "?q b = Some (failed msg rb)" using 3(8) by blast
          then have "b \<noteq> rid" using r by auto
          then have "?q' b = ?q b" using tried_idle [OF t] f by simp
          then show ?thesis using f by auto
        qed
        moreover have "?q' x = Some (preempted rx)" using 3(3) 1 by simp
        ultimately show ?thesis by (intro displacedI [where q = q0 and x = x and q' = "?q'" and b = b, OF 3(1,2) _ 3(4-7)])
      qed (use 1 in \<open>auto simp: displaced_def\<close>)
    next
      case 2
      have "q0 x = Some rx" using displaced_running before 2(1,2) by blast
      then show ?thesis by (rule displacedI [where q = q0 and x = x and q' = "?q'" and b = rid and rb = r, OF _ 2(2,3) _ r0 r(2) 2(4) rid]) (use False in simp)
    qed
  qed
qed

text \<open>The outcome of the loop.\<close>

definition batch_tokens :: "scheduled_request list \<Rightarrow> nat" where
  "batch_tokens items = sum_list (map (\<lambda>it. length (input_token_ids it)) items)"

lemma batch_tokens_simps [simp]:
  "batch_tokens [] = 0" "batch_tokens (items @ items2) = batch_tokens items + batch_tokens items2"
  "batch_tokens (it # items) = length (input_token_ids it) + batch_tokens items"
  by (simp_all add: batch_tokens_def)

definition loop_ran ::
    "(8 word list \<Rightarrow> digest) \<Rightarrow> string list \<Rightarrow> nat \<Rightarrow> scheduled_request list \<Rightarrow> scheduler
       \<Rightarrow> nat \<Rightarrow> scheduled_request list \<Rightarrow> scheduler \<Rightarrow> bool" where
  "loop_ran sha ids remaining selected s remaining' selected' s' =
     (sched_core sha s' \<and> sched_frame sha s s' \<and> items_ok s' selected' \<and> remaining' + batch_tokens selected' = remaining + batch_tokens selected \<and>
      (remaining' = 0 \<or> (\<forall>x \<in> set ids. is_running s' x \<longrightarrow> x \<in> set (batch_ids selected'))) \<and>
      set selected \<subseteq> set selected' \<and>
      (\<forall>q0. (\<forall>x. displaced (sched_policy s) q0 (sched_requests s) selected x) \<longrightarrow>
         (\<forall>x. displaced (sched_policy s) q0 (sched_requests s') selected' x)))"

lemma loop_ran_stays: "loop_ran sha ids remaining selected s remaining' selected' s' \<Longrightarrow> is_running s' x \<Longrightarrow> is_running s x"
proof -
  assume r: "loop_ran sha ids remaining selected s remaining' selected' s'" "is_running s' x"
  then have "displaced (sched_policy s) (sched_requests s) (sched_requests s') selected' x" by (simp add: loop_ran_def)
  with r(2) show ?thesis using displaced_running unfolding is_running_state in_state_def by metis
qed

lemma schedule_running_ok:
  assumes "sched_core sha s" "scheduling_policy (sched_policy s)" "items_ok s selected" "protected = set (batch_ids selected)"
    and "distinct ids" "set ids \<inter> set (batch_ids selected) = {}"
  shows "\<exists>remaining' selected' s'. schedule_running ids remaining protected selected s = (Inr (remaining', set (batch_ids selected'), selected'), s') \<and>
    loop_ran sha ids remaining selected s remaining' selected' s'"
  using assms
proof (induction ids arbitrary: remaining protected selected s)
  case Nil
  then show ?case by (simp add: loop_ran_def)
next
  case (Cons rid ids)
  have ids: "distinct ids" "set ids \<inter> set (batch_ids selected) = {}" using Cons.prems(5,6) by auto
  consider "remaining = 0" | "0 < remaining" "\<not> is_running s rid" | "0 < remaining" "is_running s rid" by blast
  then show ?case
  proof cases
    case 1
    then show ?thesis using Cons.prems by (simp add: loop_ran_def)
  next
    case 2
    obtain remaining' selected' s' where ih: "schedule_running ids remaining protected selected s = (Inr (remaining', set (batch_ids selected'), selected'), s')"
      "loop_ran sha ids remaining selected s remaining' selected' s'"
      using Cons.IH [OF Cons.prems(1-4) ids, of remaining] by blast
    have "\<not> is_running s' rid" using loop_ran_stays [OF ih(2)] 2(2) by blast
    then have "loop_ran sha (rid # ids) remaining selected s remaining' selected' s'" using ih(2) by (simp add: loop_ran_def)
    moreover have "schedule_running (rid # ids) remaining protected selected s = (Inr (remaining', set (batch_ids selected'), selected'), s')"
      using 2 ih(1) by simp
    ultimately show ?thesis by blast
  next
    case 3
    then obtain r where r: "sched_requests s rid = Some r" "rq_state r = Running" by (auto simp: is_running_state in_state_def)
    have np: "rid \<notin> protected" using Cons.prems(4,6) by auto
    obtain used selected1 s1 where t: "try_schedule_running rid remaining protected selected s = (Inr (used, selected1), s1)"
      "tried sha rid r remaining protected selected s used selected1 s1"
      using try_schedule_ok [OF Cons.prems(1,2) r np 3(1)] by blast
    have core1: "sched_core sha s1" and f1: "sched_frame sha s s1" using t(2) by (simp_all add: tried_def)
    have pol1: "sched_policy s1 = sched_policy s" using f1 by (simp add: sched_frame_def)
    then have spol1: "scheduling_policy (sched_policy s1)" using Cons.prems(2) by simp
    have kept: "items_ok s1 selected"
      by (rule items_ok_frame [OF Cons.prems(3)]) (use t(2) Cons.prems(4) f1 in \<open>auto simp: tried_def sched_frame_def\<close>)
    have step: "\<forall>x. displaced (sched_policy s) q0 (sched_requests s1) selected1 x"
      if "\<forall>x. displaced (sched_policy s) q0 (sched_requests s) selected x" for q0
      using displaced_step [where s = s and sha = sha and rid = rid] that t(2) r unfolding Cons.prems(4) by blast
    show ?thesis
    proof (cases "used = 0")
      case True
      then have sel: "selected1 = selected" and gone: "\<exists>msg. sched_requests s1 rid = Some (failed msg r)" using t(2) by (auto simp: tried_def)
      obtain remaining' selected' s' where ih: "schedule_running ids remaining protected selected s1 = (Inr (remaining', set (batch_ids selected'), selected'), s')"
        "loop_ran sha ids remaining selected s1 remaining' selected' s'"
        using Cons.IH [OF core1 spol1 kept Cons.prems(4) ids, of remaining] by blast
      have "\<not> is_running s1 rid" using gone by (auto simp: is_running_state in_state_def)
      then have "\<not> is_running s' rid" using loop_ran_stays [OF ih(2)] by blast
      moreover have "\<forall>x. displaced (sched_policy s) q0 (sched_requests s') selected' x"
        if "\<forall>x. displaced (sched_policy s) q0 (sched_requests s) selected x" for q0
        using ih(2) step [OF that] pol1 sel unfolding loop_ran_def by simp
      ultimately have "loop_ran sha (rid # ids) remaining selected s remaining' selected' s'"
        using ih(2) sched_frame_trans [OF f1] unfolding loop_ran_def by auto
      moreover have "schedule_running (rid # ids) remaining protected selected s = (Inr (remaining', set (batch_ids selected'), selected'), s')"
        using 3 t(1) True sel ih(1) by (simp add: cbind_def)
      ultimately show ?thesis by blast
    next
      case False
      then obtain item where item: "selected1 = selected @ [item]" "used = length (input_token_ids item)" "used \<le> remaining" "request_id item = rid"
        "item_ok s1 item" using t(2) by (auto simp: tried_def)
      have prot: "insert rid protected = set (batch_ids selected1)" using item(1,4) Cons.prems(4) by (simp add: batch_ids_def)
      have ok1: "items_ok s1 selected1" using kept item(1,4,5) np Cons.prems(4) by (auto simp: items_ok_def batch_ids_def)
      have disj: "set ids \<inter> set (batch_ids selected1) = {}" using Cons.prems(5,6) item(1,4) by (auto simp: batch_ids_def)
      obtain remaining' selected' s' where ih: "schedule_running ids (remaining - used) (insert rid protected) selected1 s1 = (Inr (remaining', set (batch_ids selected'), selected'), s')"
        "loop_ran sha ids (remaining - used) selected1 s1 remaining' selected' s'"
        using Cons.IH [OF core1 spol1 ok1 prot ids(1) disj, of "remaining - used"] by blast
      have mem: "item \<in> set selected'" "set selected \<subseteq> set selected'" using ih(2) item(1) by (auto simp: loop_ran_def)
      then have "rid \<in> set (batch_ids selected')" "selected' \<noteq> []" using item(4) by (auto simp: batch_ids_def)
      moreover have "\<forall>x. displaced (sched_policy s) q0 (sched_requests s') selected' x"
        if "\<forall>x. displaced (sched_policy s) q0 (sched_requests s) selected x" for q0
        using ih(2) step [OF that] pol1 unfolding loop_ran_def by simp
      ultimately have "loop_ran sha (rid # ids) remaining selected s remaining' selected' s'"
        using ih(2) mem(2) sched_frame_trans [OF f1] item(1-3) unfolding loop_ran_def by auto
      moreover have "schedule_running (rid # ids) remaining protected selected s = (Inr (remaining', set (batch_ids selected'), selected'), s')"
        using 3 t(1) False ih(1) by (simp add: cbind_def)
      ultimately show ?thesis by blast
    qed
  qed
qed

section \<open>The waiting requests\<close>

definition joined ::
    "(8 word list \<Rightarrow> digest) \<Rightarrow> nat \<Rightarrow> scheduled_request list \<Rightarrow> scheduler \<Rightarrow> scheduled_request list \<Rightarrow> scheduler \<Rightarrow> bool" where
  "joined sha remaining selected s selected' s' =
     (sched_core sha s' \<and> sched_frame sha s s' \<and> items_ok s' selected' \<and> set selected \<subseteq> set selected' \<and>
      batch_tokens selected' \<le> remaining + batch_tokens selected \<and>
      (\<forall>x. sched_requests s' x = sched_requests s x \<or>
         (\<exists>r c. sched_requests s x = Some r \<and> rq_state r = Waiting \<and> sched_requests s' x = Some (admitted c r) \<and> x \<in> set (batch_ids selected'))) \<and>
      (selected' = [] \<longrightarrow> s' = s \<and> (remaining = 0 \<or> waiting_ids s = [] \<or>
         (\<exists>n. n \<le> max_prefill_chunk_len (sched_config s) \<and> n \<le> remaining \<and> available (mgr_pool (sched_cache s)) < blocks_for (sblock_len s) n))))"

lemma joined_refl:
  assumes "sched_core sha s" "items_ok s selected"
    and "remaining = 0 \<or> waiting_ids s = [] \<or>
         (\<exists>n. n \<le> max_prefill_chunk_len (sched_config s) \<and> n \<le> remaining \<and> available (mgr_pool (sched_cache s)) < blocks_for (sblock_len s) n)"
  shows "joined sha remaining selected s selected s"
  using assms by (simp add: joined_def)

lemma schedule_waiting_ok:
  assumes "sched_core sha s" "items_ok s selected"
  shows "\<exists>selected' s'. schedule_waiting sha remaining selected s = (Inr selected', s') \<and> joined sha remaining selected s selected' s'"
  using assms
proof (induction "length (waiting_ids s)" arbitrary: remaining selected s rule: less_induct)
  case less
  note ok = less.prems(1) and items = less.prems(2)
  note d = sched_coreD [OF ok]
  show ?case
  proof (cases "remaining = 0 \<or> waiting_ids s = []")
    case True
    have "schedule_waiting sha remaining selected s = (Inr selected, s)"
      by (subst schedule_waiting.simps) (use True in auto)
    then show ?thesis using joined_refl [OF ok items] True by blast
  next
    case False
    then obtain rid rest where w: "waiting_ids s = rid # rest" and rem: "0 < remaining" by (cases "waiting_ids s") auto
    obtain r where r: "sched_requests s rid = Some r" "rq_state r = Waiting" using d(10) [of rid] w by (auto simp: in_state_def)
    define plan where "plan = plan_reuse sha (prompt_token_ids r) (sched_cache s)"
    define reused where "reused = (case plan of Some pl \<Rightarrow> reused_len pl | None \<Rightarrow> 0)"
    from schedule_front [OF ok w r rem plan_def reused_def] consider
        item s1 s2 where "schedule_one rid plan remaining s = (Inr (Some (item, length (input_token_ids item))), s1)"
          "admit_front rid reused s1 = (Inr (), s2)" "length (input_token_ids item) \<le> remaining" "sched_core sha s2" "request_id item = rid"
          "item_ok s2 item" "sched_requests s2 = (sched_requests s)(rid \<mapsto> r\<lparr> rq_state := Running, cached_len := reused \<rparr>)"
          "s2 = s\<lparr> waiting_ids := rest, running_ids := running_ids s @ [rid], sched_requests := sched_requests s2, sched_cache := sched_cache s2 \<rparr>"
          "sblock_len s2 = sblock_len s" "pool_size (mgr_pool (sched_cache s2)) = pool_size (mgr_pool (sched_cache s))"
          "\<forall>x. x \<noteq> rid \<longrightarrow> table_of s2 x = table_of s x" "keeps_contents sha s s2"
      | a b n where "schedule_one rid plan remaining s = (Inl (InsufficientBlocks a b), s)" "n \<le> max_prefill_chunk_len (sched_config s)" "n \<le> remaining"
          "available (mgr_pool (sched_cache s)) < blocks_for (sblock_len s) n"
      by blast
    then show ?thesis
    proof cases
      case 1
      have same: "waiting_ids s2 = rest" "sched_config s2 = sched_config s" "sched_policy s2 = sched_policy s" "next_arrival s2 = next_arrival s"
        "next_step s2 = next_step s" "outstanding s2 = outstanding s"
        by (subst 1(8), simp)+
      have f: "sched_frame sha s s2" using same 1(9,10,12) by (simp add: sched_frame_def)
      have nb: "rid \<notin> set (batch_ids selected)"
        using items r by (auto simp: items_ok_def batch_ids_def item_ok_def item_for_def)
      have "items_ok s2 selected"
        by (rule items_ok_frame [OF items 1(9)]) (use nb 1(7,11) in auto)
      then have items2: "items_ok s2 (selected @ [item])" using 1(5,6) nb by (auto simp: items_ok_def batch_ids_def)
      have shorter: "length (waiting_ids s2) < length (waiting_ids s)" using same(1) w by simp
      obtain selected' s' where ih: "schedule_waiting sha (remaining - length (input_token_ids item)) (selected @ [item]) s2 = (Inr selected', s')"
        "joined sha (remaining - length (input_token_ids item)) (selected @ [item]) s2 selected' s'"
        using less.hyps [OF shorter 1(4) items2] by blast
      have "schedule_waiting sha remaining selected s = (Inr selected', s')"
        by (subst schedule_waiting.simps) (use rem w r 1(1,2) ih(1) in \<open>simp add: Let_def flip: plan_def reused_def\<close>)
      moreover have "joined sha remaining selected s selected' s'"
      proof -
        have mem: "item \<in> set selected'" using ih(2) by (auto simp: joined_def)
        then have here: "rid \<in> set (batch_ids selected')" "selected' \<noteq> []" using 1(5) by (auto simp: batch_ids_def)
        have step: "sched_requests s' x = sched_requests s2 x \<or>
         (\<exists>r c. sched_requests s2 x = Some r \<and> rq_state r = Waiting \<and> sched_requests s' x = Some (admitted c r) \<and> x \<in> set (batch_ids selected'))" for x
          using ih(2) unfolding joined_def by blast
        have chg: "sched_requests s' x = sched_requests s x \<or>
         (\<exists>r c. sched_requests s x = Some r \<and> rq_state r = Waiting \<and> sched_requests s' x = Some (admitted c r) \<and> x \<in> set (batch_ids selected'))" for x
        proof (cases "x = rid")
          case True
          have q2: "sched_requests s2 rid = Some (admitted reused r)" using 1(7) by (simp add: admitted_def)
          then have "sched_requests s' rid = Some (admitted reused r)" using step [of rid] by auto
          then show ?thesis using True r here(1) by blast
        next
          case False
          then have "sched_requests s2 x = sched_requests s x" using 1(7) by simp
          then show ?thesis using step [of x] by simp
        qed
        show ?thesis using ih(2) chg here sched_frame_trans [OF f] 1(3) unfolding joined_def by simp
      qed
      ultimately show ?thesis by blast
    next
      case 2
      have "schedule_waiting sha remaining selected s = (Inr selected, s)"
        by (subst schedule_waiting.simps) (use rem w r 2(1) in \<open>simp add: Let_def flip: plan_def reused_def\<close>)
      then show ?thesis using joined_refl [OF ok items] 2(2-4) by blast
    qed
  qed
qed

end
