(* ===== verification/SchedulerBatch.thy ===== *)
theory SchedulerBatch
  imports SchedulerRun
begin

text \<open>
  A whole \<open>schedule\<close> call, and the invariant of the scheduler between calls, with the batch in flight.
\<close>

section \<open>The invariant between calls\<close>

definition sched_ok :: "(8 word list \<Rightarrow> digest) \<Rightarrow> scheduler \<Rightarrow> bool" where
  "sched_ok sha s =
     (sched_core sha s \<and> scheduling_policy (sched_policy s) \<and>
      (\<forall>b. outstanding s = Some b \<longrightarrow> items_ok s (requests b) \<and> requests b \<noteq> []))"

lemma sched_core_step [simp]: "sched_core sha (s\<lparr> next_step := n, outstanding := b \<rparr>) = sched_core sha s"
  by (simp add: sched_core_def)

lemma sched_core_next_step [simp]: "sched_core sha (s\<lparr> next_step := n \<rparr>) = sched_core sha s"
  by (simp add: sched_core_def)

lemma sched_core_outstanding [simp]: "sched_core sha (s\<lparr> outstanding := b \<rparr>) = sched_core sha s"
  by (simp add: sched_core_def)

lemma items_ok_step [simp]: "items_ok (s\<lparr> next_step := n, outstanding := b \<rparr>) items = items_ok s items"
  by (simp add: items_ok_def item_ok_def)

lemma items_ok_next_step [simp]: "items_ok (s\<lparr> next_step := n \<rparr>) items = items_ok s items"
  by (simp add: items_ok_def item_ok_def)

lemma items_ok_outstanding [simp]: "items_ok (s\<lparr> outstanding := b \<rparr>) items = items_ok s items"
  by (simp add: items_ok_def item_ok_def)

text \<open>How one call of \<open>schedule\<close> changes the requests.\<close>

definition rescheduled ::
    "policy \<Rightarrow> (string \<rightharpoonup> request) \<Rightarrow> (string \<rightharpoonup> request) \<Rightarrow> scheduled_request list \<Rightarrow> bool" where
  "rescheduled pol q q' items =
     (\<exists>q1 items1. set items1 \<subseteq> set items \<and> (\<forall>x. displaced pol q q1 items1 x) \<and>
        (\<forall>x. q' x = q1 x \<or> (\<exists>r c. q1 x = Some r \<and> rq_state r = Waiting \<and> q' x = Some (admitted c r) \<and> x \<in> set (batch_ids items))))"

lemma idle_pool:
  assumes "sched_core sha s" "running_ids s = []"
  shows "available (mgr_pool (sched_cache s)) = pool_size (mgr_pool (sched_cache s))"
proof -
  note d = sched_coreD [OF assms(1)]
  have "sview (sched_requests s) = Map.empty"
  proof
    fix rid
    have "\<not> in_state (sched_requests s) Running rid" using d(9) [of rid] assms(2) by simp
    then show "sview (sched_requests s) rid = None" by (auto simp: sview_def request_view_def in_state_def split: option.splits)
  qed
  then have "refs (allocations (sched_cache s)) = {#}" using mgr_okD(3) [OF d(3)] by simp
  then have "free_set (mgr_pool (sched_cache s)) = [0..<pool_size (mgr_pool (sched_cache s))]"
    using pool_okD(4) [OF mgr_okD(4) [OF d(3)]] by simp
  then show ?thesis by (simp add: available_def)
qed

text \<open>What \<open>schedule\<close> finds when it returns nothing: nobody runs, and the queue is empty or the pool is too small
  for one chunk of the request at its front.\<close>

definition exhausted :: "scheduler \<Rightarrow> bool" where
  "exhausted s =
     (running_ids s = [] \<and>
      (waiting_ids s = [] \<or>
       (\<exists>n. n \<le> max_prefill_chunk_len (sched_config s) \<and> n \<le> max_batch_len (sched_config s) \<and>
          pool_size (mgr_pool (sched_cache s)) < blocks_for (sblock_len s) n)))"

definition batched :: "(8 word list \<Rightarrow> digest) \<Rightarrow> scheduler \<Rightarrow> scheduled_request list \<Rightarrow> scheduler \<Rightarrow> bool" where
  "batched sha s items s' =
     (sched_core sha s' \<and> sched_frame sha s s' \<and> items_ok s' items \<and> batch_tokens items \<le> max_batch_len (sched_config s) \<and>
      rescheduled (sched_policy s) (sched_requests s) (sched_requests s') items)"

lemma schedule_batch_ok:
  assumes ok: "sched_core sha s" "scheduling_policy (sched_policy s)" "outstanding s = None"
  shows "\<exists>items s'. batched sha s items s' \<and>
    schedule_batch sha s =
      (if items = [] then (Inr None, s')
       else if next_step s + 1 < word_limit
       then (Inr (Some \<lparr> step_id = next_step s, requests = items \<rparr>),
             s'\<lparr> next_step := next_step s + 1, outstanding := Some \<lparr> step_id = next_step s, requests = items \<rparr> \<rparr>)
       else (Inl ArithmeticOverflow, s')) \<and> (items = [] \<longrightarrow> exhausted s')"
proof -
  note d = sched_coreD [OF ok(1)]
  let ?ids = "ordered_running_ids s" and ?max = "max_batch_len (sched_config s)"
  have ids: "distinct ?ids" "set ?ids = {x \<in> set (running_ids s). is_running s x}" using d(7) by (auto simp: ordered_running_ids_def)
  obtain remaining items1 s1 where run: "schedule_running ?ids ?max {} [] s = (Inr (remaining, set (batch_ids items1), items1), s1)"
    "loop_ran sha ?ids ?max [] s remaining items1 s1"
    using schedule_running_ok [where protected = "{}" and selected = "[]" and remaining = ?max, OF ok(1,2) _ _ ids(1)]
    by (auto simp: items_ok_def batch_ids_def)
  have core1: "sched_core sha s1" and frame1: "sched_frame sha s s1" and items1: "items_ok s1 items1"
    and tokens: "remaining + batch_tokens items1 = ?max" using run(2) by (simp_all add: loop_ran_def)
  have disp: "\<forall>x. displaced (sched_policy s) (sched_requests s) (sched_requests s1) items1 x"
  proof -
    have "\<forall>x. displaced (sched_policy s) (sched_requests s) (sched_requests s) [] x" by simp
    then show ?thesis using run(2) unfolding loop_ran_def by blast
  qed
  obtain items s2 where wait: "schedule_waiting sha remaining items1 s1 = (Inr items, s2)" "joined sha remaining items1 s1 items s2"
    using schedule_waiting_ok [OF core1 items1] by blast
  have core2: "sched_core sha s2" and frame: "sched_frame sha s s2" using wait(2) sched_frame_trans [OF frame1] by (simp_all add: joined_def)
  have "rescheduled (sched_policy s) (sched_requests s) (sched_requests s2) items"
    unfolding rescheduled_def using wait(2) disp by (intro exI [of _ "sched_requests s1"] exI [of _ items1]) (simp add: joined_def)
  moreover have "batch_tokens items \<le> ?max" using wait(2) tokens by (simp add: joined_def)
  ultimately have b: "batched sha s items s2" using core2 frame wait(2) by (simp add: batched_def joined_def)
  have none: "exhausted s2" if "items = []"
  proof -
    have e1: "items1 = []" "s2 = s1" using wait(2) that by (auto simp: joined_def)
    have rem: "remaining = ?max" "0 < remaining" using tokens e1(1) d(1) by simp_all
    have nr: "\<not> is_running s1 x" for x
    proof
      assume x: "is_running s1 x"
      then have "is_running s x" by (rule loop_ran_stays [OF run(2)])
      then have "x \<in> set ?ids" unfolding ids(2) using d(9) by (simp add: is_running_state)
      then show False using run(2) x rem(2) e1(1) by (auto simp: loop_ran_def batch_ids_def)
    qed
    have none: "running_ids s1 = []"
    proof (cases "running_ids s1")
      case (Cons x xs)
      then have "is_running s1 x" using sched_coreD(9) [OF core1, of x] by (simp add: is_running_state)
      then show ?thesis using nr by blast
    qed simp
    have cfg: "sched_config s1 = sched_config s" using frame1 by (simp add: sched_frame_def)
    show ?thesis using wait(2) that none idle_pool [OF core1 none] e1(2) rem cfg unfolding joined_def exhausted_def by auto
  qed
  have st: "next_step s2 = next_step s" using frame by (simp add: sched_frame_def)
  have "schedule_batch sha s = (if items = [] then (Inr None, s2)
       else if next_step s + 1 < word_limit
       then (Inr (Some \<lparr> step_id = next_step s, requests = items \<rparr>),
             s2\<lparr> next_step := next_step s + 1, outstanding := Some \<lparr> step_id = next_step s, requests = items \<rparr> \<rparr>)
       else (Inl ArithmeticOverflow, s2))"
    using ok(3) run(1) wait(1) st by (simp add: schedule_batch_def cbind_def checked_add_def Let_def)
  with b none show ?thesis by blast
qed

end
