(* ===== verification/SchedulerResult.thy ===== *)
theory SchedulerResult
  imports SchedulerBatch
begin

text \<open>
  What \<open>apply_result\<close> and \<open>fail_batch\<close> do to a scheduler with a batch in flight: a result that answers the
  batch is accepted and advances exactly its requests; any other is rejected and leaves no trace.
\<close>

section \<open>Lists\<close>

lemma position_of_member: "x \<in> set xs \<Longrightarrow> \<exists>i. position_of x xs = Some i"
  by (induction xs) auto

lemma remove_at_position: "distinct xs \<Longrightarrow> position_of x xs = Some i \<Longrightarrow> remove_at i xs = filter (\<lambda>c. c \<noteq> x) xs"
proof (induction xs arbitrary: i)
  case (Cons y xs)
  show ?case
  proof (cases "x = y")
    case True
    then have "filter (\<lambda>c. c \<noteq> x) xs = xs" using Cons.prems(1) by (auto simp: filter_id_conv)
    then show ?thesis using Cons.prems(2) True by (auto simp: remove_at_def)
  next
    case False
    then obtain j where j: "i = Suc j" "position_of x xs = Some j" using Cons.prems(2) by auto
    then have "remove_at j xs = filter (\<lambda>c. c \<noteq> x) xs" using Cons.IH Cons.prems(1) by simp
    then show ?thesis using False j(1) by (simp add: remove_at_def)
  qed
qed simp

section \<open>Answers to a batch\<close>

text \<open>The result of one item, and a result that answers a batch, in any order.\<close>

definition result_for :: "scheduled_request \<Rightarrow> request_execution_result \<Rightarrow> bool" where
  "result_for it res =
     (res_request_id res = request_id it \<and> cached_len_delta res = length (input_token_ids it) \<and>
      length (generated_token_ids res) = (if need_sample it then 1 else 0))"

definition answers :: "batch_plan \<Rightarrow> execution_result \<Rightarrow> bool" where
  "answers plan result =
     (res_step_id result = step_id plan \<and> length (request_results result) = length (requests plan) \<and>
      distinct (map res_request_id (request_results result)) \<and>
      (\<forall>res \<in> set (request_results result). \<exists>it \<in> set (requests plan). result_for it res))"

text \<open>The request after its result.\<close>

definition completed :: "request_execution_result \<Rightarrow> request \<Rightarrow> request" where
  "completed res r = advanced (generated_token_ids res) (cached_len_delta res) (completion_of r res) r"

lemma completed_simps [simp]:
  "context_token_ids (completed res r) = context_token_ids r @ generated_token_ids res"
  "cached_len (completed res r) = cached_len r + cached_len_delta res" "rq_id (completed res r) = rq_id r"
  "arrival_index (completed res r) = arrival_index r" "max_new_len (completed res r) = max_new_len r"
  "prompt_token_ids (completed res r) = prompt_token_ids r" "rq_params (completed res r) = rq_params r"
  "rq_generated (completed res r) = rq_generated r @ generated_token_ids res"
  "rq_state (completed res r) = (if completion_of r res = None then rq_state r else Finished)"
  by (simp_all add: completed_def advanced_def context_token_ids_def)

definition same_settings :: "scheduler \<Rightarrow> scheduler \<Rightarrow> bool" where
  "same_settings s s' =
     (sched_config s' = sched_config s \<and> sched_policy s' = sched_policy s \<and> next_arrival s' = next_arrival s \<and>
      next_step s' = next_step s \<and> outstanding s' = outstanding s \<and> sblock_len s' = sblock_len s \<and>
      pool_size (mgr_pool (sched_cache s')) = pool_size (mgr_pool (sched_cache s)))"

lemma same_settings_refl [simp]: "same_settings s s"
  by (simp add: same_settings_def)

lemma same_settings_trans: "same_settings s s' \<Longrightarrow> same_settings s' s'' \<Longrightarrow> same_settings s s''"
  by (simp add: same_settings_def)

section \<open>Retiring\<close>

lemma retire_ok:
  assumes ok: "mgr_ok sha (sched_cache s) V" and run: "distinct (running_ids s)" "rid \<in> set (running_ids s)"
  shows "\<exists>m undos'. retire rid (s, undos) = (Inr (), s\<lparr> running_ids := filter (\<lambda>c. c \<noteq> rid) (running_ids s), sched_cache := m \<rparr>, undos') \<and>
    mgr_ok sha m (V(rid := None)) \<and> mgr_block_len m = sblock_len s \<and> pool_size (mgr_pool m) = pool_size (mgr_pool (sched_cache s)) \<and>
    (\<forall>x. x \<noteq> rid \<longrightarrow> mgr_block_table m x = table_of s x)"
proof -
  obtain m where m: "mgr_release rid (sched_cache s) = (Inr (), m)" "mgr_ok sha m (V(rid := None))" "mgr_block_len m = sblock_len s"
    "pool_size (mgr_pool m) = pool_size (mgr_pool (sched_cache s))" "\<forall>x. x \<noteq> rid \<longrightarrow> mgr_block_table m x = table_of s x"
    using mgr_release_ok [OF ok, of rid] by blast
  obtain i where i: "position_of rid (running_ids s) = Some i" using position_of_member [OF run(2)] by blast
  have "retire rid (s, undos) = (Inr (), s\<lparr> running_ids := filter (\<lambda>c. c \<noteq> rid) (running_ids s), sched_cache := m \<rparr>,
      (\<lambda>s. s\<lparr> running_ids := insert_at i rid (running_ids s) \<rparr>) # undos)"
    using m(1) i remove_at_position [OF run(1) i]
    by (simp add: retire_def cbind_def rollback_defer_def scoped_def modify_def on_cache_def)
  with m show ?thesis by blast
qed

section \<open>One result\<close>

text \<open>The executor's view of a request: its context with the new token, and what its batch has cached.\<close>

definition holds_more :: "(int list \<times> nat) option \<Rightarrow> (int list \<times> nat) option \<Rightarrow> bool" where
  "holds_more v w = (\<forall>cx c. v = Some (cx, c) \<longrightarrow> (\<exists>cy d. w = Some (cy, d) \<and> c \<le> d \<and> d \<le> length cy \<and> take c cy = take c cx))"

definition applied ::
    "(8 word list \<Rightarrow> digest) \<Rightarrow> scheduler \<Rightarrow> string \<Rightarrow> request \<Rightarrow> scheduler \<Rightarrow> bool" where
  "applied sha s rid r' s' =
     (sched_core sha s' \<and> same_settings s s' \<and> sched_requests s' = (sched_requests s)(rid \<mapsto> r') \<and>
      (\<forall>x. x \<noteq> rid \<longrightarrow> table_of s' x = table_of s x) \<and>
      (\<forall>P G W. collision_free sha (sblock_len s) P \<longrightarrow> (\<forall>y cx c. W y = Some (cx, c) \<longrightarrow> P cx) \<longrightarrow>
         (\<forall>y. sview (sched_requests s) y \<noteq> None \<longrightarrow> P (fst (the (sview (sched_requests s) y)))) \<longrightarrow>
         W rid = Some (context_token_ids r', cached_len r') \<longrightarrow> (\<forall>y. holds_more (sview (sched_requests s) y) (W y)) \<longrightarrow>
         (\<forall>y \<in> set (running_ids s). \<forall>cx c. W y = Some (cx, c) \<longrightarrow> content_ok (sblock_len s) G (table_of s y) cx c) \<longrightarrow>
         (\<forall>y \<in> set (running_ids s'). \<forall>cx c. W y = Some (cx, c) \<longrightarrow> content_ok (sblock_len s) G (table_of s' y) cx c)))"

lemma content_ok_shorter:
  assumes "content_ok bl G table cy d" "c \<le> d" "take c cy = take c cx"
  shows "content_ok bl G table cx c"
  unfolding content_ok_def
proof (intro allI impI)
  fix p
  assume p: "p < c"
  have "take (Suc p) cx = take (Suc p) cy" using arg_cong [OF assms(3), of "take (Suc p)"] p by (simp add: min_absorb1)
  then show "G (table ! (p div bl) * bl + p mod bl) (take (Suc p) cx)" using assms(1,2) p by (simp add: content_ok_def)
qed

lemma result_in_budget:
  assumes st: "stored_ok bl na rid r" and r: "rq_state r = Running" and it: "item_for r table bl it" and res: "result_for it res"
  shows "length (rq_generated r) + length (generated_token_ids res) \<le> max_new_len r" "max_new_len r < word_limit"
    "cached_len r + cached_len_delta res < word_limit" "cached_len r + cached_len_delta res \<le> length table * bl"
    "cached_len r + cached_len_delta res \<le> length (context_token_ids r)" "0 < cached_len_delta res"
proof -
  have gen: "length (rq_generated r) < max_new_len r" and v: "rq_valid r" and fw: "fits_word bl r" using st r by (simp_all add: stored_ok_def)
  have delta: "cached_len_delta res = length (input_token_ids it)" "length (generated_token_ids res) \<le> 1" using res by (simp_all add: result_for_def)
  have item: "cached_len r + length (input_token_ids it) \<le> length (context_token_ids r)" "input_token_ids it \<noteq> []"
    "cached_len r + length (input_token_ids it) \<le> length table * bl" using it by (simp_all add: item_for_def)
  show "length (rq_generated r) + length (generated_token_ids res) \<le> max_new_len r" using gen delta(2) by simp
  have "0 < length (prompt_token_ids r)" using v by (simp add: rq_valid_def)
  then show "max_new_len r < word_limit" using fw unfolding fits_word_def by linarith
  show "cached_len r + cached_len_delta res \<le> length (context_token_ids r)" "0 < cached_len_delta res"
    "cached_len r + cached_len_delta res \<le> length table * bl" using item delta(1) by simp_all
  then show "cached_len r + cached_len_delta res < word_limit" using context_fits [OF st] r by simp
qed

lemma completed_stored:
  assumes st: "stored_ok bl na rid r" and r: "rq_state r = Running" and it: "item_for r table bl it" and res: "result_for it res"
  shows "stored_ok bl na rid (completed res r)" "advance (generated_token_ids res) (cached_len_delta res) (completion_of r res) r = (Inr (), completed res r)"
proof -
  note b = result_in_budget [OF st r it res]
  have v: "rq_valid r" using st by (simp add: stored_ok_def)
  note adv = advance_ok [OF v r b(1-3), of "completion_of r res"]
  show "advance (generated_token_ids res) (cached_len_delta res) (completion_of r res) r = (Inr (), completed res r)"
    using adv(1) by (simp add: completed_def)
  have "length (rq_generated (completed res r)) < max_new_len r" if "completion_of r res = None"
    using that b(1) by (auto simp: completion_of_def split: if_splits)
  moreover have "cached_len (completed res r) < length (context_token_ids (completed res r))"
  proof (cases "need_sample it")
    case True
    then show ?thesis using b(5) res by (simp add: result_for_def)
  next
    case False
    then show ?thesis using it res by (simp add: item_for_def result_for_def)
  qed
  moreover have "rq_valid (completed res r)" using adv(2) by (simp add: completed_def)
  ultimately show "stored_ok bl na rid (completed res r)" using st r by (simp add: stored_ok_def fits_word_def split: if_splits)
qed

lemma seal_request_ok:
  assumes ok: "mgr_ok sha m V" and v: "V rid = Some (ctx, c)" and rid: "rq_id r = rid"
    and c: "c \<le> cached_len r" "cached_len r \<le> length (mgr_block_table m rid) * mgr_block_len m" "cached_len r \<le> length (context_token_ids r)"
      "c \<le> length ctx" "take c (context_token_ids r) = take c ctx"
  shows "\<exists>m'. seal_request sha r c m = (Inr (), m') \<and> mgr_ok sha m' (V(rid \<mapsto> (context_token_ids r, cached_len r))) \<and> mgr_block_len m' = mgr_block_len m \<and>
    pool_size (mgr_pool m') = pool_size (mgr_pool m) \<and> (\<forall>x. x \<noteq> rid \<longrightarrow> mgr_block_table m' x = mgr_block_table m x) \<and>
    (\<forall>P G. collision_free sha (mgr_block_len m) P \<longrightarrow> (\<forall>x cx cc. (V(rid \<mapsto> (context_token_ids r, cached_len r))) x = Some (cx, cc) \<longrightarrow> P cx \<and> cc \<le> length cx) \<longrightarrow>
       contents_ok m G (V(rid \<mapsto> (context_token_ids r, cached_len r))) \<longrightarrow> contents_ok m' G (V(rid \<mapsto> (context_token_ids r, cached_len r))))"
proof -
  let ?bl = "mgr_block_len m" and ?W = "V(rid \<mapsto> (context_token_ids r, cached_len r))"
  let ?seal = "seal_blocks sha rid (drop (c div ?bl * ?bl) (take (cached_len r div ?bl * ?bl) (context_token_ids r))) (c div ?bl * ?bl) m"
  note sb = seal_blocks_ok [where ctx' = "context_token_ids r", OF ok v c]
  from sb [where P = "\<lambda>_. True" and G = "\<lambda>_ _. True"] obtain n m' where m': "?seal = (Inr n, m')" "mgr_ok sha m' ?W" "mgr_block_len m' = ?bl"
    "pool_size (mgr_pool m') = pool_size (mgr_pool m)" "\<forall>x. x \<noteq> rid \<longrightarrow> mgr_block_table m' x = mgr_block_table m x" by blast
  have "contents_ok m' G ?W" if g: "collision_free sha ?bl P" "\<forall>x cx cc. ?W x = Some (cx, cc) \<longrightarrow> P cx \<and> cc \<le> length cx" "contents_ok m G ?W" for P G
  proof -
    from sb [where P = P and G = G] obtain n2 m2 where m2: "?seal = (Inr n2, m2)" "contents_ok m2 G ?W" using g by blast
    then show ?thesis using m'(1) by simp
  qed
  moreover have "seal_request sha r c m = (Inr (), m')"
  proof -
    have "c div ?bl * ?bl \<le> cached_len r div ?bl * ?bl" "cached_len r div ?bl * ?bl \<le> length (context_token_ids r)"
      using div_le_mono [OF c(1), of ?bl] order_trans [OF div_times_less_eq_dividend c(3)] by simp_all
    then show ?thesis using m'(1) rid mgr_okD(1) [OF ok] by (simp add: seal_request_def Let_def cbind_def not_less)
  qed
  ultimately show ?thesis using m'(2-5) by blast
qed

lemma content_update:
  assumes "\<forall>x. x \<noteq> rid \<longrightarrow> mgr_block_table m' x = mgr_block_table m x" "mgr_block_len m' = mgr_block_len m"
    and W: "\<forall>y. holds_more (V y) (W y)" "W rid = Some (ctx', c')"
    and content: "\<forall>y cx c. y \<in> R \<longrightarrow> W y = Some (cx, c) \<longrightarrow> content_ok (mgr_block_len m) G (mgr_block_table m y) cx c"
    and R: "\<forall>y. V y \<noteq> None \<longrightarrow> y \<in> R" "rid \<in> R"
    and keep: "contents_ok m G (V(rid \<mapsto> (ctx', c'))) \<Longrightarrow> contents_ok m' G (V(rid \<mapsto> (ctx', c')))"
  shows "\<forall>y cx c. y \<in> R \<longrightarrow> W y = Some (cx, c) \<longrightarrow> content_ok (mgr_block_len m) G (mgr_block_table m' y) cx c"
proof -
  have "content_ok (mgr_block_len m) G (mgr_block_table m y) cx c" if v: "V y = Some (cx, c)" for y cx c
  proof -
    obtain cy d where w: "W y = Some (cy, d)" "c \<le> d" "take c cy = take c cx" using W(1) v unfolding holds_more_def by blast
    have "content_ok (mgr_block_len m) G (mgr_block_table m y) cy d" using content R(1) v w(1) by blast
    then show ?thesis by (rule content_ok_shorter [OF _ w(2,3)])
  qed
  then have "contents_ok m G (V(rid \<mapsto> (ctx', c')))" using content R(2) W(2) by (auto simp: contents_ok_def)
  then have new: "content_ok (mgr_block_len m) G (mgr_block_table m' rid) ctx' c'" using keep assms(2) by (simp add: contents_ok_def)
  show ?thesis
  proof (intro allI impI)
    fix y cx c
    assume y: "y \<in> R" "W y = Some (cx, c)"
    show "content_ok (mgr_block_len m) G (mgr_block_table m' y) cx c"
      using new W(2) y content assms(1) by (cases "y = rid") auto
  qed
qed

lemma apply_item_ok:
  assumes ok: "sched_core sha s" and r: "sched_requests s rid = Some r" "rq_state r = Running"
    and it: "item_for r (table_of s rid) (sblock_len s) it" and res: "result_for it res" and rid: "res_request_id res = rid"
  shows "\<exists>s' undos' snapshotted'. apply_item sha snapshotted res (s, undos) = (Inr snapshotted', s', undos') \<and> applied sha s rid (completed res r) s'"
proof -
  note d = sched_coreD [OF ok]
  note st = d(5) [OF r(1)]
  let ?m = "sched_cache s" and ?bl = "sblock_len s" and ?r = "completed res r" and ?V = "sview (sched_requests s)"
  note b = result_in_budget [OF st r(2) it res]
  note new = completed_stored [OF st r(2) it res]
  have V: "?V rid = Some (context_token_ids r, cached_len r)" by (rule sview_running [where q = "sched_requests s", OF r])
  let ?V' = "?V(rid \<mapsto> (context_token_ids ?r, cached_len ?r))"
  have c: "cached_len r \<le> cached_len ?r" "cached_len ?r \<le> length (table_of s rid) * ?bl" "cached_len ?r \<le> length (context_token_ids ?r)"
    "cached_len r \<le> length (context_token_ids r)" "take (cached_len r) (context_token_ids ?r) = take (cached_len r) (context_token_ids r)"
    using b(4,5) by simp_all
  have dm: "cached_len r div ?bl * ?bl \<le> cached_len ?r div ?bl * ?bl" "cached_len ?r div ?bl * ?bl \<le> length (context_token_ids ?r)"
    using div_le_mono [OF c(1), of ?bl] order_trans [OF div_times_less_eq_dividend c(3)] by simp_all
  obtain m where m: "seal_request sha ?r (cached_len r) ?m = (Inr (), m)" "mgr_ok sha m ?V'" "mgr_block_len m = ?bl"
    "pool_size (mgr_pool m) = pool_size (mgr_pool ?m)" "\<forall>x. x \<noteq> rid \<longrightarrow> mgr_block_table m x = table_of s x"
    "\<forall>P G. collision_free sha ?bl P \<longrightarrow> (\<forall>x cx cc. ?V' x = Some (cx, cc) \<longrightarrow> P cx \<and> cc \<le> length cx) \<longrightarrow> contents_ok ?m G ?V' \<longrightarrow> contents_ok m G ?V'"
    using seal_request_ok [where r = ?r, OF d(3) V _ c] st by (auto simp: stored_ok_def)
  note keep = m(6)
  let ?s1 = "s\<lparr> sched_requests := (sched_requests s)(rid \<mapsto> ?r), sched_cache := m \<rparr>"
  have adv: "on_request Panic rid (advance (generated_token_ids res) (cached_len_delta res) (completion_of r res)) s
      = (Inr (), s\<lparr> sched_requests := (sched_requests s)(rid \<mapsto> ?r) \<rparr>)"
    using r(1) new(2) by (simp add: on_request_def)
  have run: "\<exists>undos' sn. apply_item sha snapshotted res (s, undos) =
      cbind (if is_terminal (rq_state ?r) then retire rid else cret ()) (\<lambda>_. cret sn) (?s1, undos')"
    using r(1) rid b(3) m(1)
    by (auto simp: apply_item_def cbind_def rollback_defer_def scoped_def adv Let_def checked_add_def on_cache_def)
  then obtain undos1 sn where run: "apply_item sha snapshotted res (s, undos) =
      cbind (if is_terminal (rq_state ?r) then retire rid else cret ()) (\<lambda>_. cret sn) (?s1, undos1)" by blast
  have here: "rid \<in> set (running_ids s)" "rid \<notin> set (waiting_ids s)" using d(9,10) r by (auto simp: in_state_def)
  have update: "\<forall>y cx c. y \<in> set (running_ids s) \<longrightarrow> W y = Some (cx, c) \<longrightarrow> content_ok ?bl G (mgr_block_table m y) cx c"
    if P: "collision_free sha ?bl P" "\<forall>y cx c. W y = Some (cx, c) \<longrightarrow> P cx" "\<forall>y. ?V y \<noteq> None \<longrightarrow> P (fst (the (?V y)))"
      and W: "W rid = Some (context_token_ids ?r, cached_len ?r)" "\<forall>y. holds_more (?V y) (W y)"
      and G: "\<forall>y \<in> set (running_ids s). \<forall>cx c. W y = Some (cx, c) \<longrightarrow> content_ok ?bl G (table_of s y) cx c" for P G W
  proof (rule content_update [OF m(5) m(3) W(2,1)])
    have all: "P cx \<and> cc \<le> length cx" if v: "?V' x = Some (cx, cc)" for x cx cc
    proof (cases "x = rid")
      case True
      then show ?thesis using v c(3) P(2) W(1) by auto
    next
      case False
      then have v': "?V x = Some (cx, cc)" using v by simp
      then show ?thesis using view_bounded(1) [OF ok v'] P(3) by force
    qed
    then show "contents_ok ?m G ?V' \<Longrightarrow> contents_ok m G ?V'" using keep P(1) by blast
    show "\<forall>y. ?V y \<noteq> None \<longrightarrow> y \<in> set (running_ids s)" using d(9) by (auto simp: sview_def request_view_def in_state_def split: option.splits if_splits)
  qed (use G here(1) in auto)
  show ?thesis
  proof (cases "completion_of r res")
    case None
    have core: "sched_core sha ?s1"
      by (rule sched_coreI [OF ok r(1) _ _ _ _ new(1)]) (use m(2,3) d(7-10) None r in \<open>auto simp: request_view_def in_state_def\<close>)
    have "applied sha s rid ?r ?s1"
      unfolding applied_def using core m(3-5) update by (simp add: same_settings_def)
    moreover have "apply_item sha snapshotted res (s, undos) = (Inr sn, ?s1, undos1)"
      using run None r(2) by (simp add: is_terminal_def cbind_def)
    ultimately show ?thesis by blast
  next
    case (Some reason)
    have fin: "rq_state ?r = Finished" using Some by simp
    obtain m2 undos2 where m2: "retire rid (?s1, undos1) = (Inr (), ?s1\<lparr> running_ids := filter (\<lambda>c. c \<noteq> rid) (running_ids s), sched_cache := m2 \<rparr>, undos2)"
      "mgr_ok sha m2 (?V'(rid := None))" "mgr_block_len m2 = mgr_block_len m" "pool_size (mgr_pool m2) = pool_size (mgr_pool m)"
      "\<forall>x. x \<noteq> rid \<longrightarrow> mgr_block_table m2 x = mgr_block_table m x"
      using retire_ok [of sha ?s1 ?V' rid undos1] m(2) d(7) here(1) by auto
    let ?s2 = "s\<lparr> sched_requests := (sched_requests s)(rid \<mapsto> ?r), running_ids := filter (\<lambda>c. c \<noteq> rid) (running_ids s), sched_cache := m2 \<rparr>"
    have core: "sched_core sha ?s2"
      by (rule sched_coreI [OF ok r(1) _ _ _ _ new(1)]) (use m(3) m2(2,3) d(7-10) fin here in \<open>auto simp: request_view_def in_state_def\<close>)
    have "applied sha s rid ?r ?s2"
      unfolding applied_def using core m(3-5) m2(3-5) update by (simp add: same_settings_def)
    moreover have "apply_item sha snapshotted res (s, undos) = (Inr sn, ?s2, undos2)"
      using run m2(1) fin by (simp add: is_terminal_def cbind_def)
    ultimately show ?thesis by blast
  qed
qed

text \<open>The cache holds what the executor wrote for the view \<open>W\<close> of the running requests.\<close>

definition executed_ok ::
    "(8 word list \<Rightarrow> digest) \<Rightarrow> (int list \<Rightarrow> bool) \<Rightarrow> (nat \<Rightarrow> int list \<Rightarrow> bool) \<Rightarrow> (string \<rightharpoonup> int list \<times> nat) \<Rightarrow> scheduler \<Rightarrow> bool" where
  "executed_ok sha P G W s =
     (collision_free sha (sblock_len s) P \<and> (\<forall>y cx c. W y = Some (cx, c) \<longrightarrow> P cx) \<and>
      (\<forall>y. sview (sched_requests s) y \<noteq> None \<longrightarrow> P (fst (the (sview (sched_requests s) y)))) \<and>
      (\<forall>y. holds_more (sview (sched_requests s) y) (W y)) \<and>
      (\<forall>y \<in> set (running_ids s). \<forall>cx c. W y = Some (cx, c) \<longrightarrow> content_ok (sblock_len s) G (table_of s y) cx c))"

lemma executed_ok_outstanding [simp]: "executed_ok sha P G W (s\<lparr> outstanding := b \<rparr>) = executed_ok sha P G W s"
  by (simp add: executed_ok_def)

lemma applied_executed:
  assumes a: "applied sha s rid r' s'" and e: "executed_ok sha P G W s" and W: "W rid = Some (context_token_ids r', cached_len r')"
    and st: "stored_ok (sblock_len s) (next_arrival s) rid r'"
  shows "executed_ok sha P G W s'"
proof -
  have bl: "sblock_len s' = sblock_len s" and q: "sched_requests s' = (sched_requests s)(rid \<mapsto> r')"
    using a by (simp_all add: applied_def same_settings_def)
  have "\<forall>y \<in> set (running_ids s'). \<forall>cx c. W y = Some (cx, c) \<longrightarrow> content_ok (sblock_len s) G (table_of s' y) cx c"
    using a e W unfolding applied_def executed_ok_def by blast
  moreover have "holds_more (sview (sched_requests s') y) (W y)" for y
    using e W st by (auto simp: q sview_update holds_more_def executed_ok_def request_view_def stored_ok_def)
  moreover have "P (fst (the (sview (sched_requests s') y)))" if "sview (sched_requests s') y \<noteq> None" for y
    using that e W by (auto simp: q sview_update executed_ok_def request_view_def split: if_splits)
  ultimately show ?thesis using e bl unfolding executed_ok_def by simp
qed

section \<open>All results\<close>

definition result_of :: "request_execution_result list \<Rightarrow> string \<Rightarrow> request_execution_result option" where
  "result_of results x = find (\<lambda>res. res_request_id res = x) results"

definition answered :: "request_execution_result list \<Rightarrow> (string \<rightharpoonup> request) \<Rightarrow> string \<rightharpoonup> request" where
  "answered results q x = (case result_of results x of None \<Rightarrow> q x | Some res \<Rightarrow> map_option (completed res) (q x))"

lemma result_of_Nil [simp]: "result_of [] x = None"
  by (simp add: result_of_def)

lemma result_of_Cons: "result_of (res # results) x = (if res_request_id res = x then Some res else result_of results x)"
  by (simp add: result_of_def)

lemma result_of_member: "result_of results x = Some res \<Longrightarrow> res \<in> set results \<and> res_request_id res = x"
  by (auto simp: result_of_def find_Some_iff)

lemma result_of_None: "result_of results x = None \<longleftrightarrow> x \<notin> set (map res_request_id results)"
  by (auto simp: result_of_def find_None_iff)

lemma result_of_distinct:
  "distinct (map res_request_id results) \<Longrightarrow> res \<in> set results \<Longrightarrow> result_of results (res_request_id res) = Some res"
  by (induction results) (auto simp: result_of_Cons)

definition answer_ok :: "scheduler \<Rightarrow> request_execution_result \<Rightarrow> bool" where
  "answer_ok s res =
     (\<exists>it r. sched_requests s (res_request_id res) = Some r \<and> rq_state r = Running \<and>
        item_for r (table_of s (res_request_id res)) (sblock_len s) it \<and> result_for it res)"

lemma apply_items_ok:
  assumes "sched_core sha s" "distinct (map res_request_id results)" "\<forall>res \<in> set results. answer_ok s res"
  shows "\<exists>s' undos'. apply_items sha snapshotted results (s, undos) = (Inr (), s', undos') \<and> sched_core sha s' \<and> same_settings s s' \<and>
    sched_requests s' = answered results (sched_requests s) \<and>
    (\<forall>P G W. executed_ok sha P G W s \<longrightarrow>
       (\<forall>res r. res \<in> set results \<longrightarrow> sched_requests s (res_request_id res) = Some r \<longrightarrow>
          W (res_request_id res) = Some (context_token_ids (completed res r), cached_len (completed res r))) \<longrightarrow> executed_ok sha P G W s')"
  using assms
proof (induction results arbitrary: s snapshotted undos)
  case Nil
  then show ?case by (simp add: answered_def)
next
  case (Cons res results)
  let ?rid = "res_request_id res"
  obtain it r where r: "sched_requests s ?rid = Some r" "rq_state r = Running"
    "item_for r (table_of s ?rid) (sblock_len s) it" "result_for it res" using Cons.prems(3) by (auto simp: answer_ok_def)
  obtain s1 undos1 sn where one: "apply_item sha snapshotted res (s, undos) = (Inr sn, s1, undos1)" "applied sha s ?rid (completed res r) s1"
    using apply_item_ok [OF Cons.prems(1) r refl] by blast
  have st: "stored_ok (sblock_len s) (next_arrival s) ?rid (completed res r)"
    by (rule completed_stored(1) [OF sched_coreD(5) [OF Cons.prems(1) r(1)] r(2-4)])
  have q1: "sched_requests s1 = (sched_requests s)(?rid \<mapsto> completed res r)" and core1: "sched_core sha s1" and set1: "same_settings s s1"
    and tab: "\<forall>x. x \<noteq> ?rid \<longrightarrow> table_of s1 x = table_of s x"
    using one(2) by (simp_all add: applied_def)
  have dist: "distinct (map res_request_id results)" "\<forall>res2 \<in> set results. res_request_id res2 \<noteq> ?rid"
    using Cons.prems(2) by (simp, metis distinct.simps(2) image_eqI list.set_map list.simps(9))
  have rest: "\<forall>res2 \<in> set results. answer_ok s1 res2"
  proof
    fix res2
    assume m: "res2 \<in> set results"
    then have "answer_ok s res2" "res_request_id res2 \<noteq> ?rid" using Cons.prems(3) dist(2) by auto
    then show "answer_ok s1 res2" using q1 tab set1 by (simp add: answer_ok_def same_settings_def)
  qed
  obtain s' undos' where ih: "apply_items sha sn results (s1, undos1) = (Inr (), s', undos')" "sched_core sha s'" "same_settings s1 s'"
    "sched_requests s' = answered results (sched_requests s1)"
    "\<forall>P G W. executed_ok sha P G W s1 \<longrightarrow>
       (\<forall>res r. res \<in> set results \<longrightarrow> sched_requests s1 (res_request_id res) = Some r \<longrightarrow>
          W (res_request_id res) = Some (context_token_ids (completed res r), cached_len (completed res r))) \<longrightarrow> executed_ok sha P G W s'"
    using Cons.IH [OF core1 dist(1) rest] by blast
  have "apply_items sha snapshotted (res # results) (s, undos) = (Inr (), s', undos')" using one(1) ih(1) by (simp add: cbind_def)
  moreover have "sched_requests s' = answered (res # results) (sched_requests s)"
  proof
    fix x
    have "result_of results ?rid = None" using dist(2) by (auto simp: result_of_None)
    then show "sched_requests s' x = answered (res # results) (sched_requests s) x"
      using ih(4) q1 r(1) by (cases "x = ?rid") (simp_all add: answered_def result_of_Cons split: option.split)
  qed
  moreover have "executed_ok sha P G W s'"
    if e: "executed_ok sha P G W s" and W: "\<And>res2 r. res2 \<in> set (res # results) \<Longrightarrow> sched_requests s (res_request_id res2) = Some r \<Longrightarrow>
          W (res_request_id res2) = Some (context_token_ids (completed res2 r), cached_len (completed res2 r))" for P G W
  proof -
    have "executed_ok sha P G W s1" by (rule applied_executed [OF one(2) e _ st]) (rule W [OF _ r(1)], simp)
    moreover have "W (res_request_id res2) = Some (context_token_ids (completed res2 r2), cached_len (completed res2 r2))"
      if "res2 \<in> set results" "sched_requests s1 (res_request_id res2) = Some r2" for res2 r2
    proof (rule W)
      show "sched_requests s (res_request_id res2) = Some r2" using that dist(2) q1 by simp
    qed (use that in simp)
    ultimately show ?thesis using ih(5) by blast
  qed
  ultimately show ?case using ih(2,3) same_settings_trans [OF set1] by blast
qed

section \<open>Accepting and rejecting\<close>

lemma find_item:
  assumes "distinct (batch_ids items)" "it \<in> set items"
  shows "find (\<lambda>scheduled. request_id scheduled = request_id it) items = Some it"
  using assms by (induction items) (auto simp: batch_ids_def)

lemma planned_item:
  assumes "items_ok s items" "it \<in> set items"
  shows "\<exists>r. sched_requests s (request_id it) = Some r \<and> rq_state r = Running \<and> item_for r (table_of s (request_id it)) (sblock_len s) it"
proof -
  obtain r where r: "sched_requests s (request_id it) = Some r" "item_for r (table_of s (request_id it)) (sblock_len s) it"
    using assms by (auto simp: items_ok_def item_ok_def)
  moreover have "rq_state r = Running" using r(2) by (simp add: item_for_def)
  ultimately show ?thesis by blast
qed

lemma answer_matches:
  assumes "items_ok s items" "it \<in> set items" "result_for it res"
  shows "answer_ok s res"
  using planned_item [OF assms(1,2)] assms(3) unfolding answer_ok_def by (metis result_for_def)

text \<open>What the checks of \<open>apply_result\<close> accept.\<close>

lemma check_result_iff:
  assumes ok: "sched_core sha s" "items_ok s (requests plan)"
  shows "check_result s plan seen res = None \<longleftrightarrow> res_request_id res \<notin> seen \<and> (\<exists>it \<in> set (requests plan). result_for it res)"
proof (cases "find (\<lambda>scheduled. request_id scheduled = res_request_id res) (requests plan)")
  case None
  then have "\<not> (\<exists>it \<in> set (requests plan). result_for it res)" by (auto simp: find_None_iff result_for_def)
  then show ?thesis using None by (simp add: check_result_def)
next
  case (Some it)
  then have it: "it \<in> set (requests plan)" "request_id it = res_request_id res" by (auto simp: find_Some_iff)
  have only: "it2 = it" if "it2 \<in> set (requests plan)" "result_for it2 res" for it2
    using that Some find_item [of "requests plan" it2] ok(2) by (auto simp: items_ok_def result_for_def)
  obtain r where r: "sched_requests s (res_request_id res) = Some r" "rq_state r = Running" "item_for r (table_of s (res_request_id res)) (sblock_len s) it"
    using planned_item [OF ok(2) it(1)] unfolding it(2) by blast
  note st = sched_coreD(5) [OF ok(1) r(1)]
  have gen: "length (rq_generated r) < max_new_len r" "rq_valid r" "fits_word (sblock_len s) r" using st r(2) by (simp_all add: stored_ok_def)
  have small: "max_new_len r < word_limit"
  proof -
    have "0 < length (prompt_token_ids r)" using gen(2) by (simp add: rq_valid_def)
    then show ?thesis using gen(3) unfolding fits_word_def by linarith
  qed
  have plan: "need_sample it = (req_sampling_plan it \<noteq> None)"
    "case req_sampling_plan it of None \<Rightarrow> True | Some p \<Rightarrow> sample_index p = rq_sample_index r" using r(3) by (auto simp: item_for_def)
  have "check_result s plan seen res = None \<longleftrightarrow> res_request_id res \<notin> seen \<and> cached_len_delta res = length (input_token_ids it) \<and>
      length (generated_token_ids res) \<le> 1 \<and> (generated_token_ids res = []) = (\<not> need_sample it)"
    using Some r(1,2) gen(1) small plan
    by (auto simp: check_result_def checked_add_def not_le split: option.splits)
  also have "\<dots> \<longleftrightarrow> res_request_id res \<notin> seen \<and> result_for it res"
    using it(2) by (cases "generated_token_ids res") (auto simp: result_for_def)
  finally show ?thesis using it(1) only by blast
qed

lemma check_results_iff:
  assumes ok: "sched_core sha s" "items_ok s (requests plan)"
  shows "check_results s plan seen results = None \<longleftrightarrow>
    distinct (map res_request_id results) \<and> seen \<inter> set (map res_request_id results) = {} \<and>
    (\<forall>res \<in> set results. \<exists>it \<in> set (requests plan). result_for it res)"
proof (induction results arbitrary: seen)
  case (Cons res results)
  show ?case
  proof (cases "check_result s plan seen res")
    case None
    then show ?thesis using Cons.IH [of "insert (res_request_id res) seen"] check_result_iff [OF ok, of seen res] by auto
  next
    case (Some e)
    then show ?thesis using check_result_iff [OF ok, of seen res] by auto
  qed
qed simp

text \<open>A rejected result leaves the scheduler as it was.\<close>

lemma reject_same: "outstanding s = Some plan \<Longrightarrow> reject_result plan e (s\<lparr> outstanding := None \<rparr>) = (Inl e, s)"
  by (cases s) (simp add: reject_result_def)

lemma check_result_panic: "check_result s plan seen res \<noteq> Some Panic"
  by (auto simp: check_result_def checked_add_def split: option.splits)

lemma check_results_panic: "check_results s plan seen results \<noteq> Some Panic"
  using check_result_panic by (induction results arbitrary: seen) (auto split: option.splits)

lemma apply_result_rejects:
  assumes ok: "sched_core sha s" "items_ok s (requests plan)" and plan: "outstanding s = Some plan" and no: "\<not> answers plan result"
  shows "\<exists>e. apply_result_batch sha result s = (Inl e, s) \<and> e \<noteq> Panic"
proof -
  have core: "sched_core sha (s\<lparr> outstanding := None \<rparr>)" "items_ok (s\<lparr> outstanding := None \<rparr>) (requests plan)" using ok by simp_all
  have "check_results (s\<lparr> outstanding := None \<rparr>) plan {} (request_results result) \<noteq> None"
    if "res_step_id result = step_id plan" "length (request_results result) = length (requests plan)"
    using no that check_results_iff [OF core, of "{}" "request_results result"] by (simp add: answers_def)
  then show ?thesis using plan check_results_panic by (auto simp: apply_result_batch_def Let_def reject_same)
qed

lemma apply_result_accepts:
  assumes ok: "sched_core sha s" "items_ok s (requests plan)" and plan: "outstanding s = Some plan" and yes: "answers plan result"
  shows "\<exists>s'. apply_result_batch sha result s = (Inr (), s') \<and> sched_core sha s' \<and> same_settings (s\<lparr> outstanding := None \<rparr>) s' \<and>
    sched_requests s' = answered (request_results result) (sched_requests s) \<and>
    (\<forall>P G W. executed_ok sha P G W s \<longrightarrow>
       (\<forall>res r. res \<in> set (request_results result) \<longrightarrow> sched_requests s (res_request_id res) = Some r \<longrightarrow>
          W (res_request_id res) = Some (context_token_ids (completed res r), cached_len (completed res r))) \<longrightarrow> executed_ok sha P G W s')"
proof -
  let ?s = "s\<lparr> outstanding := None \<rparr>" and ?results = "request_results result"
  have core: "sched_core sha ?s" "items_ok ?s (requests plan)" using ok by simp_all
  have dist: "distinct (map res_request_id ?results)" and all: "\<forall>res \<in> set ?results. \<exists>it \<in> set (requests plan). result_for it res"
    using yes by (simp_all add: answers_def)
  have "\<forall>res \<in> set ?results. answer_ok ?s res" using all answer_matches [OF core(2)] by blast
  from apply_items_ok [OF core(1) dist this, of False "[]"] obtain s' undos' where s': "apply_items sha False ?results (?s, []) = (Inr (), s', undos')"
    "sched_core sha s'" "same_settings ?s s'" "sched_requests s' = answered ?results (sched_requests ?s)"
    "\<forall>P G W. executed_ok sha P G W ?s \<longrightarrow>
       (\<forall>res r. res \<in> set ?results \<longrightarrow> sched_requests ?s (res_request_id res) = Some r \<longrightarrow>
          W (res_request_id res) = Some (context_token_ids (completed res r), cached_len (completed res r))) \<longrightarrow> executed_ok sha P G W s'"
    by blast
  have "check_results ?s plan {} ?results = None" using check_results_iff [OF core] dist all by simp
  then have "apply_result_batch sha result s = (Inr (), s')"
    using plan yes s'(1) by (simp add: apply_result_batch_def answers_def Let_def rollback_run_def)
  with s'(2-5) show ?thesis by simp
qed

section \<open>A failed batch\<close>

definition failed_all :: "string \<Rightarrow> string set \<Rightarrow> (string \<rightharpoonup> request) \<Rightarrow> string \<rightharpoonup> request" where
  "failed_all msg X q x = (if x \<in> X then map_option (failed msg) (q x) else q x)"

lemma fail_item_ok:
  assumes ok: "sched_core sha s" and r: "sched_requests s (request_id it) = Some r" "rq_state r = Running"
  shows "\<exists>s' undos'. fail_item msg it (s, undos) = (Inr (), s', undos') \<and> sched_core sha s' \<and> same_settings s s' \<and>
    sched_requests s' = (sched_requests s)(request_id it \<mapsto> failed msg r)"
proof -
  note d = sched_coreD [OF ok]
  let ?rid = "request_id it" and ?r = "failed msg r"
  let ?s1 = "s\<lparr> sched_requests := (sched_requests s)(?rid \<mapsto> ?r) \<rparr>"
  note st = d(5) [OF r(1)]
  have v: "rq_valid r" using st by (simp add: stored_ok_def)
  have new: "stored_ok (sblock_len s) (next_arrival s) ?rid ?r" "arrival_index ?r = arrival_index r"
    using st fail_ok(2) [OF v r(2)] by (simp_all add: stored_ok_def fits_word_def failed_def)
  have here: "?rid \<in> set (running_ids s)" "?rid \<notin> set (waiting_ids s)" using d(9,10) r by (auto simp: in_state_def)
  have f: "on_request Panic ?rid (rq_fail msg) s = (Inr (), ?s1)"
    using r(1) fail_ok(1) [OF v r(2)] by (simp add: on_request_def failed_def)
  let ?undos = "undo_request ?rid rollback_fail # undos"
  obtain m undos' where m: "retire ?rid (?s1, ?undos) = (Inr (), ?s1\<lparr> running_ids := filter (\<lambda>c. c \<noteq> ?rid) (running_ids s), sched_cache := m \<rparr>, undos')"
    "mgr_ok sha m ((sview (sched_requests s))(?rid := None))" "mgr_block_len m = sblock_len s"
    "pool_size (mgr_pool m) = pool_size (mgr_pool (sched_cache s))"
    using retire_ok [of sha ?s1 "sview (sched_requests s)" ?rid ?undos] d(3,7) here(1) by auto
  let ?s2 = "s\<lparr> sched_requests := (sched_requests s)(?rid \<mapsto> ?r), running_ids := filter (\<lambda>c. c \<noteq> ?rid) (running_ids s), sched_cache := m \<rparr>"
  have "sched_core sha ?s2"
    by (rule sched_coreI [OF ok r(1) _ _ _ _ new]) (use m(2,3) d(7-10) here in \<open>auto simp: request_view_def in_state_def\<close>)
  moreover have "fail_item msg it (s, undos) = (Inr (), ?s2, undos')"
    using r(1) f m(1) by (simp add: fail_item_def Let_def cbind_def rollback_defer_def scoped_def)
  ultimately show ?thesis using m(3,4) by (auto simp: same_settings_def)
qed

lemma fail_items_ok:
  assumes "sched_core sha s" "distinct (batch_ids items)" "\<forall>it \<in> set items. in_state (sched_requests s) Running (request_id it)"
  shows "\<exists>s' undos'. cfold (fail_item msg) items (s, undos) = (Inr (), s', undos') \<and> sched_core sha s' \<and> same_settings s s' \<and>
    sched_requests s' = failed_all msg (set (batch_ids items)) (sched_requests s)"
  using assms
proof (induction items arbitrary: s undos)
  case Nil
  then show ?case by (simp add: failed_all_def batch_ids_def)
next
  case (Cons it items)
  obtain r where r: "sched_requests s (request_id it) = Some r" "rq_state r = Running" using Cons.prems(3) by (auto simp: in_state_def)
  obtain s1 undos1 where one: "fail_item msg it (s, undos) = (Inr (), s1, undos1)" "sched_core sha s1" "same_settings s s1"
    "sched_requests s1 = (sched_requests s)(request_id it \<mapsto> failed msg r)"
    using fail_item_ok [OF Cons.prems(1) r] by blast
  have dist: "distinct (batch_ids items)" "request_id it \<notin> set (batch_ids items)" using Cons.prems(2) by (simp_all add: batch_ids_def)
  have rest: "\<forall>it2 \<in> set items. in_state (sched_requests s1) Running (request_id it2)"
  proof
    fix it2
    assume m: "it2 \<in> set items"
    then have "request_id it2 \<in> set (batch_ids items)" by (simp add: batch_ids_def)
    then have "request_id it2 \<noteq> request_id it" using dist(2) by metis
    then show "in_state (sched_requests s1) Running (request_id it2)" using Cons.prems(3) m one(4) by (simp add: in_state_def)
  qed
  obtain s' undos' where ih: "cfold (fail_item msg) items (s1, undos1) = (Inr (), s', undos')" "sched_core sha s'" "same_settings s1 s'"
    "sched_requests s' = failed_all msg (set (batch_ids items)) (sched_requests s1)"
    using Cons.IH [OF one(2) dist(1) rest] by blast
  have "sched_requests s' = failed_all msg (set (batch_ids (it # items))) (sched_requests s)"
    using ih(4) one(4) dist(2) r(1) by (auto simp: failed_all_def batch_ids_def fun_eq_iff)
  moreover have "cfold (fail_item msg) (it # items) (s, undos) = (Inr (), s', undos')" using one(1) ih(1) by (simp add: cbind_def)
  ultimately show ?case using ih(2,3) same_settings_trans [OF one(3)] by blast
qed

lemma fail_batch_ok:
  assumes ok: "sched_core sha s" "items_ok s (requests plan)" and plan: "outstanding s = Some plan"
  shows "\<exists>s'. fail_batch_items plan msg s = (Inr (), s') \<and> sched_core sha s' \<and> same_settings (s\<lparr> outstanding := None \<rparr>) s' \<and>
    sched_requests s' = failed_all msg (set (batch_ids (requests plan))) (sched_requests s)"
proof -
  let ?s = "s\<lparr> outstanding := None \<rparr>"
  have core: "sched_core sha ?s" "distinct (batch_ids (requests plan))" using ok by (simp_all add: items_ok_def)
  have run: "\<forall>it \<in> set (requests plan). in_state (sched_requests ?s) Running (request_id it)"
    using planned_item [OF ok(2)] by (auto simp: in_state_def)
  obtain s' undos' where "cfold (fail_item msg) (requests plan) (?s, [\<lambda>t. t\<lparr> sched_cache := sched_cache s \<rparr>]) = (Inr (), s', undos')" "sched_core sha s'"
    "same_settings ?s s'" "sched_requests s' = failed_all msg (set (batch_ids (requests plan))) (sched_requests ?s)"
    using fail_items_ok [OF core run] by blast
  then show ?thesis using plan by (simp add: fail_batch_items_def Let_def rollback_run_def cbind_def rollback_defer_def)
qed

lemma fail_batch_stale: "outstanding s = Some plan \<Longrightarrow> plan \<noteq> batch \<Longrightarrow> fail_batch_items batch msg s = (Inl (StaleBatch (step_id plan) (step_id batch)), s)"
  by (simp add: fail_batch_items_def)

end
