(* ===== verification/SchedulerOps.thy ===== *)
theory SchedulerOps
  imports SchedulerResult
begin

text \<open>
  Every call of the scheduler keeps its invariant \<open>sched_ok\<close>, whatever it returns: the states reachable from a
  new scheduler by any sequence of calls, and what holds in all of them.
\<close>

section \<open>Submission\<close>

definition spec_fits :: "nat \<Rightarrow> request_spec \<Rightarrow> bool" where
  "spec_fits bl spec = (length (spec_prompt spec) + spec_max_new_len spec + bl \<le> word_limit)"

lemma submit_cases:
  "(\<exists>e. submit spec s = (Inl e, s) \<and> e \<noteq> Panic) \<or>
   (\<exists>r. submit spec s = (Inr (), s\<lparr> next_arrival := next_arrival s + 1, sched_requests := (sched_requests s)(spec_id spec \<mapsto> r),
        waiting_ids := waiting_ids s @ [spec_id spec] \<rparr>) \<and> sched_requests s (spec_id spec) = None \<and> rq_valid r \<and> rq_id r = spec_id spec \<and>
      prompt_token_ids r = spec_prompt spec \<and> max_new_len r = spec_max_new_len spec \<and> rq_params r = spec_sampling_params spec \<and>
      arrival_index r = next_arrival s \<and> rq_state r = Waiting \<and> rq_generated r = [] \<and> cached_len r = 0)"
proof (cases "sched_requests s (spec_id spec) = None \<and> spec_prompt spec \<noteq> [] \<and> spec_max_new_len spec \<noteq> 0 \<and> next_arrival s + 1 < word_limit")
  case True
  then obtain r where "request_create spec (next_arrival s) = Inr r" "rq_valid r" "rq_id r = spec_id spec"
      "prompt_token_ids r = spec_prompt spec" "max_new_len r = spec_max_new_len spec" "rq_params r = spec_sampling_params spec"
      "arrival_index r = next_arrival s" "rq_state r = Waiting" "rq_generated r = []" "cached_len r = 0"
    using create_ok [of spec "next_arrival s"] by blast
  then show ?thesis using True by (intro disjI2 exI [of _ r]) (simp add: submit_def checked_add_def)
next
  case False
  consider "sched_requests s (spec_id spec) \<noteq> None" | "spec_prompt spec = []" | "spec_max_new_len spec = 0"
    | "sched_requests s (spec_id spec) = None" "spec_prompt spec \<noteq> []" "spec_max_new_len spec \<noteq> 0" "\<not> next_arrival s + 1 < word_limit" using False by metis
  then show ?thesis
  proof cases
    case 4
    then show ?thesis using create_ok [of spec "next_arrival s"] by (auto simp: submit_def checked_add_def)
  qed (auto simp: submit_def request_create_def)
qed

lemma submit_core:
  assumes ok: "sched_core sha s" and new: "sched_requests s rid = None" "rq_valid r" "rq_id r = rid" "arrival_index r = next_arrival s"
    "rq_state r = Waiting" "rq_generated r = []" "cached_len r = 0" "fits_word (sblock_len s) r"
  shows "sched_core sha (s\<lparr> next_arrival := next_arrival s + 1, sched_requests := (sched_requests s)(rid \<mapsto> r), waiting_ids := waiting_ids s @ [rid] \<rparr>)"
    (is "sched_core sha ?s")
proof -
  note d = sched_coreD [OF ok]
  have nin: "rid \<notin> set (waiting_ids s)" "rid \<notin> set (running_ids s)" using d(9,10) new(1) by (simp_all add: in_state_def)
  have view: "sview ((sched_requests s)(rid \<mapsto> r)) = sview (sched_requests s)"
    using new(1,5) by (auto simp: sview_def request_view_def fun_eq_iff)
  have st: "stored_ok (sblock_len s) (next_arrival s + 1) rid r" using new by (simp add: stored_ok_def rq_valid_def)
  have old: "stored_ok (sblock_len s) (next_arrival s + 1) x rx" if "sched_requests s x = Some rx" for x rx
    using d(5) [OF that] by (auto simp: stored_ok_def)
  have arr: "arrival_index rx \<noteq> next_arrival s" if "sched_requests s x = Some rx" for x rx
    using d(5) [OF that] by (simp add: stored_ok_def)
  have stored: "\<forall>x rx. sched_requests ?s x = Some rx \<longrightarrow> stored_ok (sblock_len ?s) (next_arrival ?s) x rx" using st old by auto
  have arrivals: "\<forall>a ra b rb. sched_requests ?s a = Some ra \<longrightarrow> sched_requests ?s b = Some rb \<longrightarrow> arrival_index ra = arrival_index rb \<longrightarrow> a = b"
  proof (intro allI impI)
    fix a ra b rb
    assume h: "sched_requests ?s a = Some ra" "sched_requests ?s b = Some rb" "arrival_index ra = arrival_index rb"
    show "a = b" using h arr [of a ra] arr [of b rb] d(6) [of a ra b rb] new(4) by (cases "a = rid"; cases "b = rid") auto
  qed
  have states: "\<forall>x. x \<in> set (running_ids ?s) \<longleftrightarrow> in_state (sched_requests ?s) Running x"
    "\<forall>x. x \<in> set (waiting_ids ?s) \<longleftrightarrow> in_state (sched_requests ?s) Waiting x"
    using d(9,10) new(5) nin by (auto simp: in_state_update)
  have "finite (dom (sched_requests ?s))" "distinct (running_ids ?s)" "distinct (waiting_ids ?s)" using d(4,7,8) nin(1) by simp_all
  moreover have "mgr_ok sha (sched_cache ?s) (sview (sched_requests ?s))" using d(3) view by simp
  moreover have "0 < max_batch_len (sched_config ?s)" "0 < max_prefill_chunk_len (sched_config ?s)" using d(1,2) by simp_all
  ultimately show ?thesis unfolding sched_core_def using stored arrivals states by blast
qed

definition setting_kept :: "scheduler \<Rightarrow> scheduler \<Rightarrow> bool" where
  "setting_kept s s' =
     (sched_config s' = sched_config s \<and> sched_policy s' = sched_policy s \<and> sblock_len s' = sblock_len s \<and>
      pool_size (mgr_pool (sched_cache s')) = pool_size (mgr_pool (sched_cache s)))"

lemma submit_ok:
  assumes ok: "sched_ok sha s" and spec_fits: "spec_fits (sblock_len s) spec" and run: "submit spec s = (x, s')"
  shows "sched_ok sha s'" "x \<noteq> Inl Panic" "setting_kept s s'"
proof -
  from submit_cases [of spec s] consider e where "x = Inl e" "s' = s" "e \<noteq> Panic"
    | r where "x = Inr ()" "s' = s\<lparr> next_arrival := next_arrival s + 1, sched_requests := (sched_requests s)(spec_id spec \<mapsto> r), waiting_ids := waiting_ids s @ [spec_id spec] \<rparr>"
      "sched_requests s (spec_id spec) = None" "rq_valid r" "rq_id r = spec_id spec" "prompt_token_ids r = spec_prompt spec" "max_new_len r = spec_max_new_len spec"
      "arrival_index r = next_arrival s" "rq_state r = Waiting" "rq_generated r = []" "cached_len r = 0"
    using run by auto
  then have "sched_ok sha s' \<and> x \<noteq> Inl Panic \<and> setting_kept s s'"
  proof cases
    case 1
    then show ?thesis using ok by (simp add: setting_kept_def)
  next
    case 2
    have core: "sched_core sha s" using ok by (simp add: sched_ok_def)
    have "sched_core sha s'" unfolding 2(2)
      by (rule submit_core [OF core 2(3,4,5,8-11)]) (use spec_fits 2(6,7) in \<open>simp add: fits_word_def spec_fits_def\<close>)
    moreover have "items_ok s' items" if i: "items_ok s items" for items
    proof (rule items_ok_frame [OF i])
      fix y
      assume "y \<in> set (batch_ids items)"
      then obtain it where "it \<in> set items" "y = request_id it" by (auto simp: batch_ids_def)
      then have "y \<noteq> spec_id spec" using planned_item [OF i] 2(3) by fastforce
      then show "sched_requests s' y = sched_requests s y \<and> table_of s' y = table_of s y" by (simp add: 2(2))
    qed (simp add: 2(2))
    ultimately show ?thesis using ok 2(1) by (simp add: sched_ok_def setting_kept_def 2(2))
  qed
  then show "sched_ok sha s'" "x \<noteq> Inl Panic" "setting_kept s s'" by simp_all
qed

section \<open>Cancellation\<close>

lemma batch_contains_iff: "batch_contains rid s \<longleftrightarrow> (\<exists>b. outstanding s = Some b \<and> rid \<in> set (batch_ids (requests b)))"
  by (auto simp: batch_contains_def batch_ids_def list_ex_iff split: option.splits)

lemma rq_cancel_cases:
  assumes "rq_valid r"
  shows "rq_cancel r = (if rq_state r \<in> {Waiting, Running, Cancelled} then (Inr (), r\<lparr> rq_state := Cancelled \<rparr>)
      else (Inl (InvalidState (rq_id r) ''Waiting or Running'' (rq_state r)), r))"
    "rq_state r \<in> {Waiting, Running, Cancelled} \<Longrightarrow> rq_valid (r\<lparr> rq_state := Cancelled \<rparr>)"
proof -
  show v: "rq_state r \<in> {Waiting, Running, Cancelled} \<Longrightarrow> rq_valid (r\<lparr> rq_state := Cancelled \<rparr>)" using assms by (auto simp: rq_valid_def)
  have same: "rq_state r = Cancelled \<Longrightarrow> r\<lparr> rq_state := Cancelled \<rparr> = r" by (cases r) simp
  show "rq_cancel r = (if rq_state r \<in> {Waiting, Running, Cancelled} then (Inr (), r\<lparr> rq_state := Cancelled \<rparr>)
      else (Inl (InvalidState (rq_id r) ''Waiting or Running'' (rq_state r)), r))"
    using cancel_ok(1) [OF assms] assms same by (cases "rq_state r") (simp_all add: rq_cancel_def cbind_def request_simps)
qed

definition cancelled :: "request \<Rightarrow> request" where
  "cancelled r = r\<lparr> rq_state := Cancelled \<rparr>"

lemma cancel_runs:
  assumes ok: "sched_core sha s" and r: "sched_requests s rid = Some r" "rq_state r \<in> {Waiting, Running, Cancelled}" and free: "\<not> batch_contains rid s"
  shows "\<exists>s'. cancel rid s = (Inr (), s') \<and> sched_core sha s' \<and> taken_off s rid (cancelled r) s'"
proof -
  note d = sched_coreD [OF ok]
  note st = d(5) [OF r(1)]
  have v: "rq_valid r" using st by (simp add: stored_ok_def)
  note c = rq_cancel_cases [OF v]
  have new: "stored_ok (sblock_len s) (next_arrival s) rid (cancelled r)" "arrival_index (cancelled r) = arrival_index r"
    using st c(2) r(2) by (simp_all add: stored_ok_def fits_word_def cancelled_def)
  obtain m where m: "mgr_release rid (sched_cache s) = (Inr (), m)" "mgr_ok sha m ((sview (sched_requests s))(rid := None))"
    "mgr_block_len m = sblock_len s" "pool_size (mgr_pool m) = pool_size (mgr_pool (sched_cache s))"
    "\<forall>x. x \<noteq> rid \<longrightarrow> mgr_block_table m x = table_of s x"
    using mgr_release_ok [OF d(3), of rid] by blast
  let ?s = "s\<lparr> sched_requests := (sched_requests s)(rid \<mapsto> cancelled r), running_ids := filter (\<lambda>c. c \<noteq> rid) (running_ids s),
      waiting_ids := filter (\<lambda>c. c \<noteq> rid) (waiting_ids s), sched_cache := m \<rparr>"
  have "on_request Panic rid rq_cancel s = (Inr (), s\<lparr> sched_requests := (sched_requests s)(rid \<mapsto> cancelled r) \<rparr>)"
    using c(1) r by (simp add: on_request_def cancelled_def)
  then have "cancel rid s = (Inr (), ?s)" using r(1) free m(1)
    by (simp add: cancel_def cbind_def modify_def drop_running_def on_cache_def)
  moreover have "sched_core sha ?s"
    by (rule sched_coreI [OF ok r(1) _ _ _ _ new]) (use m(2,3) d(7-10) in \<open>auto simp: request_view_def cancelled_def\<close>)
  ultimately show ?thesis using m(3-5) by (simp add: taken_off_def)
qed

lemma cancel_keeps:
  assumes ok: "sched_ok sha s" and run: "cancel rid s = (x, s')"
  shows "sched_ok sha s'" "x \<noteq> Inl Panic" "setting_kept s s'"
proof -
  have core: "sched_core sha s" using ok by (simp add: sched_ok_def)
  have "sched_ok sha s' \<and> x \<noteq> Inl Panic \<and> setting_kept s s'"
  proof (cases "sched_requests s rid")
    case None
    then show ?thesis using run ok by (auto simp: cancel_def setting_kept_def)
  next
    case (Some r)
    have v: "rq_valid r" using sched_coreD(5) [OF core Some] by (simp add: stored_ok_def)
    consider "batch_contains rid s" | "\<not> batch_contains rid s" "rq_state r \<in> {Waiting, Running, Cancelled}"
      | "\<not> batch_contains rid s" "rq_state r \<notin> {Waiting, Running, Cancelled}" by blast
    then show ?thesis
    proof cases
      case 1
      then show ?thesis using run ok Some by (auto simp: cancel_def setting_kept_def)
    next
      case 2
      obtain s2 where s2: "cancel rid s = (Inr (), s2)" "sched_core sha s2" "taken_off s rid (cancelled r) s2"
        using cancel_runs [OF core Some 2(2,1)] by blast
      have eq: "x = Inr ()" "s' = s2" using s2(1) run by simp_all
      have "items_ok s2 (requests b)" if b: "outstanding s = Some b" for b
      proof (rule items_ok_frame)
        show "items_ok s (requests b)" using ok b by (simp add: sched_ok_def)
        have "rid \<notin> set (batch_ids (requests b))" using 2(1) b by (simp add: batch_contains_iff)
        then show "y \<in> set (batch_ids (requests b)) \<Longrightarrow> sched_requests s2 y = sched_requests s y \<and> table_of s2 y = table_of s y" for y
          using s2(3) by (auto simp: taken_off_def)
      qed (use s2(3) in \<open>simp add: taken_off_def\<close>)
      then show ?thesis using s2(2,3) ok by (simp add: eq sched_ok_def taken_off_def setting_kept_def)
    next
      case 3
      have "(sched_requests s)(rid \<mapsto> r) = sched_requests s" using Some by auto
      then have "on_request Panic rid rq_cancel s = (Inl (InvalidState (rq_id r) ''Waiting or Running'' (rq_state r)), s)"
        using rq_cancel_cases(1) [OF v] 3(2) Some by (simp add: on_request_def)
      then show ?thesis using run ok Some 3(1) by (auto simp: cancel_def cbind_def setting_kept_def)
    qed
  qed
  then show "sched_ok sha s'" "x \<noteq> Inl Panic" "setting_kept s s'" by simp_all
qed

section \<open>Batches and results\<close>

lemma frame_setting: "sched_frame sha s s' \<Longrightarrow> setting_kept s s'"
  by (simp add: sched_frame_def setting_kept_def)

lemma schedule_keeps:
  assumes ok: "sched_ok sha s" and run: "schedule_batch sha s = (x, s')"
  shows "sched_ok sha s'" "x \<noteq> Inl Panic" "setting_kept s s'"
proof -
  have core: "sched_core sha s" "scheduling_policy (sched_policy s)" using ok by (simp_all add: sched_ok_def)
  have "sched_ok sha s' \<and> x \<noteq> Inl Panic \<and> setting_kept s s'"
  proof (cases "outstanding s")
    case (Some b)
    then show ?thesis using run ok by (auto simp: schedule_batch_def setting_kept_def)
  next
    case None
    obtain items s2 where b: "batched sha s items s2" and eq: "schedule_batch sha s =
      (if items = [] then (Inr None, s2)
       else if next_step s + 1 < word_limit
       then (Inr (Some \<lparr> step_id = next_step s, requests = items \<rparr>),
             s2\<lparr> next_step := next_step s + 1, outstanding := Some \<lparr> step_id = next_step s, requests = items \<rparr> \<rparr>)
       else (Inl ArithmeticOverflow, s2))"
      using schedule_batch_ok [OF core None] by blast
    have s2: "sched_core sha s2" "sched_frame sha s s2" "items_ok s2 items" using b by (simp_all add: batched_def)
    have fr: "outstanding s2 = None" "sched_policy s2 = sched_policy s" using s2(2) None by (simp_all add: sched_frame_def)
    have k: "setting_kept s s2" by (rule frame_setting [OF s2(2)])
    show ?thesis using run s2(1,3) fr core(2) k unfolding eq by (auto simp: sched_ok_def setting_kept_def split: if_splits)
  qed
  then show "sched_ok sha s'" "x \<noteq> Inl Panic" "setting_kept s s'" by simp_all
qed

lemma settled: "sched_ok sha s \<Longrightarrow> sched_core sha s' \<Longrightarrow> same_settings (s\<lparr> outstanding := None \<rparr>) s' \<Longrightarrow> sched_ok sha s' \<and> setting_kept s s'"
  by (simp add: sched_ok_def same_settings_def setting_kept_def)

lemma apply_keeps:
  assumes ok: "sched_ok sha s" and run: "apply_result_batch sha result s = (x, s')"
  shows "sched_ok sha s'" "setting_kept s s'" "x \<noteq> Inl Panic"
proof -
  have core: "sched_core sha s" using ok by (simp add: sched_ok_def)
  have "sched_ok sha s' \<and> setting_kept s s' \<and> x \<noteq> Inl Panic"
  proof (cases "outstanding s")
    case None
    then show ?thesis using run ok by (auto simp: apply_result_batch_def setting_kept_def)
  next
    case (Some plan)
    then have items: "items_ok s (requests plan)" using ok by (simp add: sched_ok_def)
    show ?thesis
    proof (cases "answers plan result")
      case True
      then obtain s2 where "apply_result_batch sha result s = (Inr (), s2)" "sched_core sha s2" "same_settings (s\<lparr> outstanding := None \<rparr>) s2"
        using apply_result_accepts [OF core items Some] by blast
      then show ?thesis using run settled [OF ok] by auto
    next
      case False
      then show ?thesis using run ok apply_result_rejects [OF core items Some False] by (auto simp: setting_kept_def)
    qed
  qed
  then show "sched_ok sha s'" "setting_kept s s'" "x \<noteq> Inl Panic" by simp_all
qed

lemma fail_keeps:
  assumes ok: "sched_ok sha s" and run: "fail_batch_items batch msg s = (x, s')"
  shows "sched_ok sha s'" "setting_kept s s'" "x \<noteq> Inl Panic"
proof -
  have core: "sched_core sha s" using ok by (simp add: sched_ok_def)
  have "sched_ok sha s' \<and> setting_kept s s' \<and> x \<noteq> Inl Panic"
  proof (cases "outstanding s")
    case None
    then show ?thesis using run ok by (auto simp: fail_batch_items_def setting_kept_def)
  next
    case (Some plan)
    then have items: "items_ok s (requests plan)" using ok by (simp add: sched_ok_def)
    show ?thesis
    proof (cases "plan = batch")
      case True
      then obtain s2 where "fail_batch_items batch msg s = (Inr (), s2)" "sched_core sha s2" "same_settings (s\<lparr> outstanding := None \<rparr>) s2"
        using fail_batch_ok [OF core items Some, of msg] by blast
      then show ?thesis using run settled [OF ok] by auto
    next
      case False
      then show ?thesis using run ok fail_batch_stale [OF Some False] by (auto simp: setting_kept_def)
    qed
  qed
  then show "sched_ok sha s'" "setting_kept s s'" "x \<noteq> Inl Panic" by simp_all
qed

section \<open>Reachable states\<close>

datatype sched_call =
    Submit request_spec
  | Cancel string
  | Schedule
  | ApplyResult execution_result
  | FailBatch batch_plan string

definition run_call :: "(8 word list \<Rightarrow> digest) \<Rightarrow> sched_call \<Rightarrow> scheduler \<Rightarrow> control_error option \<times> scheduler" where
  "run_call sha c s =
     (case c of
        Submit spec \<Rightarrow> apfst (case_sum Some (\<lambda>_. None)) (submit spec s)
      | Cancel rid \<Rightarrow> apfst (case_sum Some (\<lambda>_. None)) (cancel rid s)
      | Schedule \<Rightarrow> apfst (case_sum Some (\<lambda>_. None)) (schedule_batch sha s)
      | ApplyResult result \<Rightarrow> apfst (case_sum Some (\<lambda>_. None)) (apply_result_batch sha result s)
      | FailBatch batch msg \<Rightarrow> apfst (case_sum Some (\<lambda>_. None)) (fail_batch_items batch msg s))"

definition call_fits :: "nat \<Rightarrow> sched_call \<Rightarrow> bool" where
  "call_fits bl c = (case c of Submit spec \<Rightarrow> spec_fits bl spec | _ \<Rightarrow> True)"

text \<open>The states a scheduler reaches by any calls, rejected ones included.\<close>

inductive reachable :: "(8 word list \<Rightarrow> digest) \<Rightarrow> scheduler_config \<Rightarrow> policy \<Rightarrow> nat \<Rightarrow> nat \<Rightarrow> scheduler \<Rightarrow> bool"
  for sha config pol num_blocks bl where
  start: "kv_manager_new num_blocks bl = Inr m \<Longrightarrow> scheduler_new config pol m = Inr s \<Longrightarrow> reachable sha config pol num_blocks bl s"
| call: "reachable sha config pol num_blocks bl s \<Longrightarrow> call_fits bl c \<Longrightarrow> run_call sha c s = (e, s') \<Longrightarrow> reachable sha config pol num_blocks bl s'"

inductive_cases reachable_call: "reachable sha config pol num_blocks bl s"

lemma run_call_keeps:
  assumes ok: "sched_ok sha s" and c: "call_fits (sblock_len s) c" and run: "run_call sha c s = (e, s')"
  shows "sched_ok sha s' \<and> setting_kept s s' \<and> e \<noteq> Some Panic"
proof (cases c)
  case (Submit spec)
  obtain x where x: "submit spec s = (x, s')" "e = case_sum Some (\<lambda>_. None) x" using run Submit by (cases "submit spec s") (simp add: run_call_def)
  have "spec_fits (sblock_len s) spec" using c Submit by (simp add: call_fits_def)
  from submit_ok [OF ok this x(1)] show ?thesis using x(2) by (auto split: sum.splits)
next
  case (Cancel rid)
  obtain x where x: "cancel rid s = (x, s')" "e = case_sum Some (\<lambda>_. None) x" using run Cancel by (cases "cancel rid s") (simp add: run_call_def)
  from cancel_keeps [OF ok x(1)] show ?thesis using x(2) by (auto split: sum.splits)
next
  case Schedule
  obtain x where x: "schedule_batch sha s = (x, s')" "e = case_sum Some (\<lambda>_. None) x" using run Schedule by (cases "schedule_batch sha s") (simp add: run_call_def)
  from schedule_keeps [OF ok x(1)] show ?thesis using x(2) by (auto split: sum.splits)
next
  case (ApplyResult result)
  obtain x where x: "apply_result_batch sha result s = (x, s')" "e = case_sum Some (\<lambda>_. None) x"
    using run ApplyResult by (cases "apply_result_batch sha result s") (simp add: run_call_def)
  from apply_keeps [OF ok x(1)] show ?thesis using x(2) by (auto split: sum.splits)
next
  case (FailBatch batch msg)
  obtain x where x: "fail_batch_items batch msg s = (x, s')" "e = case_sum Some (\<lambda>_. None) x"
    using run FailBatch by (cases "fail_batch_items batch msg s") (simp add: run_call_def)
  from fail_keeps [OF ok x(1)] show ?thesis using x(2) by (auto split: sum.splits)
qed

lemma new_sched_ok:
  assumes "kv_manager_new num_blocks bl = Inr m" "scheduler_new config pol m = Inr s" "scheduling_policy pol"
  shows "sched_ok sha s" "sblock_len s = bl" "pool_size (mgr_pool (sched_cache s)) = num_blocks mod 2 ^ 32" "sched_policy s = pol" "sched_config s = config"
    "sched_requests s = Map.empty" "next_arrival s = 0"
proof -
  have s: "s = \<lparr> sched_config = config, sched_policy = pol, sched_cache = m, sched_requests = Map.empty, waiting_ids = [],
                 running_ids = [], next_arrival = 0, next_step = 0, outstanding = None \<rparr>" "0 < max_batch_len config" "0 < max_prefill_chunk_len config"
    using assms(2) by (auto simp: scheduler_new_def split: if_splits)
  have view: "sview Map.empty = Map.empty" by (simp add: sview_def fun_eq_iff)
  show "sched_ok sha s" using s(2,3) assms(3) mgr_new_ok [OF assms(1), of sha] by (simp add: s(1) sched_ok_def sched_core_def view in_state_def)
  show "sblock_len s = bl" "pool_size (mgr_pool (sched_cache s)) = num_blocks mod 2 ^ 32"
    using assms(1) by (auto simp: s(1) kv_manager_new_def pool_new_def Let_def split: if_splits)
qed (use assms(2) in \<open>auto simp: scheduler_new_def split: if_splits\<close>)

lemma reachable_ok:
  assumes "reachable sha config pol num_blocks bl s" "scheduling_policy pol"
  shows "sched_ok sha s \<and> sblock_len s = bl \<and> pool_size (mgr_pool (sched_cache s)) = num_blocks mod 2 ^ 32 \<and> sched_policy s = pol \<and> sched_config s = config"
  using assms
proof (induction rule: reachable.induct)
  case (start m s)
  then show ?case using new_sched_ok [OF start(1,2)] by simp
next
  case (call s c e s')
  then show ?case using run_call_keeps [of sha s c e s'] by (auto simp: setting_kept_def)
qed

end
