(* ===== verification/Server.thy ===== *)
theory Server
  imports SchedulerOps Executor
begin

text \<open>
  The server loop over the real scheduler: what \<open>LLMServer\<close> (\<open>lib.py\<close>) does with the control plane behind its
  Python binding (\<open>crates/einf-control-py/src/lib.rs\<close>), for any executor that answers its batches or raises.
\<close>

section \<open>The binding\<close>

text \<open>\<open>control_error\<close> of the binding; the text of an error (\<open>Display\<close>) is a parameter. A panic would surface as an
  exception outside \<open>Exception\<close>, for which \<open>AssertionError\<close> stands.\<close>

definition py_of_control :: "(control_error \<Rightarrow> string) \<Rightarrow> control_error \<Rightarrow> py_error" where
  "py_of_control display e =
     (case e of
        InvalidConfig _ \<Rightarrow> ValueError (display e)
      | DuplicateRequest _ \<Rightarrow> ValueError (display e)
      | UnknownRequest _ \<Rightarrow> ValueError (display e)
      | InvalidExecutionResult _ \<Rightarrow> ValueError (display e)
      | InvalidReusePlan _ \<Rightarrow> ValueError (display e)
      | Panic \<Rightarrow> AssertionError
      | _ \<Rightarrow> RuntimeError (display e))"

definition of_ctl :: "(control_error \<Rightarrow> string) \<Rightarrow> (scheduler, 'a) ctl \<Rightarrow> scheduler \<Rightarrow> ('a \<times> scheduler) outcome" where
  "of_ctl display f s = (case f s of (Inl e, _) \<Rightarrow> Inl (py_of_control display e) | (Inr x, s') \<Rightarrow> Inr (x, s'))"

text \<open>\<open>describe\<close> is the message \<open>f"{type(error).__name__}: {error}"\<close>.\<close>

definition control_env ::
    "(8 word list \<Rightarrow> digest) \<Rightarrow> (control_error \<Rightarrow> string) \<Rightarrow> (py_error \<Rightarrow> string)
       \<Rightarrow> (batch_plan \<Rightarrow> 'e \<Rightarrow> execution_result outcome \<times> 'e) \<Rightarrow> (scheduler, 'e) server_env" where
  "control_env sha display describe exec =
     \<lparr> schedule = of_ctl display (schedule_batch sha), execute = exec,
       fail_batch = (\<lambda>batch err s. obind (of_ctl display (fail_batch_items batch (describe err)) s) (\<lambda>(_, s'). Inr s')),
       apply_result = (\<lambda>result s. obind (of_ctl display (apply_result_batch sha result) s) (\<lambda>(_, s'). Inr s')) \<rparr>"

section \<open>Executors\<close>

text \<open>A batch the scheduler may issue, and an executor that answers such a batch or raises.\<close>

definition batch_formed :: "batch_plan \<Rightarrow> bool" where
  "batch_formed b = (distinct (batch_ids (requests b)) \<and> (\<forall>it \<in> set (requests b). need_sample it = (req_sampling_plan it \<noteq> None)))"

locale answering_executor =
  fixes exec :: "batch_plan \<Rightarrow> 'e \<Rightarrow> execution_result outcome \<times> 'e"
  assumes answer: "batch_formed b \<Longrightarrow> exec b e = (Inr result, e') \<Longrightarrow> answers b result"

lemma answers_in_order:
  assumes "batch_formed b" "res_step_id result = step_id b" "list_all2 result_for (requests b) (request_results result)"
  shows "answers b result"
proof -
  have len: "length (request_results result) = length (requests b)" using list_all2_lengthD [OF assms(3)] by simp
  have nth: "result_for (requests b ! i) (request_results result ! i)" if "i < length (requests b)" for i
    using list_all2_nthD [OF assms(3) that] .
  have "map res_request_id (request_results result) = batch_ids (requests b)"
    using len nth by (intro nth_equalityI) (auto simp: batch_ids_def result_for_def)
  moreover have "\<forall>res \<in> set (request_results result). \<exists>it \<in> set (requests b). result_for it res"
    using len nth by (metis in_set_conv_nth)
  ultimately show ?thesis using assms(1,2) len by (simp add: answers_def batch_formed_def)
qed

section \<open>Progress\<close>

definition is_active :: "request \<Rightarrow> bool" where
  "is_active r = (rq_state r = Waiting \<or> rq_state r = Running)"

definition tokens_left :: "(string \<rightharpoonup> request) \<Rightarrow> string \<Rightarrow> nat" where
  "tokens_left q x = (case q x of None \<Rightarrow> 0 | Some r \<Rightarrow> if is_active r then max_new_len r - length (rq_generated r) else 0)"

definition prefill_left :: "(string \<rightharpoonup> request) \<Rightarrow> string \<Rightarrow> nat" where
  "prefill_left q x =
     (case q x of None \<Rightarrow> 0
      | Some r \<Rightarrow> (case rq_state r of Waiting \<Rightarrow> word_limit | Running \<Rightarrow> word_limit - 1 - cached_len r | _ \<Rightarrow> 0))"

definition arrives :: "(string \<rightharpoonup> request) \<Rightarrow> nat \<Rightarrow> string \<Rightarrow> bool" where
  "arrives q i x = (\<exists>r. q x = Some r \<and> arrival_index r = i)"

definition digits :: "nat \<Rightarrow> (string \<rightharpoonup> request) \<Rightarrow> nat list" where
  "digits n q = map (\<lambda>i. sum (prefill_left q) {x. arrives q i x}) [0..<n]"

definition progress :: "nat \<Rightarrow> (string \<rightharpoonup> request) \<Rightarrow> nat \<times> nat list" where
  "progress n q = (sum (tokens_left q) (dom q), digits n q)"

definition progress_less :: "nat \<Rightarrow> ((nat \<times> nat list) \<times> nat \<times> nat list) set" where
  "progress_less n = less_than <*lex*> lexn less_than n"

lemma wf_progress: "wf (progress_less n)"
  by (simp add: progress_less_def wf_lex_prod wf_lexn)

lemma lexn_at:
  assumes "length xs = n" "length ys = n" "k < n" "take k xs = take k ys" "xs ! k < (ys ! k :: nat)"
  shows "(xs, ys) \<in> lexn less_than n"
proof -
  have "xs = take k ys @ xs ! k # drop (Suc k) xs" "ys = take k ys @ ys ! k # drop (Suc k) ys"
    using id_take_nth_drop [of k xs] id_take_nth_drop [of k ys] assms(1-4) by simp_all
  with assms(1,2,5) show ?thesis unfolding lexn_conv mem_Collect_eq prod.case less_than_iff by blast
qed

lemma progress_tokens:
  assumes fin: "finite (dom q)" and dom: "dom q' = dom q" and le: "\<And>x. tokens_left q' x \<le> tokens_left q x"
    and less: "tokens_left q' x < tokens_left q x"
  shows "(progress n q', progress n q) \<in> progress_less n"
proof -
  have "x \<in> dom q" using less by (auto simp: tokens_left_def split: option.splits)
  then have "sum (tokens_left q') (dom q) < sum (tokens_left q) (dom q)" using fin le less by (intro sum_strict_mono_ex1) auto
  then show ?thesis by (simp add: progress_def progress_less_def dom)
qed

lemma progress_digits:
  assumes fin: "finite (dom q)" and dom: "dom q' = dom q" and le: "\<And>x. tokens_left q' x \<le> tokens_left q x"
    and arr: "\<And>x r r'. q x = Some r \<Longrightarrow> q' x = Some r' \<Longrightarrow> arrival_index r' = arrival_index r"
    and inj: "\<And>a ra b rb. q a = Some ra \<Longrightarrow> q b = Some rb \<Longrightarrow> arrival_index ra = arrival_index rb \<Longrightarrow> a = b"
    and y: "q y = Some ry" "arrival_index ry < n" "prefill_left q' y < prefill_left q y"
    and before: "\<And>x r. q x = Some r \<Longrightarrow> arrival_index r < arrival_index ry \<Longrightarrow> prefill_left q' x = prefill_left q x"
  shows "(progress n q', progress n q) \<in> progress_less n"
proof -
  let ?k = "arrival_index ry"
  have same: "arrives q' i x = arrives q i x" for i x
  proof (cases "q x")
    case None
    then have "q' x = None" using dom by auto
    with None show ?thesis by (simp add: arrives_def)
  next
    case (Some r)
    then obtain r' where "q' x = Some r'" using dom by blast
    with Some arr show ?thesis by (simp add: arrives_def)
  qed
  have at: "{x. arrives q ?k x} = {y}" using y(1) inj by (auto simp: arrives_def)
  have "digits n q' ! i = digits n q ! i" if "i < ?k" for i
  proof -
    have "sum (prefill_left q') {x. arrives q i x} = sum (prefill_left q) {x. arrives q i x}"
      by (rule sum.cong) (use before that in \<open>auto simp: arrives_def\<close>)
    then show ?thesis using that y(2) by (simp add: digits_def same)
  qed
  then have pre: "take ?k (digits n q') = take ?k (digits n q)" using y(2) by (intro nth_equalityI) (simp_all add: digits_def)
  have "digits n q' ! ?k < digits n q ! ?k" using y(2,3) at by (simp add: digits_def same)
  moreover have "length (digits n q') = n" "length (digits n q) = n" by (simp_all add: digits_def)
  ultimately have "(digits n q', digits n q) \<in> lexn less_than n"
    using lexn_at [OF _ _ y(2) pre] by blast
  moreover have "sum (tokens_left q') (dom q) \<le> sum (tokens_left q) (dom q)" using le by (rule sum_mono)
  ultimately show ?thesis by (auto simp: progress_def progress_less_def dom)
qed

section \<open>One round of the loop\<close>

lemma change_data [simp]:
  "arrival_index (failed msg r) = arrival_index r" "max_new_len (failed msg r) = max_new_len r" "rq_generated (failed msg r) = rq_generated r"
  "arrival_index (preempted r) = arrival_index r" "max_new_len (preempted r) = max_new_len r" "rq_generated (preempted r) = rq_generated r"
  "arrival_index (admitted c r) = arrival_index r" "max_new_len (admitted c r) = max_new_len r" "rq_generated (admitted c r) = rq_generated r"
  "cached_len (admitted c r) = c" "admitted c (preempted r) = admitted c r"
  by (simp_all add: failed_def preempted_def admitted_def)

lemma rescheduled_cases:
  assumes rs: "rescheduled pol q q' items" and r: "q x = Some r"
  obtains (same) "q' x = Some r"
    | (failed) msg where "rq_state r = Running" "q' x = Some (failed msg r)"
    | (joined) c where "rq_state r = Waiting" "x \<in> set (batch_ids items)" "q' x = Some (admitted c r)"
    | (displaced) b rb where "rq_state r = Running" "b \<noteq> x" "q b = Some rb" "rq_state rb = Running" "precedes pol rb r"
        "(\<exists>msg. q' b = Some (failed msg rb)) \<or> b \<in> set (batch_ids items) \<and> q' b = Some rb"
        "q' x = Some (preempted r) \<or> (\<exists>c. q' x = Some (admitted c r) \<and> x \<in> set (batch_ids items))"
proof -
  obtain q1 items1 where q1: "set items1 \<subseteq> set items" "\<forall>x. displaced pol q q1 items1 x"
    "\<forall>x. q' x = q1 x \<or> (\<exists>r c. q1 x = Some r \<and> rq_state r = Waiting \<and> q' x = Some (admitted c r) \<and> x \<in> set (batch_ids items))"
    using rs unfolding rescheduled_def by blast
  have sub: "set (batch_ids items1) \<subseteq> set (batch_ids items)" using q1(1) by (auto simp: batch_ids_def)
  have keep: "q' y = q1 y" if "q1 y = Some ry" "rq_state ry \<noteq> Waiting" for y ry using q1(3) that by fastforce
  have "displaced pol q q1 items1 x" using q1(2) by blast
  then have cases: "q1 x = Some r \<or> (\<exists>msg. rq_state r = Running \<and> q1 x = Some (failed msg r)) \<or>
      (\<exists>b rb. rq_state r = Running \<and> q1 x = Some (preempted r) \<and> b \<noteq> x \<and> q b = Some rb \<and> rq_state rb = Running \<and> precedes pol rb r \<and>
        ((\<exists>msg. q1 b = Some (failed msg rb)) \<or> b \<in> set (batch_ids items1) \<and> q1 b = Some rb))"
    unfolding displaced_def r by (elim disjE exE conjE) (simp_all, blast+)
  then consider "q1 x = Some r" | msg where "rq_state r = Running" "q1 x = Some (failed msg r)"
    | b rb where "rq_state r = Running" "q1 x = Some (preempted r)" "b \<noteq> x" "q b = Some rb" "rq_state rb = Running" "precedes pol rb r"
        "(\<exists>msg. q1 b = Some (failed msg rb)) \<or> b \<in> set (batch_ids items1) \<and> q1 b = Some rb"
    by blast
  then show thesis
  proof cases
    case 1
    have "q' x = q1 x \<or> (\<exists>r c. q1 x = Some r \<and> rq_state r = Waiting \<and> q' x = Some (admitted c r) \<and> x \<in> set (batch_ids items))"
      using q1(3) by blast
    then show thesis using 1 same joined by auto
  next
    case 2
    then have "q' x = Some (failed msg r)" using keep [of x] by simp
    then show thesis using failed 2(1) by blast
  next
    case 3
    have "q' x = Some (preempted r) \<or> (\<exists>c. q' x = Some (admitted c r) \<and> x \<in> set (batch_ids items))"
      using q1(3) 3(2) by (metis change_data(11) option.inject)
    moreover have "(\<exists>msg. q' b = Some (failed msg rb)) \<or> b \<in> set (batch_ids items) \<and> q' b = Some rb"
      using 3(5,7) keep [of b] sub by auto
    ultimately show thesis using displaced 3(1,3-6) by blast
  qed
qed

lemma rescheduled_dom: "rescheduled pol q q' items \<Longrightarrow> dom q' = dom q"
proof -
  assume rs: "rescheduled pol q q' items"
  have "q' x = None" if "q x = None" for x
    using rs that unfolding rescheduled_def displaced_def by (metis option.distinct(1))
  moreover have "q' x \<noteq> None" if "q x = Some r" for x r
    by (rule rescheduled_cases [OF rs that]) auto
  ultimately show ?thesis by (auto simp: dom_def) (metis option.exhaust)
qed

lemma rescheduled_data:
  assumes "rescheduled pol q q' items" "q x = Some r"
  shows "\<exists>r'. q' x = Some r' \<and> arrival_index r' = arrival_index r \<and> max_new_len r' = max_new_len r \<and> rq_generated r' = rq_generated r \<and>
    (is_active r' \<longrightarrow> is_active r)"
  by (rule rescheduled_cases [OF assms]) (auto simp: is_active_def)

lemma rescheduled_tokens:
  assumes "rescheduled pol q q' items"
  shows "tokens_left q' x \<le> tokens_left q x"
proof (cases "q x")
  case None
  then have "q' x = None" using rescheduled_dom [OF assms] by auto
  then show ?thesis by (simp add: tokens_left_def)
next
  case (Some r)
  then show ?thesis using rescheduled_data [OF assms Some] by (auto simp: tokens_left_def)
qed

lemma tokens_left_active: "stored_ok bl na x r \<Longrightarrow> q x = Some r \<Longrightarrow> is_active r \<Longrightarrow> 0 < tokens_left q x"
  by (auto simp: tokens_left_def stored_ok_def is_active_def)

lemma answered_tokens: "tokens_left (answered results q) x \<le> tokens_left q x"
  by (auto simp: tokens_left_def answered_def is_active_def split: option.splits if_splits)

lemma answered_dom: "dom (answered results q) = dom q"
  by (auto simp: answered_def dom_def split: option.splits)

lemma failed_all_dom: "dom (failed_all msg X q) = dom q"
  by (auto simp: failed_all_def dom_def)

lemma round_failed:
  assumes rs: "rescheduled pol q q' items" and ne: "items \<noteq> []" and fin: "finite (dom q)"
    and it: "\<And>it. it \<in> set items \<Longrightarrow> \<exists>r. q' (request_id it) = Some r \<and> rq_state r = Running \<and> stored_ok bl na (request_id it) r"
  shows "(progress n (failed_all msg (set (batch_ids items)) q'), progress n q) \<in> progress_less n"
proof -
  let ?q2 = "failed_all msg (set (batch_ids items)) q'"
  have le: "tokens_left ?q2 x \<le> tokens_left q' x" for x
    by (auto simp: tokens_left_def failed_all_def is_active_def split: option.splits)
  obtain it0 where m: "it0 \<in> set items" using ne by (cases items) auto
  then obtain r where r: "q' (request_id it0) = Some r" "rq_state r = Running" "stored_ok bl na (request_id it0) r" using it by blast
  have "0 < tokens_left q' (request_id it0)" by (rule tokens_left_active [where q = q', OF r(3,1)]) (simp add: is_active_def r(2))
  moreover have "tokens_left ?q2 (request_id it0) = 0" using r(1) m by (simp add: tokens_left_def failed_all_def batch_ids_def is_active_def)
  ultimately have less: "tokens_left ?q2 (request_id it0) < tokens_left q (request_id it0)" using rescheduled_tokens [OF rs, of "request_id it0"] by simp
  show ?thesis
    by (rule progress_tokens [OF fin _ _ less]) (use failed_all_dom rescheduled_dom [OF rs] order_trans [OF le rescheduled_tokens [OF rs]] in auto)
qed

lemma answers_cover:
  assumes "answers plan result" "distinct (batch_ids (requests plan))"
  shows "set (map res_request_id (request_results result)) = set (batch_ids (requests plan))"
    "it \<in> set (requests plan) \<Longrightarrow> \<exists>res. result_of (request_results result) (request_id it) = Some res \<and> result_for it res"
proof -
  let ?R = "set (map res_request_id (request_results result))" and ?S = "set (batch_ids (requests plan))"
  have sub: "?R \<subseteq> ?S" using assms(1) by (fastforce simp: answers_def result_for_def batch_ids_def)
  have "card ?R = length (request_results result)" "card ?S = length (requests plan)"
    using assms distinct_card [of "map res_request_id (request_results result)"] distinct_card [of "batch_ids (requests plan)"]
    by (simp_all add: answers_def batch_ids_def)
  then have "card ?R = card ?S" using assms(1) by (simp add: answers_def)
  then show eq: "?R = ?S" using sub by (intro card_subset_eq) auto
  assume it: "it \<in> set (requests plan)"
  then have "request_id it \<in> ?R" using eq by (simp add: batch_ids_def)
  then obtain res where res: "result_of (request_results result) (request_id it) = Some res" using result_of_None by (metis option.exhaust)
  then obtain it2 where it2: "it2 \<in> set (requests plan)" "result_for it2 res" "request_id it2 = request_id it"
    using assms(1) result_of_member [OF res] by (auto simp: answers_def result_for_def)
  have "Some it2 = Some it" using find_item [OF assms(2) it2(1)] find_item [OF assms(2) it] unfolding it2(3) by (rule subst)
  then have "it2 = it" by simp
  then show "\<exists>res. result_of (request_results result) (request_id it) = Some res \<and> result_for it res" using res it2(2) by blast
qed

lemma round_answered:
  assumes rs: "rescheduled pol q q' items" and sp: "scheduling_policy pol" and ne: "items \<noteq> []" and fin: "finite (dom q)"
    and inj: "\<And>a ra b rb. q a = Some ra \<Longrightarrow> q b = Some rb \<Longrightarrow> arrival_index ra = arrival_index rb \<Longrightarrow> a = b"
    and st: "\<And>x r. q x = Some r \<Longrightarrow> stored_ok bl n x r" and st': "\<And>x r. q' x = Some r \<Longrightarrow> stored_ok bl n x r"
    and item: "\<And>it. it \<in> set items \<Longrightarrow> \<exists>r table res. q' (request_id it) = Some r \<and> rq_state r = Running \<and> item_for r table bl it \<and>
       result_of results (request_id it) = Some res \<and> result_for it res"
    and only: "set (map res_request_id results) = set (batch_ids items)"
  shows "(progress n (answered results q'), progress n q) \<in> progress_less n"
proof -
  let ?q2 = "answered results q'" and ?S = "set (batch_ids items)"
  have le: "tokens_left ?q2 x \<le> tokens_left q x" for x using order_trans [OF answered_tokens rescheduled_tokens [OF rs]] .
  have dom: "dom ?q2 = dom q" using answered_dom rescheduled_dom [OF rs] by simp
  have data: "\<exists>r table it res. q' x = Some r \<and> rq_state r = Running \<and> it \<in> set items \<and> item_for r table bl it \<and> result_for it res \<and>
     ?q2 x = Some (completed res r) \<and> 0 < cached_len_delta res \<and> cached_len r + cached_len_delta res < word_limit" if x: "x \<in> ?S" for x
  proof -
    obtain it where it: "it \<in> set items" "x = request_id it" using x by (auto simp: batch_ids_def)
    obtain r table res where r: "q' x = Some r" "rq_state r = Running" "item_for r table bl it" "result_of results x = Some res" "result_for it res"
      using item [OF it(1)] it(2) by blast
    then show ?thesis using result_in_budget(3,6) [OF st' [OF r(1)] r(2,3,5)] it(1) by (auto simp: answered_def)
  qed
  consider (A) x r msg where "q x = Some r" "rq_state r = Running" "q' x = Some (failed msg r)"
    | (B) x where "x \<in> ?S" "tokens_left ?q2 x < tokens_left q' x"
    | (C) "\<And>x r msg. q x = Some r \<Longrightarrow> rq_state r = Running \<Longrightarrow> q' x \<noteq> Some (failed msg r)" "\<And>x. x \<in> ?S \<Longrightarrow> \<not> tokens_left ?q2 x < tokens_left q' x"
    by blast
  then show ?thesis
  proof cases
    case A
    have "tokens_left q' x = 0" using A(3) by (simp add: tokens_left_def is_active_def)
    moreover have "0 < tokens_left q x" by (rule tokens_left_active [where q = q, OF st [OF A(1)] A(1)]) (simp add: is_active_def A(2))
    ultimately have "tokens_left ?q2 x < tokens_left q x" using answered_tokens [of results q' x] by simp
    then show ?thesis by (rule progress_tokens [OF fin dom le])
  next
    case B
    then have "tokens_left ?q2 x < tokens_left q x" using rescheduled_tokens [OF rs, of x] by simp
    then show ?thesis by (rule progress_tokens [OF fin dom le])
  next
    case C
    have quiet: "\<not> need_sample it \<and> completion_of r res = None"
      if x: "x \<in> ?S" and r: "q' x = Some r" "rq_state r = Running" "result_for it res" "?q2 x = Some (completed res r)" for x r it res
    proof (rule ccontr)
      assume no: "\<not> (\<not> need_sample it \<and> completion_of r res = None)"
      have "length (rq_generated r) < max_new_len r" using st' [OF r(1)] r(2) by (simp add: stored_ok_def)
      then have "tokens_left ?q2 x < tokens_left q' x"
        using no r by (auto simp: tokens_left_def is_active_def result_for_def split: if_splits)
      then show False using C(2) [OF x] by blast
    qed
    have blame: "b \<in> ?S \<and> arrival_index rb < arrival_index r"
      if d: "q x = Some r" "b \<noteq> x" "q b = Some rb" "rq_state rb = Running" "precedes pol rb r"
        "(\<exists>msg. q' b = Some (failed msg rb)) \<or> b \<in> ?S \<and> q' b = Some rb" for x r b rb
    proof -
      have b: "b \<in> ?S" "q' b = Some rb" using d(6) C(1) [OF d(3,4)] by auto
      obtain r0 table it res where t: "q' b = Some r0" "rq_state r0 = Running" "item_for r0 table bl it" "result_for it res" "?q2 b = Some (completed res r0)"
        using data [OF b(1)] by blast
      have "\<not> need_sample it" using quiet [OF b(1) t(1,2,4,5)] by simp
      then have "\<not> work_is_decode rb" using t(1,3) b(2) by (simp add: item_for_def)
      then have "arrival_index rb \<le> arrival_index r"
        using scheduling_policy.prefill_by_arrival [OF sp, of "policy_request_of rb" "policy_request_of r"] d(5)
        by (simp add: precedes_def policy_request_of_def work_type_of_def)
      moreover have "arrival_index rb \<noteq> arrival_index r" using inj [OF d(3,1)] d(2) by blast
      ultimately show ?thesis using b(1) by simp
    qed
    let ?arr = "\<lambda>x. arrival_index (the (q x))"
    have member: "\<exists>r. q x = Some r" if "x \<in> ?S" for x using data [OF that] rescheduled_dom [OF rs] by blast
    obtain x0 where "x0 \<in> ?S" using ne by (cases items) (auto simp: batch_ids_def)
    then obtain y where y: "y \<in> ?S" "\<And>x. x \<in> ?S \<Longrightarrow> ?arr y \<le> ?arr x" using ex_has_least_nat [of "\<lambda>x. x \<in> ?S" x0 ?arr] by blast
    obtain ry where ry: "q y = Some ry" using member [OF y(1)] by blast
    have first: "arrival_index ry \<le> arrival_index r" if "x \<in> ?S" "q x = Some r" for x r using y(2) [OF that(1)] that(2) ry by simp
    obtain r0 table it res where t: "q' y = Some r0" "rq_state r0 = Running" "it \<in> set items" "item_for r0 table bl it" "result_for it res"
      "?q2 y = Some (completed res r0)" "0 < cached_len_delta res" "cached_len r0 + cached_len_delta res < word_limit"
      using data [OF y(1)] by blast
    have run: "prefill_left ?q2 y = word_limit - 1 - (cached_len r0 + cached_len_delta res)"
      using t(2,6) quiet [OF y(1) t(1,2,5,6)] by (simp add: prefill_left_def)
    have dec: "prefill_left ?q2 y < prefill_left q y"
    proof (rule rescheduled_cases [OF rs ry])
      assume "q' y = Some ry"
      then show ?thesis using run t(1,2,7,8) ry by (simp add: prefill_left_def)
    next
      fix msg
      assume "rq_state ry = Running" "q' y = Some (failed msg ry)"
      then show ?thesis using C(1) [OF ry] by blast
    next
      fix c
      assume "rq_state ry = Waiting"
      then show ?thesis using run ry by (simp add: prefill_left_def word_limit_def)
    next
      fix b rb
      assume "b \<noteq> y" "q b = Some rb" "rq_state rb = Running" "precedes pol rb ry" "(\<exists>msg. q' b = Some (failed msg rb)) \<or> b \<in> ?S \<and> q' b = Some rb"
      from blame [OF ry this] first [of b rb] \<open>q b = Some rb\<close> show ?thesis by simp
    qed
    have before: "prefill_left ?q2 x = prefill_left q x" if x: "q x = Some r" "arrival_index r < arrival_index ry" for x r
    proof -
      have out: "x \<notin> ?S" using first [OF _ x(1)] x(2) by auto
      then have "?q2 x = q' x" using only result_of_None [of results x] by (simp add: answered_def)
      moreover have "q' x = q x"
      proof (rule rescheduled_cases [OF rs x(1)])
        fix b rb
        assume "b \<noteq> x" "q b = Some rb" "rq_state rb = Running" "precedes pol rb r" "(\<exists>msg. q' b = Some (failed msg rb)) \<or> b \<in> ?S \<and> q' b = Some rb"
        from blame [OF x(1) this] first [of b rb] \<open>q b = Some rb\<close> x(2) show ?thesis by simp
      qed (use out x(1) C(1) [OF x(1)] in auto)
      ultimately show ?thesis by (simp add: prefill_left_def)
    qed
    have arr: "arrival_index r' = arrival_index r" if "q x = Some r" "?q2 x = Some r'" for x r r'
      using rescheduled_data [OF rs that(1)] that(2) by (auto simp: answered_def split: option.splits)
    have lt: "arrival_index ry < n" using st [OF ry] by (simp add: stored_ok_def)
    show ?thesis by (rule progress_digits [OF fin dom le arr inj ry lt dec before])
  qed
qed

end
