(* ===== verification/ServerDrain.thy ===== *)
theory ServerDrain
  imports Server
begin

text \<open>
  The server loop ends: with every request in a terminal state and every block free again, whatever the executor
  answers or raises, as long as the pool has room for one chunk.
\<close>

section \<open>Rounds\<close>

lemma of_ctl_simps: "f s = (Inr x, s') \<Longrightarrow> of_ctl display f s = Inr (x, s')" "f s = (Inl e, s') \<Longrightarrow> of_ctl display f s = Inl (py_of_control display e)"
  by (simp_all add: of_ctl_def)

lemma issued_formed: "items_ok s items \<Longrightarrow> batch_formed \<lparr> step_id = k, requests = items \<rparr>"
  by (auto simp: batch_formed_def items_ok_def item_ok_def item_for_def)

text \<open>The state the loop starts a round in.\<close>

definition idle_ok :: "(8 word list \<Rightarrow> digest) \<Rightarrow> scheduler \<Rightarrow> bool" where
  "idle_ok sha s = (sched_ok sha s \<and> outstanding s = None)"

definition round_done :: "(8 word list \<Rightarrow> digest) \<Rightarrow> scheduler \<Rightarrow> scheduler \<Rightarrow> bool" where
  "round_done sha s s' =
     (idle_ok sha s' \<and> setting_kept s s' \<and> next_arrival s' = next_arrival s \<and> dom (sched_requests s') = dom (sched_requests s))"

lemma round_done_trans: "round_done sha s s' \<Longrightarrow> round_done sha s' s'' \<Longrightarrow> round_done sha s s''"
  by (simp add: round_done_def setting_kept_def)

lemma issued_batch:
  assumes ok: "idle_ok sha s" and b: "batched sha s items s'" and ne: "items \<noteq> []"
    and s2: "s2 = s'\<lparr> next_step := next_step s + 1, outstanding := Some plan \<rparr>" and plan: "plan = \<lparr> step_id = next_step s, requests = items \<rparr>"
  shows "sched_core sha s2" "items_ok s2 items" "outstanding s2 = Some plan" "setting_kept s s2" "next_arrival s2 = next_arrival s"
    "scheduling_policy (sched_policy s2)" "sched_requests s2 = sched_requests s'"
  using assms by (simp_all add: batched_def idle_ok_def sched_ok_def sched_frame_def setting_kept_def)

lemma settled_round:
  assumes "sched_core sha s3" "same_settings (s2\<lparr> outstanding := None \<rparr>) s3" "setting_kept s s2" "next_arrival s2 = next_arrival s"
    "scheduling_policy (sched_policy s2)" "dom (sched_requests s3) = dom (sched_requests s)"
  shows "round_done sha s s3"
  using assms by (simp add: round_done_def idle_ok_def sched_ok_def same_settings_def setting_kept_def)

context answering_executor begin

lemma run_once_cases:
  assumes ok: "idle_ok sha s"
  shows "run_once (control_env sha display describe exec) (s, e) = Inl (py_of_control display ArithmeticOverflow) \<or>
    (\<exists>s'. run_once (control_env sha display describe exec) (s, e) = Inr (False, s', e) \<and> round_done sha s s' \<and> exhausted s') \<or>
    (\<exists>s' e'. run_once (control_env sha display describe exec) (s, e) = Inr (True, s', e') \<and> round_done sha s s' \<and>
      (progress (next_arrival s) (sched_requests s'), progress (next_arrival s) (sched_requests s)) \<in> progress_less (next_arrival s))"
proof -
  let ?env = "control_env sha display describe exec" and ?n = "next_arrival s" and ?q = "sched_requests s"
  have core: "sched_core sha s" "scheduling_policy (sched_policy s)" and none: "outstanding s = None" using ok by (simp_all add: idle_ok_def sched_ok_def)
  note d = sched_coreD [OF core(1)]
  obtain items s' where b: "batched sha s items s'" and sched: "schedule_batch sha s =
      (if items = [] then (Inr None, s')
       else if next_step s + 1 < word_limit
       then (Inr (Some \<lparr> step_id = next_step s, requests = items \<rparr>),
             s'\<lparr> next_step := next_step s + 1, outstanding := Some \<lparr> step_id = next_step s, requests = items \<rparr> \<rparr>)
       else (Inl ArithmeticOverflow, s'))" and ex: "items = [] \<longrightarrow> exhausted s'"
    using schedule_batch_ok [OF core none] by blast
  have core': "sched_core sha s'" and frame: "sched_frame sha s s'" and items: "items_ok s' items"
    and rs: "rescheduled (sched_policy s) ?q (sched_requests s') items" using b by (simp_all add: batched_def)
  note dom = rescheduled_dom [OF rs]
  consider "items = []" | "items \<noteq> []" "\<not> next_step s + 1 < word_limit" | "items \<noteq> []" "next_step s + 1 < word_limit" by blast
  then show ?thesis
  proof cases
    case 1
    then have "run_once ?env (s, e) = Inr (False, s', e)" using sched by (simp add: run_once_def control_env_def of_ctl_def)
    moreover have "round_done sha s s'"
      using core' frame dom core(2) none frame_setting [OF frame] by (simp add: round_done_def idle_ok_def sched_ok_def sched_frame_def)
    ultimately show ?thesis using ex 1 by blast
  next
    case 2
    then show ?thesis using sched by (simp add: run_once_def control_env_def of_ctl_def)
  next
    case 3
    let ?plan = "\<lparr> step_id = next_step s, requests = items \<rparr>"
    define s2 where "s2 = s'\<lparr> next_step := next_step s + 1, outstanding := Some ?plan \<rparr>"
    note i = issued_batch [OF ok b 3(1) s2_def refl]
    have items2: "items_ok s2 (requests ?plan)" using i(2) by simp
    have st: "stored_ok (sblock_len s) ?n x r" if "?q x = Some r" for x r by (rule d(5) [OF that])
    have st': "stored_ok (sblock_len s) ?n x r" if "sched_requests s' x = Some r" for x r
      using sched_coreD(5) [OF core' that] frame by (simp add: sched_frame_def)
    have schedule: "of_ctl display (schedule_batch sha) s = Inr (Some ?plan, s2)" using sched 3 by (simp add: of_ctl_def s2_def)
    obtain x e' where x: "exec ?plan e = (x, e')" by fastforce
    show ?thesis
    proof (cases x)
      case (Inl err)
      obtain s3 where s3: "fail_batch_items ?plan (describe err) s2 = (Inr (), s3)" "sched_core sha s3" "same_settings (s2\<lparr> outstanding := None \<rparr>) s3"
        "sched_requests s3 = failed_all (describe err) (set (batch_ids items)) (sched_requests s2)"
        using fail_batch_ok [OF i(1) items2 i(3), of "describe err"] by auto
      have run: "run_once ?env (s, e) = Inr (True, s3, e')"
        using schedule x Inl s3(1) by (simp add: run_once_def control_env_def of_ctl_def)
      have "round_done sha s s3" by (rule settled_round [OF s3(2,3) i(4-6)]) (simp add: s3(4) i(7) failed_all_dom dom)
      moreover have "(progress ?n (sched_requests s3), progress ?n ?q) \<in> progress_less ?n"
        unfolding s3(4) i(7)
      proof (rule round_failed [OF rs 3(1) d(4)])
        fix it
        assume "it \<in> set items"
        from planned_item [OF items this] st' show "\<exists>r. sched_requests s' (request_id it) = Some r \<and> rq_state r = Running \<and>
          stored_ok (sblock_len s) ?n (request_id it) r" by blast
      qed
      ultimately show ?thesis using run by blast
    next
      case (Inr result)
      have formed: "batch_formed ?plan" by (rule issued_formed [OF items])
      then have ans: "answers ?plan result" using answer x Inr by blast
      obtain s3 where s3: "apply_result_batch sha result s2 = (Inr (), s3)" "sched_core sha s3" "same_settings (s2\<lparr> outstanding := None \<rparr>) s3"
        "sched_requests s3 = answered (request_results result) (sched_requests s2)"
        using apply_result_accepts [OF i(1) items2 i(3) ans] by blast
      have run: "run_once ?env (s, e) = Inr (True, s3, e')"
        using schedule x Inr s3(1) by (simp add: run_once_def control_env_def of_ctl_def)
      have dist: "distinct (batch_ids (requests ?plan))" using formed by (simp add: batch_formed_def)
      have "round_done sha s s3" by (rule settled_round [OF s3(2,3) i(4-6)]) (simp add: s3(4) i(7) answered_dom dom)
      moreover have "(progress ?n (sched_requests s3), progress ?n ?q) \<in> progress_less ?n"
        unfolding s3(4) i(7)
      proof (rule round_answered [OF rs core(2) 3(1) d(4) d(6) st st'])
        fix it
        assume it: "it \<in> set items"
        obtain res where "result_of (request_results result) (request_id it) = Some res" "result_for it res"
          using answers_cover(2) [OF ans dist] it by auto
        with planned_item [OF items it] frame show "\<exists>r table res. sched_requests s' (request_id it) = Some r \<and> rq_state r = Running \<and>
          item_for r table (sblock_len s) it \<and> result_of (request_results result) (request_id it) = Some res \<and> result_for it res"
          by (auto simp: sched_frame_def)
      next
        show "set (map res_request_id (request_results result)) = set (batch_ids items)" using answers_cover(1) [OF ans dist] by simp
      qed
      ultimately show ?thesis using run by blast
    qed
  qed
qed

lemma drains:
  assumes "idle_ok sha s"
  shows "\<exists>r. run_until_idle (control_env sha display describe exec) (s, e) = Some r \<and>
    (r = Inl (py_of_control display ArithmeticOverflow) \<or> (\<exists>s' e'. r = Inr (s', e') \<and> round_done sha s s' \<and> exhausted s'))"
proof -
  let ?env = "control_env sha display describe exec"
  have "\<exists>r. run_until_idle ?env (s, e) = Some r \<and>
      (r = Inl (py_of_control display ArithmeticOverflow) \<or> (\<exists>s' e'. r = Inr (s', e') \<and> round_done sha s s' \<and> exhausted s'))"
    if "p = progress n (sched_requests s)" "n = next_arrival s" "idle_ok sha s" for p n s e
    using wf_progress [of n] that
  proof (induction p arbitrary: s e rule: wf_induct_rule)
    case (less p)
    from run_once_cases [OF less.prems(3), of display describe e] consider
        "run_once ?env (s, e) = Inl (py_of_control display ArithmeticOverflow)"
      | s' where "run_once ?env (s, e) = Inr (False, s', e)" "round_done sha s s'" "exhausted s'"
      | s' e' where "run_once ?env (s, e) = Inr (True, s', e')" "round_done sha s s'"
          "(progress n (sched_requests s'), progress n (sched_requests s)) \<in> progress_less n"
      using less.prems(2) by auto
    then show ?case
    proof cases
      case 1
      then show ?thesis by (subst run_until_idle.simps) simp
    next
      case 2
      then show ?thesis by (subst run_until_idle.simps) simp
    next
      case 3
      have "n = next_arrival s'" "idle_ok sha s'" using 3(2) less.prems(2) by (simp_all add: round_done_def)
      from less.IH [OF 3(3) [folded less.prems(1)] refl this, of e'] show ?thesis
        using 3(1) round_done_trans [OF 3(2)] by (subst run_until_idle.simps) auto
    qed
  qed
  then show ?thesis using assms by blast
qed

end

end
