(* ===== verification/ControlPlane.thy ===== *)
theory ControlPlane
  imports ServerDrain "HOL-Library.Code_Target_Nat"
begin

text \<open>
  What the control plane guarantees: the properties of the pool, the prefix cache, the batches and the results in
  every state the scheduler reaches, the end of the server loop, and a run that shows where a request that was
  preempted repeats a token.
\<close>

section \<open>Executors that answer\<close>

text \<open>\<open>FakeExecutor\<close> has no state.\<close>

definition fake_exec :: "batch_plan \<Rightarrow> 'e \<Rightarrow> execution_result outcome \<times> 'e" where
  "fake_exec b e = (fake_execute b, e)"

lemma fake_result: "fake_request_result it = Inr res \<Longrightarrow> result_for it res"
  by (auto simp: fake_request_result_def result_for_def obind_Inr_iff split: if_splits)

interpretation fake: answering_executor fake_exec
proof
  fix b :: batch_plan and e e' :: 'e and result
  assume b: "batch_formed b" and run: "fake_exec b e = (Inr result, e')"
  then obtain rs where rs: "omap fake_request_result (requests b) = Inr rs" "result = \<lparr> res_step_id = step_id b, request_results = rs \<rparr>"
    by (auto simp: fake_exec_def fake_execute_def obind_Inr_iff)
  have "list_all2 result_for (requests b) rs" using omap_Inr_nth [OF rs(1)] fake_result by (auto simp: list_all2_conv_all_nth)
  then show "answers b result" using answers_in_order [OF b] rs(2) by simp
qed

text \<open>The torch executor; \<open>after\<close> is the state an exception leaves.\<close>

definition torch_exec ::
    "(real option list \<Rightarrow> nat list) \<Rightarrow> (int \<Rightarrow> real list \<Rightarrow> nat) \<Rightarrow> int \<Rightarrow> (batch_plan \<Rightarrow> 'c executor \<Rightarrow> 'c executor)
       \<Rightarrow> batch_plan \<Rightarrow> 'c executor \<Rightarrow> execution_result outcome \<times> 'c executor" where
  "torch_exec argsort draw junk after b ex =
     (case torch_execute argsort draw junk b ex of Inl err \<Rightarrow> (Inl err, after b ex) | Inr (res, ex') \<Rightarrow> (Inr res, ex'))"

lemma torch_answers:
  assumes b: "batch_formed b" and run: "torch_execute argsort draw junk b ex = Inr (res, ex')"
  shows "answers b res"
proof -
  obtain mi logits ex1 tokens where t: "sample_tokens argsort draw junk b mi logits ex1 = Inr (tokens, ex')"
    "res = \<lparr> res_step_id = step_id b, request_results = map (\<lambda>i. request_result (ex_eos ex') tokens i (requests b ! i)) [0..<length (requests b)] \<rparr>"
    using run by (auto simp: torch_execute_def obind_Inr_iff)
  have "result_for (requests b ! i) (request_result (ex_eos ex') tokens i (requests b ! i))" if "i < length (requests b)" for i
  proof -
    have "tokens i \<noteq> None \<longleftrightarrow> req_sampling_plan (requests b ! i) \<noteq> None"
      using sample_tokens_dom [OF t(1)] that by (auto simp: sampling_indices_def domIff)
    moreover have "need_sample (requests b ! i) = (req_sampling_plan (requests b ! i) \<noteq> None)" using b that by (simp add: batch_formed_def)
    ultimately show ?thesis by (cases "tokens i"; cases "req_sampling_plan (requests b ! i)") (auto simp: request_result_def result_for_def)
  qed
  then have "list_all2 result_for (requests b) (request_results res)" unfolding t(2) by (simp add: list_all2_conv_all_nth)
  then show ?thesis using answers_in_order [OF b] t(2) by simp
qed

interpretation torch: answering_executor "torch_exec argsort draw junk after" for argsort draw junk after
  by unfold_locales (auto simp: torch_exec_def torch_answers split: sum.splits)

section \<open>A run\<close>

text \<open>Two requests with two prompt tokens each, submitted to a scheduler whose blocks hold three tokens.\<close>

definition greedy_spec :: "string \<Rightarrow> int list \<Rightarrow> nat \<Rightarrow> request_spec" where
  "greedy_spec rid prompt n =
     \<lparr> spec_id = rid, spec_prompt = prompt, spec_max_new_len = n, spec_sampling_params = sampling_params_greedy [] 0 \<rparr>"

definition two_requests :: "policy \<Rightarrow> nat \<Rightarrow> control_error + scheduler" where
  "two_requests pol nb =
     (case kv_manager_new nb 3 of Inl e \<Rightarrow> Inl e
      | Inr m \<Rightarrow> (case scheduler_new \<lparr> max_batch_len = 4, max_prefill_chunk_len = 2 \<rparr> pol m of Inl e \<Rightarrow> Inl e
        | Inr s \<Rightarrow> (case cbind (submit (greedy_spec ''a'' [10, 20] 3)) (\<lambda>_. submit (greedy_spec ''b'' [50, 60] 3)) s of
              (Inl e, _) \<Rightarrow> Inl e
            | (Inr _, s') \<Rightarrow> Inr s')))"

text \<open>The texts after the server, with \<open>FakeExecutor\<close> and a digest without collisions, has gone idle.\<close>

definition served_texts :: "policy \<Rightarrow> nat \<Rightarrow> (int list \<times> request_state) option list option" where
  "served_texts pol nb =
     (case two_requests pol nb of Inl _ \<Rightarrow> None
      | Inr s \<Rightarrow> (case run_until_idle (control_env (\<lambda>bytes. bytes) (\<lambda>_. []) (\<lambda>_. []) fake_exec) (s, ()) of
            Some (Inr (s', _)) \<Rightarrow> Some (map (\<lambda>rid. map_option (\<lambda>r. (rq_generated r, rq_state r)) (sched_requests s' rid)) [''a'', ''b''])
          | _ \<Rightarrow> None))"

declare run_until_idle.simps [code]

text \<open>C0: A request that is preempted after it has generated tokens can repeat one of them. \<open>FakeExecutor\<close>
  answers with the last fed token plus one, so the texts should be 21, 22, 23 and 61, 62, 63, and they are with
  four blocks. With two blocks request b is preempted holding 61, 62; it is fed again in chunks of two, and once its
  two prompt tokens are cached \<open>work_is_decode\<close> takes it for a decode request: its first generated token is fed
  and sampled from, although the second is already known, and 62 is generated again.\<close>

theorem preempted_request_repeats_token:
  "served_texts fcfs 4 = Some [Some ([21, 22, 23], Finished), Some ([61, 62, 63], Finished)] \<and>
   served_texts fcfs 2 = Some [Some ([21, 22, 23], Finished), Some ([61, 62, 62], Finished)]"
  by code_simp

lemma two_requests_reachable:
  assumes "two_requests pol nb = Inr s"
  shows "reachable sha \<lparr> max_batch_len = 4, max_prefill_chunk_len = 2 \<rparr> pol nb 3 s"
proof -
  let ?cfg = "\<lparr> max_batch_len = 4, max_prefill_chunk_len = 2 \<rparr>"
  obtain m s0 s1 where m: "kv_manager_new nb 3 = Inr m" "scheduler_new ?cfg pol m = Inr s0"
    "submit (greedy_spec ''a'' [10, 20] 3) s0 = (Inr (), s1)" "submit (greedy_spec ''b'' [50, 60] 3) s1 = (Inr (), s)"
    using assms by (auto simp: two_requests_def cbind_def split: sum.splits prod.splits)
  have fits: "call_fits 3 (Submit (greedy_spec rid [x, y] 3))" for rid x y
    by (simp add: call_fits_def spec_fits_def greedy_spec_def word_limit_def)
  have "reachable sha ?cfg pol nb 3 s0" by (rule reachable.start [OF m(1,2)])
  then have "reachable sha ?cfg pol nb 3 s1" by (rule reachable.call [OF _ fits [of "''a''" 10 20], where e = None]) (simp add: run_call_def m(3))
  then show ?thesis by (rule reachable.call [OF _ fits [of "''b''" 50 60], where e = None]) (simp add: run_call_def m(4))
qed

lemma either_policy: "pol = fcfs \<or> pol = decode_first \<Longrightarrow> scheduling_policy pol"
  using fcfs.scheduling_policy_axioms decode_first.scheduling_policy_axioms by blast

lemmas reached = reachable_ok [OF _ either_policy]

section \<open>The books of the cache\<close>

lemma count_refs: "count (refs al) b = (\<Sum>rid \<in> dom al. count (table_refs (al rid)) b)"
  by (simp add: refs_def count_sum)

lemma count_mset_list: "count (mset xs) b = count_list xs b"
  by (induction xs) auto

lemma running_dom:
  assumes "sched_core sha s"
  shows "dom (kv_manager.allocations (sched_cache s)) = set (running_ids s)"
proof -
  note d = sched_coreD [OF assms]
  have "x \<in> dom (sview (sched_requests s)) \<longleftrightarrow> x \<in> set (running_ids s)" for x
    unfolding d(9) by (auto simp: sview_def request_view_def in_state_def dom_def split: option.splits)
  then show ?thesis using mgr_okD(3) [OF d(3)] by blast
qed

lemma references:
  assumes "sched_core sha s"
  shows "count (refs (kv_manager.allocations (sched_cache s))) b = (\<Sum>rid \<in> set (running_ids s). count_list (table_of s rid) b)"
  by (simp add: count_refs running_dom [OF assms] mgr_table_refs count_mset_list)

text \<open>C0: The books of the block pool in every reachable state: a block's reference count is the number of times
  the tables of the running requests name it, the free list holds exactly the blocks nobody names, a block named
  twice is sealed, the digest table lists exactly the sealed blocks, and a running request has room for what it has
  cached, its full blocks being sealed under the digests of its own tokens.\<close>

theorem pool_books_balance:
  assumes "reachable sha config pol nb bl s" "pol = fcfs \<or> pol = decode_first"
  defines "p \<equiv> mgr_pool (sched_cache s)"
  shows "(\<forall>b < nb mod 2 ^ 32. ref_cnt (pool_blocks p ! b) = (\<Sum>rid \<in> set (running_ids s). count_list (table_of s rid) b)) \<and>
    free_set p = filter (\<lambda>b. ref_cnt (pool_blocks p ! b) = 0) [0..<nb mod 2 ^ 32] \<and>
    (\<forall>b < nb mod 2 ^ 32. 1 < ref_cnt (pool_blocks p ! b) \<longrightarrow> (\<exists>h. state_at p b = Sealed h)) \<and>
    (\<forall>h b. sealed_map p h = Some b \<longleftrightarrow> b < nb mod 2 ^ 32 \<and> state_at p b = Sealed h) \<and>
    (\<forall>rid r. sched_requests s rid = Some r \<longrightarrow> rq_state r = Running \<longrightarrow> cached_len r \<le> length (table_of s rid) * bl \<and>
       (\<forall>i < cached_len r div bl. state_at p (table_of s rid ! i) = Sealed (chain_hash sha bl (context_token_ids r) (i + 1))))"
proof -
  have ok: "sched_ok sha s" and bl: "sblock_len s = bl" and size: "pool_size p = nb mod 2 ^ 32" using reached [OF assms(1,2)] by (simp_all add: p_def)
  have core: "sched_core sha s" using ok by (simp add: sched_ok_def)
  note m = mgr_okD [OF sched_coreD(3) [OF core]]
  note pool = pool_okD [OF m(4), folded p_def]
  have cnt: "ref_cnt (pool_blocks p ! b) = count (refs (kv_manager.allocations (sched_cache s))) b" if "b < nb mod 2 ^ 32" for b using pool(1) that size by simp
  have free: "free_set p = filter (\<lambda>b. ref_cnt (pool_blocks p ! b) = 0) [0..<nb mod 2 ^ 32]"
    unfolding pool(4) size by (rule filter_cong) (use cnt in \<open>auto simp: count_eq_zero_iff\<close>)
  have shared: "\<exists>h. state_at p b = Sealed h" if "b < nb mod 2 ^ 32" "1 < ref_cnt (pool_blocks p ! b)" for b
  proof (cases "state_at p b")
    case (Writable w)
    have "b \<in># refs (kv_manager.allocations (sched_cache s))" using that cnt by (metis count_greater_zero_iff less_trans zero_less_one)
    from m(5) [OF this] Writable have "count (refs (kv_manager.allocations (sched_cache s))) b = 1" by (simp add: p_def)
    then show ?thesis using that cnt by simp
  qed blast
  have tables: "cached_len r \<le> length (table_of s rid) * bl \<and>
       (\<forall>i < cached_len r div bl. state_at p (table_of s rid ! i) = Sealed (chain_hash sha bl (context_token_ids r) (i + 1)))"
    if "sched_requests s rid = Some r" "rq_state r = Running" for rid r
    using m(6) [OF sview_running [where q = "sched_requests s", OF that]] by (simp add: table_ok_def p_def bl)
  show ?thesis using cnt references [OF core] free shared pool(6) size tables by simp
qed

text \<open>The first batch of the two requests.\<close>

lemma schedule_outstanding: "schedule_batch sha s = (Inr (Some plan), s') \<Longrightarrow> outstanding s' = Some plan \<and> outstanding s = None"
  by (auto simp: schedule_batch_def cbind_def checked_add_def Let_def split: prod.splits sum.splits if_splits)

lemma first_schedule:
  obtains s plan s' where "two_requests fcfs 4 = Inr s" "schedule_batch (\<lambda>bytes. bytes) s = (Inr (Some plan), s')"
    "batch_ids (requests plan) = [''a'', ''b'']" "running_ids s' = [''a'', ''b'']" "map (table_of s') [''a'', ''b''] = [[0], [1]]"
    "map ref_cnt (pool_blocks (mgr_pool (sched_cache s'))) = [1, 1, 0, 0]"
proof -
  have "case two_requests fcfs 4 of Inl _ \<Rightarrow> False
    | Inr s \<Rightarrow> (case schedule_batch (\<lambda>bytes. bytes) s of
        (Inr (Some plan), s') \<Rightarrow> batch_ids (requests plan) = [''a'', ''b''] \<and> running_ids s' = [''a'', ''b''] \<and>
           map (table_of s') [''a'', ''b''] = [[0], [1]] \<and> map ref_cnt (pool_blocks (mgr_pool (sched_cache s'))) = [1, 1, 0, 0]
      | _ \<Rightarrow> False)"
    by code_simp
  then obtain s where s: "two_requests fcfs 4 = Inr s"
    "case schedule_batch (\<lambda>bytes. bytes) s of
        (Inr (Some plan), s') \<Rightarrow> batch_ids (requests plan) = [''a'', ''b''] \<and> running_ids s' = [''a'', ''b''] \<and>
           map (table_of s') [''a'', ''b''] = [[0], [1]] \<and> map ref_cnt (pool_blocks (mgr_pool (sched_cache s'))) = [1, 1, 0, 0]
      | _ \<Rightarrow> False"
    by (cases "two_requests fcfs 4") simp_all
  from s(2) obtain plan s' where t: "schedule_batch (\<lambda>bytes. bytes) s = (Inr (Some plan), s')"
    "batch_ids (requests plan) = [''a'', ''b''] \<and> running_ids s' = [''a'', ''b''] \<and>
       map (table_of s') [''a'', ''b''] = [[0], [1]] \<and> map ref_cnt (pool_blocks (mgr_pool (sched_cache s'))) = [1, 1, 0, 0]"
    by (simp split: prod.split_asm sum.split_asm option.split_asm)
  show thesis by (rule that [OF s(1) t(1)]) (use t(2) in simp_all)
qed

lemma first_reachable:
  assumes "two_requests fcfs 4 = Inr s" "schedule_batch (\<lambda>bytes. bytes) s = (Inr (Some plan), s')"
  shows "reachable (\<lambda>bytes. bytes) \<lparr> max_batch_len = 4, max_prefill_chunk_len = 2 \<rparr> fcfs 4 3 s'"
  by (rule reachable.call [OF two_requests_reachable [OF assms(1)], of Schedule _ None]) (simp_all add: call_fits_def run_call_def assms(2))

theorem pool_books_balance_witness:
  "\<exists>s. reachable (\<lambda>bytes. bytes) \<lparr> max_batch_len = 4, max_prefill_chunk_len = 2 \<rparr> fcfs 4 3 s \<and> running_ids s = [''a'', ''b''] \<and>
     free_set (mgr_pool (sched_cache s)) = [2, 3]"
proof -
  obtain s plan s' where s: "two_requests fcfs 4 = Inr s" "schedule_batch (\<lambda>bytes. bytes) s = (Inr (Some plan), s')"
    "running_ids s' = [''a'', ''b'']" "map ref_cnt (pool_blocks (mgr_pool (sched_cache s'))) = [1, 1, 0, 0]" by (rule first_schedule)
  note r = first_reachable [OF s(1,2)]
  let ?blocks = "pool_blocks (mgr_pool (sched_cache s'))"
  have "length ?blocks = 4" using arg_cong [OF s(4), of length] by simp
  then have cnt: "ref_cnt (?blocks ! b) = [1, 1, 0, 0] ! b" if "b < 4" for b using that s(4) by (metis nth_map)
  have "[0..<4 mod 2 ^ 32] = [0, 1, 2, 3 :: nat]" by (simp add: upt_rec)
  then have "free_set (mgr_pool (sched_cache s')) = [2, 3]"
    using pool_books_balance [OF r] cnt [of 0] cnt [of 1] cnt [of 2] cnt [of 3] by simp
  then show ?thesis using r s(3) by blast
qed

section \<open>Calls\<close>

text \<open>C0: No call panics in a reachable state, whatever its arguments: no assertion, \<open>expect\<close>, index or subtraction
  of the control plane fails.\<close>

theorem calls_never_panic:
  assumes "reachable sha config pol nb bl s" "pol = fcfs \<or> pol = decode_first" "call_fits bl c"
  shows "fst (run_call sha c s) \<noteq> Some Panic"
proof -
  have ok: "sched_ok sha s" "call_fits (sblock_len s) c" using reached [OF assms(1,2)] assms(3) by simp_all
  obtain e s' where run: "run_call sha c s = (e, s')" by fastforce
  from run_call_keeps [OF ok run] show ?thesis by (simp add: run)
qed

theorem calls_never_panic_witness:
  "\<exists>s. two_requests fcfs 4 = Inr s \<and> fst (run_call (\<lambda>bytes. bytes) (Cancel ''a'') s) \<noteq> Some Panic"
proof -
  obtain s where s: "two_requests fcfs 4 = Inr s" by (rule first_schedule)
  from calls_never_panic [OF two_requests_reachable [OF s, of "\<lambda>bytes. bytes"], of "Cancel ''a''"] s show ?thesis by (simp add: call_fits_def)
qed

text \<open>C0: A result is a transaction. One that answers the batch in flight, request by request and in any order, is
  accepted and advances exactly the requests of the batch; any other is rejected and the scheduler is as before, the
  batch still in flight.\<close>

theorem result_is_a_transaction:
  assumes "reachable sha config pol nb bl s" "pol = fcfs \<or> pol = decode_first" "outstanding s = Some plan"
  shows "(answers plan result \<longrightarrow> (\<exists>s'. apply_result_batch sha result s = (Inr (), s') \<and> outstanding s' = None \<and>
      sched_requests s' = answered (request_results result) (sched_requests s))) \<and>
    (\<not> answers plan result \<longrightarrow> (\<exists>e. apply_result_batch sha result s = (Inl e, s)))"
proof -
  have ok: "sched_core sha s" "items_ok s (requests plan)" using reached [OF assms(1,2)] assms(3) by (simp_all add: sched_ok_def)
  show ?thesis
    using apply_result_accepts [OF ok assms(3), of result] apply_result_rejects [OF ok assms(3), of result] by (auto simp: same_settings_def)
qed

theorem result_is_a_transaction_witness:
  "\<exists>s plan e. outstanding s = Some plan \<and> apply_result_batch (\<lambda>bytes. bytes) \<lparr> res_step_id = step_id plan, request_results = [] \<rparr> s = (Inl e, s)"
proof -
  obtain s plan s' where s: "two_requests fcfs 4 = Inr s" "schedule_batch (\<lambda>bytes. bytes) s = (Inr (Some plan), s')"
    "batch_ids (requests plan) = [''a'', ''b'']" by (rule first_schedule)
  have o: "outstanding s' = Some plan" using schedule_outstanding [OF s(2)] by simp
  have "\<not> answers plan \<lparr> res_step_id = step_id plan, request_results = [] \<rparr>" using s(3) by (auto simp: answers_def batch_ids_def)
  then show ?thesis using result_is_a_transaction [OF first_reachable [OF s(1,2)] _ o] o by blast
qed

section \<open>Batches\<close>

lemma scheduled_state:
  assumes r: "reachable sha config pol nb bl s" "pol = fcfs \<or> pol = decode_first" and run: "schedule_batch sha s = (Inr (Some plan), s')"
  shows "sched_core sha s'" "items_ok s' (requests plan)" "sblock_len s' = bl" "batch_tokens (requests plan) \<le> max_batch_len config"
    "rescheduled pol (sched_requests s) (sched_requests s') (requests plan)" "sched_frame sha s (s'\<lparr> next_step := next_step s, outstanding := None \<rparr>)"
proof -
  have ok: "sched_core sha s" "scheduling_policy (sched_policy s)" and pol: "sched_policy s = pol" "sched_config s = config" "sblock_len s = bl"
    using reached [OF r] either_policy [OF r(2)] by (auto simp: sched_ok_def)
  have none: "outstanding s = None" using schedule_outstanding [OF run] by simp
  obtain items s2 where b: "batched sha s items s2" and eq: "schedule_batch sha s =
      (if items = [] then (Inr None, s2)
       else if next_step s + 1 < word_limit
       then (Inr (Some \<lparr> step_id = next_step s, requests = items \<rparr>),
             s2\<lparr> next_step := next_step s + 1, outstanding := Some \<lparr> step_id = next_step s, requests = items \<rparr> \<rparr>)
       else (Inl ArithmeticOverflow, s2))"
    using schedule_batch_ok [OF ok none] by blast
  then have plan: "plan = \<lparr> step_id = next_step s, requests = items \<rparr>" "s' = s2\<lparr> next_step := next_step s + 1, outstanding := Some plan \<rparr>"
    using run by (auto split: if_splits)
  have s2: "sched_core sha s2" "sched_frame sha s s2" "items_ok s2 items" using b by (simp_all add: batched_def)
  then have "s2 = s'\<lparr> next_step := next_step s, outstanding := None \<rparr>" using plan none by (simp add: sched_frame_def)
  then show "sched_frame sha s (s'\<lparr> next_step := next_step s, outstanding := None \<rparr>)" using s2(2) by simp
  show "sched_core sha s'" "items_ok s' (requests plan)" "sblock_len s' = bl" using s2 plan pol by (simp_all add: sched_frame_def)
  show "batch_tokens (requests plan) \<le> max_batch_len config" "rescheduled pol (sched_requests s) (sched_requests s') (requests plan)"
    using b plan pol by (simp_all add: batched_def)
qed

text \<open>The blocks a batch writes are private: no other running request names them.\<close>

lemma written_private:
  assumes core: "sched_core sha s" and r: "sched_requests s rid = Some r" "rq_state r = Running"
    and p: "cached_len r \<le> p" "p < length (table_of s rid) * sblock_len s"
  shows "p div sblock_len s < length (table_of s rid)"
    "(\<Sum>x \<in> set (running_ids s). count_list (table_of s x) (table_of s rid ! (p div sblock_len s))) = 1"
proof -
  note m = mgr_okD [OF sched_coreD(3) [OF core]]
  let ?i = "p div sblock_len s" and ?t = "table_of s rid"
  show i: "?i < length ?t" using p(2) m(1) by (simp add: less_mult_imp_div_less)
  have "cached_len r div sblock_len s \<le> ?i" using p(1) by (rule div_le_mono)
  then obtain w where w: "state_at (mgr_pool (sched_cache s)) (?t ! ?i) = Writable w"
    using m(6) [OF sview_running [where q = "sched_requests s", OF r]] i by (auto simp: table_ok_def)
  have "?t ! ?i \<in># refs (kv_manager.allocations (sched_cache s))" by (rule table_in_refs [OF sched_coreD(3) [OF core] nth_mem [OF i]])
  from m(5) [OF this w] show "(\<Sum>x \<in> set (running_ids s). count_list (table_of s x) (?t ! ?i)) = 1" by (simp add: references [OF core])
qed

text \<open>C0: A batch fits the token budget, names each request once, and each item feeds the next uncached tokens of a
  running request from its cached length on, with a block table that has room for them, asking for a token when the
  context ends or the request decodes; the blocks it writes to are in no other running request's table and nowhere
  else in its own.\<close>

theorem schedule_batch_sound:
  assumes "reachable sha config pol nb bl s" "pol = fcfs \<or> pol = decode_first" "schedule_batch sha s = (Inr (Some plan), s')"
  shows "batch_tokens (requests plan) \<le> max_batch_len config \<and> distinct (batch_ids (requests plan)) \<and>
    (\<forall>it \<in> set (requests plan). \<exists>r. sched_requests s' (request_id it) = Some r \<and> rq_state r = Running \<and>
       start_position it = cached_len r \<and> input_token_ids it \<noteq> [] \<and>
       input_token_ids it = take (length (input_token_ids it)) (drop (cached_len r) (context_token_ids r)) \<and>
       block_table it = map int (table_of s' (request_id it)) \<and>
       (need_sample it \<longleftrightarrow> length (prompt_token_ids r) \<le> cached_len r \<or> cached_len r + length (input_token_ids it) = length (context_token_ids r)) \<and>
       (\<forall>p. cached_len r \<le> p \<longrightarrow> p < cached_len r + length (input_token_ids it) \<longrightarrow>
          p div bl < length (table_of s' (request_id it)) \<and>
          (\<Sum>x \<in> set (running_ids s'). count_list (table_of s' x) (table_of s' (request_id it) ! (p div bl))) = 1))"
proof (intro conjI ballI)
  note st = scheduled_state [OF assms]
  show "batch_tokens (requests plan) \<le> max_batch_len config" by (rule st(4))
  show "distinct (batch_ids (requests plan))" using st(2) by (simp add: items_ok_def)
  fix it
  assume "it \<in> set (requests plan)"
  from planned_item [OF st(2) this] obtain r where r: "sched_requests s' (request_id it) = Some r" "rq_state r = Running"
    "item_for r (table_of s' (request_id it)) (sblock_len s') it" by blast
  have "p div bl < length (table_of s' (request_id it)) \<and>
      (\<Sum>x \<in> set (running_ids s'). count_list (table_of s' x) (table_of s' (request_id it) ! (p div bl))) = 1"
    if "cached_len r \<le> p" "p < cached_len r + length (input_token_ids it)" for p
  proof -
    have "cached_len r + length (input_token_ids it) \<le> length (table_of s' (request_id it)) * sblock_len s'" using r(3) unfolding item_for_def by blast
    then have "p < length (table_of s' (request_id it)) * sblock_len s'" by (rule less_le_trans [OF that(2)])
    from written_private [OF st(1) r(1,2) that(1) this] show ?thesis unfolding st(3) by blast
  qed
  then show "\<exists>r. sched_requests s' (request_id it) = Some r \<and> rq_state r = Running \<and>
       start_position it = cached_len r \<and> input_token_ids it \<noteq> [] \<and>
       input_token_ids it = take (length (input_token_ids it)) (drop (cached_len r) (context_token_ids r)) \<and>
       block_table it = map int (table_of s' (request_id it)) \<and>
       (need_sample it \<longleftrightarrow> length (prompt_token_ids r) \<le> cached_len r \<or> cached_len r + length (input_token_ids it) = length (context_token_ids r)) \<and>
       (\<forall>p. cached_len r \<le> p \<longrightarrow> p < cached_len r + length (input_token_ids it) \<longrightarrow>
          p div bl < length (table_of s' (request_id it)) \<and>
          (\<Sum>x \<in> set (running_ids s'). count_list (table_of s' x) (table_of s' (request_id it) ! (p div bl))) = 1)"
    using r unfolding item_for_def work_is_decode_def by blast
qed

theorem schedule_batch_sound_witness:
  "\<exists>s plan s'. two_requests fcfs 4 = Inr s \<and> schedule_batch (\<lambda>bytes. bytes) s = (Inr (Some plan), s') \<and>
     batch_ids (requests plan) = [''a'', ''b''] \<and> batch_tokens (requests plan) \<le> 4"
proof -
  obtain s plan s' where s: "two_requests fcfs 4 = Inr s" "schedule_batch (\<lambda>bytes. bytes) s = (Inr (Some plan), s')"
    "batch_ids (requests plan) = [''a'', ''b'']" by (rule first_schedule)
  from schedule_batch_sound [OF two_requests_reachable [OF s(1)] _ s(2)] have "batch_tokens (requests plan) \<le> 4" by simp
  then show ?thesis using s by blast
qed

text \<open>C0: A running request loses its place only to one that precedes it in the policy's order and that either runs in
  the batch or has itself failed for want of memory.\<close>

theorem preempted_made_way:
  assumes "reachable sha config pol nb bl s" "pol = fcfs \<or> pol = decode_first" "schedule_batch sha s = (Inr (Some plan), s')"
    and "sched_requests s x = Some r" "rq_state r = Running" "sched_requests s' x = Some r'" "rq_state r' = Waiting"
  shows "r' = preempted r \<and> (\<exists>b rb. b \<noteq> x \<and> sched_requests s b = Some rb \<and> rq_state rb = Running \<and>
    pol (policy_request_of rb) (policy_request_of r) \<noteq> Greater \<and>
    (b \<in> set (batch_ids (requests plan)) \<and> sched_requests s' b = Some rb \<or> (\<exists>msg. sched_requests s' b = Some (failed msg rb))))"
proof (rule rescheduled_cases [OF scheduled_state(5) [OF assms(1-3)] assms(4)])
  fix b rb
  assume b: "b \<noteq> x" "sched_requests s b = Some rb" "rq_state rb = Running" "precedes pol rb r"
    "(\<exists>msg. sched_requests s' b = Some (failed msg rb)) \<or> b \<in> set (batch_ids (requests plan)) \<and> sched_requests s' b = Some rb"
    "sched_requests s' x = Some (preempted r) \<or> (\<exists>c. sched_requests s' x = Some (admitted c r) \<and> x \<in> set (batch_ids (requests plan)))"
  have "r' = preempted r" using b(6) assms(6,7) by auto
  then show ?thesis using b(1-5) unfolding precedes_def by blast
qed (use assms(5-7) in auto)

end
