(* ===== verification/Spec2Isabelle.thy ===== *)
theory Spec2Isabelle
  imports DecodeGraph TreeEngine SpecLossless Executor W4A16Pack MoE QwenLossless ControlPlane
begin

text \<open>
  A verification library for einf, a small LLM inference engine.

  \<^bold>\<open>The program.\<close> A request enters the scheduler (\<open>crates/einf-control/src\<close>, Rust, seen from Python through
  \<open>einf/scheduler.py\<close>), which picks a batch under a token budget and reserves blocks of the paged key/value
  cache. The server loop (\<open>einf/lib.py\<close>) hands the batch to an executor (\<open>executors/torch/executor.py\<close>). The
  executor turns it into packed tensors (\<open>input.py\<close>), runs a model (\<open>model_runner.py\<close> or \<open>qwen.py\<close>), which
  writes to and reads from the paged cache (\<open>cache/storage.py\<close>), possibly by replaying a CUDA graph
  (\<open>decode_graph.py\<close>), and samples one token per request (\<open>sampler.py\<close>). The result goes back to the
  scheduler. Beside it stand the speculative decoders (\<open>speculative.py\<close>, \<open>spec_runner.py\<close>, \<open>spec_tree.py\<close>),
  which drive two runners directly, and the operators the runners use (\<open>fused_ops.py\<close>, \<open>triton_ops.py\<close>,
  \<open>triton_moe.py\<close>, \<open>w4a16.py\<close>, \<open>dsl/w4a16_pack.py\<close>, \<open>packed_qkv.py\<close>).

  \<^bold>\<open>Conventions.\<close> A Python function that can raise returns an \<open>outcome\<close>, an error or a value; a Rust method
  returns its result and the state it leaves, also on an error, and \<open>Panic\<close> stands for a failed assertion.
  Tensors are lists (a 2-D tensor is the list of its rows, \<open>Triton\<close> also has them flat), floating-point
  numbers are exact reals, integers are unbounded except where their width matters: packed words and masks
  are machine words, \<open>usize\<close> sums are checked against \<open>word_limit\<close>. Objects are records passed through and
  returned. Code that is not in the repository (torch, FlashInfer, Marlin, CUDA graphs, SHA-256) is a
  parameter, with the part of its documented behaviour that the code relies on as a named hypothesis
  (\<open>fused_lib_ok\<close>, \<open>marlin_ok\<close>, \<open>attention_ops_ok\<close>, \<open>graph_rt_ok\<close>), which the witnesses instantiate.

  \<^bold>\<open>Theories.\<close>
  \<^item> \<open>Prelude\<close>: errors, outcomes, Python list access, row-wise tensor operations.
  \<^item> \<open>Plan\<close>: plans and results, \<open>FakeExecutor\<close>, \<open>LLMServer\<close>. \<open>run_until_idle\<close> is a \<open>partial_function\<close>, so a
    loop that does not end is the value \<open>None\<close>.
  \<^item> \<open>Control\<close>, \<open>BlockPool\<close>, \<open>KvCache\<close>, \<open>Scheduler\<close>: the control plane file by file. \<open>SchedulerInv\<close> and
    \<open>SchedulerRun\<close> prove its invariant: reference counts, free list and table of sealed blocks agree with the
    block tables of the running requests, no operation panics, and a preempted request makes way for one that
    precedes it in the policy's order. The locale \<open>scheduling_policy\<close> is what the scheduler needs of a policy.
  \<^item> \<open>Storage\<close>: the paged cache and its slot arithmetic. \<open>Input\<close>: \<open>ModelInput\<close>, its direct builder and the
    pooled builder. \<open>FlashInfer\<close>: the CSR page tables and the decode plan of the attention backend.
    \<open>DecodeGraph\<close>: buckets, static buffers, capture and replay.
  \<^item> \<open>Sampler\<close>, \<open>Executor\<close>: sampling, and one step of the executor against \<open>seq_logits\<close>, recomputation of the
    whole sequence.
  \<^item> \<open>ReferenceModel\<close>, \<open>CachedStack\<close>, \<open>CachedForward\<close>: the reference transformer; the contract of a layer over
    the paged cache (locale \<open>cached_stack\<close>); a packed forward equals recomputation.
  \<^item> \<open>Triton\<close>, \<open>TritonOps\<close>, \<open>FusedOps\<close>, \<open>PackedQKV\<close>, \<open>W4A16Pack\<close>, \<open>W4A16Serve\<close>, \<open>MoEAlign\<close>, \<open>MoE\<close>: the operators.
    A kernel launch runs its programs in an order that is a parameter.
  \<^item> \<open>Qwen\<close>, \<open>QwenForward\<close>, \<open>QwenModel\<close>, \<open>QwenGraph\<close>, \<open>QwenLossless\<close>: the Qwen runner, from its loaded checkpoint
    to the forward over the cache and its decode graph.
  \<^item> \<open>Decoding\<close>, \<open>Speculative\<close>, \<open>SpecRunner\<close>, \<open>SpecLossless\<close>, \<open>SpecTree\<close>, \<open>TreeEngine\<close>: speculation. \<open>Decoding\<close> is
    the specification, plain decoding of a language model; the locales \<open>lossless_stepper\<close> and \<open>causal_runner\<close>
    are what the engines need of a step and of a runner, and both model runners are shown to provide it.

  \<^bold>\<open>Loops.\<close> Most loops of the sources end by structural recursion or a measure. Those whose end has to be
  argued are \<open>partial_function\<close>s, where not returning is the value \<open>None\<close>: the server loop \<open>run_until_idle\<close>,
  \<open>generate_loop\<close> of the speculative engines, and the walks \<open>ancestors_loop\<close>, \<open>greedy_loop\<close> and \<open>sampling_loop\<close>
  through a token tree. That they return is part of the theorems about them (\<open>generate_returns\<close>,
  \<open>tree_generate_returns\<close>, \<open>greedy_path_lossless\<close>, \<open>sampling_path_exact\<close>). No fuel is used.

  \<^bold>\<open>Not modelled.\<close> The CuTe DSL kernels (\<open>executors/torch/dsl/flash_attention.py\<close>,
  \<open>flash_attention_single_tile.py\<close>, \<open>online_softmax.py\<close>, \<open>online_softmax_layout.py\<close>, \<open>w4a16_gemm.py\<close>): their meaning
  is the layout algebra and the tensor-core fragments of the package \<open>cutlass\<close>, which is not in the repository.
  Loading and registering compiled operators (\<open>ops\<close>), reading checkpoint files, scripts and benchmarks are
  I/O. Rounding of floating-point numbers, CUDA streams and events, and the state after an exception in the
  Python parts are not modelled.
\<close>

end
